(* ===== verification/Prelude.thy ===== *)
theory Prelude
  imports
    Main
    "HOL-Library.Word"
    "HOL-Library.AList"
    "HOL-Library.Multiset"
    "HOL-Library.List_Lexorder"
    "HOL-Library.Char_ord"
    "HOL-Library.Product_Lexorder"
begin

text \<open>
  Shared vocabulary of the development: the machine types, the pieces of the Rust standard
  library the components use (saturating arithmetic, \<open>rposition\<close>, \<open>Vec::remove\<close>, the
  \<open>entry\<close> interface of a hash map, decimal formatting) and the generic facts about them.

  A Rust \<open>u64\<close>, \<open>u32\<close>, \<open>i64\<close> is a word of that width; \<open>+\<close> and \<open>sum\<close> wrap, as they do in
  the release profile of the workspace (\<open>Cargo.toml\<close> sets no \<open>overflow-checks\<close>).  A
  \<open>String\<close> is the list of its UTF-8 bytes, so \<open>len\<close>, \<open>starts_with\<close> and the derived order are
  those of Isabelle's \<^typ>\<open>string\<close>.  A \<open>HashMap\<close> that is only looked up is a
  partial function; one that is iterated is an association list with distinct keys, whose
  order stands for one of the orders the hash map may produce.
\<close>

named_theorems conserve \<open>how an accumulator changes by one update\<close>

section \<open>Machine integers\<close>

type_synonym u8 = "8 word"
type_synonym u16 = "16 word"
type_synonym u32 = "32 word"
type_synonym u64 = "64 word"
type_synonym i32 = "32 word"
type_synonym i64 = "64 word"
type_synonym uuid = "128 word"
type_synonym bytes = "8 word list"

definition sat_add :: "u64 \<Rightarrow> u64 \<Rightarrow> u64" where
  "sat_add a b = (if unat a + unat b < 2 ^ 64 then a + b else - 1)"

definition sat_sub :: "u64 \<Rightarrow> u64 \<Rightarrow> u64" where
  "sat_sub a b = (if b \<le> a then a - b else 0)"

lemma unat_sat_add: "unat (sat_add a b) = min (unat a + unat b) (2 ^ 64 - 1)"
proof (cases "unat a + unat b < 2 ^ 64")
  case True
  then show ?thesis by (simp add: sat_add_def unat_word_ariths)
next
  case False
  have "unat (- 1 :: u64) = 2 ^ 64 - 1"
    by (simp add: unsigned_minus_1_eq_mask mask_eq_exp_minus_1)
  with False show ?thesis by (simp add: sat_add_def)
qed

lemma sat_add_mono: "a \<le> b \<Longrightarrow> sat_add a c \<le> sat_add b c"
  by (simp add: word_le_nat_alt unat_sat_add)

lemma unat64_less [simp]: "unat (a :: u64) < 18446744073709551616"
  by (rule order_less_le_trans [OF unsigned_less]) simp

lemma sat_add_ge: "a \<le> sat_add a c"
proof -
  have "unat a \<le> 18446744073709551615" using unat64_less [of a] by linarith
  then show ?thesis by (simp add: word_le_nat_alt unat_sat_add)
qed

lemma unat_sat_sub: "unat (sat_sub a b) = unat a - unat b"
  by (simp add: sat_sub_def word_le_nat_alt unat_sub word_le_nat_alt)

lemma sat_sub_le [simp]: "sat_sub a b \<le> a"
  by (simp add: word_le_nat_alt unat_sat_sub)

text \<open>\<open>sort_by_key(Reverse(k))\<close> is a stable sort on the negated key.\<close>

definition desc :: "u64 \<Rightarrow> int" where
  "desc w = - uint w"

lemma desc_le [simp]: "desc a \<le> desc b \<longleftrightarrow> b \<le> a"
  by (simp add: desc_def word_le_def)

lemma desc_less [simp]: "desc a < desc b \<longleftrightarrow> b < a"
  by (simp add: desc_def word_less_def)

lemma desc_inject [simp]: "desc a = desc b \<longleftrightarrow> a = b"
  by (simp add: desc_def word_uint_eq_iff)

text \<open>Positions in files and rings are naturals; \<open>u64\<close> arithmetic on them wraps.\<close>

definition u64_add :: "nat \<Rightarrow> nat \<Rightarrow> nat" where
  "u64_add a b = (a + b) mod 2 ^ 64"

definition u64_sub :: "nat \<Rightarrow> nat \<Rightarrow> nat" where
  "u64_sub a b = (a + (2 ^ 64 - b mod 2 ^ 64)) mod 2 ^ 64"

lemma u64_add_small [simp]: "a + b < 2 ^ 64 \<Longrightarrow> u64_add a b = a + b"
  by (simp add: u64_add_def)

lemma u64_sub_small [simp]:
  assumes "b \<le> a" and "a < 2 ^ 64"
  shows "u64_sub a b = a - b"
proof -
  have "a + (2 ^ 64 - b) = (a - b) + 2 ^ 64" using assms by simp
  moreover have "b mod 2 ^ 64 = b" using assms by simp
  ultimately have "u64_sub a b = ((a - b) + 2 ^ 64) mod 2 ^ 64"
    unfolding u64_sub_def by (simp only:)
  also have "\<dots> = (a - b) mod 2 ^ 64" by (rule mod_add_self2)
  also have "\<dots> = a - b" using assms by simp
  finally show ?thesis .
qed

section \<open>Vectors and positions\<close>

text \<open>\<open>iter().rposition(p)\<close>: the index of the last element satisfying \<open>p\<close>.\<close>

fun rposition :: "('a \<Rightarrow> bool) \<Rightarrow> 'a list \<Rightarrow> nat option" where
  "rposition p [] = None"
| "rposition p (x # xs) =
     (case rposition p xs of Some i \<Rightarrow> Some (Suc i) | None \<Rightarrow> if p x then Some 0 else None)"

definition remove_at :: "nat \<Rightarrow> 'a list \<Rightarrow> 'a list" where
  "remove_at i xs = take i xs @ drop (Suc i) xs"

lemma rposition_None: "rposition p xs = None \<longleftrightarrow> (\<forall>x \<in> set xs. \<not> p x)"
  by (induction xs) (auto split: option.splits)

lemma rposition_Some:
  "rposition p xs = Some i \<Longrightarrow>
     i < length xs \<and> p (xs ! i) \<and> (\<forall>j. i < j \<and> j < length xs \<longrightarrow> \<not> p (xs ! j))"
proof (induction xs arbitrary: i)
  case Nil
  then show ?case by simp
next
  case (Cons x xs)
  show ?case
  proof (cases "rposition p xs")
    case None
    with Cons.prems have "i = 0" and "p x" by (auto split: if_splits)
    with None show ?thesis by (auto simp: nth_Cons rposition_None split: nat.splits)
  next
    case (Some k)
    with Cons.prems have "i = Suc k" by simp
    with Cons.IH [OF Some] show ?thesis by (auto simp: nth_Cons split: nat.splits)
  qed
qed

lemma rposition_eqI:
  assumes "i < length xs" and "p (xs ! i)"
    and "\<And>j. i < j \<Longrightarrow> j < length xs \<Longrightarrow> \<not> p (xs ! j)"
  shows "rposition p xs = Some i"
proof (cases "rposition p xs")
  case None
  with assms(1,2) show ?thesis by (auto simp: rposition_None)
next
  case (Some k)
  from rposition_Some [OF this] assms have "\<not> i < k" and "\<not> k < i" by blast+
  with Some show ?thesis by simp
qed

lemma length_remove_at: "i < length xs \<Longrightarrow> length (remove_at i xs) = length xs - 1"
  by (simp add: remove_at_def)

lemma mset_remove_at: "i < length xs \<Longrightarrow> mset xs = add_mset (xs ! i) (mset (remove_at i xs))"
  by (metis id_take_nth_drop mset.simps(2) mset_append remove_at_def union_mset_add_mset_right)

lemma set_remove_at: "set (remove_at i xs) \<subseteq> set xs"
  by (auto simp: remove_at_def dest: in_set_takeD in_set_dropD)

lemma distinct_remove_at:
  assumes "distinct xs" and "i < length xs"
  shows "distinct (remove_at i xs)" and "set (remove_at i xs) = set xs - {xs ! i}"
proof -
  have *: "xs = take i xs @ xs ! i # drop (Suc i) xs"
    using assms(2) by (rule id_take_nth_drop)
  from assms(1) have d: "distinct (take i xs @ xs ! i # drop (Suc i) xs)"
    using * by simp
  then show "distinct (remove_at i xs)" by (simp add: remove_at_def)
  have "set xs = set (take i xs @ xs ! i # drop (Suc i) xs)" using * by simp
  with d show "set (remove_at i xs) = set xs - {xs ! i}" by (auto simp: remove_at_def)
qed

text \<open>The last element satisfying \<open>p\<close>, as \<open>iter().rev().find(p)\<close> returns it.\<close>

definition rfind :: "('a \<Rightarrow> bool) \<Rightarrow> 'a list \<Rightarrow> 'a option" where
  "rfind p xs = (case filter p xs of [] \<Rightarrow> None | ys \<Rightarrow> Some (last ys))"

lemma rfind_rposition: "rfind p xs = map_option (nth xs) (rposition p xs)"
proof (induction xs)
  case Nil
  then show ?case by (simp add: rfind_def)
next
  case (Cons x xs)
  show ?case
  proof (cases "rposition p xs")
    case None
    then have "filter p xs = []" by (simp add: filter_empty_conv rposition_None)
    with None show ?thesis by (cases "p x") (simp_all add: rfind_def)
  next
    case (Some i)
    then have "filter p xs \<noteq> []"
      using rposition_Some [OF Some] by (auto simp: filter_empty_conv)
    with Some Cons.IH show ?thesis
      by (auto simp: rfind_def neq_Nil_conv split: list.splits)
  qed
qed

lemma rfind_alt: "rfind p xs = (if filter p xs = [] then None else Some (last (filter p xs)))"
  by (simp add: rfind_def split: list.splits)

lemma rfind_last: "xs \<noteq> [] \<Longrightarrow> p (last xs) \<Longrightarrow> rfind p xs = Some (last xs)"
  by (cases xs rule: rev_cases) (simp_all add: rfind_alt)

lemma rfind_snoc: "rfind p (xs @ [x]) = (if p x then Some x else rfind p xs)"
  by (simp add: rfind_alt)

text \<open>What each element contributes, given those before it.\<close>

lemma concat_upto_snoc:
  "concat (map (\<lambda>i. f (take i (xs @ [x])) ((xs @ [x]) ! i)) [0..<length (xs @ [x])]) =
     concat (map (\<lambda>i. f (take i xs) (xs ! i)) [0..<length xs]) @ f xs x"
proof -
  have "f (take i (xs @ [x])) ((xs @ [x]) ! i) = f (take i xs) (xs ! i)" if "i < length xs" for i
    using that by (simp add: nth_append)
  then have "map (\<lambda>i. f (take i (xs @ [x])) ((xs @ [x]) ! i)) [0..<length xs] =
      map (\<lambda>i. f (take i xs) (xs ! i)) [0..<length xs]"
    by (intro map_cong) simp_all
  then show ?thesis by (simp only: length_append_singleton upt_Suc_append map_append concat_append) simp
qed

section \<open>Hash maps that are iterated\<close>

text \<open>\<open>*map.entry(k).or_insert(d) = f(..)\<close>: update in place, or insert at the end.\<close>

definition entry_mod :: "'k \<Rightarrow> 'v \<Rightarrow> ('v \<Rightarrow> 'v) \<Rightarrow> ('k \<times> 'v) list \<Rightarrow> ('k \<times> 'v) list" where
  "entry_mod k d f al = AList.update k (f (case map_of al k of None \<Rightarrow> d | Some v \<Rightarrow> v)) al"

definition alist_sum :: "('v \<Rightarrow> 'a::comm_monoid_add) \<Rightarrow> ('k \<times> 'v) list \<Rightarrow> 'a" where
  "alist_sum g al = sum_list (map (g \<circ> snd) al)"

lemma alist_sum_simps [simp]:
  "alist_sum g [] = 0"
  "alist_sum g ((k, v) # al) = g v + alist_sum g al"
  "alist_sum g (xs @ ys) = alist_sum g xs + alist_sum g ys"
  by (simp_all add: alist_sum_def)

lemma distinct_update [simp]:
  "distinct (map fst al) \<Longrightarrow> distinct (map fst (AList.update k v al))"
  by (rule distinct_update)

lemma distinct_entry_mod [simp]:
  "distinct (map fst al) \<Longrightarrow> distinct (map fst (entry_mod k d f al))"
  by (simp add: entry_mod_def)

lemma map_of_entry_mod [simp]:
  "map_of (entry_mod k d f al) =
     (map_of al)(k \<mapsto> f (case map_of al k of None \<Rightarrow> d | Some v \<Rightarrow> v))"
  by (simp add: entry_mod_def update_conv' del: fun_upd_apply)

lemma keys_entry_mod [simp]: "fst ` set (entry_mod k d f al) = insert k (fst ` set al)"
  by (simp add: entry_mod_def dom_update)

lemma alist_sum_update:
  fixes g :: "'v \<Rightarrow> 'a::ab_group_add"
  assumes "distinct (map fst al)"
  shows "alist_sum g (AList.update k v al) =
    alist_sum g al + g v - (case map_of al k of None \<Rightarrow> 0 | Some w \<Rightarrow> g w)"
  using assms
proof (induction al)
  case Nil
  then show ?case by simp
next
  case (Cons p al)
  obtain k' w where p: "p = (k', w)" by (cases p)
  from Cons.prems p have d: "distinct (map fst al)" and n: "k' \<notin> fst ` set al" by auto
  show ?case
  proof (cases "k' = k")
    case True
    from n True have "map_of al k = None" by (simp add: map_of_eq_None_iff)
    with True p show ?thesis by simp
  next
    case False
    with Cons.IH [OF d] p show ?thesis by (simp add: algebra_simps)
  qed
qed

lemma alist_sum_entry_mod [conserve]:
  fixes g :: "'v \<Rightarrow> 'a::ab_group_add"
  assumes "distinct (map fst al)" and "\<And>v. g (f v) = g v + c" and "g d = 0"
  shows "alist_sum g (entry_mod k d f al) = alist_sum g al + c"
  using alist_sum_update [OF assms(1), of g k] assms(2,3)
  by (auto simp: entry_mod_def split: option.splits)

lemma sum_list_list_update:
  fixes xs :: "'a::ab_group_add list"
  assumes "i < length xs"
  shows "sum_list (xs[i := x]) = sum_list xs + x - xs ! i"
  using assms by (induction xs arbitrary: i) (auto simp: algebra_simps split: nat.splits)

section \<open>Formatting\<close>

text \<open>\<open>{}\<close> of an unsigned integer.\<close>

fun digits :: "nat \<Rightarrow> string" where
  "digits n = (if n < 10 then [char_of (48 + n)] else digits (n div 10) @ [char_of (48 + n mod 10)])"

declare digits.simps [simp del]

definition signed_digits :: "'a::len word \<Rightarrow> string" where
  "signed_digits c =
     (if sint c < 0 then CHR ''-'' # digits (nat (- sint c)) else digits (nat (sint c)))"

fun join_with :: "string \<Rightarrow> string list \<Rightarrow> string" where
  "join_with sep [] = []"
| "join_with sep [s] = s"
| "join_with sep (s # t # ss) = s @ sep @ join_with sep (t # ss)"

section \<open>Folds over a stream\<close>

text \<open>
  Every pass of the analyzer is a loop over the events with an accumulator.  A property of
  such a pass relates the events already seen with the accumulator; the locale states the
  two obligations once.
\<close>

locale stream_fold =
  fixes step :: "'s \<Rightarrow> 'e \<Rightarrow> 's"
    and init :: 's
    and P :: "'e list \<Rightarrow> 's \<Rightarrow> bool"
  assumes holds_init: "P [] init"
    and holds_step: "P es s \<Longrightarrow> P (es @ [e]) (step s e)"
begin

lemma holds_run: "P es (foldl step init es)"
  by (induction es rule: rev_induct) (simp_all add: holds_init holds_step)

end

text \<open>
  A pass that keeps an invariant and adds a known amount to a meter on every element adds the
  sum of the amounts.
\<close>

locale metered_fold =
  fixes step :: "'s \<Rightarrow> 'x \<Rightarrow> 's"
    and inv :: "'s \<Rightarrow> bool"
    and ok :: "'x \<Rightarrow> bool"
    and meter :: "'s \<Rightarrow> 'a::ab_group_add"
    and cost :: "'x \<Rightarrow> 'a"
  assumes inv_step: "inv s \<Longrightarrow> ok x \<Longrightarrow> inv (step s x)"
    and meter_step: "inv s \<Longrightarrow> ok x \<Longrightarrow> meter (step s x) = meter s + cost x"
begin

lemma inv_run: "inv s \<Longrightarrow> list_all ok xs \<Longrightarrow> inv (foldl step s xs)"
  by (induction xs arbitrary: s) (simp_all add: inv_step)

lemma meter_run:
  "inv s \<Longrightarrow> list_all ok xs \<Longrightarrow>
     meter (foldl step s xs) = meter s + sum_list (map cost xs)"
  by (induction xs arbitrary: s) (simp_all add: inv_step meter_step add.assoc)

end

text \<open>Sorting by a key keeps the elements.\<close>

lemma sum_list_sort_key [simp]:
  fixes f :: "'a \<Rightarrow> 'b::comm_monoid_add"
  shows "sum_list (map f (sort_key k xs)) = sum_list (map f xs)"
  by (metis mset_map mset_sort sum_mset_sum_list)

text \<open>
  Two lists with the same elements sort alike when the key tells all elements apart: this
  is what makes a report independent of a hash map's iteration order.
\<close>

lemma sort_key_perm_eq:
  assumes "mset xs = mset ys" and "inj_on k (set xs)"
  shows "sort_key k xs = sort_key k ys"
  using assms by (intro sort_key_inj_key_eq) simp_all

end
