(* ===== verification/EventModel.thy ===== *)
theory EventModel
  imports Prelude
begin

text \<open>
  The event model of \<open>crates/smeltr-core/src/event.rs\<close>: every producer emits values of
  type \<open>event\<close> and every pass of the analyzer reads a list of them.  Floating-point fields
  (\<open>f32\<close>, \<open>f64\<close>) are kept as their bit patterns, since the passes modelled here only
  compare them for equality.
\<close>

section \<open>Sources\<close>

datatype source =
    SMark | System | IoReport | Vm | Proc | OsLog | Thermal | MachExc | CrashReport
  | MetalHook | PythonSidecar

text \<open>\<open>as_u8\<close>: the stable discriminants that index the source bitmap of a chunk.\<close>

fun as_u8 :: "source \<Rightarrow> nat" where
  "as_u8 SMark = 0"
| "as_u8 System = 1"
| "as_u8 IoReport = 2"
| "as_u8 Vm = 3"
| "as_u8 Proc = 4"
| "as_u8 OsLog = 5"
| "as_u8 Thermal = 6"
| "as_u8 MachExc = 7"
| "as_u8 CrashReport = 8"
| "as_u8 MetalHook = 9"
| "as_u8 PythonSidecar = 10"

lemma as_u8_inject [simp]: "as_u8 a = as_u8 b \<longleftrightarrow> a = b"
  by (cases a; cases b) simp_all

lemma as_u8_less [simp]: "as_u8 s < 64"
  by (cases s) simp_all

section \<open>Field values\<close>

datatype field_value =
    FBool bool
  | FInt i64
  | FFloat u64 \<comment> \<open>the bit pattern of the \<open>f64\<close>\<close>
  | FString string

text \<open>
  \<open>PartialEq\<close> on the payload: two floats are equal when neither is a NaN and they have the
  same bits or are both a zero.
\<close>

definition f64_is_nan :: "u64 \<Rightarrow> bool" where
  "f64_is_nan b \<longleftrightarrow> 0x7FF0000000000000 < take_bit 63 b"

definition f64_eq :: "u64 \<Rightarrow> u64 \<Rightarrow> bool" where
  "f64_eq a b \<longleftrightarrow>
     \<not> f64_is_nan a \<and> \<not> f64_is_nan b \<and> (a = b \<or> take_bit 63 a = 0 \<and> take_bit 63 b = 0)"

fun field_eq :: "field_value \<Rightarrow> field_value \<Rightarrow> bool" where
  "field_eq (FBool a) (FBool b) = (a = b)"
| "field_eq (FInt a) (FInt b) = (a = b)"
| "field_eq (FFloat a) (FFloat b) = f64_eq a b"
| "field_eq (FString a) (FString b) = (a = b)"
| "field_eq _ _ = False"

section \<open>Payloads and events\<close>

datatype probe_health_state = HealthOk | Degraded | Failed

record proc_entry =
  pe_pid :: u32
  pe_name :: string
  pe_cpu_pct :: u32 \<comment> \<open>bits of an \<open>f32\<close>\<close>

record stack_frame =
  filename :: string
  lineno :: u32
  funcname :: string

record op_sample =
  op_name :: string
  op_symbol :: "string option"
  op_gpu_ns :: u64
  op_count :: u32
  op_apportioned_ns :: "u64 option"

type_synonym fields = "(string \<times> field_value) list"

text \<open>
  The variants of \<open>Payload\<close>, arguments in the order of the source's fields.
\<close>

datatype (plugins only: code) payload =
    Mark string fields
  | SessionStarted u64
  | SessionEnded u64 string
  | VmSample u64 u64 u64 u64 u32
  | ProcTop "proc_entry list" "string list"
  | ProcFootprint u32 string u64 u64 bool
  | ThermalState u32
  | IoReportSample "u32 option" "u32 option" "u32 option" "u32 option" "u32 option"
  | OsLogLine u64 string string string
  | MachException u32 i32 "i64 list"
  | CrashReportEmitted string "u32 option" "string option" "string list" string "string option"
  | JetsamKill string "u32 option" string u64 u64 u64 "string option"
  | MetalCbCommitted u64 u64 u32 "string option"
  | MetalCbScheduled u64 u64
  | MetalCbCompleted u64 u64 u32 "i64 option" "string option" u64
  | MetalCbWarning u64 u64 u64
  | MetalCbOps u64 "op_sample list"
  | MetalHeapAlloc u64 u64 "string option"
  | MetalDeviceMemSample u64 u64 string
  | MetalHeapFree u64
  | MetalBufferAlloc u64 "u64 option" u64 "string option"
  | MetalBufferFree u64
  | MetalTextureAlloc u64 "u64 option" u64 "string option"
  | MetalTextureFree u64
  | MetalHookDropped u64
  | MetalHookSkipped string
  | MlxEvalEntered u64 u32 string "u64 list" "stack_frame list"
  | MlxEvalReturned u64 u64 bool
  | MlxMemoryPoll u64 u64 u64
  | MlxArrayAlive u64 u64 string "u64 list" string
  | MlxArrayFreed u64
  | MlxSnapshot u32 u64 "string list" "string option"
  | MlxPanicTriggered string
  | PythonSidecarHello string "string option" "string list"
  | PostMortemFlushed string string u32
  | ProbeHealth string probe_health_state "string option"
  | ModuleEntered u64 u64 string string "u64 option" u16 fields
  | ModuleReturned u64
  | ModelLoad string u64 u64 u64 "string option" "string option"
  | ModelUnload string u64 "string option" "u64 option" "u64 option" "string list" "string option"

record event =
  ts_mono_ns :: u64
  ts_wall_ns :: u64
  ev_session_id :: uuid
  ev_source :: source
  ev_pid :: "u32 option"
  ev_seq :: u64
  payload :: payload

section \<open>Time span\<close>

text \<open>
  \<open>time_span_ns\<close>: earliest to latest stamp, whatever the file order.
\<close>

definition min_ts :: "event list \<Rightarrow> u64 option" where
  "min_ts es = (case map ts_mono_ns es of [] \<Rightarrow> None | t # ts \<Rightarrow> Some (fold min ts t))"

definition max_ts :: "event list \<Rightarrow> u64 option" where
  "max_ts es = (case map ts_mono_ns es of [] \<Rightarrow> None | t # ts \<Rightarrow> Some (fold max ts t))"

definition time_span_ns :: "event list \<Rightarrow> u64" where
  "time_span_ns es =
     (case (min_ts es, max_ts es) of (Some lo, Some hi) \<Rightarrow> hi - lo | _ \<Rightarrow> 0)"

text \<open>
  The span bounds the distance of any two stamps, and does not depend on the order in which
  the events were written.
\<close>

lemma time_span_ns_eq:
  "es \<noteq> [] \<Longrightarrow>
     time_span_ns es = Max (ts_mono_ns ` set es) - Min (ts_mono_ns ` set es)"
  by (cases es)
    (simp_all add: time_span_ns_def min_ts_def max_ts_def
      flip: Min.set_eq_fold Max.set_eq_fold)

lemma time_span_ns_perm: "set es = set es' \<Longrightarrow> time_span_ns es = time_span_ns es'"
  by (cases "es = []"; cases "es' = []") (simp_all add: time_span_ns_eq)

lemma time_span_ns_bound:
  assumes "a \<in> set es" and "b \<in> set es" and "ts_mono_ns a \<le> ts_mono_ns b"
  shows "ts_mono_ns b - ts_mono_ns a \<le> time_span_ns es"
proof -
  let ?T = "ts_mono_ns ` set es"
  have ne: "es \<noteq> []" using assms(1) by auto
  have "Min ?T \<le> ts_mono_ns a" and "ts_mono_ns b \<le> Max ?T"
    using assms(1,2) by auto
  with assms(3) have "unat (ts_mono_ns b) - unat (ts_mono_ns a) \<le> unat (Max ?T) - unat (Min ?T)"
    and "Min ?T \<le> Max ?T"
    by (auto simp: word_le_nat_alt intro: diff_le_mono2 diff_le_mono le_trans)
  then show ?thesis
    using assms(3) by (simp add: time_span_ns_eq [OF ne] word_le_nat_alt unat_sub)
qed

text \<open>A small event for the examples of the later theories.\<close>

definition mk_event :: "nat \<Rightarrow> nat \<Rightarrow> payload \<Rightarrow> event" where
  "mk_event ts sq p =
     \<lparr>ts_mono_ns = of_nat ts, ts_wall_ns = of_nat ts, ev_session_id = 0, ev_source = MetalHook,
      ev_pid = None, ev_seq = of_nat sq, payload = p\<rparr>"

lemma mk_event_simps [simp]:
  "ts_mono_ns (mk_event ts sq p) = of_nat ts"
  "ev_seq (mk_event ts sq p) = of_nat sq"
  "payload (mk_event ts sq p) = p"
  by (simp_all add: mk_event_def)

end
