(* ===== verification/Float64.thy ===== *)
theory Float64
  imports Prelude Complex_Main "HOL-Library.Log_Nat"
begin

text \<open>
  IEEE 754 binary64 arithmetic on the values the analyzer computes with: quotients and
  products of \<open>u64\<close> quantities.  A finite double is its exact rational value; every operation
  rounds the exact result to 53 significant bits, ties to even.  The magnitudes that occur
  (at least \<open>2\<^sup>-\<^sup>6\<^sup>4\<close> when not zero, and below \<open>2\<^sup>1\<^sup>2\<^sup>8\<close>) are inside the normal range, so
  overflow and subnormal rounding do not arise.
\<close>

type_synonym f64 = rat

definition round_half_even :: "rat \<Rightarrow> int" where
  "round_half_even x =
     (let f = \<lfloor>x\<rfloor>; d = x - of_int f
      in if d < 1 / 2 then f else if 1 / 2 < d then f + 1 else if even f then f else f + 1)"

text \<open>\<open>binade x\<close>: the exponent \<open>e\<close> with \<open>2\<^sup>e \<le> x < 2\<^sup>e\<^sup>+\<^sup>1\<close>, for positive \<open>x\<close>.\<close>

definition two_powi :: "int \<Rightarrow> rat" where
  "two_powi e = (if 0 \<le> e then 2 ^ nat e else 1 / 2 ^ nat (- e))"

definition binade :: "rat \<Rightarrow> int" where
  "binade x =
     (let (p, q) = quotient_of x; e = bitlen p - bitlen q
      in if x < two_powi e then e - 1 else e)"

definition round_pos :: "rat \<Rightarrow> rat" where
  "round_pos x =
     (let u = two_powi (binade x - 52) in of_int (round_half_even (x / u)) * u)"

definition f64_round :: "rat \<Rightarrow> f64" where
  "f64_round x = (if x = 0 then 0 else if 0 < x then round_pos x else - round_pos (- x))"

definition f64_of_nat :: "nat \<Rightarrow> f64" where
  "f64_of_nat n = f64_round (of_nat n)"

definition f64_of_u64 :: "u64 \<Rightarrow> f64" where
  "f64_of_u64 w = f64_of_nat (unat w)"

definition f64_add :: "f64 \<Rightarrow> f64 \<Rightarrow> f64" where
  "f64_add a b = f64_round (a + b)"

definition f64_sub :: "f64 \<Rightarrow> f64 \<Rightarrow> f64" where
  "f64_sub a b = f64_round (a - b)"

definition f64_mul :: "f64 \<Rightarrow> f64 \<Rightarrow> f64" where
  "f64_mul a b = f64_round (a * b)"

definition f64_div :: "f64 \<Rightarrow> f64 \<Rightarrow> f64" where
  "f64_div a b = f64_round (a / b)"

text \<open>\<open>as u64\<close>: truncation, saturating at both ends.\<close>

definition f64_to_u64 :: "f64 \<Rightarrow> u64" where
  "f64_to_u64 x = (if x < 1 then 0 else if 2 ^ 64 \<le> x then - 1 else of_int \<lfloor>x\<rfloor>)"

section \<open>The rounding error\<close>

lemma two_powi_pos [simp]: "0 < two_powi e"
  by (simp add: two_powi_def)

lemma two_powi_add1: "two_powi (e + 1) = 2 * two_powi e"
proof -
  consider "0 \<le> e" | "e = - 1" | "e < - 1" by linarith
  then show ?thesis
  proof cases
    case 1
    then show ?thesis by (simp add: two_powi_def nat_add_distrib)
  next
    case 2
    then show ?thesis by (simp add: two_powi_def)
  next
    case 3
    then have "nat (- e) = Suc (nat (- e - 1))" by linarith
    with 3 show ?thesis by (simp add: two_powi_def)
  qed
qed

lemma two_powi_minus1: "two_powi (e - 1) = two_powi e / 2"
  using two_powi_add1 [of "e - 1"] by simp

lemma two_powi_minus_nat: "two_powi (e - int n) = two_powi e / 2 ^ n"
proof (induction n)
  case 0
  then show ?case by simp
next
  case (Suc n)
  have "two_powi (e - int (Suc n)) = two_powi (e - int n - 1)" by (simp add: algebra_simps)
  also have "\<dots> = two_powi (e - int n) / 2" by (rule two_powi_minus1)
  finally show ?case using Suc.IH by simp
qed

lemma two_powi_diff_nat: "two_powi (int a - int b) = 2 ^ a / 2 ^ b"
  using two_powi_minus_nat [of "int a" b] by (simp add: two_powi_def)

lemma binade_le:
  assumes "0 < x"
  shows "two_powi (binade x) \<le> x"
proof -
  obtain p q where pq: "quotient_of x = (p, q)" by (cases "quotient_of x")
  from quotient_of_denom_pos [OF pq] have q: "0 < q" .
  from quotient_of_div [OF pq] have x: "x = of_int p / of_int q" .
  with assms q have p: "0 < p" by (simp add: zero_less_divide_iff)
  define a where "a = nat (bitlen p)"
  define b where "b = nat (bitlen q)"
  have ab: "bitlen p - bitlen q = int a - int b" by (simp add: a_def b_def bitlen_nonneg)
  have "nat (bitlen p - 1) = a - 1" by (simp add: a_def)
  with bitlen_bounds [OF p] have "2 ^ (a - 1) \<le> p" by metis
  then have "2 ^ a \<le> 2 * p" using p by (cases a) auto
  moreover have "q < 2 ^ b" using bitlen_bounds [OF q] by (simp add: b_def)
  ultimately have "2 ^ a * q \<le> 2 * p * 2 ^ b"
    using q p by (intro mult_mono) simp_all
  then have "(of_int (2 ^ a * q) :: rat) \<le> of_int (2 * p * 2 ^ b)"
    by (simp only: of_int_le_iff)
  then have "2 ^ a * (of_int q :: rat) \<le> 2 * of_int p * 2 ^ b" by simp
  then have "2 ^ a / 2 ^ b / 2 \<le> x" using q by (simp add: x field_simps)
  then have "two_powi (int a - int b - 1) \<le> x"
    by (simp only: two_powi_minus1 two_powi_diff_nat)
  then show ?thesis by (simp add: binade_def pq ab not_less Let_def)
qed

lemma round_half_even_err: "\<bar>of_int (round_half_even x) - x\<bar> \<le> 1 / 2"
proof -
  have "of_int \<lfloor>x\<rfloor> \<le> x" and "x < of_int \<lfloor>x\<rfloor> + 1" by linarith+
  then show ?thesis by (auto simp: round_half_even_def Let_def)
qed

lemma round_pos_err:
  assumes "0 < x"
  shows "\<bar>round_pos x - x\<bar> \<le> x / 2 ^ 53"
proof -
  define u where "u = two_powi (binade x - 52)"
  have u: "0 < u" by (simp add: u_def)
  have "u * 2 ^ 52 = two_powi (binade x)"
    using two_powi_minus_nat [of "binade x" 52] by (simp add: u_def)
  with binade_le [OF assms] have ux: "u \<le> x / 2 ^ 52" by (simp add: field_simps)
  have "round_pos x - x = (of_int (round_half_even (x / u)) - x / u) * u"
    using u by (simp add: round_pos_def u_def [symmetric] Let_def algebra_simps)
  then have "\<bar>round_pos x - x\<bar> = \<bar>of_int (round_half_even (x / u)) - x / u\<bar> * u"
    using u by (simp add: abs_mult)
  also have "\<dots> \<le> 1 / 2 * u"
    using u round_half_even_err by (intro mult_right_mono) auto
  also have "\<dots> \<le> x / 2 ^ 53" using ux by simp
  finally show ?thesis .
qed

lemma f64_round_nonneg:
  assumes "0 \<le> x"
  shows "0 \<le> f64_round x" and "f64_round x \<le> x * (1 + 1 / 2 ^ 53)"
    and "x * (1 - 1 / 2 ^ 53) \<le> f64_round x"
proof -
  have "\<bar>f64_round x - x\<bar> \<le> x / 2 ^ 53"
    using assms round_pos_err [of x] by (auto simp: f64_round_def)
  then have *: "f64_round x - x \<le> x / 2 ^ 53" "x - f64_round x \<le> x / 2 ^ 53"
    by linarith+
  then show "f64_round x \<le> x * (1 + 1 / 2 ^ 53)" and "x * (1 - 1 / 2 ^ 53) \<le> f64_round x"
    by (simp_all add: algebra_simps)
  have "x / 2 ^ 53 \<le> x" using assms by simp
  with * show "0 \<le> f64_round x" by linarith
qed

lemma unat_f64_to_u64: "0 \<le> x \<Longrightarrow> of_nat (unat (f64_to_u64 x)) \<le> x"
proof -
  assume x: "0 \<le> x"
  consider "x < 1" | "1 \<le> x" "2 ^ 64 \<le> x" | "1 \<le> x" "x < 2 ^ 64" by linarith
  then show ?thesis
  proof cases
    case 1
    with x show ?thesis by (simp add: f64_to_u64_def)
  next
    case 2
    have "unat (- 1 :: u64) < 2 ^ 64" by simp
    then have "(of_nat (unat (- 1 :: u64)) :: rat) < of_nat (2 ^ 64)" by (simp only: of_nat_less_iff)
    with 2 show ?thesis by (simp add: f64_to_u64_def)
  next
    case 3
    then have f: "0 \<le> \<lfloor>x\<rfloor>" "\<lfloor>x\<rfloor> < 2 ^ 64" by (auto simp: floor_less_iff)
    then have "uint (of_int \<lfloor>x\<rfloor> :: u64) = \<lfloor>x\<rfloor>" by (simp add: uint_word_of_int)
    then have "unat (of_int \<lfloor>x\<rfloor> :: u64) = nat \<lfloor>x\<rfloor>" by (metis nat_uint_eq)
    with 3 f show ?thesis by (simp add: f64_to_u64_def of_nat_nat)
  qed
qed

end
