(* ===== verification/OpClamp.thy ===== *)
theory OpClamp
  imports EventModel Float64
begin

text \<open>
  The per-command-buffer clamp of op GPU times, \<open>crates/smeltr-analyzer/src/op_clamp.rs\<close>:
  a forward state machine that knows a command buffer's serialised execution window by the
  time its ops arrive, and rescales the ops when their sum exceeds it.
\<close>

record op_clamp_state =
  oc_last_sched :: "u64 \<rightharpoonup> u64"
  oc_queue_last_done :: "u64 \<rightharpoonup> u64"
  oc_window_for_cb :: "u64 \<rightharpoonup> u64"

definition op_clamp_init :: op_clamp_state where
  "op_clamp_init =
     \<lparr>oc_last_sched = Map.empty, oc_queue_last_done = Map.empty, oc_window_for_cb = Map.empty\<rparr>"

definition ops_sum :: "op_sample list \<Rightarrow> u64" where
  "ops_sum ops = sum_list (map op_gpu_ns ops)"

definition op_clamp_observe :: "op_clamp_state \<Rightarrow> event \<Rightarrow> op_clamp_state \<times> f64 option" where
  "op_clamp_observe s ev =
     (case payload ev of
        MetalCbScheduled cb _ \<Rightarrow>
          (s\<lparr>oc_last_sched := (oc_last_sched s)(cb \<mapsto> ts_mono_ns ev)\<rparr>, None)
      | MetalCbCompleted cb q _ _ _ _ \<Rightarrow>
          (let done = ts_mono_ns ev;
               s1 = (case oc_last_sched s cb of
                       Some sched \<Rightarrow>
                         (let start = max sched
                                (case oc_queue_last_done s q of None \<Rightarrow> 0 | Some t \<Rightarrow> t)
                          in s\<lparr>oc_last_sched := (oc_last_sched s)(cb := None),
                               oc_window_for_cb :=
                                 (oc_window_for_cb s)(cb \<mapsto> sat_sub done start)\<rparr>)
                     | None \<Rightarrow> s\<lparr>oc_window_for_cb := (oc_window_for_cb s)(cb := None)\<rparr>)
           in (s1\<lparr>oc_queue_last_done := (oc_queue_last_done s1)(q \<mapsto> done)\<rparr>, None))
      | MetalCbOps cb ops \<Rightarrow>
          (case oc_window_for_cb s cb of
             None \<Rightarrow> (s, None)
           | Some window \<Rightarrow>
               (s\<lparr>oc_window_for_cb := (oc_window_for_cb s)(cb := None)\<rparr>,
                if window < ops_sum ops
                then Some (f64_div (f64_of_u64 window) (f64_of_u64 (ops_sum ops)))
                else None))
      | _ \<Rightarrow> (s, None))"

type_synonym op_time_scales = "(u64 \<times> f64) list"

definition clamp_step ::
  "op_clamp_state \<times> op_time_scales \<Rightarrow> event \<Rightarrow> op_clamp_state \<times> op_time_scales" where
  "clamp_step st ev =
     (case op_clamp_observe (fst st) ev of
        (s, None) \<Rightarrow> (s, snd st)
      | (s, Some scale) \<Rightarrow> (s, AList.update (ev_seq ev) scale (snd st)))"

definition compute_op_time_scales :: "event list \<Rightarrow> op_time_scales" where
  "compute_op_time_scales es = snd (foldl clamp_step (op_clamp_init, []) es)"

definition clamped_cb_count :: "op_time_scales \<Rightarrow> u64" where
  "clamped_cb_count scales = of_nat (length scales)"

definition scaled_gpu_ns :: "op_time_scales \<Rightarrow> u64 \<Rightarrow> u64 \<Rightarrow> u64" where
  "scaled_gpu_ns scales sq gpu_ns =
     (case map_of scales sq of
        Some s \<Rightarrow> f64_to_u64 (f64_mul (f64_of_u64 gpu_ns) s)
      | None \<Rightarrow> gpu_ns)"

definition scale_op :: "op_time_scales \<Rightarrow> u64 \<Rightarrow> op_sample \<Rightarrow> op_sample" where
  "scale_op scales sq op =
     op\<lparr>op_gpu_ns := scaled_gpu_ns scales sq (op_gpu_ns op),
        op_apportioned_ns := map_option (scaled_gpu_ns scales sq) (op_apportioned_ns op)\<rparr>"

definition scale_event :: "op_time_scales \<Rightarrow> event \<Rightarrow> event" where
  "scale_event scales ev =
     (case payload ev of
        MetalCbOps cb ops \<Rightarrow>
          if map_of scales (ev_seq ev) \<noteq> None
          then ev\<lparr>payload := MetalCbOps cb (map (scale_op scales (ev_seq ev)) ops)\<rparr>
          else ev
      | _ \<Rightarrow> ev)"

definition apply_op_time_scales :: "event list \<Rightarrow> op_time_scales \<Rightarrow> event list" where
  "apply_op_time_scales es scales = map (scale_event scales) es"

section \<open>The clamp is a bound\<close>

lemma unit_error: "(1 + 1 / 2 ^ 53) ^ 4 \<le> (1 + 6 / 2 ^ 53) * (1 - 1 / 2 ^ 53 :: rat)"
  by (simp add: power4_eq_xxxx)

text \<open>A value scaled by the factor \<open>s\<close>, as the code computes it.\<close>

definition scale_by :: "f64 \<Rightarrow> u64 \<Rightarrow> u64" where
  "scale_by s g = f64_to_u64 (f64_mul (f64_of_u64 g) s)"

lemma scale_by_le:
  assumes "0 \<le> s"
  shows "of_nat (unat (scale_by s g)) \<le> of_nat (unat g) * (s * (1 + 1 / 2 ^ 53) ^ 2)"
proof -
  let ?u = "1 + 1 / 2 ^ 53 :: rat"
  let ?g = "of_nat (unat g) :: rat"
  have g: "0 \<le> f64_of_u64 g" "f64_of_u64 g \<le> ?g * ?u"
    unfolding f64_of_u64_def f64_of_nat_def
    by (rule f64_round_nonneg [OF of_nat_0_le_iff])+
  have p: "0 \<le> f64_of_u64 g * s" using g(1) assms by simp
  have "of_nat (unat (scale_by s g)) \<le> f64_mul (f64_of_u64 g) s"
    unfolding scale_by_def f64_mul_def using f64_round_nonneg(1) [OF p] by (rule unat_f64_to_u64)
  also have "\<dots> \<le> (f64_of_u64 g * s) * ?u"
    unfolding f64_mul_def using p by (rule f64_round_nonneg(2))
  also have "\<dots> \<le> (?g * ?u * s) * ?u"
    using g(2) assms by (intro mult_right_mono) simp_all
  finally show ?thesis by (simp add: power2_eq_square mult.assoc mult.left_commute mult.commute)
qed

lemma scale_factor_le:
  assumes "0 < S"
  shows "0 \<le> f64_div (f64_of_nat w) (f64_of_nat S)"
    and "f64_div (f64_of_nat w) (f64_of_nat S) * (of_nat S * (1 - 1 / 2 ^ 53)) \<le>
      of_nat w * (1 + 1 / 2 ^ 53) ^ 2"
proof -
  let ?u = "1 + 1 / 2 ^ 53 :: rat" and ?d = "1 - 1 / 2 ^ 53 :: rat"
  define a where "a = f64_of_nat w"
  define b where "b = f64_of_nat S"
  have a: "0 \<le> a" "a \<le> of_nat w * ?u"
    using f64_round_nonneg [of "of_nat w"] by (simp_all add: a_def f64_of_nat_def)
  have b: "of_nat S * ?d \<le> b"
    using f64_round_nonneg(3) [of "of_nat S"] by (simp add: b_def f64_of_nat_def)
  have S: "0 < of_nat S * ?d" using assms by simp
  with b have b0: "0 < b" by linarith
  have q: "0 \<le> a / b" using a(1) b0 by simp
  show "0 \<le> f64_div (f64_of_nat w) (f64_of_nat S)"
    using f64_round_nonneg(1) [OF q] by (simp add: f64_div_def a_def b_def)
  have "f64_div a b * (of_nat S * ?d) \<le> (a / b * ?u) * b"
    unfolding f64_div_def using f64_round_nonneg [OF q] b b0 S q
    by (intro mult_mono) simp_all
  also have "\<dots> = a * ?u" using b0 by simp
  also have "\<dots> \<le> of_nat w * ?u * ?u" using a(2) by (intro mult_right_mono) simp_all
  finally show "f64_div (f64_of_nat w) (f64_of_nat S) * (of_nat S * ?d) \<le> of_nat w * ?u ^ 2"
    by (simp add: a_def b_def power2_eq_square mult.assoc)
qed

lemma sum_scale_by_le:
  assumes "0 \<le> s"
  shows "of_nat (sum_list (map (\<lambda>g. unat (scale_by s g)) gs)) \<le>
    of_nat (sum_list (map unat gs)) * (s * (1 + 1 / 2 ^ 53) ^ 2)"
proof (induction gs)
  case Nil
  then show ?case by simp
next
  case (Cons g gs)
  with scale_by_le [OF assms, of g] show ?case by (simp add: algebra_simps)
qed

lemma clamp_sum_le:
  assumes S: "0 < sum_list (map unat gs)" and w: "w < 2 ^ 50"
    and s: "s = f64_div (f64_of_nat w) (f64_of_nat (sum_list (map unat gs)))"
  shows "sum_list (map (\<lambda>g. unat (scale_by s g)) gs) \<le> w"
proof -
  let ?u = "1 + 1 / 2 ^ 53 :: rat" and ?d = "1 - 1 / 2 ^ 53 :: rat"
  let ?S = "of_nat (sum_list (map unat gs)) :: rat"
  let ?T = "of_nat (sum_list (map (\<lambda>g. unat (scale_by s g)) gs)) :: rat"
  note f = scale_factor_le [OF S, of w, folded s]
  have "?T * ?d \<le> ?S * (s * ?u ^ 2) * ?d"
    using sum_scale_by_le [OF f(1), of gs] by (intro mult_right_mono) simp_all
  also have "\<dots> = s * (?S * ?d) * ?u ^ 2" by (simp only: mult_ac)
  also have "\<dots> \<le> of_nat w * ?u ^ 2 * ?u ^ 2"
    using f(2) by (intro mult_right_mono) simp_all
  also have "\<dots> = of_nat w * ?u ^ 4" by (simp flip: power_add add: mult.assoc)
  also have "\<dots> \<le> of_nat w * ((1 + 6 / 2 ^ 53) * ?d)"
    using unit_error by (intro mult_left_mono) simp_all
  finally have "?T * ?d \<le> of_nat w * (1 + 6 / 2 ^ 53) * ?d" by (simp only: mult.assoc)
  then have "?T \<le> of_nat w * (1 + 6 / 2 ^ 53)" by (rule mult_right_le_imp_le) simp
  moreover have "of_nat w < (2 ^ 50 :: rat)" using w by (metis of_nat_less_iff of_nat_numeral of_nat_power)
  ultimately have "?T < of_nat w + 1" by (simp add: algebra_simps)
  then have "?T < of_nat (w + 1)" by simp
  then show ?thesis by (simp only: of_nat_less_iff)
qed

section \<open>One scale per event\<close>

definition clamp_state :: "event list \<Rightarrow> op_clamp_state" where
  "clamp_state es = fst (foldl clamp_step (op_clamp_init, []) es)"

lemma clamp_step_state: "fst (clamp_step st e) = fst (op_clamp_observe (fst st) e)"
  by (simp add: clamp_step_def split: prod.splits option.splits)

lemma clamp_scales_frame:
  "sq \<notin> set (map ev_seq es) \<Longrightarrow>
     map_of (snd (foldl clamp_step st es)) sq = map_of (snd st) sq"
proof (induction es arbitrary: st)
  case Nil
  then show ?case by simp
next
  case (Cons e es)
  then have "map_of (snd (clamp_step st e)) sq = map_of (snd st) sq"
    by (auto simp: clamp_step_def update_conv' split: prod.splits option.splits)
  with Cons show ?case by simp
qed

lemma clamp_scale_of_event:
  assumes "distinct (map ev_seq (pre @ e # post))"
  shows "map_of (compute_op_time_scales (pre @ e # post)) (ev_seq e) =
    snd (op_clamp_observe (clamp_state pre) e)"
proof -
  let ?st = "foldl clamp_step (op_clamp_init, []) pre"
  have "map_of (snd ?st) (ev_seq e) = None"
    using clamp_scales_frame [of "ev_seq e" pre "(op_clamp_init, [])"] assms by auto
  then have "map_of (snd (clamp_step ?st e)) (ev_seq e) = snd (op_clamp_observe (fst ?st) e)"
    by (auto simp: clamp_step_def update_conv' split: prod.splits option.splits)
  then show ?thesis
    using clamp_scales_frame [of "ev_seq e" post "clamp_step ?st e"] assms
    by (simp add: compute_op_time_scales_def clamp_state_def)
qed

lemma unat_sum_list:
  "sum_list (map unat ws) < 2 ^ 64 \<Longrightarrow> unat (sum_list ws :: u64) = sum_list (map unat ws)"
  by (induction ws) (simp_all add: unat_word_ariths)

lemma scaled_ops_sum:
  assumes "map_of scales sq = Some s"
  shows "map (unat \<circ> op_gpu_ns) (map (scale_op scales sq) ops) =
    map (\<lambda>g. unat (scale_by s g)) (map op_gpu_ns ops)"
  using assms by (simp add: scale_op_def scaled_gpu_ns_def scale_by_def)

section \<open>Properties\<close>

definition clamp_example_pre :: "event list" where
  "clamp_example_pre =
     [mk_event 100 1 (MetalCbScheduled 7 1), mk_event 400 2 (MetalCbCompleted 7 1 4 None None 300)]"

definition clamp_example_ops :: "op_sample list" where
  "clamp_example_ops =
     [\<lparr>op_name = ''K_a'', op_symbol = None, op_gpu_ns = 500, op_count = 1, op_apportioned_ns = None\<rparr>,
      \<lparr>op_name = ''K_b'', op_symbol = None, op_gpu_ns = 400, op_count = 2, op_apportioned_ns = Some 100\<rparr>]"



end
