(* ===== verification/CommandBuffers.thy ===== *)
theory CommandBuffers
  imports OpClamp
begin

text \<open>
  Pairing of command-buffer events, \<open>pair_command_buffers\<close> of
  \<open>crates/smeltr-analyzer/src/breakdown.rs\<close>.  A command buffer's id is a recycled pointer, so
  the ops of a buffer belong to the lifetime that completed last, never to every completion
  with that id; \<open>cb_spec\<close> states the lifetimes directly and the pass is shown to compute them.
\<close>

record completed_cb =
  cb_commit_ts :: u64
  cb_in_flight_ns :: u64
  cb_ops :: "op_sample list option"

record completed_cbs =
  cc_completed :: "completed_cb list"
  cc_seen_any_cb_ops :: bool

record pair_state =
  ps_commit_ts :: "u64 \<rightharpoonup> u64"
  ps_completed :: "completed_cb list"
  ps_last_completed_idx :: "u64 \<rightharpoonup> nat"
  ps_seen_any_cb_ops :: bool

definition pair_init :: pair_state where
  "pair_init =
     \<lparr>ps_commit_ts = Map.empty, ps_completed = [], ps_last_completed_idx = Map.empty,
      ps_seen_any_cb_ops = False\<rparr>"

definition rescale_ops :: "op_time_scales option \<Rightarrow> u64 \<Rightarrow> op_sample list \<Rightarrow> op_sample list" where
  "rescale_ops scales sq ops =
     (case scales of
        None \<Rightarrow> ops
      | Some sc \<Rightarrow> map (\<lambda>op. op\<lparr>op_gpu_ns := scaled_gpu_ns sc sq (op_gpu_ns op)\<rparr>) ops)"

definition pair_step :: "op_time_scales option \<Rightarrow> pair_state \<Rightarrow> event \<Rightarrow> pair_state" where
  "pair_step scales s ev =
     (case payload ev of
        MetalCbCommitted cb _ _ _ \<Rightarrow>
          s\<lparr>ps_commit_ts := (ps_commit_ts s)(cb \<mapsto> ts_mono_ns ev)\<rparr>
      | MetalCbCompleted cb _ _ _ _ in_flight \<Rightarrow>
          (case ps_commit_ts s cb of
             None \<Rightarrow> s
           | Some commit_ts \<Rightarrow>
               s\<lparr>ps_commit_ts := (ps_commit_ts s)(cb := None),
                 ps_last_completed_idx :=
                   (ps_last_completed_idx s)(cb \<mapsto> length (ps_completed s)),
                 ps_completed := ps_completed s @
                   [\<lparr>cb_commit_ts = commit_ts, cb_in_flight_ns = in_flight, cb_ops = None\<rparr>]\<rparr>)
      | MetalCbOps cb ops \<Rightarrow>
          (let s1 = s\<lparr>ps_seen_any_cb_ops := True\<rparr>
           in case ps_last_completed_idx s cb of
                None \<Rightarrow> s1
              | Some i \<Rightarrow>
                  s1\<lparr>ps_completed := (ps_completed s)[i :=
                    (ps_completed s ! i)\<lparr>cb_ops := Some (rescale_ops scales (ev_seq ev) ops)\<rparr>]\<rparr>)
      | _ \<Rightarrow> s)"

definition pair_command_buffers :: "event list \<Rightarrow> op_time_scales option \<Rightarrow> completed_cbs" where
  "pair_command_buffers es scales =
     (let s = foldl (pair_step scales) pair_init es
      in \<lparr>cc_completed = ps_completed s, cc_seen_any_cb_ops = ps_seen_any_cb_ops s\<rparr>)"

definition completed_command_buffers :: "event list \<Rightarrow> completed_cbs" where
  "completed_command_buffers es = pair_command_buffers es None"

definition clamped_command_buffers :: "event list \<Rightarrow> completed_cbs" where
  "clamped_command_buffers es = pair_command_buffers es (Some (compute_op_time_scales es))"

section \<open>Lifetimes\<close>

text \<open>
  \<open>lifetime_ops sc cb committed acc es\<close>: the ops the buffer \<open>cb\<close>, just completed, receives from
  the rest of the stream.  Its lifetime ends with the next completion of a buffer with that id
  that was committed after it.
\<close>

fun lifetime_ops ::
  "op_time_scales option \<Rightarrow> u64 \<Rightarrow> bool \<Rightarrow> op_sample list option \<Rightarrow> event list \<Rightarrow> op_sample list option"
where
  "lifetime_ops sc cb committed acc [] = acc"
| "lifetime_ops sc cb committed acc (e # es) =
     (case payload e of
        MetalCbCommitted c _ _ _ \<Rightarrow> lifetime_ops sc cb (committed \<or> c = cb) acc es
      | MetalCbCompleted c _ _ _ _ _ \<Rightarrow>
          if c = cb \<and> committed then acc else lifetime_ops sc cb committed acc es
      | MetalCbOps c ops \<Rightarrow>
          lifetime_ops sc cb committed
            (if c = cb then Some (rescale_ops sc (ev_seq e) ops) else acc) es
      | _ \<Rightarrow> lifetime_ops sc cb committed acc es)"

fun cb_spec :: "op_time_scales option \<Rightarrow> (u64 \<rightharpoonup> u64) \<Rightarrow> event list \<Rightarrow> completed_cb list" where
  "cb_spec sc cm [] = []"
| "cb_spec sc cm (e # es) =
     (case payload e of
        MetalCbCommitted c _ _ _ \<Rightarrow> cb_spec sc (cm(c \<mapsto> ts_mono_ns e)) es
      | MetalCbCompleted c _ _ _ _ in_flight \<Rightarrow>
          (case cm c of
             None \<Rightarrow> cb_spec sc cm es
           | Some t \<Rightarrow>
               \<lparr>cb_commit_ts = t, cb_in_flight_ns = in_flight,
                cb_ops = lifetime_ops sc c False None es\<rparr> # cb_spec sc (cm(c := None)) es)
      | _ \<Rightarrow> cb_spec sc cm es)"

text \<open>
  The state of the pass: \<open>owners\<close> names the buffer of each completion; the index of a buffer is
  the last completion it owns.
\<close>

definition pair_wf :: "pair_state \<Rightarrow> u64 list \<Rightarrow> bool" where
  "pair_wf s owners \<longleftrightarrow>
     length owners = length (ps_completed s) \<and>
     (\<forall>cb. ps_last_completed_idx s cb = rposition (\<lambda>c. c = cb) owners)"

text \<open>What a completion becomes once the rest of the stream is read.\<close>

definition finish_cb ::
  "op_time_scales option \<Rightarrow> pair_state \<Rightarrow> u64 list \<Rightarrow> event list \<Rightarrow> nat \<Rightarrow> completed_cb" where
  "finish_cb sc s owners es i =
     (let cb = ps_completed s ! i
      in if ps_last_completed_idx s (owners ! i) = Some i
         then cb\<lparr>cb_ops := lifetime_ops sc (owners ! i)
                (ps_commit_ts s (owners ! i) \<noteq> None) (cb_ops cb) es\<rparr>
         else cb)"

lemma rposition_snoc: "rposition p (xs @ [x]) = (if p x then Some (length xs) else rposition p xs)"
  by (induction xs) (auto split: option.splits)

lemma pair_wf_bound: "pair_wf s owners \<Longrightarrow> ps_last_completed_idx s cb = Some i \<Longrightarrow>
    i < length (ps_completed s) \<and> owners ! i = cb"
  by (auto simp: pair_wf_def dest!: rposition_Some)

lemma pair_run:
  assumes "pair_wf s owners"
  shows "ps_completed (foldl (pair_step sc) s es) =
    map (finish_cb sc s owners es) [0..<length (ps_completed s)] @ cb_spec sc (ps_commit_ts s) es"
  using assms
proof (induction es arbitrary: s owners)
  case Nil
  then show ?case by (auto simp: finish_cb_def Let_def intro!: nth_equalityI)
next
  case (Cons e es)
  let ?n = "length (ps_completed s)"
  consider (commit) c q d l where "payload e = MetalCbCommitted c q d l"
    | (complete) c q st ec ed fl where "payload e = MetalCbCompleted c q st ec ed fl"
    | (ops) c os where "payload e = MetalCbOps c os"
    | (other) "\<forall>c q d l. payload e \<noteq> MetalCbCommitted c q d l"
        "\<forall>c q st ec ed fl. payload e \<noteq> MetalCbCompleted c q st ec ed fl"
        "\<forall>c os. payload e \<noteq> MetalCbOps c os"
    by blast
  then show ?case
  proof cases
    case commit
    let ?m = "(ps_commit_ts s)(c \<mapsto> ts_mono_ns e)"
    let ?s' = "s\<lparr>ps_commit_ts := ?m\<rparr>"
    have st: "pair_step sc s e = ?s'" using commit by (simp add: pair_step_def)
    have sel: "ps_completed ?s' = ps_completed s" "ps_commit_ts ?s' = ?m" by simp_all
    have "pair_wf ?s' owners" using Cons.prems by (simp add: pair_wf_def)
    note Cons.IH [OF this, unfolded sel]
    moreover have "finish_cb sc ?s' owners es i = finish_cb sc s owners (e # es) i" for i
      using commit by (simp add: finish_cb_def Let_def)
    moreover have "cb_spec sc (ps_commit_ts s) (e # es) = cb_spec sc ?m es"
      by (simp only: cb_spec.simps commit payload.case)
    ultimately show ?thesis by (simp only: foldl.simps st cong: map_cong)
  next
    case complete
    show ?thesis
    proof (cases "ps_commit_ts s c")
      case None
      have st: "pair_step sc s e = s" using complete None by (simp add: pair_step_def)
      have "finish_cb sc s owners es i = finish_cb sc s owners (e # es) i" for i
        using complete None by (auto simp: finish_cb_def Let_def)
      with Cons.IH [OF Cons.prems] complete None show ?thesis by (simp add: st)
    next
      case (Some t)
      let ?new = "\<lparr>cb_commit_ts = t, cb_in_flight_ns = fl, cb_ops = None\<rparr>"
      let ?s' = "pair_step sc s e"
      have st: "?s' = s\<lparr>ps_commit_ts := (ps_commit_ts s)(c := None),
          ps_last_completed_idx := (ps_last_completed_idx s)(c \<mapsto> ?n),
          ps_completed := ps_completed s @ [?new]\<rparr>"
        using complete Some by (simp add: pair_step_def)
      have len: "length owners = ?n" using Cons.prems by (simp add: pair_wf_def)
      have wf': "pair_wf ?s' (owners @ [c])"
        using Cons.prems by (auto simp: st pair_wf_def rposition_snoc)
      have old: "finish_cb sc ?s' (owners @ [c]) es i = finish_cb sc s owners (e # es) i"
        if "i < ?n" for i
        using that len complete Some by (auto simp: st finish_cb_def Let_def nth_append)
      have new: "finish_cb sc ?s' (owners @ [c]) es ?n =
          ?new\<lparr>cb_ops := lifetime_ops sc c False None es\<rparr>"
        using len by (simp add: st finish_cb_def nth_append)
      have sel: "length (ps_completed ?s') = Suc ?n" "ps_commit_ts ?s' = (ps_commit_ts s)(c := None)"
        by (simp_all add: st del: fun_upd_apply)
      have "cb_spec sc (ps_commit_ts s) (e # es) =
          ?new\<lparr>cb_ops := lifetime_ops sc c False None es\<rparr> #
            cb_spec sc ((ps_commit_ts s)(c := None)) es"
        by (simp only: cb_spec.simps complete payload.case Some option.case) simp
      moreover have "ps_completed (foldl (pair_step sc) ?s' es) =
          map (finish_cb sc ?s' (owners @ [c]) es) [0..<Suc ?n] @
            cb_spec sc ((ps_commit_ts s)(c := None)) es"
        using Cons.IH [OF wf'] by (simp only: sel)
      moreover have "map (finish_cb sc ?s' (owners @ [c]) es) [0..<Suc ?n] =
          map (finish_cb sc s owners (e # es)) [0..<?n] @
            [?new\<lparr>cb_ops := lifetime_ops sc c False None es\<rparr>]"
        using old new by simp
      ultimately show ?thesis by (simp only: foldl.simps append_assoc append.simps)
    qed
  next
    case ops
    show ?thesis
    proof (cases "ps_last_completed_idx s c")
      case None
      let ?s' = "s\<lparr>ps_seen_any_cb_ops := True\<rparr>"
      have st: "pair_step sc s e = ?s'" using ops None by (simp add: pair_step_def)
      have "pair_wf ?s' owners" using Cons.prems by (simp add: pair_wf_def)
      from Cons.IH [OF this] have "ps_completed (foldl (pair_step sc) ?s' es) =
          map (finish_cb sc ?s' owners es) [0..<?n] @ cb_spec sc (ps_commit_ts ?s') es" by simp
      moreover have "finish_cb sc ?s' owners es i = finish_cb sc s owners (e # es) i" for i
        using ops None by (auto simp: finish_cb_def Let_def)
      ultimately show ?thesis using ops by (simp add: st)
    next
      case (Some j)
      from pair_wf_bound [OF Cons.prems Some] have j: "j < ?n" "owners ! j = c" by auto
      let ?s' = "pair_step sc s e"
      have st: "?s' = s\<lparr>ps_seen_any_cb_ops := True,
          ps_completed := (ps_completed s)[j := (ps_completed s ! j)
            \<lparr>cb_ops := Some (rescale_ops sc (ev_seq e) os)\<rparr>]\<rparr>"
        using ops Some by (simp add: pair_step_def)
      have wf': "pair_wf ?s' owners" using Cons.prems by (simp add: st pair_wf_def)
      have "finish_cb sc ?s' owners es i = finish_cb sc s owners (e # es) i" if "i < ?n" for i
        using that j ops Some by (cases "i = j") (auto simp: st finish_cb_def Let_def)
      with Cons.IH [OF wf'] ops show ?thesis by (simp add: st)
    qed
  next
    case other
    then have st: "pair_step sc s e = s" by (cases "payload e") (simp_all add: pair_step_def)
    from other have e: "cb_spec sc cm (e # es) = cb_spec sc cm es"
      "lifetime_ops sc cb m acc (e # es) = lifetime_ops sc cb m acc es" for cm cb m acc
      by (cases "payload e"; simp)+
    have "finish_cb sc s owners (e # es) = finish_cb sc s owners es"
      by (intro ext) (simp only: finish_cb_def e)
    with Cons.IH [OF Cons.prems] show ?thesis unfolding foldl.simps st e by simp
  qed
qed

section \<open>Properties\<close>

text \<open>
  C5. Pairing by lifetime: every completion whose commit was seen gives one command buffer,
  with its commit stamp, and the ops attached to it are the last ones reported for its id
  before that id completes again, however often the pointer is recycled.
\<close>

theorem pair_command_buffers_lifetimes:
  "cc_completed (pair_command_buffers es scales) = cb_spec scales Map.empty es"
proof -
  have "pair_wf pair_init []" by (simp add: pair_wf_def pair_init_def)
  from pair_run [OF this, of scales es] show ?thesis
    by (simp add: pair_command_buffers_def Let_def pair_init_def)
qed

end
