(* ===== verification/StrOps.thy ===== *)
theory StrOps
  imports Prelude
begin

text \<open>
  The searches of the standard library in a string: prefixes, suffixes, the first occurrence of a
  pattern, and the split at the first occurrence of a character.
\<close>

fun starts_with :: "string \<Rightarrow> string \<Rightarrow> bool" where
  "starts_with s [] = True"
| "starts_with [] (p # ps) = False"
| "starts_with (c # s) (p # ps) = (c = p \<and> starts_with s ps)"

definition ends_with :: "string \<Rightarrow> string \<Rightarrow> bool" where
  "ends_with s p = starts_with (rev s) (rev p)"

fun str_find :: "string \<Rightarrow> string \<Rightarrow> nat option" where
  "str_find [] p = (if p = [] then Some 0 else None)"
| "str_find (c # s) p =
     (if starts_with (c # s) p then Some 0 else map_option Suc (str_find s p))"

fun split_once :: "char \<Rightarrow> string \<Rightarrow> (string \<times> string) option" where
  "split_once c [] = None"
| "split_once c (x # s) =
     (if x = c then Some ([], s) else map_option (\<lambda>(a, b). (x # a, b)) (split_once c s))"

definition contains_str :: "string \<Rightarrow> string \<Rightarrow> bool" where
  "contains_str s pat \<longleftrightarrow> str_find s pat \<noteq> None"

lemma starts_with_append [simp]: "starts_with (p @ s) p"
  by (induction p) simp_all

lemma starts_with_iff: "starts_with s p \<longleftrightarrow> (\<exists>t. s = p @ t)"
proof
  show "starts_with s p \<Longrightarrow> \<exists>t. s = p @ t"
    by (induction s p rule: starts_with.induct) auto
qed auto

lemma str_find_first:
  "c \<notin> set l \<Longrightarrow> str_find (l @ (c # p) @ s) (c # p) = Some (length l)"
  by (induction l) auto

lemma split_once_first: "c \<notin> set l \<Longrightarrow> split_once c (l @ c # s) = Some (l, s)"
  by (induction l) auto

lemma str_find_Some:
  "str_find s p = Some i \<Longrightarrow> \<exists>t. s = take i s @ p @ t \<and> i \<le> length s"
proof (induction s p arbitrary: i rule: str_find.induct)
  case (1 p)
  then show ?case by (simp split: if_splits)
next
  case (2 c s p)
  show ?case
  proof (cases "starts_with (c # s) p")
    case True
    with 2 show ?thesis by (auto simp: starts_with_iff)
  next
    case False
    with "2.prems" obtain j where j: "str_find s p = Some j" "i = Suc j" by auto
    from "2.IH" [OF False j(1)] j(2) show ?thesis by auto
  qed
qed

definition is_digit :: "char \<Rightarrow> bool" where
  "is_digit c \<longleftrightarrow> 48 \<le> (of_char c :: nat) \<and> (of_char c :: nat) \<le> 57"

text \<open>\<open>str::parse::<u64>\<close>: an optional plus, digits, no overflow.\<close>

fun parse_digits :: "nat \<Rightarrow> string \<Rightarrow> nat option" where
  "parse_digits acc [] = Some acc"
| "parse_digits acc (c # cs) =
     (if is_digit c then parse_digits (acc * 10 + (of_char c - 48)) cs else None)"

definition parse_u64 :: "string \<Rightarrow> nat option" where
  "parse_u64 s =
     (let ds = (case s of [] \<Rightarrow> [] | c # cs \<Rightarrow> if c = CHR ''+'' then cs else s)
      in if ds = [] then None
         else case parse_digits 0 ds of
                None \<Rightarrow> None
              | Some n \<Rightarrow> if n < 2 ^ 64 then Some n else None)"

lemma parse_digits_snoc:
  "parse_digits acc (s @ [c]) =
     (case parse_digits acc s of
        None \<Rightarrow> None
      | Some v \<Rightarrow> if is_digit c then Some (v * 10 + (of_char c - 48)) else None)"
  by (induction s arbitrary: acc) auto

lemma parse_digits_of [simp]: "parse_digits 0 (digits n) = Some n"
proof (induction n rule: digits.induct)
  case (1 n)
  have digit: "is_digit (char_of (48 + d))" "of_char (char_of (48 + d) :: char) - 48 = d" if "d < 10" for d :: nat
    using that by (simp_all add: is_digit_def)
  show ?case
  proof (cases "n < 10")
    case True
    with digit [of n] show ?thesis by (simp add: digits.simps [of n])
  next
    case False
    with 1 have "parse_digits 0 (digits (n div 10)) = Some (n div 10)" by simp
    then show ?thesis using False digit [of "n mod 10"]
      by (simp add: digits.simps [of n] parse_digits_snoc)
  qed
qed

lemma digits_head: "\<exists>c cs. digits n = c # cs \<and> is_digit c"
proof (induction n rule: digits.induct)
  case (1 n)
  show ?case
  proof (cases "n < 10")
    case True
    then show ?thesis by (simp add: digits.simps [of n] is_digit_def)
  next
    case False
    with 1 show ?thesis by (subst digits.simps) auto
  qed
qed

lemma parse_u64_digits [simp]: "n < 2 ^ 64 \<Longrightarrow> parse_u64 (digits n) = Some n"
proof -
  obtain c cs where "digits n = c # cs" "is_digit c" using digits_head by blast
  moreover have "\<not> is_digit (CHR ''+'')" by code_simp
  moreover have "parse_digits 0 (digits n) = Some n" by simp
  ultimately show "n < 2 ^ 64 \<Longrightarrow> parse_u64 (digits n) = Some n"
    by (auto simp: parse_u64_def Let_def simp del: parse_digits_of)
qed

end
