(* ===== verification/OpKinds.thy ===== *)
theory OpKinds
  imports EventModel StrOps
begin

text \<open>
  The map from MLX shader names to operation kinds, \<open>crates/smeltr-analyzer/src/op_kinds.rs\<close>:
  a prefix table, then the layout-coded copy and elementwise families, then the fused kernels.
\<close>

definition TABLE :: "(string \<times> string) list" where
  "TABLE =
     [(''quantized_matmul'', ''QuantizedMatmul''),
      (''affine_qmm'', ''QuantizedMatmul''),
      (''qmv'', ''QuantizedMatmul''),
      (''qvm'', ''QuantizedMatmul''),
      (''qmm'', ''QuantizedMatmul''),
      (''steel_gemm'', ''Matmul''),
      (''gemm'', ''Matmul''),
      (''gemv'', ''Matmul''),
      (''steel_attention'', ''ScaledDotProductAttention''),
      (''sdpa'', ''ScaledDotProductAttention''),
      (''block_softmax'', ''Softmax''),
      (''softmax'', ''Softmax''),
      (''rms_norm'', ''RMSNorm''),
      (''rms'', ''RMSNorm''),
      (''layer_norm'', ''LayerNorm''),
      (''gelu'', ''GeLU''),
      (''silu'', ''SiLU''),
      (''rope'', ''RoPE''),
      (''implicit_gemm_conv'', ''Conv''),
      (''depthwise_conv'', ''Conv''),
      (''naive_unfold'', ''Unfold''),
      (''winograd_conv'', ''Conv''),
      (''conv2d'', ''Conv2d''),
      (''conv'', ''Conv''),
      (''all_reduce'', ''Reduce''),
      (''row_reduce'', ''Reduce''),
      (''col_reduce'', ''Reduce''),
      (''reduce'', ''Reduce''),
      (''contig_scan'', ''Scan''),
      (''scan'', ''Scan''),
      (''sort'', ''Sort''),
      (''gather'', ''Gather''),
      (''scatter'', ''Scatter''),
      (''arange'', ''Arange''),
      (''rbits'', ''Random''),
      (''copy'', ''Copy''),
      (''affine_quantize'', ''Quantize''),
      (''affine_dequantize'', ''Dequantize''),
      (''quantize'', ''Quantize''),
      (''dequantize'', ''Dequantize'')]"

section \<open>Classes of characters\<close>

definition is_upper :: "char \<Rightarrow> bool" where
  "is_upper c \<longleftrightarrow> 65 \<le> (of_char c :: nat) \<and> (of_char c :: nat) \<le> 90"

definition layout_char :: "char \<Rightarrow> bool" where
  "layout_char c \<longleftrightarrow> c \<in> {CHR ''g'', CHR ''s'', CHR ''v'', CHR ''n''} \<or> is_digit c"

definition is_layout_prefix :: "string \<Rightarrow> bool" where
  "is_layout_prefix s \<longleftrightarrow> s \<noteq> [] \<and> list_all layout_char s"

section \<open>Resolution\<close>

definition table_kind :: "string \<Rightarrow> string option" where
  "table_kind symbol = map_option snd (List.find (\<lambda>(p, k). starts_with symbol p) TABLE)"

definition copy_family :: "string \<Rightarrow> bool" where
  "copy_family symbol =
     (case str_find symbol ''_copy'' of
        Some idx \<Rightarrow> is_layout_prefix (take idx symbol)
      | None \<Rightarrow> False)"

definition elementwise_family :: "string \<Rightarrow> bool" where
  "elementwise_family symbol =
     (case split_once (CHR ''_'') symbol of
        Some (prefix, rest) \<Rightarrow>
          is_layout_prefix prefix \<and> (case rest of [] \<Rightarrow> False | c # _ \<Rightarrow> is_upper c)
      | None \<Rightarrow> False)"

definition trim_end_digits :: "string \<Rightarrow> string" where
  "trim_end_digits s = rev (dropWhile is_digit (rev s))"

definition fused_layout :: "string \<Rightarrow> string" where
  "fused_layout symbol =
     (let layout = trim_end_digits symbol
      in if length layout < length symbol
         then (if ends_with layout ''_'' then butlast layout else symbol)
         else symbol)"

definition resolve_kind :: "string \<Rightarrow> string option" where
  "resolve_kind symbol =
     (case table_kind symbol of
        Some kind \<Rightarrow> Some kind
      | None \<Rightarrow>
          if copy_family symbol then Some ''Copy''
          else if elementwise_family symbol then Some ''Elementwise''
          else if ends_with (fused_layout symbol) ''_contiguous''
            \<or> ends_with (fused_layout symbol) ''_strided'' then Some ''FusedElementwise''
          else None)"

section \<open>Lemmas\<close>

text \<open>No table prefix continues a layout code with an underscore or ends inside one.\<close>

lemma table_outside_layout:
  "\<forall>(p, k) \<in> set TABLE. case dropWhile layout_char p of [] \<Rightarrow> False | c # _ \<Rightarrow> c \<noteq> CHR ''_''"
  by code_simp

lemma starts_with_layout:
  assumes "list_all layout_char l" and "starts_with (l @ CHR ''_'' # r) p"
  shows "case dropWhile layout_char p of [] \<Rightarrow> True | c # _ \<Rightarrow> c = CHR ''_''"
  using assms
proof (induction l arbitrary: p)
  case Nil
  have "\<not> layout_char (CHR ''_'')" by code_simp
  with Nil show ?case by (cases p) auto
next
  case (Cons c l)
  then show ?case by (cases p) auto
qed

lemma table_kind_layout:
  assumes "list_all layout_char l"
  shows "table_kind (l @ CHR ''_'' # r) = None"
proof -
  have "\<not> starts_with (l @ CHR ''_'' # r) p" if "(p, k) \<in> set TABLE" for p k
    using table_outside_layout starts_with_layout [OF assms, of r p] that
    by (auto split: list.splits)
  then show ?thesis by (auto simp: table_kind_def find_None_iff)
qed

lemma layout_no_underscore: "list_all layout_char l \<Longrightarrow> CHR ''_'' \<notin> set l"
proof -
  have "\<not> layout_char (CHR ''_'')" by code_simp
  then show "list_all layout_char l \<Longrightarrow> CHR ''_'' \<notin> set l" by (auto simp: list_all_iff)
qed

lemma copy_family_layout:
  assumes "list_all layout_char l" and "\<not> is_upper d"
  shows "copy_family (l @ ''_copy'' @ s) \<longleftrightarrow> l \<noteq> []"
  using str_find_first [OF layout_no_underscore [OF assms(1)], of "''copy''" s] assms(1)
  by (simp add: copy_family_def is_layout_prefix_def)

lemma copy_family_upper:
  assumes l: "list_all layout_char l" and u: "is_upper c"
  shows "\<not> copy_family (l @ CHR ''_'' # c # r)"
proof
  assume "copy_family (l @ CHR ''_'' # c # r)"
  then obtain i where f: "str_find (l @ CHR ''_'' # c # r) ''_copy'' = Some i"
    and p: "is_layout_prefix (take i (l @ CHR ''_'' # c # r))"
    by (auto simp: copy_family_def split: option.splits)
  from p have "CHR ''_'' \<notin> set (take i (l @ CHR ''_'' # c # r))"
    by (auto simp: is_layout_prefix_def dest: layout_no_underscore)
  then have il: "i \<le> length l" by (auto simp: take_Cons' split: if_splits)
  from str_find_Some [OF f] obtain t where
    t: "l @ CHR ''_'' # c # r = take i l @ ''_copy'' @ t" using il by auto
  have "l ! i = CHR ''_''" if "i < length l"
    using t that by (metis (no_types, lifting) append_Cons append_take_drop_id nth_append_length
        length_take min.absorb4 nth_append)
  with layout_no_underscore [OF l] have "\<not> i < length l" by (metis nth_mem)
  with il t have "c = CHR ''c''" by simp
  moreover have "\<not> is_upper (CHR ''c'')" by code_simp
  ultimately show False using u by simp
qed

section \<open>Properties\<close>

text \<open>
  The table has no dead entry: every prefix resolves to its own kind, because no earlier
  entry is a prefix of it.  And the layout-coded families are not shadowed by the table:
  every \<open><layout>_copy\<dots>\<close> kernel is a \<open>Copy\<close> and every \<open><layout>_<Uppercase>\<dots>\<close> kernel an
  \<open>Elementwise\<close>, whatever follows.
\<close>

theorem resolve_kind_families:
  "(\<forall>(p, k) \<in> set TABLE. resolve_kind p = Some k) \<and>
   (\<forall>l s. is_layout_prefix l \<longrightarrow> resolve_kind (l @ ''_copy'' @ s) = Some ''Copy'') \<and>
   (\<forall>l c r. is_layout_prefix l \<and> is_upper c \<longrightarrow>
      resolve_kind (l @ CHR ''_'' # c # r) = Some ''Elementwise'')"
proof (intro conjI allI impI)
  show "\<forall>(p, k) \<in> set TABLE. resolve_kind p = Some k" by code_simp
next
  fix l s
  assume "is_layout_prefix l"
  then have l: "list_all layout_char l" "l \<noteq> []" by (simp_all add: is_layout_prefix_def)
  then show "resolve_kind (l @ ''_copy'' @ s) = Some ''Copy''"
    using table_kind_layout [OF l(1), of "''copy'' @ s"] copy_family_layout [OF l(1), of "CHR ''c''" s]
    by (simp add: resolve_kind_def is_upper_def)
next
  fix l c r
  assume *: "is_layout_prefix l \<and> is_upper c"
  then have l: "list_all layout_char l" "l \<noteq> []" and u: "is_upper c"
    by (simp_all add: is_layout_prefix_def)
  have "elementwise_family (l @ CHR ''_'' # c # r)"
    using * split_once_first [OF layout_no_underscore [OF l(1)], of "c # r"]
    by (simp add: elementwise_family_def)
  then show "resolve_kind (l @ CHR ''_'' # c # r) = Some ''Elementwise''"
    using table_kind_layout [OF l(1)] copy_family_upper [OF l(1) u] by (simp add: resolve_kind_def)
qed

theorem resolve_kind_families_witness:
  "is_layout_prefix ''vvn'' \<and> is_upper (CHR ''M'') \<and>
   resolve_kind (''vvn'' @ CHR ''_'' # CHR ''M'' # ''ultiplyfloat32'') = Some ''Elementwise''"
proof -
  have "is_layout_prefix ''vvn''" and "is_upper (CHR ''M'')" by code_simp+
  then show ?thesis using resolve_kind_families by blast
qed

end
