(* ===== verification/Fmt.thy ===== *)
theory Fmt
  imports EventModel
begin

text \<open>
  The display helpers of \<open>crates/smeltr-core/src/fmt.rs\<close> that the analyzer's keys depend on:
  \<open>basename\<close> (with the path components of \<open>std::path::Path\<close>) and \<open>truncate\<close>, which counts
  characters of the UTF-8 text.
\<close>

section \<open>Paths\<close>

fun split_on :: "char \<Rightarrow> string \<Rightarrow> string list" where
  "split_on c [] = [[]]"
| "split_on c (x # xs) =
     (if x = c then [] # split_on c xs
      else case split_on c xs of [] \<Rightarrow> [[x]] | s # ss \<Rightarrow> (x # s) # ss)"

lemma split_on_nonempty [simp]: "split_on c s \<noteq> []"
  by (induction s) (auto split: list.splits)

text \<open>
  \<open>Path::file_name\<close>: empty components and \<open>.\<close> are not components of a normalised path; a path
  that ends in \<open>..\<close> or has no component has no file name.
\<close>

definition file_name :: "string \<Rightarrow> string option" where
  "file_name p =
     (case filter (\<lambda>s. s \<noteq> [] \<and> s \<noteq> ''.'') (split_on (CHR ''/'') p) of
        [] \<Rightarrow> None
      | cs \<Rightarrow> if last cs = ''..'' then None else Some (last cs))"

definition basename :: "string \<Rightarrow> string" where
  "basename p = (case file_name p of None \<Rightarrow> p | Some n \<Rightarrow> n)"

lemma split_on_no_sep: "s \<in> set (split_on c p) \<Longrightarrow> c \<notin> set s"
  by (induction p arbitrary: s) (fastforce split: if_splits list.splits)+

lemma file_name_component:
  "file_name p = Some n \<Longrightarrow> n \<noteq> [] \<and> n \<noteq> ''.'' \<and> n \<noteq> ''..'' \<and> CHR ''/'' \<notin> set n"
proof -
  assume f: "file_name p = Some n"
  let ?cs = "filter (\<lambda>s. s \<noteq> [] \<and> s \<noteq> ''.'') (split_on (CHR ''/'') p)"
  from f have "?cs \<noteq> []" and n: "n = last ?cs" "n \<noteq> ''..''"
    by (auto simp: file_name_def split: list.splits if_splits)
  then have "n \<in> set ?cs" by (metis last_in_set)
  with n(2) show ?thesis using split_on_no_sep by auto
qed

section \<open>Truncation\<close>

text \<open>
  The characters of a UTF-8 text: a byte \<open>10xxxxxx\<close> continues the character before it.
\<close>

definition is_continuation :: "char \<Rightarrow> bool" where
  "is_continuation c \<longleftrightarrow> 0x80 \<le> (of_char c :: nat) \<and> (of_char c :: nat) < 0xC0"

fun utf8_chars :: "string \<Rightarrow> string list" where
  "utf8_chars [] = []"
| "utf8_chars (c # cs) =
     (case utf8_chars cs of
        [] \<Rightarrow> [[c]]
      | (d # ds) # rest \<Rightarrow>
          if is_continuation d then (c # d # ds) # rest else [c] # (d # ds) # rest
      | [] # rest \<Rightarrow> [c] # rest)"

definition ellipsis :: string where
  "ellipsis = [CHR 0xE2, CHR 0x80, CHR 0xA6]"

definition truncate_str :: "string \<Rightarrow> nat \<Rightarrow> string" where
  "truncate_str s mx =
     (if mx = 0 then []
      else if length (utf8_chars s) \<le> mx then s
      else concat (take (mx - 1) (utf8_chars s)) @ ellipsis)"

lemma concat_utf8_chars [simp]: "concat (utf8_chars s) = s"
  by (induction s rule: utf8_chars.induct) (auto split: list.splits)

lemma truncate_str_short: "0 < mx \<Longrightarrow> length (utf8_chars s) \<le> mx \<Longrightarrow> truncate_str s mx = s"
  by (simp add: truncate_str_def)

end
