(* ===== verification/Windows.thy ===== *)
theory Windows
  imports Fmt
begin

text \<open>
  The time windows of \<open>crates/smeltr-analyzer/src/windows.rs\<close>: evaluation windows and scope
  windows built from the event stream, the lookup rule \<open>eval_at\<close> and the forward sweep
  \<open>ScopeSweep\<close>.  The lemmas give the pass over the events a direct specification (which
  return closes which call) and show that the sweep computes the same answer as a search of
  all windows.
\<close>

definition ASYNC_GRACE_NS :: u64 where
  "ASYNC_GRACE_NS = 500000000"

section \<open>Evaluation windows\<close>

record eval_window =
  ew_t_in :: u64
  ew_t_out :: u64
  ew_seq :: u64
  ew_module_stack :: "u64 list"
  ew_top_frame :: "string option"

definition frame_label :: "stack_frame \<Rightarrow> string" where
  "frame_label f = basename (filename f) @ '':'' @ digits (unat (lineno f))"

record eval_scan =
  es_open :: "u64 \<rightharpoonup> eval_window"
  es_out :: "eval_window list"

definition eval_scan_init :: eval_scan where
  "eval_scan_init = \<lparr>es_open = Map.empty, es_out = []\<rparr>"

definition eval_step :: "eval_scan \<Rightarrow> event \<Rightarrow> eval_scan" where
  "eval_step s ev =
     (case payload ev of
        MlxEvalEntered call_id _ _ module_stack stack_frames \<Rightarrow>
          s\<lparr>es_open := (es_open s)(call_id \<mapsto>
            \<lparr>ew_t_in = ts_mono_ns ev, ew_t_out = ts_mono_ns ev, ew_seq = ev_seq ev,
             ew_module_stack = module_stack,
             ew_top_frame = (case stack_frames of [] \<Rightarrow> None | f # _ \<Rightarrow> Some (frame_label f))\<rparr>)\<rparr>
      | MlxEvalReturned call_id _ was_async \<Rightarrow>
          (case es_open s call_id of
             None \<Rightarrow> s
           | Some w \<Rightarrow>
               s\<lparr>es_open := (es_open s)(call_id := None),
                 es_out := es_out s @
                   [w\<lparr>ew_t_out := (if was_async then sat_add (ts_mono_ns ev) ASYNC_GRACE_NS
                                  else ts_mono_ns ev)\<rparr>]\<rparr>)
      | _ \<Rightarrow> s)"

definition eval_windows :: "event list \<Rightarrow> eval_window list" where
  "eval_windows es = sort_key ew_t_in (es_out (foldl eval_step eval_scan_init es))"

definition eval_at :: "eval_window list \<Rightarrow> u64 \<Rightarrow> nat option" where
  "eval_at ws ts = rposition (\<lambda>w. ew_t_in w \<le> ts \<and> ts \<le> ew_t_out w) ws"

section \<open>Scope windows\<close>

record scope_window =
  sw_t_in :: u64
  sw_t_out :: u64
  sw_call_id :: u64
  sw_qualname :: string

record scope_windows =
  sws_windows :: "scope_window list"
  sws_malformed_returns :: u64

record scope_scan =
  sc_windows :: "scope_window list"
  sc_index :: "u64 \<rightharpoonup> nat"
  sc_open :: "u64 list"
  sc_malformed :: u64

definition scope_scan_init :: scope_scan where
  "scope_scan_init = \<lparr>sc_windows = [], sc_index = Map.empty, sc_open = [], sc_malformed = 0\<rparr>"

definition last_event_ts :: "event list \<Rightarrow> u64" where
  "last_event_ts es = (case es of [] \<Rightarrow> 0 | _ \<Rightarrow> ts_mono_ns (last es))"

definition scope_step :: "u64 \<Rightarrow> scope_scan \<Rightarrow> event \<Rightarrow> scope_scan" where
  "scope_step last_ts s ev =
     (case payload ev of
        ModuleEntered c _ q _ _ _ _ \<Rightarrow>
          s\<lparr>sc_index := (sc_index s)(c \<mapsto> length (sc_windows s)),
            sc_open := sc_open s @ [c],
            sc_windows := sc_windows s @
              [\<lparr>sw_t_in = ts_mono_ns ev, sw_t_out = last_ts, sw_call_id = c, sw_qualname = q\<rparr>]\<rparr>
      | ModuleReturned c \<Rightarrow>
          (case rposition (\<lambda>x. x = c) (sc_open s) of
             Some pos \<Rightarrow>
               s\<lparr>sc_open := remove_at pos (sc_open s),
                 sc_windows :=
                   (case sc_index s c of
                      Some i \<Rightarrow> (sc_windows s)[i := (sc_windows s ! i)\<lparr>sw_t_out := ts_mono_ns ev\<rparr>]
                    | None \<Rightarrow> sc_windows s)\<rparr>
           | None \<Rightarrow>
               if sc_index s c = None then s\<lparr>sc_malformed := sc_malformed s + 1\<rparr> else s)
      | _ \<Rightarrow> s)"

definition scope_windows :: "event list \<Rightarrow> scope_windows" where
  "scope_windows es =
     (let s = foldl (scope_step (last_event_ts es)) scope_scan_init es
      in \<lparr>sws_windows = sort_key sw_t_in (sc_windows s),
          sws_malformed_returns = sc_malformed s + of_nat (length (sc_open s))\<rparr>)"

section \<open>The scope sweep\<close>

record scope_sweep =
  swp_windows :: "scope_window list"
  swp_next :: nat
  swp_stack :: "scope_window list" \<comment> \<open>top of the stack last\<close>

definition sweep_new :: "scope_window list \<Rightarrow> scope_sweep" where
  "sweep_new ws = \<lparr>swp_windows = ws, swp_next = 0, swp_stack = []\<rparr>"

function push_due :: "u64 \<Rightarrow> scope_sweep \<Rightarrow> scope_sweep" where
  "push_due ts s =
     (if swp_next s < length (swp_windows s) \<and> sw_t_in (swp_windows s ! swp_next s) \<le> ts
      then push_due ts (s\<lparr>swp_stack := swp_stack s @ [swp_windows s ! swp_next s],
                          swp_next := Suc (swp_next s)\<rparr>)
      else s)"
  by pat_completeness auto
termination
  by (relation "measure (\<lambda>(ts, s). length (swp_windows s) - swp_next s)") auto

declare push_due.simps [simp del]

definition expired :: "u64 \<Rightarrow> scope_window \<Rightarrow> bool" where
  "expired ts w \<longleftrightarrow> sat_add (sw_t_out w) ASYNC_GRACE_NS < ts"

function pop_expired :: "u64 \<Rightarrow> scope_window list \<Rightarrow> scope_window list" where
  "pop_expired ts st =
     (if st \<noteq> [] \<and> expired ts (last st) then pop_expired ts (butlast st) else st)"
  by pat_completeness auto
termination
  by (relation "measure (\<lambda>(ts, st). length st)") auto

declare pop_expired.simps [simp del]

definition innermost_at :: "scope_sweep \<Rightarrow> u64 \<Rightarrow> scope_sweep \<times> scope_window option" where
  "innermost_at s ts =
     (let s1 = push_due ts s; st = pop_expired ts (swp_stack s1)
      in (s1\<lparr>swp_stack := st\<rparr>, if st = [] then None else Some (last st)))"

section \<open>Which return closes which call\<close>

definition entered_ids :: "event list \<Rightarrow> u64 list" where
  "entered_ids es =
     concat (map (\<lambda>e. case payload e of ModuleEntered c _ _ _ _ _ _ \<Rightarrow> [c] | _ \<Rightarrow> []) es)"

lemma entered_ids_simps [simp]:
  "entered_ids [] = []"
  "entered_ids (e # es) =
     (case payload e of ModuleEntered c _ _ _ _ _ _ \<Rightarrow> [c] | _ \<Rightarrow> []) @ entered_ids es"
  "entered_ids (es @ fs) = entered_ids es @ entered_ids fs"
  by (simp_all add: entered_ids_def)

text \<open>The stamp of the first return naming \<open>c\<close>.\<close>

fun first_return :: "u64 \<Rightarrow> event list \<Rightarrow> u64 option" where
  "first_return c [] = None"
| "first_return c (e # es) =
     (case payload e of
        ModuleReturned d \<Rightarrow> if d = c then Some (ts_mono_ns e) else first_return c es
      | _ \<Rightarrow> first_return c es)"

text \<open>
  The windows the scan must produce: one per entry, closed by the first later return that
  names the call, or by the end of the session.
\<close>

definition spec_window :: "u64 \<Rightarrow> event \<Rightarrow> u64 \<Rightarrow> string \<Rightarrow> event list \<Rightarrow> scope_window" where
  "spec_window last_ts e c q es =
     \<lparr>sw_t_in = ts_mono_ns e,
      sw_t_out = (case first_return c es of None \<Rightarrow> last_ts | Some t \<Rightarrow> t),
      sw_call_id = c, sw_qualname = q\<rparr>"

fun scope_spec :: "u64 \<Rightarrow> event list \<Rightarrow> scope_window list" where
  "scope_spec last_ts [] = []"
| "scope_spec last_ts (e # es) =
     (case payload e of
        ModuleEntered c _ q _ _ _ _ \<Rightarrow> [spec_window last_ts e c q es]
      | _ \<Rightarrow> []) @ scope_spec last_ts es"

definition scan_wf :: "scope_scan \<Rightarrow> bool" where
  "scan_wf s \<longleftrightarrow>
     distinct (map sw_call_id (sc_windows s)) \<and>
     (\<forall>c i. sc_index s c = Some i \<longleftrightarrow> i < length (sc_windows s) \<and> sw_call_id (sc_windows s ! i) = c) \<and>
     distinct (sc_open s) \<and> set (sc_open s) \<subseteq> sw_call_id ` set (sc_windows s)"

lemma scan_wf_init: "scan_wf scope_scan_init"
  by (simp add: scan_wf_def scope_scan_init_def)

lemma scan_wf_dom: "scan_wf s \<Longrightarrow> sc_index s c = None \<longleftrightarrow> c \<notin> sw_call_id ` set (sc_windows s)"
proof -
  assume "scan_wf s"
  then have "(\<exists>i. sc_index s c = Some i) \<longleftrightarrow> c \<in> set (map sw_call_id (sc_windows s))"
    unfolding scan_wf_def in_set_conv_nth by auto
  then show ?thesis by (cases "sc_index s c") auto
qed

lemma scope_step_enter:
  "payload e = ModuleEntered c a q b p d f \<Longrightarrow>
     scope_step last_ts s e =
       s\<lparr>sc_index := (sc_index s)(c \<mapsto> length (sc_windows s)),
         sc_open := sc_open s @ [c],
         sc_windows := sc_windows s @
           [\<lparr>sw_t_in = ts_mono_ns e, sw_t_out = last_ts, sw_call_id = c, sw_qualname = q\<rparr>]\<rparr>"
  by (simp add: scope_step_def)

lemma scan_wf_enter:
  assumes "scan_wf s" and "c \<notin> sw_call_id ` set (sc_windows s)" and "payload e = ModuleEntered c a q b p d f"
  shows "scan_wf (scope_step last_ts s e)"
  using assms by (auto simp: scan_wf_def scope_step_def nth_append less_Suc_eq image_iff)

text \<open>Closing one call, the effect of a return on the windows.\<close>

definition close_window :: "u64 \<Rightarrow> u64 \<Rightarrow> scope_window \<Rightarrow> scope_window" where
  "close_window c t w = (if sw_call_id w = c then w\<lparr>sw_t_out := t\<rparr> else w)"

lemma sw_call_id_close [simp]: "sw_call_id (close_window c t w) = sw_call_id w"
  by (simp add: close_window_def)

lemma scope_step_return:
  assumes wf: "scan_wf s" and p: "payload e = ModuleReturned c"
  shows "scope_step last_ts s e =
    (if c \<in> set (sc_open s)
     then s\<lparr>sc_open := remove1 c (sc_open s),
            sc_windows := map (close_window c (ts_mono_ns e)) (sc_windows s)\<rparr>
     else if c \<in> sw_call_id ` set (sc_windows s) then s
     else s\<lparr>sc_malformed := sc_malformed s + 1\<rparr>)"
proof (cases "c \<in> set (sc_open s)")
  case True
  then obtain pos where pos: "rposition (\<lambda>x. x = c) (sc_open s) = Some pos"
    by (metis (full_types) not_None_eq rposition_None)
  from rposition_Some [OF pos] have lt: "pos < length (sc_open s)" and at: "sc_open s ! pos = c" by auto
  have d: "distinct (sc_open s)" using wf by (simp add: scan_wf_def)
  have rm: "remove_at pos (sc_open s) = remove1 c (sc_open s)"
    using id_take_nth_drop [OF lt] d at
    by (metis (no_types, lifting) distinct_append not_distinct_conv_prefix remove1_append
        remove_at_def distinct.simps(2) remove1.simps(2) disjoint_insert(2) list.set(2))
  from True wf obtain i where i: "sc_index s c = Some i"
    by (metis (no_types) not_None_eq scan_wf_dom scan_wf_def subset_iff)
  with wf have il: "i < length (sc_windows s)" and ic: "sw_call_id (sc_windows s ! i) = c"
    by (auto simp: scan_wf_def)
  have "(sc_windows s)[i := (sc_windows s ! i)\<lparr>sw_t_out := ts_mono_ns e\<rparr>] =
      map (close_window c (ts_mono_ns e)) (sc_windows s)"
    using wf il ic
    by (intro nth_equalityI)
      (auto simp: scan_wf_def close_window_def nth_list_update distinct_conv_nth)
  with True p pos rm i show ?thesis by (simp add: scope_step_def)
next
  case False
  then have "rposition (\<lambda>x. x = c) (sc_open s) = None" by (auto simp: rposition_None)
  with False p show ?thesis using scan_wf_dom [OF wf, of c] by (simp add: scope_step_def)
qed

lemma scan_wf_return:
  assumes wf: "scan_wf s" and p: "payload e = ModuleReturned c"
  shows "scan_wf (scope_step last_ts s e)"
proof -
  have "sw_call_id \<circ> close_window c t = sw_call_id" for t
    by (auto simp: close_window_def)
  moreover have "sw_call_id (close_window c t w) = sw_call_id w" for t w
    by (simp add: close_window_def)
  ultimately show ?thesis
    using wf unfolding scope_step_return [OF wf p]
    by (auto simp: scan_wf_def image_image dest: notin_set_remove1)
qed

lemma scope_step_other:
  "\<forall>c a q b p d f. payload e \<noteq> ModuleEntered c a q b p d f \<Longrightarrow>
   \<forall>c. payload e \<noteq> ModuleReturned c \<Longrightarrow> scope_step last_ts s e = s"
  by (cases "payload e") (simp_all add: scope_step_def)

text \<open>The windows of a state, once the rest of the stream has been read.\<close>

definition finish_window :: "event list \<Rightarrow> u64 list \<Rightarrow> scope_window \<Rightarrow> scope_window" where
  "finish_window es opn w =
     (if sw_call_id w \<in> set opn
      then (case first_return (sw_call_id w) es of None \<Rightarrow> w | Some t \<Rightarrow> w\<lparr>sw_t_out := t\<rparr>)
      else w)"

lemma scope_run:
  assumes "scan_wf s"
    and "distinct (entered_ids es)"
    and "set (entered_ids es) \<inter> sw_call_id ` set (sc_windows s) = {}"
  shows "sc_windows (foldl (scope_step last_ts) s es) =
    map (finish_window es (sc_open s)) (sc_windows s) @ scope_spec last_ts es"
  using assms
proof (induction es arbitrary: s)
  case Nil
  then show ?case by (simp add: finish_window_def map_idI)
next
  case (Cons e es)
  have op: "set (sc_open s) \<subseteq> sw_call_id ` set (sc_windows s)"
    using Cons.prems(1) by (simp add: scan_wf_def)
  consider (enter) c a q b p d f where "payload e = ModuleEntered c a q b p d f"
    | (return) c where "payload e = ModuleReturned c"
    | (other) "\<forall>c a q b p d f. payload e \<noteq> ModuleEntered c a q b p d f"
        "\<forall>c. payload e \<noteq> ModuleReturned c"
    by blast
  then show ?case
  proof cases
    case enter
    with Cons.prems have new: "c \<notin> sw_call_id ` set (sc_windows s)" by auto
    note st = scope_step_enter [OF enter, of last_ts s]
    let ?s' = "scope_step last_ts s e"
    have "sc_windows (foldl (scope_step last_ts) ?s' es) =
        map (finish_window es (sc_open ?s')) (sc_windows ?s') @ scope_spec last_ts es"
      using Cons.prems enter scan_wf_enter [OF Cons.prems(1) new enter, of last_ts, unfolded st]
      by (intro Cons.IH) (auto simp: st)
    moreover have "map (finish_window es (sc_open s @ [c])) (sc_windows s) =
        map (finish_window (e # es) (sc_open s)) (sc_windows s)"
      using new enter by (auto simp: finish_window_def image_iff)
    moreover have "finish_window es (sc_open s @ [c])
        \<lparr>sw_t_in = ts_mono_ns e, sw_t_out = last_ts, sw_call_id = c, sw_qualname = q\<rparr> =
        spec_window last_ts e c q es"
      by (simp add: finish_window_def spec_window_def split: option.splits)
    ultimately show ?thesis
      using enter by (simp add: st)
  next
    case return
    let ?s' = "scope_step last_ts s e"
    have ids: "sw_call_id ` set (sc_windows ?s') = sw_call_id ` set (sc_windows s)"
      unfolding scope_step_return [OF Cons.prems(1) return]
      by (simp add: image_image)
    have "sc_windows (foldl (scope_step last_ts) ?s' es) =
        map (finish_window es (sc_open ?s')) (sc_windows ?s') @ scope_spec last_ts es"
      using Cons.prems return ids scan_wf_return [OF Cons.prems(1) return]
      by (intro Cons.IH) auto
    moreover have "map (finish_window es (sc_open ?s')) (sc_windows ?s') =
        map (finish_window (e # es) (sc_open s)) (sc_windows s)"
      using Cons.prems(1) return unfolding scope_step_return [OF Cons.prems(1) return]
      by (auto simp: finish_window_def close_window_def scan_wf_def split: option.splits)
    ultimately show ?thesis using return by simp
  next
    case other
    then have step: "scope_step last_ts s e = s" by (rule scope_step_other)
    from other have e: "entered_ids (e # es) = entered_ids es"
        "scope_spec last_ts (e # es) = scope_spec last_ts es"
        "\<And>c. first_return c (e # es) = first_return c es"
      by (cases "payload e"; simp)+
    then have fw: "finish_window (e # es) = finish_window es"
      by (intro ext) (simp only: finish_window_def)
    show ?thesis
      unfolding foldl.simps step e(2) fw
      using Cons.prems(1) Cons.prems(2,3) [unfolded e(1)] by (rule Cons.IH)
  qed
qed

section \<open>What the sweep computes\<close>

text \<open>
  The search the sweep stands for: the last window, in entry order, that covers \<open>ts\<close>.  A window
  covers the stamps from its entry to half a second after its return, whatever the sweep's own
  test for expiry.
\<close>

definition scope_covers :: "u64 \<Rightarrow> scope_window \<Rightarrow> bool" where
  "scope_covers ts w \<longleftrightarrow>
     unat (sw_t_in w) \<le> unat ts \<and> unat ts \<le> unat (sw_t_out w) + 500000000"

definition scope_at :: "scope_window list \<Rightarrow> u64 \<Rightarrow> scope_window option" where
  "scope_at ws ts = rfind (scope_covers ts) ws"

fun sweep_all :: "scope_sweep \<Rightarrow> u64 list \<Rightarrow> scope_window option list" where
  "sweep_all s [] = []"
| "sweep_all s (t # ts) = (let (s', r) = innermost_at s t in r # sweep_all s' ts)"

lemma not_expired: "\<not> expired ts w \<longleftrightarrow> unat ts \<le> unat (sw_t_out w) + 500000000"
proof -
  have "unat ts \<le> 18446744073709551615"
    using unat64_less [of ts] by (simp del: unat64_less)
  then show ?thesis
    by (auto simp: expired_def word_less_nat_alt unat_sat_add ASYNC_GRACE_NS_def not_less)
qed

lemma scope_covers_iff: "scope_covers ts w \<longleftrightarrow> sw_t_in w \<le> ts \<and> \<not> expired ts w"
  by (simp add: scope_covers_def not_expired word_le_nat_alt)

lemma expired_mono: "expired a w \<Longrightarrow> a \<le> b \<Longrightarrow> expired b w"
  by (auto simp: expired_def)

text \<open>
  The sweep's state after a query at \<open>ts\<close>: the stack holds the windows passed so far except
  some that are expired for every later query.
\<close>

definition sweep_inv :: "scope_window list \<Rightarrow> u64 \<Rightarrow> scope_sweep \<Rightarrow> bool" where
  "sweep_inv ws ts s \<longleftrightarrow>
     swp_windows s = ws \<and> swp_next s \<le> length ws \<and>
     (\<forall>w \<in> set (take (swp_next s) ws). sw_t_in w \<le> ts) \<and>
     (\<forall>t \<ge> ts. filter (\<lambda>w. \<not> expired t w) (swp_stack s) =
               filter (\<lambda>w. \<not> expired t w) (take (swp_next s) ws))"

lemma sweep_inv_new: "sweep_inv ws ts (sweep_new ws)"
  by (simp add: sweep_inv_def sweep_new_def)

lemma sweep_inv_mono: "sweep_inv ws a s \<Longrightarrow> a \<le> b \<Longrightarrow> sweep_inv ws b s"
  by (auto simp: sweep_inv_def intro: order_trans)

lemma push_due_inv:
  "sweep_inv ws ts s \<Longrightarrow>
     sweep_inv ws ts (push_due ts s) \<and>
     (swp_next (push_due ts s) < length ws \<longrightarrow> ts < sw_t_in (ws ! swp_next (push_due ts s)))"
proof (induction ts s rule: push_due.induct)
  case (1 ts s)
  show ?case
  proof (cases "swp_next s < length (swp_windows s) \<and> sw_t_in (swp_windows s ! swp_next s) \<le> ts")
    case True
    let ?s' = "s\<lparr>swp_stack := swp_stack s @ [swp_windows s ! swp_next s],
                 swp_next := Suc (swp_next s)\<rparr>"
    from True "1.prems" have "sweep_inv ws ts ?s'"
      by (auto simp: sweep_inv_def take_Suc_conv_app_nth)
    from "1.IH" [OF True this] True show ?thesis
      by (simp add: push_due.simps [of ts s])
  next
    case False
    with "1.prems" show ?thesis
      by (auto simp: push_due.simps [of ts s] sweep_inv_def not_le)
  qed
qed

lemma pop_expired_eq:
  "pop_expired ts st = rev (dropWhile (expired ts) (rev st))"
proof (induction ts st rule: pop_expired.induct)
  case (1 ts st)
  then show ?case
    by (cases st rule: rev_cases) (subst pop_expired.simps, simp)+
qed

lemma filter_dropWhile_neg:
  "(\<And>x. p x \<Longrightarrow> q x) \<Longrightarrow> filter (\<lambda>x. \<not> q x) (dropWhile p xs) = filter (\<lambda>x. \<not> q x) xs"
  by (induction xs) auto

lemma filter_pop_expired:
  assumes "ts \<le> t"
  shows "filter (\<lambda>w. \<not> expired t w) (pop_expired ts st) = filter (\<lambda>w. \<not> expired t w) st"
  using filter_dropWhile_neg [of "expired ts" "expired t" "rev st"] expired_mono assms
  by (simp add: pop_expired_eq flip: rev_filter)

lemma last_pop_expired: "pop_expired ts st \<noteq> [] \<Longrightarrow> \<not> expired ts (last (pop_expired ts st))"
  using hd_dropWhile [of "expired ts" "rev st"]
  by (simp add: pop_expired_eq last_rev del: dropWhile_eq_Nil_conv)

text \<open>One query: the answer is the search's, and the state stays in step with it.\<close>

lemma innermost_at_correct:
  assumes inv: "sweep_inv ws ts s" and sorted: "sorted (map sw_t_in ws)"
  shows "snd (innermost_at s ts) = scope_at ws ts"
    and "sweep_inv ws ts (fst (innermost_at s ts))"
proof -
  define s1 where "s1 = push_due ts s"
  define n where "n = swp_next s1"
  define st where "st = pop_expired ts (swp_stack s1)"
  from push_due_inv [OF inv] have i1: "sweep_inv ws ts s1"
    and nxt: "n < length ws \<longrightarrow> ts < sw_t_in (ws ! n)" by (simp_all add: s1_def n_def)
  have live: "filter (\<lambda>w. \<not> expired t w) st = filter (\<lambda>w. \<not> expired t w) (take n ws)" if "ts \<le> t" for t
    using i1 that by (simp add: st_def filter_pop_expired sweep_inv_def n_def)
  have late: "\<not> scope_covers ts w" if "w \<in> set (drop n ws)" for w
  proof -
    from that obtain j where "j < length (drop n ws)" and "w = drop n ws ! j"
      by (metis in_set_conv_nth)
    then have j: "n + j < length ws" "w = ws ! (n + j)" by simp_all
    then have "sw_t_in (ws ! n) \<le> sw_t_in w"
      using sorted by (auto simp: sorted_iff_nth_mono)
    with nxt j(1) show ?thesis by (auto simp: scope_covers_iff)
  qed
  have early: "filter (scope_covers ts) (take n ws) = filter (\<lambda>w. \<not> expired ts w) (take n ws)"
    using i1 by (intro filter_cong) (auto simp: sweep_inv_def scope_covers_iff n_def)
  have "filter (scope_covers ts) ws = filter (scope_covers ts) (take n ws @ drop n ws)" by simp
  also have "\<dots> = filter (\<lambda>w. \<not> expired ts w) st"
    using late by (simp add: filter_append early live del: append_take_drop_id)
  finally have *: "scope_at ws ts = rfind (\<lambda>w. \<not> expired ts w) st"
    by (simp add: scope_at_def rfind_def)
  have "rfind (\<lambda>w. \<not> expired ts w) st = (if st = [] then None else Some (last st))"
    using last_pop_expired [of ts "swp_stack s1"] rfind_last [of st]
    by (auto simp: st_def rfind_def)
  with * show "snd (innermost_at s ts) = scope_at ws ts"
    by (simp add: innermost_at_def s1_def st_def Let_def)
  from i1 live show "sweep_inv ws ts (fst (innermost_at s ts))"
    by (simp add: innermost_at_def Let_def sweep_inv_def s1_def st_def n_def)
qed

lemma sweep_all_from:
  assumes "sorted (map sw_t_in ws)" and "sweep_inv ws t0 s" and "sorted ts" and "\<forall>t \<in> set ts. t0 \<le> t"
  shows "sweep_all s ts = map (scope_at ws) ts"
  using assms(2-4)
proof (induction ts arbitrary: s t0)
  case Nil
  then show ?case by simp
next
  case (Cons t ts)
  from Cons.prems have "sweep_inv ws t s" by (auto intro: sweep_inv_mono)
  note step = innermost_at_correct [OF this assms(1)]
  from Cons.IH [OF step(2)] Cons.prems step(1) show ?case
    by (auto simp: split_beta)
qed

text \<open>Counting the malformed returns.\<close>

fun orphan_returns :: "u64 set \<Rightarrow> event list \<Rightarrow> nat" where
  "orphan_returns seen [] = 0"
| "orphan_returns seen (e # es) =
     (case payload e of
        ModuleEntered c _ _ _ _ _ _ \<Rightarrow> orphan_returns (insert c seen) es
      | ModuleReturned c \<Rightarrow> (if c \<in> seen then 0 else 1) + orphan_returns seen es
      | _ \<Rightarrow> orphan_returns seen es)"

fun unreturned :: "event list \<Rightarrow> nat" where
  "unreturned [] = 0"
| "unreturned (e # es) =
     (case payload e of
        ModuleEntered c _ _ _ _ _ _ \<Rightarrow> (if first_return c es = None then 1 else 0)
      | _ \<Rightarrow> 0) + unreturned es"

lemma filter_remove1_neg:
  "distinct xs \<Longrightarrow> \<not> p c \<Longrightarrow> (\<And>x. x \<noteq> c \<Longrightarrow> p x = q x) \<Longrightarrow>
     filter p xs = filter q (remove1 c xs)"
  by (induction xs) (auto simp: remove1_idem)

lemma scope_run_counts:
  assumes "scan_wf s"
    and "distinct (entered_ids es)"
    and "set (entered_ids es) \<inter> sw_call_id ` set (sc_windows s) = {}"
  shows "sc_malformed (foldl (scope_step last_ts) s es) =
      sc_malformed s + of_nat (orphan_returns (sw_call_id ` set (sc_windows s)) es) \<and>
    length (sc_open (foldl (scope_step last_ts) s es)) =
      length (filter (\<lambda>c. first_return c es = None) (sc_open s)) + unreturned es"
  using assms
proof (induction es arbitrary: s)
  case Nil
  then show ?case by simp
next
  case (Cons e es)
  have op: "set (sc_open s) \<subseteq> sw_call_id ` set (sc_windows s)" and d: "distinct (sc_open s)"
    using Cons.prems(1) by (simp_all add: scan_wf_def)
  consider (enter) c a q b p d f where "payload e = ModuleEntered c a q b p d f"
    | (return) c where "payload e = ModuleReturned c"
    | (other) "\<forall>c a q b p d f. payload e \<noteq> ModuleEntered c a q b p d f"
        "\<forall>c. payload e \<noteq> ModuleReturned c"
    by blast
  then show ?case
  proof cases
    case enter
    with Cons.prems have new: "c \<notin> sw_call_id ` set (sc_windows s)" by auto
    note st = scope_step_enter [OF enter, of last_ts s]
    have "sc_malformed (foldl (scope_step last_ts) (scope_step last_ts s e) es) =
        sc_malformed s + of_nat (orphan_returns (insert c (sw_call_id ` set (sc_windows s))) es) \<and>
      length (sc_open (foldl (scope_step last_ts) (scope_step last_ts s e) es)) =
        length (filter (\<lambda>c. first_return c es = None) (sc_open s @ [c])) + unreturned es"
      using Cons.IH [of "scope_step last_ts s e"] Cons.prems enter new
        scan_wf_enter [OF Cons.prems(1) new enter, of last_ts]
      unfolding st by simp
    with enter show ?thesis by simp
  next
    case return
    let ?s' = "scope_step last_ts s e"
    note st = scope_step_return [OF Cons.prems(1) return, of last_ts]
    have ids: "sw_call_id ` set (sc_windows ?s') = sw_call_id ` set (sc_windows s)"
      by (simp add: st image_image)
    have ih: "sc_malformed (foldl (scope_step last_ts) ?s' es) =
        sc_malformed ?s' + of_nat (orphan_returns (sw_call_id ` set (sc_windows s)) es) \<and>
      length (sc_open (foldl (scope_step last_ts) ?s' es)) =
        length (filter (\<lambda>c. first_return c es = None) (sc_open ?s')) + unreturned es"
      unfolding ids [symmetric]
      using Cons.prems return ids scan_wf_return [OF Cons.prems(1) return]
      by (intro Cons.IH) auto
    have "filter (\<lambda>x. first_return x (e # es) = None) (sc_open s) =
        filter (\<lambda>x. first_return x es = None) (remove1 c (sc_open s))"
      using d return by (intro filter_remove1_neg) auto
    moreover have "sc_malformed ?s' = sc_malformed s +
        (if c \<in> sw_call_id ` set (sc_windows s) then 0 else 1)"
      and "sc_open ?s' = remove1 c (sc_open s)"
      using op by (auto simp: st remove1_idem)
    ultimately show ?thesis using ih return by simp
  next
    case other
    then have step: "scope_step last_ts s e = s" by (rule scope_step_other)
    from other have e: "entered_ids (e # es) = entered_ids es"
        "unreturned (e # es) = unreturned es"
        "\<And>seen. orphan_returns seen (e # es) = orphan_returns seen es"
        "\<And>c. first_return c (e # es) = first_return c es"
      by (cases "payload e"; simp)+
    show ?thesis
      unfolding foldl.simps step e(2-)
      using Cons.prems(1) Cons.prems(2,3) [unfolded e(1)] by (rule Cons.IH)
  qed
qed

section \<open>Which return closes which evaluation\<close>

text \<open>\<open>opens es c w\<close>: the last event naming call \<open>c\<close> in \<open>es\<close> is its entry, described by \<open>w\<close>.\<close>

fun eval_names :: "payload \<Rightarrow> u64 \<Rightarrow> bool" where
  "eval_names (MlxEvalEntered c _ _ _ _) d = (c = d)"
| "eval_names (MlxEvalReturned c _ _) d = (c = d)"
| "eval_names _ d = False"

definition entry_window :: "event \<Rightarrow> u64 list \<Rightarrow> stack_frame list \<Rightarrow> eval_window" where
  "entry_window e ms fs =
     \<lparr>ew_t_in = ts_mono_ns e, ew_t_out = ts_mono_ns e, ew_seq = ev_seq e, ew_module_stack = ms,
      ew_top_frame = (case fs of [] \<Rightarrow> None | f # _ \<Rightarrow> Some (frame_label f))\<rparr>"

definition eval_opens :: "event list \<Rightarrow> u64 \<Rightarrow> eval_window \<Rightarrow> bool" where
  "eval_opens es c w \<longleftrightarrow>
     (\<exists>pre e mid n st ms fs. es = pre @ e # mid \<and> payload e = MlxEvalEntered c n st ms fs \<and>
        (\<forall>m \<in> set mid. \<not> eval_names (payload m) c) \<and> w = entry_window e ms fs)"

text \<open>
  \<open>eval_pair es w\<close>: a return in \<open>es\<close> closes the entry it names, with nothing about that call
  in between; the window is widened by the grace when the evaluation was asynchronous.
\<close>

definition eval_pair :: "event list \<Rightarrow> eval_window \<Rightarrow> bool" where
  "eval_pair es w \<longleftrightarrow>
     (\<exists>pre r post c d asy w0. es = pre @ r # post \<and> payload r = MlxEvalReturned c d asy \<and>
        eval_opens pre c w0 \<and>
        w = w0\<lparr>ew_t_out := (if asy then sat_add (ts_mono_ns r) ASYNC_GRACE_NS else ts_mono_ns r)\<rparr>)"

lemma eval_opens_snoc:
  "eval_opens (es @ [x]) c w \<longleftrightarrow>
     (\<exists>n st ms fs. payload x = MlxEvalEntered c n st ms fs \<and> w = entry_window x ms fs) \<or>
     \<not> eval_names (payload x) c \<and> eval_opens es c w" (is "?L \<longleftrightarrow> ?R")
proof
  assume ?L
  then obtain pre e mid n st ms fs where *: "es @ [x] = pre @ e # mid"
    "payload e = MlxEvalEntered c n st ms fs" "\<forall>m \<in> set mid. \<not> eval_names (payload m) c"
    "w = entry_window e ms fs" by (auto simp: eval_opens_def)
  show ?R
  proof (cases mid rule: rev_cases)
    case Nil
    with * show ?thesis by auto
  next
    case (snoc mid' y)
    with * have "es = pre @ e # mid'" and "y = x" by simp_all
    moreover from snoc * \<open>y = x\<close> have "\<forall>m \<in> set mid'. \<not> eval_names (payload m) c"
      and "\<not> eval_names (payload x) c" by auto
    ultimately have "eval_opens es c w" and "\<not> eval_names (payload x) c"
      using *(2,4) unfolding eval_opens_def by blast+
    then show ?thesis by blast
  qed
next
  assume ?R
  then show ?L
  proof
    assume "\<exists>n st ms fs. payload x = MlxEvalEntered c n st ms fs \<and> w = entry_window x ms fs"
    then show ?L unfolding eval_opens_def by (metis empty_iff empty_set)
  next
    assume "\<not> eval_names (payload x) c \<and> eval_opens es c w"
    then obtain pre e mid n st ms fs where *: "es = pre @ e # mid"
      "payload e = MlxEvalEntered c n st ms fs" "\<forall>m \<in> set mid. \<not> eval_names (payload m) c"
      "w = entry_window e ms fs" "\<not> eval_names (payload x) c" by (auto simp: eval_opens_def)
    then have "es @ [x] = pre @ e # (mid @ [x])" "\<forall>m \<in> set (mid @ [x]). \<not> eval_names (payload m) c"
      by auto
    with * show ?L unfolding eval_opens_def by blast
  qed
qed

lemma eval_pair_snoc:
  "eval_pair (es @ [x]) w \<longleftrightarrow> eval_pair es w \<or>
     (\<exists>c d asy w0. payload x = MlxEvalReturned c d asy \<and> eval_opens es c w0 \<and>
        w = w0\<lparr>ew_t_out := (if asy then sat_add (ts_mono_ns x) ASYNC_GRACE_NS else ts_mono_ns x)\<rparr>)"
  (is "?L \<longleftrightarrow> ?R")
proof
  assume ?L
  then obtain pre r post c d asy w0 where *: "es @ [x] = pre @ r # post"
    "payload r = MlxEvalReturned c d asy" "eval_opens pre c w0"
    "w = w0\<lparr>ew_t_out := (if asy then sat_add (ts_mono_ns r) ASYNC_GRACE_NS else ts_mono_ns r)\<rparr>"
    unfolding eval_pair_def by blast
  show ?R
  proof (cases post rule: rev_cases)
    case Nil
    with * show ?thesis by auto
  next
    case (snoc post' y)
    with *(1) have "es = pre @ r # post'" by simp
    with * show ?thesis unfolding eval_pair_def by blast
  qed
next
  assume ?R
  then show ?L
  proof
    assume "eval_pair es w"
    then show ?L unfolding eval_pair_def by (metis append.assoc append_Cons)
  next
    assume "\<exists>c d asy w0. payload x = MlxEvalReturned c d asy \<and> eval_opens es c w0 \<and>
      w = w0\<lparr>ew_t_out := (if asy then sat_add (ts_mono_ns x) ASYNC_GRACE_NS else ts_mono_ns x)\<rparr>"
    then show ?L unfolding eval_pair_def by blast
  qed
qed

text \<open>The scan keeps exactly the open entries and exactly the closed pairs.\<close>

definition eval_scan_inv :: "event list \<Rightarrow> eval_scan \<Rightarrow> bool" where
  "eval_scan_inv es s \<longleftrightarrow>
     (\<forall>c w. es_open s c = Some w \<longleftrightarrow> eval_opens es c w) \<and> (\<forall>w. w \<in> set (es_out s) \<longleftrightarrow> eval_pair es w)"

lemma eval_scan_inv_step:
  assumes "eval_scan_inv es s"
  shows "eval_scan_inv (es @ [e]) (eval_step s e)"
proof -
  consider (enter) c n st ms fs where "payload e = MlxEvalEntered c n st ms fs"
    | (return) c d asy where "payload e = MlxEvalReturned c d asy"
    | (other) "\<forall>c n st ms fs. payload e \<noteq> MlxEvalEntered c n st ms fs"
        "\<forall>c d asy. payload e \<noteq> MlxEvalReturned c d asy"
    by blast
  then show ?thesis
  proof cases
    case enter
    with assms show ?thesis
      by (auto simp: eval_scan_inv_def eval_step_def eval_opens_snoc eval_pair_snoc entry_window_def)
  next
    case return
    show ?thesis
    proof (cases "es_open s c")
      case None
      have "\<not> eval_opens es c w" for w
      proof
        assume "eval_opens es c w"
        with assms have "es_open s c = Some w" by (simp add: eval_scan_inv_def)
        with None show False by simp
      qed
      moreover from None return have "eval_step s e = s" by (simp add: eval_step_def)
      ultimately show ?thesis using return assms
        by (auto simp: eval_scan_inv_def eval_opens_snoc eval_pair_snoc)
    next
      case (Some w)
      then have "eval_opens es c w' \<longleftrightarrow> w' = w" for w'
        using assms unfolding eval_scan_inv_def by (metis option.inject)
      moreover from Some return have "eval_step s e =
          s\<lparr>es_open := (es_open s)(c := None),
            es_out := es_out s @ [w\<lparr>ew_t_out := (if asy then sat_add (ts_mono_ns e) ASYNC_GRACE_NS
                                              else ts_mono_ns e)\<rparr>]\<rparr>"
        by (simp add: eval_step_def)
      ultimately show ?thesis using return assms
        by (auto simp: eval_scan_inv_def eval_opens_snoc eval_pair_snoc)
    qed
  next
    case other
    then have "eval_step s e = s" and "\<not> eval_names (payload e) c" for c
      by (cases "payload e"; simp add: eval_step_def)+
    with other assms show ?thesis
      by (auto simp: eval_scan_inv_def eval_opens_snoc eval_pair_snoc)
  qed
qed

interpretation evs: stream_fold eval_step eval_scan_init eval_scan_inv
proof
  show "eval_scan_inv [] eval_scan_init"
    by (auto simp: eval_scan_inv_def eval_scan_init_def eval_opens_def eval_pair_def)
qed (rule eval_scan_inv_step)

lemma set_eval_windows: "set (eval_windows es) = {w. eval_pair es w}"
  using evs.holds_run [of es] by (auto simp: eval_windows_def eval_scan_inv_def)

lemma sorted_eval_windows: "sorted (map ew_t_in (eval_windows es))"
  by (simp add: eval_windows_def)

definition eval_covers :: "u64 \<Rightarrow> eval_window \<Rightarrow> bool" where
  "eval_covers ts w \<longleftrightarrow> ew_t_in w \<le> ts \<and> ts \<le> ew_t_out w"

lemma eval_at_None: "eval_at ws ts = None \<longleftrightarrow> (\<forall>w \<in> set ws. \<not> eval_covers ts w)"
  by (simp add: eval_at_def rposition_None eval_covers_def)

lemma eval_at_Some:
  assumes "eval_at ws ts = Some i" and "sorted (map ew_t_in ws)"
  shows "i < length ws" and "eval_covers ts (ws ! i)"
    and "\<And>w. w \<in> set ws \<Longrightarrow> eval_covers ts w \<Longrightarrow> ew_t_in w \<le> ew_t_in (ws ! i)"
proof -
  from rposition_Some [OF assms(1) [unfolded eval_at_def]]
  show i: "i < length ws" and "eval_covers ts (ws ! i)" by (simp_all add: eval_covers_def)
  fix w
  assume "w \<in> set ws" and w: "eval_covers ts w"
  then obtain j where j: "j < length ws" "w = ws ! j" by (auto simp: in_set_conv_nth)
  with rposition_Some [OF assms(1) [unfolded eval_at_def]] w have "\<not> i < j"
    by (auto simp: eval_covers_def)
  with assms(2) i j show "ew_t_in w \<le> ew_t_in (ws ! i)"
    by (auto simp: sorted_iff_nth_mono)
qed

section \<open>Properties\<close>

definition windows_example :: "event list" where
  "windows_example =
     [mk_event 10 1 (ModuleEntered 1 0 ''outer'' [] None 0 []),
      mk_event 20 2 (ModuleEntered 2 0 ''inner'' [] (Some 1) 1 []),
      mk_event 25 3 (ModuleReturned 99),
      mk_event 30 4 (ModuleReturned 1),
      mk_event 40 5 (ModuleReturned 2),
      mk_event 50 6 (ModuleEntered 3 0 ''late'' [] None 0 [])]"

text \<open>
  C4. The forward sweep answers every query like a search of all windows: for commit stamps in
  non-decreasing order it returns the last-entered scope window that covers the stamp, that is,
  the last whose entry is not after it and whose return is at most half a second before it, even
  when the windows do not nest.
\<close>

theorem scope_sweep_correct:
  assumes "sorted ts"
  shows "sweep_all (sweep_new (sws_windows (scope_windows es))) ts =
    map (scope_at (sws_windows (scope_windows es))) ts"
proof (rule sweep_all_from)
  show "sorted (map sw_t_in (sws_windows (scope_windows es)))"
    by (simp add: scope_windows_def Let_def)
  show "sweep_inv (sws_windows (scope_windows es)) 0 (sweep_new (sws_windows (scope_windows es)))"
    by (rule sweep_inv_new)
qed (use assms in auto)

theorem scope_sweep_correct_witness:
  "sorted [25 :: u64, 35, 45] \<and>
   sweep_all (sweep_new (sws_windows (scope_windows windows_example))) [25, 35, 45] =
     map (scope_at (sws_windows (scope_windows windows_example))) [25, 35, 45]"
  using scope_sweep_correct [of "[25, 35, 45]" windows_example] by simp

text \<open>
  When call ids are not reused, the scope windows are one per entry, closed by the first
  later return that names the call (by the last event of the session when there is none), and
  the malformed count is the returns naming a call never entered plus the calls never
  returned: an orphan or out-of-order return closes no other scope.
\<close>

theorem scope_windows_spec:
  assumes "distinct (entered_ids es)"
  shows "sws_windows (scope_windows es) = sort_key sw_t_in (scope_spec (last_event_ts es) es) \<and>
    sws_malformed_returns (scope_windows es) = of_nat (orphan_returns {} es + unreturned es)"
  using scope_run [OF scan_wf_init assms, of "last_event_ts es"]
    scope_run_counts [OF scan_wf_init assms, of "last_event_ts es"]
  by (simp add: scope_windows_def Let_def scope_scan_init_def)

theorem scope_windows_spec_witness:
  "distinct (entered_ids windows_example) \<and>
   sws_windows (scope_windows windows_example) =
     sort_key sw_t_in (scope_spec (last_event_ts windows_example) windows_example) \<and>
   sws_malformed_returns (scope_windows windows_example) = 2"
proof -
  have d: "distinct (entered_ids windows_example)" by (simp add: windows_example_def)
  have "orphan_returns {} windows_example + unreturned windows_example = 2"
    by (simp add: windows_example_def)
  with d scope_windows_spec [OF d] show ?thesis by simp
qed

text \<open>
  The evaluation windows are exactly the entry/return pairs of the stream, each closed by
  the next event about its call and widened by the grace when the evaluation was
  asynchronous, in order of entry; an evaluation that never returned gives no window.
\<close>

theorem eval_windows_exact:
  "set (eval_windows es) = {w. eval_pair es w} \<and> sorted (map ew_t_in (eval_windows es))"
  by (simp add: set_eval_windows sorted_eval_windows)

end
