(* ===== verification/Breakdown.thy ===== *)
theory Breakdown
  imports CommandBuffers OpKinds Windows
begin

text \<open>
  The module breakdown, \<open>crates/smeltr-analyzer/src/breakdown.rs\<close>: \<open>compute\<close> attributes the
  time of every completed command buffer to a module call and builds the call tree.  The
  mutable locals of \<open>compute\<close> are the record \<open>attribution\<close>, its numbered steps are the
  definitions \<open>attribute_cb\<close> (4), \<open>attribute_fallback\<close> (4.5), \<open>attribute_eval\<close> (5) and
  \<open>merge_fallback\<close> (5.5).
\<close>

section \<open>Data\<close>

definition UNSCOPED :: string where
  "UNSCOPED = ''<unscoped>''"

record op_attribution =
  oa_name :: string
  oa_gpu_ns :: u64
  oa_count :: u64
  oa_symbol :: "string option"
  oa_kind :: "string option"
  oa_apportioned_ns :: u64

record diagnostics =
  dg_unscoped_gpu_ns :: u64
  dg_unmatched_cb_count :: u64
  dg_malformed_returns :: u64
  dg_ops_cbs_without_samples :: u64
  dg_cbs_scope_attributed :: u64
  dg_cbs_op_time_clamped :: u64

datatype module_breakdown =
  ModuleBreakdown (mb_qualname: string) (mb_class_name: string) (mb_calls: u64)
    (mb_gpu_ns_self: u64) (mb_gpu_ns_subtree: u64) (mb_eval_count: u64) (mb_cb_count: u64)
    (mb_children: "module_breakdown list") (mb_ops: "op_attribution list")
    (mb_diagnostics: "diagnostics option") (mb_fields: fields)

datatype breakdown_error = EmptySession

record op_agg =
  ag_gpu_ns :: u64
  ag_count :: u64
  ag_apportioned_ns :: u64
  ag_symbol :: "string option"

definition agg_default :: op_agg where
  "agg_default = \<lparr>ag_gpu_ns = 0, ag_count = 0, ag_apportioned_ns = 0, ag_symbol = None\<rparr>"

definition agg_merge :: "op_agg \<Rightarrow> op_agg \<Rightarrow> op_agg" where
  "agg_merge a b =
     \<lparr>ag_gpu_ns = ag_gpu_ns a + ag_gpu_ns b, ag_count = ag_count a + ag_count b,
      ag_apportioned_ns = ag_apportioned_ns a + ag_apportioned_ns b,
      ag_symbol = (case ag_symbol a of None \<Rightarrow> ag_symbol b | Some s \<Rightarrow> Some s)\<rparr>"

definition agg_add :: "op_agg \<Rightarrow> op_sample \<Rightarrow> op_agg" where
  "agg_add a op =
     agg_merge a
       \<lparr>ag_gpu_ns = op_gpu_ns op, ag_count = ucast (op_count op),
        ag_apportioned_ns = (case op_apportioned_ns op of None \<Rightarrow> 0 | Some n \<Rightarrow> n),
        ag_symbol = op_symbol op\<rparr>"

definition into_attribution :: "op_agg \<Rightarrow> string \<Rightarrow> op_attribution" where
  "into_attribution a name =
     \<lparr>oa_name = name, oa_gpu_ns = ag_gpu_ns a, oa_count = ag_count a, oa_symbol = ag_symbol a,
      oa_kind = Option.bind (ag_symbol a) resolve_kind,
      oa_apportioned_ns = ag_apportioned_ns a\<rparr>"

definition op_key :: "op_sample \<Rightarrow> string" where
  "op_key op = (case op_symbol op of Some s \<Rightarrow> s | None \<Rightarrow> op_name op)"

type_synonym ops_buf = "(string \<times> op_agg) list"

definition add_ops :: "op_sample list \<Rightarrow> ops_buf \<Rightarrow> ops_buf" where
  "add_ops ops buf =
     foldl (\<lambda>b op. entry_mod (op_key op) agg_default (\<lambda>a. agg_add a op) b) buf ops"

definition merge_ops :: "ops_buf \<Rightarrow> ops_buf \<Rightarrow> ops_buf" where
  "merge_ops src dst =
     foldl (\<lambda>b (name, agg). entry_mod name agg_default (\<lambda>a. agg_merge a agg) b) dst src"

text \<open>Heaviest first, ties by name.\<close>

definition sort_ops :: "op_attribution list \<Rightarrow> op_attribution list" where
  "sort_ops ops = sort_key (\<lambda>r. (desc (oa_gpu_ns r), oa_name r)) ops"

definition ops_rows :: "ops_buf \<Rightarrow> op_attribution list" where
  "ops_rows buf = sort_ops (map (\<lambda>(name, agg). into_attribution agg name) buf)"

section \<open>Indexing the calls\<close>

record call_node =
  cn_qualname :: string
  cn_class_name :: string
  cn_parent :: "u64 option"
  cn_children :: "u64 list"
  cn_gpu_ns_self :: u64
  cn_eval_count :: u64
  cn_cb_count :: u64
  cn_ops_buf :: ops_buf
  cn_fields :: fields

type_synonym calls = "(u64 \<times> call_node) list"

definition new_node :: "string \<Rightarrow> string \<Rightarrow> u64 option \<Rightarrow> fields \<Rightarrow> call_node" where
  "new_node q cls parent flds =
     \<lparr>cn_qualname = q, cn_class_name = cls, cn_parent = parent, cn_children = [],
      cn_gpu_ns_self = 0, cn_eval_count = 0, cn_cb_count = 0, cn_ops_buf = [],
      cn_fields = flds\<rparr>"

definition index_step :: "calls \<Rightarrow> event \<Rightarrow> calls" where
  "index_step calls ev =
     (case payload ev of
        ModuleEntered c _ q cls parent _ flds \<Rightarrow>
          (let linked =
             (case parent of
                None \<Rightarrow> calls
              | Some p \<Rightarrow>
                  (case map_of calls p of
                     None \<Rightarrow> calls
                   | Some n \<Rightarrow>
                       AList.update p (n\<lparr>cn_children := cn_children n @ [c]\<rparr>) calls))
           in AList.update c (new_node q cls parent flds) linked)
      | _ \<Rightarrow> calls)"

definition index_calls :: "event list \<Rightarrow> calls" where
  "index_calls es = foldl index_step [] es"

section \<open>Attribution\<close>

record attribution =
  at_unscoped_gpu_ns :: u64
  at_unmatched_cb_count :: u64
  at_per_eval_gpu_ns :: "u64 list"
  at_per_eval_cb_count :: "u64 list"
  at_per_eval_ops :: "ops_buf list"
  at_unscoped_ops :: ops_buf
  at_ops_cbs_without_samples :: u64
  at_no_eval_window :: "(u64 \<times> u64 \<times> op_sample list option) list"
  at_fallback :: "(u64 \<times> u64 \<times> u64 \<times> ops_buf) list"
  at_cbs_scope_attributed :: u64
  at_sweep :: scope_sweep
  at_calls :: calls
  at_unscoped_eval_count :: u64
  at_unscoped_cb_count_from_evals :: u64

definition attribution_init :: "calls \<Rightarrow> scope_window list \<Rightarrow> nat \<Rightarrow> attribution" where
  "attribution_init calls windows n =
     \<lparr>at_unscoped_gpu_ns = 0, at_unmatched_cb_count = 0,
      at_per_eval_gpu_ns = replicate n 0, at_per_eval_cb_count = replicate n 0,
      at_per_eval_ops = replicate n [], at_unscoped_ops = [], at_ops_cbs_without_samples = 0,
      at_no_eval_window = [], at_fallback = [], at_cbs_scope_attributed = 0,
      at_sweep = sweep_new windows, at_calls = calls, at_unscoped_eval_count = 0,
      at_unscoped_cb_count_from_evals = 0\<rparr>"

text \<open>What a command buffer contributes: its op times, or its time in flight without capture.\<close>

definition cb_gpu_ns :: "bool \<Rightarrow> completed_cb \<Rightarrow> u64" where
  "cb_gpu_ns seen_any_cb_ops cb =
     (case cb_ops cb of
        Some ops \<Rightarrow> ops_sum ops
      | None \<Rightarrow> if seen_any_cb_ops then 0 else cb_in_flight_ns cb)"

definition opt_ops :: "op_sample list option \<Rightarrow> op_sample list" where
  "opt_ops ops = (case ops of None \<Rightarrow> [] | Some xs \<Rightarrow> xs)"

definition attribute_cb ::
  "eval_window list \<Rightarrow> bool \<Rightarrow> attribution \<Rightarrow> completed_cb \<Rightarrow> attribution" where
  "attribute_cb evals seen_any_cb_ops s cb =
     (let s1 = (if seen_any_cb_ops \<and> cb_ops cb = None
                then s\<lparr>at_ops_cbs_without_samples := at_ops_cbs_without_samples s + 1\<rparr> else s);
          ns = cb_gpu_ns seen_any_cb_ops cb
      in case eval_at evals (cb_commit_ts cb) of
           Some i \<Rightarrow>
             s1\<lparr>at_per_eval_gpu_ns :=
                  (at_per_eval_gpu_ns s)[i := at_per_eval_gpu_ns s ! i + ns],
                at_per_eval_cb_count :=
                  (at_per_eval_cb_count s)[i := at_per_eval_cb_count s ! i + 1],
                at_per_eval_ops :=
                  (at_per_eval_ops s)[i := add_ops (opt_ops (cb_ops cb)) (at_per_eval_ops s ! i)]\<rparr>
         | None \<Rightarrow>
             s1\<lparr>at_no_eval_window := at_no_eval_window s @ [(cb_commit_ts cb, ns, cb_ops cb)]\<rparr>)"

definition attribute_fallback ::
  "attribution \<Rightarrow> u64 \<times> u64 \<times> op_sample list option \<Rightarrow> attribution" where
  "attribute_fallback s entry =
     (case entry of (commit_ts, ns, ops_for_cb) \<Rightarrow>
        (case innermost_at (at_sweep s) commit_ts of
           (sweep, Some win) \<Rightarrow>
             s\<lparr>at_sweep := sweep,
               at_cbs_scope_attributed := at_cbs_scope_attributed s + 1,
               at_fallback :=
                 entry_mod (sw_call_id win) (0, 0, [])
                   (\<lambda>(gpu, cbs, ops). (gpu + ns, cbs + 1, add_ops (opt_ops ops_for_cb) ops))
                   (at_fallback s)\<rparr>
         | (sweep, None) \<Rightarrow>
             s\<lparr>at_sweep := sweep,
               at_unscoped_gpu_ns := at_unscoped_gpu_ns s + ns,
               at_unmatched_cb_count := at_unmatched_cb_count s + 1,
               at_unscoped_ops := add_ops (opt_ops ops_for_cb) (at_unscoped_ops s)\<rparr>))"

text \<open>The node an evaluation belongs to: the leaf of its module stack, if that call entered.\<close>

definition eval_leaf :: "calls \<Rightarrow> eval_window \<Rightarrow> (u64 \<times> call_node) option" where
  "eval_leaf calls w =
     (if ew_module_stack w = [] then None
      else map_option (Pair (last (ew_module_stack w))) (map_of calls (last (ew_module_stack w))))"

definition attribute_eval :: "attribution \<Rightarrow> nat \<times> eval_window \<Rightarrow> attribution" where
  "attribute_eval s ie =
     (case ie of (i, w) \<Rightarrow>
        (let gpu = at_per_eval_gpu_ns s ! i; cbs = at_per_eval_cb_count s ! i;
             ops = at_per_eval_ops s ! i;
             s1 = s\<lparr>at_per_eval_ops := (at_per_eval_ops s)[i := []]\<rparr>
         in case eval_leaf (at_calls s) w of
              Some (leaf, n) \<Rightarrow>
                s1\<lparr>at_calls :=
                  AList.update leaf
                    (n\<lparr>cn_gpu_ns_self := cn_gpu_ns_self n + gpu,
                       cn_eval_count := cn_eval_count n + 1,
                       cn_cb_count := cn_cb_count n + cbs,
                       cn_ops_buf := merge_ops ops (cn_ops_buf n)\<rparr>) (at_calls s)\<rparr>
            | None \<Rightarrow>
                s1\<lparr>at_unscoped_gpu_ns := at_unscoped_gpu_ns s + gpu,
                   at_unscoped_eval_count := at_unscoped_eval_count s + 1,
                   at_unscoped_cb_count_from_evals := at_unscoped_cb_count_from_evals s + cbs,
                   at_unscoped_ops := merge_ops ops (at_unscoped_ops s)\<rparr>))"

definition merge_fallback :: "attribution \<Rightarrow> u64 \<times> u64 \<times> u64 \<times> ops_buf \<Rightarrow> attribution" where
  "merge_fallback s slot =
     (case slot of (call_id, gpu, cbs, ops) \<Rightarrow>
        (case map_of (at_calls s) call_id of
           Some n \<Rightarrow>
             s\<lparr>at_calls :=
               AList.update call_id
                 (n\<lparr>cn_gpu_ns_self := cn_gpu_ns_self n + gpu,
                    cn_cb_count := cn_cb_count n + cbs,
                    cn_ops_buf := merge_ops ops (cn_ops_buf n)\<rparr>) (at_calls s)\<rparr>
         | None \<Rightarrow>
             s\<lparr>at_unscoped_gpu_ns := at_unscoped_gpu_ns s + gpu,
               at_unmatched_cb_count := at_unmatched_cb_count s + cbs\<rparr>))"

text \<open>Steps 1 to 5.5, in the order of the source; \<open>es\<close> are the clamped events.\<close>

definition attribute_cbs :: "event list \<Rightarrow> attribution" where
  "attribute_cbs es =
     (let evals = eval_windows es; cbs = completed_command_buffers es
      in foldl (attribute_cb evals (cc_seen_any_cb_ops cbs))
           (attribution_init (index_calls es) (sws_windows (scope_windows es)) (length evals))
           (cc_completed cbs))"

definition attribute_scopes :: "attribution \<Rightarrow> attribution" where
  "attribute_scopes s = foldl attribute_fallback s (sort_key fst (at_no_eval_window s))"

definition attribute_evals :: "eval_window list \<Rightarrow> attribution \<Rightarrow> attribution" where
  "attribute_evals evals s = foldl attribute_eval s (enumerate 0 evals)"

definition merge_fallbacks :: "attribution \<Rightarrow> attribution" where
  "merge_fallbacks s = foldl merge_fallback s (at_fallback s)"

definition attribute :: "event list \<Rightarrow> attribution" where
  "attribute es =
     merge_fallbacks (attribute_evals (eval_windows es) (attribute_scopes (attribute_cbs es)))"

section \<open>The tree\<close>

definition node_of :: "call_node \<Rightarrow> module_breakdown list \<Rightarrow> module_breakdown" where
  "node_of n children =
     ModuleBreakdown (cn_qualname n) (cn_class_name n) 1 (cn_gpu_ns_self n)
       (cn_gpu_ns_self n + sum_list (map mb_gpu_ns_subtree children))
       (cn_eval_count n) (cn_cb_count n) (sort_key (desc \<circ> mb_gpu_ns_subtree) children)
       (ops_rows (cn_ops_buf n)) None (cn_fields n)"

text \<open>
  \<open>build\<close> recurses over the \<open>children\<close> links.  The outer \<open>None\<close> is the exhausted fuel (the
  stack in the source), the inner one an id missing from \<open>calls\<close>.
\<close>

primrec build :: "nat \<Rightarrow> calls \<Rightarrow> u64 \<Rightarrow> module_breakdown option option" where
  "build 0 calls cid = None"
| "build (Suc k) calls cid =
     (case map_of calls cid of
        None \<Rightarrow> Some None
      | Some n \<Rightarrow>
          (case those (map (build k calls) (cn_children n)) of
             None \<Rightarrow> None
           | Some cs \<Rightarrow> Some (Some (node_of n (List.map_filter id cs)))))"

definition is_root :: "calls \<Rightarrow> call_node \<Rightarrow> bool" where
  "is_root calls n = (case cn_parent n of None \<Rightarrow> True | Some p \<Rightarrow> map_of calls p = None)"

definition root_ids :: "calls \<Rightarrow> u64 list" where
  "root_ids calls = sort (map fst (filter (\<lambda>(_, n). is_root calls n) calls))"

definition unscoped_node :: "attribution \<Rightarrow> module_breakdown" where
  "unscoped_node s =
     ModuleBreakdown UNSCOPED [] 0 (at_unscoped_gpu_ns s) (at_unscoped_gpu_ns s)
       (at_unscoped_eval_count s)
       (at_unmatched_cb_count s + at_unscoped_cb_count_from_evals s)
       [] (ops_rows (at_unscoped_ops s)) None []"

definition has_unscoped :: "attribution \<Rightarrow> bool" where
  "has_unscoped s \<longleftrightarrow>
     at_unscoped_gpu_ns s > 0 \<or> at_unscoped_eval_count s > 0 \<or> at_unmatched_cb_count s > 0"

definition root_of ::
  "attribution \<Rightarrow> u64 \<Rightarrow> u64 \<Rightarrow> module_breakdown list \<Rightarrow> module_breakdown" where
  "root_of s malformed clamped root_children =
     ModuleBreakdown ''<root>'' [] 0 0
       (sum_list (map mb_gpu_ns_subtree root_children) + at_unscoped_gpu_ns s) 0 0
       (sort_key (desc \<circ> mb_gpu_ns_subtree)
          (root_children @ (if has_unscoped s then [unscoped_node s] else [])))
       []
       (Some \<lparr>dg_unscoped_gpu_ns = at_unscoped_gpu_ns s,
              dg_unmatched_cb_count = at_unmatched_cb_count s,
              dg_malformed_returns = malformed,
              dg_ops_cbs_without_samples = at_ops_cbs_without_samples s,
              dg_cbs_scope_attributed = at_cbs_scope_attributed s,
              dg_cbs_op_time_clamped = clamped\<rparr>)
       []"

definition clamped_events :: "event list \<Rightarrow> event list" where
  "clamped_events es = apply_op_time_scales es (compute_op_time_scales es)"

text \<open>\<open>None\<close> would be the exhausted fuel; it never happens (\<open>compute_total\<close> below).\<close>

definition compute :: "event list \<Rightarrow> (breakdown_error + module_breakdown) option" where
  "compute events =
     (if events = [] then Some (Inl EmptySession)
      else
        (let es = clamped_events events;
             s = attribute es
         in case those (map (build (Suc (length es)) (at_calls s)) (root_ids (at_calls s))) of
              None \<Rightarrow> None
            | Some cs \<Rightarrow>
                Some (Inr (root_of s (sws_malformed_returns (scope_windows es))
                  (clamped_cb_count (compute_op_time_scales events))
                  (List.map_filter id cs)))))"

end
