(* ===== verification/BreakdownTree.thy ===== *)
theory BreakdownTree
  imports Breakdown
begin

text \<open>
  The call tree of the breakdown.  For every stream the \<open>children\<close> links go from a call to
  one whose last entry is later, so \<open>build\<close> ends; when ids are not reused and parents enter
  before their children, the tree holds every call once, and sums over the calls are sums
  over the tree.
\<close>

section \<open>The links\<close>

definition entry_of :: "event \<Rightarrow> u64 option" where
  "entry_of e = (case payload e of ModuleEntered c _ _ _ _ _ _ \<Rightarrow> Some c | _ \<Rightarrow> None)"

definition last_entry :: "event list \<Rightarrow> u64 \<Rightarrow> nat option" where
  "last_entry es c = rposition (\<lambda>e. entry_of e = Some c) es"

lemma last_entry_snoc:
  "last_entry (es @ [e]) c = (if entry_of e = Some c then Some (length es) else last_entry es c)"
  by (simp add: last_entry_def rposition_snoc)

lemma last_entry_less: "last_entry es c = Some i \<Longrightarrow> i < length es"
  by (auto simp: last_entry_def dest: rposition_Some)

lemma entered_ids_entry_of: "set (entered_ids es) = {c. \<exists>e \<in> set es. entry_of e = Some c}"
  by (induction es) (auto simp: entry_of_def split: payload.splits)

lemma index_calls_snoc: "index_calls (es @ [e]) = index_step (index_calls es) e"
  by (simp add: index_calls_def)

lemma index_step_other: "entry_of e = None \<Longrightarrow> index_step calls e = calls"
  by (cases "payload e") (simp_all add: entry_of_def index_step_def)

lemma index_step_entry:
  assumes "payload e = ModuleEntered c t q cls parent d flds"
  shows "map_of (index_step calls e) =
    (\<lambda>k. if k = c then Some (new_node q cls parent flds)
         else if parent = Some k
         then map_option (\<lambda>n. n\<lparr>cn_children := cn_children n @ [c]\<rparr>) (map_of calls k)
         else map_of calls k)"
    and "distinct (map fst calls) \<Longrightarrow> distinct (map fst (index_step calls e))"
  using assms
  by (auto simp: index_step_def Let_def update_conv' fun_eq_iff split: option.splits)

lemma distinct_index_calls: "distinct (map fst (index_calls es))"
proof (induction es rule: rev_induct)
  case Nil
  then show ?case by (simp add: index_calls_def)
next
  case (snoc e es)
  then show ?case
    by (cases "payload e")
      (simp_all add: index_calls_snoc index_step_entry(2) index_step_other entry_of_def)
qed

lemma dom_index_calls: "map_of (index_calls es) c \<noteq> None \<longleftrightarrow> last_entry es c \<noteq> None"
proof (induction es rule: rev_induct)
  case Nil
  then show ?case by (simp add: index_calls_def last_entry_def)
next
  case (snoc e es)
  show ?case
  proof (cases "entry_of e")
    case None
    with snoc show ?thesis by (simp add: index_calls_snoc index_step_other last_entry_snoc)
  next
    case (Some k)
    then obtain t q cls p d f where e: "payload e = ModuleEntered k t q cls p d f"
      by (auto simp: entry_of_def split: payload.splits)
    with Some snoc show ?thesis
      by (auto simp: index_calls_snoc index_step_entry(1) [OF e] last_entry_snoc)
  qed
qed

definition links_forward :: "event list \<Rightarrow> calls \<Rightarrow> bool" where
  "links_forward es calls \<longleftrightarrow>
     (\<forall>c n ch. map_of calls c = Some n \<longrightarrow> ch \<in> set (cn_children n) \<longrightarrow>
        (\<exists>i j. last_entry es c = Some i \<and> last_entry es ch = Some j \<and> i < j))"

lemma links_forwardD:
  assumes "links_forward es calls" and "map_of calls c = Some n" and "ch \<in> set (cn_children n)"
  obtains i j where "last_entry es c = Some i" and "last_entry es ch = Some j" and "i < j"
  using assms unfolding links_forward_def by blast

lemma links_forward_index: "links_forward es (index_calls es)"
proof (induction es rule: rev_induct)
  case Nil
  then show ?case by (simp add: links_forward_def index_calls_def)
next
  case (snoc e es)
  show ?case
  proof (cases "entry_of e")
    case None
    with snoc show ?thesis
      by (simp add: links_forward_def index_calls_snoc index_step_other last_entry_snoc)
  next
    case (Some k)
    then obtain t q cls p d f where e: "payload e = ModuleEntered k t q cls p d f"
      by (auto simp: entry_of_def split: payload.splits)
    show ?thesis
      unfolding links_forward_def
    proof (intro allI impI)
      fix c n ch
      assume n: "map_of (index_calls (es @ [e])) c = Some n" and ch: "ch \<in> set (cn_children n)"
      have ck: "c \<noteq> k" using n ch e
        by (auto simp: index_calls_snoc index_step_entry(1) [OF e] new_node_def)
      then obtain n0 where n0: "map_of (index_calls es) c = Some n0"
        and ch0: "ch \<in> set (cn_children n0) \<or> ch = k"
        using n ch by (auto simp: index_calls_snoc index_step_entry(1) [OF e] split: if_splits)
      obtain i where i: "last_entry es c = Some i"
        using n0 dom_index_calls [of es c] by auto
      show "\<exists>i j. last_entry (es @ [e]) c = Some i \<and> last_entry (es @ [e]) ch = Some j \<and> i < j"
      proof (cases "ch = k")
        case True
        with i ck Some last_entry_less [OF i] show ?thesis by (simp add: last_entry_snoc)
      next
        case False
        with ch0 have "ch \<in> set (cn_children n0)" by simp
        from links_forwardD [OF snoc n0 this] ck False Some show ?thesis
          by (metis last_entry_snoc option.inject)
      qed
    qed
  qed
qed

section \<open>Fuel\<close>

definition entry_rank :: "event list \<Rightarrow> u64 \<Rightarrow> nat" where
  "entry_rank es c = (case last_entry es c of Some i \<Rightarrow> i | None \<Rightarrow> 0)"

lemma those_None: "those xs = None \<longleftrightarrow> None \<in> set xs"
  by (induction xs) (auto split: option.splits)

lemma those_map_Some: "(\<And>x. x \<in> set xs \<Longrightarrow> f x = Some (g x)) \<Longrightarrow> those (map f xs) = Some (map g xs)"
  by (induction xs) simp_all

lemma build_enough:
  assumes "links_forward es calls" and "length es - entry_rank es c < k"
  shows "build k calls c \<noteq> None"
  using assms(2)
proof (induction k arbitrary: c)
  case 0
  then show ?case by simp
next
  case (Suc k)
  show ?case
  proof (cases "map_of calls c")
    case None
    then show ?thesis by simp
  next
    case (Some n)
    have "build k calls ch \<noteq> None" if "ch \<in> set (cn_children n)" for ch
    proof (rule Suc.IH)
      from links_forwardD [OF assms(1) Some that] obtain i j where
        "last_entry es c = Some i" "last_entry es ch = Some j" "i < j" .
      moreover from this(2) have "j < length es" by (rule last_entry_less)
      ultimately show "length es - entry_rank es ch < k"
        using Suc.prems by (simp add: entry_rank_def)
    qed
    then have "None \<notin> build k calls ` set (cn_children n)" by (metis imageE)
    then have "those (map (build k calls) (cn_children n)) \<noteq> None"
      by (simp add: those_None)
    with Some show ?thesis by auto
  qed
qed

lemma build_mono: "build k calls c = Some x \<Longrightarrow> build (Suc k) calls c = Some x"
proof (induction k arbitrary: c x)
  case 0
  then show ?case by simp
next
  case (Suc k)
  show ?case
  proof (cases "map_of calls c")
    case None
    with Suc.prems show ?thesis by simp
  next
    case (Some n)
    with Suc.prems obtain cs where cs: "those (map (build k calls) (cn_children n)) = Some cs"
      by (auto split: option.splits)
    then have "None \<notin> build k calls ` set (cn_children n)"
      using those_None [of "map (build k calls) (cn_children n)"] by auto
    then have "build (Suc k) calls ch = build k calls ch" if "ch \<in> set (cn_children n)" for ch
      using Suc.IH [of ch] that by (metis imageI option.exhaust)
    then have "map (build (Suc k) calls) (cn_children n) = map (build k calls) (cn_children n)"
      by (rule map_cong [OF refl])
    with Suc.prems Some show ?thesis by (simp only: build.simps(2) option.case)
  qed
qed

text \<open>The tree below a call, whatever fuel is enough.\<close>

definition tree_of :: "event list \<Rightarrow> calls \<Rightarrow> u64 \<Rightarrow> module_breakdown" where
  "tree_of es calls c = the (the (build (Suc (length es)) calls c))"

definition calls_closed :: "calls \<Rightarrow> bool" where
  "calls_closed calls \<longleftrightarrow>
     (\<forall>c n ch. map_of calls c = Some n \<longrightarrow> ch \<in> set (cn_children n) \<longrightarrow> map_of calls ch \<noteq> None)"

lemma build_tree_of:
  assumes "links_forward es calls" and "map_of calls c \<noteq> None"
  shows "build (Suc (length es)) calls c = Some (Some (tree_of es calls c))"
proof -
  have "build (Suc (length es)) calls c \<noteq> None"
    by (rule build_enough [OF assms(1)]) simp
  with assms(2) show ?thesis by (auto simp: tree_of_def split: option.splits)
qed

lemma tree_of_node:
  assumes "links_forward es calls" and "calls_closed calls" and "map_of calls c = Some n"
  shows "tree_of es calls c = node_of n (map (tree_of es calls) (cn_children n))"
proof -
  let ?L = "length es"
  have ch: "build ?L calls ch = Some (Some (tree_of es calls ch))"
    if "ch \<in> set (cn_children n)" for ch
  proof -
    from links_forwardD [OF assms(1,3) that] obtain i j where
      "last_entry es c = Some i" "last_entry es ch = Some j" "i < j" .
    moreover from this(2) have "j < ?L" by (rule last_entry_less)
    ultimately have "build ?L calls ch \<noteq> None"
      by (intro build_enough [OF assms(1)]) (simp add: entry_rank_def)
    then obtain x where x: "build ?L calls ch = Some x" by auto
    have "map_of calls ch \<noteq> None" using assms(2,3) that by (auto simp: calls_closed_def)
    from build_tree_of [OF assms(1) this] build_mono [OF x] x show ?thesis by simp
  qed
  have *: "List.map_filter id (map (Some \<circ> g) xs) = map g xs" for g :: "u64 \<Rightarrow> module_breakdown" and xs
    by (induction xs) (simp_all add: List.map_filter_simps)
  have "those (map (build ?L calls) (cn_children n)) =
      Some (map (Some \<circ> tree_of es calls) (cn_children n))"
    using ch by (intro those_map_Some) simp
  with assms(3) show ?thesis by (simp add: tree_of_def [of es calls c] *)
qed

section \<open>Sums over the tree\<close>

text \<open>The calls that are some call's child, each once.\<close>

definition links_exact :: "calls \<Rightarrow> bool" where
  "links_exact calls \<longleftrightarrow>
     mset (concat (map (cn_children \<circ> snd) calls)) =
       mset (map fst (filter (\<lambda>(_, n). \<not> is_root calls n) calls))"

lemma sum_list_mset_cong:
  fixes g :: "'b \<Rightarrow> 'a::comm_monoid_add"
  shows "mset xs = mset ys \<Longrightarrow> sum_list (map g xs) = sum_list (map g ys)"
  by (metis mset_map sum_mset_sum_list)

lemma sum_list_split:
  fixes g :: "'b \<Rightarrow> 'a::ab_group_add"
  shows "sum_list (map g xs) = sum_list (map g (filter P xs)) + sum_list (map g (filter (\<lambda>x. \<not> P x) xs))"
  by (induction xs) (simp_all add: add_ac)

lemma forest_sum:
  fixes S :: "u64 \<Rightarrow> 'a::ab_group_add"
  assumes "links_exact calls"
    and "\<And>c n. (c, n) \<in> set calls \<Longrightarrow> S c = f n + sum_list (map S (cn_children n))"
  shows "sum_list (map S (root_ids calls)) = alist_sum f calls"
proof -
  let ?r = "filter (\<lambda>(_, n). is_root calls n) calls"
  let ?nr = "filter (\<lambda>(_, n). \<not> is_root calls n) calls"
  have "sum_list (map (S \<circ> fst) calls) =
      sum_list (map (f \<circ> snd) calls) + sum_list (map (\<lambda>(c, n). sum_list (map S (cn_children n))) calls)"
  proof -
    have "S (fst p) = f (snd p) + sum_list (map S (cn_children (snd p)))" if "p \<in> set calls" for p
      using assms(2) [of "fst p" "snd p"] that by simp
    then have "map (S \<circ> fst) calls =
        map (\<lambda>p. f (snd p) + sum_list (map S (cn_children (snd p)))) calls"
      by (intro map_cong refl) (simp only: o_apply)
    then show ?thesis by (simp only: sum_list_addf comp_def case_prod_unfold)
  qed
  also have "sum_list (map (\<lambda>(c, n). sum_list (map S (cn_children n))) calls) =
      sum_list (map S (concat (map (cn_children \<circ> snd) calls)))"
    by (induction calls) auto
  also have "\<dots> = sum_list (map S (map fst ?nr))"
    by (rule sum_list_mset_cong [OF assms(1) [unfolded links_exact_def]])
  also have "sum_list (map (S \<circ> fst) calls) =
      sum_list (map S (map fst ?r)) + sum_list (map S (map fst ?nr))"
    using sum_list_split [of "S \<circ> fst" calls "\<lambda>(_, n). is_root calls n"]
    by (simp add: case_prod_unfold)
  finally have "sum_list (map S (map fst ?r)) = alist_sum f calls"
    unfolding alist_sum_def by (simp only: add_right_cancel)
  moreover have "sum_list (map S (root_ids calls)) = sum_list (map S (map fst ?r))"
    unfolding root_ids_def by (rule sum_list_mset_cong) simp
  ultimately show ?thesis by simp
qed

section \<open>Every call is linked once\<close>

lemma update_split:
  assumes "map_of al k = Some v"
  obtains xs ys where "al = xs @ (k, v) # ys" and "\<And>w. AList.update k w al = xs @ (k, w) # ys"
  using assms
proof (induction al arbitrary: thesis)
  case Nil
  then show ?case by simp
next
  case (Cons p al)
  obtain k' v' where p: "p = (k', v')" by (cases p)
  show ?case
  proof (cases "k' = k")
    case True
    with Cons.prems(2) p have "v' = v" by simp
    with True p show ?thesis by (intro Cons.prems(1) [of "[]" al]) simp_all
  next
    case False
    with Cons.prems(2) p have "map_of al k = Some v" by simp
    then obtain xs ys where "al = xs @ (k, v) # ys" "\<And>w. AList.update k w al = xs @ (k, w) # ys"
      using Cons.IH by blast
    with False p show ?thesis by (intro Cons.prems(1) [of "p # xs" ys]) simp_all
  qed
qed

lemma update_new: "map_of al k = None \<Longrightarrow> AList.update k v al = al @ [(k, v)]"
  by (induction al) (auto split: if_splits)

text \<open>
  \<open>parents_first\<close>: a parent id that is entered at all is entered before the call that names it.
\<close>

definition parent_of :: "event \<Rightarrow> u64 option" where
  "parent_of e = (case payload e of ModuleEntered _ _ _ _ p _ _ \<Rightarrow> p | _ \<Rightarrow> None)"

definition parents_first :: "event list \<Rightarrow> bool" where
  "parents_first es \<longleftrightarrow>
     list_all (\<lambda>i. case parent_of (es ! i) of
         None \<Rightarrow> True
       | Some p \<Rightarrow> p \<in> set (entered_ids es) \<longrightarrow> p \<in> set (entered_ids (take i es)))
       [0..<length es]"

lemma parents_firstD:
  assumes "parents_first es" and "i < length es" and "parent_of (es ! i) = Some p"
    and "p \<in> set (entered_ids es)"
  shows "p \<in> set (entered_ids (take i es))"
  using assms by (auto simp: parents_first_def list_all_iff split: option.splits)

lemma parents_first_prefix:
  assumes "parents_first (es @ [e])"
  shows "parents_first es"
  unfolding parents_first_def list_all_iff
proof (intro ballI, clarsimp split: option.split)
  fix i p
  assume i: "i < length es" and p: "parent_of (es ! i) = Some p" and "p \<in> set (entered_ids es)"
  then have "p \<in> set (entered_ids (es @ [e]))" by simp
  with parents_firstD [OF assms, of i p] i p show "p \<in> set (entered_ids (take i es))"
    by (simp add: nth_append)
qed

lemma node_entry:
  assumes "map_of (index_calls es) c = Some n"
  shows "\<exists>i < length es. entry_of (es ! i) = Some c \<and> parent_of (es ! i) = cn_parent n"
  using assms
proof (induction es arbitrary: n rule: rev_induct)
  case Nil
  then show ?case by (simp add: index_calls_def)
next
  case (snoc e es)
  have old: "\<exists>i < length (es @ [e]). entry_of ((es @ [e]) ! i) = Some c \<and>
      parent_of ((es @ [e]) ! i) = cn_parent m" if "map_of (index_calls es) c = Some m" for m
  proof -
    from snoc.IH [OF that] obtain i where "i < length es" "entry_of (es ! i) = Some c"
      "parent_of (es ! i) = cn_parent m" by blast
    then show ?thesis by (intro exI [of _ i]) (simp add: nth_append)
  qed
  show ?case
  proof (cases "entry_of e")
    case None
    with snoc.prems old show ?thesis by (simp add: index_calls_snoc index_step_other)
  next
    case (Some k)
    then obtain t q cls p d f where e: "payload e = ModuleEntered k t q cls p d f"
      by (auto simp: entry_of_def split: payload.splits)
    show ?thesis
    proof (cases "c = k")
      case True
      with snoc.prems have "cn_parent n = p"
        by (auto simp: index_calls_snoc index_step_entry(1) [OF e] new_node_def)
      with True Some e show ?thesis
        by (intro exI [of _ "length es"]) (simp add: parent_of_def)
    next
      case False
      with snoc.prems obtain m where "map_of (index_calls es) c = Some m"
        "cn_parent n = cn_parent m"
        by (auto simp: index_calls_snoc index_step_entry(1) [OF e] split: if_splits)
      with old [of m] show ?thesis by simp
    qed
  qed
qed

lemma entered_calls: "c \<in> set (entered_ids es) \<longleftrightarrow> map_of (index_calls es) c \<noteq> None"
proof -
  have "last_entry es c \<noteq> None \<longleftrightarrow> c \<in> set (entered_ids es)"
    by (auto simp: last_entry_def rposition_None entered_ids_entry_of)
  then show ?thesis by (simp add: dom_index_calls del: not_None_eq)
qed

definition nonroots :: "(u64 \<Rightarrow> bool) \<Rightarrow> calls \<Rightarrow> u64 list" where
  "nonroots present calls =
     map fst (filter (\<lambda>(_, n). case cn_parent n of None \<Rightarrow> False | Some p \<Rightarrow> present p) calls)"

lemma links_exact_alt:
  "links_exact calls \<longleftrightarrow>
     mset (concat (map (cn_children \<circ> snd) calls)) =
       mset (nonroots (\<lambda>p. map_of calls p \<noteq> None) calls)"
proof -
  have "(\<lambda>(u :: u64, n). \<not> is_root calls n) =
      (\<lambda>(_, n). case cn_parent n of None \<Rightarrow> False | Some p \<Rightarrow> map_of calls p \<noteq> None)"
    by (auto simp: is_root_def fun_eq_iff split: option.splits)
  then show ?thesis by (simp only: links_exact_def nonroots_def)
qed

lemma links_exact_index:
  assumes "distinct (entered_ids es)" and "parents_first es"
  shows "links_exact (index_calls es)"
  using assms
proof (induction es rule: rev_induct)
  case Nil
  then show ?case by (simp add: index_calls_def links_exact_def)
next
  case (snoc e es)
  let ?C = "index_calls es"
  from snoc.prems(2) have pf: "parents_first es" by (rule parents_first_prefix)
  from snoc.prems(1) have "distinct (entered_ids es)" by simp
  from snoc.IH [OF this pf] have IH: "links_exact ?C" .
  show ?case
  proof (cases "entry_of e")
    case None
    with IH show ?thesis by (simp add: index_calls_snoc index_step_other)
  next
    case (Some c)
    then obtain t q cls parent d f where e: "payload e = ModuleEntered c t q cls parent d f"
      by (auto simp: entry_of_def split: payload.splits)
    with snoc.prems(1) have fresh: "map_of ?C c = None"
      using entered_calls [of c es] by auto
    let ?C' = "index_calls (es @ [e])"
    let ?pres = "\<lambda>p. map_of ?C p \<noteq> None"
    let ?pres' = "\<lambda>p. map_of ?C' p \<noteq> None"
    have pres': "?pres' p \<longleftrightarrow> ?pres p \<or> p = c" for p
      using entered_calls [of p "es @ [e]"] entered_calls [of p es] e by auto
    have old: "(case cn_parent n of None \<Rightarrow> False | Some p \<Rightarrow> ?pres' p) =
        (case cn_parent n of None \<Rightarrow> False | Some p \<Rightarrow> ?pres p)" if "(k, n) \<in> set ?C" for k n
    proof -
      have "cn_parent n \<noteq> Some c"
      proof
        assume "cn_parent n = Some c"
        moreover have "map_of ?C k = Some n"
          using that distinct_index_calls by simp
        ultimately obtain i where i: "i < length es" "parent_of (es ! i) = Some c"
          using node_entry [of es k n] by auto
        then have "c \<in> set (entered_ids (take i (es @ [e])))"
          using snoc.prems(2) e by (intro parents_firstD) (simp_all add: nth_append)
        then have "c \<in> set (entered_ids es)"
          using i by (auto simp: entered_ids_entry_of dest: in_set_takeD)
        with fresh entered_calls [of c es] show False by simp
      qed
      then show ?thesis using pres' by (auto split: option.splits)
    qed
    have new: "(case parent of None \<Rightarrow> False | Some p \<Rightarrow> ?pres' p) =
        (case parent of None \<Rightarrow> False | Some p \<Rightarrow> ?pres p)"
    proof (cases "parent = Some c")
      case True
      then have "c \<in> set (entered_ids (take (length es) (es @ [e])))"
        using snoc.prems(2) e by (intro parents_firstD) (simp_all add: parent_of_def)
      with fresh entered_calls [of c es] show ?thesis by simp
    next
      case False
      then show ?thesis using pres' by (auto split: option.splits)
    qed
    have nr: "nonroots ?pres' (xs @ (p, n\<lparr>cn_children := cn_children n @ [c]\<rparr>) # ys) =
        nonroots ?pres' (xs @ (p, n) # ys)" for xs ys p n
      by (simp add: nonroots_def)
    have nr_old: "nonroots ?pres' ?C = nonroots ?pres ?C"
      unfolding nonroots_def using old by (intro arg_cong [where f = "map fst"] filter_cong) auto
    have mset_IH: "mset (concat (map (cn_children \<circ> snd) ?C)) = mset (nonroots ?pres ?C)"
      using IH by (simp only: links_exact_alt)
    have nr_app: "nonroots P (xs @ [(c, new_node q cls parent f)]) =
        nonroots P xs @ (if (case parent of None \<Rightarrow> False | Some p \<Rightarrow> P p) then [c] else [])" for P xs
      by (simp add: nonroots_def new_node_def)
    show ?thesis
    proof (cases "\<exists>p n. parent = Some p \<and> map_of ?C p = Some n")
      case False
      then have "?C' = ?C @ [(c, new_node q cls parent f)]"
        using e fresh by (auto simp: index_calls_snoc index_step_def update_new split: option.splits)
      moreover have "\<not> (case parent of None \<Rightarrow> False | Some p \<Rightarrow> ?pres p)"
        using False by (auto split: option.splits)
      ultimately show ?thesis
        unfolding links_exact_alt using mset_IH new nr_old nr_app [of ?pres' ?C]
        by (simp add: new_node_def)
    next
      case True
      then obtain p n where p: "parent = Some p" "map_of ?C p = Some n" by blast
      from p(2) obtain xs ys where C: "?C = xs @ (p, n) # ys"
        and upd: "\<And>w. AList.update p w ?C = xs @ (p, w) # ys"
        by (rule update_split) (rule that, assumption+)
      let ?L = "xs @ (p, n\<lparr>cn_children := cn_children n @ [c]\<rparr>) # ys"
      have "map_of ?L c = None" using fresh C by (auto split: if_splits)
      then have C': "?C' = ?L @ [(c, new_node q cls parent f)]"
        using e p upd by (simp add: index_calls_snoc index_step_def update_new del: append_assoc)
      have "mset (concat (map (cn_children \<circ> snd) ?C')) =
          add_mset c (mset (concat (map (cn_children \<circ> snd) ?C)))"
        unfolding C' by (simp add: C new_node_def)
      moreover have "mset (nonroots ?pres' ?C') = add_mset c (mset (nonroots ?pres ?C))"
      proof -
        have "nonroots ?pres' ?C' = nonroots ?pres' ?L @ [c]"
          using nr_app [of ?pres' ?L] new p by (simp add: C')
        also have "nonroots ?pres' ?L = nonroots ?pres ?C"
          using nr nr_old by (simp add: C)
        finally show ?thesis by simp
      qed
      ultimately show ?thesis
        unfolding links_exact_alt using mset_IH by simp
    qed
  qed
qed

end
