(* ===== verification/BreakdownFacts.thy ===== *)
theory BreakdownFacts
  imports BreakdownTree
begin

text \<open>
  What the breakdown conserves: every nanosecond of the completed command buffers ends up in
  exactly one node of the tree, and with op capture on a node's op rows add up to its own
  time.
\<close>

section \<open>Op buckets\<close>

definition ops_total :: "ops_buf \<Rightarrow> u64" where
  "ops_total buf = alist_sum ag_gpu_ns buf"

definition buf_ok :: "ops_buf \<Rightarrow> bool" where
  "buf_ok buf \<longleftrightarrow> distinct (map fst buf)"

lemma ops_total_Nil [simp]: "ops_total [] = 0" "buf_ok []"
  by (simp_all add: ops_total_def buf_ok_def)

lemma add_ops_snoc [simp]:
  "add_ops [] buf = buf"
  "add_ops (op # ops) buf =
     add_ops ops (entry_mod (op_key op) agg_default (\<lambda>a. agg_add a op) buf)"
  by (simp_all add: add_ops_def)

lemma merge_ops_simps [simp]:
  "merge_ops [] buf = buf"
  "merge_ops ((k, a) # src) buf =
     merge_ops src (entry_mod k agg_default (\<lambda>b. agg_merge b a) buf)"
  by (simp_all add: merge_ops_def)

lemma buf_ok_add_ops [simp]: "buf_ok buf \<Longrightarrow> buf_ok (add_ops ops buf)"
  by (induction ops arbitrary: buf) (simp_all add: buf_ok_def)

lemma buf_ok_merge_ops [simp]: "buf_ok buf \<Longrightarrow> buf_ok (merge_ops src buf)"
  by (induction src arbitrary: buf) (auto simp: buf_ok_def)

lemma ops_total_entry_mod:
  assumes "buf_ok buf" and "\<And>a. ag_gpu_ns (f a) = ag_gpu_ns a + c"
  shows "ops_total (entry_mod k agg_default f buf) = ops_total buf + c"
  using alist_sum_entry_mod [of buf ag_gpu_ns f c agg_default k] assms
  by (simp add: ops_total_def buf_ok_def agg_default_def)

lemma ops_total_add_ops [simp]:
  "buf_ok buf \<Longrightarrow> ops_total (add_ops ops buf) = ops_total buf + ops_sum ops"
proof (induction ops arbitrary: buf)
  case Nil
  then show ?case by (simp add: ops_sum_def)
next
  case (Cons op ops)
  let ?b = "entry_mod (op_key op) agg_default (\<lambda>a. agg_add a op) buf"
  have "buf_ok ?b" using Cons.prems by (simp add: buf_ok_def)
  moreover have "ops_total ?b = ops_total buf + op_gpu_ns op"
    by (rule ops_total_entry_mod [OF Cons.prems]) (simp add: agg_add_def agg_merge_def)
  ultimately show ?case using Cons.IH by (simp add: ops_sum_def add.assoc)
qed

lemma ops_total_merge_ops [simp]:
  "buf_ok buf \<Longrightarrow> ops_total (merge_ops src buf) = ops_total buf + ops_total src"
proof (induction src arbitrary: buf)
  case Nil
  then show ?case by simp
next
  case (Cons p src)
  obtain k a where p: "p = (k, a)" by (cases p)
  let ?b = "entry_mod k agg_default (\<lambda>b. agg_merge b a) buf"
  have "buf_ok ?b" using Cons.prems by (simp add: buf_ok_def)
  moreover have "ops_total ?b = ops_total buf + ag_gpu_ns a"
    by (rule ops_total_entry_mod [OF Cons.prems]) (simp add: agg_merge_def)
  ultimately show ?case using Cons.IH p by (simp add: ops_total_def add.assoc)
qed

section \<open>The links survive the attribution\<close>

definition skeleton :: "calls \<Rightarrow> (u64 \<times> u64 option \<times> u64 list) list" where
  "skeleton calls = map (\<lambda>(c, n). (c, cn_parent n, cn_children n)) calls"

lemma map_of_skeleton:
  "map_of (skeleton calls) c = map_option (\<lambda>n. (cn_parent n, cn_children n)) (map_of calls c)"
  unfolding skeleton_def by (induction calls) auto

lemma skeleton_update:
  assumes "map_of calls c = Some n" and "cn_parent n' = cn_parent n"
    and "cn_children n' = cn_children n"
  shows "skeleton (AList.update c n' calls) = skeleton calls"
proof -
  from assms(1) obtain xs ys where "calls = xs @ (c, n) # ys"
    "\<And>w. AList.update c w calls = xs @ (c, w) # ys"
    by (rule update_split) (rule that, assumption+)
  with assms(2,3) show ?thesis by (simp add: skeleton_def)
qed

lemma keys_skeleton: "map fst (skeleton calls) = map fst calls"
  by (simp add: skeleton_def comp_def case_prod_unfold)

lemma skeleton_keys: "skeleton a = skeleton b \<Longrightarrow> map fst a = map fst b"
  using keys_skeleton [of a] keys_skeleton [of b] by simp

lemma skeleton_dom: "skeleton a = skeleton b \<Longrightarrow> map_of a c = None \<longleftrightarrow> map_of b c = None"
  using map_of_skeleton [of a c] map_of_skeleton [of b c]
  by (cases "map_of a c"; cases "map_of b c") simp_all

lemma links_exact_skeleton:
  assumes "skeleton a = skeleton b" and "links_exact b"
  shows "links_exact a"
proof -
  have ch: "map (cn_children \<circ> snd) x = map (snd \<circ> snd) (skeleton x)" for x
    by (simp add: skeleton_def comp_def case_prod_unfold)
  have nr: "nonroots P x =
      map fst (filter (\<lambda>y. case fst (snd y) of None \<Rightarrow> False | Some p \<Rightarrow> P p) (skeleton x))" for P x
    by (simp add: nonroots_def skeleton_def filter_map comp_def case_prod_unfold)
  have "(\<lambda>p. map_of a p \<noteq> None) = (\<lambda>p. map_of b p \<noteq> None)"
    by (rule ext) (simp only: skeleton_dom [OF assms(1)])
  with assms show ?thesis unfolding links_exact_alt ch nr by (simp only:)
qed

lemma links_forward_skeleton:
  assumes "skeleton a = skeleton b" and "links_forward es b"
  shows "links_forward es a"
  unfolding links_forward_def
proof (intro allI impI)
  fix c n ch
  assume "map_of a c = Some n" and ch: "ch \<in> set (cn_children n)"
  then have "map_of (skeleton b) c = Some (cn_parent n, cn_children n)"
    using assms(1) map_of_skeleton [of a c] by simp
  then obtain m where "map_of b c = Some m" "cn_children m = cn_children n"
    by (auto simp: map_of_skeleton)
  with assms(2) ch show "\<exists>i j. last_entry es c = Some i \<and> last_entry es ch = Some j \<and> i < j"
    unfolding links_forward_def by metis
qed

lemma calls_closed_links:
  assumes "links_forward es calls" and "skeleton calls = skeleton (index_calls es)"
  shows "calls_closed calls"
  unfolding calls_closed_def
proof (intro allI impI)
  fix c n ch
  assume "map_of calls c = Some n" and "ch \<in> set (cn_children n)"
  with assms(1) have "last_entry es ch \<noteq> None" by (auto elim: links_forwardD)
  then show "map_of calls ch \<noteq> None"
    using dom_index_calls [of es ch] skeleton_dom [OF assms(2), of ch] by simp
qed

section \<open>The meters\<close>

definition no_eval_sum :: "attribution \<Rightarrow> u64" where
  "no_eval_sum s = sum_list (map (fst \<circ> snd) (at_no_eval_window s))"

definition sized :: "nat \<Rightarrow> attribution \<Rightarrow> bool" where
  "sized n s \<longleftrightarrow>
     length (at_per_eval_gpu_ns s) = n \<and> length (at_per_eval_cb_count s) = n \<and>
     length (at_per_eval_ops s) = n"

lemma eval_at_less: "eval_at ws ts = Some i \<Longrightarrow> i < length ws"
  by (auto simp: eval_at_def dest: rposition_Some)

interpretation cb_meter: metered_fold
  "attribute_cb evals seen" "sized (length evals)" "\<lambda>_. True"
  "\<lambda>s. sum_list (at_per_eval_gpu_ns s) + no_eval_sum s" "cb_gpu_ns seen" for evals seen
  by unfold_locales
    (auto simp: attribute_cb_def sized_def no_eval_sum_def Let_def sum_list_list_update
      dest: eval_at_less split: option.splits)

definition fallback_sum :: "attribution \<Rightarrow> u64" where
  "fallback_sum s = alist_sum fst (at_fallback s)"

interpretation fallback_meter: metered_fold
  attribute_fallback "\<lambda>s. distinct (map fst (at_fallback s))" "\<lambda>_. True"
  "\<lambda>s. at_unscoped_gpu_ns s + fallback_sum s" "\<lambda>e. fst (snd e)"
  by unfold_locales
    (auto simp: attribute_fallback_def fallback_sum_def conserve split: prod.splits option.splits)

definition self_sum :: "calls \<Rightarrow> u64" where
  "self_sum calls = alist_sum cn_gpu_ns_self calls"

lemma self_sum_update:
  assumes "map_of calls c = Some n" and "cn_gpu_ns_self n' = cn_gpu_ns_self n + g"
  shows "self_sum (AList.update c n' calls) = self_sum calls + g"
proof -
  from assms(1) obtain xs ys where "calls = xs @ (c, n) # ys"
    "\<And>w. AList.update c w calls = xs @ (c, w) # ys"
    by (rule update_split) (rule that, assumption+)
  with assms(2) show ?thesis by (simp add: self_sum_def)
qed

lemma eval_leaf_Some: "eval_leaf calls w = Some (c, n) \<Longrightarrow> map_of calls c = Some n"
  by (auto simp: eval_leaf_def split: if_splits)

interpretation eval_meter: metered_fold
  attribute_eval "\<lambda>s. at_per_eval_gpu_ns s = gpu" "\<lambda>_. True"
  "\<lambda>s. at_unscoped_gpu_ns s + self_sum (at_calls s)" "\<lambda>(i, w). gpu ! i" for gpu
  by unfold_locales
    (auto simp: attribute_eval_def Let_def add_ac split: prod.splits option.splits
      dest!: eval_leaf_Some intro: self_sum_update [THEN trans])

interpretation merge_meter: metered_fold
  merge_fallback "\<lambda>_. True" "\<lambda>_. True"
  "\<lambda>s. at_unscoped_gpu_ns s + self_sum (at_calls s)" "\<lambda>(c, gpu, _). gpu"
  by unfold_locales
    (auto simp: merge_fallback_def add_ac split: prod.splits option.splits
      intro: self_sum_update [THEN trans])

section \<open>What each step leaves alone\<close>

lemma attribute_cb_frame [simp]:
  "at_unscoped_gpu_ns (attribute_cb evals seen s cb) = at_unscoped_gpu_ns s"
  "at_unscoped_ops (attribute_cb evals seen s cb) = at_unscoped_ops s"
  "at_fallback (attribute_cb evals seen s cb) = at_fallback s"
  "at_calls (attribute_cb evals seen s cb) = at_calls s"
  "at_sweep (attribute_cb evals seen s cb) = at_sweep s"
  by (simp_all add: attribute_cb_def Let_def split: option.split)

lemma attribute_fallback_frame [simp]:
  "at_per_eval_gpu_ns (attribute_fallback s e) = at_per_eval_gpu_ns s"
  "at_per_eval_ops (attribute_fallback s e) = at_per_eval_ops s"
  "at_calls (attribute_fallback s e) = at_calls s"
  by (simp_all add: attribute_fallback_def split: prod.split option.split)

lemma attribute_eval_frame [simp]:
  "at_per_eval_gpu_ns (attribute_eval s ie) = at_per_eval_gpu_ns s"
  "at_fallback (attribute_eval s ie) = at_fallback s"
  "skeleton (at_calls (attribute_eval s ie)) = skeleton (at_calls s)"
  by (auto simp: attribute_eval_def Let_def split: prod.split option.split
      intro!: skeleton_update dest!: eval_leaf_Some)

lemma merge_fallback_frame [simp]:
  "skeleton (at_calls (merge_fallback s slot)) = skeleton (at_calls s)"
  by (auto simp: merge_fallback_def split: prod.split option.split intro!: skeleton_update)

lemma fold_frame:
  assumes "\<And>s x. g (f s x) = g s"
  shows "g (foldl f s xs) = g s"
  by (induction xs arbitrary: s) (simp_all add: assms)

lemmas frames =
  fold_frame [where f = "attribute_cb evals seen" and g = at_unscoped_gpu_ns for evals seen]
  fold_frame [where f = "attribute_cb evals seen" and g = at_unscoped_ops for evals seen]
  fold_frame [where f = "attribute_cb evals seen" and g = at_fallback for evals seen]
  fold_frame [where f = "attribute_cb evals seen" and g = at_calls for evals seen]
  fold_frame [where f = "attribute_cb evals seen" and g = at_sweep for evals seen]
  fold_frame [where f = attribute_fallback and g = at_per_eval_gpu_ns]
  fold_frame [where f = attribute_fallback and g = at_per_eval_ops]
  fold_frame [where f = attribute_fallback and g = at_calls]
  fold_frame [where f = attribute_eval and g = at_per_eval_gpu_ns]
  fold_frame [where f = attribute_eval and g = at_fallback]
  fold_frame [where f = attribute_eval and g = "\<lambda>s. skeleton (at_calls s)"]
  fold_frame [where f = merge_fallback and g = "\<lambda>s. skeleton (at_calls s)"]

section \<open>Conservation\<close>

definition session_gpu_ns :: "event list \<Rightarrow> u64" where
  "session_gpu_ns es =
     (let cbs = completed_command_buffers es
      in sum_list (map (cb_gpu_ns (cc_seen_any_cb_ops cbs)) (cc_completed cbs)))"

lemma index_calls_node:
  "(c, n) \<in> set (index_calls es) \<Longrightarrow> cn_gpu_ns_self n = 0 \<and> cn_ops_buf n = []"
proof (induction es arbitrary: c n rule: rev_induct)
  case Nil
  then show ?case by (simp add: index_calls_def)
next
  case (snoc e es)
  have upd: "x \<in> set (AList.update k v al) \<Longrightarrow> x = (k, v) \<or> x \<in> set al"
    for x k and v :: call_node and al
    by (induction al) (auto split: if_splits)
  from snoc show ?case
    by (cases "payload e")
      (auto simp: index_calls_snoc index_step_def Let_def new_node_def dest!: upd
        split: option.splits dest: map_of_SomeD)
qed

lemma self_sum_index: "self_sum (index_calls es) = 0"
proof -
  have "map (cn_gpu_ns_self \<circ> snd) (index_calls es) = map (\<lambda>_. 0) (index_calls es)"
    using index_calls_node by (auto intro!: map_cong)
  then show ?thesis
    by (simp only: self_sum_def alist_sum_def sum_list_triv mult_zero_right)
qed

lemma sum_enumerate_nth:
  "length gpu = length evals \<Longrightarrow>
     sum_list (map (\<lambda>(i, w). gpu ! i) (enumerate 0 evals)) = sum_list (gpu :: u64 list)"
proof -
  assume "length gpu = length evals"
  then have "map (\<lambda>(i, w). gpu ! i) (enumerate 0 evals) = gpu"
    by (intro nth_equalityI) (simp_all add: nth_enumerate_eq)
  then show ?thesis by simp
qed

lemma attribute_conserves:
  "at_unscoped_gpu_ns (attribute es) + self_sum (at_calls (attribute es)) = session_gpu_ns es"
proof -
  let ?evals = "eval_windows es" and ?cbs = "completed_command_buffers es"
  let ?s0 = "attribution_init (index_calls es) (sws_windows (scope_windows es)) (length ?evals)"
  let ?s1 = "attribute_cbs es"
  let ?s2 = "attribute_scopes ?s1"
  let ?s3 = "attribute_evals ?evals ?s2"
  have s0: "sized (length ?evals) ?s0" by (simp add: sized_def attribution_init_def)
  have s1: "?s1 = foldl (attribute_cb ?evals (cc_seen_any_cb_ops ?cbs)) ?s0 (cc_completed ?cbs)"
    by (simp add: attribute_cbs_def Let_def)
  have size1: "sized (length ?evals) ?s1"
    unfolding s1 by (rule cb_meter.inv_run [OF s0]) (simp add: list_all_iff)
  have "sum_list (at_per_eval_gpu_ns ?s0) + no_eval_sum ?s0 = 0"
    by (simp add: attribution_init_def no_eval_sum_def sum_list_replicate)
  then have e1: "sum_list (at_per_eval_gpu_ns ?s1) + no_eval_sum ?s1 = session_gpu_ns es"
    using cb_meter.meter_run [OF s0, of "cc_completed ?cbs" "cc_seen_any_cb_ops ?cbs"]
    by (simp add: s1 session_gpu_ns_def Let_def list_all_iff)
  have f1: "at_unscoped_gpu_ns ?s1 = 0" "at_fallback ?s1 = []" "at_calls ?s1 = index_calls es"
    by (simp_all add: s1 frames attribution_init_def)
  have e2: "at_unscoped_gpu_ns ?s2 + fallback_sum ?s2 = no_eval_sum ?s1"
    using fallback_meter.meter_run [of ?s1 "sort_key fst (at_no_eval_window ?s1)"] f1
    by (simp add: attribute_scopes_def fallback_sum_def no_eval_sum_def list_all_iff comp_def)
  have f2: "at_per_eval_gpu_ns ?s2 = at_per_eval_gpu_ns ?s1" "at_calls ?s2 = index_calls es"
    by (simp_all add: attribute_scopes_def frames f1)
  have e3: "at_unscoped_gpu_ns ?s3 + self_sum (at_calls ?s3) =
      at_unscoped_gpu_ns ?s2 + sum_list (at_per_eval_gpu_ns ?s1)"
    using eval_meter.meter_run [of ?s2 "at_per_eval_gpu_ns ?s1" "enumerate 0 ?evals"] f2 size1
    by (simp add: attribute_evals_def self_sum_index list_all_iff sum_enumerate_nth sized_def)
  have f3: "at_fallback ?s3 = at_fallback ?s2" by (simp add: attribute_evals_def frames)
  have "at_unscoped_gpu_ns (attribute es) + self_sum (at_calls (attribute es)) =
      at_unscoped_gpu_ns ?s3 + self_sum (at_calls ?s3) + fallback_sum ?s2"
    using merge_meter.meter_run [where s = ?s3 and xs = "at_fallback ?s3"]
    by (simp add: attribute_def merge_fallbacks_def f3 list_all_iff fallback_sum_def alist_sum_def
        comp_def case_prod_unfold)
  also have "\<dots> = at_unscoped_gpu_ns ?s2 + fallback_sum ?s2 + sum_list (at_per_eval_gpu_ns ?s1)"
    unfolding e3 by (simp only: add_ac)
  also have "\<dots> = session_gpu_ns es" unfolding e2 using e1 by (simp only: add.commute)
  finally show ?thesis .
qed

lemma attribute_skeleton: "skeleton (at_calls (attribute es)) = skeleton (index_calls es)"
  by (simp add: attribute_def merge_fallbacks_def attribute_evals_def attribute_scopes_def
      attribute_cbs_def Let_def frames attribution_init_def)

lemma attribute_links:
  "links_forward es (at_calls (attribute es))"
  "calls_closed (at_calls (attribute es))"
  "distinct (map fst (at_calls (attribute es)))"
  using links_forward_skeleton [OF attribute_skeleton links_forward_index]
    calls_closed_links [OF _ attribute_skeleton] skeleton_keys [OF attribute_skeleton, of es]
    distinct_index_calls [of es]
  by simp_all

end
