(* ===== verification/BreakdownProps.thy ===== *)
theory BreakdownProps
  imports BreakdownFacts
begin

text \<open>
  The properties of \<open>compute\<close>: it returns a tree for every session, the tree accounts for all
  the GPU time, and its op rows account for the time of their node.
\<close>

section \<open>Fallback slots name entered calls\<close>

definition sweep_within :: "scope_window list \<Rightarrow> scope_sweep \<Rightarrow> bool" where
  "sweep_within ws s \<longleftrightarrow> swp_windows s = ws \<and> set (swp_stack s) \<subseteq> set ws"

lemma push_due_within: "sweep_within ws s \<Longrightarrow> sweep_within ws (push_due ts s)"
proof (induction ts s rule: push_due.induct)
  case (1 ts s)
  then show ?case by (subst push_due.simps) (auto simp: sweep_within_def)
qed

lemma innermost_within:
  assumes "sweep_within ws s" and "innermost_at s ts = (s', r)"
  shows "sweep_within ws s'" and "r = Some w \<Longrightarrow> w \<in> set ws"
proof -
  let ?s1 = "push_due ts s"
  have p: "sweep_within ws ?s1" by (rule push_due_within [OF assms(1)])
  have st: "set (pop_expired ts (swp_stack ?s1)) \<subseteq> set (swp_stack ?s1)"
    by (auto simp: pop_expired_eq dest: set_dropWhileD)
  show "sweep_within ws s'" using assms(2) p st
    by (auto simp: innermost_at_def Let_def sweep_within_def)
  show "w \<in> set ws" if "r = Some w"
  proof -
    from that assms(2) have "w \<in> set (pop_expired ts (swp_stack ?s1))"
      by (auto simp: innermost_at_def Let_def split: if_splits)
    with st p show ?thesis by (auto simp: sweep_within_def)
  qed
qed

lemma scope_window_ids:
  "sw_call_id ` set (sws_windows (scope_windows es)) \<subseteq> set (entered_ids es)"
proof -
  have close: "sw_call_id w \<in> sw_call_id ` set ws" if "w \<in> set (ws[i := (ws ! i)\<lparr>sw_t_out := t\<rparr>])"
    for ws i t and w :: scope_window
    using that
    by (cases "i < length ws")
      (auto simp: list_update_beyond dest!: subsetD [OF set_update_subset_insert])
  have "sw_call_id ` set (sc_windows (foldl (scope_step last) scope_scan_init es))
      \<subseteq> set (entered_ids es)" for last
  proof (induction es rule: rev_induct)
    case Nil
    then show ?case by (simp add: scope_scan_init_def)
  next
    case (snoc e es)
    let ?s = "foldl (scope_step last) scope_scan_init es"
    have "sw_call_id ` set (sc_windows (scope_step last ?s e)) \<subseteq>
        sw_call_id ` set (sc_windows ?s) \<union> set (entered_ids [e])"
      by (auto simp: scope_step_def split: payload.split option.split dest!: close)
    with snoc show ?case by (simp del: entered_ids_simps(2)) blast
  qed
  then show ?thesis by (simp add: scope_windows_def Let_def)
qed

definition fallback_known :: "event list \<Rightarrow> attribution \<Rightarrow> bool" where
  "fallback_known es s \<longleftrightarrow>
     sweep_within (sws_windows (scope_windows es)) (at_sweep s) \<and>
     fst ` set (at_fallback s) \<subseteq> set (entered_ids es)"

lemma fallback_known_step:
  assumes "fallback_known es s"
  shows "fallback_known es (attribute_fallback s e)"
proof -
  obtain ts ns ops where e: "e = (ts, ns, ops)" by (cases e)
  obtain sw r where i: "innermost_at (at_sweep s) ts = (sw, r)" by fastforce
  note w = innermost_within [OF assms [unfolded fallback_known_def, THEN conjunct1] i]
  show ?thesis
  proof (cases r)
    case None
    with assms w(1) e i show ?thesis by (simp add: attribute_fallback_def fallback_known_def)
  next
    case (Some win)
    with w(2) have "sw_call_id win \<in> set (entered_ids es)"
      using scope_window_ids [of es] by blast
    with Some assms w(1) e i show ?thesis by (simp add: attribute_fallback_def fallback_known_def)
  qed
qed

lemma fold_inv:
  assumes "\<And>s x. P s \<Longrightarrow> P (f s x)" and "P s"
  shows "P (foldl f s xs)"
  using assms(2) by (induction xs arbitrary: s) (simp_all add: assms(1))

lemma fallback_known_scopes: "fallback_known es (attribute_scopes (attribute_cbs es))"
proof -
  have "fallback_known es (attribute_cbs es)"
    by (simp add: fallback_known_def attribute_cbs_def Let_def frames attribution_init_def
        sweep_within_def sweep_new_def)
  then show ?thesis
    unfolding attribute_scopes_def by (rule fold_inv [rotated]) (rule fallback_known_step)
qed

section \<open>Op rows balance the time\<close>

definition pair_bal :: "u64 \<Rightarrow> ops_buf \<Rightarrow> bool" where
  "pair_bal g buf \<longleftrightarrow> buf_ok buf \<and> g = ops_total buf"

lemma pair_bal_simps [simp]: "pair_bal 0 []"
  by (simp add: pair_bal_def)

lemma pair_bal_add: "pair_bal g buf \<Longrightarrow> ns = ops_sum ops \<Longrightarrow> pair_bal (g + ns) (add_ops ops buf)"
  by (simp add: pair_bal_def)

lemma pair_bal_merge: "pair_bal g buf \<Longrightarrow> pair_bal h src \<Longrightarrow> pair_bal (g + h) (merge_ops src buf)"
  by (simp add: pair_bal_def)

definition evals_bal :: "attribution \<Rightarrow> nat \<Rightarrow> bool" where
  "evals_bal s k \<longleftrightarrow>
     (\<forall>i. k \<le> i \<longrightarrow> i < length (at_per_eval_ops s) \<longrightarrow>
        pair_bal (at_per_eval_gpu_ns s ! i) (at_per_eval_ops s ! i))"

definition pending_bal :: "attribution \<Rightarrow> bool" where
  "pending_bal s \<longleftrightarrow> (\<forall>(ts, ns, ops) \<in> set (at_no_eval_window s). ns = ops_sum (opt_ops ops))"

definition fallback_bal :: "attribution \<Rightarrow> bool" where
  "fallback_bal s \<longleftrightarrow> (\<forall>(c, g, k, ops) \<in> set (at_fallback s). pair_bal g ops)"

definition nodes_bal :: "attribution \<Rightarrow> bool" where
  "nodes_bal s \<longleftrightarrow>
     pair_bal (at_unscoped_gpu_ns s) (at_unscoped_ops s) \<and>
     (\<forall>(c, n) \<in> set (at_calls s). pair_bal (cn_gpu_ns_self n) (cn_ops_buf n))"

lemma set_update_alist: "x \<in> set (AList.update k v al) \<Longrightarrow> x = (k, v) \<or> x \<in> set al"
  by (induction al) (auto split: if_splits)

lemma nodes_bal_update:
  assumes "nodes_bal s" and "pair_bal (cn_gpu_ns_self n) (cn_ops_buf n)"
    and "at_calls s' = AList.update c n (at_calls s)"
    and "at_unscoped_gpu_ns s' = at_unscoped_gpu_ns s" and "at_unscoped_ops s' = at_unscoped_ops s"
  shows "nodes_bal s'"
  using assms by (auto simp: nodes_bal_def dest!: set_update_alist)

lemma nodes_balD: "nodes_bal s \<Longrightarrow> map_of (at_calls s) c = Some n \<Longrightarrow>
    pair_bal (cn_gpu_ns_self n) (cn_ops_buf n)"
  by (auto simp: nodes_bal_def dest: map_of_SomeD)

lemma cb_gpu_ns_captured: "cb_gpu_ns True cb = ops_sum (opt_ops (cb_ops cb))"
  by (simp add: cb_gpu_ns_def opt_ops_def ops_sum_def split: option.split)

lemma attribute_cb_bal:
  assumes "sized (length evals) s \<and> evals_bal s 0 \<and> pending_bal s \<and> nodes_bal s"
  shows "sized (length evals) (attribute_cb evals True s cb) \<and>
    evals_bal (attribute_cb evals True s cb) 0 \<and> pending_bal (attribute_cb evals True s cb) \<and>
    nodes_bal (attribute_cb evals True s cb)"
proof (cases "eval_at evals (cb_commit_ts cb)")
  case None
  with assms show ?thesis
    by (auto simp: attribute_cb_def Let_def sized_def evals_bal_def pending_bal_def nodes_bal_def
        cb_gpu_ns_captured)
next
  case (Some i)
  from eval_at_less [OF this] assms have i: "i < length (at_per_eval_ops s)"
    "i < length (at_per_eval_gpu_ns s)" by (simp_all add: sized_def)
  with assms have "pair_bal (at_per_eval_gpu_ns s ! i) (at_per_eval_ops s ! i)"
    by (simp add: evals_bal_def)
  from pair_bal_add [OF this cb_gpu_ns_captured [of cb]] Some i assms show ?thesis
    by (cases "cb_ops cb") (auto simp: attribute_cb_def Let_def sized_def evals_bal_def pending_bal_def nodes_bal_def
        nth_list_update)
qed

lemma attribute_fallback_bal:
  assumes "fallback_bal s \<and> nodes_bal s" and "ns = ops_sum (opt_ops ops)"
  shows "fallback_bal (attribute_fallback s (ts, ns, ops)) \<and>
    nodes_bal (attribute_fallback s (ts, ns, ops))"
proof -
  obtain sw r where i: "innermost_at (at_sweep s) ts = (sw, r)" by fastforce
  show ?thesis
  proof (cases r)
    case None
    with assms i show ?thesis
      by (auto simp: attribute_fallback_def fallback_bal_def nodes_bal_def intro: pair_bal_add)
  next
    case (Some win)
    let ?f = "\<lambda>(gpu, cbs, buf). (gpu + ns, cbs + 1, add_ops (opt_ops ops) buf)"
    let ?c = "sw_call_id win"
    let ?v = "?f (case map_of (at_fallback s) ?c of None \<Rightarrow> (0, 0, []) | Some v \<Rightarrow> v) :: u64 \<times> u64 \<times> ops_buf"
    have p: "pair_bal (fst ?v) (snd (snd ?v))"
    proof (cases "map_of (at_fallback s) ?c")
      case None
      then show ?thesis using pair_bal_add [of 0 "[]", OF _ assms(2)] by simp
    next
      case (Some v)
      then have "pair_bal (fst v) (snd (snd v))"
        using assms(1) by (auto simp: fallback_bal_def dest!: map_of_SomeD)
      with Some show ?thesis
        using pair_bal_add [OF _ assms(2)] by (simp add: case_prod_unfold)
    qed
    have "fallback_bal (s\<lparr>at_fallback := entry_mod ?c (0, 0, []) ?f (at_fallback s)\<rparr>)"
    proof -
      have "pair_bal g b" if "(c, g, k, b) \<in> set (AList.update ?c ?v (at_fallback s))" for c g k b
        using set_update_alist [OF that]
      proof
        assume "(c, g, k, b) = (?c, ?v)"
        then have "g = fst ?v" "b = snd (snd ?v)" by (metis fst_conv snd_conv)+
        with p show ?thesis by (simp only:)
      next
        assume "(c, g, k, b) \<in> set (at_fallback s)"
        with assms(1) show ?thesis by (auto simp: fallback_bal_def)
      qed
      then show ?thesis by (auto simp: fallback_bal_def entry_mod_def)
    qed
    with Some i assms(1) show ?thesis
      by (simp add: attribute_fallback_def fallback_bal_def nodes_bal_def)
  qed
qed

lemma attribute_scopes_bal:
  assumes "fallback_bal s \<and> nodes_bal s" and "pending_bal s"
  shows "fallback_bal (attribute_scopes s) \<and> nodes_bal (attribute_scopes s)"
proof -
  have "fallback_bal (foldl attribute_fallback s xs) \<and> nodes_bal (foldl attribute_fallback s xs)"
    if "\<forall>(ts, ns, ops) \<in> set xs. ns = ops_sum (opt_ops ops)" for xs
    using assms(1) that
  proof (induction xs arbitrary: s)
    case Nil
    then show ?case by simp
  next
    case (Cons x xs)
    obtain ts ns ops where x: "x = (ts, ns, ops)" by (cases x)
    with Cons.prems attribute_fallback_bal [of s ns ops ts] show ?case
      using Cons.IH [of "attribute_fallback s x"] by simp
  qed
  with assms(2) show ?thesis by (simp add: attribute_scopes_def pending_bal_def)
qed

lemma attribute_eval_bal:
  assumes "nodes_bal s" and "evals_bal s i" and "i < length (at_per_eval_ops s)"
  shows "nodes_bal (attribute_eval s (i, w)) \<and> evals_bal (attribute_eval s (i, w)) (Suc i) \<and>
    length (at_per_eval_ops (attribute_eval s (i, w))) = length (at_per_eval_ops s)"
proof -
  from assms(2,3) have p: "pair_bal (at_per_eval_gpu_ns s ! i) (at_per_eval_ops s ! i)"
    by (simp add: evals_bal_def)
  have e: "evals_bal (attribute_eval s (i, w)) (Suc i)"
    using assms(2)
    by (auto simp: attribute_eval_def Let_def evals_bal_def split: option.split prod.split)
  show ?thesis
  proof (cases "eval_leaf (at_calls s) w")
    case None
    with assms(1) p e show ?thesis
      by (auto simp: attribute_eval_def Let_def nodes_bal_def intro: pair_bal_merge)
  next
    case (Some cn)
    obtain c n where cn: "cn = (c, n)" by (cases cn)
    with Some have "map_of (at_calls s) c = Some n" by (simp add: eval_leaf_Some)
    from pair_bal_merge [OF nodes_balD [OF assms(1) this] p] Some cn e show ?thesis
      by (auto simp: attribute_eval_def Let_def intro!: nodes_bal_update [OF assms(1)])
  qed
qed

lemma attribute_evals_bal:
  assumes "nodes_bal s" and "evals_bal s 0" and "length evals = length (at_per_eval_ops s)"
  shows "nodes_bal (attribute_evals evals s)"
proof -
  have "nodes_bal (foldl attribute_eval s (enumerate k ws))"
    if "nodes_bal s" "evals_bal s k" "k + length ws = length (at_per_eval_ops s)" for k ws s
    using that
  proof (induction ws arbitrary: k s)
    case Nil
    then show ?case by simp
  next
    case (Cons w ws)
    from attribute_eval_bal [OF Cons.prems(1,2)] Cons.prems(3)
    have "nodes_bal (attribute_eval s (k, w))" "evals_bal (attribute_eval s (k, w)) (Suc k)"
      "length (at_per_eval_ops (attribute_eval s (k, w))) = length (at_per_eval_ops s)" by simp_all
    with Cons.IH [of "attribute_eval s (k, w)" "Suc k"] Cons.prems(3) show ?case by simp
  qed
  with assms show ?thesis by (simp add: attribute_evals_def)
qed

lemma merge_fallback_bal:
  assumes "nodes_bal s" and "map_of (at_calls s) c \<noteq> None" and "pair_bal g ops"
  shows "nodes_bal (merge_fallback s (c, g, k, ops))"
proof -
  from assms(2) obtain n where n: "map_of (at_calls s) c = Some n" by auto
  from pair_bal_merge [OF nodes_balD [OF assms(1) n] assms(3)] n show ?thesis
    by (auto simp: merge_fallback_def intro!: nodes_bal_update [OF assms(1)])
qed

lemma merge_fallbacks_bal:
  assumes "nodes_bal s" and "fallback_bal s"
    and "\<forall>c \<in> fst ` set (at_fallback s). map_of (at_calls s) c \<noteq> None"
  shows "nodes_bal (merge_fallbacks s)"
proof -
  have "nodes_bal (foldl merge_fallback s xs)"
    if "nodes_bal s" "\<forall>(c, g, k, ops) \<in> set xs. pair_bal g ops"
      "\<forall>c \<in> fst ` set xs. map_of (at_calls s) c \<noteq> None" for xs s
    using that
  proof (induction xs arbitrary: s)
    case Nil
    then show ?case by simp
  next
    case (Cons x xs)
    obtain c g k ops where x: "x = (c, g, k, ops)" by (cases x)
    have "map_of (at_calls (merge_fallback s x)) d = None \<longleftrightarrow> map_of (at_calls s) d = None" for d
      by (rule skeleton_dom) simp
    moreover have "nodes_bal (merge_fallback s x)"
      using Cons.prems x by (auto intro!: merge_fallback_bal)
    ultimately show ?case using Cons.IH [of "merge_fallback s x"] Cons.prems(2,3) by simp
  qed
  with assms show ?thesis by (simp add: merge_fallbacks_def fallback_bal_def)
qed

lemma nodes_bal_attribute:
  assumes "cc_seen_any_cb_ops (completed_command_buffers es)"
  shows "nodes_bal (attribute es)"
proof -
  let ?evals = "eval_windows es"
  let ?s0 = "attribution_init (index_calls es) (sws_windows (scope_windows es)) (length ?evals)"
  let ?s1 = "attribute_cbs es"
  let ?s2 = "attribute_scopes ?s1"
  let ?s3 = "attribute_evals ?evals ?s2"
  have "sized (length ?evals) ?s0 \<and> evals_bal ?s0 0 \<and> pending_bal ?s0 \<and> nodes_bal ?s0"
    using index_calls_node
    by (auto simp: sized_def attribution_init_def evals_bal_def pending_bal_def nodes_bal_def)
  then have s1: "sized (length ?evals) ?s1 \<and> evals_bal ?s1 0 \<and> pending_bal ?s1 \<and> nodes_bal ?s1"
    unfolding attribute_cbs_def Let_def
    using assms fold_inv [where P = "\<lambda>s. sized (length ?evals) s \<and> evals_bal s 0 \<and> pending_bal s \<and>
        nodes_bal s" and f = "attribute_cb ?evals True", OF attribute_cb_bal]
    by simp
  have f1: "at_fallback ?s1 = []" by (simp add: attribute_cbs_def Let_def frames attribution_init_def)
  with s1 have s2: "fallback_bal ?s2 \<and> nodes_bal ?s2"
    by (intro attribute_scopes_bal) (simp_all add: fallback_bal_def)
  have p2: "at_per_eval_gpu_ns ?s2 = at_per_eval_gpu_ns ?s1" "at_per_eval_ops ?s2 = at_per_eval_ops ?s1"
    by (simp_all add: attribute_scopes_def frames)
  have s3: "nodes_bal ?s3"
    using s1 s2 by (intro attribute_evals_bal) (simp_all add: evals_bal_def sized_def p2)
  have f3: "at_fallback ?s3 = at_fallback ?s2" by (simp add: attribute_evals_def frames)
  have sk: "skeleton (at_calls ?s3) = skeleton (index_calls es)"
    by (simp add: attribute_evals_def attribute_scopes_def attribute_cbs_def Let_def frames
        attribution_init_def)
  show ?thesis
    unfolding attribute_def
  proof (rule merge_fallbacks_bal [OF s3])
    show "fallback_bal ?s3" using s2 by (simp add: fallback_bal_def f3)
    show "\<forall>c \<in> fst ` set (at_fallback ?s3). map_of (at_calls ?s3) c \<noteq> None"
    proof
      fix c
      assume "c \<in> fst ` set (at_fallback ?s3)"
      then have "c \<in> set (entered_ids es)"
        using fallback_known_scopes [of es] by (auto simp: fallback_known_def f3)
      then show "map_of (at_calls ?s3) c \<noteq> None"
        using entered_calls [of c es] skeleton_dom [OF sk, of c] by simp
    qed
  qed
qed

section \<open>The returned tree\<close>

fun tree_all :: "(module_breakdown \<Rightarrow> bool) \<Rightarrow> module_breakdown \<Rightarrow> bool" where
  "tree_all P (ModuleBreakdown q c k s t ev cb ch ops dg fl) =
     (P (ModuleBreakdown q c k s t ev cb ch ops dg fl) \<and> list_all (tree_all P) ch)"

lemma tree_all_alt: "tree_all P t \<longleftrightarrow> P t \<and> list_all (tree_all P) (mb_children t)"
  by (cases t) simp

lemma tree_of_all:
  assumes "links_forward es calls" and "calls_closed calls"
    and node: "\<And>c n cs. map_of calls c = Some n \<Longrightarrow> P (node_of n cs)"
    and "map_of calls c \<noteq> None"
  shows "tree_all P (tree_of es calls c)"
  using assms(4)
proof (induction "length es - entry_rank es c" arbitrary: c rule: less_induct)
  case less
  then obtain n where n: "map_of calls c = Some n" by auto
  have "tree_all P (tree_of es calls ch)" if "ch \<in> set (cn_children n)" for ch
  proof (rule less.hyps)
    from links_forwardD [OF assms(1) n that] obtain i j where
      "last_entry es c = Some i" "last_entry es ch = Some j" "i < j" .
    moreover from this(2) have "j < length es" by (rule last_entry_less)
    ultimately show "length es - entry_rank es ch < length es - entry_rank es c"
      by (simp add: entry_rank_def)
    show "map_of calls ch \<noteq> None" using assms(2) n that by (auto simp: calls_closed_def)
  qed
  then have "list_all (tree_all P) (map (tree_of es calls) (cn_children n))"
    by (simp add: list_all_iff)
  then have "list_all (tree_all P)
      (mb_children (node_of n (map (tree_of es calls) (cn_children n))))"
    by (simp add: node_of_def list_all_iff)
  with node [OF n] show ?case
    unfolding tree_of_node [OF assms(1,2) n] by (subst tree_all_alt) blast
qed

definition call_trees :: "event list \<Rightarrow> module_breakdown list" where
  "call_trees es = map (tree_of es (at_calls (attribute es))) (root_ids (at_calls (attribute es)))"

lemma root_ids_present: "c \<in> set (root_ids calls) \<Longrightarrow> map_of calls c \<noteq> None"
  by (auto simp: root_ids_def dest: weak_map_of_SomeI)

lemma length_clamped [simp]: "length (clamped_events es) = length es"
  by (simp add: clamped_events_def apply_op_time_scales_def)

lemma compute_eq:
  assumes "events \<noteq> []"
  shows "compute events = Some (Inr (root_of (attribute (clamped_events events))
    (sws_malformed_returns (scope_windows (clamped_events events)))
    (clamped_cb_count (compute_op_time_scales events)) (call_trees (clamped_events events))))"
proof -
  let ?es = "clamped_events events"
  let ?C = "at_calls (attribute ?es)"
  have "build (Suc (length ?es)) ?C c = Some (Some (tree_of ?es ?C c))"
    if "c \<in> set (root_ids ?C)" for c
    by (rule build_tree_of [OF attribute_links(1) root_ids_present [OF that]])
  then have "those (map (build (Suc (length ?es)) ?C) (root_ids ?C)) =
      Some (map (Some \<circ> tree_of ?es ?C) (root_ids ?C))"
    by (intro those_map_Some) simp
  moreover have "List.map_filter id (map (Some \<circ> g) xs) = map g xs"
    for g :: "u64 \<Rightarrow> module_breakdown" and xs
    by (induction xs) (simp_all add: List.map_filter_simps)
  ultimately show ?thesis
    using assms unfolding compute_def Let_def by (simp only: call_trees_def option.case if_False)
qed

lemma tree_all_root:
  assumes "\<And>c n cs. map_of (at_calls (attribute es)) c = Some n \<Longrightarrow> P (node_of n cs)"
    and "P (unscoped_node (attribute es))"
    and "P (root_of (attribute es) m k (call_trees es))"
  shows "tree_all P (root_of (attribute es) m k (call_trees es))"
proof -
  have "tree_all P (tree_of es (at_calls (attribute es)) c)"
    if "c \<in> set (root_ids (at_calls (attribute es)))" for c
    by (rule tree_of_all [where P = P, OF attribute_links(1,2) assms(1) root_ids_present [OF that]])
  then have "list_all (tree_all P) (call_trees es)"
    by (simp add: call_trees_def list_all_iff)
  moreover have "tree_all P (unscoped_node (attribute es))"
    using assms(2) by (subst tree_all_alt) (simp add: unscoped_node_def)
  ultimately have "list_all (tree_all P) (mb_children (root_of (attribute es) m k (call_trees es)))"
    by (auto simp: root_of_def list_all_iff)
  with assms(3) show ?thesis by (subst tree_all_alt) blast
qed

section \<open>Totals\<close>

definition time_consistent :: "module_breakdown \<Rightarrow> bool" where
  "time_consistent t \<longleftrightarrow>
     mb_gpu_ns_subtree t = mb_gpu_ns_self t + sum_list (map mb_gpu_ns_subtree (mb_children t)) \<and>
     sorted (map (desc \<circ> mb_gpu_ns_subtree) (mb_children t))"

definition ops_balanced :: "module_breakdown \<Rightarrow> bool" where
  "ops_balanced t \<longleftrightarrow> sum_list (map oa_gpu_ns (mb_ops t)) = mb_gpu_ns_self t"

lemma sum_unscoped:
  "sum_list (map mb_gpu_ns_subtree (if has_unscoped s then [unscoped_node s] else [])) =
     at_unscoped_gpu_ns s"
  by (simp add: has_unscoped_def unscoped_node_def word_gt_0)

lemma time_consistent_root: "time_consistent (root_of s m k cs)"
  using sum_unscoped [of s] by (simp add: time_consistent_def root_of_def)

lemma time_consistent_tree: "tree_all time_consistent (root_of (attribute es) m k (call_trees es))"
proof (rule tree_all_root)
  show "time_consistent (node_of n cs)" for n cs by (simp add: time_consistent_def node_of_def)
  show "time_consistent (unscoped_node (attribute es))"
    by (simp add: time_consistent_def unscoped_node_def)
qed (rule time_consistent_root)

lemma call_trees_sum:
  assumes "distinct (entered_ids es)" and "parents_first es"
  shows "sum_list (map mb_gpu_ns_subtree (call_trees es)) = self_sum (at_calls (attribute es))"
proof -
  let ?C = "at_calls (attribute es)"
  let ?S = "\<lambda>c. mb_gpu_ns_subtree (tree_of es ?C c)"
  have "links_exact ?C"
    by (rule links_exact_skeleton [OF attribute_skeleton links_exact_index [OF assms]])
  moreover have "?S c = cn_gpu_ns_self n + sum_list (map ?S (cn_children n))"
    if "(c, n) \<in> set ?C" for c n
  proof -
    from that attribute_links(3) have "map_of ?C c = Some n" by simp
    from tree_of_node [OF attribute_links(1,2) this] show ?thesis
      by (simp add: node_of_def comp_def)
  qed
  ultimately have "sum_list (map ?S (root_ids ?C)) = alist_sum cn_gpu_ns_self ?C"
    by (rule forest_sum)
  then show ?thesis by (simp add: call_trees_def self_sum_def comp_def)
qed

lemma ops_rows_sum: "sum_list (map oa_gpu_ns (ops_rows buf)) = ops_total buf"
  by (simp add: ops_rows_def sort_ops_def ops_total_def alist_sum_def into_attribution_def
      comp_def case_prod_unfold)

lemma ops_balanced_tree:
  assumes "cc_seen_any_cb_ops (completed_command_buffers es)"
  shows "tree_all ops_balanced (root_of (attribute es) m k (call_trees es))"
proof (rule tree_all_root)
  fix c n cs
  assume "map_of (at_calls (attribute es)) c = Some n"
  from nodes_balD [OF nodes_bal_attribute [OF assms] this] show "ops_balanced (node_of n cs)"
    by (simp add: ops_balanced_def node_of_def ops_rows_sum pair_bal_def)
next
  from nodes_bal_attribute [OF assms] show "ops_balanced (unscoped_node (attribute es))"
    by (simp add: ops_balanced_def unscoped_node_def ops_rows_sum pair_bal_def nodes_bal_def)
qed (simp add: ops_balanced_def root_of_def)

section \<open>Properties\<close>

definition breakdown_example :: "event list" where
  "breakdown_example =
     [mk_event 10 1 (ModuleEntered 1 0 ''m'' ''M'' None 0 []),
      mk_event 20 2 (ModuleEntered 2 0 ''m.l'' ''L'' (Some 1) 1 []),
      mk_event 30 3 (MetalCbCommitted 7 0 0 None),
      mk_event 40 4 (MetalCbCompleted 7 0 0 None None 10),
      mk_event 41 5 (MetalCbOps 7 [\<lparr>op_name = ''K'', op_symbol = None, op_gpu_ns = 8, op_count = 1,
                                    op_apportioned_ns = None\<rparr>]),
      mk_event 50 6 (ModuleReturned 2),
      mk_event 60 7 (ModuleReturned 1)]"

lemma example_clamp: "clamped_events breakdown_example = breakdown_example"
proof -
  have "compute_op_time_scales breakdown_example = []"
    by (simp add: compute_op_time_scales_def breakdown_example_def clamp_step_def
        op_clamp_observe_def op_clamp_init_def)
  moreover have "scale_event [] = id"
    by (rule ext) (simp add: scale_event_def split: payload.split)
  ultimately show ?thesis
    by (simp add: clamped_events_def apply_op_time_scales_def)
qed

lemma example_captured: "cc_seen_any_cb_ops (completed_command_buffers breakdown_example)"
  by (simp add: breakdown_example_def completed_command_buffers_def pair_command_buffers_def
      pair_step_def pair_init_def Let_def)

text \<open>
  C3. The breakdown is total: the recursion over the call tree ends on every session, whatever
  the call ids, parents and order of its events, and the only error is the empty session.
\<close>

theorem compute_total:
  "\<exists>r. compute es = Some r \<and> (r = Inl EmptySession \<longleftrightarrow> es = [])"
proof (cases "es = []")
  case True
  then show ?thesis by (simp add: compute_def)
next
  case False
  then show ?thesis by (simp add: compute_eq)
qed

lemma compute_root_total:
  assumes "es \<noteq> []" and "distinct (entered_ids (clamped_events es))"
    and "parents_first (clamped_events es)"
  shows "\<exists>root. compute es = Some (Inr root) \<and>
    mb_gpu_ns_subtree root = session_gpu_ns (clamped_events es) \<and>
    tree_all time_consistent root"
proof -
  let ?c = "clamped_events es"
  have "mb_gpu_ns_subtree (root_of (attribute ?c) m k (call_trees ?c)) = session_gpu_ns ?c" for m k
    using call_trees_sum [OF assms(2,3)] attribute_conserves [of ?c]
    by (simp add: root_of_def add.commute)
  then show ?thesis
    using time_consistent_tree [of ?c] by (simp add: compute_eq [OF assms(1)])
qed

text \<open>
  C1. The tree accounts for all GPU time: when call ids are not reused and parents enter before
  their children, the subtree time of the root is the time of all completed command buffers
  (after the clamp), each counted once, and in every node the subtree time is the node's own
  time plus that of its children, which are listed heaviest first.
\<close>

theorem breakdown_conserves_gpu_time:
  assumes "es \<noteq> []" and "distinct (entered_ids (clamped_events es))"
    and "parents_first (clamped_events es)"
  shows "\<exists>root. compute es = Some (Inr root) \<and>
    mb_gpu_ns_subtree root = session_gpu_ns (clamped_events es) \<and>
    tree_all time_consistent root"
  by (rule compute_root_total [OF assms])

theorem breakdown_conserves_gpu_time_witness:
  "\<exists>root. compute breakdown_example = Some (Inr root) \<and> mb_gpu_ns_subtree root = 8 \<and>
    tree_all time_consistent root"
proof -
  have "session_gpu_ns breakdown_example = 8"
    by (simp add: session_gpu_ns_def breakdown_example_def completed_command_buffers_def
        pair_command_buffers_def pair_step_def pair_init_def rescale_ops_def cb_gpu_ns_def
        ops_sum_def Let_def)
  moreover have "breakdown_example \<noteq> []" "distinct (entered_ids breakdown_example)"
    by (simp_all add: breakdown_example_def)
  moreover have "parents_first breakdown_example"
    by (simp add: parents_first_def breakdown_example_def parent_of_def upt_rec)
  ultimately show ?thesis using breakdown_conserves_gpu_time [of breakdown_example]
    by (simp add: example_clamp)
qed

text \<open>
  C2. With op capture on, the op rows of every node of the tree, the unscoped one included, add
  up to the node's own time: no op is lost or counted twice on its way through the evaluation
  windows and the scope fallback.
\<close>

theorem breakdown_ops_balance:
  assumes "es \<noteq> []" and "cc_seen_any_cb_ops (completed_command_buffers (clamped_events es))"
  shows "\<exists>root. compute es = Some (Inr root) \<and> tree_all ops_balanced root"
  using ops_balanced_tree [OF assms(2)] by (simp add: compute_eq [OF assms(1)])

theorem breakdown_ops_balance_witness:
  "\<exists>root. compute breakdown_example = Some (Inr root) \<and> tree_all ops_balanced root"
  by (rule breakdown_ops_balance)
    (simp add: breakdown_example_def, simp only: example_clamp example_captured)

end
