(* ===== verification/OpRows.thy ===== *)
theory OpRows
  imports BreakdownProps
begin

text \<open>
  Consumers of the breakdown tree in \<open>crates/smeltr-analyzer/src/breakdown.rs\<close>: the notices
  (\<open>ApportionedOps\<close>, \<open>degraded_advice\<close>), the field filter, the kind and flat op tables, the
  row selection of \<open>render_table\<close> and the time layout of \<open>render_chrome_trace\<close>.  The number
  formatting of the tables and the JSON syntax are not modelled.
\<close>

section \<open>Notices\<close>

definition sampling_disable_episodes :: "event list \<Rightarrow> nat" where
  "sampling_disable_episodes es =
     length (filter (\<lambda>ev. case payload ev of
         MetalHookSkipped reason \<Rightarrow>
           contains_str reason ''stage sampling disabled'' \<or>
           contains_str reason ''dispatch sampling disabled''
       | _ \<Rightarrow> False) es)"

definition degraded_advice :: "nat \<Rightarrow> string option" where
  "degraded_advice episodes =
     (if episodes > 0
      then Some (''op-level numbers partial: sampling disabled '' @ digits episodes @
        '' time(s) after sustained alloc failures (GPU op timing degraded)'')
      else None)"

record apportioned_ops =
  ap_apportioned_ns :: u64
  ap_total_ns :: u64

definition apportioned_step ::
  "op_time_scales \<Rightarrow> u64 \<Rightarrow> bool \<times> apportioned_ops \<Rightarrow> op_sample \<Rightarrow> bool \<times> apportioned_ops" where
  "apportioned_step scales sq st op =
     (case st of (known, est) \<Rightarrow>
        (let est1 = est\<lparr>ap_total_ns := ap_total_ns est + scaled_gpu_ns scales sq (op_gpu_ns op)\<rparr>
         in case op_apportioned_ns op of
              None \<Rightarrow> (known, est1)
            | Some a \<Rightarrow>
                (True, est1\<lparr>ap_apportioned_ns :=
                   ap_apportioned_ns est1 + scaled_gpu_ns scales sq a\<rparr>)))"

definition apportioned_scan :: "op_time_scales \<Rightarrow> event list \<Rightarrow> bool \<times> apportioned_ops" where
  "apportioned_scan scales es =
     foldl (\<lambda>st ev. case payload ev of
         MetalCbOps _ ops \<Rightarrow> foldl (apportioned_step scales (ev_seq ev)) st ops
       | _ \<Rightarrow> st)
       (False, \<lparr>ap_apportioned_ns = 0, ap_total_ns = 0\<rparr>) es"

definition apportioned_detect :: "event list \<Rightarrow> apportioned_ops option" where
  "apportioned_detect es =
     (case apportioned_scan (compute_op_time_scales es) es of
        (known, est) \<Rightarrow> if known \<and> ap_total_ns est > 0 then Some est else None)"

section \<open>Field filter\<close>

text \<open>A node matches when its fields contain the filter; \<open>==\<close> is the payload's \<open>PartialEq\<close>.\<close>

definition matches_filter :: "fields \<Rightarrow> fields \<Rightarrow> bool" where
  "matches_filter flt flds \<longleftrightarrow>
     list_all (\<lambda>(k, v). case map_of flds k of None \<Rightarrow> False | Some w \<Rightarrow> field_eq w v) flt"

fun prune_by_field_filter :: "fields \<Rightarrow> module_breakdown \<Rightarrow> module_breakdown \<times> bool" where
  "prune_by_field_filter flt (ModuleBreakdown q c k s t ev cb ch ops dg flds) =
     (let kept = map fst (filter snd (map (prune_by_field_filter flt) ch))
      in (ModuleBreakdown q c k s t ev cb kept ops dg flds,
          matches_filter flt flds \<or> kept \<noteq> []))"

section \<open>Op tables\<close>

datatype op_group_by = ByName | ByKind

definition kind_key :: "op_attribution \<Rightarrow> string" where
  "kind_key op =
     (case oa_kind op of
        Some k \<Rightarrow> k
      | None \<Rightarrow> (case oa_symbol op of Some s \<Rightarrow> s | None \<Rightarrow> oa_name op))"

definition or_first :: "'a option \<Rightarrow> 'a option \<Rightarrow> 'a option" where
  "or_first a b = (case a of None \<Rightarrow> b | Some _ \<Rightarrow> a)"

type_synonym kind_slot = "u64 \<times> u64 \<times> u64 \<times> string option"

definition regroup_step :: "(string \<times> kind_slot) list \<Rightarrow> op_attribution \<Rightarrow> (string \<times> kind_slot) list" where
  "regroup_step agg op =
     entry_mod (kind_key op) (0, 0, 0, None)
       (\<lambda>(g, n, a, k). (g + oa_gpu_ns op, n + oa_count op, a + oa_apportioned_ns op,
                       or_first k (oa_kind op))) agg"

definition regroup_row :: "string \<times> kind_slot \<Rightarrow> op_attribution" where
  "regroup_row e =
     (case e of (name, g, n, a, k) \<Rightarrow>
        \<lparr>oa_name = name, oa_gpu_ns = g, oa_count = n, oa_symbol = None, oa_kind = k,
         oa_apportioned_ns = a\<rparr>)"

definition regroup_ops_by_kind :: "op_attribution list \<Rightarrow> op_attribution list" where
  "regroup_ops_by_kind ops = sort_ops (map regroup_row (foldl regroup_step [] ops))"

fun apply_op_group_by :: "op_group_by \<Rightarrow> module_breakdown \<Rightarrow> module_breakdown" where
  "apply_op_group_by ByName t = t"
| "apply_op_group_by ByKind (ModuleBreakdown q c k s t ev cb ch ops dg flds) =
     ModuleBreakdown q c k s t ev cb (map (apply_op_group_by ByKind) ch)
       (regroup_ops_by_kind ops) dg flds"

record op_flat_row =
  fr_key :: string
  fr_gpu_ns :: u64
  fr_count :: u64
  fr_symbol :: "string option"
  fr_kind :: "string option"
  fr_apportioned_ns :: u64

type_synonym flat_slot = "u64 \<times> u64 \<times> string option \<times> string option \<times> u64"

definition flat_key :: "op_group_by \<Rightarrow> op_attribution \<Rightarrow> string" where
  "flat_key gb op = (case gb of ByName \<Rightarrow> oa_name op | ByKind \<Rightarrow> kind_key op)"

definition flat_step ::
  "op_group_by \<Rightarrow> (string \<times> flat_slot) list \<Rightarrow> op_attribution \<Rightarrow> (string \<times> flat_slot) list" where
  "flat_step gb agg op =
     entry_mod (flat_key gb op) (0, 0, None, None, 0)
       (\<lambda>(g, n, s, k, a). (g + oa_gpu_ns op, n + oa_count op, or_first s (oa_symbol op),
                          or_first k (oa_kind op), a + oa_apportioned_ns op)) agg"

fun flat_walk ::
  "op_group_by \<Rightarrow> (string \<times> flat_slot) list \<Rightarrow> module_breakdown \<Rightarrow> (string \<times> flat_slot) list" where
  "flat_walk gb agg (ModuleBreakdown q c k s t ev cb ch ops dg flds) =
     foldl (flat_walk gb) (foldl (flat_step gb) agg ops) ch"

definition flat_row :: "op_group_by \<Rightarrow> string \<times> flat_slot \<Rightarrow> op_flat_row" where
  "flat_row gb e =
     (case e of (key, g, n, s, k, a) \<Rightarrow>
        \<lparr>fr_key = key, fr_gpu_ns = g, fr_count = n,
         fr_symbol = (case gb of ByName \<Rightarrow> s | ByKind \<Rightarrow> None),
         fr_kind = k, fr_apportioned_ns = a\<rparr>)"

definition aggregate_ops_flat :: "module_breakdown \<Rightarrow> op_group_by \<Rightarrow> op_flat_row list" where
  "aggregate_ops_flat rt gb =
     sort_key (\<lambda>r. (desc (fr_gpu_ns r), fr_key r)) (map (flat_row gb) (flat_walk gb [] rt))"

section \<open>Table rows\<close>

text \<open>
  \<open>walk\<close> of \<open>render_table\<close>: depth, node and the index of the parent's row.  The depth is a \<open>u16\<close>
  that wraps, as in a release build.
\<close>

type_synonym table_row = "u16 \<times> module_breakdown \<times> nat option"

fun table_walk ::
  "u16 \<Rightarrow> nat option \<Rightarrow> u16 \<Rightarrow> table_row list \<Rightarrow> module_breakdown \<Rightarrow> table_row list" where
  "table_walk depth par max_depth out (ModuleBreakdown q c k s t ev cb ch ops dg flds) =
     (if max_depth < depth then out
      else foldl (table_walk (depth + 1) (Some (length out)) max_depth)
             (out @ [(depth, ModuleBreakdown q c k s t ev cb ch ops dg flds, par)]) ch)"

definition table_tree :: "u16 \<Rightarrow> module_breakdown \<Rightarrow> table_row list" where
  "table_tree max_depth rt = foldl (table_walk 0 None max_depth) [] (mb_children rt)"

definition row_weight :: "table_row \<Rightarrow> u64" where
  "row_weight r = mb_gpu_ns_subtree (fst (snd r))"

definition by_weight :: "table_row list \<Rightarrow> nat list" where
  "by_weight tree = sort_key (\<lambda>i. desc (row_weight (tree ! i))) [0..<length tree]"

text \<open>Mark a row and its ancestors, stopping at the first one already marked.\<close>

fun keep_up :: "nat \<Rightarrow> table_row list \<Rightarrow> bool list \<Rightarrow> nat option \<Rightarrow> bool list" where
  "keep_up 0 tree keep pos = keep"
| "keep_up (Suc k) tree keep None = keep"
| "keep_up (Suc k) tree keep (Some j) =
     (if keep ! j then keep else keep_up k tree (keep[j := True]) (snd (snd (tree ! j))))"

definition table_keep :: "nat \<Rightarrow> table_row list \<Rightarrow> bool list" where
  "table_keep ntop tree =
     foldl (\<lambda>keep i. keep_up (Suc (length tree)) tree keep (Some i))
       (replicate (length tree) False) (take ntop (by_weight tree))"

definition table_rows :: "nat \<Rightarrow> u16 \<Rightarrow> module_breakdown \<Rightarrow> (u16 \<times> module_breakdown) list" where
  "table_rows ntop max_depth rt =
     (let tree = table_tree max_depth rt; keep = table_keep ntop tree
      in map (\<lambda>((d, n, _), _). (d, n)) (filter snd (zip tree keep)))"

section \<open>Trace slices\<close>

record slice =
  sl_name :: string
  sl_ts :: u64
  sl_dur :: u64
  sl_tid :: nat

definition op_dur :: "op_attribution \<Rightarrow> u64" where
  "op_dur op = max (oa_gpu_ns op div 1000) 1"

definition op_slices :: "nat \<Rightarrow> u64 \<Rightarrow> op_attribution list \<Rightarrow> u64 \<times> slice list" where
  "op_slices tid start ops =
     foldl (\<lambda>(next, out) op.
         (next + op_dur op,
          out @ [\<lparr>sl_name = oa_name op, sl_ts = next, sl_dur = op_dur op, sl_tid = tid\<rparr>]))
       (start, []) ops"

text \<open>The cursor after the node and its slices: the node's own first, as its slot is reserved.\<close>

fun trace_walk :: "nat \<Rightarrow> u64 \<times> slice list \<Rightarrow> module_breakdown \<Rightarrow> u64 \<times> slice list" where
  "trace_walk depth (cursor, out) (ModuleBreakdown q c k s t ev cb ch ops dg flds) =
     (if q = ''<root>'' then foldl (trace_walk depth) (cursor, out) ch
      else
        (let (next, inner) = foldl (trace_walk (Suc depth)) (cursor, []) ch;
             (next', os) = op_slices (Suc depth) next ops;
             dur = max (max (t div 1000) 1) (next' - cursor)
         in (cursor + dur,
             out @ \<lparr>sl_name = q, sl_ts = cursor, sl_dur = dur, sl_tid = depth\<rparr> # inner @ os)))"

definition trace_slices :: "module_breakdown \<Rightarrow> slice list" where
  "trace_slices rt = snd (trace_walk 0 (0, []) rt)"

end
