(* ===== verification/OpRowsFacts.thy ===== *)
theory OpRowsFacts
  imports OpRows
begin

text \<open>
  The op tables lose nothing: totals over any grouping are the totals of the tree, rows are
  unique per key and independent of the order in which the ops were met, and the field filter
  keeps exactly the branches that lead to a match.
\<close>

section \<open>Sums over a tree\<close>

fun tree_sum :: "(module_breakdown \<Rightarrow> u64) \<Rightarrow> module_breakdown \<Rightarrow> u64" where
  "tree_sum g (ModuleBreakdown q c k s t ev cb ch ops dg fl) =
     g (ModuleBreakdown q c k s t ev cb ch ops dg fl) + sum_list (map (tree_sum g) ch)"

definition op_time :: "module_breakdown \<Rightarrow> u64" where
  "op_time t = sum_list (map oa_gpu_ns (mb_ops t))"

lemma op_time_node [simp]:
  "op_time (ModuleBreakdown q c k s t ev cb ch ops dg fl) = sum_list (map oa_gpu_ns ops)"
  by (simp add: op_time_def)

lemma ops_balanced_node [simp]:
  "ops_balanced (ModuleBreakdown q c k s t ev cb ch ops dg fl) \<longleftrightarrow>
     sum_list (map oa_gpu_ns ops) = s"
  by (simp add: ops_balanced_def)

lemma tree_sum_self:
  "tree_all time_consistent t \<Longrightarrow> tree_sum mb_gpu_ns_self t = mb_gpu_ns_subtree t"
proof (induction t)
  case (ModuleBreakdown q c k s t ev cb ch ops dg fl)
  then have "sum_list (map (tree_sum mb_gpu_ns_self) ch) = sum_list (map mb_gpu_ns_subtree ch)"
    by (intro arg_cong [where f = sum_list] map_cong) (simp_all add: list_all_iff)
  with ModuleBreakdown.prems show ?case by (simp add: time_consistent_def)
qed

lemma tree_sum_balanced:
  "tree_all ops_balanced t \<Longrightarrow> tree_sum op_time t = tree_sum mb_gpu_ns_self t"
proof (induction t)
  case (ModuleBreakdown q c k s t ev cb ch ops dg fl)
  then have "sum_list (map (tree_sum op_time) ch) = sum_list (map (tree_sum mb_gpu_ns_self) ch)"
    by (intro arg_cong [where f = sum_list] map_cong) (simp_all add: list_all_iff)
  with ModuleBreakdown.prems show ?case by simp
qed

section \<open>Buckets\<close>

text \<open>
  Both tables fill buckets with the same kind of update: the time of an op is added to the
  first component of the bucket its key names.
\<close>

locale op_table =
  fixes step :: "(string \<times> 'b) list \<Rightarrow> op_attribution \<Rightarrow> (string \<times> 'b) list"
    and key :: "op_attribution \<Rightarrow> string"
    and empty_slot :: 'b
    and add :: "op_attribution \<Rightarrow> 'b \<Rightarrow> 'b"
    and time :: "'b \<Rightarrow> u64"
  assumes step_entry: "step agg op = entry_mod (key op) empty_slot (add op) agg"
    and time_empty: "time empty_slot = 0"
    and time_add: "time (add op v) = time v + oa_gpu_ns op"
begin

lemma distinct_run: "distinct (map fst agg) \<Longrightarrow> distinct (map fst (foldl step agg ops))"
  by (induction ops arbitrary: agg) (simp_all add: step_entry)

lemma time_run:
  "distinct (map fst agg) \<Longrightarrow>
     alist_sum time (foldl step agg ops) = alist_sum time agg + sum_list (map oa_gpu_ns ops)"
  by (induction ops arbitrary: agg)
    (simp_all add: step_entry alist_sum_entry_mod [OF _ time_add time_empty] add.assoc)

lemma slot_run:
  "map_of (foldl step agg ops) k =
     (if filter (\<lambda>op. key op = k) ops = [] then map_of agg k
      else Some (foldl (\<lambda>v op. add op v)
        (case map_of agg k of None \<Rightarrow> empty_slot | Some v \<Rightarrow> v) (filter (\<lambda>op. key op = k) ops)))"
  by (induction ops arbitrary: agg) (auto simp: step_entry)

end

interpretation kind_table: op_table
  regroup_step kind_key "(0, 0, 0, None)"
  "\<lambda>op (g, n, a, k). (g + oa_gpu_ns op, n + oa_count op, a + oa_apportioned_ns op,
                      or_first k (oa_kind op))" fst
  by unfold_locales (auto simp: regroup_step_def case_prod_unfold)

interpretation flat_table: op_table
  "flat_step gb" "flat_key gb" "(0, 0, None, None, 0)"
  "\<lambda>op (g, n, s, k, a). (g + oa_gpu_ns op, n + oa_count op, or_first s (oa_symbol op),
                         or_first k (oa_kind op), a + oa_apportioned_ns op)" fst for gb
  by unfold_locales (auto simp: flat_step_def case_prod_unfold)

lemma flat_walk_sum:
  "distinct (map fst agg) \<Longrightarrow>
     distinct (map fst (flat_walk gb agg t)) \<and>
     alist_sum fst (flat_walk gb agg t) = alist_sum fst agg + tree_sum op_time t"
proof (induction t arbitrary: agg)
  case (ModuleBreakdown q c k s t ev cb ch ops dg fl)
  have children: "distinct (map fst (foldl (flat_walk gb) a xs)) \<and>
      alist_sum fst (foldl (flat_walk gb) a xs) =
        alist_sum fst a + sum_list (map (tree_sum op_time) xs)"
    if "distinct (map fst a)" "set xs \<subseteq> set ch" for a xs
    using that
  proof (induction xs arbitrary: a)
    case Nil
    then show ?case by simp
  next
    case (Cons x xs)
    then have "x \<in> set ch" and sub: "set xs \<subseteq> set ch" by simp_all
    from ModuleBreakdown.IH [OF this(1) Cons.prems(1)] Cons.IH [OF _ sub, of "flat_walk gb a x"]
    show ?case by (simp add: add.assoc)
  qed
  from flat_table.distinct_run [OF ModuleBreakdown.prems, of gb ops]
  have d: "distinct (map fst (foldl (flat_step gb) agg ops))" .
  have "alist_sum fst (foldl (flat_step gb) agg ops) =
      alist_sum fst agg + sum_list (map oa_gpu_ns ops)"
    by (rule flat_table.time_run [OF ModuleBreakdown.prems])
  with children [OF d, of ch] show ?case by (simp add: add.assoc)
qed

section \<open>The flat table\<close>

text \<open>The nodes of a tree, parents before children, and all their ops in that order.\<close>

fun tree_nodes :: "module_breakdown \<Rightarrow> module_breakdown list" where
  "tree_nodes (ModuleBreakdown q c k s t ev cb ch ops dg fl) =
     ModuleBreakdown q c k s t ev cb ch ops dg fl # concat (map tree_nodes ch)"

definition tree_ops :: "module_breakdown \<Rightarrow> op_attribution list" where
  "tree_ops t = concat (map mb_ops (tree_nodes t))"

lemma tree_ops_node [simp]:
  "tree_ops (ModuleBreakdown q c k s t ev cb ch ops dg fl) = ops @ concat (map tree_ops ch)"
proof -
  have "concat (map mb_ops (concat (map tree_nodes ch))) = concat (map tree_ops ch)"
    by (induction ch) (simp_all add: tree_ops_def)
  then show ?thesis by (simp add: tree_ops_def)
qed

lemma flat_walk_ops: "flat_walk gb agg t = foldl (flat_step gb) agg (tree_ops t)"
proof (induction t arbitrary: agg)
  case (ModuleBreakdown q c k s t ev cb ch ops dg fl)
  have "foldl (flat_walk gb) a xs = foldl (flat_step gb) a (concat (map tree_ops xs))"
    if "set xs \<subseteq> set ch" for a xs
    using that
  proof (induction xs arbitrary: a)
    case (Cons x xs)
    with ModuleBreakdown.IH [of x] show ?case by simp
  qed simp
  then show ?case by simp
qed

text \<open>
  The row of one key: the sums over the ops with that key and the first symbol and kind known
  among them.  By kind, an op without a kind is named by its symbol, else by its name.
\<close>

definition group_key :: "op_group_by \<Rightarrow> op_attribution \<Rightarrow> string" where
  "group_key gb op =
     (case (gb, oa_kind op, oa_symbol op) of
        (ByName, _, _) \<Rightarrow> oa_name op
      | (ByKind, Some kind, _) \<Rightarrow> kind
      | (ByKind, None, Some symbol) \<Rightarrow> symbol
      | (ByKind, None, None) \<Rightarrow> oa_name op)"

definition first_known :: "'a option list \<Rightarrow> 'a option" where
  "first_known xs = (case filter (\<lambda>x. x \<noteq> None) xs of [] \<Rightarrow> None | x # _ \<Rightarrow> x)"

definition row_of_key :: "op_group_by \<Rightarrow> op_attribution list \<Rightarrow> string \<Rightarrow> op_flat_row" where
  "row_of_key gb ops k =
     (let xs = filter (\<lambda>op. group_key gb op = k) ops
      in \<lparr>fr_key = k, fr_gpu_ns = sum_list (map oa_gpu_ns xs), fr_count = sum_list (map oa_count xs),
          fr_symbol = (if gb = ByName then first_known (map oa_symbol xs) else None),
          fr_kind = first_known (map oa_kind xs),
          fr_apportioned_ns = sum_list (map oa_apportioned_ns xs)\<rparr>)"

lemma flat_key_group: "flat_key gb op = group_key gb op"
  by (simp add: flat_key_def group_key_def kind_key_def split: op_group_by.split option.split)

lemma first_known_Cons: "first_known (x # xs) = or_first x (first_known xs)"
  by (cases x) (simp_all add: first_known_def or_first_def)

lemma or_first_assoc: "or_first (or_first a b) c = or_first a (or_first b c)"
  by (simp add: or_first_def split: option.split)

lemma or_first_None [simp]: "or_first None b = b" "or_first a None = a"
  by (simp_all add: or_first_def split: option.split)

lemma flat_slot_fold:
  "foldl (\<lambda>v op. case v of (g, n, s, k, a) \<Rightarrow>
      (g + oa_gpu_ns op, n + oa_count op, or_first s (oa_symbol op), or_first k (oa_kind op),
       a + oa_apportioned_ns op)) (g0, n0, s0, k0, a0) xs =
    (g0 + sum_list (map oa_gpu_ns xs), n0 + sum_list (map oa_count xs),
     or_first s0 (first_known (map oa_symbol xs)), or_first k0 (first_known (map oa_kind xs)),
     a0 + sum_list (map oa_apportioned_ns xs))"
  by (induction xs arbitrary: g0 n0 s0 k0 a0)
    (simp_all add: add.assoc first_known_Cons or_first_assoc, simp add: first_known_def)

lemma flat_rows_of_keys:
  "flat_row gb ` set (foldl (flat_step gb) [] ops) = row_of_key gb ops ` group_key gb ` set ops"
proof -
  let ?agg = "foldl (flat_step gb) [] ops"
  have d: "distinct (map fst ?agg)" by (rule flat_table.distinct_run) simp
  have slot: "map_of ?agg k = (if k \<in> group_key gb ` set ops
      then Some (snd (k, foldl (\<lambda>v op. case v of (g, n, s, k, a) \<Rightarrow>
        (g + oa_gpu_ns op, n + oa_count op, or_first s (oa_symbol op), or_first k (oa_kind op),
         a + oa_apportioned_ns op)) (0, 0, None, None, 0) (filter (\<lambda>op. group_key gb op = k) ops)))
      else None)" for k
    by (auto simp: flat_table.slot_run flat_key_group filter_empty_conv)
  have row: "flat_row gb (k, v) = row_of_key gb ops k" if "map_of ?agg k = Some v" for k v
    using that unfolding slot flat_slot_fold
    by (auto simp: flat_row_def row_of_key_def Let_def split: if_splits op_group_by.split)
  have mem: "(k, v) \<in> set ?agg \<longleftrightarrow> map_of ?agg k = Some v" for k v
    using d by simp
  show ?thesis
  proof (intro equalityI subsetI)
    fix r
    assume "r \<in> flat_row gb ` set ?agg"
    then obtain k v where "map_of ?agg k = Some v" "r = flat_row gb (k, v)" using mem by auto
    then show "r \<in> row_of_key gb ops ` group_key gb ` set ops" using row slot by (auto split: if_splits)
  next
    fix r
    assume "r \<in> row_of_key gb ops ` group_key gb ` set ops"
    then obtain k where k: "k \<in> group_key gb ` set ops" "r = row_of_key gb ops k" by blast
    then obtain v where v: "map_of ?agg k = Some v" using slot by simp
    with row k mem show "r \<in> flat_row gb ` set ?agg" by (metis image_eqI)
  qed
qed

section \<open>Grouping by kind\<close>

lemma regroup_sum: "sum_list (map oa_gpu_ns (regroup_ops_by_kind ops)) = sum_list (map oa_gpu_ns ops)"
proof -
  have "oa_gpu_ns \<circ> regroup_row = fst \<circ> snd"
    by (simp add: regroup_row_def case_prod_unfold fun_eq_iff)
  then have "sum_list (map oa_gpu_ns (regroup_ops_by_kind ops)) =
      alist_sum fst (foldl regroup_step [] ops)"
    by (simp add: regroup_ops_by_kind_def sort_ops_def alist_sum_def)
  then show ?thesis using kind_table.time_run [of "[]" ops] by simp
qed

lemma kind_balanced:
  "tree_all ops_balanced t \<Longrightarrow> tree_all ops_balanced (apply_op_group_by gb t)"
proof (cases gb)
  case ByKind
  assume "tree_all ops_balanced t"
  then have "tree_all ops_balanced (apply_op_group_by ByKind t)"
  proof (induction t)
    case (ModuleBreakdown q c k s t ev cb ch ops dg fl)
    then show ?case by (auto simp: list_all_iff regroup_sum)
  qed
  with ByKind show ?thesis by simp
qed simp

text \<open>The rows do not depend on the order of the ops.\<close>

definition kind_slot_of :: "op_attribution list \<Rightarrow> string \<Rightarrow> kind_slot" where
  "kind_slot_of ops k =
     (let xs = filter (\<lambda>op. kind_key op = k) ops
      in (sum_list (map oa_gpu_ns xs), sum_list (map oa_count xs),
          sum_list (map oa_apportioned_ns xs),
          if \<exists>op \<in> set xs. oa_kind op \<noteq> None then Some k else None))"

lemma kind_slot_fold:
  assumes "\<forall>op \<in> set xs. oa_kind op = None \<or> oa_kind op = Some k"
  shows "foldl (\<lambda>v op. case v of (g, n, a, kd) \<Rightarrow>
      (g + oa_gpu_ns op, n + oa_count op, a + oa_apportioned_ns op, or_first kd (oa_kind op)))
      (g0, n0, a0, kd0) xs =
    (g0 + sum_list (map oa_gpu_ns xs), n0 + sum_list (map oa_count xs),
     a0 + sum_list (map oa_apportioned_ns xs),
     or_first kd0 (if \<exists>op \<in> set xs. oa_kind op \<noteq> None then Some k else None))"
  using assms
  by (induction xs arbitrary: g0 n0 a0 kd0)
    (auto simp: add.assoc or_first_def split: option.splits)

lemma regroup_slots:
  "map_of (foldl regroup_step [] ops) k =
     (if k \<in> kind_key ` set ops then Some (kind_slot_of ops k) else None)"
proof -
  let ?xs = "filter (\<lambda>op. kind_key op = k) ops"
  have "\<forall>op \<in> set ?xs. oa_kind op = None \<or> oa_kind op = Some k"
    by (auto simp: kind_key_def split: option.splits)
  note fold = kind_slot_fold [OF this, of 0 0 0 None]
  have "?xs = [] \<longleftrightarrow> k \<notin> kind_key ` set ops" by (auto simp: filter_empty_conv)
  with fold show ?thesis
    by (simp add: kind_table.slot_run kind_slot_of_def or_first_def Let_def)
qed

lemma kind_slot_of_perm:
  assumes "mset ops = mset ops'"
  shows "kind_slot_of ops k = kind_slot_of ops' k"
proof -
  have m: "mset (filter P ops) = mset (filter P ops')" for P using assms by (simp add: mset_filter)
  then have "set (filter P ops) = set (filter P ops')" for P by (rule mset_eq_setD)
  with m show ?thesis
    unfolding kind_slot_of_def Let_def by (simp only: sum_list_mset_cong [OF m])
qed

lemma regroup_perm:
  assumes "mset ops = mset ops'"
  shows "regroup_ops_by_kind ops = regroup_ops_by_kind ops'"
proof -
  let ?a = "foldl regroup_step [] ops" and ?b = "foldl regroup_step [] ops'"
  have d: "distinct (map fst ?a)" "distinct (map fst ?b)"
    by (simp_all add: kind_table.distinct_run)
  have "map_of ?a = map_of ?b"
    using mset_eq_setD [OF assms]
    by (intro ext) (simp add: regroup_slots kind_slot_of_perm [OF assms])
  then have "set ?a = set ?b" by (rule map_of_inject_set [OF d, THEN iffD1])
  moreover have "distinct ?a" "distinct ?b" using d by (simp_all add: distinct_map)
  ultimately have "mset ?a = mset ?b" by (simp add: set_eq_iff_mset_eq_distinct)
  then have m: "mset (map regroup_row ?a) = mset (map regroup_row ?b)" by simp
  have "inj_on oa_name (set (map regroup_row ?a))"
    using d(1) by (auto simp: inj_on_def regroup_row_def dest: eq_key_imp_eq_value)
  then have "inj_on (\<lambda>r. (desc (oa_gpu_ns r), oa_name r)) (set (map regroup_row ?a))"
    by (auto simp: inj_on_def)
  from sort_key_perm_eq [OF m this] show ?thesis
    by (simp add: regroup_ops_by_kind_def sort_ops_def)
qed

section \<open>The field filter\<close>

text \<open>The filter only changes \<open>children\<close>; this is all the rest of a node.\<close>

definition node_data :: "module_breakdown \<Rightarrow> string \<times> string \<times> u64 \<times> u64 \<times> u64 \<times> op_attribution list \<times> fields" where
  "node_data t = (mb_qualname t, mb_class_name t, mb_gpu_ns_self t, mb_gpu_ns_subtree t,
     mb_cb_count t, mb_ops t, mb_fields t)"

definition matching :: "fields \<Rightarrow> module_breakdown \<Rightarrow> module_breakdown list" where
  "matching flt t = filter (\<lambda>n. matches_filter flt (mb_fields n)) (tree_nodes t)"

definition kept_ok :: "fields \<Rightarrow> module_breakdown \<Rightarrow> bool" where
  "kept_ok flt t \<longleftrightarrow> matching flt t \<noteq> []"

lemma matching_simp:
  "matching flt (ModuleBreakdown q c k s t ev cb ch ops dg fl) =
     (if matches_filter flt fl then [ModuleBreakdown q c k s t ev cb ch ops dg fl] else []) @
     concat (map (matching flt) ch)"
proof -
  have "matching flt = (\<lambda>t. filter (\<lambda>n. matches_filter flt (mb_fields n)) (tree_nodes t))"
    by (rule ext) (simp add: matching_def)
  then show ?thesis by (simp add: filter_concat comp_def)
qed

lemma prune_spec:
  assumes "prune_by_field_filter flt t = (t', m)"
  shows "m \<longleftrightarrow> matching flt t \<noteq> []"
    and "map node_data (matching flt t') = map node_data (matching flt t)"
    and "list_all (tree_all (kept_ok flt)) (mb_children t')"
    and "node_data t' = node_data t"
proof -
  have "(snd (prune_by_field_filter flt t) \<longleftrightarrow> matching flt t \<noteq> []) \<and>
      map node_data (matching flt (fst (prune_by_field_filter flt t))) =
        map node_data (matching flt t) \<and>
      list_all (tree_all (kept_ok flt)) (mb_children (fst (prune_by_field_filter flt t))) \<and>
      node_data (fst (prune_by_field_filter flt t)) = node_data t"
  proof (induction t)
    case (ModuleBreakdown q c k s t ev cb ch ops dg fl)
    let ?p = "prune_by_field_filter flt"
    let ?kept = "map fst (filter snd (map ?p ch))"
    have IH: "snd (?p x) \<longleftrightarrow> matching flt x \<noteq> []"
      "map node_data (matching flt (fst (?p x))) = map node_data (matching flt x)"
      "list_all (tree_all (kept_ok flt)) (mb_children (fst (?p x)))" if "x \<in> set ch" for x
      using ModuleBreakdown.IH [OF that] by simp_all
    have any: "?kept \<noteq> [] \<longleftrightarrow> concat (map (matching flt) ch) \<noteq> []"
      using IH(1) by (auto simp: filter_empty_conv)
    have "map node_data (concat (map (matching flt) (map fst (filter snd (map ?p xs))))) =
        map node_data (concat (map (matching flt) xs))" if "set xs \<subseteq> set ch" for xs
      using that
    proof (induction xs)
      case Nil
      then show ?case by simp
    next
      case (Cons x xs)
      then show ?case using IH(1,2) [of x] by auto
    qed
    from this [of ch] have keep: "map node_data (concat (map (matching flt) ?kept)) =
        map node_data (concat (map (matching flt) ch))" by simp
    have nd: "node_data (ModuleBreakdown q c k s t ev cb ?kept ops dg fl) =
        node_data (ModuleBreakdown q c k s t ev cb ch ops dg fl)"
      by (simp add: node_data_def)
    have "list_all (tree_all (kept_ok flt)) ?kept"
      unfolding list_all_iff
    proof
      fix y
      assume "y \<in> set ?kept"
      then obtain x where x: "x \<in> set ch" "snd (?p x)" "y = fst (?p x)" by auto
      with IH [OF x(1)] have "kept_ok flt y"
        by (metis kept_ok_def list.map_disc_iff)
      with IH(3) [OF x(1)] x(3) show "tree_all (kept_ok flt) y" by (subst tree_all_alt) simp
    qed
    with any keep nd show ?case by (auto simp: Let_def matching_simp)
  qed
  with assms show "m \<longleftrightarrow> matching flt t \<noteq> []"
    and "map node_data (matching flt t') = map node_data (matching flt t)"
    and "list_all (tree_all (kept_ok flt)) (mb_children t')"
    and "node_data t' = node_data t" by simp_all
qed

section \<open>Properties\<close>

text \<open>
  C8. The flat op table of any tree, grouped by name or by kind: one row per key that occurs among
  the ops of all the nodes of the tree, holding the sums of the times, counts and apportioned times
  of exactly the ops with that key and the first symbol (by name only) and kind known for them;
  heaviest first, ties by key.  The times of the rows add up to those of all the ops of the tree.
\<close>

theorem flat_rows_exact:
  "set (aggregate_ops_flat rt gb) = row_of_key gb (tree_ops rt) ` group_key gb ` set (tree_ops rt) \<and>
   distinct (map fr_key (aggregate_ops_flat rt gb)) \<and>
   sorted (map (\<lambda>r. (desc (fr_gpu_ns r), fr_key r)) (aggregate_ops_flat rt gb)) \<and>
   sum_list (map fr_gpu_ns (aggregate_ops_flat rt gb)) = sum_list (map oa_gpu_ns (tree_ops rt))"
proof -
  let ?agg = "foldl (flat_step gb) [] (tree_ops rt)"
  have key: "fr_key \<circ> flat_row gb = fst" and time: "fr_gpu_ns \<circ> flat_row gb = fst \<circ> snd"
    by (simp_all add: flat_row_def case_prod_unfold fun_eq_iff)
  have "mset (map fr_key (aggregate_ops_flat rt gb)) = mset (map fst ?agg)"
    by (simp only: aggregate_ops_flat_def flat_walk_ops mset_map mset_sort image_mset.compositionality key)
  moreover have "distinct (map fst ?agg)" by (rule flat_table.distinct_run) simp
  ultimately have "distinct (map fr_key (aggregate_ops_flat rt gb))"
    by (metis mset_eq_imp_distinct_iff)
  moreover have "sum_list (map fr_gpu_ns (aggregate_ops_flat rt gb)) = alist_sum fst ?agg"
    by (simp add: aggregate_ops_flat_def flat_walk_ops alist_sum_def time)
  then have "sum_list (map fr_gpu_ns (aggregate_ops_flat rt gb)) = sum_list (map oa_gpu_ns (tree_ops rt))"
    using flat_table.time_run [of "[]" gb "tree_ops rt"] by simp
  moreover have "set (aggregate_ops_flat rt gb) = row_of_key gb (tree_ops rt) ` group_key gb ` set (tree_ops rt)"
    using flat_rows_of_keys [of gb "tree_ops rt"] by (simp add: aggregate_ops_flat_def flat_walk_ops)
  ultimately show ?thesis by (simp add: aggregate_ops_flat_def)
qed

text \<open>
  The flat op table of a captured session accounts for all its GPU time: its rows add up to the
  time of the completed command buffers, when the module calls have distinct ids and every parent
  enters before its children.
\<close>

theorem flat_rows_total:
  assumes "es \<noteq> []" and "distinct (entered_ids (clamped_events es))"
    and "parents_first (clamped_events es)"
    and "cc_seen_any_cb_ops (completed_command_buffers (clamped_events es))"
  shows "\<exists>rt. compute es = Some (Inr rt) \<and>
    distinct (map fr_key (aggregate_ops_flat rt gb)) \<and>
    sorted (map (\<lambda>r. (desc (fr_gpu_ns r), fr_key r)) (aggregate_ops_flat rt gb)) \<and>
    sum_list (map fr_gpu_ns (aggregate_ops_flat rt gb)) = session_gpu_ns (clamped_events es)"
proof -
  let ?c = "clamped_events es"
  let ?rt = "root_of (attribute ?c) (sws_malformed_returns (scope_windows ?c))
      (clamped_cb_count (compute_op_time_scales es)) (call_trees ?c)"
  note walk = flat_walk_sum [of "[]" gb ?rt]
  have key: "fr_key \<circ> flat_row gb = fst" and time: "fr_gpu_ns \<circ> flat_row gb = fst \<circ> snd"
    by (simp_all add: flat_row_def case_prod_unfold fun_eq_iff)
  have "sum_list (map fr_gpu_ns (aggregate_ops_flat ?rt gb)) = alist_sum fst (flat_walk gb [] ?rt)"
    by (simp add: aggregate_ops_flat_def alist_sum_def time)
  also have "\<dots> = tree_sum mb_gpu_ns_self ?rt"
    using walk tree_sum_balanced [OF ops_balanced_tree [OF assms(4)]] by simp
  also have "\<dots> = session_gpu_ns ?c"
    using tree_sum_self [OF time_consistent_tree] call_trees_sum [OF assms(2,3)]
      attribute_conserves [of ?c] by (simp add: root_of_def add.commute)
  finally have "sum_list (map fr_gpu_ns (aggregate_ops_flat ?rt gb)) = session_gpu_ns ?c" .
  moreover have "distinct (map fr_key (aggregate_ops_flat ?rt gb))"
  proof -
    have "mset (map fr_key (aggregate_ops_flat ?rt gb)) = mset (map fst (flat_walk gb [] ?rt))"
      by (simp only: aggregate_ops_flat_def mset_map mset_sort image_mset.compositionality key)
    with walk show ?thesis by (metis distinct.simps(1) list.map(1) mset_eq_imp_distinct_iff)
  qed
  moreover have "sorted (map (\<lambda>r. (desc (fr_gpu_ns r), fr_key r)) (aggregate_ops_flat ?rt gb))"
    by (simp add: aggregate_ops_flat_def)
  ultimately show ?thesis by (simp add: compute_eq [OF assms(1)])
qed

theorem flat_rows_total_witness:
  "\<exists>rt. compute breakdown_example = Some (Inr rt) \<and>
    distinct (map fr_key (aggregate_ops_flat rt ByKind)) \<and>
    sorted (map (\<lambda>r. (desc (fr_gpu_ns r), fr_key r)) (aggregate_ops_flat rt ByKind)) \<and>
    sum_list (map fr_gpu_ns (aggregate_ops_flat rt ByKind)) =
      session_gpu_ns (clamped_events breakdown_example)"
proof (rule flat_rows_total)
  show "breakdown_example \<noteq> []" by (simp add: breakdown_example_def)
  show "distinct (entered_ids (clamped_events breakdown_example))"
    unfolding example_clamp by (simp add: breakdown_example_def)
  show "parents_first (clamped_events breakdown_example)"
    unfolding example_clamp
    by (simp add: parents_first_def breakdown_example_def parent_of_def upt_rec)
  show "cc_seen_any_cb_ops (completed_command_buffers (clamped_events breakdown_example))"
    unfolding example_clamp by (rule example_captured)
qed

text \<open>
  Grouping a node's ops by kind is independent of the order in which the ops come out of
  the hash map: any permutation of the ops gives the same rows in the same order.
\<close>

theorem regroup_order_independent:
  assumes "mset ops = mset ops'"
  shows "regroup_ops_by_kind ops = regroup_ops_by_kind ops'"
  by (rule regroup_perm [OF assms])

theorem regroup_order_independent_witness:
  "regroup_ops_by_kind [into_attribution (agg_default\<lparr>ag_gpu_ns := 4\<rparr>) ''a'',
     into_attribution (agg_default\<lparr>ag_gpu_ns := 4\<rparr>) ''b''] =
   regroup_ops_by_kind [into_attribution (agg_default\<lparr>ag_gpu_ns := 4\<rparr>) ''b'',
     into_attribution (agg_default\<lparr>ag_gpu_ns := 4\<rparr>) ''a'']"
  by (rule regroup_order_independent) simp

text \<open>
  The field filter reports a match exactly when some node of the tree matches, loses no
  matching node, changes nothing but child lists, and keeps below the root only nodes that
  match or lead to a match.
\<close>

theorem prune_by_field_filter_spec:
  "(\<lambda>(t', m). (m \<longleftrightarrow> matching flt t \<noteq> []) \<and>
     map node_data (matching flt t') = map node_data (matching flt t) \<and>
     list_all (tree_all (kept_ok flt)) (mb_children t') \<and> node_data t' = node_data t)
   (prune_by_field_filter flt t)"
  using prune_spec [of flt t] by (cases "prune_by_field_filter flt t") auto

end
