(* ===== verification/TableRows.thy ===== *)
theory TableRows
  imports OpRowsFacts "HOL-Library.Sublist"
begin

text \<open>
  \<open>render_table\<close> shows the heaviest rows and their ancestors in tree order; the marking loop
  that stops at the first marked ancestor computes exactly that set.
\<close>

section \<open>Parents stand before their children\<close>

definition parent_row :: "table_row list \<Rightarrow> nat \<Rightarrow> nat \<Rightarrow> bool" where
  "parent_row tree p c \<longleftrightarrow> c < length tree \<and> snd (snd (tree ! c)) = Some p"

definition parents_before :: "table_row list \<Rightarrow> bool" where
  "parents_before tree \<longleftrightarrow> (\<forall>p c. parent_row tree p c \<longrightarrow> p < c)"

section \<open>Paths\<close>

text \<open>
  The nodes below the root in tree order, each with its path: the indexes of the children taken
  from the root down to it.  A node is an ancestor of another when its path is a prefix.
\<close>

fun numbered :: "nat list \<Rightarrow> module_breakdown \<Rightarrow> (nat list \<times> module_breakdown) list"
  and numbered_list :: "nat list \<Rightarrow> nat \<Rightarrow> module_breakdown list \<Rightarrow> (nat list \<times> module_breakdown) list"
where
  "numbered pos (ModuleBreakdown q c k s t ev cb ch ops dg flds) =
     (pos, ModuleBreakdown q c k s t ev cb ch ops dg flds) # numbered_list pos 0 ch"
| "numbered_list pos i [] = []"
| "numbered_list pos i (c # cs) = numbered (pos @ [i]) c @ numbered_list pos (Suc i) cs"

definition shown :: "u16 \<Rightarrow> nat list \<times> module_breakdown \<Rightarrow> bool" where
  "shown max_depth e \<longleftrightarrow> length (fst e) \<le> Suc (unat max_depth)"

definition shown_nodes :: "u16 \<Rightarrow> module_breakdown \<Rightarrow> (nat list \<times> module_breakdown) list" where
  "shown_nodes max_depth rt = filter (shown max_depth) (numbered_list [] 0 (mb_children rt))"

lemma numbered_below:
  "e \<in> set (numbered pos t) \<Longrightarrow> prefix pos (fst e)"
  "e \<in> set (numbered_list pos i cs) \<Longrightarrow> \<exists>k \<ge> i. prefix (pos @ [k]) (fst e)"
proof (induction pos t and pos i cs arbitrary: e and e rule: numbered_numbered_list.induct)
  case (1 pos q c k s t ev cb ch ops dg flds)
  then show ?case by (cases e) (force dest: append_prefixD)
next
  case (3 pos i c cs)
  have e: "e \<in> set (numbered (pos @ [i]) c) \<or> e \<in> set (numbered_list pos (Suc i) cs)"
    using "3.prems" by simp
  then show ?case
  proof
    assume "e \<in> set (numbered (pos @ [i]) c)"
    with "3.IH"(1) show ?thesis by blast
  next
    assume "e \<in> set (numbered_list pos (Suc i) cs)"
    with "3.IH"(2) show ?thesis by (meson Suc_leD)
  qed
qed simp

lemma numbered_distinct:
  "distinct (map fst (numbered pos t))"
  "distinct (map fst (numbered_list pos i cs))"
proof (induction pos t and pos i cs rule: numbered_numbered_list.induct)
  case (1 pos q c k s t ev cb ch ops dg flds)
  have "pos \<notin> fst ` set (numbered_list pos 0 ch)"
    by (auto dest!: numbered_below(2) dest: prefix_length_le)
  with 1 show ?case by simp
next
  case (3 pos i c cs)
  have "fst e \<noteq> fst e'" if "e \<in> set (numbered (pos @ [i]) c)" "e' \<in> set (numbered_list pos (Suc i) cs)" for e e'
    using numbered_below(1) [OF that(1)] numbered_below(2) [OF that(2)]
    by (auto simp: prefix_def)
  with 3 show ?case by fastforce
qed simp

text \<open>The rows of \<open>render_table\<close> follow the paths: a row's parent is the row of its path cut by one.\<close>

definition linked :: "(nat list \<times> module_breakdown) list \<Rightarrow> table_row list \<Rightarrow> bool" where
  "linked ns rows \<longleftrightarrow>
     length rows = length ns \<and>
     (\<forall>j < length ns. fst (ns ! j) \<noteq> [] \<and>
        fst (rows ! j) = of_nat (length (fst (ns ! j)) - 1) \<and> fst (snd (rows ! j)) = snd (ns ! j) \<and>
        (case snd (snd (rows ! j)) of
           None \<Rightarrow> length (fst (ns ! j)) = 1
         | Some i \<Rightarrow> i < j \<and> fst (ns ! i) \<noteq> [] \<and> fst (ns ! i) = butlast (fst (ns ! j))))"

definition parent_ok :: "(nat list \<times> module_breakdown) list \<Rightarrow> nat list \<Rightarrow> nat option \<Rightarrow> bool" where
  "parent_ok ns pos par \<longleftrightarrow>
     pos \<noteq> [] \<and>
     (case par of
        None \<Rightarrow> length pos = 1
      | Some i \<Rightarrow> i < length ns \<and> fst (ns ! i) \<noteq> [] \<and> fst (ns ! i) = butlast pos)"

lemma linked_snoc:
  "linked ns rows \<Longrightarrow> parent_ok ns pos par \<Longrightarrow>
     linked (ns @ [(pos, n)]) (rows @ [(of_nat (length pos - 1), n, par)])"
  unfolding linked_def
proof (intro conjI allI impI)
  fix j
  assume l: "length rows = length ns \<and> (\<forall>j < length ns. fst (ns ! j) \<noteq> [] \<and>
        fst (rows ! j) = of_nat (length (fst (ns ! j)) - 1) \<and> fst (snd (rows ! j)) = snd (ns ! j) \<and>
        (case snd (snd (rows ! j)) of
           None \<Rightarrow> length (fst (ns ! j)) = 1
         | Some i \<Rightarrow> i < j \<and> fst (ns ! i) \<noteq> [] \<and> fst (ns ! i) = butlast (fst (ns ! j))))"
    and p: "parent_ok ns pos par" and j: "j < length (ns @ [(pos, n)])"
  let ?ns = "ns @ [(pos, n)]" and ?rows = "rows @ [(of_nat (length pos - 1), n, par)]"
  have len: "length rows = length ns" using l ..
  have "fst (?ns ! j) \<noteq> [] \<and> fst (?rows ! j) = of_nat (length (fst (?ns ! j)) - 1) \<and>
      fst (snd (?rows ! j)) = snd (?ns ! j) \<and>
      (case snd (snd (?rows ! j)) of
         None \<Rightarrow> length (fst (?ns ! j)) = 1
       | Some i \<Rightarrow> i < j \<and> fst (?ns ! i) \<noteq> [] \<and> fst (?ns ! i) = butlast (fst (?ns ! j)))"
  proof (cases "j = length ns")
    case True
    with p len show ?thesis by (auto simp: parent_ok_def nth_append split: option.split)
  next
    case False
    with j have "j < length ns" by simp
    with l len show ?thesis by (auto simp: nth_append split: option.split option.split_asm)
  qed
  then show "fst (?ns ! j) \<noteq> []" "fst (?rows ! j) = of_nat (length (fst (?ns ! j)) - 1)"
    "fst (snd (?rows ! j)) = snd (?ns ! j)"
    "case snd (snd (?rows ! j)) of
       None \<Rightarrow> length (fst (?ns ! j)) = 1
     | Some i \<Rightarrow> i < j \<and> fst (?ns ! i) \<noteq> [] \<and> fst (?ns ! i) = butlast (fst (?ns ! j))"
    by blast+
qed simp

lemma parent_ok_append: "parent_ok ns pos par \<Longrightarrow> parent_ok (ns @ ms) pos par"
  by (auto simp: parent_ok_def nth_append split: option.splits)

lemma deep_unshown:
  "\<not> shown m (pos, n) \<Longrightarrow> filter (shown m) (numbered pos t) = []"
  by (auto simp: filter_empty_conv shown_def dest!: numbered_below(1) prefix_length_le)

lemma shown_depth:
  assumes "max_depth < 65535" and "pos \<noteq> []" and "length pos \<le> unat max_depth + 2"
  shows "max_depth < of_nat (length pos - 1) \<longleftrightarrow> \<not> shown max_depth (pos, n)"
proof -
  have "unat max_depth < 65535" using assms(1) by (simp add: word_less_nat_alt)
  with assms(3) have "unat (of_nat (length pos - 1) :: u16) = length pos - 1" by (simp add: unat_of_nat)
  with assms(2) show ?thesis by (cases pos) (auto simp: word_less_nat_alt shown_def)
qed

lemma walk_linked:
  assumes m: "max_depth < 65535"
  shows "linked ns out \<Longrightarrow> parent_ok ns pos par \<Longrightarrow> length pos \<le> unat max_depth + 2 \<Longrightarrow>
    linked (ns @ filter (shown max_depth) (numbered pos t))
      (table_walk (of_nat (length pos - 1)) par max_depth out t)"
proof (induction t arbitrary: ns out pos par)
  case (ModuleBreakdown q c k s t ev cb ch ops dg fl)
  let ?t = "ModuleBreakdown q c k s t ev cb ch ops dg fl"
  have pos: "pos \<noteq> []" using ModuleBreakdown.prems(2) by (simp add: parent_ok_def)
  note cut = shown_depth [OF m pos ModuleBreakdown.prems(3), of ?t]
  show ?case
  proof (cases "shown max_depth (pos, ?t)")
    case False
    with deep_unshown [OF False, of ?t] cut ModuleBreakdown.prems(1) show ?thesis by simp
  next
    case True
    have depth: "(of_nat (length pos - Suc 0) :: u16) + 1 = of_nat (length pos)"
      using pos by (cases pos) simp_all
    have children: "linked (ns' @ filter (shown max_depth) (numbered_list pos i xs))
        (foldl (table_walk (of_nat (length pos)) (Some (length out)) max_depth) out' xs)"
      if "linked ns' out'" "length out < length ns'" "fst (ns' ! length out) = pos" "set xs \<subseteq> set ch"
      for ns' out' i xs
      using that
    proof (induction xs arbitrary: ns' out' i)
      case (Cons x xs)
      have x: "x \<in> set ch" using Cons.prems(4) by simp
      have "parent_ok ns' (pos @ [i]) (Some (length out))"
        using Cons.prems(2,3) pos by (simp add: parent_ok_def)
      moreover have "length (pos @ [i]) \<le> unat max_depth + 2" using True by (simp add: shown_def)
      ultimately have "linked (ns' @ filter (shown max_depth) (numbered (pos @ [i]) x))
          (table_walk (of_nat (length pos)) (Some (length out)) max_depth out' x)"
        using ModuleBreakdown.IH [OF x Cons.prems(1), of "pos @ [i]" "Some (length out)"] by simp
      from Cons.IH [OF this] Cons.prems(2-4) show ?case by (simp add: nth_append)
    qed simp
    have len: "length out = length ns" using ModuleBreakdown.prems(1) by (simp add: linked_def)
    from linked_snoc [OF ModuleBreakdown.prems(1,2), of ?t]
      children [of "ns @ [(pos, ?t)]" "out @ [(of_nat (length pos - 1), ?t, par)]" ch 0] len
    show ?thesis using True cut by (simp add: depth)
  qed
qed

lemma tree_linked:
  assumes "max_depth < 65535"
  shows "linked (shown_nodes max_depth rt) (table_tree max_depth rt)"
proof -
  have "linked (ns @ filter (shown max_depth) (numbered_list [] i ts))
      (foldl (table_walk 0 None max_depth) out ts)" if "linked ns out" for ns out i ts
    using that
  proof (induction ts arbitrary: ns out i)
    case (Cons t ts)
    have "parent_ok ns [i] None" by (simp add: parent_ok_def)
    from walk_linked [OF assms Cons.prems this, of t]
    have "linked (ns @ filter (shown max_depth) (numbered [i] t)) (table_walk 0 None max_depth out t)" by simp
    from Cons.IH [OF this] show ?case by simp
  qed simp
  from this [of "[]" "[]" 0 "mb_children rt"] show ?thesis
    by (simp add: linked_def shown_nodes_def table_tree_def)
qed

lemma linked_parent:
  assumes "linked ns rows" and "parent_row rows x y"
  shows "x < y" and "fst (ns ! x) = butlast (fst (ns ! y))"
proof -
  have "y < length ns" using assms by (simp add: linked_def parent_row_def)
  with assms(1) have "case snd (snd (rows ! y)) of None \<Rightarrow> length (fst (ns ! y)) = 1
      | Some i \<Rightarrow> i < y \<and> fst (ns ! i) \<noteq> [] \<and> fst (ns ! i) = butlast (fst (ns ! y))"
    unfolding linked_def by blast
  with assms(2) show "x < y" and "fst (ns ! x) = butlast (fst (ns ! y))"
    by (simp_all add: parent_row_def)
qed

lemma linked_parents: "linked ns rows \<Longrightarrow> parents_before rows"
  using linked_parent(1) unfolding parents_before_def by blast

lemma linked_ancestors:
  assumes l: "linked ns rows" and d: "distinct (map fst ns)" and j: "j < length ns"
  shows "i < length ns \<and> (parent_row rows)\<^sup>*\<^sup>* i j \<longleftrightarrow> i < length ns \<and> prefix (fst (ns ! i)) (fst (ns ! j))"
proof
  from l have len: "length rows = length ns" by (simp add: linked_def)
  note up = linked_parent(2) [OF l]
  assume a: "i < length ns \<and> (parent_row rows)\<^sup>*\<^sup>* i j"
  then have "(parent_row rows)\<^sup>*\<^sup>* i j" ..
  then have "prefix (fst (ns ! i)) (fst (ns ! j))"
  proof (induction rule: rtranclp_induct)
    case (step y z)
    with up [OF step.hyps(2)] show ?case
      using prefix_order.order_trans [OF step.IH [unfolded up [OF step.hyps(2)]] prefixeq_butlast] by simp
  qed simp
  with a show "i < length ns \<and> prefix (fst (ns ! i)) (fst (ns ! j))" by blast
next
  assume i: "i < length ns \<and> prefix (fst (ns ! i)) (fst (ns ! j))"
  from l have len: "length rows = length ns" by (simp add: linked_def)
  have ne: "fst (ns ! i) \<noteq> []" using l i by (simp add: linked_def)
  from j i have "(parent_row rows)\<^sup>*\<^sup>* i j"
  proof (induction j rule: less_induct)
    case (less j)
    show ?case
    proof (cases "i = j")
      case False
      with less.prems d have neq: "fst (ns ! i) \<noteq> fst (ns ! j)"
        by (simp add: distinct_conv_nth)
      obtain us where us: "fst (ns ! j) = fst (ns ! i) @ us" "us \<noteq> []"
        using less.prems(2) neq by (auto simp: prefix_def)
      then have long: "length (fst (ns ! j)) \<noteq> 1" using ne by (cases "fst (ns ! i)"; cases us) auto
      have row: "case snd (snd (rows ! j)) of None \<Rightarrow> length (fst (ns ! j)) = 1
          | Some i \<Rightarrow> i < j \<and> fst (ns ! i) \<noteq> [] \<and> fst (ns ! i) = butlast (fst (ns ! j))"
        using l less.prems(1) by (simp add: linked_def)
      with long obtain p where p: "snd (snd (rows ! j)) = Some p" "p < j"
        "fst (ns ! p) = butlast (fst (ns ! j))" by (cases "snd (snd (rows ! j))") auto
      then have "prefix (fst (ns ! i)) (fst (ns ! p))" using us by (simp add: butlast_append)
      with less.IH [OF p(2)] less.prems i have "(parent_row rows)\<^sup>*\<^sup>* i p" using p(2) by simp
      moreover have "parent_row rows p j" using p(1) less.prems(1) len by (simp add: parent_row_def)
      ultimately show ?thesis by (rule rtranclp.rtrancl_into_rtrancl)
    qed simp
  qed
  with i show "i < length ns \<and> (parent_row rows)\<^sup>*\<^sup>* i j" by blast
qed

section \<open>Marking\<close>

definition closed_upto :: "table_row list \<Rightarrow> bool list \<Rightarrow> nat \<Rightarrow> bool" where
  "closed_upto tree keep m \<longleftrightarrow>
     (\<forall>j < m. keep ! j \<longrightarrow> (\<forall>i. (parent_row tree)\<^sup>*\<^sup>* i j \<longrightarrow> keep ! i))"

lemma ancestors:
  "(parent_row tree)\<^sup>*\<^sup>* i j \<longleftrightarrow> i = j \<or> (\<exists>p. parent_row tree p j \<and> (parent_row tree)\<^sup>*\<^sup>* i p)"
  by (metis rtranclp.cases rtranclp.rtrancl_into_rtrancl rtranclp.rtrancl_refl)

lemma ancestor_le: "parents_before tree \<Longrightarrow> (parent_row tree)\<^sup>*\<^sup>* i j \<Longrightarrow> i \<le> j"
  by (rotate_tac, induction rule: rtranclp_induct) (auto simp: parents_before_def dest: less_imp_le order_trans)

lemma keep_up_marks:
  assumes "parents_before tree" and "length keep = length tree"
    and "closed_upto tree keep (Suc j)" and "j < k" and "j < length tree"
  shows "length (keep_up k tree keep (Some j)) = length tree \<and>
    (\<forall>i. keep_up k tree keep (Some j) ! i \<longleftrightarrow>
       keep ! i \<or> i < length tree \<and> (parent_row tree)\<^sup>*\<^sup>* i j)"
  using assms(2-)
proof (induction k arbitrary: keep j)
  case 0
  then show ?case by simp
next
  case (Suc k)
  show ?case
  proof (cases "keep ! j")
    case True
    with Suc.prems show ?thesis by (auto simp: closed_upto_def)
  next
    case False
    let ?keep = "keep[j := True]"
    have nth: "?keep ! i \<longleftrightarrow> keep ! i \<or> i = j" for i
      using Suc.prems by (auto simp: nth_list_update)
    show ?thesis
    proof (cases "snd (snd (tree ! j))")
      case None
      then have "\<not> parent_row tree p j" for p by (simp add: parent_row_def)
      then have "(parent_row tree)\<^sup>*\<^sup>* i j \<longleftrightarrow> i = j" for i using ancestors [of tree i j] by blast
      with None False nth Suc.prems show ?thesis by (cases k) auto
    next
      case (Some p)
      then have par: "parent_row tree x j \<longleftrightarrow> x = p" for x
        using Suc.prems(4) by (auto simp: parent_row_def)
      then have "p < j" using assms(1) by (auto simp: parents_before_def)
      have "closed_upto tree ?keep (Suc p)"
        unfolding closed_upto_def nth
      proof (intro allI impI)
        fix b a
        assume b: "b < Suc p" "keep ! b \<or> b = j" and ab: "(parent_row tree)\<^sup>*\<^sup>* a b"
        with \<open>p < j\<close> have "b < Suc j" "keep ! b" by auto
        with Suc.prems(2) ab show "keep ! a \<or> a = j" unfolding closed_upto_def by blast
      qed
      from Suc.IH [OF _ this] \<open>p < j\<close> Suc.prems
      have IH: "length (keep_up k tree ?keep (Some p)) = length tree"
        "\<And>i. keep_up k tree ?keep (Some p) ! i \<longleftrightarrow>
          ?keep ! i \<or> i < length tree \<and> (parent_row tree)\<^sup>*\<^sup>* i p" by simp_all
      have "(parent_row tree)\<^sup>*\<^sup>* i j \<longleftrightarrow> i = j \<or> (parent_row tree)\<^sup>*\<^sup>* i p" for i
        unfolding ancestors [of tree i j] par by simp
      with IH nth False Some Suc.prems(4) show ?thesis by auto
    qed
  qed
qed

definition upward :: "table_row list \<Rightarrow> nat list \<Rightarrow> nat \<Rightarrow> bool" where
  "upward tree js i \<longleftrightarrow> (\<exists>j \<in> set js. (parent_row tree)\<^sup>*\<^sup>* i j)"

lemma marks_fold:
  assumes "parents_before tree" and "\<forall>j \<in> set js. j < length tree"
  shows "length (foldl (\<lambda>keep i. keep_up (Suc (length tree)) tree keep (Some i))
      (replicate (length tree) False) js) = length tree \<and>
    (\<forall>i < length tree. foldl (\<lambda>keep i. keep_up (Suc (length tree)) tree keep (Some i))
      (replicate (length tree) False) js ! i \<longleftrightarrow> upward tree js i)"
  using assms(2)
proof (induction js rule: rev_induct)
  case Nil
  then show ?case by (simp add: upward_def)
next
  case (snoc j js)
  let ?K = "foldl (\<lambda>keep i. keep_up (Suc (length tree)) tree keep (Some i))
      (replicate (length tree) False) js"
  from snoc have IH: "length ?K = length tree" "\<And>i. i < length tree \<Longrightarrow> ?K ! i \<longleftrightarrow> upward tree js i"
    and j: "j < length tree" by simp_all
  have "closed_upto tree ?K (Suc j)"
    unfolding closed_upto_def
  proof (intro allI impI)
    fix b a
    assume b: "b < Suc j" "?K ! b" and ab: "(parent_row tree)\<^sup>*\<^sup>* a b"
    from b j have "b < length tree" by simp
    moreover from ancestor_le [OF assms(1) ab] this have "a < length tree" by simp
    ultimately show "?K ! a" using IH(2) b(2) ab unfolding upward_def
      by (meson rtranclp_trans)
  qed
  from keep_up_marks [OF assms(1) IH(1) this _ j, of "Suc (length tree)"] j IH(2)
  show ?case by (auto simp: upward_def)
qed

lemma set_by_weight: "set (by_weight tree) = {0..<length tree}"
  by (simp add: by_weight_def)

lemma table_keep_eq:
  assumes "parents_before tree"
  shows "table_keep ntop tree =
    map (upward tree (take ntop (by_weight tree))) [0..<length tree]"
proof -
  have "\<forall>j \<in> set (take ntop (by_weight tree)). j < length tree"
    using set_by_weight [of tree] by (auto dest: in_set_takeD)
  from marks_fold [OF assms this] show ?thesis
    unfolding table_keep_def by (intro nth_equalityI) simp_all
qed

lemma filter_zip_map:
  "map f (filter snd (zip xs (map P [0..<length xs]))) =
     map (\<lambda>i. f (xs ! i, True)) (filter P [0..<length xs])"
proof (induction xs rule: rev_induct)
  case Nil
  then show ?case by simp
next
  case (snoc x xs)
  have "filter P [0..<length xs] = filter (\<lambda>i. P i \<and> i < length xs) [0..<length xs]"
    by (rule filter_cong) auto
  then have "map (\<lambda>i. f ((xs @ [x]) ! i, True)) (filter P [0..<length xs]) =
      map (\<lambda>i. f (xs ! i, True)) (filter P [0..<length xs])"
    by (intro map_cong refl) (auto simp: nth_append)
  with snoc show ?case by simp
qed

section \<open>Property\<close>

text \<open>The indexes of the \<open>n\<close> heaviest nodes, an earlier one first among equals.\<close>

definition heaviest :: "nat \<Rightarrow> (nat list \<times> module_breakdown) list \<Rightarrow> nat list" where
  "heaviest n ns =
     take n (sort_key (\<lambda>i. desc (mb_gpu_ns_subtree (snd (ns ! i)))) [0..<length ns])"

lemma sort_key_agree:
  "(\<And>x. x \<in> set xs \<Longrightarrow> f x = g x) \<Longrightarrow> sort_key f xs = sort_key g xs"
proof (induction xs)
  case (Cons x xs)
  have "insort_key f y ys = insort_key g y ys" if "f y = g y" "\<forall>z \<in> set ys. f z = g z" for y ys
    using that by (induction ys) auto
  with Cons show ?case by simp
qed simp

lemma linked_weights: "linked ns rows \<Longrightarrow> take n (by_weight rows) = heaviest n ns"
proof -
  assume l: "linked ns rows"
  then have len: "length rows = length ns" by (simp add: linked_def)
  have w: "row_weight (rows ! i) = mb_gpu_ns_subtree (snd (ns ! i))" if "i < length ns" for i
    using l that by (simp add: linked_def row_weight_def)
  have "sort_key (\<lambda>i. desc (row_weight (rows ! i))) [0..<length ns] =
      sort_key (\<lambda>i. desc (mb_gpu_ns_subtree (snd (ns ! i)))) [0..<length ns]"
    by (rule sort_key_agree) (use w in auto)
  then show ?thesis by (simp add: by_weight_def heaviest_def len)
qed

lemma map_nth_filter:
  "(\<And>i. i < length xs \<Longrightarrow> f i = g (xs ! i)) \<Longrightarrow>
     map f (filter (\<lambda>i. P (xs ! i)) [0..<length xs]) = map g (filter P xs)"
proof -
  assume f: "\<And>i. i < length xs \<Longrightarrow> f i = g (xs ! i)"
  have "filter P xs = map ((!) xs) (filter (\<lambda>i. P (xs ! i)) [0..<length xs])"
    using filter_map [of P "(!) xs" "[0..<length xs]"] by (simp add: map_nth comp_def)
  with f show ?thesis by simp
qed

text \<open>
  C9. The rows of the table are the \<open>ntop\<close> heaviest nodes of the tree and all their ancestors in
  that tree, in tree order, each with its depth in it.  Nodes, depths and ancestors are those of
  the tree itself, told by the paths from the root, down to the depth limit; the limit is below
  the largest \<open>u16\<close>, at which the depth would wrap.
\<close>

theorem table_rows_select:
  assumes "max_depth < 65535"
  shows "table_rows ntop max_depth rt =
    map (\<lambda>(p, n). (of_nat (length p - 1), n))
      (filter (\<lambda>(p, n). \<exists>i \<in> set (heaviest ntop (shown_nodes max_depth rt)).
           prefix p (fst (shown_nodes max_depth rt ! i)))
        (shown_nodes max_depth rt))"
proof -
  let ?T = "table_tree max_depth rt" and ?N = "shown_nodes max_depth rt"
  have l: "linked ?N ?T" by (rule tree_linked [OF assms])
  then have len: "length ?T = length ?N" by (simp add: linked_def)
  have d: "distinct (map fst ?N)"
    unfolding shown_nodes_def using numbered_distinct(2) [of "[]" 0 "mb_children rt"]
    by (rule distinct_map_filter)
  have top: "\<forall>j \<in> set (heaviest ntop ?N). j < length ?N"
    by (auto simp: heaviest_def dest: in_set_takeD)
  let ?P = "\<lambda>e. \<exists>i \<in> set (heaviest ntop ?N). prefix (fst e) (fst (?N ! i))"
  have up: "upward ?T (take ntop (by_weight ?T)) i \<longleftrightarrow> ?P (?N ! i)" if "i < length ?N" for i
    unfolding upward_def linked_weights [OF l] using linked_ancestors [OF l d] that top by blast
  have "table_rows ntop max_depth rt =
      map (\<lambda>i. (fst (?T ! i), fst (snd (?T ! i))))
        (filter (upward ?T (take ntop (by_weight ?T))) [0..<length ?T])"
    by (simp add: table_rows_def Let_def table_keep_eq [OF linked_parents [OF l]] filter_zip_map
        case_prod_unfold)
  also have "filter (upward ?T (take ntop (by_weight ?T))) [0..<length ?T] =
      filter (\<lambda>i. ?P (?N ! i)) [0..<length ?N]"
    unfolding len by (rule filter_cong) (use up in auto)
  also have "map (\<lambda>i. (fst (?T ! i), fst (snd (?T ! i)))) (filter (\<lambda>i. ?P (?N ! i)) [0..<length ?N]) =
      map (\<lambda>(p, n). (of_nat (length p - 1), n)) (filter ?P ?N)"
    by (rule map_nth_filter) (use l in \<open>simp add: linked_def case_prod_unfold\<close>)
  finally show ?thesis by (simp add: case_prod_unfold)
qed

text \<open>A heavy child under a light parent, beside a node of middle weight: one row asked for.\<close>

definition row_node :: "string \<Rightarrow> u64 \<Rightarrow> module_breakdown list \<Rightarrow> module_breakdown" where
  "row_node q w ch = ModuleBreakdown q [] 1 0 w 0 0 ch [] None []"

definition row_tree :: module_breakdown where
  "row_tree = row_node ''<root>'' 0 [row_node ''a'' 5 [row_node ''a.x'' 9 []], row_node ''b'' 7 []]"

lemma table_rows_select_witness:
  "table_rows 1 8 row_tree =
     [(0, row_node ''a'' 5 [row_node ''a.x'' 9 []]), (1, row_node ''a.x'' 9 [])]"
proof -
  have n: "shown_nodes 8 row_tree =
      [([0], row_node ''a'' 5 [row_node ''a.x'' 9 []]), ([0, 0], row_node ''a.x'' 9 []),
       ([1], row_node ''b'' 7 [])]"
    by (simp add: shown_nodes_def row_tree_def row_node_def shown_def)
  have h: "heaviest 1 (shown_nodes 8 row_tree) = [1]"
    unfolding n by (simp add: heaviest_def upt_rec row_node_def)
  have "(8 :: u16) < 65535" by simp
  from table_rows_select [OF this, of 1 row_tree] show ?thesis unfolding h unfolding n by simp
qed

end
