(* ===== verification/ScopeTracker.thy ===== *)
theory ScopeTracker
  imports Windows
begin

text \<open>
  The bookkeeping of open and draining scopes that \<open>compute_memory_breakdown\<close> and
  \<open>compute_heap_breakdown\<close> of \<open>crates/smeltr-analyzer/src/memory.rs\<close> share: a scope stays
  open until the return that names it, then drains for the asynchronous grace, and is
  finalized once.  The locale \<open>scope_tracker\<close> states what a pass of this shape does with an
  event and proves that every call is finalized exactly once, with what it saw.
\<close>

section \<open>Data\<close>

record 'a open_scope =
  os_call_id :: u64
  os_qualname :: string
  os_accum :: 'a

record 'a draining_scope =
  ds_qualname :: string
  ds_accum :: 'a
  ds_deadline_ns :: u64

text \<open>\<open>Vec::swap_remove\<close>: the last element takes the place of the removed one.\<close>

definition swap_remove :: "nat \<Rightarrow> 'a list \<Rightarrow> 'a list" where
  "swap_remove i xs =
     (if Suc i = length xs then butlast xs else (butlast xs)[i := last xs])"

lemma length_swap_remove [simp]: "length (swap_remove i xs) = length xs - 1"
  by (simp add: swap_remove_def)

function sweep_draining ::
  "(string \<Rightarrow> 'a \<Rightarrow> 'm \<Rightarrow> 'm) \<Rightarrow> u64 \<Rightarrow> nat \<Rightarrow> 'a draining_scope list \<Rightarrow> 'm
     \<Rightarrow> 'a draining_scope list \<times> 'm"
where
  "sweep_draining fin now i dr m =
     (if i < length dr
      then (if ds_deadline_ns (dr ! i) < now
            then sweep_draining fin now i (swap_remove i dr)
                   (fin (ds_qualname (dr ! i)) (ds_accum (dr ! i)) m)
            else sweep_draining fin now (Suc i) dr m)
      else (dr, m))"
  by pat_completeness auto
termination
  by (relation "measure (\<lambda>(fin, now, i, dr, m). length dr - i)") auto

declare sweep_draining.simps [simp del]

text \<open>Events by time, then by arrival.\<close>

definition in_time_order :: "event list \<Rightarrow> event list" where
  "in_time_order es = sort_key (\<lambda>e. (ts_mono_ns e, ev_seq e)) es"

section \<open>The sweep\<close>

lemma mset_swap_remove:
  assumes "i < length xs"
  shows "mset xs = add_mset (xs ! i) (mset (swap_remove i xs))"
proof (cases xs rule: rev_cases)
  case Nil
  with assms show ?thesis by simp
next
  case (snoc ys y)
  show ?thesis
  proof (cases "i = length ys")
    case True
    with snoc show ?thesis by (simp add: swap_remove_def)
  next
    case False
    with assms snoc have "i < length ys" by simp
    with snoc False show ?thesis
      by (simp add: swap_remove_def mset_update nth_append add_mset_commute)
  qed
qed

lemma take_swap_remove: "i < length xs \<Longrightarrow> take i (swap_remove i xs) = take i xs"
  by (cases xs rule: rev_cases) (auto simp: swap_remove_def)

text \<open>
  The sweep finalizes the expired scopes, in some order, and keeps the others.
\<close>

lemma sweep_from:
  assumes "\<forall>d \<in> set (take i dr). \<not> ds_deadline_ns d < now"
  shows "\<exists>out. mset out = filter_mset (\<lambda>d. ds_deadline_ns d < now) (mset dr) \<and>
    snd (sweep_draining fin now i dr m) =
      foldl (\<lambda>m d. fin (ds_qualname d) (ds_accum d) m) m out \<and>
    mset (fst (sweep_draining fin now i dr m)) =
      filter_mset (\<lambda>d. \<not> ds_deadline_ns d < now) (mset dr)"
  using assms
proof (induction fin now i dr m rule: sweep_draining.induct)
  case (1 fin now i dr m)
  note sweep = sweep_draining.simps [of fin now i dr m]
  show ?case
  proof (cases "i < length dr")
    case False
    with "1.prems" have "filter_mset (\<lambda>d. ds_deadline_ns d < now) (mset dr) = {#}"
      "filter_mset (\<lambda>d. \<not> ds_deadline_ns d < now) (mset dr) = mset dr"
      by (simp_all flip: mset_filter add: filter_id_conv)
    with False sweep show ?thesis by (intro exI [of _ "[]"]) simp
  next
    case True
    note m = mset_swap_remove [OF True]
    show ?thesis
    proof (cases "ds_deadline_ns (dr ! i) < now")
      case gone: True
      with "1.IH"(1) [OF True gone] "1.prems" True obtain out where
        "mset out = filter_mset (\<lambda>d. ds_deadline_ns d < now) (mset (swap_remove i dr))"
        "snd (sweep_draining fin now i dr m) =
          foldl (\<lambda>m d. fin (ds_qualname d) (ds_accum d) m) m (dr ! i # out)"
        "mset (fst (sweep_draining fin now i dr m)) =
          filter_mset (\<lambda>d. \<not> ds_deadline_ns d < now) (mset (swap_remove i dr))"
        by (auto simp: sweep take_swap_remove)
      with gone show ?thesis
        unfolding m by (intro exI [of _ "dr ! i # out"]) simp
    next
      case False
      with "1.prems" True have "\<forall>d \<in> set (take (Suc i) dr). \<not> ds_deadline_ns d < now"
        by (simp add: take_Suc_conv_app_nth)
      from "1.IH"(2) [OF True False this] False True show ?thesis by (simp add: sweep)
    qed
  qed
qed

lemmas sweep_all_expired = sweep_from [of 0, simplified]

section \<open>What a call sees\<close>

text \<open>
  \<open>observe h b e\<close> is the effect of the event \<open>e\<close> on the accumulator of a running (\<open>b\<close>) or
  draining scope when the tracked heap is \<open>h\<close> after \<open>e\<close>; \<open>heap\<close> is how the events change it.
\<close>

fun drain_run ::
  "('h \<Rightarrow> event \<Rightarrow> 'h) \<Rightarrow> ('h \<Rightarrow> bool \<Rightarrow> event \<Rightarrow> 'a \<Rightarrow> 'a) \<Rightarrow> 'h \<Rightarrow> u64 \<Rightarrow> 'a \<Rightarrow> event list \<Rightarrow> 'a"
where
  "drain_run heap observe h deadline acc [] = acc"
| "drain_run heap observe h deadline acc (e # es) =
     (if deadline < ts_mono_ns e then acc
      else drain_run heap observe (heap h e) deadline (observe (heap h e) False e acc) es)"

fun call_run ::
  "('h \<Rightarrow> event \<Rightarrow> 'h) \<Rightarrow> ('h \<Rightarrow> bool \<Rightarrow> event \<Rightarrow> 'a \<Rightarrow> 'a) \<Rightarrow> 'h \<Rightarrow> u64 \<Rightarrow> 'a \<Rightarrow> event list \<Rightarrow> 'a"
where
  "call_run heap observe h c acc [] = acc"
| "call_run heap observe h c acc (e # es) =
     (if payload e = ModuleReturned c
      then drain_run heap observe (heap h e) (sat_add (ts_mono_ns e) ASYNC_GRACE_NS)
             (observe (heap h e) False e acc) es
      else call_run heap observe (heap h e) c (observe (heap h e) True e acc) es)"

text \<open>Every call of the stream with the accumulator it ends with.\<close>

fun scope_calls ::
  "('h \<Rightarrow> event \<Rightarrow> 'h) \<Rightarrow> ('h \<Rightarrow> bool \<Rightarrow> event \<Rightarrow> 'a \<Rightarrow> 'a) \<Rightarrow> 'a \<Rightarrow> 'h \<Rightarrow> event list
     \<Rightarrow> (string \<times> 'a) list"
where
  "scope_calls heap observe init h [] = []"
| "scope_calls heap observe init h (e # es) =
     (case payload e of
        ModuleEntered c _ q _ _ _ _ \<Rightarrow>
          [(q, call_run heap observe (heap h e) c (observe (heap h e) True e init) es)]
      | _ \<Rightarrow> []) @ scope_calls heap observe init (heap h e) es"

section \<open>The shape of a pass\<close>

text \<open>The structural effect of an event on the open scopes and on the new draining ones.\<close>

definition moved_stack :: "'a \<Rightarrow> event \<Rightarrow> 'a open_scope list \<Rightarrow> 'a open_scope list" where
  "moved_stack init e st =
     (case payload e of
        ModuleEntered c _ q _ _ _ _ \<Rightarrow> st @ [\<lparr>os_call_id = c, os_qualname = q, os_accum = init\<rparr>]
      | ModuleReturned c \<Rightarrow>
          (case rposition (\<lambda>s. os_call_id s = c) st of
             Some pos \<Rightarrow> remove_at pos st
           | None \<Rightarrow> st)
      | _ \<Rightarrow> st)"

definition drained :: "event \<Rightarrow> 'a open_scope list \<Rightarrow> 'a draining_scope list" where
  "drained e st =
     (case payload e of
        ModuleReturned c \<Rightarrow>
          (case rposition (\<lambda>s. os_call_id s = c) st of
             Some pos \<Rightarrow>
               [\<lparr>ds_qualname = os_qualname (st ! pos), ds_accum = os_accum (st ! pos),
                 ds_deadline_ns = sat_add (ts_mono_ns e) ASYNC_GRACE_NS\<rparr>]
           | None \<Rightarrow> [])
      | _ \<Rightarrow> [])"

definition map_open :: "('a \<Rightarrow> 'a) \<Rightarrow> 'a open_scope list \<Rightarrow> 'a open_scope list" where
  "map_open f = map (\<lambda>s. s\<lparr>os_accum := f (os_accum s)\<rparr>)"

definition map_draining :: "('a \<Rightarrow> 'a) \<Rightarrow> 'a draining_scope list \<Rightarrow> 'a draining_scope list" where
  "map_draining f = map (\<lambda>d. d\<lparr>ds_accum := f (ds_accum d)\<rparr>)"

locale scope_tracker =
  fixes step :: "'s \<Rightarrow> event \<Rightarrow> 's"
    and stack :: "'s \<Rightarrow> 'a open_scope list"
    and draining :: "'s \<Rightarrow> 'a draining_scope list"
    and tracked :: "'s \<Rightarrow> 'h"
    and rows :: "'s \<Rightarrow> 'm"
    and init :: 'a
    and heap :: "'h \<Rightarrow> event \<Rightarrow> 'h"
    and observe :: "'h \<Rightarrow> bool \<Rightarrow> event \<Rightarrow> 'a \<Rightarrow> 'a"
    and fin :: "string \<Rightarrow> 'a \<Rightarrow> 'm \<Rightarrow> 'm"
  assumes step_tracked: "tracked (step s e) = heap (tracked s) e"
    and step_stack: "stack (step s e) =
      map_open (observe (heap (tracked s) e) True e) (moved_stack init e (stack s))"
    and step_draining: "draining (step s e) =
      map_draining (observe (heap (tracked s) e) False e)
        (fst (sweep_draining fin (ts_mono_ns e) 0 (draining s) (rows s)) @ drained e (stack s))"
    and step_rows: "rows (step s e) =
      snd (sweep_draining fin (ts_mono_ns e) 0 (draining s) (rows s))"
begin

definition finish :: "'s \<Rightarrow> 'm" where
  "finish s =
     foldl (\<lambda>m o'. fin (os_qualname o') (os_accum o') m)
       (foldl (\<lambda>m d. fin (ds_qualname d) (ds_accum d) m) (rows s) (draining s)) (stack s)"

text \<open>What the scopes alive in \<open>s\<close> become once \<open>es\<close> is read.\<close>

definition pending :: "'s \<Rightarrow> event list \<Rightarrow> (string \<times> 'a) multiset" where
  "pending s es =
     image_mset (\<lambda>d. (ds_qualname d,
         drain_run heap observe (tracked s) (ds_deadline_ns d) (ds_accum d) es)) (mset (draining s)) +
     image_mset (\<lambda>o'. (os_qualname o',
         call_run heap observe (tracked s) (os_call_id o') (os_accum o') es)) (mset (stack s))"

definition logs :: "(string \<times> 'a) list \<Rightarrow> 'm \<Rightarrow> 'm" where
  "logs out m = foldl (\<lambda>m (q, a). fin q a m) m out"

lemma logs_append: "logs (xs @ ys) m = logs ys (logs xs m)"
  by (simp add: logs_def)

lemma logs_draining:
  "foldl (\<lambda>m d. fin (ds_qualname d) (ds_accum d) m) m out =
     logs (map (\<lambda>d. (ds_qualname d, ds_accum d)) out) m"
  by (induction out arbitrary: m) (simp_all add: logs_def)

lemma logs_open:
  "foldl (\<lambda>m o'. fin (os_qualname o') (os_accum o') m) m out =
     logs (map (\<lambda>o'. (os_qualname o', os_accum o')) out) m"
  by (induction out arbitrary: m) (simp_all add: logs_def)

lemma finish_logs:
  "\<exists>log. mset log = pending s [] \<and> finish s = logs log (rows s)"
  by (intro exI [of _ "map (\<lambda>d. (ds_qualname d, ds_accum d)) (draining s) @
      map (\<lambda>o'. (os_qualname o', os_accum o')) (stack s)"])
    (simp add: finish_def pending_def logs_draining logs_open logs_append)

text \<open>The draining part of one step.\<close>

lemma drain_step:
  "\<exists>log. rows (step s e) = logs log (rows s) \<and>
     mset log + image_mset (\<lambda>d. (ds_qualname d,
         drain_run heap observe (heap (tracked s) e) (ds_deadline_ns d)
           (observe (heap (tracked s) e) False e (ds_accum d)) es))
       (mset (fst (sweep_draining fin (ts_mono_ns e) 0 (draining s) (rows s)))) =
     image_mset (\<lambda>d. (ds_qualname d,
         drain_run heap observe (tracked s) (ds_deadline_ns d) (ds_accum d) (e # es)))
       (mset (draining s))"
proof -
  let ?late = "\<lambda>d. ds_deadline_ns d < ts_mono_ns e"
  let ?now = "\<lambda>d. (ds_qualname d, ds_accum d)"
  let ?next = "\<lambda>d. (ds_qualname d,
         drain_run heap observe (heap (tracked s) e) (ds_deadline_ns d)
           (observe (heap (tracked s) e) False e (ds_accum d)) es)"
  obtain out where out: "mset out = filter_mset ?late (mset (draining s))"
    "snd (sweep_draining fin (ts_mono_ns e) 0 (draining s) (rows s)) =
      foldl (\<lambda>m d. fin (ds_qualname d) (ds_accum d) m) (rows s) out"
    "mset (fst (sweep_draining fin (ts_mono_ns e) 0 (draining s) (rows s))) =
      filter_mset (\<lambda>d. \<not> ?late d) (mset (draining s))"
    using sweep_all_expired [where now = "ts_mono_ns e" and dr = "draining s" and m = "rows s"
        and fin = fin] by blast
  have "image_mset (\<lambda>d. (ds_qualname d,
         drain_run heap observe (tracked s) (ds_deadline_ns d) (ds_accum d) (e # es))) M =
      image_mset ?now (filter_mset ?late M) + image_mset ?next (filter_mset (\<lambda>d. \<not> ?late d) M)" for M
    by (induction M) simp_all
  note split = this
  show ?thesis
    by (intro exI [of _ "map ?now out"] conjI)
      (simp add: step_rows logs_draining out(2), simp only: split mset_map out(1,3))
qed

text \<open>The open part: a call keeps running, or moves to the draining ones.\<close>

lemma open_step:
  assumes "distinct (map os_call_id (stack s))"
    and "set (entered_ids [e]) \<inter> os_call_id ` set (stack s) = {}"
  shows "image_mset (\<lambda>d. (ds_qualname d,
        drain_run heap observe (heap (tracked s) e) (ds_deadline_ns d)
          (observe (heap (tracked s) e) False e (ds_accum d)) es)) (mset (drained e (stack s))) +
    image_mset (\<lambda>o'. (os_qualname o',
        call_run heap observe (heap (tracked s) e) (os_call_id o')
          (observe (heap (tracked s) e) True e (os_accum o')) es)) (mset (moved_stack init e (stack s))) =
    image_mset (\<lambda>o'. (os_qualname o',
        call_run heap observe (tracked s) (os_call_id o') (os_accum o') (e # es))) (mset (stack s)) +
    (case payload e of ModuleEntered c _ q _ _ _ _ \<Rightarrow>
        {#(q, call_run heap observe (heap (tracked s) e) c (observe (heap (tracked s) e) True e init) es)#}
      | _ \<Rightarrow> {#})"
proof -
  let ?run = "\<lambda>o'. (os_qualname o',
        call_run heap observe (heap (tracked s) e) (os_call_id o')
          (observe (heap (tracked s) e) True e (os_accum o')) es)"
  let ?old = "\<lambda>o'. (os_qualname o',
        call_run heap observe (tracked s) (os_call_id o') (os_accum o') (e # es))"
  have same: "image_mset ?old (mset xs) = image_mset ?run (mset xs)"
    if "\<forall>o' \<in> set xs. payload e \<noteq> ModuleReturned (os_call_id o')" for xs
    using that by (intro image_mset_cong) auto
  consider (enter) c t q cl p d f where "payload e = ModuleEntered c t q cl p d f"
    | (return) c where "payload e = ModuleReturned c"
    | (other) "\<forall>c t q cl p d f. payload e \<noteq> ModuleEntered c t q cl p d f"
        "\<forall>c. payload e \<noteq> ModuleReturned c" by blast
  then show ?thesis
  proof cases
    case enter
    then show ?thesis using same [of "stack s"] by (simp add: drained_def moved_stack_def)
  next
    case other
    then show ?thesis using same [of "stack s"]
      by (cases "payload e") (simp_all add: drained_def moved_stack_def)
  next
    case return
    show ?thesis
    proof (cases "rposition (\<lambda>o'. os_call_id o' = c) (stack s)")
      case None
      then have "\<forall>o' \<in> set (stack s). os_call_id o' \<noteq> c" by (simp add: rposition_None)
      with return have "\<forall>o' \<in> set (stack s). payload e \<noteq> ModuleReturned (os_call_id o')"
        by auto
      from same [OF this] return None show ?thesis by (simp add: drained_def moved_stack_def)
    next
      case (Some pos)
      from rposition_Some [OF this] have pos: "pos < length (stack s)"
        "os_call_id (stack s ! pos) = c" by auto
      have ids: "map os_call_id (remove_at pos (stack s)) = remove_at pos (map os_call_id (stack s))"
        by (simp add: remove_at_def take_map drop_map)
      have "os_call_id ` set (remove_at pos (stack s)) = set (map os_call_id (stack s)) - {c}"
        using distinct_remove_at(2) [OF assms(1), of pos] pos
        by (simp flip: ids set_map)
      with return have "\<forall>o' \<in> set (remove_at pos (stack s)).
          payload e \<noteq> ModuleReturned (os_call_id o')" by auto
      from same [OF this] return Some pos show ?thesis
        by (simp add: drained_def moved_stack_def mset_remove_at [OF pos(1)])
    qed
  qed
qed

lemma stack_ids: "map os_call_id (stack (step s e)) = map os_call_id (moved_stack init e (stack s))"
  by (simp add: step_stack map_open_def comp_def)

lemma moved_ids:
  assumes "distinct (map os_call_id st)" and "set (entered_ids [e]) \<inter> os_call_id ` set st = {}"
  shows "distinct (map os_call_id (moved_stack init e st)) \<and>
    os_call_id ` set (moved_stack init e st) \<subseteq> os_call_id ` set st \<union> set (entered_ids [e])"
proof (cases "payload e")
  case (ModuleReturned c)
  have "map os_call_id (remove_at pos st) = remove_at pos (map os_call_id st)" for pos
    by (simp add: remove_at_def take_map drop_map)
  then have "distinct (map os_call_id (remove_at pos st))" if "pos < length st" for pos
    using distinct_remove_at(1) [OF assms(1), of pos] that by simp
  with ModuleReturned assms show ?thesis
    using set_remove_at [of _ st]
    by (auto simp: moved_stack_def split: option.split dest: rposition_Some)
qed (use assms in \<open>auto simp: moved_stack_def\<close>)

lemma track_run:
  assumes "distinct (map os_call_id (stack s))"
    and "os_call_id ` set (stack s) \<inter> set (entered_ids es) = {}" and "distinct (entered_ids es)"
  shows "\<exists>log. finish (foldl step s es) = logs log (rows s) \<and>
    mset log = pending s es + mset (scope_calls heap observe init (tracked s) es)"
  using assms
proof (induction es arbitrary: s)
  case Nil
  then show ?case using finish_logs [of s] by auto
next
  case (Cons e es)
  let ?s = "step s e"
  have ent: "entered_ids (e # es) = entered_ids [e] @ entered_ids es"
    using entered_ids_simps(3) [of "[e]" es] by simp
  have fresh: "set (entered_ids [e]) \<inter> os_call_id ` set (stack s) = {}"
    using Cons.prems(2) unfolding ent set_append by blast
  have disj: "set (entered_ids [e]) \<inter> set (entered_ids es) = {}"
    and d: "distinct (entered_ids es)"
    using Cons.prems(3) unfolding ent distinct_append by blast+
  note mv = moved_ids [OF Cons.prems(1) fresh]
  have d': "distinct (map os_call_id (stack ?s))" unfolding stack_ids using mv by blast
  have "os_call_id ` set (stack ?s) = os_call_id ` set (moved_stack init e (stack s))"
    using arg_cong [OF stack_ids, of set s e] by (simp only: set_map)
  then have "os_call_id ` set (stack ?s) \<inter> set (entered_ids es) = {}"
  proof -
    have sub: "A = B \<Longrightarrow> B \<subseteq> C \<union> D \<Longrightarrow> C \<inter> (D \<union> E) = {} \<Longrightarrow> D \<inter> E = {} \<Longrightarrow> A \<inter> E = {}"
      for A B C D E :: "u64 set" by blast
    show "os_call_id ` set (stack ?s) = os_call_id ` set (moved_stack init e (stack s)) \<Longrightarrow> ?thesis"
      by (rule sub [OF _ conjunct2 [OF mv] Cons.prems(2) [unfolded ent set_append] disj])
  qed
  from Cons.IH [OF d' this d] obtain log1 where
    log1: "finish (foldl step ?s es) = logs log1 (rows ?s)"
      "mset log1 = pending ?s es + mset (scope_calls heap observe init (tracked ?s) es)" by blast
  from drain_step [of s e es] obtain log0 where
    log0: "rows ?s = logs log0 (rows s)"
      "mset log0 + image_mset (\<lambda>d. (ds_qualname d,
         drain_run heap observe (heap (tracked s) e) (ds_deadline_ns d)
           (observe (heap (tracked s) e) False e (ds_accum d)) es))
       (mset (fst (sweep_draining fin (ts_mono_ns e) 0 (draining s) (rows s)))) =
     image_mset (\<lambda>d. (ds_qualname d,
         drain_run heap observe (tracked s) (ds_deadline_ns d) (ds_accum d) (e # es)))
       (mset (draining s))" by blast
  have "mset (scope_calls heap observe init (tracked s) (e # es)) =
      (case payload e of ModuleEntered c _ q _ _ _ _ \<Rightarrow>
        {#(q, call_run heap observe (heap (tracked s) e) c (observe (heap (tracked s) e) True e init) es)#}
      | _ \<Rightarrow> {#}) + mset (scope_calls heap observe init (heap (tracked s) e) es)"
    by (simp split: payload.split)
  moreover have "pending ?s es =
      image_mset (\<lambda>d. (ds_qualname d,
         drain_run heap observe (heap (tracked s) e) (ds_deadline_ns d)
           (observe (heap (tracked s) e) False e (ds_accum d)) es))
       (mset (fst (sweep_draining fin (ts_mono_ns e) 0 (draining s) (rows s)))) +
      (image_mset (\<lambda>d. (ds_qualname d,
         drain_run heap observe (heap (tracked s) e) (ds_deadline_ns d)
           (observe (heap (tracked s) e) False e (ds_accum d)) es)) (mset (drained e (stack s))) +
      image_mset (\<lambda>o'. (os_qualname o',
         call_run heap observe (heap (tracked s) e) (os_call_id o')
           (observe (heap (tracked s) e) True e (os_accum o')) es))
        (mset (moved_stack init e (stack s))))"
    by (simp add: pending_def step_tracked step_draining step_stack map_draining_def map_open_def
        image_mset.compositionality comp_def)
  ultimately have "mset (log0 @ log1) =
      pending s (e # es) + mset (scope_calls heap observe init (tracked s) (e # es))"
    using log0(2) log1(2) open_step [OF Cons.prems(1) fresh, of es]
    by (simp add: pending_def step_tracked)
  moreover have "finish (foldl step s (e # es)) = logs (log0 @ log1) (rows s)"
    using log0(1) log1(1) by (simp add: logs_append)
  ultimately show ?case by blast
qed

end

end
