(* ===== verification/Memory.thy ===== *)
theory Memory
  imports ScopeTracker
begin

text \<open>
  Per-scope memory, \<open>crates/smeltr-analyzer/src/memory.rs\<close>: device samples and live heaps seen
  by each scope while it runs and while its GPU work drains, the MLX allocator summary and the
  conditions of the report's notes.
\<close>

section \<open>Device memory per scope\<close>

record scope_memory =
  sm_qualname :: string
  sm_peak_bytes :: u64
  sm_avg_bytes :: u64
  sm_end_bytes :: u64
  sm_growth_bytes :: u64
  sm_sample_count :: u64

record mem_accum =
  ma_peak :: u64
  ma_sum :: "128 word"
  ma_count :: u64
  ma_first :: u64
  ma_last :: u64
  ma_running_peak :: u64

definition mem_accum_default :: mem_accum where
  "mem_accum_default =
     \<lparr>ma_peak = 0, ma_sum = 0, ma_count = 0, ma_first = 0, ma_last = 0, ma_running_peak = 0\<rparr>"

definition mem_row :: "string \<Rightarrow> mem_accum \<Rightarrow> scope_memory" where
  "mem_row q a =
     \<lparr>sm_qualname = q, sm_peak_bytes = ma_peak a,
      sm_avg_bytes = (if ma_count a > 0 then ucast (ma_sum a div ucast (ma_count a)) else 0),
      sm_end_bytes = ma_last a,
      sm_growth_bytes = sat_sub (ma_running_peak a) (ma_first a),
      sm_sample_count = ma_count a\<rparr>"

type_synonym mem_rows = "(string \<times> scope_memory) list"

definition mem_finalize :: "string \<Rightarrow> mem_accum \<Rightarrow> mem_rows \<Rightarrow> mem_rows" where
  "mem_finalize q a m =
     (let sm = mem_row q a
      in AList.update q
           (case map_of m q of
              None \<Rightarrow> sm
            | Some existing \<Rightarrow>
                (let growth = max (sm_growth_bytes existing) (sm_growth_bytes sm)
                 in (if sm_peak_bytes existing < sm_peak_bytes sm then sm else existing)
                      \<lparr>sm_growth_bytes := growth\<rparr>)) m)"

definition observe_sample :: "bool \<Rightarrow> u64 \<Rightarrow> mem_accum \<Rightarrow> mem_accum" where
  "observe_sample running b a =
     a\<lparr>ma_first := (if ma_count a = 0 then b else ma_first a),
       ma_running_peak := (if running then max (ma_running_peak a) b else ma_running_peak a),
       ma_peak := (if ma_peak a < b then b else ma_peak a),
       ma_sum := ma_sum a + ucast b,
       ma_count := ma_count a + 1,
       ma_last := b\<rparr>"

record mem_state =
  ms_stack :: "mem_accum open_scope list"
  ms_draining :: "mem_accum draining_scope list"
  ms_by_qualname :: mem_rows

definition mem_init :: mem_state where
  "mem_init = \<lparr>ms_stack = [], ms_draining = [], ms_by_qualname = []\<rparr>"

definition mem_step :: "mem_state \<Rightarrow> event \<Rightarrow> mem_state" where
  "mem_step s ev =
     (let swept = sweep_draining mem_finalize (ts_mono_ns ev) 0 (ms_draining s) (ms_by_qualname s);
          s1 = s\<lparr>ms_draining := fst swept, ms_by_qualname := snd swept\<rparr>
      in case payload ev of
           ModuleEntered c _ q _ _ _ _ \<Rightarrow>
             s1\<lparr>ms_stack := ms_stack s1 @
               [\<lparr>os_call_id = c, os_qualname = q, os_accum = mem_accum_default\<rparr>]\<rparr>
         | ModuleReturned c \<Rightarrow>
             (case rposition (\<lambda>o'. os_call_id o' = c) (ms_stack s1) of
                Some pos \<Rightarrow>
                  s1\<lparr>ms_stack := remove_at pos (ms_stack s1),
                     ms_draining := ms_draining s1 @
                       [\<lparr>ds_qualname = os_qualname (ms_stack s1 ! pos),
                         ds_accum = os_accum (ms_stack s1 ! pos),
                         ds_deadline_ns = sat_add (ts_mono_ns ev) ASYNC_GRACE_NS\<rparr>]\<rparr>
              | None \<Rightarrow> s1)
         | MetalDeviceMemSample allocated_bytes _ _ \<Rightarrow>
             s1\<lparr>ms_stack := map_open (observe_sample True allocated_bytes) (ms_stack s1),
                ms_draining := map (\<lambda>d. if ts_mono_ns ev \<le> ds_deadline_ns d
                    then d\<lparr>ds_accum := observe_sample False allocated_bytes (ds_accum d)\<rparr>
                    else d) (ms_draining s1)\<rparr>
         | _ \<Rightarrow> s1)"

definition mem_flush :: "mem_state \<Rightarrow> mem_rows" where
  "mem_flush s =
     foldl (\<lambda>m o'. mem_finalize (os_qualname o') (os_accum o') m)
       (foldl (\<lambda>m d. mem_finalize (ds_qualname d) (ds_accum d) m) (ms_by_qualname s)
          (ms_draining s)) (ms_stack s)"

definition compute_memory_breakdown :: "event list \<Rightarrow> scope_memory list" where
  "compute_memory_breakdown es =
     sort_key (\<lambda>r. (desc (sm_peak_bytes r), sm_qualname r))
       (map snd (mem_flush (foldl mem_step mem_init (in_time_order es))))"

section \<open>Heaps per scope\<close>

record heap_memory =
  hm_qualname :: string
  hm_peak_heap_count :: u32
  hm_peak_heap_bytes :: u64

record heap_accum =
  ha_peak_count :: u32
  ha_peak_bytes :: u64

definition heap_accum_default :: heap_accum where
  "heap_accum_default = \<lparr>ha_peak_count = 0, ha_peak_bytes = 0\<rparr>"

type_synonym heap_rows = "(string \<times> heap_memory) list"

definition heap_finalize :: "string \<Rightarrow> heap_accum \<Rightarrow> heap_rows \<Rightarrow> heap_rows" where
  "heap_finalize q a m =
     (let hm = \<lparr>hm_qualname = q, hm_peak_heap_count = ha_peak_count a,
                hm_peak_heap_bytes = ha_peak_bytes a\<rparr>
      in AList.update q
           (case map_of m q of
              None \<Rightarrow> hm
            | Some existing \<Rightarrow>
                (if hm_peak_heap_bytes existing < hm_peak_heap_bytes hm then hm else existing)) m)"

type_synonym live_heaps = "(u64 \<times> u64) list"

definition observe_heaps :: "live_heaps \<Rightarrow> heap_accum \<Rightarrow> heap_accum" where
  "observe_heaps live a =
     (let cur_count = of_nat (length live); cur_bytes = sum_list (map snd live)
      in \<lparr>ha_peak_count = (if ha_peak_count a < cur_count then cur_count else ha_peak_count a),
          ha_peak_bytes = (if ha_peak_bytes a < cur_bytes then cur_bytes else ha_peak_bytes a)\<rparr>)"

record heap_state =
  hs_stack :: "heap_accum open_scope list"
  hs_draining :: "heap_accum draining_scope list"
  hs_live :: live_heaps
  hs_by_qualname :: heap_rows

definition heap_init :: heap_state where
  "heap_init = \<lparr>hs_stack = [], hs_draining = [], hs_live = [], hs_by_qualname = []\<rparr>"

definition update_open_scopes_heap :: "u64 \<Rightarrow> heap_state \<Rightarrow> heap_state" where
  "update_open_scopes_heap now_ns s =
     s\<lparr>hs_stack := map_open (observe_heaps (hs_live s)) (hs_stack s),
       hs_draining := map (\<lambda>d. if now_ns \<le> ds_deadline_ns d
           then d\<lparr>ds_accum := observe_heaps (hs_live s) (ds_accum d)\<rparr> else d) (hs_draining s)\<rparr>"

definition heap_step :: "heap_state \<Rightarrow> event \<Rightarrow> heap_state" where
  "heap_step s ev =
     (let swept = sweep_draining heap_finalize (ts_mono_ns ev) 0 (hs_draining s) (hs_by_qualname s);
          s1 = s\<lparr>hs_draining := fst swept, hs_by_qualname := snd swept\<rparr>
      in case payload ev of
           ModuleEntered c _ q _ _ _ _ \<Rightarrow>
             update_open_scopes_heap (ts_mono_ns ev)
               (s1\<lparr>hs_stack := hs_stack s1 @
                 [\<lparr>os_call_id = c, os_qualname = q, os_accum = heap_accum_default\<rparr>]\<rparr>)
         | ModuleReturned c \<Rightarrow>
             (case rposition (\<lambda>o'. os_call_id o' = c) (hs_stack s1) of
                Some pos \<Rightarrow>
                  s1\<lparr>hs_stack := remove_at pos (hs_stack s1),
                     hs_draining := hs_draining s1 @
                       [\<lparr>ds_qualname = os_qualname (hs_stack s1 ! pos),
                         ds_accum = os_accum (hs_stack s1 ! pos),
                         ds_deadline_ns = sat_add (ts_mono_ns ev) ASYNC_GRACE_NS\<rparr>]\<rparr>
              | None \<Rightarrow> s1)
         | MetalHeapAlloc heap_id size_bytes _ \<Rightarrow>
             update_open_scopes_heap (ts_mono_ns ev)
               (s1\<lparr>hs_live := AList.update heap_id size_bytes (hs_live s1)\<rparr>)
         | MetalHeapFree heap_id \<Rightarrow>
             update_open_scopes_heap (ts_mono_ns ev)
               (s1\<lparr>hs_live := AList.delete heap_id (hs_live s1)\<rparr>)
         | _ \<Rightarrow> s1)"

definition heap_flush :: "heap_state \<Rightarrow> heap_rows" where
  "heap_flush s =
     foldl (\<lambda>m o'. heap_finalize (os_qualname o') (os_accum o') m)
       (foldl (\<lambda>m d. heap_finalize (ds_qualname d) (ds_accum d) m) (hs_by_qualname s)
          (hs_draining s)) (hs_stack s)"

definition compute_heap_breakdown :: "event list \<Rightarrow> heap_memory list" where
  "compute_heap_breakdown es =
     sort_key (\<lambda>r. (desc (hm_peak_heap_bytes r), hm_qualname r))
       (map snd (heap_flush (foldl heap_step heap_init (in_time_order es))))"

section \<open>Allocator and notes\<close>

record mlx_allocator =
  mx_peak_active_bytes :: u64
  mx_peak_reported_bytes :: u64
  mx_peak_cache_bytes :: u64
  mx_end_cache_bytes :: u64
  mx_sample_count :: nat

definition mlx_step :: "mlx_allocator \<Rightarrow> event \<Rightarrow> mlx_allocator" where
  "mlx_step a ev =
     (case payload ev of
        MlxMemoryPoll active peak cache \<Rightarrow>
          \<lparr>mx_peak_active_bytes = max (mx_peak_active_bytes a) active,
           mx_peak_reported_bytes = max (mx_peak_reported_bytes a) peak,
           mx_peak_cache_bytes = max (mx_peak_cache_bytes a) cache,
           mx_end_cache_bytes = cache,
           mx_sample_count = mx_sample_count a + 1\<rparr>
      | _ \<Rightarrow> a)"

definition compute_mlx_allocator :: "event list \<Rightarrow> mlx_allocator option" where
  "compute_mlx_allocator es =
     (let a = foldl mlx_step
            \<lparr>mx_peak_active_bytes = 0, mx_peak_reported_bytes = 0, mx_peak_cache_bytes = 0,
             mx_end_cache_bytes = 0, mx_sample_count = 0\<rparr> es
      in if mx_sample_count a > 0 then Some a else None)"

text \<open>\<open>shared_peak_note\<close>: the number of sharing scopes and the top peak, when the note is due.\<close>

definition shared_peak_note :: "scope_memory list \<Rightarrow> (nat \<times> nat \<times> u64) option" where
  "shared_peak_note rows =
     (case rows of
        [] \<Rightarrow> None
      | r # _ \<Rightarrow>
          (let top_peak = sm_peak_bytes r;
               floor_bytes = top_peak - top_peak div 100;
               sharing = length (filter (\<lambda>x. floor_bytes \<le> sm_peak_bytes x) rows)
           in if length rows < 3 \<or> sharing < 3 \<or> sharing * 2 < length rows then None
              else Some (sharing, length rows, top_peak)))"

definition heaps_are_uniform :: "heap_memory list \<Rightarrow> bool" where
  "heaps_are_uniform rows =
     (case rows of
        [] \<Rightarrow> False
      | first # _ \<Rightarrow>
          length rows \<ge> 2 \<and>
          list_all (\<lambda>r. hm_peak_heap_count r = hm_peak_heap_count first \<and>
                        hm_peak_heap_bytes r = hm_peak_heap_bytes first) rows)"

definition IDLE_MLX_BYTES :: u64 where
  "IDLE_MLX_BYTES = 1048576"

fun count_command_buffers :: "event list \<Rightarrow> nat \<Rightarrow> nat option" where
  "count_command_buffers [] n = Some n"
| "count_command_buffers (e # es) n =
     (case payload e of
        MlxEvalEntered _ _ _ _ _ \<Rightarrow> None
      | MetalCbCommitted _ _ _ _ \<Rightarrow> count_command_buffers es (n + 1)
      | _ \<Rightarrow> count_command_buffers es n)"

text \<open>\<open>idle_mlx_note\<close>: the command buffers counted, when the note is due.\<close>

definition idle_mlx_note :: "event list \<Rightarrow> mlx_allocator option \<Rightarrow> nat option" where
  "idle_mlx_note es alloc =
     (case alloc of
        None \<Rightarrow> None
      | Some a \<Rightarrow>
          if IDLE_MLX_BYTES \<le> mx_peak_active_bytes a \<or> IDLE_MLX_BYTES \<le> mx_peak_cache_bytes a
          then None
          else
            (case count_command_buffers es 0 of
               None \<Rightarrow> None
             | Some n \<Rightarrow> if n > 0 then Some n else None))"

section \<open>Both passes track scopes\<close>

definition mem_observe :: "unit \<Rightarrow> bool \<Rightarrow> event \<Rightarrow> mem_accum \<Rightarrow> mem_accum" where
  "mem_observe h running e a =
     (case payload e of MetalDeviceMemSample b _ _ \<Rightarrow> observe_sample running b a | _ \<Rightarrow> a)"

definition heap_track :: "live_heaps \<Rightarrow> event \<Rightarrow> live_heaps" where
  "heap_track live e =
     (case payload e of
        MetalHeapAlloc h b _ \<Rightarrow> AList.update h b live
      | MetalHeapFree h \<Rightarrow> AList.delete h live
      | _ \<Rightarrow> live)"

definition heap_observe :: "live_heaps \<Rightarrow> bool \<Rightarrow> event \<Rightarrow> heap_accum \<Rightarrow> heap_accum" where
  "heap_observe live running e a =
     (case payload e of
        ModuleEntered _ _ _ _ _ _ _ \<Rightarrow> observe_heaps live a
      | MetalHeapAlloc _ _ _ \<Rightarrow> observe_heaps live a
      | MetalHeapFree _ \<Rightarrow> observe_heaps live a
      | _ \<Rightarrow> a)"

lemma map_id_scopes [simp]:
  "map_open (\<lambda>a. a) st = st" "map_draining (\<lambda>a. a) dr = dr"
  by (simp_all add: map_open_def map_draining_def)

text \<open>After the sweep no deadline has passed, so the guard in the draining loops holds.\<close>

lemma swept_alive:
  assumes "d \<in> set (fst (sweep_draining fin now 0 dr m))"
  shows "now \<le> ds_deadline_ns d"
proof -
  from assms have "d \<in># mset (fst (sweep_draining fin now 0 dr m))" by simp
  also have "mset (fst (sweep_draining fin now 0 dr m)) =
      filter_mset (\<lambda>d. \<not> ds_deadline_ns d < now) (mset dr)"
    using sweep_all_expired [where now = now and dr = dr and m = m and fin = fin] by blast
  finally show ?thesis by (simp add: not_less)
qed

lemma map_alive:
  "map (\<lambda>d. if now \<le> ds_deadline_ns d then d\<lparr>ds_accum := f (ds_accum d)\<rparr> else d)
     (fst (sweep_draining fin now 0 dr m)) =
   map_draining f (fst (sweep_draining fin now 0 dr m))"
  unfolding map_draining_def by (intro map_cong refl) (simp add: swept_alive)

interpretation mem: scope_tracker
  mem_step ms_stack ms_draining "\<lambda>_. ()" ms_by_qualname mem_accum_default
  "\<lambda>_ _. ()" mem_observe mem_finalize
proof unfold_locales
  fix s e
  show "ms_stack (mem_step s e) =
      map_open (mem_observe () True e) (moved_stack mem_accum_default e (ms_stack s))"
    unfolding mem_step_def Let_def moved_stack_def mem_observe_def
    by (simp split: payload.split option.split)
  show "ms_draining (mem_step s e) =
      map_draining (mem_observe () False e)
        (fst (sweep_draining mem_finalize (ts_mono_ns e) 0 (ms_draining s) (ms_by_qualname s)) @
          drained e (ms_stack s))"
    unfolding mem_step_def Let_def drained_def mem_observe_def
    by (simp add: map_alive split: payload.split option.split)
  show "ms_by_qualname (mem_step s e) =
      snd (sweep_draining mem_finalize (ts_mono_ns e) 0 (ms_draining s) (ms_by_qualname s))"
    unfolding mem_step_def Let_def by (simp split: payload.split option.split)
qed simp

interpretation heaps: scope_tracker
  heap_step hs_stack hs_draining hs_live hs_by_qualname heap_accum_default
  heap_track heap_observe heap_finalize
proof unfold_locales
  fix s e
  show "hs_live (heap_step s e) = heap_track (hs_live s) e"
    unfolding heap_step_def Let_def heap_track_def update_open_scopes_heap_def
    by (simp split: payload.split option.split)
  show "hs_stack (heap_step s e) =
      map_open (heap_observe (heap_track (hs_live s) e) True e)
        (moved_stack heap_accum_default e (hs_stack s))"
    unfolding heap_step_def Let_def heap_track_def update_open_scopes_heap_def moved_stack_def
      heap_observe_def
    by (simp split: payload.split option.split)
  show "hs_draining (heap_step s e) =
      map_draining (heap_observe (heap_track (hs_live s) e) False e)
        (fst (sweep_draining heap_finalize (ts_mono_ns e) 0 (hs_draining s) (hs_by_qualname s)) @
          drained e (hs_stack s))"
    unfolding heap_step_def Let_def heap_track_def update_open_scopes_heap_def drained_def
      heap_observe_def
    by (simp add: map_alive split: payload.split option.split)
  show "hs_by_qualname (heap_step s e) =
      snd (sweep_draining heap_finalize (ts_mono_ns e) 0 (hs_draining s) (hs_by_qualname s))"
    unfolding heap_step_def Let_def update_open_scopes_heap_def
    by (simp split: payload.split option.split)
qed

end
