(* ===== verification/MemoryFacts.thy ===== *)
theory MemoryFacts
  imports Memory
begin

text \<open>
  What the memory tables show: one row per qualname, built from the samples each of its calls
  saw while it ran and while its GPU work drained.
\<close>

section \<open>The window of a call\<close>

text \<open>The samples a call sees, each with whether the call was still running.\<close>

fun drain_samples :: "u64 \<Rightarrow> event list \<Rightarrow> (bool \<times> u64) list" where
  "drain_samples deadline [] = []"
| "drain_samples deadline (e # es) =
     (if deadline < ts_mono_ns e then []
      else (case payload e of MetalDeviceMemSample b _ _ \<Rightarrow> [(False, b)] | _ \<Rightarrow> []) @
        drain_samples deadline es)"

fun call_samples :: "u64 \<Rightarrow> event list \<Rightarrow> (bool \<times> u64) list" where
  "call_samples c [] = []"
| "call_samples c (e # es) =
     (if payload e = ModuleReturned c
      then drain_samples (sat_add (ts_mono_ns e) ASYNC_GRACE_NS) es
      else (case payload e of MetalDeviceMemSample b _ _ \<Rightarrow> [(True, b)] | _ \<Rightarrow> []) @
        call_samples c es)"

fun mem_calls :: "event list \<Rightarrow> (string \<times> (bool \<times> u64) list) list" where
  "mem_calls [] = []"
| "mem_calls (e # es) =
     (case payload e of
        ModuleEntered c _ q _ _ _ _ \<Rightarrow> [(q, call_samples c es)]
      | _ \<Rightarrow> []) @ mem_calls es"

definition mem_of :: "(bool \<times> u64) list \<Rightarrow> mem_accum" where
  "mem_of w = foldl (\<lambda>a (r, b). observe_sample r b a) mem_accum_default w"

lemma mem_observe_list:
  "mem_observe () r e a =
     foldl (\<lambda>a (r, b). observe_sample r b a) a
       (case payload e of MetalDeviceMemSample b _ _ \<Rightarrow> [(r, b)] | _ \<Rightarrow> [])"
  by (simp add: mem_observe_def split: payload.split)

lemma mem_observe_return: "payload e = ModuleReturned c \<Longrightarrow> mem_observe () r e a = a"
  by (simp add: mem_observe_def)

lemma drain_run_mem:
  "drain_run (\<lambda>_ _. ()) mem_observe () dl a es =
     foldl (\<lambda>a (r, b). observe_sample r b a) a (drain_samples dl es)"
  by (induction es arbitrary: a) (simp_all add: mem_observe_list)

lemma call_run_mem:
  "call_run (\<lambda>_ _. ()) mem_observe () c a es =
     foldl (\<lambda>a (r, b). observe_sample r b a) a (call_samples c es)"
proof (induction es arbitrary: a)
  case (Cons e es)
  then show ?case
    by (cases "payload e = ModuleReturned c")
      (simp_all add: drain_run_mem mem_observe_return, simp add: mem_observe_list)
qed simp

lemma scope_calls_mem:
  "scope_calls (\<lambda>_ _. ()) mem_observe mem_accum_default () es =
     map (\<lambda>(q, w). (q, mem_of w)) (mem_calls es)"
proof (induction es)
  case (Cons e es)
  have "mem_observe () r e a = a" if "payload e = ModuleEntered c t q cl p d f" for r a c t q cl p d f
    using that by (simp add: mem_observe_def)
  with Cons show ?case by (simp add: call_run_mem mem_of_def [abs_def] split: payload.split)
qed simp

definition win_peak :: "(bool \<times> u64) list \<Rightarrow> u64" where
  "win_peak w = foldl max 0 (map snd w)"

definition win_growth :: "(bool \<times> u64) list \<Rightarrow> u64" where
  "win_growth w =
     sat_sub (foldl max 0 (map snd (filter fst w))) (if w = [] then 0 else snd (hd w))"

definition win_total :: "(bool \<times> u64) list \<Rightarrow> nat" where
  "win_total w = sum_list (map (unat \<circ> snd) w)"

lemma mem_of_snoc: "mem_of (w @ [(r, b)]) = observe_sample r b (mem_of w)"
  by (simp add: mem_of_def)

lemma mem_of_fields:
  assumes "length w < 2 ^ 64"
  shows "ma_peak (mem_of w) = win_peak w \<and> ma_count (mem_of w) = of_nat (length w) \<and>
    ma_sum (mem_of w) = of_nat (win_total w) \<and>
    ma_running_peak (mem_of w) = foldl max 0 (map snd (filter fst w)) \<and>
    ma_first (mem_of w) = (if w = [] then 0 else snd (hd w)) \<and>
    ma_last (mem_of w) = (if w = [] then 0 else snd (last w))"
  using assms
proof (induction w rule: rev_induct)
  case Nil
  then show ?case by (simp add: mem_of_def mem_accum_default_def win_peak_def win_total_def)
next
  case (snoc p w)
  obtain r b where p: "p = (r, b)" by (cases p)
  from snoc.prems have "length w < 2 ^ 64" by simp
  note IH = snoc.IH [OF this]
  have "(of_nat (length w) :: u64) = 0 \<longleftrightarrow> w = []"
    using nat_dvd_not_less [of "length w" "2 ^ 64"] snoc.prems
    by (cases "w = []") (simp_all add: word_of_nat_eq_0_iff)
  with IH show ?case
    unfolding p mem_of_snoc
    by (auto simp: observe_sample_def win_peak_def win_total_def max_def not_less hd_append)
qed

lemma win_total_less: "win_total w < 2 ^ 64 * (length w + 1)"
proof (induction w)
  case Nil
  then show ?case by (simp add: win_total_def)
next
  case (Cons p w)
  from Cons unat64_less [of "snd p"] show ?case
    by (simp add: win_total_def del: unat64_less)
qed

lemma mem_row_of:
  assumes "length w < 2 ^ 64"
  shows "sm_peak_bytes (mem_row q (mem_of w)) = win_peak w"
    and "sm_growth_bytes (mem_row q (mem_of w)) = win_growth w"
    and "sm_sample_count (mem_row q (mem_of w)) = of_nat (length w)"
    and "sm_end_bytes (mem_row q (mem_of w)) = (if w = [] then 0 else snd (last w))"
    and "sm_avg_bytes (mem_row q (mem_of w)) = of_nat (win_total w div length w)"
proof -
  note f = mem_of_fields [OF assms]
  from f show "sm_peak_bytes (mem_row q (mem_of w)) = win_peak w"
    and "sm_growth_bytes (mem_row q (mem_of w)) = win_growth w"
    and "sm_sample_count (mem_row q (mem_of w)) = of_nat (length w)"
    and "sm_end_bytes (mem_row q (mem_of w)) = (if w = [] then 0 else snd (last w))"
    by (simp_all add: mem_row_def win_growth_def)
  have "win_total w < 2 ^ 64 * (length w + 1)" by (rule win_total_less)
  also have "\<dots> \<le> 2 ^ 64 * 2 ^ 64" using assms by (intro mult_le_mono2) simp
  finally have total: "win_total w < 2 ^ 128" by simp
  show "sm_avg_bytes (mem_row q (mem_of w)) = of_nat (win_total w div length w)"
  proof (cases "w = []")
    case True
    with f show ?thesis by (simp add: mem_row_def win_total_def)
  next
    case False
    have n: "unat (of_nat (length w) :: u64) = length w"
      using assms by (simp add: unat_of_nat)
    then have pos: "(of_nat (length w) :: u64) > 0"
      using False by (metis length_0_conv unat_0 word_gt_0)
    have "unat ((of_nat (win_total w) :: 128 word) div ucast (of_nat (length w) :: u64)) =
        win_total w div length w"
      using total n assms by (simp add: unat_div unat_of_nat unsigned_ucast_eq take_bit_nat_eq_self)
    then have "ucast ((of_nat (win_total w) :: 128 word) div ucast (of_nat (length w) :: u64)) =
        (of_nat (win_total w div length w) :: u64)"
      by (metis of_nat_unat)
    with f pos show ?thesis by (simp add: mem_row_def)
  qed
qed

section \<open>Rows of a log\<close>

text \<open>
  The row a qualname gets from the finished calls \<open>L\<close>: the figures of a call with the highest
  peak, and the largest growth of any call.
\<close>

definition row_from :: "(string \<times> mem_accum) set \<Rightarrow> string \<Rightarrow> scope_memory \<Rightarrow> bool" where
  "row_from L q r \<longleftrightarrow>
     (\<exists>a. (q, a) \<in> L \<and> r = (mem_row q a)\<lparr>sm_growth_bytes := sm_growth_bytes r\<rparr> \<and>
        (\<forall>b. (q, b) \<in> L \<longrightarrow> ma_peak b \<le> ma_peak a)) \<and>
     (\<exists>a. (q, a) \<in> L \<and> sm_growth_bytes r = sm_growth_bytes (mem_row q a)) \<and>
     (\<forall>b. (q, b) \<in> L \<longrightarrow> sm_growth_bytes (mem_row q b) \<le> sm_growth_bytes r)"

lemma row_from_name: "row_from L q r \<Longrightarrow> sm_qualname r = q"
proof -
  assume "row_from L q r"
  then obtain a where a: "r = (mem_row q a)\<lparr>sm_growth_bytes := sm_growth_bytes r\<rparr>"
    unfolding row_from_def by blast
  show ?thesis by (subst a) (simp add: mem_row_def)
qed

lemma row_from_first: "q \<notin> fst ` L \<Longrightarrow> row_from (insert (q, a) L) q (mem_row q a)"
  by (force simp: row_from_def mem_row_def)

lemma row_from_other: "q' \<noteq> q \<Longrightarrow> row_from (insert (q, a) L) q' r \<longleftrightarrow> row_from L q' r"
  by (simp add: row_from_def)

lemma row_from_merge:
  assumes "row_from L q r"
  shows "row_from (insert (q, a) L) q
    ((if sm_peak_bytes r < sm_peak_bytes (mem_row q a) then mem_row q a else r)
      \<lparr>sm_growth_bytes := max (sm_growth_bytes r) (sm_growth_bytes (mem_row q a))\<rparr>)"
proof -
  let ?n = "(if sm_peak_bytes r < sm_peak_bytes (mem_row q a) then mem_row q a else r)
      \<lparr>sm_growth_bytes := max (sm_growth_bytes r) (sm_growth_bytes (mem_row q a))\<rparr>"
  from assms obtain b where b: "(q, b) \<in> L" "r = (mem_row q b)\<lparr>sm_growth_bytes := sm_growth_bytes r\<rparr>"
    "\<forall>c. (q, c) \<in> L \<longrightarrow> ma_peak c \<le> ma_peak b" unfolding row_from_def by blast
  from assms obtain g where g: "(q, g) \<in> L" "sm_growth_bytes r = sm_growth_bytes (mem_row q g)"
    "\<forall>c. (q, c) \<in> L \<longrightarrow> sm_growth_bytes (mem_row q c) \<le> sm_growth_bytes r"
    unfolding row_from_def by blast
  have peak: "sm_peak_bytes r = ma_peak b" "sm_peak_bytes (mem_row q a) = ma_peak a"
    by (subst b(2), simp_all add: mem_row_def)
  have "\<exists>x. (q, x) \<in> insert (q, a) L \<and> ?n = (mem_row q x)\<lparr>sm_growth_bytes := sm_growth_bytes ?n\<rparr> \<and>
      (\<forall>c. (q, c) \<in> insert (q, a) L \<longrightarrow> ma_peak c \<le> ma_peak x)"
  proof (cases "ma_peak b < ma_peak a")
    case True
    with b(3) have "\<forall>c. (q, c) \<in> insert (q, a) L \<longrightarrow> ma_peak c \<le> ma_peak a" by fastforce
    with True show ?thesis by (intro exI [of _ a]) (simp add: peak)
  next
    case False
    have "r\<lparr>sm_growth_bytes := x\<rparr> = (mem_row q b)\<lparr>sm_growth_bytes := x\<rparr>" for x
      by (subst b(2)) simp
    with False b(1,3) show ?thesis by (intro exI [of _ b]) (simp add: peak not_less)
  qed
  moreover have "\<exists>x. (q, x) \<in> insert (q, a) L \<and> sm_growth_bytes ?n = sm_growth_bytes (mem_row q x)"
    using g(1,2) by (auto simp: max_def)
  moreover have "\<forall>c. (q, c) \<in> insert (q, a) L \<longrightarrow> sm_growth_bytes (mem_row q c) \<le> sm_growth_bytes ?n"
    using g(3) by (auto simp: le_max_iff_disj)
  ultimately show ?thesis unfolding row_from_def by blast
qed

text \<open>
  A table keyed by qualname: finishing a call merges it into the row of its name.  The locale
  states when a row is right for the calls finished so far and carries it over a whole log.
\<close>

locale keyed_rows =
  fixes fin :: "string \<Rightarrow> 'a \<Rightarrow> (string \<times> 'r) list \<Rightarrow> (string \<times> 'r) list"
    and merge :: "string \<Rightarrow> 'a \<Rightarrow> 'r option \<Rightarrow> 'r"
    and ok :: "(string \<times> 'a) set \<Rightarrow> string \<Rightarrow> 'r \<Rightarrow> bool"
    and name :: "'r \<Rightarrow> string"
  assumes fin_update: "fin q a m = AList.update q (merge q a (map_of m q)) m"
    and ok_first: "q \<notin> fst ` L \<Longrightarrow> ok (insert (q, a) L) q (merge q a None)"
    and ok_merge: "ok L q r \<Longrightarrow> ok (insert (q, a) L) q (merge q a (Some r))"
    and ok_other: "q' \<noteq> q \<Longrightarrow> ok (insert (q, a) L) q' r = ok L q' r"
    and ok_name: "ok L q r \<Longrightarrow> name r = q"
    and ok_in: "ok L q r \<Longrightarrow> q \<in> fst ` L"
begin

definition rows_from :: "(string \<times> 'a) set \<Rightarrow> (string \<times> 'r) list \<Rightarrow> bool" where
  "rows_from L m \<longleftrightarrow>
     distinct (map fst m) \<and>
     (\<forall>q. case map_of m q of None \<Rightarrow> q \<notin> fst ` L | Some r \<Rightarrow> ok L q r)"

lemma rows_fromD:
  assumes "rows_from L m"
  shows "map_of m q = None \<Longrightarrow> q \<notin> fst ` L" and "map_of m q = Some r \<Longrightarrow> ok L q r"
    and "distinct (map fst m)"
proof -
  from assms have "case map_of m q of None \<Rightarrow> q \<notin> fst ` L | Some r \<Rightarrow> ok L q r"
    unfolding rows_from_def by blast
  then show "map_of m q = None \<Longrightarrow> q \<notin> fst ` L" and "map_of m q = Some r \<Longrightarrow> ok L q r"
    by simp_all
  from assms show "distinct (map fst m)" unfolding rows_from_def by blast
qed

lemma rows_from_fin:
  assumes "rows_from L m"
  shows "rows_from (insert (q, a) L) (fin q a m)"
proof -
  let ?m = "fin q a m"
  have d: "distinct (map fst ?m)" using rows_fromD(3) [OF assms] by (simp add: fin_update)
  have "case map_of ?m q' of None \<Rightarrow> q' \<notin> fst ` insert (q, a) L
      | Some r \<Rightarrow> ok (insert (q, a) L) q' r" for q'
  proof (cases "q' = q")
    case True
    with rows_fromD(1,2) [OF assms, of q] show ?thesis
      by (cases "map_of m q") (simp_all add: fin_update update_conv' ok_first ok_merge)
  next
    case False
    then have "q' \<in> fst ` insert (q, a) L \<longleftrightarrow> q' \<in> fst ` L" by auto
    with False rows_fromD(1,2) [OF assms, where q = q'] show ?thesis
      by (auto simp: ok_other fin_update update_conv' split: option.split)
  qed
  with d show ?thesis by (simp add: rows_from_def)
qed

lemma rows_from_log: "rows_from (set log) (foldl (\<lambda>m (q, a). fin q a m) [] log)"
proof (induction log rule: rev_induct)
  case Nil
  then show ?case by (simp add: rows_from_def)
next
  case (snoc p log)
  obtain q a where p: "p = (q, a)" by (cases p)
  from rows_from_fin [OF snoc, of q a] show ?case by (simp add: p)
qed

lemma row_ok:
  assumes "rows_from L m" and "(q, r) \<in> set m"
  shows "ok L q r" and "name r = q"
proof -
  from rows_fromD(3) [OF assms(1)] assms(2) have "map_of m q = Some r" by simp
  then show "ok L q r" by (rule rows_fromD(2) [OF assms(1)])
  then show "name r = q" by (rule ok_name)
qed

lemma row_names:
  assumes "rows_from L m"
  shows "map name (map snd m) = map fst m" and "name ` set (map snd m) = fst ` L"
proof -
  show names: "map name (map snd m) = map fst m"
    using row_ok(2) [OF assms] by (auto simp: comp_def)
  have "name ` set (map snd m) = dom (map_of m)"
    using arg_cong [OF names, of set] by (simp only: set_map dom_map_of_conv_image_fst)
  also have "\<dots> = fst ` L"
  proof
    show "dom (map_of m) \<subseteq> fst ` L" using rows_fromD(2) [OF assms] ok_in by blast
    show "fst ` L \<subseteq> dom (map_of m)" using rows_fromD(1) [OF assms] by blast
  qed
  finally show "name ` set (map snd m) = fst ` L" .
qed

lemma table_rows:
  assumes "rows_from L m" and "rows = sort_key k (map snd m)"
  shows "name ` set rows = fst ` L \<and> distinct (map name rows) \<and> sorted (map k rows) \<and>
    (\<forall>r \<in> set rows. ok L (name r) r)"
proof -
  have set: "set rows = set (map snd m)" by (simp add: assms(2))
  have "mset (map name rows) = mset (map name (map snd m))"
    by (simp only: assms(2) mset_map mset_sort)
  then have "distinct (map name rows)"
    unfolding row_names(1) [OF assms(1)]
    using rows_fromD(3) [OF assms(1)] by (metis mset_eq_imp_distinct_iff)
  moreover have "ok L (name r) r" if "r \<in> set rows" for r
  proof -
    from that set obtain q where "(q, r) \<in> set m" by auto
    from row_ok [OF assms(1) this] show ?thesis by simp
  qed
  ultimately show ?thesis
    using row_names(2) [OF assms(1)] set by (simp add: assms(2))
qed

end

interpretation mem_table: keyed_rows mem_finalize
  "\<lambda>q a old. let sm = mem_row q a in
     (case old of None \<Rightarrow> sm
      | Some r \<Rightarrow> (if sm_peak_bytes r < sm_peak_bytes sm then sm else r)
          \<lparr>sm_growth_bytes := max (sm_growth_bytes r) (sm_growth_bytes sm)\<rparr>)"
  row_from sm_qualname
proof unfold_locales
  show "row_from L q r \<Longrightarrow> q \<in> fst ` L" for L q r
    unfolding row_from_def by (metis fst_conv imageI)
qed (simp_all add: mem_finalize_def Let_def row_from_first row_from_merge row_from_other
      row_from_name split: option.split)

lemma entered_ids_perm: "mset es = mset fs \<Longrightarrow> mset (entered_ids es) = mset (entered_ids fs)"
proof -
  have "mset (entered_ids xs) = \<Sum>\<^sub># (image_mset (\<lambda>e. mset (entered_ids [e])) (mset xs))" for xs
  proof (induction xs)
    case (Cons x xs)
    have "mset (entered_ids (x # xs)) = mset (entered_ids ([x] @ xs))" by simp
    also have "\<dots> = mset (entered_ids [x]) + mset (entered_ids xs)"
      by (simp only: entered_ids_simps(3) mset_append)
    finally show ?case using Cons by (simp del: entered_ids_simps(2))
  qed simp
  then show "mset es = mset fs \<Longrightarrow> mset (entered_ids es) = mset (entered_ids fs)" by simp
qed

lemma distinct_in_time_order:
  assumes "distinct (entered_ids es)"
  shows "distinct (entered_ids (in_time_order es))"
proof -
  have "mset (entered_ids (in_time_order es)) = mset (entered_ids es)"
    by (rule entered_ids_perm) (simp add: in_time_order_def)
  with assms show ?thesis by (metis mset_eq_imp_distinct_iff)
qed

lemma mem_rows_from_calls:
  assumes "distinct (entered_ids es)"
  shows "mem_table.rows_from (set (scope_calls (\<lambda>_ _. ()) mem_observe mem_accum_default () es))
    (mem_flush (foldl mem_step mem_init es))"
proof -
  obtain log where "mem.finish (foldl mem_step mem_init es) = mem.logs log (ms_by_qualname mem_init)"
    and "mset log = mem.pending mem_init es +
      mset (scope_calls (\<lambda>_ _. ()) mem_observe mem_accum_default () es)"
    using mem.track_run [of mem_init es] assms by (auto simp: mem_init_def)
  moreover have "mem.pending mem_init es = {#}" by (simp add: mem.pending_def mem_init_def)
  ultimately have "set log = set (scope_calls (\<lambda>_ _. ()) mem_observe mem_accum_default () es)"
    and "mem_flush (foldl mem_step mem_init es) = mem.logs log []"
    by (auto simp: mem_flush_def mem.finish_def mem_init_def dest: mset_eq_setD)
  with mem_table.rows_from_log [of log] show ?thesis by (simp add: mem.logs_def)
qed

lemma length_call_samples: "length (call_samples c es) \<le> length es"
proof -
  have "length (drain_samples dl es) \<le> length es" for dl es
    by (induction es) (auto split: payload.split)
  then show ?thesis
    by (induction es) (auto split: payload.split intro: le_SucI)
qed

lemma length_mem_calls: "(q, w) \<in> set (mem_calls es) \<Longrightarrow> length w \<le> length es"
  by (induction es) (auto split: payload.splits intro: le_SucI length_call_samples)

section \<open>Properties\<close>

definition windows_of :: "event list \<Rightarrow> string \<Rightarrow> (bool \<times> u64) list set" where
  "windows_of es q = {w. (q, w) \<in> set (mem_calls (in_time_order es))}"

definition memory_row_ok :: "(bool \<times> u64) list set \<Rightarrow> scope_memory \<Rightarrow> bool" where
  "memory_row_ok ws r \<longleftrightarrow>
     (\<exists>w \<in> ws. sm_peak_bytes r = win_peak w \<and> (\<forall>v \<in> ws. win_peak v \<le> win_peak w) \<and>
        sm_sample_count r = of_nat (length w) \<and>
        sm_avg_bytes r = of_nat (win_total w div length w) \<and>
        sm_end_bytes r = (if w = [] then 0 else snd (last w))) \<and>
     (\<exists>w \<in> ws. sm_growth_bytes r = win_growth w \<and> (\<forall>v \<in> ws. win_growth v \<le> win_growth w))"

lemma row_from_ok:
  assumes "row_from (set (map (\<lambda>(q, w). (q, mem_of w)) cs)) q r"
    and "\<And>q w. (q, w) \<in> set cs \<Longrightarrow> length w < 2 ^ 64"
  shows "memory_row_ok {w. (q, w) \<in> set cs} r"
proof -
  let ?L = "set (map (\<lambda>(q, w). (q, mem_of w)) cs)"
  have in_L: "(q, mem_of v) \<in> ?L" if "(q, v) \<in> set cs" for v using that by force
  from assms(1) obtain a where a: "(q, a) \<in> ?L"
    "r = (mem_row q a)\<lparr>sm_growth_bytes := sm_growth_bytes r\<rparr>"
    "\<forall>b. (q, b) \<in> ?L \<longrightarrow> ma_peak b \<le> ma_peak a" unfolding row_from_def by blast
  then obtain w where w: "(q, w) \<in> set cs" "a = mem_of w" by auto
  note row = mem_row_of [OF assms(2) [OF w(1)], of q]
  have r: "sm_peak_bytes r = win_peak w" "sm_sample_count r = of_nat (length w)"
    "sm_avg_bytes r = of_nat (win_total w div length w)"
    "sm_end_bytes r = (if w = [] then 0 else snd (last w))"
    by (subst a(2), simp add: w(2) row)+
  have "win_peak v \<le> win_peak w" if "(q, v) \<in> set cs" for v
  proof -
    from a(3) in_L [OF that] have "ma_peak (mem_of v) \<le> ma_peak (mem_of w)"
      unfolding w(2) by blast
    with mem_of_fields [OF assms(2) [OF that]] mem_of_fields [OF assms(2) [OF w(1)]]
    show ?thesis by simp
  qed
  moreover
  from assms(1) obtain g where g: "(q, g) \<in> ?L" "sm_growth_bytes r = sm_growth_bytes (mem_row q g)"
    "\<forall>b. (q, b) \<in> ?L \<longrightarrow> sm_growth_bytes (mem_row q b) \<le> sm_growth_bytes r"
    unfolding row_from_def by blast
  then obtain x where x: "(q, x) \<in> set cs" "g = mem_of x" by auto
  have "sm_growth_bytes r = win_growth x"
    using g(2) x(2) mem_row_of(2) [OF assms(2) [OF x(1)], of q] by simp
  moreover from this have "win_growth v \<le> win_growth x" if "(q, v) \<in> set cs" for v
  proof -
    from g(3) in_L [OF that] have "sm_growth_bytes (mem_row q (mem_of v)) \<le> sm_growth_bytes r"
      by blast
    with mem_row_of(2) [OF assms(2) [OF that], of q] \<open>sm_growth_bytes r = win_growth x\<close>
    show ?thesis by simp
  qed
  ultimately show ?thesis using w(1) x(1) r unfolding memory_row_ok_def by blast
qed

text \<open>
  C10. In a recording whose module calls have distinct ids (and of fewer than \<open>2\<^sup>6\<^sup>4\<close> events) there is
  one row per qualname that was entered, sorted by peak with ties by name.  Each row takes its peak,
  average, end and sample count together from one call of the scope, one with the highest peak; its
  growth is the largest growth of any call of the scope, which may be another one.  A call counts
  exactly the samples between its entry and its return in time order plus those within the grace
  after it, and its growth is the rise above its first sample while it ran.
\<close>

theorem memory_breakdown_rows:
  assumes "distinct (entered_ids es)" and "length es < 2 ^ 64"
  shows "sm_qualname ` set (compute_memory_breakdown es) = fst ` set (mem_calls (in_time_order es)) \<and>
    distinct (map sm_qualname (compute_memory_breakdown es)) \<and>
    sorted (map (\<lambda>r. (desc (sm_peak_bytes r), sm_qualname r)) (compute_memory_breakdown es)) \<and>
    list_all (\<lambda>r. memory_row_ok (windows_of es (sm_qualname r)) r) (compute_memory_breakdown es)"
proof -
  let ?cs = "mem_calls (in_time_order es)"
  let ?m = "mem_flush (foldl mem_step mem_init (in_time_order es))"
  let ?L = "set (map (\<lambda>(q, w). (q, mem_of w)) ?cs)"
  have "mem_table.rows_from ?L ?m"
    using mem_rows_from_calls [OF distinct_in_time_order [OF assms(1)]]
    by (simp only: scope_calls_mem)
  note rows = mem_table.table_rows [OF this compute_memory_breakdown_def]
  have "length w < 2 ^ 64" if "(q, w) \<in> set ?cs" for q w
    using length_mem_calls [OF that] assms(2) by (simp add: in_time_order_def)
  with rows have "memory_row_ok (windows_of es (sm_qualname r)) r"
    if "r \<in> set (compute_memory_breakdown es)" for r
    unfolding windows_of_def using that by (intro row_from_ok) auto
  moreover have "fst ` ?L = fst ` set ?cs" by force
  ultimately show ?thesis using rows by (simp add: list_all_iff)
qed

definition memory_example :: "event list" where
  "memory_example =
     [mk_event 10 1 (ModuleEntered 1 0 ''m'' [] None 0 []),
      mk_event 20 2 (MetalDeviceMemSample 100 0 []),
      mk_event 30 3 (ModuleReturned 1),
      mk_event 40 4 (MetalDeviceMemSample 300 0 [])]"

theorem memory_breakdown_rows_witness:
  "sm_qualname ` set (compute_memory_breakdown memory_example) = {''m''} \<and>
   windows_of memory_example ''m'' = {[(True, 100), (False, 300)]} \<and>
   list_all (\<lambda>r. memory_row_ok (windows_of memory_example (sm_qualname r)) r)
     (compute_memory_breakdown memory_example)"
proof -
  have order: "in_time_order memory_example = memory_example"
    unfolding in_time_order_def by (rule sort_key_id_if_sorted) (simp add: memory_example_def)
  have calls: "mem_calls memory_example = [(''m'', [(True, 100), (False, 300)])]"
    by (simp add: memory_example_def sat_add_def ASYNC_GRACE_NS_def)
  have "distinct (entered_ids memory_example)" "length memory_example < 2 ^ 64"
    by (simp_all add: memory_example_def)
  from memory_breakdown_rows [OF this] show ?thesis
    by (simp add: order calls windows_of_def)
qed

section \<open>Heaps\<close>

text \<open>The row of a qualname is that of a call with the largest heap total.\<close>

definition heap_row_from :: "(string \<times> heap_accum) set \<Rightarrow> string \<Rightarrow> heap_memory \<Rightarrow> bool" where
  "heap_row_from L q r \<longleftrightarrow>
     (\<exists>a. (q, a) \<in> L \<and>
        r = \<lparr>hm_qualname = q, hm_peak_heap_count = ha_peak_count a,
             hm_peak_heap_bytes = ha_peak_bytes a\<rparr> \<and>
        (\<forall>b. (q, b) \<in> L \<longrightarrow> ha_peak_bytes b \<le> ha_peak_bytes a))"

lemma heap_row_merge:
  assumes "heap_row_from L q r"
  shows "heap_row_from (insert (q, a) L) q
    (if hm_peak_heap_bytes r < ha_peak_bytes a
     then \<lparr>hm_qualname = q, hm_peak_heap_count = ha_peak_count a, hm_peak_heap_bytes = ha_peak_bytes a\<rparr>
     else r)"
proof -
  from assms obtain b where b: "(q, b) \<in> L" "r = \<lparr>hm_qualname = q,
      hm_peak_heap_count = ha_peak_count b, hm_peak_heap_bytes = ha_peak_bytes b\<rparr>"
    "\<forall>c. (q, c) \<in> L \<longrightarrow> ha_peak_bytes c \<le> ha_peak_bytes b" unfolding heap_row_from_def by blast
  show ?thesis
  proof (cases "ha_peak_bytes b < ha_peak_bytes a")
    case True
    with b show ?thesis unfolding heap_row_from_def by (intro exI [of _ a]) fastforce
  next
    case False
    with b show ?thesis unfolding heap_row_from_def by (intro exI [of _ b]) (auto simp: not_less)
  qed
qed

interpretation heap_table: keyed_rows heap_finalize
  "\<lambda>q a old. let hm = \<lparr>hm_qualname = q, hm_peak_heap_count = ha_peak_count a,
                      hm_peak_heap_bytes = ha_peak_bytes a\<rparr> in
     (case old of None \<Rightarrow> hm
      | Some r \<Rightarrow> if hm_peak_heap_bytes r < hm_peak_heap_bytes hm then hm else r)"
  heap_row_from hm_qualname
proof unfold_locales
  show "heap_row_from L q r \<Longrightarrow> q \<in> fst ` L" for L q r
    unfolding heap_row_from_def by (metis fst_conv imageI)
  show "q \<notin> fst ` L \<Longrightarrow> heap_row_from (insert (q, a) L) q
      (let hm = \<lparr>hm_qualname = q, hm_peak_heap_count = ha_peak_count a,
                 hm_peak_heap_bytes = ha_peak_bytes a\<rparr> in
        case None of None \<Rightarrow> hm
        | Some r \<Rightarrow> if hm_peak_heap_bytes r < hm_peak_heap_bytes hm then hm else r)" for L q a
    unfolding heap_row_from_def by force
  show "heap_row_from L q r \<Longrightarrow> hm_qualname r = q" for L q r
    unfolding heap_row_from_def by auto
  show "heap_row_from L q r \<Longrightarrow> heap_row_from (insert (q, a) L) q
      (let hm = \<lparr>hm_qualname = q, hm_peak_heap_count = ha_peak_count a,
                 hm_peak_heap_bytes = ha_peak_bytes a\<rparr> in
        case Some r of None \<Rightarrow> hm
        | Some r \<Rightarrow> if hm_peak_heap_bytes r < hm_peak_heap_bytes hm then hm else r)" for L q r a
    using heap_row_merge [of L q r a] by (simp add: Let_def)
  show "q' \<noteq> q \<Longrightarrow> heap_row_from (insert (q, a) L) q' r = heap_row_from L q' r" for L q q' a r
    unfolding heap_row_from_def by simp
qed (simp add: heap_finalize_def Let_def)

definition heap_calls :: "event list \<Rightarrow> (string \<times> heap_accum) list" where
  "heap_calls es = scope_calls heap_track heap_observe heap_accum_default [] es"

lemma heap_rows_from_calls:
  assumes "distinct (entered_ids es)"
  shows "heap_table.rows_from (set (heap_calls es)) (heap_flush (foldl heap_step heap_init es))"
proof -
  obtain log where
    "heaps.finish (foldl heap_step heap_init es) = heaps.logs log (hs_by_qualname heap_init)"
    and "mset log = heaps.pending heap_init es + mset (heap_calls es)"
    using heaps.track_run [of heap_init es] assms by (auto simp: heap_init_def heap_calls_def)
  moreover have "heaps.pending heap_init es = {#}" by (simp add: heaps.pending_def heap_init_def)
  ultimately have "set log = set (heap_calls es)"
    and "heap_flush (foldl heap_step heap_init es) = heaps.logs log []"
    by (auto simp: heap_flush_def heaps.finish_def heap_init_def dest: mset_eq_setD)
  with heap_table.rows_from_log [of log] show ?thesis by (simp add: heaps.logs_def)
qed

text \<open>
  The heap table has one row per qualname, largest heap total first: the heap count and the
  total of one of its calls, one whose total is the largest, where a call's figures are the
  maxima of the live heaps over the events it was open or draining for.
\<close>

theorem heap_breakdown_rows:
  assumes "distinct (entered_ids es)"
  shows "hm_qualname ` set (compute_heap_breakdown es) =
      fst ` set (heap_calls (in_time_order es)) \<and>
    distinct (map hm_qualname (compute_heap_breakdown es)) \<and>
    sorted (map (\<lambda>r. (desc (hm_peak_heap_bytes r), hm_qualname r)) (compute_heap_breakdown es)) \<and>
    (\<forall>r \<in> set (compute_heap_breakdown es).
       heap_row_from (set (heap_calls (in_time_order es))) (hm_qualname r) r)"
  by (rule heap_table.table_rows
      [OF heap_rows_from_calls [OF distinct_in_time_order [OF assms]] compute_heap_breakdown_def])

definition heap_example :: "event list" where
  "heap_example =
     [mk_event 10 1 (ModuleEntered 1 0 ''m'' [] None 0 []),
      mk_event 20 2 (MetalHeapAlloc 5 4096 None),
      mk_event 30 3 (MetalHeapFree 5),
      mk_event 40 4 (ModuleReturned 1)]"

theorem heap_breakdown_rows_witness:
  "heap_calls heap_example = [(''m'', \<lparr>ha_peak_count = 1, ha_peak_bytes = 4096\<rparr>)] \<and>
   hm_qualname ` set (compute_heap_breakdown heap_example) = {''m''} \<and>
   list_all (\<lambda>r. heap_row_from (set (heap_calls heap_example)) (hm_qualname r) r)
     (compute_heap_breakdown heap_example)"
proof -
  have order: "in_time_order heap_example = heap_example"
    unfolding in_time_order_def by (rule sort_key_id_if_sorted) (simp add: heap_example_def)
  have calls: "heap_calls heap_example = [(''m'', \<lparr>ha_peak_count = 1, ha_peak_bytes = 4096\<rparr>)]"
    by (simp add: heap_calls_def heap_example_def heap_track_def heap_observe_def
        observe_heaps_def heap_accum_default_def)
  have "distinct (entered_ids heap_example)" by (simp add: heap_example_def)
  from heap_breakdown_rows [OF this] calls show ?thesis by (simp add: order list_all_iff)
qed

end
