(* ===== verification/Origins.thy ===== *)
theory Origins
  imports CommandBuffers OpKinds Windows
begin

text \<open>
  Dispatch origins, \<open>crates/smeltr-analyzer/src/dispatch_origins.rs\<close>: every sampled op of a
  command buffer is credited to the Python line of the evaluation that covers its commit, or
  else to the innermost scope open then.  The pass interleaves the evaluation lookup with the
  forward sweep; the table it returns is shown to be the sums a direct definition gives.
\<close>

section \<open>The pass\<close>

record dispatch_origin =
  do_kind :: string
  do_file_line :: string
  do_gpu_ns :: u64
  do_dispatch_count :: u64

definition op_kind :: "op_sample \<Rightarrow> string" where
  "op_kind op =
     (case op_symbol op of
        Some s \<Rightarrow> (case resolve_kind s of Some resolved \<Rightarrow> resolved | None \<Rightarrow> s)
      | None \<Rightarrow> op_name op)"

type_synonym origin_table = "((string \<times> string) \<times> u64 \<times> u64) list"

definition origin_add :: "string \<Rightarrow> origin_table \<Rightarrow> op_sample \<Rightarrow> origin_table" where
  "origin_add file_line agg op =
     entry_mod (op_kind op, file_line) (0, 0)
       (\<lambda>(g, n). (g + op_gpu_ns op, n + ucast (op_count op))) agg"

definition eval_frame :: "eval_window list \<Rightarrow> u64 \<Rightarrow> string option" where
  "eval_frame evals ts = Option.bind (eval_at evals ts) (\<lambda>i. ew_top_frame (evals ! i))"

definition origin_step ::
  "eval_window list \<Rightarrow> scope_sweep \<times> origin_table \<Rightarrow> u64 \<times> op_sample list
     \<Rightarrow> scope_sweep \<times> origin_table"
where
  "origin_step evals st cb =
     (case (st, cb) of ((sweep, agg), (commit_ts, ops)) \<Rightarrow>
        (case eval_frame evals commit_ts of
           Some frame \<Rightarrow> (sweep, foldl (origin_add frame) agg ops)
         | None \<Rightarrow>
             (case innermost_at sweep commit_ts of
                (sweep', Some win) \<Rightarrow>
                  (sweep', foldl (origin_add (''scope:'' @ sw_qualname win)) agg ops)
              | (sweep', None) \<Rightarrow> (sweep', agg))))"

definition framed_evals :: "event list \<Rightarrow> eval_window list" where
  "framed_evals es = filter (\<lambda>w. ew_top_frame w \<noteq> None) (eval_windows es)"

definition sampled_cbs :: "event list \<Rightarrow> (u64 \<times> op_sample list) list" where
  "sampled_cbs es =
     sort_key fst (List.map_filter (\<lambda>cb. map_option (Pair (cb_commit_ts cb)) (cb_ops cb))
       (cc_completed (clamped_command_buffers es)))"

definition compute_dispatch_origins :: "event list \<Rightarrow> dispatch_origin list" where
  "compute_dispatch_origins es =
     (let agg = snd (foldl (origin_step (framed_evals es))
            (sweep_new (sws_windows (scope_windows es)), []) (sampled_cbs es))
      in sort_key (\<lambda>r. desc (do_gpu_ns r))
           (map (\<lambda>((kind, file_line), (gpu_ns, count)).
               \<lparr>do_kind = kind, do_file_line = file_line, do_gpu_ns = gpu_ns,
                do_dispatch_count = count\<rparr>) agg))"

section \<open>The table\<close>

text \<open>Where a command buffer committed at \<open>ts\<close> comes from.\<close>

definition origin_at :: "event list \<Rightarrow> u64 \<Rightarrow> string option" where
  "origin_at es ts =
     (case eval_frame (framed_evals es) ts of
        Some frame \<Rightarrow> Some frame
      | None \<Rightarrow> map_option (\<lambda>w. ''scope:'' @ sw_qualname w)
          (scope_at (sws_windows (scope_windows es)) ts))"

text \<open>The ops with an origin, each with its key.\<close>

definition origin_items :: "event list \<Rightarrow> ((string \<times> string) \<times> op_sample) list" where
  "origin_items es =
     concat (map (\<lambda>(ts, ops). case origin_at es ts of
         None \<Rightarrow> [] | Some f \<Rightarrow> map (\<lambda>op. ((op_kind op, f), op)) ops) (sampled_cbs es))"

definition item_add :: "origin_table \<Rightarrow> (string \<times> string) \<times> op_sample \<Rightarrow> origin_table" where
  "item_add agg it = origin_add (snd (fst it)) agg (snd it)"

lemma origin_add_items:
  "foldl (origin_add f) agg ops = foldl item_add agg (map (\<lambda>op. ((op_kind op, f), op)) ops)"
  by (induction ops arbitrary: agg) (simp_all add: item_add_def)

lemma origin_run:
  assumes "sorted (map fst cbs)" and "\<forall>cb \<in> set cbs. t0 \<le> fst cb"
    and "sweep_inv (sws_windows (scope_windows es)) t0 sweep"
  shows "snd (foldl (origin_step (framed_evals es)) (sweep, agg) cbs) =
    foldl item_add agg (concat (map (\<lambda>(ts, ops). case origin_at es ts of
         None \<Rightarrow> [] | Some f \<Rightarrow> map (\<lambda>op. ((op_kind op, f), op)) ops) cbs))"
  using assms
proof (induction cbs arbitrary: t0 sweep agg)
  case Nil
  then show ?case by simp
next
  case (Cons cb cbs)
  let ?ws = "sws_windows (scope_windows es)"
  obtain ts ops where cb: "cb = (ts, ops)" by (cases cb)
  from Cons.prems cb have le: "t0 \<le> ts" and sorted: "sorted (map fst cbs)"
    and later: "\<forall>cb \<in> set cbs. ts \<le> fst cb" by auto
  have inv: "sweep_inv ?ws ts sweep" by (rule sweep_inv_mono [OF Cons.prems(3) le])
  have "sorted (map sw_t_in ?ws)" by (simp add: scope_windows_def Let_def)
  note hit = innermost_at_correct [OF inv this]
  show ?case
  proof (cases "eval_frame (framed_evals es) ts")
    case (Some f)
    with Cons.IH [OF sorted later inv] show ?thesis
      by (simp add: cb origin_step_def origin_at_def origin_add_items)
  next
    case None
    obtain sw r where i: "innermost_at sweep ts = (sw, r)" by fastforce
    with hit have r: "scope_at ?ws ts = r" and inv': "sweep_inv ?ws ts sw" by simp_all
    from Cons.IH [OF sorted later inv'] None i r show ?thesis
      by (cases r) (simp_all add: cb origin_step_def origin_at_def origin_add_items)
  qed
qed

lemma origin_table_eq:
  "snd (foldl (origin_step (framed_evals es))
      (sweep_new (sws_windows (scope_windows es)), []) (sampled_cbs es)) =
    foldl item_add [] (origin_items es)"
  unfolding origin_items_def
  by (rule origin_run [of _ 0]) (simp_all add: sampled_cbs_def sweep_inv_new)

lemma item_add_run:
  assumes "distinct (map fst agg)" and "\<forall>it \<in> set its. fst (fst it) = op_kind (snd it)"
  shows "distinct (map fst (foldl item_add agg its)) \<and>
    map_of (foldl item_add agg its) k =
      (let xs = map snd (filter (\<lambda>it. fst it = k) its)
       in case map_of agg k of
            Some (g, n) \<Rightarrow> Some (g + ops_sum xs, n + sum_list (map (\<lambda>op. ucast (op_count op)) xs))
          | None \<Rightarrow> if xs = [] then None
              else Some (ops_sum xs, sum_list (map (\<lambda>op. ucast (op_count op)) xs)))"
  using assms
proof (induction its arbitrary: agg)
  case Nil
  then show ?case by (auto simp: ops_sum_def split: option.split)
next
  case (Cons it its)
  let ?agg = "item_add agg it"
  have "distinct (map fst ?agg)"
    using Cons.prems by (simp add: item_add_def origin_add_def)
  from Cons.IH [OF this] Cons.prems have IH: "distinct (map fst (foldl item_add ?agg its))"
    "map_of (foldl item_add ?agg its) k =
      (let xs = map snd (filter (\<lambda>it. fst it = k) its)
       in case map_of ?agg k of
            Some (g, n) \<Rightarrow> Some (g + ops_sum xs, n + sum_list (map (\<lambda>op. ucast (op_count op)) xs))
          | None \<Rightarrow> if xs = [] then None
              else Some (ops_sum xs, sum_list (map (\<lambda>op. ucast (op_count op)) xs)))"
    by simp_all
  have key: "(op_kind (snd it), snd (fst it)) = fst it" using Cons.prems(2) by (simp add: prod_eq_iff)
  have upd: "map_of ?agg k =
      (if fst it = k
       then Some (case map_of agg k of
            None \<Rightarrow> (op_gpu_ns (snd it), ucast (op_count (snd it)))
          | Some (g, n) \<Rightarrow> (g + op_gpu_ns (snd it), n + ucast (op_count (snd it))))
       else map_of agg k)"
    using key by (auto simp: item_add_def origin_add_def split: option.split)
  show ?case
  proof (cases "fst it = k")
    case True
    with IH upd show ?thesis
      by (cases "map_of agg k") (auto simp del: map_map simp: Let_def ops_sum_def add.assoc)
  next
    case False
    with IH upd show ?thesis by (simp add: Let_def)
  qed
qed

section \<open>Property\<close>

definition origin_row :: "event list \<Rightarrow> string \<times> string \<Rightarrow> dispatch_origin" where
  "origin_row es k =
     (let xs = map snd (filter (\<lambda>it. fst it = k) (origin_items es))
      in \<lparr>do_kind = fst k, do_file_line = snd k, do_gpu_ns = ops_sum xs,
          do_dispatch_count = sum_list (map (\<lambda>op. ucast (op_count op)) xs)\<rparr>)"

text \<open>
  The origins are one row per kind and line that some sampled op has, heaviest first; a
  row holds the time and the dispatches of exactly the ops with that kind whose command buffer
  was committed under that origin, decided per command buffer by the latest framed evaluation
  covering its commit and otherwise by the innermost scope.
\<close>

theorem dispatch_origins_exact:
  "set (compute_dispatch_origins es) = origin_row es ` fst ` set (origin_items es) \<and>
   distinct (map (\<lambda>r. (do_kind r, do_file_line r)) (compute_dispatch_origins es)) \<and>
   sorted (map (desc \<circ> do_gpu_ns) (compute_dispatch_origins es))"
proof -
  let ?T = "foldl item_add [] (origin_items es)"
  let ?row = "\<lambda>((kind, file_line), (gpu_ns, count)).
      \<lparr>do_kind = kind, do_file_line = file_line, do_gpu_ns = gpu_ns, do_dispatch_count = count\<rparr>"
  have out: "compute_dispatch_origins es = sort_key (\<lambda>r. desc (do_gpu_ns r)) (map ?row ?T)"
    unfolding compute_dispatch_origins_def origin_table_eq Let_def by simp
  have kinds: "\<forall>it \<in> set (origin_items es). fst (fst it) = op_kind (snd it)"
    by (auto simp: origin_items_def split: option.splits)
  note run = item_add_run [of "[]", OF _ kinds, simplified]
  have d: "distinct (map fst ?T)" using run by blast
  have T: "(k, v) \<in> set ?T \<longleftrightarrow> k \<in> fst ` set (origin_items es) \<and> ?row (k, v) = origin_row es k" for k v
  proof -
    let ?xs = "map snd (filter (\<lambda>it. fst it = k) (origin_items es))"
    have "(k, v) \<in> set ?T \<longleftrightarrow> map_of ?T k = Some v" using d by simp
    also have "\<dots> \<longleftrightarrow> ?xs \<noteq> [] \<and>
        v = (ops_sum ?xs, sum_list (map (\<lambda>op. ucast (op_count op)) ?xs))"
      using run [of k] by (auto simp: Let_def)
    also have "?xs \<noteq> [] \<longleftrightarrow> k \<in> fst ` set (origin_items es)" by (auto simp: filter_empty_conv)
    finally show ?thesis by (cases k; cases v) (auto simp: origin_row_def Let_def)
  qed
  have "set (compute_dispatch_origins es) = ?row ` set ?T" by (simp add: out)
  also have "\<dots> = origin_row es ` fst ` set (origin_items es)"
  proof
    show "?row ` set ?T \<subseteq> origin_row es ` fst ` set (origin_items es)"
    proof
      fix r
      assume "r \<in> ?row ` set ?T"
      then obtain k v where "(k, v) \<in> set ?T" "r = ?row (k, v)" by auto
      with T [of k v] show "r \<in> origin_row es ` fst ` set (origin_items es)" by blast
    qed
    show "origin_row es ` fst ` set (origin_items es) \<subseteq> ?row ` set ?T"
    proof
      fix r
      assume "r \<in> origin_row es ` fst ` set (origin_items es)"
      then obtain k where k: "k \<in> fst ` set (origin_items es)" "r = origin_row es k" by blast
      let ?v = "(do_gpu_ns r, do_dispatch_count r)"
      have row: "?row (k, ?v) = r" using k(2) by (cases k) (simp add: origin_row_def Let_def)
      with T [of k ?v] k have "(k, ?v) \<in> set ?T" by (simp only: simp_thms)
      from imageI [OF this, of ?row] show "r \<in> ?row ` set ?T" by (simp only: row)
    qed
  qed
  finally have "set (compute_dispatch_origins es) = origin_row es ` fst ` set (origin_items es)" .
  moreover have "mset (map (\<lambda>r. (do_kind r, do_file_line r)) (compute_dispatch_origins es)) =
      mset (map fst ?T)"
  proof -
    have "(\<lambda>r. (do_kind r, do_file_line r)) \<circ> ?row = fst" by (auto simp: fun_eq_iff)
    then show ?thesis
      by (simp only: out mset_map mset_sort image_mset.compositionality)
  qed
  then have "distinct (map (\<lambda>r. (do_kind r, do_file_line r)) (compute_dispatch_origins es))"
    using d mset_eq_imp_distinct_iff by blast
  ultimately show ?thesis by (simp add: out comp_def)
qed

end
