(* ===== verification/Diff.thy ===== *)
theory Diff
  imports OpRowsFacts Memory Origins
begin

text \<open>
  Session comparison, \<open>crates/smeltr-analyzer/src/diff.rs\<close>: scope, op, memory and origin
  deltas between two sessions, and the timing caveat.  Deltas are \<open>i64\<close> differences, which
  wrap; percentages are exact binary64 results.
\<close>

section \<open>Rows\<close>

record scope_delta =
  sd_qualname :: string
  sd_a_gpu_ns :: u64
  sd_b_gpu_ns :: u64
  sd_delta_ns :: i64
  sd_delta_pct :: "f64 option"

record op_delta =
  od_kind :: string
  od_a_gpu_ns :: u64
  od_b_gpu_ns :: u64
  od_delta_ns :: i64
  od_delta_pct :: "f64 option"

record memory_delta =
  md_qualname :: string
  md_a_peak_bytes :: u64
  md_b_peak_bytes :: u64
  md_delta_bytes :: i64
  md_delta_pct :: "f64 option"

record origin_delta =
  gd_kind :: string
  gd_file_line :: string
  gd_a_gpu_ns :: u64
  gd_b_gpu_ns :: u64
  gd_delta_ns :: i64
  gd_delta_pct :: "f64 option"

record scope_aggregate =
  sa_qualname :: string
  sa_gpu_ns :: u64

record session_diff =
  sdf_scope_deltas :: "scope_delta list"
  sdf_op_deltas :: "op_delta list"
  sdf_only_in_a :: "scope_aggregate list"
  sdf_only_in_b :: "scope_aggregate list"

definition pct :: "u64 \<Rightarrow> u64 \<Rightarrow> f64 option" where
  "pct a b =
     (if a = 0 then None
      else Some (f64_mul (f64_div (f64_sub (f64_of_u64 b) (f64_of_u64 a)) (f64_of_u64 a)) 100))"

text \<open>\<open>i64::unsigned_abs\<close>.\<close>

definition unsigned_abs :: "i64 \<Rightarrow> u64" where
  "unsigned_abs d = (if sint d < 0 then - d else d)"

section \<open>The maps of one session\<close>

type_synonym time_map = "(string \<times> u64) list"

definition time_add :: "string \<Rightarrow> u64 \<Rightarrow> time_map \<Rightarrow> time_map" where
  "time_add k ns m = entry_mod k 0 (\<lambda>g. g + ns) m"

fun walk_scopes :: "time_map \<Rightarrow> module_breakdown \<Rightarrow> time_map" where
  "walk_scopes out (ModuleBreakdown q c k s t ev cb ch ops dg flds) =
     foldl walk_scopes (time_add q t out) ch"

definition op_kind_key :: "op_attribution \<Rightarrow> string" where
  "op_kind_key op =
     (case oa_kind op of
        Some k \<Rightarrow> k
      | None \<Rightarrow>
          (case oa_symbol op of
             Some s \<Rightarrow> (case resolve_kind s of Some resolved \<Rightarrow> resolved | None \<Rightarrow> s)
           | None \<Rightarrow> oa_name op))"

fun walk_ops :: "time_map \<Rightarrow> module_breakdown \<Rightarrow> time_map" where
  "walk_ops out (ModuleBreakdown q c k s t ev cb ch ops dg flds) =
     foldl walk_ops (foldl (\<lambda>m op. time_add (op_kind_key op) (oa_gpu_ns op) m) out ops) ch"

definition scope_map :: "event list \<Rightarrow> time_map" where
  "scope_map es =
     (case compute es of
        Some (Inr rt) \<Rightarrow> AList.delete ''<root>'' (walk_scopes [] rt)
      | _ \<Rightarrow> [])"

definition op_map :: "event list \<Rightarrow> time_map" where
  "op_map es = (case compute es of Some (Inr rt) \<Rightarrow> walk_ops [] rt | _ \<Rightarrow> [])"

section \<open>Comparing\<close>

definition common_rows :: "('k \<Rightarrow> u64 \<Rightarrow> u64 \<Rightarrow> 'r) \<Rightarrow> ('k \<times> u64) list \<Rightarrow> ('k \<times> u64) list \<Rightarrow> 'r list" where
  "common_rows mk a b = List.map_filter (\<lambda>(k, x). map_option (mk k x) (map_of b k)) a"

definition only_rows :: "time_map \<Rightarrow> time_map \<Rightarrow> scope_aggregate list" where
  "only_rows a b =
     map (\<lambda>(q, g). \<lparr>sa_qualname = q, sa_gpu_ns = g\<rparr>)
       (filter (\<lambda>(q, _). map_of b q = None) a)"

definition mk_scope_delta :: "string \<Rightarrow> u64 \<Rightarrow> u64 \<Rightarrow> scope_delta" where
  "mk_scope_delta q a b =
     \<lparr>sd_qualname = q, sd_a_gpu_ns = a, sd_b_gpu_ns = b, sd_delta_ns = b - a,
      sd_delta_pct = pct a b\<rparr>"

definition get_or_0 :: "time_map \<Rightarrow> string \<Rightarrow> u64" where
  "get_or_0 m k = (case map_of m k of Some g \<Rightarrow> g | None \<Rightarrow> 0)"

definition mk_op_delta :: "time_map \<Rightarrow> time_map \<Rightarrow> string \<Rightarrow> op_delta" where
  "mk_op_delta a b k =
     \<lparr>od_kind = k, od_a_gpu_ns = get_or_0 a k, od_b_gpu_ns = get_or_0 b k,
      od_delta_ns = get_or_0 b k - get_or_0 a k, od_delta_pct = pct (get_or_0 a k) (get_or_0 b k)\<rparr>"

definition diff_sessions :: "event list \<Rightarrow> event list \<Rightarrow> session_diff" where
  "diff_sessions a_events b_events =
     (let a_scopes = scope_map a_events; b_scopes = scope_map b_events;
          a_ops = op_map a_events; b_ops = op_map b_events
      in \<lparr>sdf_scope_deltas =
            sort_key (\<lambda>d. desc (unsigned_abs (sd_delta_ns d)))
              (common_rows mk_scope_delta a_scopes b_scopes),
          sdf_op_deltas =
            sort_key (\<lambda>d. desc (unsigned_abs (od_delta_ns d)))
              (map (mk_op_delta a_ops b_ops) (sort (remdups (map fst a_ops @ map fst b_ops)))),
          sdf_only_in_a = sort_key (\<lambda>s. desc (sa_gpu_ns s)) (only_rows a_scopes b_scopes),
          sdf_only_in_b = sort_key (\<lambda>s. desc (sa_gpu_ns s)) (only_rows b_scopes a_scopes)\<rparr>)"

definition mk_memory_delta :: "string \<Rightarrow> u64 \<Rightarrow> u64 \<Rightarrow> memory_delta" where
  "mk_memory_delta q a b =
     \<lparr>md_qualname = q, md_a_peak_bytes = a, md_b_peak_bytes = b, md_delta_bytes = b - a,
      md_delta_pct = pct a b\<rparr>"

definition peak_map :: "event list \<Rightarrow> time_map" where
  "peak_map es = map (\<lambda>r. (sm_qualname r, sm_peak_bytes r)) (compute_memory_breakdown es)"

definition diff_memory :: "event list \<Rightarrow> event list \<Rightarrow> memory_delta list" where
  "diff_memory a_events b_events =
     sort_key (\<lambda>d. desc (unsigned_abs (md_delta_bytes d)))
       (common_rows mk_memory_delta (peak_map a_events) (peak_map b_events))"

definition mk_origin_delta :: "string \<times> string \<Rightarrow> u64 \<Rightarrow> u64 \<Rightarrow> origin_delta" where
  "mk_origin_delta k a b =
     \<lparr>gd_kind = fst k, gd_file_line = snd k, gd_a_gpu_ns = a, gd_b_gpu_ns = b,
      gd_delta_ns = b - a, gd_delta_pct = pct a b\<rparr>"

definition origin_map :: "event list \<Rightarrow> ((string \<times> string) \<times> u64) list" where
  "origin_map es = map (\<lambda>r. ((do_kind r, do_file_line r), do_gpu_ns r)) (compute_dispatch_origins es)"

definition diff_origins :: "event list \<Rightarrow> event list \<Rightarrow> origin_delta list" where
  "diff_origins a_events b_events =
     sort_key (\<lambda>d. desc (unsigned_abs (gd_delta_ns d)))
       (common_rows mk_origin_delta (origin_map a_events) (origin_map b_events))"

section \<open>Timing caveat\<close>

definition version_part :: "nat option list \<Rightarrow> nat \<Rightarrow> nat" where
  "version_part ps i = (if i < length ps then (case ps ! i of Some n \<Rightarrow> n | None \<Rightarrow> 0) else 0)"

record session_stamp =
  ss_smeltr_version :: "string option"
  ss_started_rfc3339 :: string

definition TIMING_FIX_VERSION :: "nat \<times> nat \<times> nat" where
  "TIMING_FIX_VERSION = (0, 28, 9)"

definition predates_timing_fix :: "session_stamp \<Rightarrow> bool" where
  "predates_timing_fix m =
     (case ss_smeltr_version m of
        Some v \<Rightarrow>
          (let ps = map parse_u64 (split_on CHR ''.'' v)
           in (version_part ps 0, version_part ps 1, version_part ps 2) < TIMING_FIX_VERSION)
      | None \<Rightarrow> ss_started_rfc3339 m < ''2026-09-24T00:00:00Z'')"

text \<open>The side named by the warning.\<close>

definition timing_caveat :: "session_stamp \<Rightarrow> session_stamp \<Rightarrow> char option" where
  "timing_caveat a b =
     (let old_a = predates_timing_fix a; old_b = predates_timing_fix b
      in if old_a \<noteq> old_b then Some (if old_a then CHR ''A'' else CHR ''B'') else None)"

section \<open>Facts about the maps\<close>

lemma distinct_time_add [simp]: "distinct (map fst m) \<Longrightarrow> distinct (map fst (time_add k ns m))"
  by (simp add: time_add_def)

lemma sum_time_add:
  "distinct (map fst m) \<Longrightarrow>
     alist_sum (\<lambda>g. g) (time_add k ns m) = alist_sum (\<lambda>g. g) m + ns"
  unfolding time_add_def by (rule alist_sum_entry_mod) simp_all

lemma sum_time_adds:
  "distinct (map fst m) \<Longrightarrow>
     distinct (map fst (foldl (\<lambda>m op. time_add (key op) (ns op) m) m ops)) \<and>
     alist_sum (\<lambda>g. g) (foldl (\<lambda>m op. time_add (key op) (ns op) m) m ops) =
       alist_sum (\<lambda>g. g) m + sum_list (map ns ops)"
  by (induction ops arbitrary: m) (simp_all add: sum_time_add add.assoc)

text \<open>A walk that keeps the keys distinct at every node keeps them distinct over the tree.\<close>

lemma foldl_walk:
  assumes "\<And>m x. x \<in> set xs \<Longrightarrow> distinct (map fst m) \<Longrightarrow>
      distinct (map fst (w m x)) \<and> alist_sum (\<lambda>g. g) (w m x) = alist_sum (\<lambda>g. g) m + (v x :: u64)"
    and "distinct (map fst m)"
  shows "distinct (map fst (foldl w m xs)) \<and>
    alist_sum (\<lambda>g. g) (foldl w m xs) = alist_sum (\<lambda>g. g) m + sum_list (map v xs)"
  using assms
proof (induction xs arbitrary: m)
  case Nil
  then show ?case by simp
next
  case (Cons x xs)
  from Cons.prems(1) [OF _ Cons.prems(2), of x] have x: "distinct (map fst (w m x))"
    "alist_sum (\<lambda>g. g) (w m x) = alist_sum (\<lambda>g. g) m + v x" by simp_all
  have "distinct (map fst (foldl w (w m x) xs)) \<and>
      alist_sum (\<lambda>g. g) (foldl w (w m x) xs) = alist_sum (\<lambda>g. g) (w m x) + sum_list (map v xs)"
    by (rule Cons.IH [OF _ x(1)]) (rule Cons.prems(1), simp_all)
  with x(2) show ?case by (simp add: add.assoc)
qed

lemma walk_ops_sum:
  "distinct (map fst m) \<Longrightarrow>
     distinct (map fst (walk_ops m t)) \<and>
     alist_sum (\<lambda>g. g) (walk_ops m t) = alist_sum (\<lambda>g. g) m + tree_sum op_time t"
proof (induction t arbitrary: m)
  case (ModuleBreakdown q c k s t ev cb ch ops dg fl)
  note ops = sum_time_adds [OF ModuleBreakdown.prems, of op_kind_key oa_gpu_ns ops]
  from foldl_walk [of ch walk_ops "tree_sum op_time", OF ModuleBreakdown.IH conjunct1 [OF ops]] ops
  show ?case by (simp add: add.assoc)
qed

lemma distinct_walk_scopes:
  "distinct (map fst m) \<Longrightarrow> distinct (map fst (walk_scopes m t))"
proof (induction t arbitrary: m)
  case (ModuleBreakdown q c k s t ev cb ch ops dg fl)
  have "distinct (map fst (foldl walk_scopes m' xs))"
    if "distinct (map fst m')" "set xs \<subseteq> set ch" for m' xs
    using that by (induction xs arbitrary: m') (simp_all add: ModuleBreakdown.IH)
  with ModuleBreakdown.prems show ?case by simp
qed

lemma distinct_scope_map: "distinct (map fst (scope_map es))"
  by (simp add: scope_map_def distinct_walk_scopes distinct_delete
      split: option.split sum.split)

lemma op_map_facts: "distinct (map fst (op_map es))"
  using walk_ops_sum [of "[]"] by (simp add: op_map_def split: option.split sum.split)

lemma common_rows_map:
  "common_rows mk a b =
     map (\<lambda>(k, x). mk k x (the (map_of b k))) (filter (\<lambda>(k, _). map_of b k \<noteq> None) a)"
  by (induction a) (auto simp: common_rows_def List.map_filter_simps split: option.split)

lemma set_common_rows:
  assumes "distinct (map fst a)"
  shows "set (common_rows mk a b) = {mk k x y |k x y. map_of a k = Some x \<and> map_of b k = Some y}"
    (is "?L = ?R")
proof
  show "?L \<subseteq> ?R"
  proof
    fix r
    assume "r \<in> ?L"
    then obtain k x y where "r = mk k x y" "(k, x) \<in> set a" "map_of b k = Some y"
      by (auto simp: common_rows_map)
    with assms show "r \<in> ?R" by (metis (mono_tags, lifting) map_of_is_SomeI mem_Collect_eq)
  qed
  show "?R \<subseteq> ?L"
  proof
    fix r
    assume "r \<in> ?R"
    then obtain k x y where r: "r = mk k x y" "map_of a k = Some x" "map_of b k = Some y" by blast
    from map_of_SomeD [OF r(2)] r(1,3) show "r \<in> ?L"
      by (force simp: common_rows_map)
  qed
qed

lemma set_only_rows:
  assumes "distinct (map fst a)"
  shows "set (only_rows a b) =
    {\<lparr>sa_qualname = q, sa_gpu_ns = x\<rparr> |q x. map_of a q = Some x \<and> map_of b q = None}" (is "?L = ?R")
proof
  show "?L \<subseteq> ?R" using assms by (auto simp: only_rows_def)
  show "?R \<subseteq> ?L" by (force simp: only_rows_def dest: map_of_SomeD)
qed

lemma sum_get_or_0:
  assumes "distinct (map fst m)" and "distinct ks" and "set (map fst m) \<subseteq> set ks"
  shows "sum_list (map (get_or_0 m) ks) = alist_sum (\<lambda>g. g) m"
  using assms
proof (induction m arbitrary: ks)
  case Nil
  then show ?case by (simp add: get_or_0_def)
next
  case (Cons p m)
  obtain k v where p: "p = (k, v)" by (cases p)
  with Cons.prems have k: "k \<in> set ks" and fresh: "k \<notin> fst ` set m" by auto
  let ?ks = "remove1 k ks"
  from k have perm: "mset ks = add_mset k (mset ?ks)" by simp
  have rest: "map (get_or_0 (p # m)) ?ks = map (get_or_0 m) ?ks"
    using Cons.prems(2) by (intro map_cong) (auto simp: get_or_0_def p)
  have "sum_list (map (get_or_0 (p # m)) ks) = sum_list (map (get_or_0 (p # m)) (k # ?ks))"
    using perm by (intro sum_list_mset_cong) simp
  then have "sum_list (map (get_or_0 (p # m)) ks) = v + sum_list (map (get_or_0 m) ?ks)"
    unfolding list.map sum_list.Cons rest by (simp add: get_or_0_def p)
  moreover have "sum_list (map (get_or_0 m) ?ks) = alist_sum (\<lambda>g. g) m"
    using Cons.prems fresh p by (intro Cons.IH) auto
  ultimately show ?case by (simp add: p)
qed

section \<open>Properties\<close>

text \<open>
  Every scope of either session is reported exactly once: the scope deltas list the names of
  both, the two only-in lists the names of one side, each with the times of the session maps.
\<close>

theorem diff_scopes_partition:
  "set (sdf_scope_deltas (diff_sessions a b)) =
     {mk_scope_delta q x y |q x y. map_of (scope_map a) q = Some x \<and> map_of (scope_map b) q = Some y} \<and>
   set (sdf_only_in_a (diff_sessions a b)) =
     {\<lparr>sa_qualname = q, sa_gpu_ns = x\<rparr> |q x. map_of (scope_map a) q = Some x \<and> map_of (scope_map b) q = None} \<and>
   set (sdf_only_in_b (diff_sessions a b)) =
     {\<lparr>sa_qualname = q, sa_gpu_ns = y\<rparr> |q y. map_of (scope_map a) q = None \<and> map_of (scope_map b) q = Some y} \<and>
   distinct (map sd_qualname (sdf_scope_deltas (diff_sessions a b)) @
     map sa_qualname (sdf_only_in_a (diff_sessions a b)) @
     map sa_qualname (sdf_only_in_b (diff_sessions a b)))"
proof -
  let ?A = "scope_map a" and ?B = "scope_map b"
  let ?both = "filter (\<lambda>(k, _). map_of ?B k \<noteq> None) ?A"
  let ?oa = "filter (\<lambda>(q, _). map_of ?B q = None) ?A"
  let ?ob = "filter (\<lambda>(q, _). map_of ?A q = None) ?B"
  have "set (sdf_scope_deltas (diff_sessions a b)) =
      {mk_scope_delta q x y |q x y. map_of ?A q = Some x \<and> map_of ?B q = Some y}"
    by (simp add: diff_sessions_def Let_def set_common_rows [OF distinct_scope_map])
  moreover have "set (sdf_only_in_a (diff_sessions a b)) =
      {\<lparr>sa_qualname = q, sa_gpu_ns = x\<rparr> |q x. map_of ?A q = Some x \<and> map_of ?B q = None}"
    by (simp add: diff_sessions_def Let_def set_only_rows [OF distinct_scope_map])
  moreover have "set (sdf_only_in_b (diff_sessions a b)) =
      {\<lparr>sa_qualname = q, sa_gpu_ns = y\<rparr> |q y. map_of ?A q = None \<and> map_of ?B q = Some y}"
    by (simp add: diff_sessions_def Let_def set_only_rows [OF distinct_scope_map] conj_commute)
  moreover have "distinct (map sd_qualname (sdf_scope_deltas (diff_sessions a b)) @
     map sa_qualname (sdf_only_in_a (diff_sessions a b)) @
     map sa_qualname (sdf_only_in_b (diff_sessions a b)))"
  proof -
    have "mset (map sd_qualname (sdf_scope_deltas (diff_sessions a b)) @
        map sa_qualname (sdf_only_in_a (diff_sessions a b)) @
        map sa_qualname (sdf_only_in_b (diff_sessions a b))) =
      mset (map fst ?both @ map fst ?oa @ map fst ?ob)"
      by (simp add: diff_sessions_def Let_def common_rows_map only_rows_def mk_scope_delta_def
          image_mset.compositionality comp_def case_prod_unfold)
    moreover have "distinct (map fst ?both @ map fst ?oa @ map fst ?ob)"
    proof -
      have keys: "set (map fst (filter (\<lambda>(k, _). P k) al)) = {k \<in> fst ` set al. P k}"
        for P and al :: time_map by force
      have d: "distinct (map fst (filter P (scope_map es)))" for P es
        by (rule distinct_map_filter [OF distinct_scope_map])
      show ?thesis
        unfolding distinct_append set_append keys map_of_eq_None_iff using d by blast
    qed
    ultimately show ?thesis using mset_eq_imp_distinct_iff by blast
  qed
  ultimately show ?thesis by blast
qed

text \<open>
  The op deltas of two captured sessions add up to the difference of their GPU times, and
  list every kind of either session once, largest change first.
\<close>

theorem diff_op_deltas_total:
  assumes "a \<noteq> []" and "distinct (entered_ids (clamped_events a))"
    and "parents_first (clamped_events a)"
    and "cc_seen_any_cb_ops (completed_command_buffers (clamped_events a))"
    and "b \<noteq> []" and "distinct (entered_ids (clamped_events b))"
    and "parents_first (clamped_events b)"
    and "cc_seen_any_cb_ops (completed_command_buffers (clamped_events b))"
  shows "sum_list (map od_delta_ns (sdf_op_deltas (diff_sessions a b))) =
      session_gpu_ns (clamped_events b) - session_gpu_ns (clamped_events a) \<and>
    distinct (map od_kind (sdf_op_deltas (diff_sessions a b))) \<and>
    sorted (map (\<lambda>d. desc (unsigned_abs (od_delta_ns d))) (sdf_op_deltas (diff_sessions a b)))"
proof -
  have total: "alist_sum (\<lambda>g. g) (op_map es) = session_gpu_ns (clamped_events es)"
    if "es \<noteq> []" "distinct (entered_ids (clamped_events es))" "parents_first (clamped_events es)"
      "cc_seen_any_cb_ops (completed_command_buffers (clamped_events es))" for es
  proof -
    let ?c = "clamped_events es"
    let ?rt = "root_of (attribute ?c) (sws_malformed_returns (scope_windows ?c))
        (clamped_cb_count (compute_op_time_scales es)) (call_trees ?c)"
    have "alist_sum (\<lambda>g. g) (op_map es) = tree_sum op_time ?rt"
      using walk_ops_sum [of "[]" ?rt] by (simp add: op_map_def compute_eq [OF that(1)])
    also have "\<dots> = mb_gpu_ns_subtree ?rt"
      using tree_sum_balanced [OF ops_balanced_tree [OF that(4)]]
        tree_sum_self [OF time_consistent_tree] by simp
    also have "\<dots> = session_gpu_ns ?c"
      using call_trees_sum [OF that(2,3)] attribute_conserves [of ?c]
      by (simp add: root_of_def add.commute)
    finally show ?thesis .
  qed
  let ?ks = "sort (remdups (map fst (op_map a) @ map fst (op_map b)))"
  have "sum_list (map od_delta_ns (sdf_op_deltas (diff_sessions a b))) =
      sum_list (map (get_or_0 (op_map b)) ?ks) - sum_list (map (get_or_0 (op_map a)) ?ks)"
  proof -
    have "sum_list (map (od_delta_ns \<circ> mk_op_delta x y) ks) =
        sum_list (map (get_or_0 y) ks) - sum_list (map (get_or_0 x) ks)" for x y ks
      by (induction ks) (simp_all add: mk_op_delta_def)
    then show ?thesis by (simp add: diff_sessions_def Let_def)
  qed
  also have "sum_list (map (get_or_0 (op_map b)) ?ks) = alist_sum (\<lambda>g. g) (op_map b)"
    by (rule sum_get_or_0 [OF op_map_facts]) auto
  also have "sum_list (map (get_or_0 (op_map a)) ?ks) = alist_sum (\<lambda>g. g) (op_map a)"
    by (rule sum_get_or_0 [OF op_map_facts]) auto
  also have "alist_sum (\<lambda>g. g) (op_map b) - alist_sum (\<lambda>g. g) (op_map a) =
      session_gpu_ns (clamped_events b) - session_gpu_ns (clamped_events a)"
    using total [OF assms(1-4)] total [OF assms(5-8)] by simp
  finally have "sum_list (map od_delta_ns (sdf_op_deltas (diff_sessions a b))) =
      session_gpu_ns (clamped_events b) - session_gpu_ns (clamped_events a)" .
  moreover have "distinct (map od_kind (sdf_op_deltas (diff_sessions a b)))"
  proof -
    have "od_kind \<circ> mk_op_delta x y = id" for x y by (simp add: mk_op_delta_def fun_eq_iff)
    then have "mset (map od_kind (sdf_op_deltas (diff_sessions a b))) = mset ?ks"
      by (simp add: diff_sessions_def Let_def image_mset.compositionality)
    moreover have "distinct ?ks" by simp
    ultimately show ?thesis using mset_eq_imp_distinct_iff by blast
  qed
  ultimately show ?thesis by (simp add: diff_sessions_def Let_def)
qed

theorem diff_op_deltas_total_witness:
  "sum_list (map od_delta_ns (sdf_op_deltas (diff_sessions breakdown_example breakdown_example))) = 0"
proof -
  have h: "breakdown_example \<noteq> []" "distinct (entered_ids (clamped_events breakdown_example))"
    "parents_first (clamped_events breakdown_example)"
    "cc_seen_any_cb_ops (completed_command_buffers (clamped_events breakdown_example))"
    unfolding example_clamp using example_captured
    by (simp_all add: breakdown_example_def parents_first_def parent_of_def upt_rec)
  from diff_op_deltas_total [OF h h] show ?thesis by simp
qed

end
