(* ===== verification/Bytes.thy ===== *)
theory Bytes
  imports Prelude
begin

text \<open>
  Bytes and cursors: little-endian integers, UTF-8 validation as \<open>str::from_utf8\<close> does it, and
  readers that advance a position in a buffer and fail with an error.  The locale
  \<open>byte_codec\<close> is the contract of one field of a wire format, what \<open>put\<close> appends \<open>get\<close> reads
  back; a frame decoder is proved by chaining such contracts.
\<close>

section \<open>Little-endian integers\<close>

fun le_bytes :: "nat \<Rightarrow> nat \<Rightarrow> bytes" where
  "le_bytes 0 n = []"
| "le_bytes (Suc k) n = of_nat (n mod 256) # le_bytes k (n div 256)"

fun of_le :: "bytes \<Rightarrow> nat" where
  "of_le [] = 0"
| "of_le (b # bs) = unat b + 256 * of_le bs"

lemma length_le_bytes [simp]: "length (le_bytes k n) = k"
  by (induction k arbitrary: n) simp_all

lemma of_le_le_bytes: "n < 256 ^ k \<Longrightarrow> of_le (le_bytes k n) = n"
proof (induction k arbitrary: n)
  case 0
  then show ?case by simp
next
  case (Suc k)
  from Suc.prems have "n div 256 < 256 ^ k"
    by (simp add: less_mult_imp_div_less mult.commute)
  from Suc.IH [OF this] show ?case by (simp add: unat_of_nat)
qed

lemma of_le_less: "of_le bs < 256 ^ length bs"
proof (induction bs)
  case (Cons b bs)
  have "unat b < 256" using unsigned_less [of b] by simp
  with Cons show ?case by simp
qed simp

definition put_u32 :: "u32 \<Rightarrow> bytes" where
  "put_u32 v = le_bytes 4 (unat v)"

definition put_u64 :: "u64 \<Rightarrow> bytes" where
  "put_u64 v = le_bytes 8 (unat v)"

definition u32_of :: "bytes \<Rightarrow> u32" where
  "u32_of bs = of_nat (of_le bs)"

definition u64_of :: "bytes \<Rightarrow> u64" where
  "u64_of bs = of_nat (of_le bs)"

lemma length_put [simp]: "length (put_u32 v) = 4" "length (put_u64 w) = 8"
  by (simp_all add: put_u32_def put_u64_def)

lemma u32_of_put [simp]: "u32_of (put_u32 v) = v"
proof -
  have "unat v < 2 ^ LENGTH(32)" by (rule unsigned_less)
  then show ?thesis by (simp add: u32_of_def put_u32_def of_le_le_bytes)
qed

lemma u64_of_put [simp]: "u64_of (put_u64 v) = v"
proof -
  have "unat v < 2 ^ LENGTH(64)" by (rule unsigned_less)
  then show ?thesis by (simp add: u64_of_def put_u64_def of_le_le_bytes)
qed

section \<open>Strings\<close>

definition byte_of_char :: "char \<Rightarrow> 8 word" where
  "byte_of_char c = of_nat (of_char c)"

definition char_of_byte :: "8 word \<Rightarrow> char" where
  "char_of_byte b = char_of (unat b)"

lemma char_of_byte_of_char [simp]: "char_of_byte (byte_of_char c) = c"
proof -
  have "of_char c < (256 :: nat)" by (rule nat_of_char_less_256)
  then have "unat (of_nat (of_char c) :: 8 word) = of_char c" by (simp add: unat_of_nat)
  then show ?thesis by (simp only: byte_of_char_def char_of_byte_def char_of_char)
qed

definition str_bytes :: "string \<Rightarrow> bytes" where
  "str_bytes s = map byte_of_char s"

definition bytes_str :: "bytes \<Rightarrow> string" where
  "bytes_str bs = map char_of_byte bs"

lemma bytes_str_bytes [simp]: "bytes_str (str_bytes s) = s"
  by (simp add: bytes_str_def str_bytes_def comp_def)

lemma length_str_bytes [simp]: "length (str_bytes s) = length s"
  by (simp add: str_bytes_def)

definition cont_byte :: "8 word \<Rightarrow> bool" where
  "cont_byte b \<longleftrightarrow> 0x80 \<le> b \<and> b \<le> 0xBF"

fun utf8_valid :: "bytes \<Rightarrow> bool" where
  "utf8_valid [] = True"
| "utf8_valid [a] = (a < 0x80)"
| "utf8_valid [a, b] =
     (if a < 0x80 then utf8_valid [b]
      else 0xC2 \<le> a \<and> a \<le> 0xDF \<and> cont_byte b)"
| "utf8_valid [a, b, c] =
     (if a < 0x80 then utf8_valid [b, c]
      else if a \<le> 0xDF then 0xC2 \<le> a \<and> cont_byte b \<and> utf8_valid [c]
      else a \<le> 0xEF \<and> cont_byte b \<and> cont_byte c \<and>
        (a = 0xE0 \<longrightarrow> 0xA0 \<le> b) \<and> (a = 0xED \<longrightarrow> b \<le> 0x9F))"
| "utf8_valid (a # b # c # d # bs) =
     (if a < 0x80 then utf8_valid (b # c # d # bs)
      else if a \<le> 0xDF then 0xC2 \<le> a \<and> cont_byte b \<and> utf8_valid (c # d # bs)
      else if a \<le> 0xEF then cont_byte b \<and> cont_byte c \<and>
        (a = 0xE0 \<longrightarrow> 0xA0 \<le> b) \<and> (a = 0xED \<longrightarrow> b \<le> 0x9F) \<and> utf8_valid (d # bs)
      else a \<le> 0xF4 \<and> cont_byte b \<and> cont_byte c \<and> cont_byte d \<and>
        (a = 0xF0 \<longrightarrow> 0x90 \<le> b) \<and> (a = 0xF4 \<longrightarrow> b \<le> 0x8F) \<and> utf8_valid bs)"

text \<open>A Rust \<open>String\<close> is valid UTF-8.\<close>

definition valid_str :: "string \<Rightarrow> bool" where
  "valid_str s \<longleftrightarrow> utf8_valid (str_bytes s)"

section \<open>Cursors\<close>

type_synonym ('e, 'a) reader = "bytes \<Rightarrow> nat \<Rightarrow> 'e + 'a \<times> nat"

definition rd_return :: "'a \<Rightarrow> ('e, 'a) reader" where
  "rd_return x = (\<lambda>buf pos. Inr (x, pos))"

definition rd_fail :: "'e \<Rightarrow> ('e, 'a) reader" where
  "rd_fail e = (\<lambda>buf pos. Inl e)"

text \<open>\<open>?\<close>: stop at the first error.\<close>

definition rd_bind :: "('e, 'a) reader \<Rightarrow> ('a \<Rightarrow> ('e, 'b) reader) \<Rightarrow> ('e, 'b) reader" where
  "rd_bind get k = (\<lambda>buf pos.
     (case get buf pos of Inl e \<Rightarrow> Inl e | Inr (x, pos') \<Rightarrow> k x buf pos'))"

text \<open>The next \<open>n\<close> bytes, or the error \<open>err pos\<close>.\<close>

definition rd_take :: "(nat \<Rightarrow> 'e) \<Rightarrow> nat \<Rightarrow> ('e, bytes) reader" where
  "rd_take err n = (\<lambda>buf pos.
     (if length buf < pos + n then Inl (err pos) else Inr (take n (drop pos buf), pos + n)))"

lemma rd_take_put:
  assumes "drop pos buf = xs @ rest" and "n = length xs" and "pos \<le> length buf"
  shows "rd_take err n buf pos = Inr (xs, pos + n)"
proof -
  from arg_cong [OF assms(1), of length] assms(2,3) have "pos + n \<le> length buf" by simp
  with assms(1,2) show ?thesis by (simp add: rd_take_def)
qed

text \<open>The outcome of a reader, its position forgotten.\<close>

definition yields :: "'e + 'a \<times> nat \<Rightarrow> 'a \<Rightarrow> bool" where
  "yields r v \<longleftrightarrow> (\<exists>n. r = Inr (v, n))"

lemma return_yields: "yields (rd_return v buf pos) v"
  by (simp add: yields_def rd_return_def)

locale byte_codec =
  fixes put :: "'a \<Rightarrow> bytes"
    and get :: "('e, 'a) reader"
    and ok :: "'a \<Rightarrow> bool"
    and norm :: "'a \<Rightarrow> 'a"
  assumes get_put: "ok x \<Longrightarrow> pos \<le> length buf \<Longrightarrow> drop pos buf = put x @ rest \<Longrightarrow>
    get buf pos = Inr (norm x, pos + length (put x))"
begin

lemma bind_get:
  assumes "drop pos buf = put x @ rest" and "pos \<le> length buf" and "ok x"
    and "drop (pos + length (put x)) buf = rest \<Longrightarrow> pos + length (put x) \<le> length buf \<Longrightarrow>
      k (norm x) buf (pos + length (put x)) = r"
  shows "rd_bind get k buf pos = r"
proof -
  have d: "drop (pos + length (put x)) buf = rest"
    using assms(1) by (metis add.commute append_eq_conv_conj drop_drop)
  from arg_cong [OF assms(1), of length] assms(2)
  have "pos + length (put x) \<le> length buf" by simp
  from assms(4) [OF d this] get_put [OF assms(3,2,1)] show ?thesis by (simp add: rd_bind_def)
qed

lemma bind_yields:
  assumes "drop pos buf = put x @ rest" and "pos \<le> length buf" and "ok x"
    and "drop (pos + length (put x)) buf = rest \<Longrightarrow> pos + length (put x) \<le> length buf \<Longrightarrow>
      yields (k (norm x) buf (pos + length (put x))) v"
  shows "yields (rd_bind get k buf pos) v"
  using bind_get [OF assms(1-3) refl, of k] assms(4) bind_get [OF assms(1-3)]
  unfolding yields_def by metis

end

text \<open>Several fields of the same kind in a row, as a counted loop reads them.\<close>

fun rd_times :: "nat \<Rightarrow> ('e, 'a) reader \<Rightarrow> ('e, 'a list) reader" where
  "rd_times 0 get = rd_return []"
| "rd_times (Suc n) get =
     rd_bind get (\<lambda>x. rd_bind (rd_times n get) (\<lambda>xs. rd_return (x # xs)))"

context byte_codec begin

lemma times_get:
  assumes "drop pos buf = concat (map put xs) @ rest" and "pos \<le> length buf"
    and "list_all ok xs"
  shows "rd_times (length xs) get buf pos =
    Inr (map norm xs, pos + length (concat (map put xs)))"
  using assms
proof (induction xs arbitrary: pos)
  case Nil
  then show ?case by (simp add: rd_return_def)
next
  case (Cons x xs)
  from Cons.prems have 1: "drop pos buf = put x @ (concat (map put xs) @ rest)" "ok x"
    and 2: "list_all ok xs" by simp_all
  show ?case
    unfolding list.size add_Suc_right rd_times.simps add_0_right
  proof (rule bind_get [OF 1(1) Cons.prems(2) 1(2)])
    assume "drop (pos + length (put x)) buf = concat (map put xs) @ rest"
      "pos + length (put x) \<le> length buf"
    from Cons.IH [OF this 2]
    show "rd_bind (rd_times (length xs) get) (\<lambda>xs. rd_return (norm x # xs)) buf
        (pos + length (put x)) =
      Inr (map norm (x # xs), pos + length (concat (map put (x # xs))))"
      by (simp add: rd_bind_def rd_return_def)
  qed
qed

end

end
