(* ===== verification/RingWire.thy ===== *)
theory RingWire
  imports Bytes
begin

text \<open>
  The frame bodies of the shared-memory ring, \<open>crates/smeltr-metal-ring/src/wire.rs\<close>,
  \<open>decode.rs\<close> and the payload builders of \<open>writer.rs\<close>.  Frames are padded with zeros to the
  frame alignment, so the decoder must ignore what follows the last field.
\<close>

section \<open>Wire constants\<close>

definition RING_MAGIC :: u32 where "RING_MAGIC = 0x534D4C52"
definition RING_VERSION :: u32 where "RING_VERSION = 4"
definition CB_OPS_SYMBOL_LEN_NONE :: u32 where "CB_OPS_SYMBOL_LEN_NONE = - 1"
definition RING_HEADER_BYTES :: nat where "RING_HEADER_BYTES = 40"
definition FRAME_HEADER_BYTES :: nat where "FRAME_HEADER_BYTES = 16"
definition FRAME_ALIGN :: nat where "FRAME_ALIGN = 16"

definition PAD :: u32 where "PAD = 0"
definition CB_COMMITTED :: u32 where "CB_COMMITTED = 1"
definition CB_SCHEDULED :: u32 where "CB_SCHEDULED = 2"
definition CB_COMPLETED :: u32 where "CB_COMPLETED = 3"
definition CB_WARNING :: u32 where "CB_WARNING = 4"
definition HEAP_ALLOC :: u32 where "HEAP_ALLOC = 5"
definition HEAP_FREE :: u32 where "HEAP_FREE = 6"
definition BUFFER_ALLOC :: u32 where "BUFFER_ALLOC = 7"
definition BUFFER_FREE :: u32 where "BUFFER_FREE = 8"
definition TEXTURE_ALLOC :: u32 where "TEXTURE_ALLOC = 9"
definition TEXTURE_FREE :: u32 where "TEXTURE_FREE = 10"
definition DROPPED :: u32 where "DROPPED = 11"
definition SKIPPED :: u32 where "SKIPPED = 12"
definition CB_OPS :: u32 where "CB_OPS = 13"
definition DEVICE_MEM_SAMPLE :: u32 where "DEVICE_MEM_SAMPLE = 14"

lemmas kind_defs = PAD_def CB_COMMITTED_def CB_SCHEDULED_def CB_COMPLETED_def CB_WARNING_def
  HEAP_ALLOC_def HEAP_FREE_def BUFFER_ALLOC_def BUFFER_FREE_def TEXTURE_ALLOC_def
  TEXTURE_FREE_def DROPPED_def SKIPPED_def CB_OPS_def DEVICE_MEM_SAMPLE_def

datatype ring_error =
    RingIo
  | BadMagic u32 u32
  | BadVersion u32 u32
  | BadCapacity nat
  | RingTruncated nat
  | UnknownKind u32
  | BadUtf8

section \<open>Decoded frames\<close>

record decoded_op =
  dop_name :: string
  dop_symbol :: "string option"
  dop_gpu_ns :: u64
  dop_count :: u32
  dop_apportioned_ns :: u64

datatype decoded_frame =
    CbCommitted u64 u64 u32 "string option"
  | CbScheduled u64 u64
  | CbCompleted u64 u64 u32 "i64 option" "string option" u64
  | CbWarning u64 u64 u64
  | CbOps u64 "decoded_op list"
  | DeviceMemSample u64 u64 string
  | HeapAlloc u64 u64 "string option"
  | HeapFree u64
  | BufferAlloc u64 "u64 option" u64 "string option"
  | BufferFree u64
  | TextureAlloc u64 "u64 option" u64 "string option"
  | TextureFree u64
  | RingDropped u64
  | RingSkipped string

section \<open>Reading\<close>

type_synonym 'a rd = "(ring_error, 'a) reader"

definition rd_u32 :: "u32 rd" where
  "rd_u32 = rd_bind (rd_take RingTruncated 4) (\<lambda>bs. rd_return (u32_of bs))"

definition rd_u64 :: "u64 rd" where
  "rd_u64 = rd_bind (rd_take RingTruncated 8) (\<lambda>bs. rd_return (u64_of bs))"

definition rd_str :: "nat \<Rightarrow> string rd" where
  "rd_str n = rd_bind (rd_take RingTruncated n)
     (\<lambda>bs. if utf8_valid bs then rd_return (bytes_str bs) else rd_fail BadUtf8)"

definition rd_label :: "string option rd" where
  "rd_label = rd_bind rd_u32 (\<lambda>len.
     if len = 0 then rd_return None
     else rd_bind (rd_str (unat len)) (\<lambda>s. rd_return (Some s)))"

definition rd_opt_u64 :: "u64 option rd" where
  "rd_opt_u64 = rd_bind rd_u32 (\<lambda>present. rd_bind rd_u64 (\<lambda>v.
     rd_return (if present \<noteq> 0 then Some v else None)))"

definition rd_symbol :: "string option rd" where
  "rd_symbol = rd_bind rd_u32 (\<lambda>len.
     if len = CB_OPS_SYMBOL_LEN_NONE then rd_return None
     else rd_bind (rd_str (unat len)) (\<lambda>s. rd_return (Some s)))"

definition rd_string :: "string rd" where
  "rd_string = rd_bind rd_u32 (\<lambda>len. rd_str (unat len))"

definition rd_op :: "decoded_op rd" where
  "rd_op = rd_bind rd_string (\<lambda>name. rd_bind rd_symbol (\<lambda>symbol. rd_bind rd_u64 (\<lambda>gpu_ns.
     rd_bind rd_u32 (\<lambda>count. rd_bind rd_u64 (\<lambda>apportioned.
     rd_return \<lparr>dop_name = name, dop_symbol = symbol, dop_gpu_ns = gpu_ns, dop_count = count,
                dop_apportioned_ns = apportioned\<rparr>)))))"

definition rd_frame :: "u32 \<Rightarrow> decoded_frame rd" where
  "rd_frame k =
     (if k = CB_COMMITTED then
        rd_bind rd_u64 (\<lambda>cb. rd_bind rd_u64 (\<lambda>q. rd_bind rd_u32 (\<lambda>d. rd_bind rd_label (\<lambda>l.
          rd_return (CbCommitted cb q d l)))))
      else if k = CB_SCHEDULED then
        rd_bind rd_u64 (\<lambda>cb. rd_bind rd_u64 (\<lambda>q. rd_return (CbScheduled cb q)))
      else if k = CB_COMPLETED then
        rd_bind rd_u64 (\<lambda>cb. rd_bind rd_u64 (\<lambda>q. rd_bind rd_u32 (\<lambda>st. rd_bind rd_opt_u64 (\<lambda>ec.
          rd_bind rd_label (\<lambda>dm. rd_bind rd_u64 (\<lambda>fl. rd_return (CbCompleted cb q st ec dm fl)))))))
      else if k = CB_WARNING then
        rd_bind rd_u64 (\<lambda>cb. rd_bind rd_u64 (\<lambda>q. rd_bind rd_u64 (\<lambda>el.
          rd_return (CbWarning cb q el))))
      else if k = HEAP_ALLOC then
        rd_bind rd_u64 (\<lambda>h. rd_bind rd_u64 (\<lambda>n. rd_bind rd_label (\<lambda>l.
          rd_return (HeapAlloc h n l))))
      else if k = HEAP_FREE then rd_bind rd_u64 (\<lambda>h. rd_return (HeapFree h))
      else if k = BUFFER_ALLOC then
        rd_bind rd_u64 (\<lambda>b. rd_bind rd_opt_u64 (\<lambda>h. rd_bind rd_u64 (\<lambda>n. rd_bind rd_label (\<lambda>l.
          rd_return (BufferAlloc b h n l)))))
      else if k = BUFFER_FREE then rd_bind rd_u64 (\<lambda>b. rd_return (BufferFree b))
      else if k = TEXTURE_ALLOC then
        rd_bind rd_u64 (\<lambda>b. rd_bind rd_opt_u64 (\<lambda>h. rd_bind rd_u64 (\<lambda>n. rd_bind rd_label (\<lambda>l.
          rd_return (TextureAlloc b h n l)))))
      else if k = TEXTURE_FREE then rd_bind rd_u64 (\<lambda>b. rd_return (TextureFree b))
      else if k = CB_OPS then
        rd_bind rd_u64 (\<lambda>cb. rd_bind rd_u32 (\<lambda>n. rd_bind (rd_times (unat n) rd_op) (\<lambda>ops.
          rd_return (CbOps cb ops))))
      else if k = DEVICE_MEM_SAMPLE then
        rd_bind rd_u64 (\<lambda>a. rd_bind rd_u64 (\<lambda>r. rd_bind rd_string (\<lambda>ev.
          rd_return (DeviceMemSample a r ev))))
      else if k = DROPPED then rd_bind rd_u64 (\<lambda>n. rd_return (RingDropped n))
      else if k = SKIPPED then
        rd_bind rd_label (\<lambda>l. rd_return (RingSkipped (case l of Some s \<Rightarrow> s | None \<Rightarrow> [])))
      else rd_fail (UnknownKind k))"

definition decode_frame :: "u32 \<Rightarrow> bytes \<Rightarrow> ring_error + decoded_frame" where
  "decode_frame k body =
     (case rd_frame k body 0 of Inl e \<Rightarrow> Inl e | Inr (f, _) \<Rightarrow> Inr f)"

section \<open>Writing\<close>

definition put_string :: "string \<Rightarrow> bytes" where
  "put_string s = put_u32 (of_nat (length s)) @ str_bytes s"

definition put_label :: "string option \<Rightarrow> bytes" where
  "put_label l = (case l of Some s \<Rightarrow> put_string s | None \<Rightarrow> put_u32 0)"

definition put_opt :: "u64 option \<Rightarrow> bytes" where
  "put_opt v =
     put_u32 (if v \<noteq> None then 1 else 0) @ put_u64 (case v of Some x \<Rightarrow> x | None \<Rightarrow> 0)"

definition put_symbol :: "string option \<Rightarrow> bytes" where
  "put_symbol l = (case l of Some s \<Rightarrow> put_string s | None \<Rightarrow> put_u32 CB_OPS_SYMBOL_LEN_NONE)"

definition put_op :: "decoded_op \<Rightarrow> bytes" where
  "put_op op =
     put_string (dop_name op) @ put_symbol (dop_symbol op) @ put_u64 (dop_gpu_ns op) @
     put_u32 (dop_count op) @ put_u64 (dop_apportioned_ns op)"

text \<open>The kind and payload each \<open>write_*\<close> method passes to \<open>write_frame\<close>.\<close>

fun encode_payload :: "decoded_frame \<Rightarrow> (u32 \<times> bytes) option" where
  "encode_payload (CbCommitted cb q d l) =
     Some (CB_COMMITTED, put_u64 cb @ put_u64 q @ put_u32 d @ put_label l)"
| "encode_payload (CbScheduled cb q) = Some (CB_SCHEDULED, put_u64 cb @ put_u64 q)"
| "encode_payload (CbCompleted cb q st ec dm fl) =
     Some (CB_COMPLETED,
       put_u64 cb @ put_u64 q @ put_u32 st @ put_opt ec @ put_label dm @ put_u64 fl)"
| "encode_payload (CbWarning cb q el) = Some (CB_WARNING, put_u64 cb @ put_u64 q @ put_u64 el)"
| "encode_payload (HeapAlloc h n l) = Some (HEAP_ALLOC, put_u64 h @ put_u64 n @ put_label l)"
| "encode_payload (HeapFree h) = Some (HEAP_FREE, put_u64 h)"
| "encode_payload (BufferAlloc b h n l) =
     Some (BUFFER_ALLOC, put_u64 b @ put_opt h @ put_u64 n @ put_label l)"
| "encode_payload (BufferFree b) = Some (BUFFER_FREE, put_u64 b)"
| "encode_payload (TextureAlloc b h n l) =
     Some (TEXTURE_ALLOC, put_u64 b @ put_opt h @ put_u64 n @ put_label l)"
| "encode_payload (TextureFree b) = Some (TEXTURE_FREE, put_u64 b)"
| "encode_payload (CbOps cb ops) =
     Some (CB_OPS, put_u64 cb @ put_u32 (of_nat (length ops)) @ concat (map put_op ops))"
| "encode_payload (DeviceMemSample a r ev) =
     Some (DEVICE_MEM_SAMPLE, put_u64 a @ put_u64 r @ put_string ev)"
| "encode_payload (RingDropped n) = None"
| "encode_payload (RingSkipped s) = None"

section \<open>Field contracts\<close>

text \<open>Strings short enough for their length prefix.\<close>

definition str_ok :: "string \<Rightarrow> bool" where
  "str_ok s \<longleftrightarrow> valid_str s \<and> length s < 2 ^ 32 - 1"

definition opt_str_ok :: "string option \<Rightarrow> bool" where
  "opt_str_ok l \<longleftrightarrow> (case l of None \<Rightarrow> True | Some s \<Rightarrow> str_ok s)"

text \<open>An empty label is written as length 0, which reads back as no label.\<close>

definition label_norm :: "string option \<Rightarrow> string option" where
  "label_norm l = (if l = Some [] then None else l)"

interpretation cu32: byte_codec put_u32 rd_u32 "\<lambda>_. True" "\<lambda>v. v"
  by unfold_locales (simp add: rd_u32_def rd_bind_def rd_take_put rd_return_def)

interpretation cu64: byte_codec put_u64 rd_u64 "\<lambda>_. True" "\<lambda>v. v"
  by unfold_locales (simp add: rd_u64_def rd_bind_def rd_take_put rd_return_def)

lemma unat_len: "str_ok s \<Longrightarrow> unat (of_nat (length s) :: u32) = length s"
  by (simp add: str_ok_def unat_of_nat)

lemma rd_str_put:
  assumes "str_ok s" and "drop pos buf = str_bytes s @ rest" and "pos \<le> length buf"
  shows "rd_str (length s) buf pos = Inr (s, pos + length s)"
  using assms rd_take_put [OF assms(2), of "length s" RingTruncated]
  by (simp add: rd_str_def rd_bind_def rd_return_def str_ok_def valid_str_def)

interpretation cstring: byte_codec put_string rd_string str_ok "\<lambda>s. s"
proof unfold_locales
  fix s :: string and pos and buf rest :: bytes
  assume s: "str_ok s" and pos: "pos \<le> length buf" and d: "drop pos buf = put_string s @ rest"
  from d have "drop pos buf = put_u32 (of_nat (length s)) @ (str_bytes s @ rest)"
    by (simp add: put_string_def)
  then show "rd_string buf pos = Inr (s, pos + length (put_string s))"
    unfolding rd_string_def
  proof (rule cu32.bind_get [OF _ pos])
    assume "drop (pos + length (put_u32 (of_nat (length s)))) buf = str_bytes s @ rest"
      "pos + length (put_u32 (of_nat (length s))) \<le> length buf"
    from rd_str_put [OF s this]
    show "rd_str (unat (of_nat (length s) :: u32)) buf
        (pos + length (put_u32 (of_nat (length s)))) = Inr (s, pos + length (put_string s))"
      by (simp add: unat_len [OF s] put_string_def)
  qed simp
qed

lemma len_word:
  "str_ok s \<Longrightarrow> (of_nat (length s) :: u32) = 0 \<longleftrightarrow> s = []"
  "str_ok s \<Longrightarrow> (of_nat (length s) :: u32) \<noteq> CB_OPS_SYMBOL_LEN_NONE"
proof -
  assume s: "str_ok s"
  have "(of_nat (length s) :: u32) = 0 \<longleftrightarrow> unat (of_nat (length s) :: u32) = 0"
    by (simp only: unsigned_eq_0_iff)
  then show "(of_nat (length s) :: u32) = 0 \<longleftrightarrow> s = []" by (simp add: unat_len [OF s])
  have "unat CB_OPS_SYMBOL_LEN_NONE = 2 ^ 32 - 1"
    by (simp add: CB_OPS_SYMBOL_LEN_NONE_def unsigned_minus_1_eq_mask mask_eq_exp_minus_1)
  with unat_len [OF s] s show "(of_nat (length s) :: u32) \<noteq> CB_OPS_SYMBOL_LEN_NONE"
    by (auto simp: str_ok_def)
qed

interpretation clabel: byte_codec put_label rd_label opt_str_ok label_norm
proof unfold_locales
  fix l :: "string option" and pos and buf rest :: bytes
  assume l: "opt_str_ok l" and pos: "pos \<le> length buf" and d: "drop pos buf = put_label l @ rest"
  show "rd_label buf pos = Inr (label_norm l, pos + length (put_label l))"
  proof (cases l)
    case None
    with d have "drop pos buf = put_u32 0 @ rest" by (simp add: put_label_def)
    then show ?thesis unfolding rd_label_def
      by (rule cu32.bind_get [OF _ pos]) (simp_all add: None rd_return_def label_norm_def put_label_def)
  next
    case (Some s)
    with l have s: "str_ok s" by (simp add: opt_str_ok_def)
    from d Some have "drop pos buf = put_u32 (of_nat (length s)) @ (str_bytes s @ rest)"
      by (simp add: put_label_def put_string_def)
    then show ?thesis unfolding rd_label_def
    proof (rule cu32.bind_get [OF _ pos])
      assume "drop (pos + length (put_u32 (of_nat (length s)))) buf = str_bytes s @ rest"
        "pos + length (put_u32 (of_nat (length s))) \<le> length buf"
      from rd_str_put [OF s this]
      show "(if (of_nat (length s) :: u32) = 0 then rd_return None
          else rd_bind (rd_str (unat (of_nat (length s) :: u32))) (\<lambda>s. rd_return (Some s))) buf
          (pos + length (put_u32 (of_nat (length s)))) =
        Inr (label_norm l, pos + length (put_label l))"
        using Some s
        by (simp add: unat_len len_word rd_return_def rd_bind_def label_norm_def put_label_def
            put_string_def)
    qed simp
  qed
qed

interpretation csymbol: byte_codec put_symbol rd_symbol opt_str_ok "\<lambda>l. l"
proof unfold_locales
  fix l :: "string option" and pos and buf rest :: bytes
  assume l: "opt_str_ok l" and pos: "pos \<le> length buf" and d: "drop pos buf = put_symbol l @ rest"
  show "rd_symbol buf pos = Inr (l, pos + length (put_symbol l))"
  proof (cases l)
    case None
    with d have "drop pos buf = put_u32 CB_OPS_SYMBOL_LEN_NONE @ rest" by (simp add: put_symbol_def)
    then show ?thesis unfolding rd_symbol_def
      by (rule cu32.bind_get [OF _ pos]) (simp_all add: None rd_return_def put_symbol_def)
  next
    case (Some s)
    with l have s: "str_ok s" by (simp add: opt_str_ok_def)
    from d Some have "drop pos buf = put_u32 (of_nat (length s)) @ (str_bytes s @ rest)"
      by (simp add: put_symbol_def put_string_def)
    then show ?thesis unfolding rd_symbol_def
    proof (rule cu32.bind_get [OF _ pos])
      assume "drop (pos + length (put_u32 (of_nat (length s)))) buf = str_bytes s @ rest"
        "pos + length (put_u32 (of_nat (length s))) \<le> length buf"
      from rd_str_put [OF s this]
      show "(if (of_nat (length s) :: u32) = CB_OPS_SYMBOL_LEN_NONE then rd_return None
          else rd_bind (rd_str (unat (of_nat (length s) :: u32))) (\<lambda>s. rd_return (Some s))) buf
          (pos + length (put_u32 (of_nat (length s)))) =
        Inr (l, pos + length (put_symbol l))"
        using Some s
        by (simp add: unat_len len_word rd_return_def rd_bind_def put_symbol_def put_string_def)
    qed simp
  qed
qed

interpretation copt: byte_codec put_opt rd_opt_u64 "\<lambda>_. True" "\<lambda>v. v"
proof unfold_locales
  fix v :: "u64 option" and pos and buf rest :: bytes
  assume pos: "pos \<le> length buf" and "drop pos buf = put_opt v @ rest"
  then have d: "drop pos buf = put_u32 (if v \<noteq> None then 1 else 0) @
      put_u64 (case v of Some x \<Rightarrow> x | None \<Rightarrow> 0) @ rest" by (simp add: put_opt_def)
  show "rd_opt_u64 buf pos = Inr (v, pos + length (put_opt v))"
    unfolding rd_opt_u64_def
    by (rule cu32.bind_get [OF d pos], simp, erule cu64.bind_get, assumption, simp)
      (cases v; simp add: rd_return_def put_opt_def)
qed

definition op_ok :: "decoded_op \<Rightarrow> bool" where
  "op_ok op \<longleftrightarrow> str_ok (dop_name op) \<and> opt_str_ok (dop_symbol op)"

interpretation cop: byte_codec put_op rd_op op_ok "\<lambda>op. op"
proof unfold_locales
  fix op :: decoded_op and pos and buf rest :: bytes
  assume ok: "op_ok op" and pos: "pos \<le> length buf" and "drop pos buf = put_op op @ rest"
  then have d: "drop pos buf = put_string (dop_name op) @ put_symbol (dop_symbol op) @
      put_u64 (dop_gpu_ns op) @ put_u32 (dop_count op) @ put_u64 (dop_apportioned_ns op) @ rest"
    by (simp add: put_op_def)
  from ok have name: "str_ok (dop_name op)" and symbol: "opt_str_ok (dop_symbol op)"
    by (simp_all add: op_ok_def)
  show "rd_op buf pos = Inr (op, pos + length (put_op op))"
    unfolding rd_op_def
    by (rule cstring.bind_get [OF d pos name], erule csymbol.bind_get, assumption, rule symbol,
        erule cu64.bind_get, assumption, simp, erule cu32.bind_get, assumption, simp,
        erule cu64.bind_get, assumption, simp)
      (simp add: rd_return_def put_op_def)
qed

section \<open>Round trip\<close>

fun frame_ok :: "decoded_frame \<Rightarrow> bool" where
  "frame_ok (CbCommitted cb q d l) = opt_str_ok l"
| "frame_ok (CbCompleted cb q st ec dm fl) = opt_str_ok dm"
| "frame_ok (HeapAlloc h n l) = opt_str_ok l"
| "frame_ok (BufferAlloc b h n l) = opt_str_ok l"
| "frame_ok (TextureAlloc b h n l) = opt_str_ok l"
| "frame_ok (CbOps cb ops) = (list_all op_ok ops \<and> length ops < 2 ^ 32)"
| "frame_ok (DeviceMemSample a r ev) = str_ok ev"
| "frame_ok f = True"

fun frame_norm :: "decoded_frame \<Rightarrow> decoded_frame" where
  "frame_norm (CbCommitted cb q d l) = CbCommitted cb q d (label_norm l)"
| "frame_norm (CbCompleted cb q st ec dm fl) = CbCompleted cb q st ec (label_norm dm) fl"
| "frame_norm (HeapAlloc h n l) = HeapAlloc h n (label_norm l)"
| "frame_norm (BufferAlloc b h n l) = BufferAlloc b h n (label_norm l)"
| "frame_norm (TextureAlloc b h n l) = TextureAlloc b h n (label_norm l)"
| "frame_norm f = f"

lemma decode_frameI: "yields (rd_frame k body 0) f \<Longrightarrow> decode_frame k body = Inr f"
  by (auto simp: decode_frame_def yields_def)

lemma ops_yields:
  assumes "drop pos buf = concat (map put_op ops) @ rest" and "pos \<le> length buf"
    and "list_all op_ok ops" and "length ops < 2 ^ 32"
  shows "yields (rd_bind (rd_times (unat (of_nat (length ops) :: u32)) rd_op)
    (\<lambda>ops. rd_return (CbOps cb ops)) buf pos) (CbOps cb ops)"
  using cop.times_get [OF assms(1-3)] assms(4)
  by (simp add: rd_bind_def unat_of_nat yields_def rd_return_def)

text \<open>The position stands at the next field; the tails of the frame bodies, by field.\<close>

definition at_field :: "bytes \<Rightarrow> nat \<Rightarrow> bytes \<Rightarrow> bool" where
  "at_field buf pos rest \<longleftrightarrow> drop pos buf = rest \<and> pos \<le> length buf"

lemma field_u64: "at_field buf pos (put_u64 x @ rest) \<Longrightarrow>
    (\<And>p. at_field buf p rest \<Longrightarrow> yields (k x buf p) v) \<Longrightarrow> yields (rd_bind rd_u64 k buf pos) v"
  unfolding at_field_def by (rule cu64.bind_yields) auto

lemma field_u32: "at_field buf pos (put_u32 x @ rest) \<Longrightarrow>
    (\<And>p. at_field buf p rest \<Longrightarrow> yields (k x buf p) v) \<Longrightarrow> yields (rd_bind rd_u32 k buf pos) v"
  unfolding at_field_def by (rule cu32.bind_yields) auto

lemma field_opt: "at_field buf pos (put_opt x @ rest) \<Longrightarrow>
    (\<And>p. at_field buf p rest \<Longrightarrow> yields (k x buf p) v) \<Longrightarrow> yields (rd_bind rd_opt_u64 k buf pos) v"
  unfolding at_field_def by (rule copt.bind_yields) auto

lemma field_label: "opt_str_ok x \<Longrightarrow> at_field buf pos (put_label x @ rest) \<Longrightarrow>
    (\<And>p. at_field buf p rest \<Longrightarrow> yields (k (label_norm x) buf p) v) \<Longrightarrow>
    yields (rd_bind rd_label k buf pos) v"
  unfolding at_field_def by (rule clabel.bind_yields) auto

lemma field_string: "str_ok x \<Longrightarrow> at_field buf pos (put_string x @ rest) \<Longrightarrow>
    (\<And>p. at_field buf p rest \<Longrightarrow> yields (k x buf p) v) \<Longrightarrow>
    yields (rd_bind rd_string k buf pos) v"
  unfolding at_field_def by (rule cstring.bind_yields) auto

lemma field_ops: "list_all op_ok ops \<Longrightarrow> length ops < 2 ^ 32 \<Longrightarrow>
    at_field buf pos (concat (map put_op ops) @ rest) \<Longrightarrow>
    yields (rd_bind (rd_times (unat (of_nat (length ops) :: u32)) rd_op)
      (\<lambda>ops. rd_return (CbOps cb ops)) buf pos) (CbOps cb ops)"
  unfolding at_field_def by (auto intro: ops_yields)

lemmas fields = field_u64 field_u32 field_opt field_label field_string field_ops

lemma rd_frame_encode:
  assumes "encode_payload f = Some (k, body)" and "frame_ok f"
    and "at_field buf pos (body @ pad)"
  shows "yields (rd_frame k buf pos) (frame_norm f)"
  using assms
  by (cases f)
    (auto simp: rd_frame_def kind_defs intro!: fields return_yields)

text \<open>
  C7. Ring frame round trip: for every frame a \<open>write_*\<close> method produces, whatever zero (or other)
  padding the ring appends to its body, \<open>decode_frame\<close> returns that frame, with an empty label
  read back as no label.
\<close>
theorem decode_frame_round_trip:
  assumes "encode_payload f = Some (k, body)" and "frame_ok f"
  shows "decode_frame k (body @ pad) = Inr (frame_norm f)"
  by (rule decode_frameI, rule rd_frame_encode [OF assms]) (simp add: at_field_def)

definition sample_frame :: decoded_frame where
  "sample_frame = CbOps 7 [\<lparr>dop_name = ''matmul'', dop_symbol = Some ''steel'', dop_gpu_ns = 900,
     dop_count = 2, dop_apportioned_ns = 5\<rparr>]"

lemma decode_frame_round_trip_witness:
  "frame_ok sample_frame \<and>
   decode_frame CB_OPS (snd (the (encode_payload sample_frame)) @ [0, 0, 0, 0]) = Inr sample_frame"
proof -
  have ok: "frame_ok sample_frame"
    by (simp add: sample_frame_def op_ok_def opt_str_ok_def str_ok_def valid_str_def str_bytes_def
        byte_of_char_def)
  have "encode_payload sample_frame = Some (CB_OPS, snd (the (encode_payload sample_frame)))"
    by (simp add: sample_frame_def)
  from decode_frame_round_trip [OF this ok, of "[0, 0, 0, 0]"] ok
  show ?thesis by (simp add: sample_frame_def)
qed

end
