(* ===== verification/Ring.thy ===== *)
theory Ring
  imports RingWire
begin

text \<open>
  The shared-memory ring of \<open>crates/smeltr-metal-ring\<close>: \<open>create_ring\<close>, \<open>write_frame\<close>
  (\<open>writer.rs\<close>), \<open>open_for_read\<close> and \<open>next\<close> (\<open>reader.rs\<close>).  A frame is a header and a payload
  padded to the frame alignment; it never straddles the end of the data area, which a \<open>PAD\<close>
  frame fills up instead.  \<open>head\<close> and \<open>tail\<close> are running byte counts with \<open>u64\<close> arithmetic;
  one writer and one reader each perform whole operations, the writer publishing \<open>head\<close> after
  the bytes and the reader \<open>tail\<close> after it has read them.
\<close>

section \<open>State\<close>

record ring =
  rg_capacity :: nat
  rg_head :: nat
  rg_tail :: nat
  rg_dropped :: u64
  rg_data :: bytes

text \<open>\<open>is_power_of_two\<close>: exactly one bit is set.\<close>

fun is_power_of_two :: "nat \<Rightarrow> bool" where
  "is_power_of_two n = (if n \<le> 1 then n = 1 else even n \<and> is_power_of_two (n div 2))"

declare is_power_of_two.simps [simp del]

text \<open>\<open>pos & mask\<close> with \<open>mask = capacity - 1\<close>.\<close>

definition ring_offset :: "nat \<Rightarrow> nat \<Rightarrow> nat" where
  "ring_offset cap pos = Bit_Operations.and pos (cap - 1)"

definition overwrite :: "nat \<Rightarrow> 'a list \<Rightarrow> 'a list \<Rightarrow> 'a list" where
  "overwrite off xs data = take off data @ xs @ drop (off + length xs) data"

definition create_ring :: "nat \<Rightarrow> ring_error + ring" where
  "create_ring cap =
     (if \<not> is_power_of_two cap \<or> cap < 64 then Inl (BadCapacity cap)
      else Inr \<lparr>rg_capacity = cap, rg_head = 0, rg_tail = 0, rg_dropped = 0,
                rg_data = replicate cap 0\<rparr>)"

section \<open>The mapped file\<close>

definition ring_image :: "ring \<Rightarrow> bytes" where
  "ring_image r =
     put_u32 RING_MAGIC @ put_u32 RING_VERSION @ put_u64 (of_nat (rg_capacity r)) @
     put_u64 (of_nat (rg_head r)) @ put_u64 (of_nat (rg_tail r)) @ put_u64 (rg_dropped r) @
     rg_data r"

definition open_for_read :: "bytes \<Rightarrow> ring_error + ring" where
  "open_for_read file =
     (if length file < RING_HEADER_BYTES then Inl (RingTruncated 0)
      else
        (let magic = u32_of (take 4 file);
             version = u32_of (take 4 (drop 4 file));
             capacity = unat (u64_of (take 8 (drop 8 file)))
         in if magic \<noteq> RING_MAGIC then Inl (BadMagic magic RING_MAGIC)
            else if version \<noteq> RING_VERSION then Inl (BadVersion version RING_VERSION)
            else if \<not> is_power_of_two capacity \<or> length file - RING_HEADER_BYTES < capacity
            then Inl (BadCapacity capacity)
            else Inr
              \<lparr>rg_capacity = capacity,
               rg_head = unat (u64_of (take 8 (drop 16 file))),
               rg_tail = unat (u64_of (take 8 (drop 24 file))),
               rg_dropped = u64_of (take 8 (drop 32 file)),
               rg_data = drop RING_HEADER_BYTES file\<rparr>))"

section \<open>Writing\<close>

text \<open>\<open>(FRAME_HEADER_BYTES + len + (FRAME_ALIGN - 1)) & !(FRAME_ALIGN - 1)\<close>.\<close>

definition frame_length :: "bytes \<Rightarrow> nat" where
  "frame_length p =
     (FRAME_HEADER_BYTES + length p + (FRAME_ALIGN - 1)) div FRAME_ALIGN * FRAME_ALIGN"

definition frame_header :: "nat \<Rightarrow> u32 \<Rightarrow> u64 \<Rightarrow> bytes" where
  "frame_header len k ts = put_u32 (of_nat len) @ put_u32 k @ put_u64 ts"

definition drop_frame :: "ring \<Rightarrow> ring" where
  "drop_frame r = r\<lparr>rg_dropped := rg_dropped r + 1\<rparr>"

definition write_pad :: "u64 \<Rightarrow> ring \<Rightarrow> ring" where
  "write_pad ts r =
     (let offset = ring_offset (rg_capacity r) (rg_head r);
          to_end = rg_capacity r - offset
      in r\<lparr>rg_data := overwrite offset (frame_header to_end PAD ts) (rg_data r),
           rg_head := u64_add (rg_head r) to_end\<rparr>)"

definition frame_body :: "bytes \<Rightarrow> bytes" where
  "frame_body p = p @ replicate (frame_length p - FRAME_HEADER_BYTES - length p) 0"

definition put_frame :: "u32 \<Rightarrow> u64 \<Rightarrow> bytes \<Rightarrow> ring \<Rightarrow> ring" where
  "put_frame k ts p r =
     r\<lparr>rg_data := overwrite (ring_offset (rg_capacity r) (rg_head r))
         (frame_header (frame_length p) k ts @ frame_body p) (rg_data r),
       rg_head := u64_add (rg_head r) (frame_length p)\<rparr>"

partial_function (option) write_frame :: "u32 \<Rightarrow> u64 \<Rightarrow> bytes \<Rightarrow> ring \<Rightarrow> ring option" where
  "write_frame k ts p r =
     (let frame_len = frame_length p;
          free = u64_sub (rg_capacity r) (u64_sub (rg_head r) (rg_tail r))
      in if free < frame_len then Some (drop_frame r)
         else
           (let to_end = rg_capacity r - ring_offset (rg_capacity r) (rg_head r)
            in if to_end < frame_len then
                 if to_end < FRAME_HEADER_BYTES then Some (drop_frame r)
                 else write_frame k ts p (write_pad ts r)
               else Some (put_frame k ts p r)))"

section \<open>Reading\<close>

record decoded_event =
  de_ts_mono_ns :: u64
  de_frame :: decoded_frame

type_synonym next_result = "ring_error + decoded_event option"

definition view :: "u32 \<Rightarrow> u64 \<Rightarrow> bytes \<Rightarrow> next_result" where
  "view k ts body =
     (case decode_frame k body of
        Inl e \<Rightarrow> Inl e
      | Inr f \<Rightarrow> Inr (Some \<lparr>de_ts_mono_ns = ts, de_frame = f\<rparr>))"

definition hdr_len :: "nat \<Rightarrow> bytes \<Rightarrow> nat" where
  "hdr_len off data = unat (u32_of (take 4 (drop off data)))"

definition hdr_kind :: "nat \<Rightarrow> bytes \<Rightarrow> u32" where
  "hdr_kind off data = u32_of (take 4 (drop (off + 4) data))"

definition hdr_ts :: "nat \<Rightarrow> bytes \<Rightarrow> u64" where
  "hdr_ts off data = u64_of (take 8 (drop (off + 8) data))"

definition plausible :: "ring \<Rightarrow> nat \<Rightarrow> nat \<Rightarrow> bool" where
  "plausible r off len \<longleftrightarrow>
     FRAME_HEADER_BYTES \<le> len \<and> off + len \<le> rg_capacity r \<and>
     u64_add (rg_tail r) len \<le> rg_head r"

definition resync :: "ring \<Rightarrow> next_result \<times> ring" where
  "resync r = (Inl (RingTruncated (rg_tail r)), r\<lparr>rg_tail := rg_head r\<rparr>)"

definition advance :: "nat \<Rightarrow> ring \<Rightarrow> ring" where
  "advance len r = r\<lparr>rg_tail := u64_add (rg_tail r) len\<rparr>"

partial_function (option) ring_next :: "ring \<Rightarrow> (next_result \<times> ring) option" where
  "ring_next r =
     (if rg_tail r = rg_head r then Some (Inr None, r)
      else
        (let off = ring_offset (rg_capacity r) (rg_tail r)
         in if rg_capacity r < off + FRAME_HEADER_BYTES then Some (resync r)
            else
              (let len = hdr_len off (rg_data r);
                   k = hdr_kind off (rg_data r)
               in if \<not> plausible r off len then Some (resync r)
                  else if k = PAD then ring_next (advance len r)
                  else Some
                    (view k (hdr_ts off (rg_data r))
                       (take (len - FRAME_HEADER_BYTES)
                          (drop (off + FRAME_HEADER_BYTES) (rg_data r))),
                     advance len r))))"

end
