(* ===== verification/RingQueue.thy ===== *)
theory RingQueue
  imports Ring
begin

text \<open>
  The ring is a bounded queue.  The data area between \<open>tail\<close> and \<open>head\<close> is cut into slots;
  \<open>write_frame\<close> appends a slot or counts a drop, \<open>next\<close> takes the first slot that is not
  padding.  The locale \<open>lossy_fifo\<close> states that contract for any channel of this kind and
  derives what a reader sees of a whole run of operations.
\<close>

section \<open>A queue that may drop\<close>

datatype 'a channel_op = Send 'a | Receive

fun channel_run ::
  "('a \<Rightarrow> 's \<Rightarrow> 's option) \<Rightarrow> ('s \<Rightarrow> ('r \<times> 's) option) \<Rightarrow> 'a channel_op list \<Rightarrow> 's \<Rightarrow>
   ('r list \<times> 's) option" where
  "channel_run send receive [] s = Some ([], s)"
| "channel_run send receive (Send x # ops) s =
     (case send x s of None \<Rightarrow> None | Some s' \<Rightarrow> channel_run send receive ops s')"
| "channel_run send receive (Receive # ops) s =
     (case receive s of None \<Rightarrow> None
      | Some (r, s') \<Rightarrow> map_option (\<lambda>(rs, t). (r # rs, t)) (channel_run send receive ops s'))"

text \<open>Which of the sends found room.\<close>

fun channel_flags ::
  "('a \<Rightarrow> 's \<Rightarrow> 's option) \<Rightarrow> ('s \<Rightarrow> ('r \<times> 's) option) \<Rightarrow> ('a \<Rightarrow> 's \<Rightarrow> bool) \<Rightarrow>
   'a channel_op list \<Rightarrow> 's \<Rightarrow> bool list" where
  "channel_flags send receive room [] s = []"
| "channel_flags send receive room (Send x # ops) s =
     room x s # (case send x s of None \<Rightarrow> [] | Some s' \<Rightarrow> channel_flags send receive room ops s')"
| "channel_flags send receive room (Receive # ops) s =
     (case receive s of None \<Rightarrow> [] | Some (r, s') \<Rightarrow> channel_flags send receive room ops s')"

text \<open>The same operations on an unbounded queue that skips the refused sends.\<close>

fun queue_run ::
  "('a \<Rightarrow> 'q) \<Rightarrow> ('q \<Rightarrow> 'r) \<Rightarrow> 'r \<Rightarrow> 'a channel_op list \<Rightarrow> bool list \<Rightarrow> 'q list \<Rightarrow> 'r list \<times> 'q list" where
  "queue_run stored shown nothing [] bs q = ([], q)"
| "queue_run stored shown nothing (Send x # ops) bs q =
     queue_run stored shown nothing ops (tl bs) (if hd bs then q @ [stored x] else q)"
| "queue_run stored shown nothing (Receive # ops) bs q =
     (case queue_run stored shown nothing ops bs (tl q) of
        (rs, t) \<Rightarrow> ((case q of [] \<Rightarrow> nothing | x # _ \<Rightarrow> shown x) # rs, t))"

definition sends :: "'a channel_op list \<Rightarrow> nat" where
  "sends ops = length (filter (\<lambda>c. c \<noteq> Receive) ops)"

lemma sends_simps [simp]:
  "sends [] = 0" "sends (Send x # ops) = Suc (sends ops)" "sends (Receive # ops) = sends ops"
  by (simp_all add: sends_def)

locale lossy_fifo =
  fixes send :: "'a \<Rightarrow> 's \<Rightarrow> 's option"
    and receive :: "'s \<Rightarrow> ('r \<times> 's) option"
    and room :: "'a \<Rightarrow> 's \<Rightarrow> bool"
    and lost :: "'s \<Rightarrow> u64"
    and repr :: "nat \<Rightarrow> 's \<Rightarrow> 'q list \<Rightarrow> bool"
    and ok :: "'a \<Rightarrow> bool"
    and stored :: "'a \<Rightarrow> 'q"
    and shown :: "'q \<Rightarrow> 'r"
    and nothing :: 'r
  assumes send_repr: "repr (Suc n) s q \<Longrightarrow> ok x \<Longrightarrow>
      \<exists>s'. send x s = Some s' \<and> repr n s' (if room x s then q @ [stored x] else q) \<and>
        lost s' = (if room x s then lost s else lost s + 1)"
    and receive_repr: "repr n s q \<Longrightarrow>
      \<exists>s'. receive s = Some (case q of [] \<Rightarrow> nothing | y # _ \<Rightarrow> shown y, s') \<and>
        repr n s' (tl q) \<and> lost s' = lost s"
begin

lemma run_refines:
  assumes "repr (n + sends ops) s q" and "\<forall>x. Send x \<in> set ops \<longrightarrow> ok x"
  shows "\<exists>rs t q'. channel_run send receive ops s = Some (rs, t) \<and>
    queue_run stored shown nothing ops (channel_flags send receive room ops s) q = (rs, q') \<and>
    repr n t q' \<and>
    lost t = lost s + of_nat (length (filter Not (channel_flags send receive room ops s)))"
  using assms
proof (induction ops arbitrary: s q)
  case Nil
  then show ?case by simp
next
  case (Cons op ops)
  show ?case
  proof (cases op)
    case Receive
    with Cons.prems receive_repr [of "n + sends ops" s q] obtain s' where
      s': "receive s = Some (case q of [] \<Rightarrow> nothing | y # _ \<Rightarrow> shown y, s')"
        "repr (n + sends ops) s' (tl q)" "lost s' = lost s" by auto
    from Cons.IH [OF s'(2)] Cons.prems(2) s'(1,3) Receive show ?thesis by auto
  next
    case (Send x)
    with Cons.prems have "repr (Suc (n + sends ops)) s q" and "ok x" by auto
    from send_repr [OF this] obtain s' where s': "send x s = Some s'"
      "repr (n + sends ops) s' (if room x s then q @ [stored x] else q)"
      "lost s' = (if room x s then lost s else lost s + 1)" by auto
    from Cons.IH [OF s'(2)] Cons.prems(2) s'(1,3) Send show ?thesis by (auto simp: algebra_simps)
  qed
qed

end

section \<open>Slots\<close>

type_synonym slot = "u32 \<times> u64 \<times> bytes"

fun slot_len :: "slot \<Rightarrow> nat" where
  "slot_len (k, ts, body) = FRAME_HEADER_BYTES + length body"

fun slot_bytes :: "slot \<Rightarrow> bytes" where
  "slot_bytes (k, ts, body) = frame_header (FRAME_HEADER_BYTES + length body) k ts @ body"

lemma length_frame_header [simp]: "length (frame_header n k ts) = FRAME_HEADER_BYTES"
  by (simp add: frame_header_def FRAME_HEADER_BYTES_def)

lemma length_slot_bytes [simp]: "length (slot_bytes s) = slot_len s"
  by (cases s) simp

definition slot_ok :: "slot \<Rightarrow> bool" where
  "slot_ok s \<longleftrightarrow> slot_len s mod FRAME_ALIGN = 0 \<and> slot_len s < 2 ^ 32"

definition slot_at :: "nat \<Rightarrow> bytes \<Rightarrow> nat \<Rightarrow> slot \<Rightarrow> bool" where
  "slot_at cap data pos s \<longleftrightarrow>
     pos mod cap + slot_len s \<le> cap \<and>
     take (slot_len s) (drop (pos mod cap) data) = slot_bytes s"

fun laid :: "nat \<Rightarrow> bytes \<Rightarrow> nat \<Rightarrow> slot list \<Rightarrow> bool" where
  "laid cap data pos [] = True"
| "laid cap data pos (s # ss) =
     (slot_ok s \<and> slot_at cap data pos s \<and> laid cap data (pos + slot_len s) ss)"

definition total_len :: "slot list \<Rightarrow> nat" where
  "total_len ss = sum_list (map slot_len ss)"

lemma total_len_simps [simp]:
  "total_len [] = 0" "total_len (s # ss) = slot_len s + total_len ss"
  "total_len (ss @ ts) = total_len ss + total_len ts"
  by (simp_all add: total_len_def)

lemma slot_len_pos [simp]: "0 < slot_len s" "FRAME_HEADER_BYTES \<le> slot_len s"
  by (cases s; simp add: FRAME_HEADER_BYTES_def)+

lemma laid_append [simp]:
  "laid cap data pos (ss @ ts) \<longleftrightarrow>
     laid cap data pos ss \<and> laid cap data (pos + total_len ss) ts"
  by (induction ss arbitrary: pos) (simp_all add: add.assoc)

section \<open>Writing leaves the unread slots alone\<close>

lemma length_overwrite [simp]:
  "off + length xs \<le> length data \<Longrightarrow> length (overwrite off xs data) = length data"
  by (simp add: overwrite_def)

lemma nth_overwrite:
  assumes "off + length xs \<le> length data" and "i < length data"
  shows "overwrite off xs data ! i =
    (if i < off then data ! i else if i < off + length xs then xs ! (i - off) else data ! i)"
  using assms by (auto simp: overwrite_def nth_append)

lemma take_drop_overwrite:
  assumes "o' + length xs \<le> length data" and "off + n \<le> length data"
    and "off + n \<le> o' \<or> o' + length xs \<le> off"
  shows "take n (drop off (overwrite o' xs data)) = take n (drop off data)"
  using assms by (intro nth_equalityI) (auto simp: nth_overwrite)

lemma take_drop_overwrite_same:
  "off + length xs \<le> length data \<Longrightarrow> take (length xs) (drop off (overwrite off xs data)) = xs"
  by (simp add: overwrite_def)

lemma ring_disjoint:
  fixes pos :: nat
  assumes "pos + len \<le> pos'" and "pos' + m \<le> pos + cap" and "0 < cap"
  shows "pos mod cap + len \<le> pos' mod cap \<or> pos' mod cap + m \<le> pos mod cap"
proof -
  let ?q = "pos div cap * cap" and ?Q = "pos' div cap * cap"
  have p: "pos = ?q + pos mod cap" and p': "pos' = ?Q + pos' mod cap" by simp_all
  have "pos div cap \<le> pos' div cap" using assms(1) by (intro div_le_mono) simp
  then consider "pos div cap = pos' div cap" | "Suc (pos div cap) \<le> pos' div cap" by linarith
  then show ?thesis
  proof cases
    case 1
    with p p' assms(1) have "pos mod cap + len \<le> pos' mod cap"
      by (metis add.assoc add_le_cancel_left)
    then show ?thesis ..
  next
    case 2
    then have "Suc (pos div cap) * cap \<le> ?Q" by (rule mult_le_mono1)
    then have "?q + cap \<le> ?Q" by simp
    with p p' assms(2) have "pos' mod cap + m \<le> pos mod cap" by linarith
    then show ?thesis ..
  qed
qed

lemma laid_overwrite:
  assumes "laid cap data pos ss" and "pos + total_len ss \<le> pos'"
    and "pos' + length xs \<le> pos + cap" and "pos' mod cap + length xs \<le> cap"
    and "length data = cap" and "0 < cap"
  shows "laid cap (overwrite (pos' mod cap) xs data) pos ss"
  using assms
proof (induction ss arbitrary: pos)
  case Nil
  then show ?case by simp
next
  case (Cons s ss)
  from Cons.prems have at: "slot_at cap data pos s" by simp
  have "pos + slot_len s \<le> pos'" using Cons.prems(2) by simp
  from ring_disjoint [OF this Cons.prems(3,6)] at Cons.prems(4,5)
  have "slot_at cap (overwrite (pos' mod cap) xs data) pos s"
    by (simp add: slot_at_def take_drop_overwrite)
  moreover have "laid cap (overwrite (pos' mod cap) xs data) (pos + slot_len s) ss"
    using Cons.prems by (intro Cons.IH) auto
  ultimately show ?case using Cons.prems(1) by simp
qed

lemma slot_at_overwrite:
  assumes "pos mod cap + slot_len s \<le> cap" and "length data = cap"
  shows "slot_at cap (overwrite (pos mod cap) (slot_bytes s) data) pos s"
  using assms take_drop_overwrite_same [of "pos mod cap" "slot_bytes s" data]
  by (simp add: slot_at_def)


section \<open>Ring arithmetic\<close>

lemma power_of_two_pow: "is_power_of_two n \<Longrightarrow> \<exists>k. n = 2 ^ k"
proof (induction n rule: is_power_of_two.induct)
  case (1 n)
  show ?case
  proof (cases "n \<le> 1")
    case True
    with 1(2) have "n = 2 ^ 0" by (simp add: is_power_of_two.simps)
    then show ?thesis by blast
  next
    case False
    with 1(2) have "even n" "is_power_of_two (n div 2)"
      by (simp_all add: is_power_of_two.simps [of n])
    with 1(1) [OF False] obtain k where "n div 2 = 2 ^ k" by blast
    with \<open>even n\<close> have "n = 2 ^ Suc k" by (metis dvd_mult_div_cancel power_Suc)
    then show ?thesis by blast
  qed
qed

lemma pow_power_of_two [simp]: "is_power_of_two (2 ^ k)"
proof (induction k)
  case 0
  show ?case by (simp add: is_power_of_two.simps [of "Suc 0"])
next
  case (Suc k)
  have "(1::nat) \<le> 2 ^ k" by simp
  then have "\<not> (2::nat) ^ Suc k \<le> 1" unfolding power_Suc by linarith
  with Suc show ?case by (subst is_power_of_two.simps) simp
qed

lemma ring_offset_mod: "is_power_of_two cap \<Longrightarrow> ring_offset cap pos = pos mod cap"
proof -
  assume "is_power_of_two cap"
  then obtain k where k: "cap = 2 ^ k" using power_of_two_pow by blast
  have "Bit_Operations.and pos (2 ^ k - 1) = take_bit k pos"
    by (simp add: take_bit_eq_mask mask_eq_exp_minus_1)
  with k show ?thesis by (simp add: ring_offset_def take_bit_eq_mod)
qed

lemma power_of_two_dvd:
  assumes "is_power_of_two cap" and "64 \<le> cap"
  shows "FRAME_ALIGN dvd cap"
proof -
  obtain k where k: "cap = 2 ^ k" using power_of_two_pow [OF assms(1)] by blast
  have "4 \<le> k"
  proof (rule ccontr)
    assume "\<not> 4 \<le> k"
    then have "(2::nat) ^ k \<le> 2 ^ 4" by (intro power_increasing) simp_all
    with k assms(2) show False by simp
  qed
  then have "(2::nat) ^ 4 dvd cap" unfolding k by (rule le_imp_power_dvd)
  then show ?thesis by (simp add: FRAME_ALIGN_def)
qed

lemma frame_length_bounds:
  "FRAME_ALIGN dvd frame_length p" "FRAME_HEADER_BYTES + length p \<le> frame_length p"
proof -
  show "FRAME_ALIGN dvd frame_length p" by (simp add: frame_length_def)
  have "x \<le> (x + 15) div 16 * 16" for x :: nat by presburger
  from this [of "16 + length p"] show "FRAME_HEADER_BYTES + length p \<le> frame_length p"
    by (simp add: frame_length_def FRAME_ALIGN_def FRAME_HEADER_BYTES_def)
qed

lemma length_frame_body [simp]: "FRAME_HEADER_BYTES + length (frame_body p) = frame_length p"
  using frame_length_bounds(2) [of p] by (simp add: frame_body_def)

section \<open>The ring represents a queue\<close>

text \<open>\<open>n\<close> more writes cannot bring the counters near \<open>2 ^ 64\<close>.\<close>

definition ring_holds :: "nat \<Rightarrow> ring \<Rightarrow> slot list \<Rightarrow> bool" where
  "ring_holds n r ss \<longleftrightarrow>
     is_power_of_two (rg_capacity r) \<and> 64 \<le> rg_capacity r \<and> rg_capacity r < 2 ^ 32 \<and>
     length (rg_data r) = rg_capacity r \<and> FRAME_ALIGN dvd rg_tail r \<and>
     rg_head r = rg_tail r + total_len ss \<and> total_len ss \<le> rg_capacity r \<and>
     rg_head r + n * (2 * rg_capacity r) < 2 ^ 63 \<and>
     laid (rg_capacity r) (rg_data r) (rg_tail r) ss"

definition unread :: "slot list \<Rightarrow> slot list" where
  "unread ss = filter (\<lambda>s. fst s \<noteq> PAD) ss"

lemma unread_simps [simp]:
  "unread [] = []" "unread (ss @ ts) = unread ss @ unread ts"
  "unread (s # ss) = (if fst s = PAD then unread ss else s # unread ss)"
  by (simp_all add: unread_def)

definition ring_repr :: "nat \<Rightarrow> ring \<Rightarrow> slot list \<Rightarrow> bool" where
  "ring_repr n r q \<longleftrightarrow> (\<exists>ss. ring_holds n r ss \<and> q = unread ss)"

lemma slots_aligned: "laid cap data pos ss \<Longrightarrow> FRAME_ALIGN dvd total_len ss"
  by (induction ss arbitrary: pos) (auto simp: slot_ok_def mod_eq_0_iff_dvd)

lemma ring_holds_weaken: "ring_holds (Suc n) r ss \<Longrightarrow> ring_holds n r ss"
  unfolding ring_holds_def by auto

lemma ring_holds_drop: "ring_holds n r ss \<Longrightarrow> ring_holds n (drop_frame r) ss"
  unfolding ring_holds_def by (simp add: drop_frame_def)

lemma ring_holds_offset:
  assumes "ring_holds n r ss"
  shows "ring_offset (rg_capacity r) (rg_head r) = rg_head r mod rg_capacity r"
    and "FRAME_ALIGN dvd rg_head r" and "FRAME_ALIGN dvd rg_capacity r - rg_head r mod rg_capacity r"
    and "rg_head r mod rg_capacity r < rg_capacity r"
    and "u64_sub (rg_capacity r) (u64_sub (rg_head r) (rg_tail r)) = rg_capacity r - total_len ss"
proof -
  from assms have pow: "is_power_of_two (rg_capacity r)" and cap: "64 \<le> rg_capacity r"
    and lt: "rg_capacity r < 2 ^ 32" and head: "rg_head r = rg_tail r + total_len ss"
    and tot: "total_len ss \<le> rg_capacity r" and big: "rg_head r < 2 ^ 63"
    by (auto simp: ring_holds_def)
  show "ring_offset (rg_capacity r) (rg_head r) = rg_head r mod rg_capacity r"
    by (rule ring_offset_mod [OF pow])
  have cdvd: "FRAME_ALIGN dvd rg_capacity r" by (rule power_of_two_dvd [OF pow cap])
  show hdvd: "FRAME_ALIGN dvd rg_head r"
    using assms slots_aligned by (auto simp: ring_holds_def)
  show less: "rg_head r mod rg_capacity r < rg_capacity r" using cap by simp
  from cdvd hdvd have "FRAME_ALIGN dvd rg_head r mod rg_capacity r" by (simp add: dvd_mod)
  with cdvd show "FRAME_ALIGN dvd rg_capacity r - rg_head r mod rg_capacity r"
    by (rule dvd_diff_nat)
  show "u64_sub (rg_capacity r) (u64_sub (rg_head r) (rg_tail r)) = rg_capacity r - total_len ss"
    using head tot lt big by simp
qed

text \<open>Appending the bytes of one slot at \<open>head\<close>.\<close>

lemma ring_holds_append:
  assumes "ring_holds n r ss" and "slot_len s \<le> rg_capacity r - total_len ss"
    and "rg_head r mod rg_capacity r + slot_len s \<le> rg_capacity r"
    and "FRAME_ALIGN dvd slot_len s"
    and "rg_head r + slot_len s + m * (2 * rg_capacity r) < 2 ^ 63"
  shows "ring_holds m
    (r\<lparr>rg_data := overwrite (rg_head r mod rg_capacity r) (slot_bytes s) (rg_data r),
       rg_head := rg_head r + slot_len s\<rparr>) (ss @ [s])"
proof -
  from assms(1) have r: "is_power_of_two (rg_capacity r)" "64 \<le> rg_capacity r"
    "rg_capacity r < 2 ^ 32" "length (rg_data r) = rg_capacity r" "FRAME_ALIGN dvd rg_tail r"
    "rg_head r = rg_tail r + total_len ss" "total_len ss \<le> rg_capacity r"
    "laid (rg_capacity r) (rg_data r) (rg_tail r) ss" by (auto simp: ring_holds_def)
  let ?d = "overwrite (rg_head r mod rg_capacity r) (slot_bytes s) (rg_data r)"
  have "laid (rg_capacity r) ?d (rg_tail r) ss"
    using r assms(2,3) by (intro laid_overwrite) auto
  moreover have "slot_at (rg_capacity r) ?d (rg_head r) s"
    using assms(3) r(4) by (intro slot_at_overwrite)
  moreover have "slot_ok s" using assms(2,4) r(3) by (simp add: slot_ok_def mod_eq_0_iff_dvd)
  ultimately show ?thesis
    using r assms(2,3,5) by (simp add: ring_holds_def)
qed


section \<open>Writing\<close>

lemma put_frame_alt:
  assumes "ring_offset (rg_capacity r) (rg_head r) = rg_head r mod rg_capacity r"
    and "rg_head r + frame_length p < 2 ^ 63"
  shows "put_frame k ts p r =
    r\<lparr>rg_data := overwrite (rg_head r mod rg_capacity r) (slot_bytes (k, ts, frame_body p)) (rg_data r),
      rg_head := rg_head r + slot_len (k, ts, frame_body p)\<rparr>"
  using assms by (simp add: put_frame_def)

lemma put_frame_holds:
  assumes "ring_holds m r ss" and "frame_length p \<le> rg_capacity r - total_len ss"
    and "rg_head r mod rg_capacity r + frame_length p \<le> rg_capacity r"
    and "rg_head r + frame_length p + n * (2 * rg_capacity r) < 2 ^ 63"
  shows "ring_holds n (put_frame k ts p r) (ss @ [(k, ts, frame_body p)])"
proof -
  have "put_frame k ts p r =
    r\<lparr>rg_data := overwrite (rg_head r mod rg_capacity r) (slot_bytes (k, ts, frame_body p)) (rg_data r),
      rg_head := rg_head r + slot_len (k, ts, frame_body p)\<rparr>"
    using assms(4) ring_holds_offset(1) [OF assms(1)] by (intro put_frame_alt) auto
  with ring_holds_append [OF assms(1), of "(k, ts, frame_body p)" n] assms(2-4) frame_length_bounds(1)
  show ?thesis by simp
qed

lemma overwrite_rest:
  "off + length xs \<le> length data \<Longrightarrow>
     overwrite off (xs @ drop (off + length xs) data) data = overwrite off xs data"
  by (simp add: overwrite_def)

lemma write_pad_holds:
  assumes "ring_holds m r ss"
    and "rg_capacity r - rg_head r mod rg_capacity r \<le> rg_capacity r - total_len ss"
    and "rg_head r + rg_capacity r + n * (2 * rg_capacity r) < 2 ^ 63"
  shows "\<exists>body. ring_holds n (write_pad ts r) (ss @ [(PAD, ts, body)])"
    and "rg_head (write_pad ts r) mod rg_capacity r = 0"
    and "rg_head (write_pad ts r) = rg_head r + (rg_capacity r - rg_head r mod rg_capacity r)"
proof -
  let ?off = "rg_head r mod rg_capacity r" and ?gap = "rg_capacity r - rg_head r mod rg_capacity r"
  let ?body = "drop (?off + FRAME_HEADER_BYTES) (rg_data r)"
  note o = ring_holds_offset [OF assms(1)]
  have "0 < ?gap" using o(4) by simp
  with o(3) have ge: "FRAME_HEADER_BYTES \<le> ?gap"
    by (auto simp: FRAME_HEADER_BYTES_def FRAME_ALIGN_def intro: dvd_imp_le)
  from ge o(4) have le: "?off + FRAME_HEADER_BYTES \<le> rg_capacity r" by linarith
  from assms(1) have len: "length (rg_data r) = rg_capacity r" by (simp add: ring_holds_def)
  with ge have sl: "slot_len (PAD, ts, ?body) = ?gap" by simp
  have add: "u64_add (rg_head r) ?gap = rg_head r + ?gap" using assms(3) by simp
  have "overwrite ?off (slot_bytes (PAD, ts, ?body)) (rg_data r) =
      overwrite ?off (frame_header ?gap PAD ts) (rg_data r)"
    using overwrite_rest [of ?off "frame_header ?gap PAD ts" "rg_data r"] len le sl by simp
  with o(1) add sl have pad: "write_pad ts r =
      r\<lparr>rg_data := overwrite ?off (slot_bytes (PAD, ts, ?body)) (rg_data r),
        rg_head := rg_head r + slot_len (PAD, ts, ?body)\<rparr>"
    by (simp add: write_pad_def Let_def)
  have "ring_holds n (write_pad ts r) (ss @ [(PAD, ts, ?body)])"
    unfolding pad
  proof (rule ring_holds_append [OF assms(1)])
    show "rg_head r + slot_len (PAD, ts, ?body) + n * (2 * rg_capacity r) < 2 ^ 63"
      using assms(3) sl by simp
  qed (use assms(2) o(3,4) sl in simp_all)
  then show "\<exists>body. ring_holds n (write_pad ts r) (ss @ [(PAD, ts, body)])" ..
  show hd: "rg_head (write_pad ts r) = rg_head r + ?gap" using pad sl by simp
  have "rg_head r + ?gap = rg_head r div rg_capacity r * rg_capacity r + rg_capacity r"
    using o(4) div_mult_mod_eq [of "rg_head r" "rg_capacity r"] by linarith
  with hd show "rg_head (write_pad ts r) mod rg_capacity r = 0" by simp
qed

text \<open>There is room for a frame, with the padding it may need before it.\<close>

definition ring_room :: "ring \<Rightarrow> bytes \<Rightarrow> bool" where
  "ring_room r p \<longleftrightarrow>
     (let free = rg_capacity r - (rg_head r - rg_tail r);
          to_end = rg_capacity r - rg_head r mod rg_capacity r
      in frame_length p \<le> free \<and> (frame_length p \<le> to_end \<or> to_end + frame_length p \<le> free))"

lemma write_frame_no_wrap:
  assumes "ring_holds m r ss" and "rg_head r mod rg_capacity r + frame_length p \<le> rg_capacity r
      \<or> rg_capacity r - total_len ss < frame_length p"
    and "rg_head r + rg_capacity r + n * (2 * rg_capacity r) < 2 ^ 63"
  shows "\<exists>r'. write_frame k ts p r = Some r' \<and>
    (if frame_length p \<le> rg_capacity r - total_len ss
     then ring_holds n r' (ss @ [(k, ts, frame_body p)]) \<and> rg_dropped r' = rg_dropped r
     else ring_holds n r' ss \<and> rg_dropped r' = rg_dropped r + 1)"
proof -
  note o = ring_holds_offset [OF assms(1)]
  show ?thesis
  proof (cases "rg_capacity r - total_len ss < frame_length p")
    case True
    then have "write_frame k ts p r = Some (drop_frame r)"
      by (simp add: write_frame.simps [of k ts p r] o(5))
    moreover have "ring_holds n (drop_frame r) ss"
      using assms(1,3) by (auto simp: ring_holds_def drop_frame_def)
    ultimately show ?thesis using True by (simp add: drop_frame_def)
  next
    case False
    with assms(2) have fit: "rg_head r mod rg_capacity r + frame_length p \<le> rg_capacity r" by simp
    with False o(4) have "\<not> rg_capacity r - rg_head r mod rg_capacity r < frame_length p" by linarith
    with False have "write_frame k ts p r = Some (put_frame k ts p r)"
      by (simp add: write_frame.simps [of k ts p r] o(1,5))
    moreover have "ring_holds n (put_frame k ts p r) (ss @ [(k, ts, frame_body p)])"
      using False fit assms(3) by (intro put_frame_holds [OF assms(1)]) auto
    ultimately show ?thesis using False by (simp add: put_frame_def)
  qed
qed

lemma write_frame_holds:
  assumes "ring_holds (Suc n) r ss" and "k \<noteq> PAD"
  shows "\<exists>r' ss'. write_frame k ts p r = Some r' \<and> ring_holds n r' ss' \<and>
    (if ring_room r p
     then unread ss' = unread ss @ [(k, ts, frame_body p)] \<and> rg_dropped r' = rg_dropped r
     else unread ss' = unread ss \<and> rg_dropped r' = rg_dropped r + 1)"
proof -
  from assms(1) have used: "rg_head r - rg_tail r = total_len ss" by (simp add: ring_holds_def)
  note o = ring_holds_offset [OF assms(1)]
  from assms(1) have budget: "rg_head r + 2 * rg_capacity r + n * (2 * rg_capacity r) < 2 ^ 63"
    by (simp add: ring_holds_def algebra_simps)
  show ?thesis
  proof (cases "rg_head r mod rg_capacity r + frame_length p \<le> rg_capacity r
      \<or> rg_capacity r - total_len ss < frame_length p")
    case True
    have room: "ring_room r p \<longleftrightarrow> frame_length p \<le> rg_capacity r - total_len ss"
      using True o(4) unfolding ring_room_def Let_def used by linarith
    from write_frame_no_wrap [OF assms(1) True, of n k ts] budget obtain r' where
      "write_frame k ts p r = Some r'"
      "if ring_room r p
       then ring_holds n r' (ss @ [(k, ts, frame_body p)]) \<and> rg_dropped r' = rg_dropped r
       else ring_holds n r' ss \<and> rg_dropped r' = rg_dropped r + 1" unfolding room by auto
    with assms(2) show ?thesis
      by (intro exI [of _ r'] exI [of _ "if ring_room r p then ss @ [(k, ts, frame_body p)] else ss"])
        (auto split: if_splits)
  next
    case False
    let ?r = "write_pad ts r"
    from False have wrap: "rg_capacity r - rg_head r mod rg_capacity r < frame_length p"
      and free: "frame_length p \<le> rg_capacity r - total_len ss" using o(4) by linarith+
    have "0 < rg_capacity r - rg_head r mod rg_capacity r" using o(4) by simp
    with o(3) have "\<not> rg_capacity r - rg_head r mod rg_capacity r < FRAME_HEADER_BYTES"
      by (auto simp: FRAME_HEADER_BYTES_def FRAME_ALIGN_def not_less intro: dvd_imp_le)
    moreover have "\<not> rg_capacity r - total_len ss < frame_length p" using free by linarith
    ultimately have rec: "write_frame k ts p r = write_frame k ts p ?r"
      using wrap unfolding write_frame.simps [of k ts p r] Let_def o(1,5)
      by (simp only: if_False if_True)
    have cap: "rg_capacity ?r = rg_capacity r" "rg_dropped ?r = rg_dropped r"
      by (simp_all add: write_pad_def Let_def)
    have le: "rg_capacity r - rg_head r mod rg_capacity r \<le> rg_capacity r - total_len ss"
      using wrap free by simp
    have "rg_head r + rg_capacity r + 0 * (2 * rg_capacity r) < 2 ^ 63" using budget by simp
    note pad = write_pad_holds [OF assms(1) le this, of ts]
    from pad(1) obtain body where p: "ring_holds 0 ?r (ss @ [(PAD, ts, body)])" ..
    note hd = pad(2) and eq = pad(3)
    have "frame_length p \<le> rg_capacity r" using free by linarith
    then have "rg_head ?r mod rg_capacity ?r + frame_length p \<le> rg_capacity ?r"
      unfolding cap hd by (simp only: add_0)
    then have fits: "rg_head ?r mod rg_capacity ?r + frame_length p \<le> rg_capacity ?r
      \<or> rg_capacity ?r - total_len (ss @ [(PAD, ts, body)]) < frame_length p"
      by (rule disjI1)
    have "rg_head ?r + rg_capacity ?r + n * (2 * rg_capacity ?r) < 2 ^ 63"
      using eq cap budget by simp
    note wr = write_frame_no_wrap [OF p fits this, of k ts]
    have "rg_head ?r = rg_tail ?r + total_len (ss @ [(PAD, ts, body)])"
      using p unfolding ring_holds_def by blast
    moreover have "rg_tail ?r = rg_tail r" by (simp add: write_pad_def Let_def)
    moreover have "rg_head r = rg_tail r + total_len ss"
      using assms(1) unfolding ring_holds_def by blast
    ultimately have
      "total_len (ss @ [(PAD, ts, body)]) = total_len ss + (rg_capacity r - rg_head r mod rg_capacity r)"
      using eq by linarith
    then have room: "ring_room r p \<longleftrightarrow>
        frame_length p \<le> rg_capacity ?r - total_len (ss @ [(PAD, ts, body)])"
      using wrap free unfolding ring_room_def Let_def used cap by linarith
    from wr [folded room rec, unfolded cap(2)] obtain r' where
      "write_frame k ts p r = Some r'"
      "if ring_room r p
       then ring_holds n r' ((ss @ [(PAD, ts, body)]) @ [(k, ts, frame_body p)]) \<and>
         rg_dropped r' = rg_dropped r
       else ring_holds n r' (ss @ [(PAD, ts, body)]) \<and> rg_dropped r' = rg_dropped r + 1"
      by blast
    with assms(2) show ?thesis
      by (intro exI [of _ r'] exI [of _ "if ring_room r p
          then (ss @ [(PAD, ts, body)]) @ [(k, ts, frame_body p)] else ss @ [(PAD, ts, body)]"])
        (auto split: if_splits)
  qed
qed

section \<open>Reading\<close>

lemma header_fields:
  assumes "off + slot_len (k, ts, body) \<le> length data" and "slot_len (k, ts, body) < 2 ^ 32"
    and "take (slot_len (k, ts, body)) (drop off data) = slot_bytes (k, ts, body)"
  shows "hdr_len off data = slot_len (k, ts, body)" and "hdr_kind off data = k"
    and "hdr_ts off data = ts"
    and "take (slot_len (k, ts, body) - FRAME_HEADER_BYTES)
      (drop (off + FRAME_HEADER_BYTES) data) = body"
proof -
  obtain rest where d: "drop off data =
      put_u32 (of_nat (slot_len (k, ts, body))) @ put_u32 k @ put_u64 ts @ body @ rest"
    using assms(3) append_take_drop_id [of "slot_len (k, ts, body)" "drop off data"]
    by (metis append_assoc frame_header_def slot_bytes.simps slot_len.simps)
  have shift: "drop (off + m) data = drop m (drop off data)" for m by (simp add: add.commute)
  from assms(2) have "unat (of_nat (slot_len (k, ts, body)) :: u32) = slot_len (k, ts, body)"
    unfolding unat_of_nat by (intro mod_less) simp
  with d show "hdr_len off data = slot_len (k, ts, body)"
    by (simp add: hdr_len_def del: slot_len.simps)
  show "hdr_kind off data = k" unfolding hdr_kind_def shift d by simp
  show "hdr_ts off data = ts" unfolding hdr_ts_def shift d by simp
  show "take (slot_len (k, ts, body) - FRAME_HEADER_BYTES)
      (drop (off + FRAME_HEADER_BYTES) data) = body"
    unfolding shift d by (simp add: FRAME_HEADER_BYTES_def)
qed

lemma ring_next_empty: "ring_holds n r [] \<Longrightarrow> ring_next r = Some (Inr None, r)"
  by (simp add: ring_next.simps [of r] ring_holds_def)

lemma ring_next_slot:
  assumes "ring_holds n r ((k, ts, body) # ss)"
  shows "ring_holds n (advance (slot_len (k, ts, body)) r) ss"
    and "ring_next r = (if k = PAD then ring_next (advance (slot_len (k, ts, body)) r)
      else Some (view k ts body, advance (slot_len (k, ts, body)) r))"
proof -
  let ?s = "(k, ts, body)"
  from assms have r: "is_power_of_two (rg_capacity r)" "length (rg_data r) = rg_capacity r"
    "rg_head r = rg_tail r + (slot_len ?s + total_len ss)" "rg_head r < 2 ^ 63"
    "FRAME_ALIGN dvd rg_tail r" "slot_ok ?s" "slot_at (rg_capacity r) (rg_data r) (rg_tail r) ?s"
    by (auto simp: ring_holds_def simp del: slot_len.simps)
  have add: "u64_add (rg_tail r) (slot_len ?s) = rg_tail r + slot_len ?s" using r(3,4) by simp
  show "ring_holds n (advance (slot_len ?s) r) ss"
    using assms add r(6) unfolding ring_holds_def
    by (auto simp: advance_def slot_ok_def mod_eq_0_iff_dvd simp del: slot_len.simps)
  have off: "ring_offset (rg_capacity r) (rg_tail r) = rg_tail r mod rg_capacity r"
    by (rule ring_offset_mod [OF r(1)])
  from r(6,7) r(2) have fits: "rg_tail r mod rg_capacity r + slot_len ?s \<le> length (rg_data r)"
    and "slot_len ?s < 2 ^ 32" and "take (slot_len ?s) (drop (rg_tail r mod rg_capacity r) (rg_data r)) =
      slot_bytes ?s" by (simp_all add: slot_at_def slot_ok_def del: slot_len.simps slot_bytes.simps)
  note h = header_fields [OF this]
  have ge: "FRAME_HEADER_BYTES \<le> slot_len ?s" by simp
  have "plausible r (rg_tail r mod rg_capacity r) (slot_len ?s)"
    using fits r(2,3) add ge by (simp add: plausible_def del: slot_len.simps)
  moreover have "\<not> rg_capacity r < rg_tail r mod rg_capacity r + FRAME_HEADER_BYTES"
    using fits r(2) ge by linarith
  moreover have "rg_tail r \<noteq> rg_head r" using r(3) slot_len_pos(1) [of ?s] by linarith
  ultimately show "ring_next r = (if k = PAD then ring_next (advance (slot_len ?s) r)
      else Some (view k ts body, advance (slot_len ?s) r))"
    by (subst ring_next.simps) (simp add: off h Let_def del: slot_len.simps)
qed

fun shown_slot :: "slot \<Rightarrow> next_result" where
  "shown_slot (k, ts, body) = view k ts body"

lemma ring_next_holds:
  assumes "ring_holds n r ss"
  shows "\<exists>r' ss'. ring_next r =
      Some (case unread ss of [] \<Rightarrow> Inr None | s # _ \<Rightarrow> shown_slot s, r') \<and>
    ring_holds n r' ss' \<and> unread ss' = tl (unread ss) \<and> rg_dropped r' = rg_dropped r"
  using assms
proof (induction ss arbitrary: r)
  case Nil
  with ring_next_empty [OF Nil] show ?case by auto
next
  case (Cons s ss)
  obtain k ts body where s: "s = (k, ts, body)" by (cases s)
  note n = ring_next_slot [OF Cons.prems [unfolded s]]
  have d: "rg_dropped (advance m r) = rg_dropped r" for m by (simp add: advance_def)
  show ?case
  proof (cases "k = PAD")
    case True
    with Cons.IH [OF n(1)] n(2) s d show ?thesis by (auto simp del: slot_len.simps)
  next
    case False
    with n s d show ?thesis by (auto simp del: slot_len.simps)
  qed
qed


section \<open>The channel\<close>

definition ring_send :: "slot \<Rightarrow> ring \<Rightarrow> ring option" where
  "ring_send x r = (case x of (k, ts, p) \<Rightarrow> write_frame k ts p r)"

definition slot_room :: "slot \<Rightarrow> ring \<Rightarrow> bool" where
  "slot_room x r \<longleftrightarrow> ring_room r (snd (snd x))"

definition padded :: "slot \<Rightarrow> slot" where
  "padded x = (fst x, fst (snd x), frame_body (snd (snd x)))"

interpretation rq: lossy_fifo ring_send ring_next slot_room rg_dropped ring_repr
  "\<lambda>x. fst x \<noteq> PAD" padded shown_slot "Inr None"
proof unfold_locales
  fix n r q and x :: slot
  assume q: "ring_repr (Suc n) r q" and x: "fst x \<noteq> PAD"
  obtain k ts p where xs: "x = (k, ts, p)" by (cases x)
  from q obtain ss where ss: "ring_holds (Suc n) r ss" "q = unread ss" by (auto simp: ring_repr_def)
  from x xs write_frame_holds [OF ss(1), of k ts p] obtain r' ss' where
    "write_frame k ts p r = Some r'" "ring_holds n r' ss'"
    "if ring_room r p
     then unread ss' = unread ss @ [(k, ts, frame_body p)] \<and> rg_dropped r' = rg_dropped r
     else unread ss' = unread ss \<and> rg_dropped r' = rg_dropped r + 1" by auto
  then show "\<exists>r'. ring_send x r = Some r' \<and>
      ring_repr n r' (if slot_room x r then q @ [padded x] else q) \<and>
      rg_dropped r' = (if slot_room x r then rg_dropped r else rg_dropped r + 1)"
    unfolding xs ss(2) ring_repr_def ring_send_def slot_room_def padded_def
    by (intro exI [of _ r']) (auto split: if_splits)
next
  fix n r q
  assume "ring_repr n r q"
  then obtain ss where ss: "ring_holds n r ss" "q = unread ss" by (auto simp: ring_repr_def)
  from ring_next_holds [OF ss(1)] show "\<exists>r'. ring_next r =
      Some (case q of [] \<Rightarrow> Inr None | y # _ \<Rightarrow> shown_slot y, r') \<and>
      ring_repr n r' (tl q) \<and> rg_dropped r' = rg_dropped r"
    unfolding ss(2) ring_repr_def by metis
qed

lemma create_ring_holds:
  assumes "create_ring cap = Inr r" and "cap < 2 ^ 32" and "n * (2 * cap) < 2 ^ 63"
  shows "ring_holds n r []"
  using assms by (auto simp: create_ring_def ring_holds_def split: if_splits)

end
