(* ===== verification/MetalHook.thy ===== *)
theory MetalHook
  imports RingQueue EventModel
begin

text \<open>
  The Metal hook probe, \<open>crates/smeltr-probes-metal-hook/src/translate.rs\<close> and \<open>lib.rs\<close>: what
  one tick of the probe reads from the ring and emits to its sink.  The sink is the list of what
  it was given, the raw stamp when the source passed one (\<open>emit_at\<close>) first; source and pid are the
  same for every emission of a probe.  A drain runs whole, no write falling inside it.  The text of
  an error is a parameter, since \<open>thiserror\<close> generates it.
\<close>

section \<open>Translation\<close>

definition op_sample_of :: "decoded_op \<Rightarrow> op_sample" where
  "op_sample_of d =
     \<lparr>op_name = dop_name d, op_symbol = dop_symbol d, op_gpu_ns = dop_gpu_ns d,
      op_count = dop_count d, op_apportioned_ns = Some (dop_apportioned_ns d)\<rparr>"

fun frame_to_payload :: "decoded_frame \<Rightarrow> payload" where
  "frame_to_payload (CbCommitted cb q depth l) = MetalCbCommitted cb q depth l"
| "frame_to_payload (CbScheduled cb q) = MetalCbScheduled cb q"
| "frame_to_payload (CbCompleted cb q st ec dm fl) = MetalCbCompleted cb q st ec dm fl"
| "frame_to_payload (CbWarning cb q el) = MetalCbWarning cb q el"
| "frame_to_payload (HeapAlloc h n l) = MetalHeapAlloc h n l"
| "frame_to_payload (HeapFree h) = MetalHeapFree h"
| "frame_to_payload (BufferAlloc b h n l) = MetalBufferAlloc b h n l"
| "frame_to_payload (BufferFree b) = MetalBufferFree b"
| "frame_to_payload (TextureAlloc t h n l) = MetalTextureAlloc t h n l"
| "frame_to_payload (TextureFree t) = MetalTextureFree t"
| "frame_to_payload (CbOps cb ops) = MetalCbOps cb (map op_sample_of ops)"
| "frame_to_payload (DeviceMemSample a r ev) = MetalDeviceMemSample a r ev"
| "frame_to_payload (RingDropped n) = MetalHookDropped n"
| "frame_to_payload (RingSkipped s) = MetalHookSkipped s"

section \<open>Draining\<close>

type_synonym emission = "u64 option \<times> payload"

record ring_drain =
  dr_reader :: ring
  dr_decode_errors :: u64
  dr_last_dropped :: u64

definition ring_drain_open :: "bytes \<Rightarrow> ring_error + ring_drain" where
  "ring_drain_open file =
     (case open_for_read file of
        Inl e \<Rightarrow> Inl e
      | Inr r \<Rightarrow> Inr \<lparr>dr_reader = r, dr_decode_errors = 0, dr_last_dropped = 0\<rparr>)"

definition decode_report :: "(ring_error \<Rightarrow> string) \<Rightarrow> ring_error \<Rightarrow> u64 \<Rightarrow> emission list" where
  "decode_report disp e n =
     (if n = 1 \<or> n mod 1000 = 0
      then [(None, MetalHookSkipped (''ring decode error (#'' @ digits (unat n) @ ''): '' @ disp e))]
      else [])"

partial_function (option) drain_frames ::
  "(ring_error \<Rightarrow> string) \<Rightarrow> emission list \<Rightarrow> ring_drain \<Rightarrow> (emission list \<times> ring_drain) option" where
  "drain_frames disp out d =
     (case ring_next (dr_reader d) of
        None \<Rightarrow> None
      | Some (res, r) \<Rightarrow>
          (case res of
             Inr (Some ev) \<Rightarrow>
               drain_frames disp (out @ [(Some (de_ts_mono_ns ev), frame_to_payload (de_frame ev))])
                 (d\<lparr>dr_reader := r\<rparr>)
           | Inr None \<Rightarrow> Some (out, d\<lparr>dr_reader := r\<rparr>)
           | Inl e \<Rightarrow>
               drain_frames disp (out @ decode_report disp e (dr_decode_errors d + 1))
                 (d\<lparr>dr_reader := r, dr_decode_errors := dr_decode_errors d + 1\<rparr>)))"

definition drop_report :: "ring_drain \<Rightarrow> emission list \<times> ring_drain" where
  "drop_report d =
     (let dropped = rg_dropped (dr_reader d)
      in if dr_last_dropped d < dropped
         then ([(None, MetalHookDropped (dropped - dr_last_dropped d))], d\<lparr>dr_last_dropped := dropped\<rparr>)
         else ([], d))"

definition drain_ring ::
  "(ring_error \<Rightarrow> string) \<Rightarrow> emission list \<times> ring_drain \<Rightarrow> (emission list \<times> ring_drain) option" where
  "drain_ring disp st =
     (case drain_frames disp (fst st) (snd st) of
        None \<Rightarrow> None
      | Some (out, d) \<Rightarrow> (case drop_report d of (report, d1) \<Rightarrow> Some (out @ report, d1)))"

section \<open>A hooked process and its probe\<close>

text \<open>The hook writes frames with its own stamps; now and then the probe drains the ring.\<close>

datatype hook_op = HookWrite u64 decoded_frame | HookDrain

definition hook_write :: "u64 \<Rightarrow> decoded_frame \<Rightarrow> ring_drain \<Rightarrow> ring_drain option" where
  "hook_write ts f d =
     (case encode_payload f of
        None \<Rightarrow> Some d
      | Some (k, p) \<Rightarrow> map_option (\<lambda>r. d\<lparr>dr_reader := r\<rparr>) (write_frame k ts p (dr_reader d)))"

fun hook_run ::
  "(ring_error \<Rightarrow> string) \<Rightarrow> hook_op list \<Rightarrow> emission list \<times> ring_drain \<Rightarrow>
   (emission list \<times> ring_drain) option" where
  "hook_run disp [] st = Some st"
| "hook_run disp (HookWrite ts f # ops) st =
     (case hook_write ts f (snd st) of None \<Rightarrow> None | Some d \<Rightarrow> hook_run disp ops (fst st, d))"
| "hook_run disp (HookDrain # ops) st =
     (case drain_ring disp st of None \<Rightarrow> None | Some st1 \<Rightarrow> hook_run disp ops st1)"

text \<open>The writes that found room in the ring.\<close>

definition write_fits :: "decoded_frame \<Rightarrow> ring_drain \<Rightarrow> bool" where
  "write_fits f d \<longleftrightarrow>
     (case encode_payload f of None \<Rightarrow> False | Some (k, p) \<Rightarrow> ring_room (dr_reader d) p)"

fun hook_taken ::
  "(ring_error \<Rightarrow> string) \<Rightarrow> hook_op list \<Rightarrow> emission list \<times> ring_drain \<Rightarrow>
   (u64 \<times> decoded_frame) list" where
  "hook_taken disp [] st = []"
| "hook_taken disp (HookWrite ts f # ops) st =
     (if write_fits f (snd st) then [(ts, f)] else []) @
     (case hook_write ts f (snd st) of None \<Rightarrow> [] | Some d \<Rightarrow> hook_taken disp ops (fst st, d))"
| "hook_taken disp (HookDrain # ops) st =
     (case drain_ring disp st of None \<Rightarrow> [] | Some st1 \<Rightarrow> hook_taken disp ops st1)"

fun hook_writes :: "hook_op list \<Rightarrow> nat" where
  "hook_writes [] = 0"
| "hook_writes (HookWrite ts f # ops) = Suc (hook_writes ops)"
| "hook_writes (HookDrain # ops) = hook_writes ops"

definition frame_emission :: "u64 \<times> decoded_frame \<Rightarrow> emission" where
  "frame_emission x = (Some (fst x), frame_to_payload (frame_norm (snd x)))"

fun drop_count :: "emission \<Rightarrow> nat" where
  "drop_count (None, MetalHookDropped n) = unat n"
| "drop_count _ = 0"

definition writable :: "hook_op \<Rightarrow> bool" where
  "writable x \<longleftrightarrow>
     (case x of HookWrite ts f \<Rightarrow> frame_ok f \<and> encode_payload f \<noteq> None | HookDrain \<Rightarrow> True)"

end
