(* ===== verification/RingProps.thy ===== *)
theory RingProps
  imports RingQueue
begin

text \<open>
  What the ring promises to its two sides: runs of writes and reads behave like a queue that
  loses exactly the frames without room; a reader that finds garbage moves on; a reader that
  keeps calling catches up; a reader that maps a ring written by \<open>create_ring\<close> and
  \<open>write_frame\<close> sees that ring.
\<close>

definition writes_frames :: "slot channel_op list \<Rightarrow> bool" where
  "writes_frames ops \<longleftrightarrow>
     list_all (\<lambda>c. case c of Send x \<Rightarrow> fst x \<noteq> PAD | Receive \<Rightarrow> True) ops"

text \<open>
  C11. A fresh ring under any sequence of \<open>write_frame\<close> and \<open>next\<close> calls behaves like a queue: the
  calls all return, \<open>next\<close> gives the accepted frames decoded, in order and each once, and
  \<open>None\<close> exactly when none is left; \<open>dropped\<close> counts the refused frames, and a frame is refused
  exactly when it does not fit in the free space (with the padding before it when it wraps).
\<close>
theorem ring_refines_queue:
  assumes "create_ring cap = Inr r" and "cap < 2 ^ 32" and "writes_frames ops"
    and "sends ops * (2 * cap) < 2 ^ 63"
  shows "\<exists>rs t rest. channel_run ring_send ring_next ops r = Some (rs, t) \<and>
    queue_run padded shown_slot (Inr None) ops (channel_flags ring_send ring_next slot_room ops r) [] =
      (rs, rest) \<and>
    rg_dropped t =
      of_nat (length (filter Not (channel_flags ring_send ring_next slot_room ops r)))"
proof -
  have "ring_holds (0 + sends ops) r []"
    unfolding add_0 by (rule create_ring_holds [OF assms(1,2,4)])
  then have "ring_repr (0 + sends ops) r []" unfolding ring_repr_def by force
  moreover have "\<forall>x. Send x \<in> set ops \<longrightarrow> fst x \<noteq> PAD"
    using assms(3) by (auto simp: writes_frames_def list_all_iff)
  ultimately have "\<exists>rs t q'. channel_run ring_send ring_next ops r = Some (rs, t) \<and>
    queue_run padded shown_slot (Inr None) ops (channel_flags ring_send ring_next slot_room ops r) [] =
      (rs, q') \<and> ring_repr 0 t q' \<and>
    rg_dropped t = rg_dropped r +
      of_nat (length (filter Not (channel_flags ring_send ring_next slot_room ops r)))"
    by (rule rq.run_refines)
  moreover have "rg_dropped r = 0" using assms(1) by (auto simp: create_ring_def split: if_splits)
  ultimately show ?thesis by auto
qed

definition small_ring :: ring where
  "small_ring = \<lparr>rg_capacity = 64, rg_head = 0, rg_tail = 0, rg_dropped = 0, rg_data = replicate 64 0\<rparr>"

definition small_ops :: "slot channel_op list" where
  "small_ops = [Send (HEAP_FREE, 9, put_u64 7), Send (HEAP_FREE, 10, put_u64 8), Receive,
     Send (HEAP_FREE, 11, put_u64 9), Receive, Receive]"

lemma ring_refines_queue_witness:
  "\<exists>rs t rest. channel_run ring_send ring_next small_ops small_ring = Some (rs, t) \<and>
    queue_run padded shown_slot (Inr None) small_ops
      (channel_flags ring_send ring_next slot_room small_ops small_ring) [] = (rs, rest) \<and>
    rg_dropped t =
      of_nat (length (filter Not (channel_flags ring_send ring_next slot_room small_ops small_ring)))"
proof (rule ring_refines_queue)
  have "is_power_of_two 64" using pow_power_of_two [of 6] by simp
  then show "create_ring 64 = Inr small_ring" by (simp add: create_ring_def small_ring_def)
qed (simp_all add: small_ops_def writes_frames_def HEAP_FREE_def PAD_def)

section \<open>Arbitrary bytes\<close>

lemma hdr_len_less: "hdr_len off data < 2 ^ 32"
  unfolding hdr_len_def using unsigned_less [of "u32_of (take 4 (drop off data))"] by simp

definition moves_on :: "ring \<Rightarrow> next_result \<Rightarrow> ring \<Rightarrow> bool" where
  "moves_on r res r' \<longleftrightarrow>
     rg_head r' = rg_head r \<and> rg_data r' = rg_data r \<and>
     (rg_tail r' = rg_head r \<and> (res = Inr None \<or> rg_tail r \<noteq> rg_head r) \<or>
      res \<noteq> Inr None \<and> rg_tail r + FRAME_HEADER_BYTES \<le> rg_tail r' \<and> rg_tail r' \<le> rg_head r)"

lemma view_not_None [simp]: "view k ts body \<noteq> Inr None"
  by (simp add: view_def split: sum.splits)

lemma moves_on_resync: "rg_tail r \<noteq> rg_head r \<Longrightarrow> resync r = (res, r') \<Longrightarrow> moves_on r res r'"
  by (auto simp: resync_def moves_on_def)

lemma moves_on_trans:
  assumes "moves_on (advance len r) res r'" and "rg_tail r + len \<le> rg_head r"
    and "rg_head r < 2 ^ 63" and "FRAME_HEADER_BYTES \<le> len"
  shows "moves_on r res r'"
  using assms by (auto simp: moves_on_def advance_def FRAME_HEADER_BYTES_def)

lemma plausible_bounds:
  assumes "plausible r off (hdr_len off (rg_data r))" and "rg_tail r < 2 ^ 63"
  shows "rg_tail r + hdr_len off (rg_data r) \<le> rg_head r"
    and "FRAME_HEADER_BYTES \<le> hdr_len off (rg_data r)"
  using assms hdr_len_less [of off "rg_data r"] by (simp_all add: plausible_def)

lemma ring_next_moves:
  "rg_head r < 2 ^ 63 \<Longrightarrow> rg_tail r < 2 ^ 63 \<Longrightarrow>
     \<exists>res r'. ring_next r = Some (res, r') \<and> moves_on r res r'"
proof (induction "rg_head r - rg_tail r" arbitrary: r rule: less_induct)
  case less
  let ?off = "ring_offset (rg_capacity r) (rg_tail r)"
  let ?len = "hdr_len ?off (rg_data r)"
  show ?case
  proof (cases "rg_tail r = rg_head r")
    case True
    then show ?thesis by (simp add: ring_next.simps [of r] moves_on_def)
  next
    case False
    show ?thesis
    proof (cases "rg_capacity r < ?off + FRAME_HEADER_BYTES \<or> \<not> plausible r ?off ?len")
      case True
      with False have "ring_next r = Some (resync r)"
        by (auto simp: ring_next.simps [of r] Let_def)
      with moves_on_resync [OF False] show ?thesis by (metis surj_pair)
    next
      case plausible: False
      then have "plausible r ?off ?len" by simp
      note b = plausible_bounds [OF this less.prems(2)]
      have adv: "rg_tail (advance ?len r) = rg_tail r + ?len" "rg_head (advance ?len r) = rg_head r"
        using b(1) less.prems(1) by (simp_all add: advance_def)
      show ?thesis
      proof (cases "hdr_kind ?off (rg_data r) = PAD")
        case True
        with False plausible have eq: "ring_next r = ring_next (advance ?len r)"
          by (simp add: ring_next.simps [of r] Let_def)
        have "rg_head (advance ?len r) - rg_tail (advance ?len r) < rg_head r - rg_tail r"
          using adv b by (simp add: FRAME_HEADER_BYTES_def)
        from less.hyps [OF this] adv b less.prems obtain res r' where
          "ring_next (advance ?len r) = Some (res, r')" "moves_on (advance ?len r) res r'" by auto
        with eq moves_on_trans [OF _ b(1) less.prems(1) b(2)] show ?thesis by metis
      next
        case frame: False
        with False plausible have "ring_next r = Some (view (hdr_kind ?off (rg_data r))
            (hdr_ts ?off (rg_data r)) (take (?len - FRAME_HEADER_BYTES)
              (drop (?off + FRAME_HEADER_BYTES) (rg_data r))), advance ?len r)"
          by (simp add: ring_next.simps [of r] Let_def)
        then show ?thesis using adv b by (simp add: moves_on_def advance_def)
      qed
    qed
  qed
qed

text \<open>
  Whatever bytes the data area holds, torn or corrupt, \<open>next\<close> returns, leaves the ring's bytes
  and \<open>head\<close> alone, and makes progress: it either says \<open>None\<close> having reached \<open>head\<close>, or returns
  an event or an error with \<open>tail\<close> resynced to \<open>head\<close> or moved on by at least a frame header.
\<close>
theorem ring_next_progress:
  assumes "rg_head r < 2 ^ 63" and "rg_tail r < 2 ^ 63"
  shows "\<exists>res r'. ring_next r = Some (res, r') \<and> moves_on r res r'"
  using ring_next_moves [OF assms] .

definition torn_ring :: ring where
  "torn_ring = \<lparr>rg_capacity = 64, rg_head = 48, rg_tail = 16, rg_dropped = 0,
     rg_data = replicate 64 255\<rparr>"

lemma ring_next_progress_witness:
  "\<exists>res r'. ring_next torn_ring = Some (res, r') \<and> moves_on torn_ring res r'"
  using ring_next_progress [of torn_ring] by (simp add: torn_ring_def)

lemma drain:
  "rg_head r < 2 ^ 63 \<Longrightarrow> rg_tail r < 2 ^ 63 \<Longrightarrow> rg_head r - rg_tail r \<le> FRAME_HEADER_BYTES * n \<Longrightarrow>
     0 < n \<or> rg_tail r \<le> rg_head r \<Longrightarrow>
     \<exists>rs t. channel_run ring_send ring_next (replicate (Suc n) Receive) r = Some (rs, t) \<and>
       length rs = Suc n \<and> last rs = Inr None \<and> rg_tail t = rg_head r"
proof (induction n arbitrary: r)
  case 0
  then show ?case by (simp add: ring_next.simps [of r])
next
  case (Suc n)
  from ring_next_moves [OF Suc.prems(1,2)] obtain res r' where
    r': "ring_next r = Some (res, r')" "moves_on r res r'" by auto
  then have "rg_head r' - rg_tail r' \<le> FRAME_HEADER_BYTES * n" "rg_tail r' \<le> rg_head r'"
    "rg_head r' = rg_head r" using Suc.prems(3) by (auto simp: moves_on_def FRAME_HEADER_BYTES_def)
  with Suc.IH [of r'] Suc.prems(1) obtain rs t where
    "channel_run ring_send ring_next (replicate (Suc n) Receive) r' = Some (rs, t)"
    "length rs = Suc n" "last rs = Inr None" "rg_tail t = rg_head r" by auto
  with r'(1) show ?case by (auto simp: replicate_Suc [of "Suc n"] simp del: replicate_Suc)
qed

text \<open>
  C23. A reader that keeps calling \<open>next\<close> catches up, whatever the bytes: with \<open>n\<close> frame headers'
  worth of unread bytes, the \<open>n + 1\<close>st call at the latest returns \<open>None\<close> with \<open>tail\<close> at
  \<open>head\<close>.
\<close>
theorem ring_reader_catches_up:
  assumes "rg_head r < 2 ^ 63" and "rg_tail r < 2 ^ 63"
    and "rg_head r - rg_tail r \<le> FRAME_HEADER_BYTES * n" and "0 < n"
  shows "\<exists>rs t. channel_run ring_send ring_next (replicate (Suc n) Receive) r = Some (rs, t) \<and>
    length rs = Suc n \<and> last rs = Inr None \<and> rg_tail t = rg_head r"
  using drain [OF assms(1-3)] assms(4) by blast

lemma ring_reader_catches_up_witness:
  "\<exists>rs t. channel_run ring_send ring_next (replicate 3 Receive) torn_ring = Some (rs, t) \<and>
    length rs = 3 \<and> last rs = Inr None \<and> rg_tail t = 48"
proof -
  have "Suc 2 = 3" "rg_head torn_ring = 48" by (simp_all add: torn_ring_def)
  then show ?thesis
    using ring_reader_catches_up [of torn_ring 2] by (simp add: torn_ring_def FRAME_HEADER_BYTES_def)
qed

section \<open>The mapped file\<close>

lemma unat_of_nat_small: "n < 2 ^ 64 \<Longrightarrow> unat (of_nat n :: u64) = n"
  by (simp add: unat_of_nat)

text \<open>
  A reader that opens the file of a ring in use gets that ring: capacity, counters and bytes.
\<close>
theorem open_written_ring:
  assumes "ring_holds n r ss"
  shows "open_for_read (ring_image r) = Inr r"
proof -
  from assms have "is_power_of_two (rg_capacity r)" "rg_capacity r < 2 ^ 64" "rg_head r < 2 ^ 64"
    "rg_tail r < 2 ^ 64" "length (rg_data r) = rg_capacity r" by (auto simp: ring_holds_def)
  then show ?thesis
    by (simp add: open_for_read_def ring_image_def RING_HEADER_BYTES_def unat_of_nat_small)
qed

lemma open_written_ring_witness: "open_for_read (ring_image small_ring) = Inr small_ring"
proof (rule open_written_ring)
  have "is_power_of_two 64" using pow_power_of_two [of 6] by simp
  then have "create_ring 64 = Inr small_ring" by (simp add: create_ring_def small_ring_def)
  then show "ring_holds 0 small_ring []" by (rule create_ring_holds) simp_all
qed

end
