(* ===== verification/MetalHookFacts.thy ===== *)
theory MetalHookFacts
  imports MetalHook RingProps
begin

text \<open>
  What the probe passes on: every frame the hook got into the ring, once, in order and with the
  hook's stamp, and the count of the frames that found no room.
\<close>

section \<open>Draining a well-formed ring\<close>

text \<open>The slot of a frame the writer encodes shows that frame.\<close>

definition slot_of :: "u64 \<times> decoded_frame \<Rightarrow> slot" where
  "slot_of x = (case encode_payload (snd x) of Some (k, p) \<Rightarrow> (k, fst x, p) | None \<Rightarrow> (PAD, fst x, []))"

definition frame_written :: "u64 \<times> decoded_frame \<Rightarrow> bool" where
  "frame_written x \<longleftrightarrow> frame_ok (snd x) \<and> encode_payload (snd x) \<noteq> None"

lemma encode_not_pad: "encode_payload f = Some (k, p) \<Longrightarrow> k \<noteq> PAD"
  by (cases f) (auto simp: kind_defs)

lemma shown_frame:
  assumes "frame_written x"
  shows "shown_slot (padded (slot_of x)) =
    Inr (Some \<lparr>de_ts_mono_ns = fst x, de_frame = frame_norm (snd x)\<rparr>)"
proof -
  from assms obtain k p where e: "encode_payload (snd x) = Some (k, p)" and "frame_ok (snd x)"
    by (auto simp: frame_written_def)
  have "decode_frame k (frame_body p) = Inr (frame_norm (snd x))"
    unfolding frame_body_def
    by (rule decode_frameI, rule rd_frame_encode [OF e \<open>frame_ok (snd x)\<close>]) (simp add: at_field_def)
  then show ?thesis by (simp add: slot_of_def e padded_def view_def)
qed

lemma drain_frames_delivers:
  assumes "ring_repr n (dr_reader d) (map (padded \<circ> slot_of) xs)" and "list_all frame_written xs"
  shows "\<exists>r. drain_frames disp out d = Some (out @ map frame_emission xs, d\<lparr>dr_reader := r\<rparr>) \<and>
    ring_repr n r [] \<and> rg_dropped r = rg_dropped (dr_reader d)"
  using assms
proof (induction xs arbitrary: d out)
  case Nil
  from rq.receive_repr [OF Nil(1)] obtain r where "ring_next (dr_reader d) = Some (Inr None, r)"
    "ring_repr n r []" "rg_dropped r = rg_dropped (dr_reader d)" by auto
  then show ?case by (auto simp: drain_frames.simps [of disp out d] intro!: exI [of _ r])
next
  case (Cons x xs)
  from rq.receive_repr [OF Cons.prems(1)] Cons.prems(2) obtain r where
    r: "ring_next (dr_reader d) =
      Some (Inr (Some \<lparr>de_ts_mono_ns = fst x, de_frame = frame_norm (snd x)\<rparr>), r)"
    "ring_repr n r (map (padded \<circ> slot_of) xs)" "rg_dropped r = rg_dropped (dr_reader d)"
    by (auto simp: shown_frame comp_def)
  then have "drain_frames disp out d =
      drain_frames disp (out @ [frame_emission x]) (d\<lparr>dr_reader := r\<rparr>)"
    by (simp add: drain_frames.simps [of disp out d] frame_emission_def)
  with Cons.IH [of "d\<lparr>dr_reader := r\<rparr>" "out @ [frame_emission x]"] r Cons.prems(2)
  show ?case by (auto simp: comp_def)
qed

section \<open>The run\<close>

text \<open>
  After \<open>m\<close> refused writes: \<open>taken\<close> frames are either in the sink or still in the ring, and the
  drops the sink has seen are those of the last drain.
\<close>

definition hooked ::
  "nat \<Rightarrow> (u64 \<times> decoded_frame) list \<Rightarrow> nat \<Rightarrow> emission list \<times> ring_drain \<Rightarrow> bool" where
  "hooked n taken m st \<longleftrightarrow>
     (\<exists>seen waiting.
        taken = seen @ waiting \<and> list_all frame_written waiting \<and>
        ring_repr n (dr_reader (snd st)) (map (padded \<circ> slot_of) waiting) \<and>
        filter (\<lambda>e. fst e \<noteq> None) (fst st) = map frame_emission seen \<and>
        unat (rg_dropped (dr_reader (snd st))) = m \<and> dr_last_dropped (snd st) \<le> rg_dropped (dr_reader (snd st)) \<and>
        sum_list (map drop_count (fst st)) = unat (dr_last_dropped (snd st)) \<and>
        (\<forall>e \<in> set (fst st). fst e = None \<longrightarrow> 0 < drop_count e))"

lemma hooked_write:
  assumes "hooked (Suc n) taken m (out, d)" and "writable (HookWrite ts f)" and "m + 1 < 2 ^ 64"
  shows "\<exists>d'. hook_write ts f d = Some d' \<and>
    hooked n (if write_fits f d then taken @ [(ts, f)] else taken)
      (if write_fits f d then m else m + 1) (out, d')"
proof -
  from assms(2) obtain k p where e: "encode_payload f = Some (k, p)" and ok: "frame_ok f"
    by (auto simp: writable_def)
  from assms(1) obtain seen waiting where h: "taken = seen @ waiting" "list_all frame_written waiting"
    "ring_repr (Suc n) (dr_reader d) (map (padded \<circ> slot_of) waiting)"
    "filter (\<lambda>e. fst e \<noteq> None) out = map frame_emission seen"
    "unat (rg_dropped (dr_reader d)) = m" "dr_last_dropped d \<le> rg_dropped (dr_reader d)"
    "sum_list (map drop_count out) = unat (dr_last_dropped d)"
    "\<forall>e \<in> set out. fst e = None \<longrightarrow> 0 < drop_count e" by (auto simp: hooked_def)
  have slot: "slot_of (ts, f) = (k, ts, p)" by (simp add: slot_of_def e)
  have written: "frame_written (ts, f)" by (simp add: frame_written_def e ok)
  from rq.send_repr [OF h(3), of "(k, ts, p)"] encode_not_pad [OF e] obtain r where
    r: "write_frame k ts p (dr_reader d) = Some r"
    "ring_repr n r (if ring_room (dr_reader d) p
       then map (padded \<circ> slot_of) waiting @ [padded (k, ts, p)] else map (padded \<circ> slot_of) waiting)"
    "rg_dropped r = (if ring_room (dr_reader d) p then rg_dropped (dr_reader d)
       else rg_dropped (dr_reader d) + 1)"
    by (auto simp: ring_send_def slot_room_def)
  have fits: "write_fits f d = ring_room (dr_reader d) p" by (simp add: write_fits_def e)
  have w: "hook_write ts f d = Some (d\<lparr>dr_reader := r\<rparr>)" by (simp add: hook_write_def e r(1))
  have step: "unat (rg_dropped (dr_reader d) + 1) = m + 1"
    using assms(3) h(5) by (simp add: unat_word_ariths)
  show ?thesis
  proof (cases "ring_room (dr_reader d) p")
    case True
    with h r written slot show ?thesis
      unfolding w fits hooked_def
      by (intro exI [of _ "d\<lparr>dr_reader := r\<rparr>"] conjI refl exI [of _ seen] exI [of _ "waiting @ [(ts, f)]"])
        simp_all
  next
    case False
    have "dr_last_dropped d \<le> rg_dropped (dr_reader d) + 1"
      using h(5,6) step by (simp add: word_le_nat_alt)
    with False h r step show ?thesis
      unfolding w fits hooked_def
      by (intro exI [of _ "d\<lparr>dr_reader := r\<rparr>"] conjI refl exI [of _ seen] exI [of _ waiting]) simp_all
  qed
qed

lemma drop_report_accounts:
  assumes "dr_last_dropped d \<le> rg_dropped (dr_reader d)"
  shows "dr_reader (snd (drop_report d)) = dr_reader d"
    and "dr_last_dropped (snd (drop_report d)) = rg_dropped (dr_reader d)"
    and "filter (\<lambda>e. fst e \<noteq> None) (fst (drop_report d)) = []"
    and "sum_list (map drop_count (fst (drop_report d))) + unat (dr_last_dropped d) =
      unat (rg_dropped (dr_reader d))"
    and "\<forall>e \<in> set (fst (drop_report d)). fst e = None \<longrightarrow> 0 < drop_count e"
  using assms
  by (auto simp: drop_report_def Let_def unat_sub word_le_nat_alt word_less_nat_alt word_unat_eq_iff)

lemma hooked_drain:
  assumes "hooked n taken m (out, d)"
  shows "\<exists>out' d'. drain_ring disp (out, d) = Some (out', d') \<and> hooked n taken m (out', d') \<and>
    filter (\<lambda>e. fst e \<noteq> None) out' = map frame_emission taken \<and>
    sum_list (map drop_count out') = m \<and> (\<forall>e \<in> set out'. fst e = None \<longrightarrow> 0 < drop_count e)"
proof -
  from assms obtain seen waiting where h: "taken = seen @ waiting" "list_all frame_written waiting"
    "ring_repr n (dr_reader d) (map (padded \<circ> slot_of) waiting)"
    "filter (\<lambda>e. fst e \<noteq> None) out = map frame_emission seen"
    "unat (rg_dropped (dr_reader d)) = m" "dr_last_dropped d \<le> rg_dropped (dr_reader d)"
    "sum_list (map drop_count out) = unat (dr_last_dropped d)"
    "\<forall>e \<in> set out. fst e = None \<longrightarrow> 0 < drop_count e" by (auto simp: hooked_def)
  from drain_frames_delivers [OF h(3,2)] obtain r where
    r: "drain_frames disp out d = Some (out @ map frame_emission waiting, d\<lparr>dr_reader := r\<rparr>)"
    "ring_repr n r []" "rg_dropped r = rg_dropped (dr_reader d)" by blast
  let ?d = "d\<lparr>dr_reader := r\<rparr>"
  obtain rep d' where rep: "drop_report ?d = (rep, d')" by (cases "drop_report ?d")
  have le: "dr_last_dropped ?d \<le> rg_dropped (dr_reader ?d)" using h(6) r(3) by simp
  note acc = drop_report_accounts [OF le, unfolded rep, simplified]
  let ?out = "out @ map frame_emission waiting @ rep"
  have stamped: "filter (\<lambda>e. fst e \<noteq> None) (map frame_emission waiting) = map frame_emission waiting"
    by (simp add: filter_id_conv frame_emission_def)
  have none: "drop_count (frame_emission x) = 0" for x by (simp add: frame_emission_def)
  then have zero: "sum_list (map (drop_count \<circ> frame_emission) waiting) = 0" by (induction waiting) simp_all
  have f: "filter (\<lambda>e. fst e \<noteq> None) ?out = map frame_emission taken"
    using h(1,4) stamped acc(3) by simp
  have s: "sum_list (map drop_count ?out) = m"
    using zero acc(4) h(5,7) r(3) by (simp del: sum_list_eq_0_iff)
  have "hooked n taken m (?out, d')"
    unfolding hooked_def
    by (intro exI [of _ taken] exI [of _ "[]"])
      (use f s acc h(5,8) r in \<open>auto simp: frame_emission_def\<close>)
  moreover have "\<forall>e \<in> set ?out. fst e = None \<longrightarrow> 0 < drop_count e"
    using h(8) acc(5) by (auto simp: frame_emission_def)
  ultimately show ?thesis using r(1) rep f s
    by (intro exI [of _ ?out] exI [of _ d']) (simp add: drain_ring_def)
qed

lemma hooked_run:
  assumes "hooked (n + hook_writes ops) taken m st" and "list_all writable ops"
    and "m + hook_writes ops < 2 ^ 64"
  shows "\<exists>st'. hook_run disp ops st = Some st' \<and>
    hooked n (taken @ hook_taken disp ops st)
      (m + hook_writes ops - length (hook_taken disp ops st)) st' \<and>
    length (hook_taken disp ops st) \<le> hook_writes ops"
  using assms
proof (induction ops arbitrary: taken m st)
  case Nil
  then show ?case by simp
next
  case (Cons x ops)
  obtain out d where st: "st = (out, d)" by (cases st)
  show ?case
  proof (cases x)
    case (HookWrite ts f)
    with Cons.prems st obtain d' where d': "hook_write ts f d = Some d'"
      "hooked (n + hook_writes ops) (if write_fits f d then taken @ [(ts, f)] else taken)
        (if write_fits f d then m else m + 1) (out, d')"
      using hooked_write [of "n + hook_writes ops" taken m out d ts f] by auto
    from Cons.IH [OF d'(2)] Cons.prems(2,3) HookWrite d'(1) st show ?thesis
      by (auto split: if_splits)
  next
    case HookDrain
    from Cons.prems(1) HookDrain st have "hooked (n + hook_writes ops) taken m (out, d)" by simp
    from hooked_drain [OF this, of disp] obtain out' d' where
      "drain_ring disp (out, d) = Some (out', d')" "hooked (n + hook_writes ops) taken m (out', d')"
      by blast
    with Cons.IH [of taken m "(out', d')"] Cons.prems(2,3) HookDrain st show ?thesis by auto
  qed
qed

lemma hook_run_append:
  "hook_run disp (xs @ ys) st = Option.bind (hook_run disp xs st) (hook_run disp ys)"
  by (induction disp xs st rule: hook_run.induct) (simp_all split: option.splits)

definition drain_start :: "ring \<Rightarrow> emission list \<times> ring_drain" where
  "drain_start r = ([], \<lparr>dr_reader = r, dr_decode_errors = 0, dr_last_dropped = 0\<rparr>)"

lemma hook_run_delivers:
  assumes "create_ring cap = Inr r" and "cap < 2 ^ 32" and "list_all writable ops"
    and "hook_writes ops * (2 * cap) < 2 ^ 63"
  shows "\<exists>out d. hook_run disp (ops @ [HookDrain]) (drain_start r) = Some (out, d) \<and>
    filter (\<lambda>e. fst e \<noteq> None) out = map frame_emission (hook_taken disp ops (drain_start r)) \<and>
    sum_list (map drop_count out) =
      hook_writes ops - length (hook_taken disp ops (drain_start r)) \<and>
    (\<forall>e \<in> set out. fst e = None \<longrightarrow> 0 < drop_count e) \<and>
    length (hook_taken disp ops (drain_start r)) \<le> hook_writes ops"
proof -
  from assms(1) have "64 \<le> cap" and zero: "rg_dropped r = 0"
    by (auto simp: create_ring_def split: if_splits)
  have few: "hook_writes ops < 2 ^ 64"
  proof -
    have "hook_writes ops \<le> hook_writes ops * (2 * cap)" using \<open>64 \<le> cap\<close> by simp
    from le_less_trans [OF this assms(4)] show ?thesis by simp
  qed
  have "ring_repr (0 + hook_writes ops) r []"
    unfolding ring_repr_def add_0 using create_ring_holds [OF assms(1,2,4)] by force
  then have "hooked (0 + hook_writes ops) [] 0 (drain_start r)"
    by (auto simp: hooked_def drain_start_def zero)
  from hooked_run [OF this assms(3), of disp] few obtain out d where
    run: "hook_run disp ops (drain_start r) = Some (out, d)"
    and h: "hooked 0 (hook_taken disp ops (drain_start r))
      (hook_writes ops - length (hook_taken disp ops (drain_start r))) (out, d)"
    and le: "length (hook_taken disp ops (drain_start r)) \<le> hook_writes ops" by auto
  from hooked_drain [OF h, of disp] obtain out' d' where "drain_ring disp (out, d) = Some (out', d')"
    "filter (\<lambda>e. fst e \<noteq> None) out' = map frame_emission (hook_taken disp ops (drain_start r))"
    "sum_list (map drop_count out') = hook_writes ops - length (hook_taken disp ops (drain_start r))"
    "\<forall>e \<in> set out'. fst e = None \<longrightarrow> 0 < drop_count e"
    by (elim exE conjE) (rule that)
  with run le show ?thesis by (simp add: hook_run_append)
qed

text \<open>
  The hook probe loses no frame silently: for any interleaving of hook writes and drains ended by
  a drain, the stamped emissions are exactly the frames that found room in the ring, in order,
  translated and with the hook's stamps, and the reported drops add up to the number of writes
  that found none.
\<close>
theorem hook_delivers_frames:
  assumes "create_ring cap = Inr r" and "cap < 2 ^ 32" and "list_all writable ops"
    and "hook_writes ops * (2 * cap) < 2 ^ 63"
  shows "\<exists>out d. hook_run disp (ops @ [HookDrain]) (drain_start r) = Some (out, d) \<and>
    filter (\<lambda>e. fst e \<noteq> None) out = map frame_emission (hook_taken disp ops (drain_start r)) \<and>
    sum_list (map drop_count out) + length (hook_taken disp ops (drain_start r)) = hook_writes ops"
  using hook_run_delivers [OF assms] by fastforce

definition hook_ops :: "hook_op list" where
  "hook_ops = [HookWrite 9 (HeapFree 7), HookWrite 10 (HeapFree 8), HookDrain, HookWrite 11 (BufferFree 9)]"

lemma small_ring_created: "create_ring 64 = Inr small_ring"
  using pow_power_of_two [of 6] by (simp add: create_ring_def small_ring_def)

lemma hook_delivers_frames_witness:
  "\<exists>out d. hook_run (\<lambda>_. ''bad'') (hook_ops @ [HookDrain]) (drain_start small_ring) = Some (out, d) \<and>
    filter (\<lambda>e. fst e \<noteq> None) out =
      map frame_emission (hook_taken (\<lambda>_. ''bad'') hook_ops (drain_start small_ring)) \<and>
    sum_list (map drop_count out) +
      length (hook_taken (\<lambda>_. ''bad'') hook_ops (drain_start small_ring)) = 3"
  using hook_delivers_frames [OF small_ring_created, of hook_ops "\<lambda>_. ''bad''"]
  by (simp add: hook_ops_def writable_def numeral_3_eq_3)

section \<open>Draining anything\<close>

fun is_decode_report :: "emission \<Rightarrow> bool" where
  "is_decode_report (None, MetalHookSkipped s) = True"
| "is_decode_report _ = False"

text \<open>How many reports the errors number \<open>a + 1\<close> to \<open>b\<close> leave in the session.\<close>

definition reports :: "nat \<Rightarrow> nat \<Rightarrow> nat" where
  "reports a b = b div 1000 - a div 1000 + (if a = 0 \<and> 0 < b then 1 else 0)"

lemma reports_Suc:
  assumes "Suc a \<le> b"
  shows "reports a b = (if Suc a = 1 \<or> Suc a mod 1000 = 0 then 1 else 0) + reports (Suc a) b"
proof -
  have "Suc a div 1000 = a div 1000 + (if Suc a mod 1000 = 0 then 1 else 0)" by (simp add: div_Suc)
  moreover have "Suc a div 1000 \<le> b div 1000" using assms by (rule div_le_mono)
  ultimately show ?thesis using assms by (auto simp: reports_def)
qed

lemma count_decode_report:
  assumes "unat n < 2 ^ 64 - 1"
  shows "length (filter is_decode_report (decode_report disp e (n + 1))) =
    (if Suc (unat n) = 1 \<or> Suc (unat n) mod 1000 = 0 then 1 else 0)"
proof -
  have u: "unat (n + 1) = Suc (unat n)" using assms by (simp add: unat_word_ariths)
  have "n + 1 = 1 \<longleftrightarrow> Suc (unat n) = 1" using u by (metis One_nat_def unat_1 word_unat_eq_iff)
  moreover have "(n + 1) mod 1000 = 0 \<longleftrightarrow> Suc (unat n) mod 1000 = 0"
    using u by (simp add: word_unat_eq_iff unat_mod)
  ultimately show ?thesis by (simp add: decode_report_def)
qed

definition unread_bound :: "ring \<Rightarrow> nat" where
  "unread_bound r = (if rg_tail r = rg_head r then 0 else Suc (rg_head r - rg_tail r))"

lemma drain_frames_catches_up:
  assumes "rg_head (dr_reader d) < 2 ^ 63" and "rg_tail (dr_reader d) < 2 ^ 63"
    and "unat (dr_decode_errors d) + unread_bound (dr_reader d) < 2 ^ 64"
  shows "\<exists>new d'. drain_frames disp out d = Some (out @ new, d') \<and>
    rg_tail (dr_reader d') = rg_head (dr_reader d) \<and>
    unat (dr_decode_errors d) \<le> unat (dr_decode_errors d') \<and>
    length (filter is_decode_report new) =
      reports (unat (dr_decode_errors d)) (unat (dr_decode_errors d'))"
  using assms
proof (induction "unread_bound (dr_reader d)" arbitrary: d out rule: less_induct)
  case less
  from ring_next_moves [OF less.prems(1,2)] obtain res r where
    r: "ring_next (dr_reader d) = Some (res, r)" "moves_on (dr_reader d) res r" by blast
  show ?case
  proof (cases "res = Inr None")
    case True
    with r show ?thesis
      by (intro exI [of _ "[]"] exI [of _ "d\<lparr>dr_reader := r\<rparr>"])
        (auto simp: drain_frames.simps [of disp out d] moves_on_def reports_def)
  next
    case False
    let ?e = "dr_decode_errors d"
    have smaller: "unread_bound r < unread_bound (dr_reader d)"
      and ring: "rg_head r = rg_head (dr_reader d)" "rg_tail r < 2 ^ 63"
      using r(2) False less.prems(1,2)
      by (auto simp: moves_on_def unread_bound_def FRAME_HEADER_BYTES_def)
    show ?thesis
    proof (cases res)
      case (Inr ev)
      with False obtain x where x: "ev = Some x" by auto
      let ?d = "d\<lparr>dr_reader := r\<rparr>" and ?s = "[(Some (de_ts_mono_ns x), frame_to_payload (de_frame x))]"
      have eq: "drain_frames disp out d = drain_frames disp (out @ ?s) ?d"
        using r(1) Inr x by (simp add: drain_frames.simps [of disp out d])
      from less.hyps [of ?d "out @ ?s"] smaller ring less.prems obtain new d' where
        "drain_frames disp (out @ ?s) ?d = Some ((out @ ?s) @ new, d')"
        "rg_tail (dr_reader d') = rg_head (dr_reader d)" "unat ?e \<le> unat (dr_decode_errors d')"
        "length (filter is_decode_report new) = reports (unat ?e) (unat (dr_decode_errors d'))" by auto
      then show ?thesis unfolding eq by (intro exI [of _ "?s @ new"] exI [of _ d']) auto
    next
      case (Inl err)
      let ?d = "d\<lparr>dr_reader := r, dr_decode_errors := ?e + 1\<rparr>" and ?s = "decode_report disp err (?e + 1)"
      have eq: "drain_frames disp out d = drain_frames disp (out @ ?s) ?d"
        using r(1) Inl by (simp add: drain_frames.simps [of disp out d])
      have e: "unat (?e + 1) = Suc (unat ?e)" "unat ?e < 2 ^ 64 - 1"
        using less.prems(3) smaller by (auto simp: unat_word_ariths)
      from less.hyps [of ?d "out @ ?s"] smaller ring less.prems e obtain new d' where
        n: "drain_frames disp (out @ ?s) ?d = Some ((out @ ?s) @ new, d')"
        "rg_tail (dr_reader d') = rg_head (dr_reader d)"
        "Suc (unat ?e) \<le> unat (dr_decode_errors d')"
        "length (filter is_decode_report new) = reports (Suc (unat ?e)) (unat (dr_decode_errors d'))"
        by auto
      then show ?thesis unfolding eq
        using count_decode_report [OF e(2), of disp err] reports_Suc [OF n(3)]
        by (intro exI [of _ "?s @ new"] exI [of _ d']) auto
    qed
  qed
qed

lemma drop_report_quiet:
  "dr_reader (snd (drop_report d)) = dr_reader d"
  "dr_decode_errors (snd (drop_report d)) = dr_decode_errors d"
  "filter is_decode_report (fst (drop_report d)) = []"
  by (simp_all add: drop_report_def Let_def)

text \<open>
  A drain of a ring with any content returns with everything consumed, and what it writes in the
  session about undecodable frames is throttled: of the errors number \<open>a + 1\<close> to \<open>b\<close> it meets, it
  reports the very first one of the ring's life and every thousandth.
\<close>
theorem drain_ring_throttles:
  assumes "rg_head (dr_reader d) < 2 ^ 63" and "rg_tail (dr_reader d) < 2 ^ 63"
    and "unat (dr_decode_errors d) < 2 ^ 63"
  shows "\<exists>new d'. drain_ring disp (out, d) = Some (out @ new, d') \<and>
    rg_tail (dr_reader d') = rg_head (dr_reader d) \<and>
    length (filter is_decode_report new) =
      reports (unat (dr_decode_errors d)) (unat (dr_decode_errors d'))"
proof -
  have "unat (dr_decode_errors d) + unread_bound (dr_reader d) < 2 ^ 64"
    using assms diff_le_self [of "rg_head (dr_reader d)" "rg_tail (dr_reader d)"]
    by (auto simp: unread_bound_def)
  from drain_frames_catches_up [OF assms(1,2) this, of disp out] obtain new d' where
    "drain_frames disp out d = Some (out @ new, d')" "rg_tail (dr_reader d') = rg_head (dr_reader d)"
    "length (filter is_decode_report new) =
      reports (unat (dr_decode_errors d)) (unat (dr_decode_errors d'))" by blast
  then show ?thesis using drop_report_quiet [of d']
    by (intro exI [of _ "new @ fst (drop_report d')"] exI [of _ "snd (drop_report d')"])
      (simp add: drain_ring_def split_beta)
qed

definition torn_drain :: ring_drain where
  "torn_drain = \<lparr>dr_reader = torn_ring, dr_decode_errors = 0, dr_last_dropped = 0\<rparr>"

lemma drain_ring_throttles_witness:
  "\<exists>new d'. drain_ring (\<lambda>_. ''bad'') ([], torn_drain) = Some (new, d') \<and>
    rg_tail (dr_reader d') = 48 \<and>
    length (filter is_decode_report new) = reports 0 (unat (dr_decode_errors d'))"
  using drain_ring_throttles [of torn_drain "\<lambda>_. ''bad''" "[]"]
  by (simp add: torn_drain_def torn_ring_def)

end
