(* ===== verification/FlightRecorder.thy ===== *)
theory FlightRecorder
  imports EventModel
begin

text \<open>
  The flight recorder, \<open>crates/smeltr-daemon/src/flight_recorder.rs\<close>: the recent events in
  memory, each with the instant it arrived (nanoseconds of the monotonic clock).  An operation
  runs under the recorder's lock.
\<close>

definition MAX_EVENTS :: nat where "MAX_EVENTS = 100000"

record flight_recorder =
  fr_window :: nat
  fr_max_events :: nat
  fr_inner :: "(nat \<times> event) list"

definition with_max_events :: "nat \<Rightarrow> nat \<Rightarrow> flight_recorder" where
  "with_max_events window mx = \<lparr>fr_window = window, fr_max_events = mx, fr_inner = []\<rparr>"

definition recorder_new :: "nat \<Rightarrow> flight_recorder" where
  "recorder_new window = with_max_events window MAX_EVENTS"

text \<open>\<open>while q.len() > max_events { q.pop_front() }\<close>\<close>

fun pop_over :: "nat \<Rightarrow> 'a list \<Rightarrow> 'a list" where
  "pop_over mx [] = []"
| "pop_over mx (x # q) = (if mx < length (x # q) then pop_over mx q else x # q)"

text \<open>The second loop; \<open>saturating_duration_since\<close> is natural subtraction.\<close>

fun pop_old :: "nat \<Rightarrow> nat \<Rightarrow> (nat \<times> 'a) list \<Rightarrow> (nat \<times> 'a) list" where
  "pop_old window now [] = []"
| "pop_old window now ((arrived, e) # q) =
     (if window < now - arrived then pop_old window now q else (arrived, e) # q)"

definition push_at :: "event \<Rightarrow> nat \<Rightarrow> flight_recorder \<Rightarrow> flight_recorder" where
  "push_at ev now fr =
     fr\<lparr>fr_inner := pop_old (fr_window fr) now
         (pop_over (fr_max_events fr) (fr_inner fr @ [(now, ev)]))\<rparr>"

definition snapshot :: "flight_recorder \<Rightarrow> event list" where
  "snapshot fr = map snd (fr_inner fr)"

text \<open>\<open>try_snapshot\<close>: \<open>None\<close> only when another thread holds the lock.\<close>

definition try_snapshot :: "bool \<Rightarrow> flight_recorder \<Rightarrow> event list option" where
  "try_snapshot held fr = (if held then None else Some (snapshot fr))"

section \<open>What it holds\<close>

lemma pop_over_drop: "pop_over mx q = drop (length q - mx) q"
  by (induction mx q rule: pop_over.induct) (auto simp: Suc_diff_le not_less)

lemma pop_old_dropWhile: "pop_old window now q = dropWhile (\<lambda>(a, _). window < now - a) q"
  by (induction window now q rule: pop_old.induct) auto

lemma dropWhile_sorted:
  "sorted (map fst q) \<Longrightarrow>
     dropWhile (\<lambda>(a, _). window < now - a) q = filter (\<lambda>(a, _). now - a \<le> (window :: nat)) q"
proof (induction q)
  case (Cons x q)
  obtain a e where x: "x = (a, e)" by (cases x)
  show ?case
  proof (cases "window < now - a")
    case True
    with Cons x show ?thesis by simp
  next
    case False
    with Cons.prems x have "\<forall>(b, f) \<in> set q. now - b \<le> window" by fastforce
    then have "filter (\<lambda>(b, _). now - b \<le> window) q = q" by (simp add: filter_id_conv case_prod_beta)
    with False x show ?thesis by simp
  qed
qed simp

definition record_all :: "(nat \<times> event) list \<Rightarrow> flight_recorder \<Rightarrow> flight_recorder" where
  "record_all xs fr = foldl (\<lambda>fr (now, ev). push_at ev now fr) fr xs"

lemma record_all_snoc: "record_all (xs @ [(now, ev)]) fr = push_at ev now (record_all xs fr)"
  by (simp add: record_all_def)

lemma record_all_config [simp]:
  "fr_window (record_all xs fr) = fr_window fr" "fr_max_events (record_all xs fr) = fr_max_events fr"
  by (induction xs arbitrary: fr) (auto simp: record_all_def push_at_def)

text \<open>The recent part of a list of arrivals.\<close>

definition recent :: "nat \<Rightarrow> nat \<Rightarrow> nat \<Rightarrow> (nat \<times> 'a) list \<Rightarrow> (nat \<times> 'a) list" where
  "recent window mx now xs = filter (\<lambda>(a, _). now - a \<le> window) (drop (length xs - mx) xs)"

lemma sorted_old_first:
  fixes now :: nat
  assumes "sorted (map fst (y # ys))" and "\<exists>(a, e) \<in> set (y # ys). window < now - a"
  shows "window < now - fst y"
proof -
  from assms(2) obtain a e where a: "(a, e) \<in> set (y # ys)" "window < now - a" by blast
  with assms(1) have "fst y \<le> a" by force
  then have "now - a \<le> now - fst y" by (rule diff_le_mono2)
  with a(2) show ?thesis by linarith
qed

lemma filter_all: "length (filter P xs) = length xs \<Longrightarrow> filter P xs = xs"
  by (metis filter_id_conv length_filter_less less_irrefl)

lemma recent_snoc:
  assumes sorted: "sorted (map fst (xs @ [(now, e)]))" and "t \<le> now"
  shows "pop_old window now (pop_over mx (recent window mx t xs @ [(now, e)])) =
    recent window mx now (xs @ [(now, e)])"
proof -
  let ?k = "length xs - mx" and ?P = "\<lambda>t (a, _). t - a \<le> window"
  let ?d = "drop ?k xs" and ?r = "recent window mx t xs" and ?x = "(now, e)"
  have r: "?r = filter (?P t) ?d" by (simp add: recent_def)
  have len: "length ?r \<le> length ?d" "length ?d \<le> mx" unfolding r by (rule length_filter_le) simp
  have PP: "filter (?P now) ?r = filter (?P now) ?d"
    unfolding r filter_filter using assms(2) by (intro filter_cong) auto
  have ds: "sorted (map fst ?d)" using sorted by (simp add: sorted_append flip: drop_map)
  have rs: "sorted (map fst (?r @ [?x]))"
    using sorted ds by (fastforce simp: r sorted_append sorted_filter dest: in_set_dropD)
  then have "sorted (map fst (drop n (?r @ [?x])))" for n by (metis drop_map sorted_wrt_drop)
  then have L: "pop_old window now (pop_over mx (?r @ [?x])) =
      filter (?P now) (drop (Suc (length ?r) - mx) (?r @ [?x]))"
    by (simp only: pop_over_drop pop_old_dropWhile dropWhile_sorted length_append_singleton)
  show ?thesis
  proof (cases "length ?r = mx")
    case True
    with len have "length ?d = mx" by linarith
    with True have all: "?r = ?d" "length ?d = mx" using filter_all [of "?P t" ?d] by (simp_all add: r)
    then have "mx \<le> length xs" by simp
    then have "drop (Suc (length ?r) - mx) (?r @ [?x]) = drop (length (xs @ [?x]) - mx) (xs @ [?x])"
      using True all by (simp add: Suc_diff_le)
    then show ?thesis by (simp only: L recent_def [of window mx now "xs @ [?x]"])
  next
    case False
    with len have less: "Suc (length ?r) \<le> mx" by linarith
    then have L': "pop_old window now (pop_over mx (?r @ [?x])) = filter (?P now) ?d @ [?x]"
      using L PP by simp
    show ?thesis
    proof (cases "Suc (length xs) \<le> mx")
      case True
      with L' show ?thesis by (simp add: recent_def [of window mx now "xs @ [?x]"])
    next
      case False
      then have k: "mx \<le> length xs" "length ?d = mx" by simp_all
      with less obtain y ys where y: "?d = y # ys" by (cases ?d) auto
      have "\<exists>(a, e) \<in> set ?d. window < t - a"
      proof (rule ccontr)
        assume "\<not> ?thesis"
        then have "?r = ?d" unfolding r by (intro filter_True) auto
        with less k show False by simp
      qed
      then have "window < t - fst y" using sorted_old_first [of y ys window t] ds y by simp
      then have "\<not> ?P now y" using assms(2) by (cases y) auto
      moreover have "drop (Suc (length xs) - mx) xs = ys"
        using y k by (metis Suc_diff_le drop_Suc list.sel(3) tl_drop)
      ultimately show ?thesis using k L' y
        by (simp add: recent_def [of window mx now "xs @ [?x]"] Suc_diff_le)
    qed
  qed
qed

text \<open>
  The flight recorder holds exactly the recent events: after any pushes whose arrivals do not
  go back, its content is those of the last \<open>max_events\<close> pushed that arrived within the window
  before the last one, oldest first; its length never exceeds \<open>max_events\<close>.
\<close>
theorem recorder_holds_recent:
  assumes "sorted (map fst (xs @ [(now, ev)]))"
  shows "fr_inner (record_all (xs @ [(now, ev)]) (with_max_events window mx)) =
      recent window mx now (xs @ [(now, ev)]) \<and>
    length (snapshot (record_all (xs @ [(now, ev)]) (with_max_events window mx))) \<le> mx"
proof -
  let ?fr = "\<lambda>xs. record_all xs (with_max_events window mx)"
  have inner: "sorted (map fst xs) \<Longrightarrow> list_all (\<lambda>(a, _). a \<le> t) xs \<Longrightarrow>
    \<exists>t' \<le> t. fr_inner (?fr xs) = recent window mx t' xs" for t xs
  proof (induction xs arbitrary: t rule: rev_induct)
    case Nil
    show ?case by (auto simp: record_all_def with_max_events_def recent_def)
  next
    case (snoc x xs)
    obtain a e where x: "x = (a, e)" by (cases x)
    with snoc.prems have "list_all (\<lambda>(b, _). b \<le> a) xs" "a \<le> t" "sorted (map fst xs)"
      by (auto simp: sorted_append list_all_iff)
    with snoc.IH obtain t' where "t' \<le> a" "fr_inner (?fr xs) = recent window mx t' xs" by blast
    with recent_snoc [of xs a e t' window mx] snoc.prems x \<open>a \<le> t\<close> show ?case
      by (auto simp: record_all_snoc push_at_def with_max_events_def)
  qed
  have "list_all (\<lambda>(a, _). a \<le> now) xs" using assms by (auto simp: sorted_append list_all_iff)
  moreover have "sorted (map fst xs)" using assms by (simp add: sorted_append)
  ultimately obtain t where "t \<le> now" "fr_inner (?fr xs) = recent window mx t xs"
    using inner by blast
  with recent_snoc [OF assms, of t window mx] have
    eq: "fr_inner (?fr (xs @ [(now, ev)])) = recent window mx now (xs @ [(now, ev)])"
    by (simp add: record_all_snoc push_at_def with_max_events_def)
  have "length (recent window mx now (xs @ [(now, ev)])) \<le> mx"
    unfolding recent_def by (rule order_trans [OF length_filter_le]) simp
  with eq show ?thesis by (simp add: snapshot_def)
qed

lemma recorder_holds_recent_witness:
  "fr_inner (record_all [(1, mk_event 9 1 (MetalBufferFree 1)), (5, mk_event 2 2 (MetalBufferFree 2)),
      (8, mk_event 3 3 (MetalBufferFree 3))] (with_max_events 4 10)) =
    [(5, mk_event 2 2 (MetalBufferFree 2)), (8, mk_event 3 3 (MetalBufferFree 3))]"
  using recorder_holds_recent [of "[(1, mk_event 9 1 (MetalBufferFree 1)),
      (5, mk_event 2 2 (MetalBufferFree 2))]" 8 "mk_event 3 3 (MetalBufferFree 3)" 4 10]
  by (simp add: recent_def)

end
