(* ===== verification/Codec.thy ===== *)
theory Codec
  imports EventModel Bytes
begin

text \<open>
  Length-prefixed framing, \<open>crates/smeltr-core/src/codec.rs\<close>.  The encodings themselves come
  from third-party crates: CBOR (\<open>ciborium\<close>), zstd and CRC-32 (\<open>crc32fast\<close>).  They are the
  fields of \<open>codecs\<close>, an argument of every operation that uses them; what the code relies on
  is stated as \<open>codecs_ok\<close> where a property needs it.
\<close>

record codecs =
  cbor_enc :: "event \<Rightarrow> bytes option"
  cbor_dec :: "bytes \<Rightarrow> event option"
  zstd_enc :: "bytes \<Rightarrow> bytes option"
  zstd_dec :: "bytes \<Rightarrow> bytes option"
  zstd_frame_size :: "bytes \<Rightarrow> nat option"
  crc32 :: "bytes \<Rightarrow> u32"

definition MAX_FRAME_BYTES :: nat where "MAX_FRAME_BYTES = 16 * 1024 * 1024"

datatype codec_error =
    CodecIo
  | CborEncode
  | CborDecode
  | FrameTooLarge u32 nat
  | Truncated

text \<open>\<open>u32::try_from(n).unwrap_or(u32::MAX)\<close>\<close>

definition u32_sat :: "nat \<Rightarrow> u32" where
  "u32_sat n = (if n < 2 ^ 32 then of_nat n else - 1)"

definition encode_frame :: "codecs \<Rightarrow> event \<Rightarrow> codec_error + bytes" where
  "encode_frame c ev =
     (case cbor_enc c ev of
        None \<Rightarrow> Inl CborEncode
      | Some body \<Rightarrow>
          if MAX_FRAME_BYTES < length body
          then Inl (FrameTooLarge (u32_sat (length body)) MAX_FRAME_BYTES)
          else Inr (put_u32 (of_nat (length body)) @ body))"

text \<open>One frame off the front of the stream: the event and the rest of the stream.\<close>

definition read_frame :: "codecs \<Rightarrow> bytes \<Rightarrow> codec_error + (event \<times> bytes) option" where
  "read_frame c bs =
     (if bs = [] then Inr None
      else if length bs < 4 then Inl Truncated
      else
        (let len = u32_of (take 4 bs); rest = drop 4 bs
         in if MAX_FRAME_BYTES < unat len then Inl (FrameTooLarge len MAX_FRAME_BYTES)
            else if length rest < unat len then Inl Truncated
            else (case cbor_dec c (take (unat len) rest) of
                    None \<Rightarrow> Inl CborDecode
                  | Some ev \<Rightarrow> Inr (Some (ev, drop (unat len) rest)))))"

lemma read_frame_shorter:
  "read_frame c bs = Inr (Some (ev, rest)) \<Longrightarrow> length rest < length bs"
  by (auto simp: read_frame_def Let_def split: if_splits option.splits)

text \<open>What the code relies on: CBOR decodes what it encoded.\<close>

definition cbor_ok :: "codecs \<Rightarrow> event \<Rightarrow> bool" where
  "cbor_ok c ev \<longleftrightarrow>
     (case cbor_enc c ev of None \<Rightarrow> True | Some body \<Rightarrow> cbor_dec c body = Some ev)"

lemma encode_frameE:
  assumes "encode_frame c ev = Inr frame"
  obtains body where "cbor_enc c ev = Some body" and "length body \<le> MAX_FRAME_BYTES"
    and "frame = put_u32 (of_nat (length body)) @ body"
  using assms by (auto simp: encode_frame_def not_less split: option.splits if_splits)

lemma frame_len_word: "n \<le> MAX_FRAME_BYTES \<Longrightarrow> unat (of_nat n :: u32) = n"
  by (simp add: MAX_FRAME_BYTES_def unat_of_nat)

lemma read_encoded_frame:
  assumes "encode_frame c ev = Inr frame" and "cbor_ok c ev"
  shows "read_frame c (frame @ rest) = Inr (Some (ev, rest))"
proof -
  from assms(1) obtain body where body: "cbor_enc c ev = Some body"
    "length body \<le> MAX_FRAME_BYTES" "frame = put_u32 (of_nat (length body)) @ body"
    by (rule encode_frameE)
  from assms(2) body(1) have "cbor_dec c body = Some ev" by (simp add: cbor_ok_def)
  moreover have "4 \<le> length frame" by (simp add: body(3))
  then have "frame @ rest \<noteq> []" by auto
  ultimately show ?thesis using body(2,3)
    by (simp add: read_frame_def frame_len_word Let_def)
qed

lemma length_encoded_frame:
  "encode_frame c ev = Inr frame \<Longrightarrow> 4 \<le> length frame \<and> length frame \<le> MAX_FRAME_BYTES + 4"
  by (elim encode_frameE) simp

section \<open>A whole stream\<close>

text \<open>
  The events of a stream in order and, when it does not end at a frame boundary, the error that
  stopped the read.
\<close>

function read_frames :: "codecs \<Rightarrow> bytes \<Rightarrow> event list \<times> codec_error option" where
  "read_frames c bs =
     (case read_frame c bs of
        Inl e \<Rightarrow> ([], Some e)
      | Inr None \<Rightarrow> ([], None)
      | Inr (Some (ev, rest)) \<Rightarrow> (case read_frames c rest of (evs, e) \<Rightarrow> (ev # evs, e)))"
  by pat_completeness auto
termination
  by (relation "measure (\<lambda>(c, bs). length bs)") (auto dest: read_frame_shorter)

declare read_frames.simps [simp del]

definition encode_all :: "codecs \<Rightarrow> event list \<Rightarrow> bytes" where
  "encode_all c evs = concat (map (\<lambda>ev. projr (encode_frame c ev)) evs)"

text \<open>The writer accepts an event only when its frame was built.\<close>

definition storable :: "codecs \<Rightarrow> event \<Rightarrow> bool" where
  "storable c ev \<longleftrightarrow> cbor_ok c ev \<and> \<not> isl (encode_frame c ev)"

lemma read_frames_encoded:
  "list_all (storable c) evs \<Longrightarrow> read_frames c (encode_all c evs) = (evs, None)"
proof (induction evs)
  case Nil
  then show ?case by (simp add: encode_all_def read_frames.simps [of c "[]"] read_frame_def)
next
  case (Cons ev evs)
  then obtain frame where f: "encode_frame c ev = Inr frame" and ok: "cbor_ok c ev"
    and IH: "read_frames c (encode_all c evs) = (evs, None)"
    by (auto simp: storable_def) (metis sum.collapse(2))
  have "encode_all c (ev # evs) = frame @ encode_all c evs" using f by (simp add: encode_all_def)
  with read_encoded_frame [OF f ok, of "encode_all c evs"] IH show ?case
    by (simp add: read_frames.simps [of c "frame @ encode_all c evs"])
qed

end
