(* ===== verification/EventFilter.thy ===== *)
theory EventFilter
  imports EventModel
begin

text \<open>
  The event predicate of \<open>crates/smeltr-core/src/filter.rs\<close> and the chunk test that must never
  rule out a chunk holding a matching event.
\<close>

record chunk_index_entry =
  ce_offset :: u64
  ce_comp_len :: u32
  ce_min_ts :: u64
  ce_max_ts :: u64
  ce_source_bitmap :: u64
  ce_event_count :: u32

record event_filter =
  ef_source :: "source option"
  ef_from_ts :: "u64 option"
  ef_to_ts :: "u64 option"
  ef_payload_kind :: "string option"

definition no_filter :: event_filter where
  "no_filter = \<lparr>ef_source = None, ef_from_ts = None, ef_to_ts = None, ef_payload_kind = None\<rparr>"

text \<open>The name of the variant.\<close>

definition payload_kind :: "event \<Rightarrow> string" where
  "payload_kind e =
     (case payload e of
        Mark _ _ \<Rightarrow> ''Mark''
      | SessionStarted _ \<Rightarrow> ''SessionStarted''
      | SessionEnded _ _ \<Rightarrow> ''SessionEnded''
      | VmSample _ _ _ _ _ \<Rightarrow> ''VmSample''
      | ProcTop _ _ \<Rightarrow> ''ProcTop''
      | ThermalState _ \<Rightarrow> ''ThermalState''
      | IoReportSample _ _ _ _ _ \<Rightarrow> ''IoReportSample''
      | OsLogLine _ _ _ _ \<Rightarrow> ''OsLogLine''
      | MachException _ _ _ \<Rightarrow> ''MachException''
      | CrashReportEmitted _ _ _ _ _ _ \<Rightarrow> ''CrashReportEmitted''
      | JetsamKill _ _ _ _ _ _ _ \<Rightarrow> ''JetsamKill''
      | MetalCbCommitted _ _ _ _ \<Rightarrow> ''MetalCbCommitted''
      | MetalCbScheduled _ _ \<Rightarrow> ''MetalCbScheduled''
      | MetalCbCompleted _ _ _ _ _ _ \<Rightarrow> ''MetalCbCompleted''
      | MetalCbWarning _ _ _ \<Rightarrow> ''MetalCbWarning''
      | MetalHeapAlloc _ _ _ \<Rightarrow> ''MetalHeapAlloc''
      | MetalDeviceMemSample _ _ _ \<Rightarrow> ''MetalDeviceMemSample''
      | MetalHeapFree _ \<Rightarrow> ''MetalHeapFree''
      | MetalBufferAlloc _ _ _ _ \<Rightarrow> ''MetalBufferAlloc''
      | MetalBufferFree _ \<Rightarrow> ''MetalBufferFree''
      | MetalTextureAlloc _ _ _ _ \<Rightarrow> ''MetalTextureAlloc''
      | MetalTextureFree _ \<Rightarrow> ''MetalTextureFree''
      | ProcFootprint _ _ _ _ _ \<Rightarrow> ''ProcFootprint''
      | MetalHookDropped _ \<Rightarrow> ''MetalHookDropped''
      | MetalHookSkipped _ \<Rightarrow> ''MetalHookSkipped''
      | MlxEvalEntered _ _ _ _ _ \<Rightarrow> ''MlxEvalEntered''
      | MlxEvalReturned _ _ _ \<Rightarrow> ''MlxEvalReturned''
      | MlxMemoryPoll _ _ _ \<Rightarrow> ''MlxMemoryPoll''
      | MlxArrayAlive _ _ _ _ _ \<Rightarrow> ''MlxArrayAlive''
      | MlxArrayFreed _ \<Rightarrow> ''MlxArrayFreed''
      | MlxSnapshot _ _ _ _ \<Rightarrow> ''MlxSnapshot''
      | MlxPanicTriggered _ \<Rightarrow> ''MlxPanicTriggered''
      | PythonSidecarHello _ _ _ \<Rightarrow> ''PythonSidecarHello''
      | PostMortemFlushed _ _ _ \<Rightarrow> ''PostMortemFlushed''
      | ProbeHealth _ _ _ \<Rightarrow> ''ProbeHealth''
      | ModuleEntered _ _ _ _ _ _ _ \<Rightarrow> ''ModuleEntered''
      | ModuleReturned _ \<Rightarrow> ''ModuleReturned''
      | MetalCbOps _ _ \<Rightarrow> ''MetalCbOps''
      | ModelLoad _ _ _ _ _ _ \<Rightarrow> ''ModelLoad''
      | ModelUnload _ _ _ _ _ _ _ \<Rightarrow> ''ModelUnload'')"

definition ascii_lower :: "char \<Rightarrow> char" where
  "ascii_lower ch =
     (let n = of_char ch :: nat in if 65 \<le> n \<and> n \<le> 90 then char_of (n + 32) else ch)"

definition eq_ignore_ascii_case :: "string \<Rightarrow> string \<Rightarrow> bool" where
  "eq_ignore_ascii_case a b \<longleftrightarrow> map ascii_lower a = map ascii_lower b"

definition filter_matches :: "event_filter \<Rightarrow> event \<Rightarrow> bool" where
  "filter_matches f e \<longleftrightarrow>
     (case ef_source f of None \<Rightarrow> True | Some s \<Rightarrow> ev_source e = s) \<and>
     (case ef_from_ts f of None \<Rightarrow> True | Some t \<Rightarrow> \<not> ts_mono_ns e < t) \<and>
     (case ef_to_ts f of None \<Rightarrow> True | Some t \<Rightarrow> \<not> t < ts_mono_ns e) \<and>
     (case ef_payload_kind f of None \<Rightarrow> True | Some k \<Rightarrow> eq_ignore_ascii_case (payload_kind e) k)"

definition source_bit :: "source \<Rightarrow> u64" where
  "source_bit s = push_bit (as_u8 s) 1"

definition chunk_overlaps :: "event_filter \<Rightarrow> chunk_index_entry \<Rightarrow> bool" where
  "chunk_overlaps f c \<longleftrightarrow>
     (case ef_from_ts f of None \<Rightarrow> True | Some t \<Rightarrow> \<not> ce_max_ts c < t) \<and>
     (case ef_to_ts f of None \<Rightarrow> True | Some t \<Rightarrow> \<not> t < ce_min_ts c) \<and>
     (case ef_source f of None \<Rightarrow> True
      | Some s \<Rightarrow> Bit_Operations.and (ce_source_bitmap c) (source_bit s) \<noteq> 0)"

section \<open>The chunk test is conservative\<close>

text \<open>An index entry covers an event when it could have been computed from a chunk holding it.\<close>

definition covers :: "chunk_index_entry \<Rightarrow> event \<Rightarrow> bool" where
  "covers c e \<longleftrightarrow>
     ce_min_ts c \<le> ts_mono_ns e \<and> ts_mono_ns e \<le> ce_max_ts c \<and>
     bit (ce_source_bitmap c) (as_u8 (ev_source e))"

lemma bit_source_bit: "bit (source_bit s) n \<longleftrightarrow> n = as_u8 s"
  by (auto simp: source_bit_def bit_simps)

lemma bitmap_test: "Bit_Operations.and m (source_bit s) \<noteq> 0 \<longleftrightarrow> bit m (as_u8 s)"
proof
  assume "Bit_Operations.and m (source_bit s) \<noteq> 0"
  then obtain n where "bit (Bit_Operations.and m (source_bit s)) n" by (auto simp: bit_eq_iff)
  then show "bit m (as_u8 s)" by (auto simp: bit_and_iff bit_source_bit)
next
  assume "bit m (as_u8 s)"
  then have "bit (Bit_Operations.and m (source_bit s)) (as_u8 s)"
    by (simp add: bit_and_iff bit_source_bit)
  then show "Bit_Operations.and m (source_bit s) \<noteq> 0" by auto
qed

lemma covers_overlaps: "covers c e \<Longrightarrow> filter_matches f e \<Longrightarrow> chunk_overlaps f c"
  by (auto simp: covers_def filter_matches_def chunk_overlaps_def bitmap_test not_less
      split: option.splits)

lemma no_filter_matches [simp]: "filter_matches no_filter e"
  by (simp add: filter_matches_def no_filter_def)

end
