(* ===== verification/Chunked.thy ===== *)
theory Chunked
  imports Codec EventFilter
begin

text \<open>
  The chunked container, \<open>crates/smeltr-core/src/chunked.rs\<close>: a magic, length-prefixed zstd
  chunks, a footer with one index entry per chunk and a trailer saying where the footer starts.
  A file is its bytes; a position is a natural number.
\<close>

section \<open>Layout constants\<close>

definition HEAD_MAGIC :: bytes where "HEAD_MAGIC = [0x53, 0x4D, 0x7A, 0x01]"
definition FORMAT_VERSION :: "8 word" where "FORMAT_VERSION = 1"
definition FOOTER_MAGIC :: u64 where "FOOTER_MAGIC = 0x534D7A464F4F5400"
definition ENTRY_SIZE :: nat where "ENTRY_SIZE = 40"
definition TRAILER_SIZE :: nat where "TRAILER_SIZE = 20"
definition MIN_VALID_FILE_LEN :: nat where
  "MIN_VALID_FILE_LEN = length HEAD_MAGIC + 4 + TRAILER_SIZE"
definition CHUNK_EVENTS :: u32 where "CHUNK_EVENTS = 1024"
definition CHUNK_BYTES :: nat where "CHUNK_BYTES = 256 * 1024"
definition FLUSH_MIN_BYTES :: nat where "FLUSH_MIN_BYTES = 0"
definition MAX_CHUNK_BYTES :: nat where "MAX_CHUNK_BYTES = 17 * 1024 * 1024"
definition ZSTD_MAGIC :: bytes where "ZSTD_MAGIC = [0x28, 0xB5, 0x2F, 0xFD]"

record chunk_config =
  cc_max_events :: u32
  cc_max_bytes :: nat
  cc_flush_min_bytes :: nat

definition default_chunk_config :: chunk_config where
  "default_chunk_config = \<lparr>cc_max_events = CHUNK_EVENTS, cc_max_bytes = CHUNK_BYTES,
     cc_flush_min_bytes = FLUSH_MIN_BYTES\<rparr>"

datatype format = Legacy | Chunked | Unsupported "8 word"

definition detect_bytes :: "bytes \<Rightarrow> format" where
  "detect_bytes head =
     (if 4 \<le> length head \<and> take 3 head = take 3 HEAD_MAGIC
      then (if head ! 3 = FORMAT_VERSION then Chunked else Unsupported (head ! 3))
      else Legacy)"

text \<open>\<open>read_u32_le\<close> and \<open>read_u64_le\<close>\<close>

definition u32_at :: "bytes \<Rightarrow> nat \<Rightarrow> u32" where
  "u32_at b off = u32_of (take 4 (drop off b))"

definition u64_at :: "bytes \<Rightarrow> nat \<Rightarrow> u64" where
  "u64_at b off = u64_of (take 8 (drop off b))"

lemma u32_at_put [simp]: "u32_at (put_u32 v @ rest) 0 = v"
  by (simp add: u32_at_def)

section \<open>Footer\<close>

datatype footer_error =
    OffsetOutOfRange nat
  | BodyTooSmall
  | SizeMismatch nat nat
  | CrcMismatch

definition claimed_footer_offset :: "bytes \<Rightarrow> nat option" where
  "claimed_footer_offset buf =
     (if length buf < TRAILER_SIZE then None
      else
        (let trailer = drop (length buf - TRAILER_SIZE) buf; off = unat (u64_at trailer 0)
         in if u64_at trailer 12 \<noteq> FOOTER_MAGIC then None
            else if length HEAD_MAGIC \<le> off \<and> off < length buf - TRAILER_SIZE then Some off
            else None))"

definition put_entry :: "chunk_index_entry \<Rightarrow> bytes" where
  "put_entry e =
     put_u64 (ce_offset e) @ put_u32 (ce_comp_len e) @ put_u64 (ce_min_ts e) @
     put_u64 (ce_max_ts e) @ put_u64 (ce_source_bitmap e) @ put_u32 (ce_event_count e)"

definition footer_body :: "chunk_index_entry list \<Rightarrow> bytes" where
  "footer_body entries = put_u32 (of_nat (length entries)) @ concat (map put_entry entries)"

definition write_footer_at :: "codecs \<Rightarrow> nat \<Rightarrow> chunk_index_entry list \<Rightarrow> bytes" where
  "write_footer_at c footer_offset entries =
     footer_body entries @ put_u64 (of_nat footer_offset) @ put_u32 (crc32 c (footer_body entries)) @
     put_u64 FOOTER_MAGIC"

definition entry_at :: "bytes \<Rightarrow> chunk_index_entry" where
  "entry_at s = \<lparr>ce_offset = u64_at s 0, ce_comp_len = u32_at s 8, ce_min_ts = u64_at s 12,
     ce_max_ts = u64_at s 20, ce_source_bitmap = u64_at s 28, ce_event_count = u32_at s 36\<rparr>"

fun entries_at :: "nat \<Rightarrow> bytes \<Rightarrow> chunk_index_entry list" where
  "entries_at 0 body = []"
| "entries_at (Suc n) body = entry_at (take ENTRY_SIZE body) # entries_at n (drop ENTRY_SIZE body)"

text \<open>
  \<open>read_footer_with_offset\<close>.  The count is at most \<open>u32::MAX\<close>, so the checked product of the
  source never overflows and its error branch is dead.
\<close>

definition read_footer_with_offset ::
  "codecs \<Rightarrow> bytes \<Rightarrow> footer_error + (chunk_index_entry list \<times> nat) option" where
  "read_footer_with_offset c buf =
     (if length buf < MIN_VALID_FILE_LEN then Inr None
      else
        (let trailer_start = length buf - TRAILER_SIZE;
             t = drop trailer_start buf;
             footer_offset = unat (u64_at t 0);
             crc = u32_at t 8
         in if u64_at t 12 \<noteq> FOOTER_MAGIC then Inr None
            else if footer_offset < length HEAD_MAGIC \<or> trailer_start \<le> footer_offset
            then Inl (OffsetOutOfRange footer_offset)
            else
              (let body_len = trailer_start - footer_offset
               in if body_len < 4 then Inl BodyTooSmall
                  else
                    (let chunk_count = unat (u32_at buf footer_offset);
                         expected = 4 + chunk_count * ENTRY_SIZE;
                         body = take body_len (drop footer_offset buf)
                     in if expected \<noteq> body_len then Inl (SizeMismatch expected body_len)
                        else if crc32 c body \<noteq> crc then Inl CrcMismatch
                        else Inr (Some (entries_at chunk_count (drop 4 body), footer_offset))))))"

definition read_footer :: "codecs \<Rightarrow> bytes \<Rightarrow> footer_error + chunk_index_entry list option" where
  "read_footer c buf =
     (case read_footer_with_offset c buf of
        Inl e \<Rightarrow> Inl e
      | Inr r \<Rightarrow> Inr (map_option fst r))"

section \<open>Chunks\<close>

definition frame_has_checksum :: "bytes \<Rightarrow> bool" where
  "frame_has_checksum frame \<longleftrightarrow>
     4 < length frame \<and> take 4 frame = ZSTD_MAGIC \<and> Bit_Operations.and (frame ! 4) 0x04 \<noteq> 0"

datatype chunk_error = ChunkIo | ChunkDecode codec_error

definition decode_chunk :: "codecs \<Rightarrow> bytes \<Rightarrow> chunk_error + event list" where
  "decode_chunk c bs =
     (case zstd_dec c bs of
        None \<Rightarrow> Inl ChunkIo
      | Some data \<Rightarrow>
          (case read_frames c data of
             (evs, None) \<Rightarrow> Inr evs
           | (_, Some e) \<Rightarrow> Inl (ChunkDecode e)))"

definition try_chunk ::
  "codecs \<Rightarrow> bytes \<Rightarrow> nat \<Rightarrow> nat \<Rightarrow> bool \<Rightarrow> (event list \<times> nat) option" where
  "try_chunk c buf offset lim need_checksum =
     (if length buf < offset + 4 then None
      else
        (let comp_len = unat (u32_at buf offset); body_end = offset + 4 + comp_len
         in if comp_len = 0 \<or> MAX_CHUNK_BYTES < comp_len \<or> lim < body_end then None
            else
              (let body = take comp_len (drop (offset + 4) buf)
               in if length body < 4 \<or> take 4 body \<noteq> ZSTD_MAGIC \<or>
                     need_checksum \<and> \<not> frame_has_checksum body then None
                  else (case decode_chunk c body of
                          Inl _ \<Rightarrow> None
                        | Inr evs \<Rightarrow> Some (evs, body_end)))))"

lemma try_chunk_bounds:
  "try_chunk c buf off lim need = Some (evs, next) \<Longrightarrow> off + 4 < next \<and> next \<le> lim"
  by (auto simp: try_chunk_def Let_def split: if_splits sum.splits)

section \<open>Damage reports\<close>

text \<open>One constructor per message the reader builds, with the values it prints.\<close>

datatype problem =
    BytesSkipped nat nat
  | TailUnreadable nat
  | BytesUnreadable nat nat
  | LastBytesUnreadable nat
  | UndecodableData nat nat codec_error
  | FrameDamaged nat bool
  | FrameIncomplete nat bool
  | ChunkOutside nat u32
  | ChunkCountMismatch nat nat u32
  | ChunkUnreadable nat u32 chunk_error
  | FooterUnreadable
  | EventsMissing nat nat
  | EventsDropped nat

section \<open>Scanning\<close>

definition next_chunk :: "codecs \<Rightarrow> bytes \<Rightarrow> nat \<Rightarrow> nat \<Rightarrow> nat option" where
  "next_chunk c buf from lim =
     find (\<lambda>p. try_chunk c buf p lim True \<noteq> None) [Suc from..<lim]"

lemma next_chunk_bounds: "next_chunk c buf from lim = Some p \<Longrightarrow> from < p \<and> p < lim"
  by (auto simp: next_chunk_def find_Some_iff)

function scan_from ::
  "codecs \<Rightarrow> bytes \<Rightarrow> nat \<Rightarrow> nat \<Rightarrow> event list \<times> problem list" where
  "scan_from c buf lim cursor =
     (if \<not> cursor < lim then ([], [])
      else
        (case try_chunk c buf cursor lim False of
           Some (evs, next) \<Rightarrow>
             (case scan_from c buf lim next of (out, damage) \<Rightarrow> (evs @ out, damage))
         | None \<Rightarrow>
             (case next_chunk c buf cursor lim of
                Some p \<Rightarrow>
                  (case scan_from c buf lim p of
                     (out, damage) \<Rightarrow> (out, BytesSkipped cursor p # damage))
              | None \<Rightarrow> ([], [TailUnreadable (lim - cursor)]))))"
  by pat_completeness auto
termination
  by (relation "measure (\<lambda>(c, buf, lim, cursor). lim - cursor)")
    (auto dest: try_chunk_bounds next_chunk_bounds)

declare scan_from.simps [simp del]

definition scan_chunks_checked :: "codecs \<Rightarrow> bytes \<Rightarrow> nat \<Rightarrow> event list \<times> problem list" where
  "scan_chunks_checked c buf lim =
     scan_from c buf (min lim (length buf)) (length HEAD_MAGIC)"

end
