(* ===== verification/SessionReader.thy ===== *)
theory SessionReader
  imports Chunked
begin

text \<open>
  The session reader, \<open>crates/smeltr-core/src/reader.rs\<close>: every event still readable from the
  bytes of an events file, and what could not be read.  The caller's callback is a function
  \<open>f\<close> on its state that also says whether to stop.  Frames are decoded in order (the source
  spreads the decoding of one batch over threads and joins the parts in order).

  The zstd decoder of an unchecked frame is a parameter: the outputs of its successive reads of
  at most \<open>STEP_BYTES\<close>, whether it ended in an error, and what reading one byte at a time gives
  after a number of bytes already produced.
\<close>

record stream_codecs = codecs +
  zstd_steps :: "bytes \<Rightarrow> bytes list \<times> bool"
  zstd_tail :: "bytes \<Rightarrow> nat \<Rightarrow> bytes"

definition BLOCK_BYTES :: nat where "BLOCK_BYTES = 16 * 1024 * 1024"

section \<open>Sink\<close>

record 'u sink =
  sk_state :: 'u
  sk_seen :: u64
  sk_stopped :: bool

type_synonym 'u callback = "'u \<Rightarrow> event \<Rightarrow> 'u \<times> bool"

definition sink_new :: "'u \<Rightarrow> 'u sink" where
  "sink_new u = \<lparr>sk_state = u, sk_seen = 0, sk_stopped = False\<rparr>"

definition sink_push :: "event_filter option \<Rightarrow> 'u callback \<Rightarrow> event \<Rightarrow> 'u sink \<Rightarrow> 'u sink" where
  "sink_push flt f e sk =
     (if sk_stopped sk then sk
      else
        (let sk1 = sk\<lparr>sk_seen := sk_seen sk + 1\<rparr>
         in if (case flt of None \<Rightarrow> False | Some ft \<Rightarrow> \<not> filter_matches ft e) then sk1
            else (case f (sk_state sk1) e of
                    (u, stop) \<Rightarrow> sk1\<lparr>sk_state := u, sk_stopped := stop\<rparr>)))"

text \<open>\<open>for e in events { sink.push(e); if sink.stopped { break } }\<close>\<close>

fun push_all :: "event_filter option \<Rightarrow> 'u callback \<Rightarrow> event list \<Rightarrow> 'u sink \<Rightarrow> 'u sink" where
  "push_all flt f [] sk = sk"
| "push_all flt f (e # es) sk =
     (let sk1 = sink_push flt f e sk in if sk_stopped sk1 then sk1 else push_all flt f es sk1)"

section \<open>Frame parser\<close>

record parser =
  fp_at :: nat
  fp_carry :: bytes
  fp_base :: nat
  fp_failed :: bool

definition parser_new :: "nat \<Rightarrow> parser" where
  "parser_new pos = \<lparr>fp_at = pos, fp_carry = [], fp_base = 0, fp_failed = False\<rparr>"

type_synonym split = "(nat \<times> nat) list \<times> nat \<times> (nat \<times> codec_error) option"

function split_from :: "bytes \<Rightarrow> nat \<Rightarrow> split" where
  "split_from buf p =
     (if length buf < p + 4 then ([], p, None)
      else
        (let len = u32_at buf p
         in if MAX_FRAME_BYTES < unat len
            then ([], p, Some (p + 4, FrameTooLarge len MAX_FRAME_BYTES))
            else if length buf < p + 4 + unat len then ([], p, None)
            else (case split_from buf (p + 4 + unat len) of
                    (frames, consumed, bad) \<Rightarrow> ((p, unat len) # frames, consumed, bad))))"
  by pat_completeness auto
termination
  by (relation "measure (\<lambda>(buf, p). length buf - p)") auto

declare split_from.simps [simp del]

definition split_frames :: "bytes \<Rightarrow> split" where
  "split_frames buf = split_from buf 0"

definition decode_at :: "('a) codecs_scheme \<Rightarrow> bytes \<Rightarrow> nat \<times> nat \<Rightarrow> codec_error + event" where
  "decode_at c buf fr =
     (case fr of (start, len) \<Rightarrow>
        (case cbor_dec c (take len (drop (start + 4) buf)) of
           None \<Rightarrow> Inl CborDecode
         | Some ev \<Rightarrow> Inr ev))"

definition decode_frames_in ::
  "('a) codecs_scheme \<Rightarrow> bytes \<Rightarrow> (nat \<times> nat) list \<Rightarrow> (codec_error + event) list" where
  "decode_frames_in c buf frames = map (decode_at c buf) frames"

type_synonym 'u read_state = "parser \<times> 'u sink \<times> problem list"

definition parser_fail :: "nat \<Rightarrow> codec_error \<Rightarrow> parser \<Rightarrow> problem list \<Rightarrow> parser \<times> problem list" where
  "parser_fail pos e p problems =
     (p\<lparr>fp_failed := True, fp_carry := []\<rparr>,
      problems @ [UndecodableData (fp_base p + pos) (fp_at p) e])"

text \<open>The loop over the decoded frames; \<open>True\<close> when it ran to its end.\<close>

fun push_decoded ::
  "event_filter option \<Rightarrow> 'u callback \<Rightarrow> ((nat \<times> nat) \<times> (codec_error + event)) list \<Rightarrow>
   'u read_state \<Rightarrow> bool \<times> 'u read_state" where
  "push_decoded flt f [] st = (True, st)"
| "push_decoded flt f (((start, len), Inl e) # rs) (p, sk, problems) =
     (case parser_fail (start + 4 + len) e p problems of
        (p1, problems1) \<Rightarrow> (False, p1, sk, problems1))"
| "push_decoded flt f (((start, len), Inr ev) # rs) (p, sk, problems) =
     (let sk1 = sink_push flt f ev sk
      in if sk_stopped sk1 then (False, p, sk1, problems)
         else push_decoded flt f rs (p, sk1, problems))"

definition parser_feed ::
  "('a) codecs_scheme \<Rightarrow> event_filter option \<Rightarrow> 'u callback \<Rightarrow> bytes \<Rightarrow> 'u read_state \<Rightarrow> 'u read_state" where
  "parser_feed c flt f data st =
     (case st of (p, sk, problems) \<Rightarrow>
        if fp_failed p \<or> sk_stopped sk then st
        else
          (let p1 = p\<lparr>fp_carry := fp_carry p @ data\<rparr>
           in case split_frames (fp_carry p1) of
                (frames, consumed, bad) \<Rightarrow>
                  (case push_decoded flt f
                          (zip frames (decode_frames_in c (fp_carry p1) frames)) (p1, sk, problems) of
                     (False, st1) \<Rightarrow> st1
                   | (True, p2, sk2, problems2) \<Rightarrow>
                       (case bad of
                          Some (pos, e) \<Rightarrow>
                            (case parser_fail pos e p2 problems2 of
                               (p3, problems3) \<Rightarrow> (p3, sk2, problems3))
                        | None \<Rightarrow>
                            (p2\<lparr>fp_carry := drop consumed (fp_carry p2),
                                fp_base := fp_base p2 + consumed\<rparr>, sk2, problems2)))))"

definition parser_finish :: "parser \<Rightarrow> problem list \<Rightarrow> problem list" where
  "parser_finish p problems =
     (if \<not> fp_failed p \<and> fp_carry p \<noteq> []
      then problems @ [UndecodableData (fp_base p + length (fp_carry p)) (fp_at p) Truncated]
      else problems)"

section \<open>Unchecked frames\<close>

text \<open>The inner loop of \<open>stream_frame\<close>: one block, the reads left, and whether the end was met.\<close>

fun take_block :: "bytes \<Rightarrow> bytes list \<Rightarrow> bytes \<times> bytes list \<times> bool" where
  "take_block block [] = (if BLOCK_BYTES \<le> length block then (block, [], False) else (block, [], True))"
| "take_block block (s # ss) =
     (if BLOCK_BYTES \<le> length block then (block, s # ss, False) else take_block (block @ s) ss)"

lemma take_block_shorter:
  "take_block block ss = (b, rest, False) \<Longrightarrow>
     (length rest < length ss \<or> rest = ss \<and> BLOCK_BYTES \<le> length block) \<and> length rest \<le> length ss"
  by (induction block ss rule: take_block.induct) (auto split: if_splits)

function stream_blocks ::
  "('a) stream_codecs_scheme \<Rightarrow> event_filter option \<Rightarrow> 'u callback \<Rightarrow> bytes \<Rightarrow> nat \<Rightarrow> bytes list \<Rightarrow>
   'u read_state \<Rightarrow> bool \<times> 'u read_state" where
  "stream_blocks c flt f frame fed steps st =
     (case take_block [] steps of
        (block, rest, ended) \<Rightarrow>
          (let st1 = parser_feed c flt f block st; fed1 = fed + length block
           in if sk_stopped (fst (snd st1)) then (False, st1)
              else if \<not> ended then stream_blocks c flt f frame fed1 rest st1
              else if snd (zstd_steps c frame)
              then (True, parser_feed c flt f (zstd_tail c frame fed1) st1)
              else (False, st1)))"
  by pat_completeness auto
termination
  by (relation "measure (\<lambda>(c, flt, f, frame, fed, steps, st). length steps)")
    (auto dest!: take_block_shorter [OF sym] simp: BLOCK_BYTES_def)

declare stream_blocks.simps [simp del]

text \<open>\<open>True\<close> when the frame ended in an error.\<close>

definition stream_frame ::
  "('a) stream_codecs_scheme \<Rightarrow> event_filter option \<Rightarrow> 'u callback \<Rightarrow> bytes \<Rightarrow> 'u read_state \<Rightarrow>
   bool \<times> 'u read_state" where
  "stream_frame c flt f frame st = stream_blocks c flt f frame 0 (fst (zstd_steps c frame)) st"

section \<open>Legacy files\<close>

definition find_magic :: "bytes \<Rightarrow> nat \<Rightarrow> nat option" where
  "find_magic buf from =
     find (\<lambda>p. take 4 (drop p buf) = ZSTD_MAGIC) [from..<length buf - 3]"

definition next_checksummed :: "bytes \<Rightarrow> nat \<Rightarrow> nat option" where
  "next_checksummed buf pos =
     find (\<lambda>p. frame_has_checksum (drop p buf)) [Suc pos..<length buf]"

definition trusted_frame :: "bytes \<Rightarrow> nat \<Rightarrow> bool" where
  "trusted_frame buf pos \<longleftrightarrow>
     take 4 (drop pos buf) = ZSTD_MAGIC \<and> (frame_has_checksum (drop pos buf) \<or> pos = 0)"

definition frame_size :: "('a) codecs_scheme \<Rightarrow> bytes \<Rightarrow> nat option" where
  "frame_size c rest =
     (case zstd_frame_size c rest of
        Some n \<Rightarrow> if 0 < n \<and> n \<le> length rest then Some n else None
      | None \<Rightarrow> None)"

text \<open>One frame: whether it decompressed without error, and what reached the sink.\<close>

definition read_one_frame ::
  "('a) stream_codecs_scheme \<Rightarrow> event_filter option \<Rightarrow> 'u callback \<Rightarrow> bytes \<Rightarrow> nat \<Rightarrow>
   'u sink \<times> problem list \<Rightarrow> bool \<times> 'u read_state" where
  "read_one_frame c flt f buf pos st =
     (let rest = drop pos buf; size = frame_size c rest;
          frame = (case size of Some n \<Rightarrow> take n rest | None \<Rightarrow> rest);
          start = (parser_new pos, fst st, snd st)
      in if frame_has_checksum rest then
           (case zstd_dec c frame of
              Some data \<Rightarrow>
                (False, if size \<noteq> None then parser_feed c flt f data start else start)
            | None \<Rightarrow> (True, start))
         else stream_frame c flt f frame start)"

function read_legacy_from ::
  "('a) stream_codecs_scheme \<Rightarrow> event_filter option \<Rightarrow> 'u callback \<Rightarrow> bytes \<Rightarrow> nat \<Rightarrow>
   'u sink \<times> problem list \<Rightarrow> 'u sink \<times> problem list" where
  "read_legacy_from c flt f buf pos st =
     (if \<not> pos < length buf \<or> sk_stopped (fst st) then st
      else if \<not> trusted_frame buf pos then
        (case next_checksummed buf pos of
           Some p \<Rightarrow> read_legacy_from c flt f buf p (fst st, snd st @ [BytesUnreadable pos p])
         | None \<Rightarrow> (fst st, snd st @ [LastBytesUnreadable (length buf - pos)]))
      else
        (case read_one_frame c flt f buf pos st of
           (err, p, sk, problems) \<Rightarrow>
             if sk_stopped sk then (sk, problems)
             else
               (let problems1 = parser_finish p problems;
                    checksummed = frame_has_checksum (drop pos buf)
                in case frame_size c (drop pos buf) of
                     Some n \<Rightarrow>
                       if \<not> err then read_legacy_from c flt f buf (pos + n) (sk, problems1)
                       else
                         (let problems2 = problems1 @ [FrameDamaged pos checksummed]
                          in case find_magic buf (Suc pos) of
                               Some q \<Rightarrow> read_legacy_from c flt f buf q (sk, problems2)
                             | None \<Rightarrow> (sk, problems2))
                   | None \<Rightarrow>
                       (let problems2 = problems1 @ [FrameIncomplete pos checksummed]
                        in case find_magic buf (Suc pos) of
                             Some q \<Rightarrow> read_legacy_from c flt f buf q (sk, problems2)
                           | None \<Rightarrow> (sk, problems2)))))"
  by pat_completeness auto
termination
  by (relation "measure (\<lambda>(c, flt, f, buf, pos, st). length buf - pos)")
    (auto simp: frame_size_def next_checksummed_def find_magic_def find_Some_iff
      split: option.splits if_splits)

declare read_legacy_from.simps [simp del]

definition read_legacy_zst ::
  "('a) stream_codecs_scheme \<Rightarrow> event_filter option \<Rightarrow> 'u callback \<Rightarrow> bytes \<Rightarrow>
   'u sink \<times> problem list \<Rightarrow> 'u sink \<times> problem list" where
  "read_legacy_zst c flt f buf st = read_legacy_from c flt f buf 0 st"

section \<open>Chunked files\<close>

definition read_entry ::
  "codecs \<Rightarrow> event_filter option \<Rightarrow> 'u callback \<Rightarrow> bytes \<Rightarrow> nat \<Rightarrow> nat \<Rightarrow> chunk_index_entry \<Rightarrow>
   'u sink \<times> problem list \<Rightarrow> 'u sink \<times> problem list" where
  "read_entry c flt f buf footer_offset i entry st =
     (if (case flt of None \<Rightarrow> False | Some ft \<Rightarrow> \<not> chunk_overlaps ft entry) then st
      else if ce_offset entry < of_nat (length HEAD_MAGIC) \<or>
              of_nat footer_offset < ce_offset entry + 4 + ucast (ce_comp_len entry)
      then (fst st, snd st @ [ChunkOutside i (ce_event_count entry)])
      else
        (let start = unat (ce_offset entry + 4); len = unat (ce_comp_len entry)
         in case (if length buf < start + len then Inl ChunkIo
                  else decode_chunk c (take len (drop start buf))) of
              Inl e \<Rightarrow> (fst st, snd st @ [ChunkUnreadable i (ce_event_count entry) e])
            | Inr events \<Rightarrow>
                (push_all flt f events (fst st),
                 if length events \<noteq> unat (ce_event_count entry)
                 then snd st @ [ChunkCountMismatch i (length events) (ce_event_count entry)]
                 else snd st)))"

fun decode_indexed ::
  "codecs \<Rightarrow> event_filter option \<Rightarrow> 'u callback \<Rightarrow> bytes \<Rightarrow> nat \<Rightarrow> nat \<Rightarrow> chunk_index_entry list \<Rightarrow>
   'u sink \<times> problem list \<Rightarrow> 'u sink \<times> problem list" where
  "decode_indexed c flt f buf footer_offset i [] st = st"
| "decode_indexed c flt f buf footer_offset i (e # es) st =
     (if sk_stopped (fst st) then st
      else decode_indexed c flt f buf footer_offset (Suc i) es
             (read_entry c flt f buf footer_offset i e st))"

definition read_chunked ::
  "codecs \<Rightarrow> event_filter option \<Rightarrow> 'u callback \<Rightarrow> bytes \<Rightarrow> 'u sink \<times> problem list \<Rightarrow>
   'u sink \<times> problem list" where
  "read_chunked c flt f buf st =
     (let scan = (\<lambda>lim. case scan_chunks_checked c buf lim of
                    (events, damage) \<Rightarrow> (push_all flt f events (fst st), snd st @ damage))
      in case read_footer_with_offset c buf of
           Inr (Some (entries, footer_offset)) \<Rightarrow>
             decode_indexed c flt f buf footer_offset 0 entries st
         | Inr None \<Rightarrow> scan (length buf)
         | Inl _ \<Rightarrow>
             scan (case claimed_footer_offset buf of Some off \<Rightarrow> off | None \<Rightarrow> length buf))"

section \<open>The whole read\<close>

record read_meta =
  rm_event_count :: "u64 option"
  rm_dropped_events :: "u64 option"

definition meta_problems :: "read_meta option \<Rightarrow> u64 \<Rightarrow> problem list" where
  "meta_problems meta seen =
     (case meta of
        None \<Rightarrow> []
      | Some m \<Rightarrow>
          (case rm_event_count m of
             Some written \<Rightarrow>
               if seen < written then [EventsMissing (unat (written - seen)) (unat written)] else []
           | None \<Rightarrow> []) @
          (case rm_dropped_events m of
             Some n \<Rightarrow> if 0 < n then [EventsDropped (unat n)] else []
           | None \<Rightarrow> []))"

datatype read_error = UnsupportedFormat "8 word"

definition parse_all ::
  "codecs \<Rightarrow> event_filter option \<Rightarrow> 'u callback \<Rightarrow> bytes \<Rightarrow> 'u sink \<times> problem list \<Rightarrow>
   'u sink \<times> problem list" where
  "parse_all c flt f buf st =
     (case parser_feed c flt f buf (parser_new 0, fst st, snd st) of
        (p, sk, problems) \<Rightarrow> (sk, parser_finish p problems))"

text \<open>\<open>for_each_event\<close>: \<open>zst\<close> says whether the events file is the \<open>.zst\<close> one.\<close>

definition for_each_event ::
  "stream_codecs \<Rightarrow> bool \<Rightarrow> bytes \<Rightarrow> read_meta option \<Rightarrow> event_filter option \<Rightarrow> 'u callback \<Rightarrow> 'u \<Rightarrow>
   read_error + 'u \<times> problem list" where
  "for_each_event c zst buf meta flt f u =
     (let cc = codecs.truncate c; st = (sink_new u, []);
          result = (if zst then
             (case detect_bytes buf of
                Chunked \<Rightarrow> Inr (read_chunked cc flt f buf st)
              | Unsupported v \<Rightarrow> Inl (UnsupportedFormat v)
              | Legacy \<Rightarrow> Inr (read_legacy_zst c flt f buf st))
           else Inr (parse_all cc flt f buf st))
      in case result of
           Inl e \<Rightarrow> Inl e
         | Inr (sk, problems) \<Rightarrow>
             Inr (sk_state sk,
                  if flt = None \<and> \<not> sk_stopped sk then problems @ meta_problems meta (sk_seen sk)
                  else problems))"

text \<open>\<open>read_events_checked\<close> and \<open>read_events_filtered\<close> collect the events.\<close>

definition collect :: "event list callback" where
  "collect out e = (out @ [e], False)"

definition read_events_checked ::
  "stream_codecs \<Rightarrow> bool \<Rightarrow> bytes \<Rightarrow> read_meta option \<Rightarrow> read_error + event list \<times> problem list" where
  "read_events_checked c zst buf meta = for_each_event c zst buf meta None collect []"

definition read_events_filtered ::
  "stream_codecs \<Rightarrow> bool \<Rightarrow> bytes \<Rightarrow> read_meta option \<Rightarrow> event_filter \<Rightarrow> read_error + event list" where
  "read_events_filtered c zst buf meta flt =
     (case for_each_event c zst buf meta (Some flt) collect [] of
        Inl e \<Rightarrow> Inl e
      | Inr (out, _) \<Rightarrow> Inr out)"

definition indexed_event_count :: "codecs \<Rightarrow> bool \<Rightarrow> bytes \<Rightarrow> nat option" where
  "indexed_event_count c zst buf =
     (if zst \<and> detect_bytes buf = Chunked then
        (case read_footer c buf of
           Inr (Some entries) \<Rightarrow> Some (sum_list (map (\<lambda>e. unat (ce_event_count e)) entries))
         | _ \<Rightarrow> None)
      else None)"

definition session_event_count ::
  "stream_codecs \<Rightarrow> bool \<Rightarrow> bytes \<Rightarrow> read_meta option \<Rightarrow> read_error + nat" where
  "session_event_count c zst buf meta =
     (case indexed_event_count (codecs.truncate c) zst buf of
        Some n \<Rightarrow> Inr n
      | None \<Rightarrow>
          (case for_each_event c zst buf meta None (\<lambda>n e. (Suc n, False)) 0 of
             Inl e \<Rightarrow> Inl e
           | Inr (n, _) \<Rightarrow> Inr n))"

end
