(* ===== verification/Triggers.thy ===== *)
theory Triggers
  imports FlightRecorder SessionReader
begin

text \<open>
  Post-mortem triggers, \<open>crates/smeltr-daemon/src/triggers.rs\<close>, and the bus watcher of
  \<open>main.rs\<close> that applies them: which events are crash-like, the rate limit per reason, and the
  session written from the flight recorder.
\<close>

section \<open>Reasons\<close>

datatype trigger_reason =
    TrCrashReport string "u32 option"
  | TrMachException u32
  | TrMetalError u64 i64
  | TrDaemonPanic string

fun label :: "trigger_reason \<Rightarrow> string" where
  "label (TrCrashReport _ _) = ''crash-report''"
| "label (TrMachException _) = ''mach-exception''"
| "label (TrMetalError _ code) = ''metal-error-'' @ signed_digits code"
| "label (TrDaemonPanic _) = ''daemon-panic''"

definition classify :: "event \<Rightarrow> trigger_reason option" where
  "classify ev =
     (case payload ev of
        CrashReportEmitted path pid _ _ _ _ \<Rightarrow> Some (TrCrashReport path pid)
      | MachException pid _ _ \<Rightarrow> Some (TrMachException pid)
      | MetalCbCompleted cb _ _ (Some code) _ _ \<Rightarrow>
          if code \<noteq> 0 then Some (TrMetalError cb code) else None
      | _ \<Rightarrow> None)"

record post_mortem_trigger =
  pt_reason :: string
  pt_crash_report :: "string option"
  pt_pid :: "u32 option"

fun trigger :: "trigger_reason \<Rightarrow> post_mortem_trigger" where
  "trigger (TrCrashReport path pid) =
     \<lparr>pt_reason = ''crash-report'', pt_crash_report = Some path, pt_pid = pid\<rparr>"
| "trigger (TrMachException pid) =
     \<lparr>pt_reason = ''mach-exception'', pt_crash_report = None, pt_pid = Some pid\<rparr>"
| "trigger (TrMetalError _ _) =
     \<lparr>pt_reason = ''metal-error'', pt_crash_report = None, pt_pid = None\<rparr>"
| "trigger (TrDaemonPanic _) =
     \<lparr>pt_reason = ''daemon-panic'', pt_crash_report = None, pt_pid = None\<rparr>"

fun gate_key :: "trigger_reason \<Rightarrow> string" where
  "gate_key (TrCrashReport _ (Some pid)) = ''crash-report-'' @ digits (unat pid)"
| "gate_key (TrCrashReport _ None) = ''crash-report''"
| "gate_key (TrMachException pid) = ''mach-exception-'' @ digits (unat pid)"
| "gate_key (TrMetalError _ _) = ''metal-error''"
| "gate_key (TrDaemonPanic _) = ''daemon-panic''"

section \<open>The rate limit\<close>

text \<open>Instants are nanoseconds of the monotonic clock.\<close>

definition TRIGGER_MIN_INTERVAL :: nat where "TRIGGER_MIN_INTERVAL = 30 * 10 ^ 9"

record trigger_gate =
  tg_min_interval :: nat
  tg_last :: "string \<rightharpoonup> nat"

definition gate_new :: "nat \<Rightarrow> trigger_gate" where
  "gate_new interval = \<lparr>tg_min_interval = interval, tg_last = Map.empty\<rparr>"

definition admit :: "trigger_reason \<Rightarrow> nat \<Rightarrow> trigger_gate \<Rightarrow> bool \<times> trigger_gate" where
  "admit reason now g =
     (let key = gate_key reason
      in if (case tg_last g key of None \<Rightarrow> False | Some prev \<Rightarrow> now - prev < tg_min_interval g)
         then (False, g)
         else (True, g\<lparr>tg_last := (tg_last g)(key \<mapsto> now)\<rparr>))"

section \<open>Post-mortem sessions\<close>

text \<open>
  The session directory a flush leaves: the bytes of its events file, the fields of its metadata
  the reader uses and the trigger.  The file is one zstd frame without a checksum; its encoder
  \<open>enc\<close> is a parameter, \<open>None\<close> when it or the disk fails.
\<close>

record post_mortem =
  pm_file :: bytes
  pm_meta :: read_meta
  pm_label :: string
  pm_trigger :: post_mortem_trigger
  pm_event_count :: nat

datatype flush_error = RecorderEmpty | FlushCodec codec_error | FlushIo

fun write_frames :: "codecs \<Rightarrow> event list \<Rightarrow> codec_error + bytes" where
  "write_frames c [] = Inr []"
| "write_frames c (ev # evs) =
     (case encode_frame c ev of
        Inl e \<Rightarrow> Inl e
      | Inr frame \<Rightarrow>
          (case write_frames c evs of Inl e \<Rightarrow> Inl e | Inr rest \<Rightarrow> Inr (frame @ rest)))"

definition flush_post_mortem_events ::
  "codecs \<Rightarrow> (bytes \<Rightarrow> bytes option) \<Rightarrow> event list \<Rightarrow> trigger_reason \<Rightarrow> flush_error + post_mortem" where
  "flush_post_mortem_events c enc events reason =
     (case write_frames c events of
        Inl e \<Rightarrow> Inl (FlushCodec e)
      | Inr data \<Rightarrow>
          (case enc data of
             None \<Rightarrow> Inl FlushIo
           | Some z \<Rightarrow> Inr
               \<lparr>pm_file = z, pm_meta = \<lparr>rm_event_count = None, rm_dropped_events = None\<rparr>,
                pm_label = label reason, pm_trigger = trigger reason,
                pm_event_count = length events\<rparr>))"

definition flush_post_mortem ::
  "codecs \<Rightarrow> (bytes \<Rightarrow> bytes option) \<Rightarrow> flight_recorder \<Rightarrow> trigger_reason \<Rightarrow>
   flush_error + post_mortem" where
  "flush_post_mortem c enc fr reason =
     (if snapshot fr = [] then Inl RecorderEmpty
      else flush_post_mortem_events c enc (snapshot fr) reason)"

text \<open>
  The watcher's handling of one event of the bus: the gate after it, what was flushed, and the
  payload appended to the ambient session (the directory name is the caller's \<open>short\<close>).
\<close>

definition watch_event ::
  "codecs \<Rightarrow> (bytes \<Rightarrow> bytes option) \<Rightarrow> flight_recorder \<Rightarrow> string \<Rightarrow> nat \<Rightarrow> event \<Rightarrow> trigger_gate \<Rightarrow>
   trigger_gate \<times> (flush_error + post_mortem) option \<times> payload option" where
  "watch_event c enc fr short now ev g =
     (case classify ev of
        None \<Rightarrow> (g, None, None)
      | Some reason \<Rightarrow>
          (case admit reason now g of
             (False, g1) \<Rightarrow> (g1, None, None)
           | (True, g1) \<Rightarrow>
               (case flush_post_mortem c enc fr reason of
                  Inl e \<Rightarrow> (g1, Some (Inl e), None)
                | Inr pm \<Rightarrow> (g1, Some (Inr pm),
                    Some (PostMortemFlushed (label reason) short (of_nat (pm_event_count pm)))))))"

section \<open>Classes of reasons\<close>

text \<open>What the rate limit takes for the same reason.\<close>

fun same_class :: "trigger_reason \<Rightarrow> trigger_reason \<Rightarrow> bool" where
  "same_class (TrCrashReport _ p) (TrCrashReport _ q) = (p = q)"
| "same_class (TrMachException p) (TrMachException q) = (p = q)"
| "same_class (TrMetalError _ _) (TrMetalError _ _) = True"
| "same_class (TrDaemonPanic _) (TrDaemonPanic _) = True"
| "same_class _ _ = False"

definition digits_value :: "string \<Rightarrow> nat" where
  "digits_value s = foldl (\<lambda>v ch. 10 * v + (of_char ch - 48)) 0 s"

lemma digits_value [simp]: "digits_value (digits n) = n"
proof (induction n rule: digits.induct)
  case (1 n)
  have digit: "of_char (char_of (48 + d) :: char) - 48 = d" if "d < 10" for d :: nat
    using that by simp
  show ?case
  proof (cases "n < 10")
    case True
    with digit [of n] show ?thesis by (simp add: digits.simps [of n] digits_value_def)
  next
    case False
    with 1 have "digits_value (digits (n div 10)) = n div 10" by simp
    then show ?thesis using False digit [of "n mod 10"]
      by (simp add: digits.simps [of n] digits_value_def)
  qed
qed

lemma digits_inject [simp]: "digits m = digits n \<longleftrightarrow> m = n"
  by (metis digits_value)

lemma digits_not_Nil [simp]: "digits n \<noteq> []"
  by (simp add: digits.simps [of n])

lemma gate_key_class: "gate_key r = gate_key s \<longleftrightarrow> same_class r s"
  by (cases r rule: gate_key.cases; cases s rule: gate_key.cases) (auto simp: word_unat_eq_iff)

section \<open>Spacing of the flushes\<close>

fun gate_run :: "(trigger_reason \<times> nat) list \<Rightarrow> trigger_gate \<Rightarrow> bool list" where
  "gate_run [] g = []"
| "gate_run ((reason, now) # xs) g =
     (case admit reason now g of (ok, g1) \<Rightarrow> ok # gate_run xs g1)"

text \<open>The time of the last admitted trigger of each key.\<close>

definition last_admitted :: "(trigger_reason \<times> nat) list \<Rightarrow> bool list \<Rightarrow> string \<rightharpoonup> nat" where
  "last_admitted xs oks =
     map_of (rev (map (\<lambda>((r, t), ok). (gate_key r, t)) (filter snd (zip xs oks))))"

fun gate_end :: "(trigger_reason \<times> nat) list \<Rightarrow> trigger_gate \<Rightarrow> trigger_gate" where
  "gate_end [] g = g"
| "gate_end ((reason, now) # xs) g = gate_end xs (snd (admit reason now g))"

lemma length_gate_run [simp]: "length (gate_run xs g) = length xs"
  by (induction xs g rule: gate_run.induct) (simp_all split: prod.splits)

lemma gate_run_append:
  "gate_run (xs @ ys) g = gate_run xs g @ gate_run ys (gate_end xs g)"
  by (induction xs g rule: gate_run.induct) (simp_all split: prod.splits)

lemma gate_end_append: "gate_end (xs @ ys) g = gate_end ys (gate_end xs g)"
  by (induction xs g rule: gate_end.induct) simp_all

lemma gate_end_interval [simp]: "tg_min_interval (gate_end xs g) = tg_min_interval g"
  by (induction xs g rule: gate_end.induct) (simp_all add: admit_def Let_def)

lemma gate_end_last:
  "tg_last (gate_end xs (gate_new iv)) = last_admitted xs (gate_run xs (gate_new iv))"
proof (induction xs rule: rev_induct)
  case Nil
  show ?case by (simp add: last_admitted_def gate_new_def)
next
  case (snoc x xs)
  obtain r t where x: "x = (r, t)" by (cases x)
  obtain ok g where a: "admit r t (gate_end xs (gate_new iv)) = (ok, g)" by fastforce
  have zip: "zip (xs @ [x]) (gate_run xs (gate_new iv) @ [ok]) =
      zip xs (gate_run xs (gate_new iv)) @ [(x, ok)]" by simp
  show ?case
    unfolding last_admitted_def gate_run_append gate_end_append
    using snoc.IH a
    by (auto simp: x last_admitted_def admit_def Let_def split: if_splits)
qed

lemma sorted_last_max:
  assumes "sorted (map snd xs)" and "i < length xs" and "oks ! i" and "length oks = length xs"
  shows "\<exists>t. last_admitted xs oks (gate_key (fst (xs ! i))) = Some t \<and> snd (xs ! i) \<le> t"
  using assms
proof (induction xs arbitrary: oks i rule: rev_induct)
  case (snoc x xs)
  then obtain oks' ok where oks: "oks = oks' @ [ok]" "length oks' = length xs"
    by (metis length_0_conv length_append_singleton nat.distinct(1) rev_exhaust old.nat.inject)
  have step: "last_admitted (xs @ [x]) oks =
      (if ok then (last_admitted xs oks')(gate_key (fst x) \<mapsto> snd x) else last_admitted xs oks')"
    using oks by (cases x) (simp add: last_admitted_def)
  show ?case
  proof (cases "i < length xs")
    case True
    with snoc.prems oks have "sorted (map snd xs)" "oks' ! i"
      by (auto simp: nth_append sorted_append)
    from snoc.IH [OF this(1) True this(2) oks(2)] obtain t where
      "last_admitted xs oks' (gate_key (fst (xs ! i))) = Some t" "snd (xs ! i) \<le> t" by blast
    moreover have "snd (xs ! i) \<le> snd x"
      using snoc.prems(1) True by (auto simp: sorted_append)
    ultimately show ?thesis using True by (auto simp: step nth_append)
  next
    case False
    with snoc.prems oks have "i = length xs" "ok" by (auto simp: nth_append less_Suc_eq)
    then show ?thesis by (simp add: step)
  qed
qed simp

lemma last_admitted_mem:
  "last_admitted xs oks k = Some t \<Longrightarrow> length oks = length xs \<Longrightarrow>
     \<exists>j < length xs. oks ! j \<and> gate_key (fst (xs ! j)) = k \<and> snd (xs ! j) = t"
proof -
  assume a: "last_admitted xs oks k = Some t" and len: "length oks = length xs"
  from map_of_SomeD [OF a [unfolded last_admitted_def]] obtain r where
    "((r, t), True) \<in> set (zip xs oks)" "gate_key r = k" by auto
  then show ?thesis using len by (auto simp: in_set_zip)
qed

text \<open>
  The rate limit.  Of triggers arriving in time order, a trigger flushes exactly when every
  earlier trigger of its class that flushed is at least \<open>min_interval\<close> older: flushes of a class
  are spaced, a trigger is suppressed only by a recent flush of its own class, and classes do
  not affect each other.
\<close>
theorem gate_spaces_flushes:
  assumes "sorted (map snd xs)" and "i < length xs"
  shows "gate_run xs (gate_new iv) ! i \<longleftrightarrow>
    (\<forall>j < i. gate_run xs (gate_new iv) ! j \<and> same_class (fst (xs ! j)) (fst (xs ! i)) \<longrightarrow>
       iv \<le> snd (xs ! i) - snd (xs ! j))"
proof -
  let ?pre = "take i xs" and ?g = "gate_new iv"
  obtain r t where x: "xs ! i = (r, t)" by (cases "xs ! i")
  have xs: "xs = ?pre @ (r, t) # drop (Suc i) xs" using assms(2) x by (metis id_take_nth_drop)
  let ?oks = "gate_run ?pre ?g"
  have run: "gate_run xs ?g = ?oks @ fst (admit r t (gate_end ?pre ?g)) #
      gate_run (drop (Suc i) xs) (snd (admit r t (gate_end ?pre ?g)))"
    by (subst xs) (simp add: gate_run_append split: prod.splits)
  have len: "length ?oks = i" "length ?oks = length ?pre" using assms(2) by simp_all
  have before: "gate_run xs ?g ! j = ?oks ! j" "?pre ! j = xs ! j" if "j < i" for j
    using that len by (simp_all add: run nth_append)
  have "gate_run xs ?g ! i \<longleftrightarrow> fst (admit r t (gate_end ?pre ?g))"
    using len by (simp add: run nth_append)
  also have "\<dots> \<longleftrightarrow> (\<forall>p. last_admitted ?pre ?oks (gate_key r) = Some p \<longrightarrow> iv \<le> t - p)"
    by (simp add: admit_def Let_def gate_end_last gate_new_def flip: gate_new_def split: option.splits)
      (auto simp: gate_new_def not_less)
  also have "\<dots> \<longleftrightarrow> (\<forall>j < i. ?oks ! j \<and> same_class (fst (xs ! j)) r \<longrightarrow> iv \<le> t - snd (xs ! j))"
  proof
    assume last: "\<forall>p. last_admitted ?pre ?oks (gate_key r) = Some p \<longrightarrow> iv \<le> t - p"
    have "sorted (map snd ?pre)" using assms(1) by (metis sorted_wrt_take take_map)
    note mx = sorted_last_max [OF this _ _ len(2)]
    show "\<forall>j < i. ?oks ! j \<and> same_class (fst (xs ! j)) r \<longrightarrow> iv \<le> t - snd (xs ! j)"
    proof (intro allI impI)
      fix j assume j: "j < i" "?oks ! j \<and> same_class (fst (xs ! j)) r"
      with mx [of j] assms(2) obtain p where "last_admitted ?pre ?oks (gate_key r) = Some p"
        "snd (xs ! j) \<le> p" by (auto simp: gate_key_class [symmetric])
      with last show "iv \<le> t - snd (xs ! j)" by fastforce
    qed
  next
    assume "\<forall>j < i. ?oks ! j \<and> same_class (fst (xs ! j)) r \<longrightarrow> iv \<le> t - snd (xs ! j)"
    then show "\<forall>p. last_admitted ?pre ?oks (gate_key r) = Some p \<longrightarrow> iv \<le> t - p"
      using last_admitted_mem [OF _ len(2)] assms(2) by (fastforce simp: gate_key_class)
  qed
  finally show ?thesis using before x by auto
qed

definition burst :: "(trigger_reason \<times> nat) list" where
  "burst = [(TrMetalError 1 2, 0), (TrMetalError 2 9, 4), (TrMachException 7, 5), (TrMetalError 3 2, 12)]"

lemma gate_spaces_flushes_witness:
  "gate_run burst (gate_new 10) ! 0 \<and> \<not> gate_run burst (gate_new 10) ! 1 \<and>
     gate_run burst (gate_new 10) ! 3"
proof -
  have sorted: "sorted (map snd burst)" by (simp add: burst_def)
  have b: "burst ! 0 = (TrMetalError 1 2, 0)" "burst ! 1 = (TrMetalError 2 9, 4)"
    "burst ! 2 = (TrMachException 7, 5)" "burst ! 3 = (TrMetalError 3 2, 12)" "length burst = 4"
    by (simp_all add: burst_def)
  have "gate_run burst (gate_new 10) ! 0"
    using gate_spaces_flushes [OF sorted, of 0 10] b by simp
  moreover from this have "\<not> gate_run burst (gate_new 10) ! 1"
    using gate_spaces_flushes [OF sorted, of 1 10] b by (auto intro: exI [of _ 0])
  moreover have "j = 0 \<or> j = 1 \<or> j = 2" if "j < 3" for j :: nat using that by linarith
  then have "gate_run burst (gate_new 10) ! 3"
    using gate_spaces_flushes [OF sorted, of 3 10] b calculation by fastforce
  ultimately show ?thesis by blast
qed

end
