(* ===== verification/SessionWriter.thy ===== *)
theory SessionWriter
  imports Chunked
begin

text \<open>
  The append-only session writer, \<open>crates/smeltr-core/src/writer.rs\<close>.  The file is its bytes;
  the operating system's answers to the write calls are a list of outcomes consumed in order
  (an exhausted list answers \<open>Ok\<close>): a failed write may leave any prefix of the data behind, and
  cutting the file back may fail too.  The zstd encoder of a batch is the data written to it so
  far, compressed when the batch is sealed; writing into its memory buffer does not fail.
\<close>

section \<open>The disk\<close>

datatype io_outcome = IoOk | IoFail nat bool string

definition LEGACY_FRAME_BYTES :: nat where "LEGACY_FRAME_BYTES = 256 * 1024"
definition MAX_PENDING_BYTES :: nat where "MAX_PENDING_BYTES = 64 * 1024 * 1024"

definition file_write :: "nat \<Rightarrow> bytes \<Rightarrow> bytes \<Rightarrow> bytes" where
  "file_write pos bs file = take pos file @ bs @ drop (pos + length bs) file"

text \<open>The file after a failed write of \<open>bs\<close> at \<open>pos\<close> and the attempt to cut it back there.\<close>

definition file_torn :: "nat \<Rightarrow> bytes \<Rightarrow> nat \<Rightarrow> bool \<Rightarrow> bytes \<Rightarrow> bytes" where
  "file_torn pos bs n trunc file =
     (if trunc then take pos (file_write pos (take n bs) file) else file_write pos (take n bs) file)"

section \<open>Batches\<close>

record batch =
  bt_data :: bytes
  bt_event_count :: u32
  bt_uncompressed_bytes :: nat
  bt_min_ts :: u64
  bt_max_ts :: u64
  bt_source_bitmap :: u64

definition batch_new :: batch where
  "batch_new = \<lparr>bt_data = [], bt_event_count = 0, bt_uncompressed_bytes = 0, bt_min_ts = - 1,
     bt_max_ts = 0, bt_source_bitmap = 0\<rparr>"

definition batch_push :: "bytes \<Rightarrow> event \<Rightarrow> batch \<Rightarrow> batch" where
  "batch_push frame ev b =
     \<lparr>bt_data = bt_data b @ frame,
      bt_event_count = bt_event_count b + 1,
      bt_uncompressed_bytes = bt_uncompressed_bytes b + length frame,
      bt_min_ts = min (bt_min_ts b) (ts_mono_ns ev),
      bt_max_ts = max (bt_max_ts b) (ts_mono_ns ev),
      bt_source_bitmap = Bit_Operations.or (bt_source_bitmap b) (source_bit (ev_source ev))\<rparr>"

section \<open>The appender\<close>

record sealed_unit =
  su_bytes :: bytes
  su_events :: u32
  su_entry :: "chunk_index_entry option"

record appender =
  ap_file :: bytes
  ap_cursor :: nat
  ap_pending :: "sealed_unit list"
  ap_pending_bytes :: nat
  ap_max_pending_bytes :: nat
  ap_dropped_events :: u64
  ap_written_events :: u64
  ap_last_error :: "string option"
  ap_index :: "chunk_index_entry list"
  ap_disk :: "io_outcome list"

definition appender_new :: "bytes \<Rightarrow> nat \<Rightarrow> io_outcome list \<Rightarrow> appender" where
  "appender_new file cursor outs =
     \<lparr>ap_file = file, ap_cursor = cursor, ap_pending = [], ap_pending_bytes = 0,
      ap_max_pending_bytes = MAX_PENDING_BYTES, ap_dropped_events = 0, ap_written_events = 0,
      ap_last_error = None, ap_index = [], ap_disk = outs\<rparr>"

definition next_outcome :: "appender \<Rightarrow> io_outcome \<times> appender" where
  "next_outcome a =
     (case ap_disk a of [] \<Rightarrow> (IoOk, a) | out # outs \<Rightarrow> (out, a\<lparr>ap_disk := outs\<rparr>))"

definition enqueue :: "sealed_unit \<Rightarrow> appender \<Rightarrow> bool \<times> appender" where
  "enqueue u a =
     (if ap_pending a \<noteq> [] \<and> ap_max_pending_bytes a < ap_pending_bytes a + length (su_bytes u)
      then (False, a\<lparr>ap_dropped_events := ap_dropped_events a + ucast (su_events u)\<rparr>)
      else (True, a\<lparr>ap_pending_bytes := ap_pending_bytes a + length (su_bytes u),
                    ap_pending := ap_pending a @ [u]\<rparr>))"

definition unit_written :: "sealed_unit \<Rightarrow> sealed_unit list \<Rightarrow> appender \<Rightarrow> appender" where
  "unit_written u us a =
     a\<lparr>ap_file := file_write (ap_cursor a) (su_bytes u) (ap_file a),
       ap_pending := us,
       ap_pending_bytes := ap_pending_bytes a - length (su_bytes u),
       ap_index :=
         (case su_entry u of
            None \<Rightarrow> ap_index a
          | Some e \<Rightarrow> ap_index a @ [e\<lparr>ce_offset := of_nat (ap_cursor a)\<rparr>]),
       ap_cursor := ap_cursor a + length (su_bytes u),
       ap_written_events := ap_written_events a + ucast (su_events u)\<rparr>"

fun drain_units :: "sealed_unit list \<Rightarrow> appender \<Rightarrow> bool \<times> appender" where
  "drain_units [] a = (True, a\<lparr>ap_last_error := None\<rparr>)"
| "drain_units (u # us) a =
     (case next_outcome a of
        (IoOk, a1) \<Rightarrow> drain_units us (unit_written u us a1)
      | (IoFail n trunc msg, a1) \<Rightarrow>
          (False, a1\<lparr>ap_file := file_torn (ap_cursor a1) (su_bytes u) n trunc (ap_file a1),
                     ap_last_error := Some msg\<rparr>))"

definition drain :: "appender \<Rightarrow> bool \<times> appender" where
  "drain a = drain_units (ap_pending a) a"

section \<open>The writer\<close>

datatype writer_kind = KLegacy | KChunked chunk_config

text \<open>The fields of \<open>SessionMetadata\<close> the writer sets.\<close>

record session_end =
  se_exit_code :: "i32 option"
  se_term_signal :: "i32 option"
  se_ended :: "string option"
  se_event_count :: "u64 option"
  se_dropped_events :: "u64 option"

definition session_open :: session_end where
  "session_open = \<lparr>se_exit_code = None, se_term_signal = None, se_ended = None,
     se_event_count = None, se_dropped_events = None\<rparr>"

record writer =
  sw_kind :: writer_kind
  sw_batch :: batch
  sw_out :: appender
  sw_metadata :: session_end
  sw_saved :: "session_end option" \<comment> \<open>metadata.toml on disk\<close>

text \<open>\<open>persist_metadata\<close>: a temporary file renamed over, so it is replaced whole or not at all.\<close>

definition persist_metadata :: "writer \<Rightarrow> bool \<times> writer" where
  "persist_metadata w =
     (case next_outcome (sw_out w) of
        (IoOk, a) \<Rightarrow> (True, w\<lparr>sw_out := a, sw_saved := Some (sw_metadata w)\<rparr>)
      | (IoFail _ _ _, a) \<Rightarrow> (False, w\<lparr>sw_out := a\<rparr>))"

text \<open>
  \<open>create_with_chunk_config\<close>.  A chunked session starts a new file with the magic; a legacy one
  appends to what the file holds.
\<close>

definition create_writer ::
  "chunk_config option \<Rightarrow> bytes \<Rightarrow> io_outcome list \<Rightarrow> session_end \<Rightarrow> writer option" where
  "create_writer cfg old outs meta =
     (let start = (case cfg of
                     Some cc \<Rightarrow>
                       (case outs of
                          IoFail _ _ _ # _ \<Rightarrow> None
                        | _ \<Rightarrow> Some (KChunked cc,
                                 appender_new HEAD_MAGIC (length HEAD_MAGIC) (drop 1 outs)))
                   | None \<Rightarrow> Some (KLegacy, appender_new old (length old) outs))
      in case start of
           None \<Rightarrow> None
         | Some (kind, out) \<Rightarrow>
             (case persist_metadata
                \<lparr>sw_kind = kind, sw_batch = batch_new, sw_out = out, sw_metadata = meta,
                 sw_saved = None\<rparr> of
                (ok, w) \<Rightarrow> if ok then Some w else None))"

definition batch_limit :: "writer_kind \<Rightarrow> nat" where
  "batch_limit kind =
     (case kind of
        KLegacy \<Rightarrow> LEGACY_FRAME_BYTES
      | KChunked cc \<Rightarrow> min (cc_max_bytes cc) MAX_FRAME_BYTES)"

definition drop_batch :: "batch \<Rightarrow> writer \<Rightarrow> writer" where
  "drop_batch b w =
     w\<lparr>sw_out := (sw_out w)
         \<lparr>ap_dropped_events := ap_dropped_events (sw_out w) + ucast (bt_event_count b)\<rparr>\<rparr>"

definition seal_unit :: "writer_kind \<Rightarrow> batch \<Rightarrow> bytes \<Rightarrow> sealed_unit option" where
  "seal_unit kind b compressed =
     (case kind of
        KLegacy \<Rightarrow>
          Some \<lparr>su_bytes = compressed, su_events = bt_event_count b, su_entry = None\<rparr>
      | KChunked _ \<Rightarrow>
          if MAX_CHUNK_BYTES < length compressed then None
          else Some
            \<lparr>su_bytes = put_u32 (of_nat (length compressed)) @ compressed,
             su_events = bt_event_count b,
             su_entry = Some
               \<lparr>ce_offset = 0, ce_comp_len = of_nat (length compressed), ce_min_ts = bt_min_ts b,
                ce_max_ts = bt_max_ts b, ce_source_bitmap = bt_source_bitmap b,
                ce_event_count = bt_event_count b\<rparr>\<rparr>)"

definition make_room :: "appender \<Rightarrow> appender" where
  "make_room a = (if ap_pending a \<noteq> [] then snd (drain a) else a)"

definition seal :: "codecs \<Rightarrow> writer \<Rightarrow> bool \<times> writer" where
  "seal c w =
     (if bt_event_count (sw_batch w) = 0 then (True, w)
      else
        (let b = sw_batch w; w1 = w\<lparr>sw_batch := batch_new\<rparr>
         in case zstd_enc c (bt_data b) of
              None \<Rightarrow> (False, drop_batch b w1)
            | Some compressed \<Rightarrow>
                (case seal_unit (sw_kind w) b compressed of
                   None \<Rightarrow> (False, drop_batch b w1)
                 | Some u \<Rightarrow>
                     (case enqueue u (make_room (sw_out w1)) of
                        (ok, a) \<Rightarrow> (ok, w1\<lparr>sw_out := a\<rparr>)))))"

definition seal_and_try_drain :: "codecs \<Rightarrow> writer \<Rightarrow> bool \<times> writer" where
  "seal_and_try_drain c w =
     (case seal c w of
        (False, w1) \<Rightarrow> (False, w1)
      | (True, w1) \<Rightarrow> (True, w1\<lparr>sw_out := snd (drain (sw_out w1))\<rparr>))"

definition batch_full :: "writer_kind \<Rightarrow> batch \<Rightarrow> bool" where
  "batch_full kind b =
     (case kind of
        KLegacy \<Rightarrow> batch_limit kind \<le> bt_uncompressed_bytes b
      | KChunked cc \<Rightarrow>
          cc_max_events cc \<le> bt_event_count b \<or> batch_limit kind \<le> bt_uncompressed_bytes b)"

definition needs_seal :: "bytes \<Rightarrow> writer \<Rightarrow> bool" where
  "needs_seal frame w \<longleftrightarrow>
     0 < bt_event_count (sw_batch w) \<and>
     batch_limit (sw_kind w) < bt_uncompressed_bytes (sw_batch w) + length frame"

definition write_event :: "codecs \<Rightarrow> event \<Rightarrow> writer \<Rightarrow> (codec_error + unit) \<times> writer" where
  "write_event c ev w =
     (case encode_frame c ev of
        Inl e \<Rightarrow> (Inl e, w)
      | Inr frame \<Rightarrow>
          (case (if needs_seal frame w then seal_and_try_drain c w else (True, w)) of
             (False, w1) \<Rightarrow> (Inl CodecIo, w1)
           | (True, w1) \<Rightarrow>
               (let w2 = w1\<lparr>sw_batch := batch_push frame ev (sw_batch w1)\<rparr>
                in case (if batch_full (sw_kind w2) (sw_batch w2)
                         then seal_and_try_drain c w2 else (True, w2)) of
                     (False, w3) \<Rightarrow> (Inl CodecIo, w3)
                   | (True, w3) \<Rightarrow> (Inr (), w3))))"

definition flush_min :: "writer_kind \<Rightarrow> nat" where
  "flush_min kind = (case kind of KLegacy \<Rightarrow> 0 | KChunked cc \<Rightarrow> cc_flush_min_bytes cc)"

text \<open>The final \<open>file.flush()\<close> of an unbuffered file does nothing.\<close>

definition flush :: "codecs \<Rightarrow> writer \<Rightarrow> bool \<times> writer" where
  "flush c w =
     (case (if 0 < bt_event_count (sw_batch w) \<and>
               flush_min (sw_kind w) \<le> bt_uncompressed_bytes (sw_batch w)
            then seal c w else (True, w)) of
        (sealed, w1) \<Rightarrow>
          (case drain (sw_out w1) of
             (drained, a) \<Rightarrow> (drained \<and> sealed, w1\<lparr>sw_out := a\<rparr>)))"

definition pending_events :: "appender \<Rightarrow> u64" where
  "pending_events a = sum_list (map (\<lambda>u. ucast (su_events u)) (ap_pending a))"

definition write_footer :: "codecs \<Rightarrow> appender \<Rightarrow> bool \<times> appender" where
  "write_footer c a =
     (let footer = write_footer_at c (ap_cursor a) (ap_index a)
      in case next_outcome a of
           (IoOk, a1) \<Rightarrow> (True, a1\<lparr>ap_file := file_write (ap_cursor a1) footer (ap_file a1)\<rparr>)
         | (IoFail n trunc _, a1) \<Rightarrow>
             (False, a1\<lparr>ap_file := file_torn (ap_cursor a1) footer n trunc (ap_file a1)\<rparr>))"

definition finalize_meta ::
  "i32 option \<Rightarrow> string \<Rightarrow> appender \<Rightarrow> session_end \<Rightarrow> session_end" where
  "finalize_meta exit_code ended a m =
     m\<lparr>se_exit_code := exit_code, se_ended := Some ended,
       se_event_count := Some (ap_written_events a),
       se_dropped_events :=
         (if 0 < ap_dropped_events a then Some (ap_dropped_events a) else se_dropped_events m)\<rparr>"

definition finalize :: "codecs \<Rightarrow> i32 option \<Rightarrow> string \<Rightarrow> writer \<Rightarrow> bool \<times> writer" where
  "finalize c exit_code ended w =
     (case seal c w of
        (sealed, w1) \<Rightarrow>
          (case drain (sw_out w1) of
             (drained, a) \<Rightarrow>
               (case (if \<not> drained
                      then (False, a\<lparr>ap_dropped_events := ap_dropped_events a + pending_events a\<rparr>)
                      else (case sw_kind w of
                              KLegacy \<Rightarrow> (True, a)
                            | KChunked _ \<Rightarrow> write_footer c a)) of
                  (closed, a1) \<Rightarrow>
                    (case persist_metadata
                       (w1\<lparr>sw_out := a1,
                          sw_metadata := finalize_meta exit_code ended a1 (sw_metadata w1)\<rparr>) of
                       (saved, w2) \<Rightarrow> (sealed \<and> closed \<and> saved, w2)))))"

definition finalize_with_signal ::
  "codecs \<Rightarrow> i32 option \<Rightarrow> i32 option \<Rightarrow> string \<Rightarrow> writer \<Rightarrow> bool \<times> writer" where
  "finalize_with_signal c exit_code term_signal ended w =
     finalize c exit_code ended
       (w\<lparr>sw_metadata := (sw_metadata w)\<lparr>se_term_signal := term_signal\<rparr>\<rparr>)"

end
