(* ===== verification/WriterFacts.thy ===== *)
theory WriterFacts
  imports SessionWriter
begin

text \<open>
  The invariant of the session writer.  The log of a writer is the events written to the file,
  the events of the units waiting for the disk and the events of the open batch; the file up to
  the cursor is its start followed by whole units, whatever the disk answered.
\<close>

section \<open>Groups of events and their units\<close>

definition compressed :: "codecs \<Rightarrow> event list \<Rightarrow> bytes" where
  "compressed c evs = the (zstd_enc c (encode_all c evs))"

fun is_chunked :: "writer_kind \<Rightarrow> bool" where
  "is_chunked KLegacy = False"
| "is_chunked (KChunked _) = True"

definition group_bytes :: "codecs \<Rightarrow> writer_kind \<Rightarrow> event list \<Rightarrow> bytes" where
  "group_bytes c kind evs =
     (if is_chunked kind then put_u32 (of_nat (length (compressed c evs))) else []) @ compressed c evs"

definition group_ok :: "codecs \<Rightarrow> writer_kind \<Rightarrow> event list \<Rightarrow> bool" where
  "group_ok c kind evs \<longleftrightarrow>
     evs \<noteq> [] \<and> list_all (storable c) evs \<and> length evs < 2 ^ 32 \<and>
     zstd_enc c (encode_all c evs) \<noteq> None \<and>
     (is_chunked kind \<longrightarrow> length (compressed c evs) \<le> MAX_CHUNK_BYTES)"

definition entry_for :: "codecs \<Rightarrow> event list \<Rightarrow> nat \<Rightarrow> chunk_index_entry \<Rightarrow> bool" where
  "entry_for c evs off e \<longleftrightarrow>
     ce_offset e = of_nat off \<and> ce_comp_len e = of_nat (length (compressed c evs)) \<and>
     ce_event_count e = of_nat (length evs) \<and> list_all (covers e) evs"

definition unit_for :: "codecs \<Rightarrow> writer_kind \<Rightarrow> event list \<Rightarrow> sealed_unit \<Rightarrow> bool" where
  "unit_for c kind evs u \<longleftrightarrow>
     group_ok c kind evs \<and> su_bytes u = group_bytes c kind evs \<and>
     su_events u = of_nat (length evs) \<and>
     (case su_entry u of
        None \<Rightarrow> \<not> is_chunked kind
      | Some e \<Rightarrow> is_chunked kind \<and> entry_for c evs 0 e)"

definition groups_bytes :: "codecs \<Rightarrow> writer_kind \<Rightarrow> event list list \<Rightarrow> bytes" where
  "groups_bytes c kind gs = concat (map (group_bytes c kind) gs)"

lemma groups_bytes_simps [simp]:
  "groups_bytes c kind [] = []"
  "groups_bytes c kind (g # gs) = group_bytes c kind g @ groups_bytes c kind gs"
  "groups_bytes c kind (gs @ hs) = groups_bytes c kind gs @ groups_bytes c kind hs"
  by (simp_all add: groups_bytes_def)

fun index_for :: "codecs \<Rightarrow> writer_kind \<Rightarrow> nat \<Rightarrow> event list list \<Rightarrow> chunk_index_entry list \<Rightarrow> bool" where
  "index_for c kind off [] [] = True"
| "index_for c kind off (g # gs) (e # es) =
     (entry_for c g off e \<and> index_for c kind (off + length (group_bytes c kind g)) gs es)"
| "index_for c kind off _ _ = False"

lemma index_for_append:
  "index_for c kind off gs es \<Longrightarrow>
     entry_for c g (off + length (groups_bytes c kind gs)) e \<Longrightarrow>
     index_for c kind off (gs @ [g]) (es @ [e])"
  by (induction c kind off gs es rule: index_for.induct) (simp_all add: add.assoc)

section \<open>The appender\<close>

text \<open>\<open>tidy\<close>: no attempt to cut the file back has failed or will.\<close>

fun outcome_tidy :: "io_outcome \<Rightarrow> bool" where
  "outcome_tidy IoOk = True"
| "outcome_tidy (IoFail n trunc msg) = trunc"

definition appender_holds ::
  "codecs \<Rightarrow> writer_kind \<Rightarrow> bytes \<Rightarrow> bool \<Rightarrow> appender \<Rightarrow> event list list \<Rightarrow> event list list \<Rightarrow> bool" where
  "appender_holds c kind base tidy a ws ps \<longleftrightarrow>
     ap_cursor a \<le> length (ap_file a) \<and>
     take (ap_cursor a) (ap_file a) = base @ groups_bytes c kind ws \<and>
     list_all (group_ok c kind) ws \<and>
     list_all2 (unit_for c kind) ps (ap_pending a) \<and>
     (if is_chunked kind then index_for c kind (length base) ws (ap_index a) else ap_index a = []) \<and>
     ap_written_events a = of_nat (length (concat ws)) \<and>
     (tidy \<longrightarrow> list_all outcome_tidy (ap_disk a) \<and> length (ap_file a) = ap_cursor a)"

lemma next_outcome_fields [simp]:
  assumes "next_outcome a = (out, a1)"
  shows "ap_file a1 = ap_file a" "ap_cursor a1 = ap_cursor a" "ap_pending a1 = ap_pending a"
    "ap_index a1 = ap_index a" "ap_written_events a1 = ap_written_events a"
    "ap_dropped_events a1 = ap_dropped_events a" "ap_pending_bytes a1 = ap_pending_bytes a"
    "ap_max_pending_bytes a1 = ap_max_pending_bytes a"
  using assms by (auto simp: next_outcome_def split: list.splits)

lemma next_outcome_tidy:
  "next_outcome a = (out, a1) \<Longrightarrow> list_all outcome_tidy (ap_disk a) \<Longrightarrow>
     outcome_tidy out \<and> list_all outcome_tidy (ap_disk a1)"
  by (cases "ap_disk a") (auto simp: next_outcome_def)

lemma appender_cursor:
  assumes "appender_holds c kind base tidy a ws ps"
  shows "ap_cursor a = length (base @ groups_bytes c kind ws)"
proof -
  from assms have "ap_cursor a \<le> length (ap_file a)"
    and "take (ap_cursor a) (ap_file a) = base @ groups_bytes c kind ws"
    by (simp_all add: appender_holds_def)
  then show ?thesis by (metis length_take min.absorb2)
qed

lemma next_outcome_holds:
  "next_outcome a = (out, a1) \<Longrightarrow> appender_holds c kind base tidy a ws ps \<Longrightarrow>
     appender_holds c kind base tidy a1 ws ps \<and> (tidy \<longrightarrow> outcome_tidy out)"
  using next_outcome_tidy [of a out a1] by (simp add: appender_holds_def)

lemma length_file_write:
  "pos \<le> length file \<Longrightarrow> length (file_write pos bs file) = max (length file) (pos + length bs)"
  by (simp add: file_write_def)

lemma take_file_write:
  "pos \<le> length file \<Longrightarrow> take pos (file_write pos bs file) = take pos file"
  by (simp add: file_write_def)

lemma take_file_write_all:
  "pos \<le> length file \<Longrightarrow> take (pos + length bs) (file_write pos bs file) = take pos file @ bs"
  by (simp add: file_write_def)

lemma file_torn_take:
  "pos \<le> length file \<Longrightarrow> take pos (file_torn pos bs n trunc file) = take pos file \<and>
     pos \<le> length (file_torn pos bs n trunc file) \<and>
     (trunc \<longrightarrow> length (file_torn pos bs n trunc file) = pos)"
  by (auto simp: file_torn_def take_file_write length_file_write)

lemma unit_written_holds:
  assumes "appender_holds c kind base tidy a ws (p # ps)" and "ap_pending a = u # us"
  shows "appender_holds c kind base tidy (unit_written u us a) (ws @ [p]) ps"
proof -
  from assms have u: "unit_for c kind p u" and us: "list_all2 (unit_for c kind) ps us"
    and le: "ap_cursor a \<le> length (ap_file a)"
    and pre: "take (ap_cursor a) (ap_file a) = base @ groups_bytes c kind ws"
    and ws: "list_all (group_ok c kind) ws"
    and idx: "if is_chunked kind then index_for c kind (length base) ws (ap_index a) else ap_index a = []"
    and wr: "ap_written_events a = of_nat (length (concat ws))"
    and td: "tidy \<longrightarrow> list_all outcome_tidy (ap_disk a) \<and> length (ap_file a) = ap_cursor a"
    by (simp_all add: appender_holds_def)
  note cur = appender_cursor [OF assms(1)]
  from u have bytes: "su_bytes u = group_bytes c kind p" and g: "group_ok c kind p"
    and n: "su_events u = of_nat (length p)" and small: "length p < 2 ^ 32"
    by (simp_all add: unit_for_def group_ok_def)
  have count: "ucast (su_events u) = (of_nat (length p) :: u64)"
  proof -
    have "unat (of_nat (length p) :: u32) = length p" using small by (simp add: unat_of_nat)
    then have "(of_nat (unat (of_nat (length p) :: u32)) :: u64) = of_nat (length p)"
      by (simp only:)
    then show ?thesis unfolding n of_nat_unat .
  qed
  have idx': "if is_chunked kind then index_for c kind (length base) (ws @ [p]) (ap_index (unit_written u us a))
      else ap_index (unit_written u us a) = []"
    using u idx index_for_append [of c kind "length base" ws "ap_index a" p] cur
    by (auto simp: unit_for_def unit_written_def entry_for_def covers_def list_all_iff split: option.splits)
  show ?thesis
    unfolding appender_holds_def
    using idx' us ws g le pre wr td bytes count
    by (simp add: unit_written_def take_file_write_all length_file_write add.assoc)
qed


lemma torn_holds:
  assumes "appender_holds c kind base tidy a ws ps" and "tidy \<longrightarrow> trunc"
  shows "appender_holds c kind base tidy
    (a\<lparr>ap_file := file_torn (ap_cursor a) bs n trunc (ap_file a), ap_last_error := err\<rparr>) ws ps"
  using assms file_torn_take [of "ap_cursor a" "ap_file a" bs n trunc]
  by (simp add: appender_holds_def)

lemma drain_units_holds:
  assumes "appender_holds c kind base tidy a ws ps" and "ap_pending a = us"
    and "drain_units us a = (ok, a')"
  shows "\<exists>ws' ps'. appender_holds c kind base tidy a' ws' ps' \<and> ws' @ ps' = ws @ ps \<and>
    (ok \<longrightarrow> ps' = []) \<and> ap_dropped_events a' = ap_dropped_events a"
  using assms
proof (induction us arbitrary: a ws ps)
  case Nil
  then have "ps = []" by (simp add: appender_holds_def)
  with Nil show ?case by (auto simp: appender_holds_def)
next
  case (Cons u us)
  obtain out a1 where o1: "next_outcome a = (out, a1)" by (cases "next_outcome a")
  from next_outcome_holds [OF o1 Cons.prems(1)]
  have a1: "appender_holds c kind base tidy a1 ws ps" and td: "tidy \<longrightarrow> outcome_tidy out" by simp_all
  note f = next_outcome_fields [OF o1]
  show ?case
  proof (cases out)
    case IoOk
    from Cons.prems(1,2) obtain q qs where ps: "ps = q # qs"
      by (auto simp: appender_holds_def list_all2_Cons2)
    have "appender_holds c kind base tidy (unit_written u us a1) (ws @ [q]) qs"
      using unit_written_holds [of c kind base tidy a1 ws q qs u us] a1 ps f Cons.prems(2) by simp
    moreover have "ap_pending (unit_written u us a1) = us" by (simp add: unit_written_def)
    moreover have "drain_units us (unit_written u us a1) = (ok, a')"
      using Cons.prems(3) o1 IoOk by simp
    ultimately obtain ws' ps' where "appender_holds c kind base tidy a' ws' ps'"
      "ws' @ ps' = (ws @ [q]) @ qs" "ok \<longrightarrow> ps' = []"
      "ap_dropped_events a' = ap_dropped_events (unit_written u us a1)"
      using Cons.IH by blast
    then show ?thesis using ps f by (intro exI [of _ ws'] exI [of _ ps']) (simp add: unit_written_def)
  next
    case (IoFail n trunc msg)
    then have "\<not> ok" and a': "a' = a1\<lparr>ap_file := file_torn (ap_cursor a1) (su_bytes u) n trunc (ap_file a1),
        ap_last_error := Some msg\<rparr>" using Cons.prems(3) o1 by auto
    moreover have "appender_holds c kind base tidy a' ws ps"
      using torn_holds [OF a1] td IoFail unfolding a' by simp
    ultimately show ?thesis using f by (intro exI [of _ ws] exI [of _ ps]) simp
  qed
qed

lemma drain_holds:
  assumes "appender_holds c kind base tidy a ws ps" and "drain a = (ok, a')"
  shows "\<exists>ws' ps'. appender_holds c kind base tidy a' ws' ps' \<and> ws' @ ps' = ws @ ps \<and>
    (ok \<longrightarrow> ps' = []) \<and> ap_dropped_events a' = ap_dropped_events a"
  using drain_units_holds [OF assms(1) refl] assms(2) by (simp add: drain_def)

lemma enqueue_holds:
  assumes "appender_holds c kind base tidy a ws ps" and "unit_for c kind p u"
    and "enqueue u a = (ok, a')"
  shows "appender_holds c kind base tidy a' ws (if ok then ps @ [p] else ps)"
    and "ap_dropped_events a' = ap_dropped_events a + (if ok then 0 else ucast (su_events u))"
  using assms
  by (auto simp: enqueue_def appender_holds_def list_all2_appendI split: if_splits)

section \<open>The batch\<close>

definition batch_holds :: "codecs \<Rightarrow> event list \<Rightarrow> batch \<Rightarrow> bool" where
  "batch_holds c bs b \<longleftrightarrow>
     list_all (storable c) bs \<and> bt_data b = encode_all c bs \<and>
     bt_event_count b = of_nat (length bs) \<and> bt_uncompressed_bytes b = length (bt_data b) \<and>
     4 * length bs \<le> length (bt_data b) \<and> length (bt_data b) \<le> MAX_FRAME_BYTES + 4 \<and>
     list_all (\<lambda>e. bt_min_ts b \<le> ts_mono_ns e \<and> ts_mono_ns e \<le> bt_max_ts b \<and>
       bit (bt_source_bitmap b) (as_u8 (ev_source e))) bs"

lemma batch_new_holds: "batch_holds c [] batch_new"
  by (simp add: batch_holds_def batch_new_def encode_all_def)

lemma batch_small: "batch_holds c bs b \<Longrightarrow> length bs < 2 ^ 32"
  by (simp add: batch_holds_def MAX_FRAME_BYTES_def)

lemma batch_count: "batch_holds c bs b \<Longrightarrow> bt_event_count b = 0 \<longleftrightarrow> bs = []"
proof -
  assume b: "batch_holds c bs b"
  then have "unat (bt_event_count b) = length bs"
    using batch_small [OF b] by (simp add: batch_holds_def unat_of_nat)
  moreover have "bt_event_count b = 0 \<longleftrightarrow> unat (bt_event_count b) = 0"
    by (simp only: unsigned_eq_0_iff)
  ultimately show ?thesis by simp
qed

lemma batch_push_holds:
  assumes "batch_holds c bs b" and "encode_frame c ev = Inr frame" and "cbor_ok c ev"
    and "bs = [] \<or> bt_uncompressed_bytes b + length frame \<le> MAX_FRAME_BYTES"
  shows "batch_holds c (bs @ [ev]) (batch_push frame ev b)"
proof -
  have "storable c ev" using assms(2,3) by (simp add: storable_def)
  moreover have "encode_all c (bs @ [ev]) = encode_all c bs @ frame"
    using assms(2) by (simp add: encode_all_def)
  moreover from length_encoded_frame [OF assms(2)]
  have "4 \<le> length frame" "length frame \<le> MAX_FRAME_BYTES + 4" by simp_all
  moreover have "bs = [] \<Longrightarrow> bt_data b = []" using assms(1) by (simp add: batch_holds_def encode_all_def)
  ultimately show ?thesis
    using assms(1,4) unfolding batch_holds_def batch_push_def
    by (auto simp: list_all_iff min.coboundedI1 max.coboundedI1 bit_or_iff bit_source_bit)
qed

lemma seal_unit_for:
  assumes "batch_holds c bs b" and "bs \<noteq> []" and "zstd_enc c (bt_data b) = Some z"
    and "seal_unit kind b z = Some u"
  shows "unit_for c kind bs u" and "su_events u = bt_event_count b"
proof -
  from assms(1,3) have z: "compressed c bs = z" and zz: "zstd_enc c (encode_all c bs) = Some z"
    by (simp_all add: compressed_def batch_holds_def)
  show "unit_for c kind bs u"
    using assms batch_small [OF assms(1)] z zz
    by (cases kind)
      (auto simp: unit_for_def group_ok_def group_bytes_def seal_unit_def entry_for_def covers_def
        batch_holds_def list_all_iff split: if_splits)
  show "su_events u = bt_event_count b"
    using assms(4) by (cases kind) (auto simp: seal_unit_def split: if_splits)
qed

end
