(* ===== verification/WriterLog.thy ===== *)
theory WriterLog
  imports WriterFacts "HOL-Library.Sublist"
begin

text \<open>
  The writer as a log: what each operation does to the events it holds, and to its count of
  dropped events, whatever the disk answers.
\<close>

section \<open>Losing events\<close>

definition loses :: "nat \<Rightarrow> event list \<Rightarrow> event list \<Rightarrow> bool" where
  "loses d xs ys \<longleftrightarrow> subseq ys xs \<and> length ys + d = length xs"

lemma loses_refl [simp]: "loses 0 xs xs"
  by (simp add: loses_def)

lemma loses_0 [simp]: "loses 0 xs ys \<longleftrightarrow> ys = xs"
  by (auto simp: loses_def subseq_same_length)

lemma loses_trans: "loses d xs ys \<Longrightarrow> loses d' ys zs \<Longrightarrow> loses (d + d') xs zs"
  by (auto simp: loses_def intro: subseq_order.trans)

lemma loses_append: "loses d xs ys \<Longrightarrow> loses d (xs @ zs) (ys @ zs)"
  by (simp add: loses_def)

lemma loses_tail: "loses (length zs) (xs @ zs) xs"
  by (simp add: loses_def subseq_rev_drop_many)

lemma ucast_of_nat32:
  assumes "n < 2 ^ 32"
  shows "ucast (of_nat n :: u32) = (of_nat n :: u64)"
proof -
  have "unat (of_nat n :: u32) = n" using assms by (simp add: unat_of_nat)
  then have "(of_nat (unat (of_nat n :: u32)) :: u64) = of_nat n" by (simp only:)
  then show ?thesis unfolding of_nat_unat .
qed

section \<open>The writer's invariant\<close>

definition writer_holds ::
  "codecs \<Rightarrow> bytes \<Rightarrow> bool \<Rightarrow> writer \<Rightarrow> event list list \<Rightarrow> event list list \<Rightarrow> event list \<Rightarrow> bool" where
  "writer_holds c base tidy w ws ps bs \<longleftrightarrow>
     appender_holds c (sw_kind w) base tidy (sw_out w) ws ps \<and> batch_holds c bs (sw_batch w)"

abbreviation dropped :: "writer \<Rightarrow> u64" where
  "dropped w \<equiv> ap_dropped_events (sw_out w)"

lemma drop_batch_fields [simp]:
  "sw_kind (drop_batch b w) = sw_kind w" "sw_batch (drop_batch b w) = sw_batch w"
  "dropped (drop_batch b w) = dropped w + ucast (bt_event_count b)"
  by (simp_all add: drop_batch_def)

lemma drop_batch_holds:
  assumes "writer_holds c base tidy w ws ps bs"
  shows "writer_holds c base tidy (drop_batch (sw_batch w) (w\<lparr>sw_batch := batch_new\<rparr>)) ws ps []"
    and "dropped (drop_batch (sw_batch w) (w\<lparr>sw_batch := batch_new\<rparr>)) =
      dropped w + of_nat (length bs)"
proof -
  from assms have b: "batch_holds c bs (sw_batch w)" by (simp add: writer_holds_def)
  show "writer_holds c base tidy (drop_batch (sw_batch w) (w\<lparr>sw_batch := batch_new\<rparr>)) ws ps []"
    using assms batch_new_holds by (simp add: writer_holds_def drop_batch_def appender_holds_def)
  show "dropped (drop_batch (sw_batch w) (w\<lparr>sw_batch := batch_new\<rparr>)) = dropped w + of_nat (length bs)"
    using b ucast_of_nat32 [OF batch_small [OF b]] by (simp add: batch_holds_def)
qed

lemma make_room_holds:
  assumes "appender_holds c kind base tidy a ws ps"
  shows "\<exists>ws' ps'. appender_holds c kind base tidy (make_room a) ws' ps' \<and> ws' @ ps' = ws @ ps \<and>
    ap_dropped_events (make_room a) = ap_dropped_events a"
proof (cases "ap_pending a = []")
  case True
  then show ?thesis using assms by (auto simp: make_room_def)
next
  case False
  obtain ok a' where "drain a = (ok, a')" by (cases "drain a")
  with drain_holds [OF assms this] False show ?thesis by (auto simp: make_room_def)
qed

lemma seal_holds:
  assumes "writer_holds c base tidy w ws ps bs" and "seal c w = (ok, w')"
  shows "\<exists>ws' ps' d. writer_holds c base tidy w' ws' ps' [] \<and>
    loses d (concat (ws @ ps) @ bs) (concat (ws' @ ps')) \<and>
    dropped w' = dropped w + of_nat d \<and> (ok \<longleftrightarrow> d = 0) \<and> sw_kind w' = sw_kind w"
proof (cases "bs = []")
  case True
  with assms have "ok" and "w' = w" by (auto simp: writer_holds_def seal_def batch_count)
  with assms(1) True show ?thesis by (intro exI [of _ ws] exI [of _ ps] exI [of _ 0]) simp
next
  case False
  from assms(1) have b: "batch_holds c bs (sw_batch w)"
    and a: "appender_holds c (sw_kind w) base tidy (sw_out w) ws ps" by (simp_all add: writer_holds_def)
  have ne: "bt_event_count (sw_batch w) \<noteq> 0" using False batch_count [OF b] by simp
  let ?w = "w\<lparr>sw_batch := batch_new\<rparr>"
  note lost = drop_batch_holds [OF assms(1)]
  have tail: "loses (length bs) (concat (ws @ ps) @ bs) (concat (ws @ ps))" by (rule loses_tail)
  consider "zstd_enc c (bt_data (sw_batch w)) = None"
    | z where "zstd_enc c (bt_data (sw_batch w)) = Some z" "seal_unit (sw_kind w) (sw_batch w) z = None"
    | z u where "zstd_enc c (bt_data (sw_batch w)) = Some z" "seal_unit (sw_kind w) (sw_batch w) z = Some u"
    by (cases "zstd_enc c (bt_data (sw_batch w))"; blast)
  then show ?thesis
  proof cases
    case 1
    with assms(2) ne have "\<not> ok" "w' = drop_batch (sw_batch w) ?w" by (auto simp: seal_def Let_def)
    with lost tail False show ?thesis
      by (intro exI [of _ ws] exI [of _ ps] exI [of _ "length bs"]) simp
  next
    case 2
    with assms(2) ne have "\<not> ok" "w' = drop_batch (sw_batch w) ?w" by (auto simp: seal_def Let_def)
    with lost tail False show ?thesis
      by (intro exI [of _ ws] exI [of _ ps] exI [of _ "length bs"]) simp
  next
    case 3
    note u = seal_unit_for [OF b False 3]
    from make_room_holds [OF a] obtain ws1 ps1 where
      room: "appender_holds c (sw_kind w) base tidy (make_room (sw_out w)) ws1 ps1"
      "ws1 @ ps1 = ws @ ps" "ap_dropped_events (make_room (sw_out w)) = dropped w" by blast
    obtain a' where e: "enqueue u (make_room (sw_out w)) = (ok, a')" and w': "w' = ?w\<lparr>sw_out := a'\<rparr>"
      using assms(2) 3 ne by (auto simp: seal_def Let_def split: prod.splits)
    note enq = enqueue_holds [OF room(1) u(1) e]
    have count: "ucast (su_events u) = (of_nat (length bs) :: u64)"
      using b ucast_of_nat32 [OF batch_small [OF b]] u(2) by (simp add: batch_holds_def)
    have "writer_holds c base tidy w' ws1 (if ok then ps1 @ [bs] else ps1) []"
      using enq(1) batch_new_holds by (simp add: writer_holds_def w')
    moreover have "concat (ws1 @ ps1) = concat (ws @ ps)" using room(2) by simp
    ultimately show ?thesis using enq(2) room(3) count tail False w'
      by (intro exI [of _ ws1] exI [of _ "if ok then ps1 @ [bs] else ps1"]
          exI [of _ "if ok then 0 else length bs"]) auto
  qed
qed

definition log_holds :: "codecs \<Rightarrow> bytes \<Rightarrow> bool \<Rightarrow> writer \<Rightarrow> event list \<Rightarrow> bool" where
  "log_holds c base tidy w xs \<longleftrightarrow>
     (\<exists>ws ps bs. writer_holds c base tidy w ws ps bs \<and> xs = concat (ws @ ps) @ bs)"

lemma drain_writer_holds:
  assumes "writer_holds c base tidy w ws ps bs" and "drain (sw_out w) = (ok, a)"
  shows "\<exists>ws' ps'. writer_holds c base tidy (w\<lparr>sw_out := a\<rparr>) ws' ps' bs \<and> ws' @ ps' = ws @ ps \<and>
    (ok \<longrightarrow> ps' = []) \<and> ap_dropped_events a = dropped w"
  using drain_holds [of c "sw_kind w" base tidy "sw_out w" ws ps ok a] assms
  by (auto simp: writer_holds_def)

lemma seal_and_try_drain_holds:
  assumes "writer_holds c base tidy w ws ps bs" and "seal_and_try_drain c w = (ok, w')"
  shows "\<exists>ws' ps' d. writer_holds c base tidy w' ws' ps' [] \<and>
    loses d (concat (ws @ ps) @ bs) (concat (ws' @ ps')) \<and>
    dropped w' = dropped w + of_nat d \<and> (ok \<longleftrightarrow> d = 0) \<and> sw_kind w' = sw_kind w"
proof -
  obtain ok1 w1 where s: "seal c w = (ok1, w1)" by (cases "seal c w")
  from seal_holds [OF assms(1) this] obtain ws1 ps1 d where
    h: "writer_holds c base tidy w1 ws1 ps1 []" "loses d (concat (ws @ ps) @ bs) (concat (ws1 @ ps1))"
    "dropped w1 = dropped w + of_nat d" "ok1 \<longleftrightarrow> d = 0" "sw_kind w1 = sw_kind w" by blast
  show ?thesis
  proof (cases ok1)
    case False
    with s assms(2) have "w' = w1" "\<not> ok" by (auto simp: seal_and_try_drain_def)
    with h False show ?thesis by (intro exI [of _ ws1] exI [of _ ps1] exI [of _ d]) simp
  next
    case True
    obtain ok2 a where dr: "drain (sw_out w1) = (ok2, a)" by (cases "drain (sw_out w1)")
    with True s assms(2) have w': "w' = w1\<lparr>sw_out := a\<rparr>" and "ok"
      by (auto simp: seal_and_try_drain_def)
    from drain_writer_holds [OF h(1) dr] obtain ws2 ps2 where
      "writer_holds c base tidy w' ws2 ps2 []" "ws2 @ ps2 = ws1 @ ps1"
      "ap_dropped_events a = dropped w1" unfolding w' by blast
    with h True \<open>ok\<close> w' show ?thesis
      by (intro exI [of _ ws2] exI [of _ ps2] exI [of _ d]) simp
  qed
qed


section \<open>Writing and flushing\<close>

lemma batch_limit_le: "batch_limit kind \<le> MAX_FRAME_BYTES"
  by (cases kind) (simp_all add: batch_limit_def LEGACY_FRAME_BYTES_def MAX_FRAME_BYTES_def)

lemma write_event_holds:
  assumes "log_holds c base tidy w xs" and "write_event c ev w = (r, w')" and "cbor_ok c ev"
  shows "\<exists>xs' d pushed. log_holds c base tidy w' xs' \<and>
    loses d (if pushed then xs @ [ev] else xs) xs' \<and> dropped w' = dropped w + of_nat d \<and>
    (r = Inr () \<longleftrightarrow> pushed \<and> d = 0) \<and> sw_kind w' = sw_kind w"
proof (cases "encode_frame c ev")
  case (Inl e)
  with assms(2) have "r = Inl e" "w' = w" by (auto simp: write_event_def)
  with assms(1) show ?thesis by (intro exI [of _ xs] exI [of _ 0] exI [of _ False]) simp
next
  case (Inr frame)
  from assms(1) obtain ws ps bs where w: "writer_holds c base tidy w ws ps bs"
    "xs = concat (ws @ ps) @ bs" by (auto simp: log_holds_def)
  obtain ok1 w1 where s1:
    "(if needs_seal frame w then seal_and_try_drain c w else (True, w)) = (ok1, w1)" by fastforce
  have "\<exists>ws1 ps1 bs1 d. writer_holds c base tidy w1 ws1 ps1 bs1 \<and>
      loses d xs (concat (ws1 @ ps1) @ bs1) \<and> dropped w1 = dropped w + of_nat d \<and>
      (ok1 \<longleftrightarrow> d = 0) \<and> sw_kind w1 = sw_kind w \<and>
      (bs1 = [] \<or> bt_uncompressed_bytes (sw_batch w1) + length frame \<le> MAX_FRAME_BYTES)"
  proof (cases "needs_seal frame w")
    case True
    with s1 have "seal_and_try_drain c w = (ok1, w1)" by simp
    from seal_and_try_drain_holds [OF w(1) this] show ?thesis using w(2) by fastforce
  next
    case False
    with s1 have "ok1" "w1 = w" by auto
    moreover have "bs = [] \<or> bt_uncompressed_bytes (sw_batch w) + length frame \<le> MAX_FRAME_BYTES"
      using False w(1) batch_limit_le [of "sw_kind w"]
      by (auto simp: needs_seal_def writer_holds_def batch_count word_gt_0 not_less)
    ultimately show ?thesis using w by (intro exI [of _ ws] exI [of _ ps] exI [of _ bs] exI [of _ 0]) simp
  qed
  then obtain ws1 ps1 bs1 d where h: "writer_holds c base tidy w1 ws1 ps1 bs1"
    "loses d xs (concat (ws1 @ ps1) @ bs1)" "dropped w1 = dropped w + of_nat d"
    "ok1 \<longleftrightarrow> d = 0" "sw_kind w1 = sw_kind w"
    "bs1 = [] \<or> bt_uncompressed_bytes (sw_batch w1) + length frame \<le> MAX_FRAME_BYTES" by blast
  show ?thesis
  proof (cases ok1)
    case False
    with s1 Inr assms(2) have "r = Inl CodecIo" "w' = w1" by (auto simp: write_event_def)
    with h False show ?thesis
      by (intro exI [of _ "concat (ws1 @ ps1) @ bs1"] exI [of _ d] exI [of _ False])
        (auto simp: log_holds_def)
  next
    case True
    let ?w = "w1\<lparr>sw_batch := batch_push frame ev (sw_batch w1)\<rparr>"
    have w2: "writer_holds c base tidy ?w ws1 ps1 (bs1 @ [ev])"
      using h(1) batch_push_holds [OF _ Inr assms(3) h(6)] by (simp add: writer_holds_def)
    obtain ok2 w3 where s2: "(if batch_full (sw_kind ?w) (sw_batch ?w)
        then seal_and_try_drain c ?w else (True, ?w)) = (ok2, w3)" by fastforce
    have r: "r = (if ok2 then Inr () else Inl CodecIo)" "w' = w3"
      using assms(2) Inr s1 s2 True by (cases ok2; auto simp: write_event_def Let_def)+
    have "\<exists>ys d2. log_holds c base tidy w3 ys \<and> loses d2 (xs @ [ev]) ys \<and>
        dropped w3 = dropped w + of_nat d2 \<and> (ok2 \<longleftrightarrow> d2 = 0) \<and> sw_kind w3 = sw_kind w"
    proof (cases "batch_full (sw_kind ?w) (sw_batch ?w)")
      case full: True
      with s2 have "seal_and_try_drain c ?w = (ok2, w3)" by simp
      from seal_and_try_drain_holds [OF w2 this] obtain ws3 ps3 d2 where
        "writer_holds c base tidy w3 ws3 ps3 []" 
        "loses d2 (concat (ws1 @ ps1) @ bs1 @ [ev]) (concat (ws3 @ ps3))"
        "dropped w3 = dropped ?w + of_nat d2" "ok2 \<longleftrightarrow> d2 = 0" "sw_kind w3 = sw_kind ?w" by blast
      with h True show ?thesis
        by (intro exI [of _ "concat (ws3 @ ps3)"] exI [of _ d2]) (auto simp: log_holds_def)
    next
      case False
      with s2 have "ok2" "w3 = ?w" by auto
      moreover have "log_holds c base tidy ?w (xs @ [ev])"
        using w2 h(2,4) True unfolding log_holds_def
        by (intro exI [of _ ws1] exI [of _ ps1] exI [of _ "bs1 @ [ev]"]) simp
      ultimately show ?thesis using h True by (intro exI [of _ "xs @ [ev]"] exI [of _ 0]) simp
    qed
    then obtain ys d2 where "log_holds c base tidy w3 ys" "loses d2 (xs @ [ev]) ys"
      "dropped w3 = dropped w + of_nat d2" "ok2 \<longleftrightarrow> d2 = 0" "sw_kind w3 = sw_kind w" by blast
    with r show ?thesis by (intro exI [of _ ys] exI [of _ d2] exI [of _ True]) auto
  qed
qed

lemma flush_holds:
  assumes "log_holds c base tidy w xs" and "flush c w = (ok, w')"
  shows "\<exists>ws ps bs d. writer_holds c base tidy w' ws ps bs \<and>
    loses d xs (concat (ws @ ps) @ bs) \<and> dropped w' = dropped w + of_nat d \<and>
    (ok \<longrightarrow> d = 0 \<and> ps = [] \<and> (flush_min (sw_kind w) = 0 \<longrightarrow> bs = [])) \<and> sw_kind w' = sw_kind w"
proof -
  from assms(1) obtain ws ps bs where w: "writer_holds c base tidy w ws ps bs"
    "xs = concat (ws @ ps) @ bs" by (auto simp: log_holds_def)
  obtain ok1 w1 where s1: "(if 0 < bt_event_count (sw_batch w) \<and>
      flush_min (sw_kind w) \<le> bt_uncompressed_bytes (sw_batch w) then seal c w else (True, w)) = (ok1, w1)"
    by fastforce
  have "\<exists>ws1 ps1 bs1 d. writer_holds c base tidy w1 ws1 ps1 bs1 \<and>
      loses d xs (concat (ws1 @ ps1) @ bs1) \<and> dropped w1 = dropped w + of_nat d \<and>
      (ok1 \<longleftrightarrow> d = 0) \<and> sw_kind w1 = sw_kind w \<and> (flush_min (sw_kind w) = 0 \<longrightarrow> bs1 = [])"
  proof (cases "0 < bt_event_count (sw_batch w) \<and>
      flush_min (sw_kind w) \<le> bt_uncompressed_bytes (sw_batch w)")
    case True
    with s1 have "seal c w = (ok1, w1)" by simp
    from seal_holds [OF w(1) this] show ?thesis using w(2) by fastforce
  next
    case False
    then have "flush_min (sw_kind w) = 0 \<Longrightarrow> bt_event_count (sw_batch w) = 0"
      by (simp add: word_gt_0)
    with w(1) have "flush_min (sw_kind w) = 0 \<longrightarrow> bs = []"
      using batch_count [of c bs "sw_batch w"] by (auto simp: writer_holds_def)
    moreover from False s1 have "ok1" "w1 = w" by (auto split: if_splits)
    ultimately show ?thesis using w by (intro exI [of _ ws] exI [of _ ps] exI [of _ bs] exI [of _ 0]) simp
  qed
  then obtain ws1 ps1 bs1 d where h: "writer_holds c base tidy w1 ws1 ps1 bs1"
    "loses d xs (concat (ws1 @ ps1) @ bs1)" "dropped w1 = dropped w + of_nat d"
    "ok1 \<longleftrightarrow> d = 0" "sw_kind w1 = sw_kind w" "flush_min (sw_kind w) = 0 \<longrightarrow> bs1 = []"
    by (elim exE conjE) (rule that)
  obtain ok2 a where dr: "drain (sw_out w1) = (ok2, a)" by (cases "drain (sw_out w1)")
  have r: "w' = w1\<lparr>sw_out := a\<rparr>" "ok = (ok2 \<and> ok1)"
    using assms(2) s1 dr by (auto simp: flush_def)
  from drain_writer_holds [OF h(1) dr] obtain ws2 ps2 where
    "writer_holds c base tidy w' ws2 ps2 bs1" "ws2 @ ps2 = ws1 @ ps1" "ok2 \<longrightarrow> ps2 = []"
    "ap_dropped_events a = dropped w1" unfolding r by blast
  with h r show ?thesis
    by (intro exI [of _ ws2] exI [of _ ps2] exI [of _ bs1] exI [of _ d]) simp
qed

section \<open>Runs\<close>

datatype writer_op = WriteEvent event | FlushWriter

text \<open>The events whose \<open>write_event\<close> returned \<open>Ok\<close>, in order.\<close>

fun writer_run :: "codecs \<Rightarrow> writer_op list \<Rightarrow> writer \<Rightarrow> event list \<times> writer" where
  "writer_run c [] w = ([], w)"
| "writer_run c (WriteEvent ev # ops) w =
     (case write_event c ev w of
        (r, w1) \<Rightarrow> (case writer_run c ops w1 of
           (acks, w2) \<Rightarrow> (if r = Inr () then ev # acks else acks, w2)))"
| "writer_run c (FlushWriter # ops) w = writer_run c ops (snd (flush c w))"

fun offered :: "writer_op list \<Rightarrow> event list" where
  "offered [] = []"
| "offered (WriteEvent ev # ops) = ev # offered ops"
| "offered (FlushWriter # ops) = offered ops"

lemma writer_run_holds:
  assumes "log_holds c base tidy w xs" and "writer_run c ops w = (acks, w')"
    and "list_all (cbor_ok c) (offered ops)"
  shows "\<exists>xs' d. log_holds c base tidy w' xs' \<and> subseq xs' (xs @ offered ops) \<and>
    dropped w' = dropped w + of_nat d \<and> (d = 0 \<longrightarrow> xs' = xs @ acks) \<and>
    length (xs @ acks) \<le> length xs' + d \<and> length xs' + d \<le> length (xs @ offered ops) \<and>
    sw_kind w' = sw_kind w"
  using assms
proof (induction ops arbitrary: w xs acks)
  case Nil
  then show ?case by (intro exI [of _ xs] exI [of _ 0]) simp
next
  case (Cons op ops)
  show ?case
  proof (cases op)
    case FlushWriter
    obtain ok w1 where fl: "flush c w = (ok, w1)" by (cases "flush c w")
    from flush_holds [OF Cons.prems(1) fl] obtain xs1 d where
      h: "log_holds c base tidy w1 xs1" "loses d xs xs1" "dropped w1 = dropped w + of_nat d"
      "sw_kind w1 = sw_kind w" unfolding log_holds_def by blast
    have "writer_run c ops w1 = (acks, w')" using Cons.prems(2) FlushWriter fl by simp
    with Cons.IH [OF h(1)] Cons.prems(3) FlushWriter obtain xs' d' where
      i: "log_holds c base tidy w' xs'" "subseq xs' (xs1 @ offered ops)"
      "dropped w' = dropped w1 + of_nat d'" "d' = 0 \<longrightarrow> xs' = xs1 @ acks"
      "length (xs1 @ acks) \<le> length xs' + d'" "length xs' + d' \<le> length (xs1 @ offered ops)"
      "sw_kind w' = sw_kind w1" by auto
    have "subseq xs1 xs" "length xs1 + d = length xs" using h(2) by (simp_all add: loses_def)
    then have "subseq (xs1 @ offered ops) (xs @ offered ops)" by simp
    with i(2) have "subseq xs' (xs @ offered ops)" by (rule subseq_order.trans)
    moreover have "d + d' = 0 \<longrightarrow> xs' = xs @ acks" using h(2) i(4) by auto
    ultimately show ?thesis using FlushWriter h i \<open>length xs1 + d = length xs\<close>
      by (intro exI [of _ xs'] exI [of _ "d + d'"]) auto
  next
    case (WriteEvent ev)
    obtain r w1 where wr: "write_event c ev w = (r, w1)" by (cases "write_event c ev w")
    obtain acks1 w2 where run: "writer_run c ops w1 = (acks1, w2)" by (cases "writer_run c ops w1")
    have eq: "w' = w2" "acks = (if r = Inr () then ev # acks1 else acks1)"
      using Cons.prems(2) WriteEvent wr run by auto
    from Cons.prems(3) WriteEvent have "cbor_ok c ev" by simp
    from write_event_holds [OF Cons.prems(1) wr this] obtain xs1 d pushed where
      h: "log_holds c base tidy w1 xs1" "loses d (if pushed then xs @ [ev] else xs) xs1"
      "dropped w1 = dropped w + of_nat d" "r = Inr () \<longleftrightarrow> pushed \<and> d = 0" "sw_kind w1 = sw_kind w"
      by blast
    from Cons.IH [OF h(1)] run eq(1) Cons.prems(3) WriteEvent obtain xs' d' where
      i: "log_holds c base tidy w' xs'" "subseq xs' (xs1 @ offered ops)"
      "dropped w' = dropped w1 + of_nat d'" "d' = 0 \<longrightarrow> xs' = xs1 @ acks1"
      "length (xs1 @ acks1) \<le> length xs' + d'" "length xs' + d' \<le> length (xs1 @ offered ops)"
      "sw_kind w' = sw_kind w1" by auto
    have len: "length xs1 + d = length xs + (if pushed then 1 else 0)"
      using h(2) by (auto simp: loses_def split: if_splits)
    have "subseq xs1 (xs @ [ev])" using h(2)
      by (auto simp: loses_def split: if_splits intro: subseq_rev_drop_many)
    then have "subseq (xs1 @ offered ops) ((xs @ [ev]) @ offered ops)" by (simp only: subseq_append)
    with i(2) have "subseq xs' ((xs @ [ev]) @ offered ops)" by (rule subseq_order.trans)
    moreover have "d + d' = 0 \<longrightarrow> xs' = xs @ acks" using h(2,4) i(4) eq(2) by (auto split: if_splits)
    moreover have "length (xs @ acks) \<le> length xs' + (d + d')"
      using i(5) len eq(2) h(4) by (auto split: if_splits)
    ultimately show ?thesis using WriteEvent h i len
      by (intro exI [of _ xs'] exI [of _ "d + d'"]) (auto split: if_splits)
  qed
qed

end
