(* ===== verification/ParserFacts.thy ===== *)
theory ParserFacts
  imports SessionReader
begin

text \<open>
  The frame parser of the reader, fed the decompressed data in pieces of any size, delivers what
  \<open>read_frame\<close> reads from the whole data.
\<close>

definition nonstop :: "'u callback \<Rightarrow> bool" where
  "nonstop f \<longleftrightarrow> (\<forall>u e. \<not> snd (f u e))"

lemma nonstop_collect [simp]: "nonstop collect"
  by (simp add: nonstop_def collect_def)

lemma sink_push_running:
  "nonstop f \<Longrightarrow> \<not> sk_stopped sk \<Longrightarrow> \<not> sk_stopped (sink_push flt f e sk)"
  by (auto simp: sink_push_def Let_def nonstop_def split: option.splits prod.splits dest: spec)
    (metis snd_conv)+

lemma push_all_running: "nonstop f \<Longrightarrow> \<not> sk_stopped sk \<Longrightarrow> \<not> sk_stopped (push_all flt f es sk)"
  by (induction es arbitrary: sk) (simp_all add: sink_push_running Let_def)

lemma push_all_Cons:
  "nonstop f \<Longrightarrow> \<not> sk_stopped sk \<Longrightarrow>
     push_all flt f (e # es) sk = push_all flt f es (sink_push flt f e sk)"
  by (simp add: Let_def sink_push_running)

lemma push_all_append:
  "nonstop f \<Longrightarrow> \<not> sk_stopped sk \<Longrightarrow>
     push_all flt f (xs @ ys) sk = push_all flt f ys (push_all flt f xs sk)"
  by (induction xs arbitrary: sk) (simp_all add: Let_def sink_push_running)

section \<open>Parsing a buffer\<close>

function whole ::
  "('a) codecs_scheme \<Rightarrow> bytes \<Rightarrow> nat \<Rightarrow> event list \<times> nat \<times> (nat \<times> codec_error) option" where
  "whole c buf p =
     (if length buf < p + 4 then ([], p, None)
      else
        (let len = u32_at buf p
         in if MAX_FRAME_BYTES < unat len
            then ([], p, Some (p + 4, FrameTooLarge len MAX_FRAME_BYTES))
            else if length buf < p + 4 + unat len then ([], p, None)
            else (case cbor_dec c (take (unat len) (drop (p + 4) buf)) of
                    None \<Rightarrow> ([], p, Some (p + 4 + unat len, CborDecode))
                  | Some ev \<Rightarrow>
                      (case whole c buf (p + 4 + unat len) of (evs, n, e) \<Rightarrow> (ev # evs, n, e)))))"
  by pat_completeness auto
termination
  by (relation "measure (\<lambda>(c, buf, p). length buf - p)") auto

declare whole.simps [simp del]

definition failed_at :: "nat \<Rightarrow> codec_error \<Rightarrow> parser \<Rightarrow> problem" where
  "failed_at pos e p = UndecodableData (fp_base p + pos) (fp_at p) e"

lemma push_decoded_whole:
  assumes "split_from buf q = (frames, consumed, bad)" and "whole c buf q = (evs, n, err)"
    and "nonstop f" and "\<not> sk_stopped sk"
  shows "push_decoded flt f (zip frames (decode_frames_in c buf frames)) (p, sk, pb) =
      (True, p, push_all flt f evs sk, pb) \<and> n = consumed \<and> err = bad \<or>
    (\<exists>pos e. err = Some (pos, e) \<and>
      push_decoded flt f (zip frames (decode_frames_in c buf frames)) (p, sk, pb) =
        (False, p\<lparr>fp_failed := True, fp_carry := []\<rparr>, push_all flt f evs sk,
         pb @ [failed_at pos e p]))"
  using assms
proof (induction buf q arbitrary: frames consumed bad evs n err sk rule: split_from.induct)
  case (1 buf q)
  let ?len = "u32_at buf q"
  show ?case
  proof (cases "length buf < q + 4 \<or> MAX_FRAME_BYTES < unat ?len \<or> length buf < q + 4 + unat ?len")
    case True
    then have "frames = []" "evs = []" "n = consumed" "err = bad"
      using 1(2,3) by (auto simp: split_from.simps [of buf q] whole.simps [of c buf q] Let_def
          split: if_splits)
    then show ?thesis by (simp add: decode_frames_in_def)
  next
    case False
    obtain fr' where s: "split_from buf (q + 4 + unat ?len) = (fr', consumed, bad)"
      and fr: "frames = (q, unat ?len) # fr'"
      using 1(2) False by (auto simp: split_from.simps [of buf q] Let_def split: prod.splits)
    show ?thesis
    proof (cases "cbor_dec c (take (unat ?len) (drop (q + 4) buf))")
      case None
      then have "evs = []" "err = Some (q + 4 + unat ?len, CborDecode)"
        using 1(3) False by (auto simp: whole.simps [of c buf q] Let_def)
      with None fr show ?thesis
        by (simp add: decode_frames_in_def decode_at_def parser_fail_def failed_at_def)
    next
      case (Some ev)
      obtain es where w: "whole c buf (q + 4 + unat ?len) = (es, n, err)" and evs: "evs = ev # es"
        using 1(3) False Some by (auto simp: whole.simps [of c buf q] Let_def split: prod.splits)
      note run = sink_push_running [OF 1(4,5), of flt ev]
      have "\<not> length buf < q + 4" "\<not> MAX_FRAME_BYTES < unat ?len" "\<not> length buf < q + 4 + unat ?len"
        using False by simp_all
      from 1(1) [OF this(1) refl this(2,3) s w 1(4) run] fr Some evs run 1(4,5) show ?thesis
        by (simp add: decode_frames_in_def decode_at_def Let_def)
    qed
  qed
qed

lemma parser_feed_whole:
  assumes "whole c (fp_carry p @ data) 0 = (evs, n, err)" and "nonstop f"
    and "\<not> sk_stopped sk" and "\<not> fp_failed p"
  shows "parser_feed c flt f data (p, sk, pb) =
    (case err of
       None \<Rightarrow> (p\<lparr>fp_carry := drop n (fp_carry p @ data), fp_base := fp_base p + n\<rparr>,
                push_all flt f evs sk, pb)
     | Some (pos, e) \<Rightarrow> (p\<lparr>fp_failed := True, fp_carry := []\<rparr>, push_all flt f evs sk,
                        pb @ [failed_at pos e p]))"
proof -
  obtain frames consumed bad where s: "split_from (fp_carry p @ data) 0 = (frames, consumed, bad)"
    by (cases "split_from (fp_carry p @ data) 0")
  from push_decoded_whole [OF s assms(1,2,3), of flt "p\<lparr>fp_carry := fp_carry p @ data\<rparr>" pb] assms(3,4) s
  show ?thesis
    by (auto simp: parser_feed_def split_frames_def parser_fail_def failed_at_def
        split: option.splits)
qed

section \<open>Pieces\<close>

lemma whole_append:
  assumes "whole c buf p = (evs, n, err)"
  shows "whole c (buf @ ext) p =
    (case err of
       Some e \<Rightarrow> (evs, n, Some e)
     | None \<Rightarrow> (case whole c (buf @ ext) n of (evs', n', e) \<Rightarrow> (evs @ evs', n', e)))"
  using assms
proof (induction c buf p arbitrary: evs rule: whole.induct)
  case (1 c buf p)
  let ?len = "u32_at buf p"
  show ?case
  proof (cases "length buf < p + 4 \<or> \<not> MAX_FRAME_BYTES < unat ?len \<and> length buf < p + 4 + unat ?len")
    case True
    then have "evs = []" "n = p" "err = None"
      using 1(2) by (auto simp: whole.simps [of c buf p] Let_def split: if_splits)
    then show ?thesis by (simp split: prod.splits)
  next
    case False
    then have at: "u32_at (buf @ ext) p = ?len" by (simp add: u32_at_def)
    show ?thesis
    proof (cases "MAX_FRAME_BYTES < unat ?len")
      case True
      with False 1(2) have "evs = []" "n = p" "err = Some (p + 4, FrameTooLarge ?len MAX_FRAME_BYTES)"
        by (auto simp: whole.simps [of c buf p] Let_def)
      with True False at show ?thesis by (simp add: whole.simps [of c "buf @ ext" p] Let_def)
    next
      case small: False
      with False have len: "p + 4 + unat ?len \<le> length buf" by simp
      then have body: "take (unat ?len) (drop (p + 4) (buf @ ext)) =
          take (unat ?len) (drop (p + 4) buf)" by simp
      show ?thesis
      proof (cases "cbor_dec c (take (unat ?len) (drop (p + 4) buf))")
        case None
        with len small 1(2) have "evs = []" "n = p" "err = Some (p + 4 + unat ?len, CborDecode)"
          by (auto simp: whole.simps [of c buf p] Let_def)
        with None small at body len show ?thesis
          by (simp add: whole.simps [of c "buf @ ext" p] Let_def)
      next
        case (Some ev)
        obtain es where w: "whole c buf (p + 4 + unat ?len) = (es, n, err)" and evs: "evs = ev # es"
          using 1(2) len small Some by (auto simp: whole.simps [of c buf p] Let_def split: prod.splits)
        have "\<not> length buf < p + 4" "\<not> length buf < p + 4 + unat ?len" using len by simp_all
        from 1(1) [OF this(1) refl small this(2) Some w] evs len small at body Some show ?thesis
          by (simp add: whole.simps [of c "buf @ ext" p] Let_def split: option.splits prod.splits)
      qed
    qed
  qed
qed

lemma whole_shift:
  "whole c buf (q + p) =
     (case whole c (drop q buf) p of
        (evs, n, e) \<Rightarrow> (evs, q + n, map_option (\<lambda>(pos, x). (q + pos, x)) e))"
proof (induction c "drop q buf" p rule: whole.induct)
  case (1 c p)
  let ?len = "u32_at buf (q + p)"
  have at: "u32_at (drop q buf) p = ?len" by (simp add: u32_at_def add.commute add.left_commute)
  have body: "take n (drop (p + 4) (drop q buf)) = take n (drop (q + p + 4) buf)" for n
    by (simp add: ac_simps)
  show ?case
  proof (cases "length buf < q + p + 4 \<or> MAX_FRAME_BYTES < unat ?len \<or> length buf < q + p + 4 + unat ?len")
    case True
    then show ?thesis
      by (auto simp: whole.simps [of c buf "q + p"] whole.simps [of c "drop q buf" p] at Let_def)
  next
    case False
    then have ok: "\<not> length (drop q buf) < p + 4" "\<not> MAX_FRAME_BYTES < unat (u32_at (drop q buf) p)"
      "\<not> length (drop q buf) < p + 4 + unat (u32_at (drop q buf) p)" by (auto simp: at)
    show ?thesis
    proof (cases "cbor_dec c (take (unat ?len) (drop (q + p + 4) buf))")
      case None
      with False ok show ?thesis
        unfolding whole.simps [of c buf "q + p"] whole.simps [of c "drop q buf" p] at Let_def body
        by simp
    next
      case (Some ev)
      then have "cbor_dec c (take (unat (u32_at (drop q buf) p)) (drop (p + 4) (drop q buf))) = Some ev"
        by (simp only: at body)
      from 1 [OF ok(1) refl ok(2,3) this]
      have "whole c buf (q + p + 4 + unat ?len) = (case whole c (drop q buf) (p + 4 + unat ?len) of
          (evs, n, e) \<Rightarrow> (evs, q + n, map_option (\<lambda>(pos, x). (q + pos, x)) e))"
        by (simp only: at add.assoc)
      with False ok Some show ?thesis
        unfolding whole.simps [of c buf "q + p"] whole.simps [of c "drop q buf" p] at Let_def body
        by (simp split: prod.splits)
    qed
  qed
qed


lemma whole_bounds: "whole c buf p = (evs, n, err) \<Longrightarrow> p \<le> length buf \<Longrightarrow> p \<le> n \<and> n \<le> length buf"
proof (induction c buf p arbitrary: evs rule: whole.induct)
  case (1 c buf p)
  then show ?case
    by (subst (asm) (2) whole.simps)
      (force simp: Let_def not_less split: if_splits option.splits prod.splits)
qed

text \<open>A parser that started with the unit at \<open>pos\<close> has been fed \<open>d\<close>.\<close>

definition parsed ::
  "('a) codecs_scheme \<Rightarrow> event_filter option \<Rightarrow> 'u callback \<Rightarrow> nat \<Rightarrow> 'u sink \<Rightarrow> problem list \<Rightarrow> bytes \<Rightarrow>
   'u read_state \<Rightarrow> bool" where
  "parsed c flt f pos sk pb d st \<longleftrightarrow>
     (case st of (p, sk', pb') \<Rightarrow>
        (case whole c d 0 of (evs, n, err) \<Rightarrow>
           sk' = push_all flt f evs sk \<and> fp_at p = pos \<and>
           (case err of
              None \<Rightarrow> \<not> fp_failed p \<and> fp_carry p = drop n d \<and> fp_base p = n \<and> pb' = pb
            | Some (q, e) \<Rightarrow> fp_failed p \<and> pb' = pb @ [UndecodableData q pos e])))"

lemma parsed_start: "parsed c flt f pos sk pb [] (parser_new pos, sk, pb)"
  by (simp add: parsed_def parser_new_def whole.simps [of c "[]" 0])

lemma parsed_feed:
  assumes "parsed c flt f pos sk pb d st" and "nonstop f" and "\<not> sk_stopped sk"
  shows "parsed c flt f pos sk pb (d @ data) (parser_feed c flt f data st)"
proof -
  obtain p sk' pb' where st: "st = (p, sk', pb')" by (cases st)
  obtain evs n err where w: "whole c d 0 = (evs, n, err)" by (cases "whole c d 0")
  from assms(1) st w have sk': "sk' = push_all flt f evs sk" and pos: "fp_at p = pos"
    by (simp_all add: parsed_def)
  have run: "\<not> sk_stopped sk'" unfolding sk' by (rule push_all_running [OF assms(2,3)])
  show ?thesis
  proof (cases err)
    case (Some qe)
    with assms(1) st w have "fp_failed p" by (auto simp: parsed_def)
    then have "parser_feed c flt f data st = st" by (simp add: parser_feed_def st)
    moreover have "whole c (d @ data) 0 = (evs, n, err)" using whole_append [OF w, of data] Some by simp
    ultimately show ?thesis using assms(1) w Some by (cases qe) (simp add: parsed_def st)
  next
    case None
    with assms(1) st w have p: "\<not> fp_failed p" "fp_carry p = drop n d" "fp_base p = n" "pb' = pb"
      by (auto simp: parsed_def)
    obtain es m e where v: "whole c (drop n d @ data) 0 = (es, m, e)"
      by (cases "whole c (drop n d @ data) 0")
    have n: "n \<le> length d" using whole_bounds [OF w] by simp
    with v whole_shift [of c "d @ data" n 0]
    have "whole c (d @ data) n = (es, n + m, map_option (\<lambda>(q, x). (n + q, x)) e)" by simp
    with whole_append [OF w, of data] None
    have full: "whole c (d @ data) 0 = (evs @ es, n + m, map_option (\<lambda>(q, x). (n + q, x)) e)" by simp
    have "fp_carry p @ data = drop n d @ data" by (simp add: p)
    from parser_feed_whole [OF _ assms(2) run p(1), of c data es m e flt pb'] v this
    show ?thesis
      using full p pos sk' n push_all_append [OF assms(2,3), of flt evs es]
      by (auto simp: parsed_def st failed_at_def add.commute split: option.splits)
  qed
qed

text \<open>Feeding a list of pieces.\<close>

definition feed_pieces ::
  "('a) codecs_scheme \<Rightarrow> event_filter option \<Rightarrow> 'u callback \<Rightarrow> bytes list \<Rightarrow> 'u read_state \<Rightarrow> 'u read_state" where
  "feed_pieces c flt f pieces st = foldl (\<lambda>st d. parser_feed c flt f d st) st pieces"

lemma parsed_pieces:
  assumes "nonstop f" and "\<not> sk_stopped sk"
  shows "parsed c flt f pos sk pb (concat pieces)
    (feed_pieces c flt f pieces (parser_new pos, sk, pb))"
proof (induction pieces rule: rev_induct)
  case Nil
  show ?case by (simp add: feed_pieces_def parsed_start)
next
  case (snoc d pieces)
  from parsed_feed [OF this assms] show ?case by (simp add: feed_pieces_def)
qed

section \<open>The codec's reader\<close>

text \<open>Where the stream reader stands when \<open>read_frame\<close> stops at \<open>e\<close>.\<close>

function read_stop :: "codecs \<Rightarrow> bytes \<Rightarrow> nat" where
  "read_stop c bs =
     (case read_frame c bs of
        Inl (FrameTooLarge _ _) \<Rightarrow> 4
      | Inl CborDecode \<Rightarrow> 4 + unat (u32_at bs 0)
      | Inl _ \<Rightarrow> length bs
      | Inr None \<Rightarrow> 0
      | Inr (Some (ev, rest)) \<Rightarrow> length bs - length rest + read_stop c rest)"
  by pat_completeness auto
termination
  by (relation "measure (\<lambda>(c, bs). length bs)") (auto dest: read_frame_shorter)

declare read_stop.simps [simp del]

definition whole_error :: "bytes \<Rightarrow> nat \<Rightarrow> (nat \<times> codec_error) option \<Rightarrow> (nat \<times> codec_error) option" where
  "whole_error buf n err =
     (case err of
        Some e \<Rightarrow> Some e
      | None \<Rightarrow> if n < length buf then Some (length buf, Truncated) else None)"

lemma whole_read_frames:
  assumes "whole c buf p = (evs, n, err)" and "p \<le> length buf"
  shows "read_frames c (drop p buf) = (evs, map_option snd (whole_error buf n err)) \<and>
    (whole_error buf n err \<noteq> None \<longrightarrow>
       p + read_stop c (drop p buf) = fst (the (whole_error buf n err)))"
  using assms
proof (induction c buf p arbitrary: evs rule: whole.induct)
  case (1 c buf p)
  let ?len = "u32_at buf p" and ?bs = "drop p buf"
  have at: "u32_of (take 4 ?bs) = ?len" "u32_at ?bs 0 = ?len" by (simp_all add: u32_at_def)
  note rd = read_frame_def [of c ?bs]
  consider "p = length buf" | "p < length buf" "length buf < p + 4"
    | "p + 4 \<le> length buf" "MAX_FRAME_BYTES < unat ?len"
    | "p + 4 \<le> length buf" "\<not> MAX_FRAME_BYTES < unat ?len" "length buf < p + 4 + unat ?len"
    | "\<not> length buf < p + 4" "\<not> MAX_FRAME_BYTES < unat ?len" "\<not> length buf < p + 4 + unat ?len"
    using 1(3) by linarith
  then show ?case
  proof cases
    case 1
    then have "evs = []" "n = p" "err = None"
      using \<open>whole c buf p = (evs, n, err)\<close>
      by (auto simp: whole.simps [of c buf "length buf"])
    with 1 show ?thesis
      by (simp add: read_frames.simps [of c "[]"] read_frame_def whole_error_def)
  next
    case 2
    then have "length ?bs < 4" and "?bs \<noteq> []" by auto
    then have "read_frame c ?bs = Inl Truncated" unfolding rd by (simp only: if_True if_False)
    moreover have "evs = []" "n = p" "err = None"
      using 2 \<open>whole c buf p = (evs, n, err)\<close> by (auto simp: whole.simps [of c buf p])
    ultimately show ?thesis using 2
      by (simp add: read_frames.simps [of c ?bs] read_stop.simps [of c ?bs] whole_error_def)
  next
    case 3
    then have "read_frame c ?bs = Inl (FrameTooLarge ?len MAX_FRAME_BYTES)"
      by (auto simp: rd at Let_def)
    moreover have "evs = []" "n = p" "err = Some (p + 4, FrameTooLarge ?len MAX_FRAME_BYTES)"
      using 3 \<open>whole c buf p = (evs, n, err)\<close> by (auto simp: whole.simps [of c buf p] Let_def)
    ultimately show ?thesis using 3
      by (simp add: read_frames.simps [of c ?bs] read_stop.simps [of c ?bs] whole_error_def)
  next
    case 4
    then have "read_frame c ?bs = Inl Truncated" by (auto simp: rd at Let_def)
    moreover have "evs = []" "n = p" "err = None"
      using 4 \<open>whole c buf p = (evs, n, err)\<close> by (auto simp: whole.simps [of c buf p] Let_def)
    ultimately show ?thesis using 4
      by (simp add: read_frames.simps [of c ?bs] read_stop.simps [of c ?bs] whole_error_def)
  next
    case 5
    show ?thesis
    proof (cases "cbor_dec c (take (unat ?len) (drop (p + 4) buf))")
      case None
      then have "read_frame c ?bs = Inl CborDecode" using 5 by (auto simp: rd at add.commute [of 4 p] Let_def)
      moreover have "evs = []" "n = p" "err = Some (p + 4 + unat ?len, CborDecode)"
        using None 5 \<open>whole c buf p = (evs, n, err)\<close> by (auto simp: whole.simps [of c buf p] Let_def)
      ultimately show ?thesis using 5
        by (simp add: read_frames.simps [of c ?bs] read_stop.simps [of c ?bs] whole_error_def at)
    next
      case (Some ev)
      let ?q = "p + 4 + unat ?len"
      have shorter: "drop (unat ?len) (drop (p + 4) buf) = drop ?q buf" by (simp add: ac_simps)
      have "read_frame c ?bs = Inr (Some (ev, drop ?q buf))"
        using 5 Some by (auto simp: rd at add.commute [of 4 p] Let_def ac_simps)
      moreover obtain es where w: "whole c buf ?q = (es, n, err)" and evs: "evs = ev # es"
        using 5 Some \<open>whole c buf p = (evs, n, err)\<close>
        by (auto simp: whole.simps [of c buf p] Let_def split: prod.splits)
      have "?q \<le> length buf" using 5 by simp
      note IH = 1(1) [OF 5(1) refl 5(2,3) Some w this]
      ultimately show ?thesis using IH evs 5(3)
        by (auto simp: read_frames.simps [of c ?bs] read_stop.simps [of c ?bs])
    qed
  qed
qed

text \<open>
  C16. The frame parser is the codec's reader: fed the data of a unit in pieces of any size, and
  finished, it hands the sink exactly the events \<open>read_frame\<close> reads from the whole data, and
  reports a problem exactly when \<open>read_frame\<close> stops with an error: that error, at the byte where
  the reader stands.
\<close>
theorem parser_reads_pieces:
  assumes "nonstop f" and "\<not> sk_stopped sk"
    and "feed_pieces c flt f pieces (parser_new pos, sk, pb) = (p, sk', pb')"
    and "read_frames c (concat pieces) = (evs, err)"
  shows "sk' = push_all flt f evs sk \<and>
    parser_finish p pb' = pb @ (case err of
      None \<Rightarrow> []
    | Some e \<Rightarrow> [UndecodableData (read_stop c (concat pieces)) pos e])"
proof -
  obtain es n er where w: "whole c (concat pieces) 0 = (es, n, er)"
    by (cases "whole c (concat pieces) 0")
  from parsed_pieces [OF assms(1,2), of c flt pos pb pieces] assms(3)
  have st: "parsed c flt f pos sk pb (concat pieces) (p, sk', pb')" by simp
  from whole_read_frames [OF w] assms(4)
  have r: "evs = es" "err = map_option snd (whole_error (concat pieces) n er)"
    "whole_error (concat pieces) n er \<noteq> None \<longrightarrow>
       read_stop c (concat pieces) = fst (the (whole_error (concat pieces) n er))" by simp_all
  have "n \<le> length (concat pieces)" using whole_bounds [OF w] by simp
  with st w r show ?thesis
    by (auto simp: parsed_def parser_finish_def whole_error_def split: option.splits if_splits)
qed

end
