(* ===== verification/StoreFacts.thy ===== *)
theory StoreFacts
  imports WriterLog ParserFacts
begin

text \<open>
  What the reader makes of a file the writer left: a scan of the chunks, the footer index, and
  the legacy frames all give back the groups of events that were written.
\<close>

text \<open>
  What the code relies on in zstd: a frame written with the checksum says so, decompresses to
  what was compressed, and its size can be found from its start.
\<close>

definition zstd_ok :: "codecs \<Rightarrow> bool" where
  "zstd_ok c \<longleftrightarrow>
     (\<forall>d z. zstd_enc c d = Some z \<longrightarrow>
        frame_has_checksum z \<and> zstd_dec c z = Some d \<and>
        (\<forall>rest. zstd_frame_size c (z @ rest) = Some (length z)))"

lemma group_compressed:
  assumes "group_ok c kind g" and "zstd_ok c"
  shows "frame_has_checksum (compressed c g)" and "4 < length (compressed c g)"
    and "take 4 (compressed c g) = ZSTD_MAGIC" and "zstd_dec c (compressed c g) = Some (encode_all c g)"
    and "zstd_frame_size c (compressed c g @ rest) = Some (length (compressed c g))"
    and "decode_chunk c (compressed c g) = Inr g"
proof -
  from assms(1) obtain z where z: "zstd_enc c (encode_all c g) = Some z"
    by (auto simp: group_ok_def)
  then have eq: "compressed c g = z" by (simp add: compressed_def)
  from assms(2) z have ok: "frame_has_checksum z" "zstd_dec c z = Some (encode_all c g)"
    "zstd_frame_size c (z @ rest) = Some (length z)" by (auto simp: zstd_ok_def)
  then show "frame_has_checksum (compressed c g)" "4 < length (compressed c g)"
    "take 4 (compressed c g) = ZSTD_MAGIC" "zstd_dec c (compressed c g) = Some (encode_all c g)"
    "zstd_frame_size c (compressed c g @ rest) = Some (length (compressed c g))"
    by (simp_all add: eq frame_has_checksum_def)
  have "read_frames c (encode_all c g) = (g, None)"
    using assms(1) by (intro read_frames_encoded) (simp add: group_ok_def)
  with ok eq show "decode_chunk c (compressed c g) = Inr g" by (simp add: decode_chunk_def)
qed

lemma drop_prefix: "drop off buf = xs @ rest \<Longrightarrow> drop (off + length xs) buf = rest"
  by (metis add.commute append_eq_conv_conj drop_drop)

lemma drop_length: "drop off buf = xs @ rest \<Longrightarrow> xs \<noteq> [] \<Longrightarrow> off + length xs \<le> length buf"
proof -
  assume "drop off buf = xs @ rest" and "xs \<noteq> []"
  from arg_cong [OF this(1), of length] this(2) have "length buf - off = length xs + length rest"
    and "0 < length xs" by simp_all
  then show ?thesis by linarith
qed

section \<open>Scanning chunks\<close>

lemma try_chunk_group:
  assumes "group_ok c (KChunked cc) g" and "zstd_ok c"
    and "drop off buf = group_bytes c (KChunked cc) g @ rest"
    and "off + length (group_bytes c (KChunked cc) g) \<le> lim"
  shows "try_chunk c buf off lim need = Some (g, off + length (group_bytes c (KChunked cc) g))"
proof -
  note z = group_compressed [OF assms(1,2)]
  let ?z = "compressed c g"
  have d: "drop off buf = put_u32 (of_nat (length ?z)) @ (?z @ rest)"
    using assms(3) by (simp add: group_bytes_def)
  from drop_prefix [OF d] have d4: "drop (off + 4) buf = ?z @ rest" by simp
  have "put_u32 (of_nat (length ?z)) \<noteq> []" by (metis length_put(1) list.size(3) zero_neq_numeral)
  from drop_length [OF d this] have len: "off + 4 \<le> length buf" by simp
  have max: "length ?z \<le> MAX_CHUNK_BYTES" using assms(1) by (simp add: group_ok_def)
  then have "unat (of_nat (length ?z) :: u32) = length ?z"
    by (simp add: MAX_CHUNK_BYTES_def unat_of_nat)
  with d have comp: "unat (u32_at buf off) = length ?z" by (simp add: u32_at_def)
  have total: "off + length (group_bytes c (KChunked cc) g) = off + 4 + length ?z"
    by (simp add: group_bytes_def)
  have "?z \<noteq> []" using z(2) by auto
  then have "\<not> length buf < off + 4" "length ?z \<noteq> 0" "\<not> MAX_CHUNK_BYTES < length ?z"
    "\<not> lim < off + 4 + length ?z" using len z(2) max assms(4) total by simp_all
  then show ?thesis
    unfolding try_chunk_def total Let_def comp d4 using z by (simp add: add.commute)
qed

lemma scan_groups:
  assumes "list_all (group_ok c (KChunked cc)) gs" and "zstd_ok c"
    and "drop off buf = groups_bytes c (KChunked cc) gs @ rest"
    and "off + length (groups_bytes c (KChunked cc) gs) \<le> lim"
  shows "scan_from c buf lim off =
    (case scan_from c buf lim (off + length (groups_bytes c (KChunked cc) gs)) of
       (out, dmg) \<Rightarrow> (concat gs @ out, dmg))"
  using assms
proof (induction gs arbitrary: off)
  case Nil
  then show ?case by (simp split: prod.splits)
next
  case (Cons g gs)
  let ?n = "length (group_bytes c (KChunked cc) g)"
  have d: "drop off buf = group_bytes c (KChunked cc) g @ (groups_bytes c (KChunked cc) gs @ rest)"
    and fits: "off + ?n \<le> lim" and g: "group_ok c (KChunked cc) g" using Cons.prems by simp_all
  have "0 < ?n" by (simp add: group_bytes_def)
  then have "off < lim" using fits by linarith
  moreover have "try_chunk c buf off lim False = Some (g, off + ?n)"
    by (rule try_chunk_group [OF g Cons.prems(2) d fits])
  moreover have "scan_from c buf lim (off + ?n) =
    (case scan_from c buf lim (off + ?n + length (groups_bytes c (KChunked cc) gs)) of
       (out, dmg) \<Rightarrow> (concat gs @ out, dmg))"
    using Cons.prems drop_prefix [OF d] by (intro Cons.IH) simp_all
  ultimately show ?case
    by (simp add: scan_from.simps [of c buf lim off] add.assoc split: prod.splits)
qed

lemma scan_file:
  assumes "list_all (group_ok c (KChunked cc)) gs" and "zstd_ok c"
    and "buf = HEAD_MAGIC @ groups_bytes c (KChunked cc) gs @ rest"
    and "length (HEAD_MAGIC @ groups_bytes c (KChunked cc) gs) \<le> lim"
  shows "\<exists>out dmg. scan_chunks_checked c buf lim = (concat gs @ out, dmg) \<and>
    (rest = [] \<longrightarrow> out = [] \<and> dmg = [])"
proof -
  have d: "drop (length HEAD_MAGIC) buf = groups_bytes c (KChunked cc) gs @ rest"
    by (simp add: assms(3))
  have l: "length HEAD_MAGIC + length (groups_bytes c (KChunked cc) gs) \<le> min lim (length buf)"
    using assms(3,4) by simp
  from scan_groups [OF assms(1,2) d l] show ?thesis
  proof (cases "rest = []")
    case True
    then have "min lim (length buf) = length HEAD_MAGIC + length (groups_bytes c (KChunked cc) gs)"
      using assms(3) l by simp
    then have "scan_from c buf (min lim (length buf))
        (length HEAD_MAGIC + length (groups_bytes c (KChunked cc) gs)) = ([], [])"
      by (simp add: scan_from.simps)
    with scan_groups [OF assms(1,2) d l] show ?thesis by (simp add: scan_chunks_checked_def)
  qed (auto simp: scan_chunks_checked_def split: prod.splits)
qed

section \<open>The footer\<close>

lemma put_entry_length [simp]: "length (put_entry e) = ENTRY_SIZE"
  by (simp add: put_entry_def ENTRY_SIZE_def)

lemma drop_put [simp]: "length xs = n \<Longrightarrow> drop n (xs @ ys) = ys"
  by simp

lemma entry_at_put [simp]: "entry_at (put_entry e) = e"
  by (cases e) (simp add: entry_at_def put_entry_def u64_at_def u32_at_def)

lemma entries_at_put: "entries_at (length es) (concat (map put_entry es)) = es"
  by (induction es) simp_all

lemma length_footer_body: "length (footer_body es) = 4 + length es * ENTRY_SIZE"
  by (simp add: footer_body_def length_concat o_def sum_list_triv)

lemma read_footer_written:
  assumes "4 \<le> length pre" and "length pre < 2 ^ 64" and "length es < 2 ^ 32"
  shows "read_footer_with_offset c (pre @ write_footer_at c (length pre) es) = Inr (Some (es, length pre))"
proof -
  let ?b = "footer_body es" and ?buf = "pre @ write_footer_at c (length pre) es"
  let ?t = "put_u64 (of_nat (length pre)) @ put_u32 (crc32 c ?b) @ put_u64 FOOTER_MAGIC"
  have buf: "?buf = (pre @ ?b) @ ?t" by (simp add: write_footer_at_def)
  have len: "length ?buf = length pre + length ?b + 20" by (simp add: write_footer_at_def)
  have ts: "length ?buf - TRAILER_SIZE = length (pre @ ?b)" using len by (simp add: TRAILER_SIZE_def)
  have t: "drop (length (pre @ ?b)) ?buf = ?t" unfolding buf by simp
  have off: "unat (u64_at ?t 0) = length pre" using assms(2) by (simp add: u64_at_def unat_of_nat)
  have crc: "u32_at ?t 8 = crc32 c ?b" and magic: "u64_at ?t 12 = FOOTER_MAGIC"
    by (simp_all add: u32_at_def u64_at_def)
  have n: "unat (of_nat (length es) :: u32) = length es" using assms(3) by (simp add: unat_of_nat)
  have count: "unat (u32_at ?buf (length pre)) = length es"
    by (simp add: u32_at_def write_footer_at_def footer_body_def n)
  have body: "take (length ?b) (write_footer_at c (length pre) es) = ?b"
    by (simp add: write_footer_at_def)
  have entries: "entries_at (length es) (drop 4 ?b) = es"
    by (simp add: footer_body_def entries_at_put)
  have "\<not> length ?buf < MIN_VALID_FILE_LEN" using assms(1) len length_footer_body [of es]
    by (simp add: MIN_VALID_FILE_LEN_def TRAILER_SIZE_def HEAD_MAGIC_def)
  moreover have "\<not> (length pre < length HEAD_MAGIC \<or> length (pre @ ?b) \<le> length pre)"
    using assms(1) length_footer_body [of es] by (simp add: HEAD_MAGIC_def)
  moreover have "length (pre @ ?b) - length pre = length ?b" "\<not> length ?b < 4"
    "\<not> 4 + length es * ENTRY_SIZE \<noteq> length ?b" using length_footer_body [of es] by simp_all
  ultimately show ?thesis
    unfolding read_footer_with_offset_def Let_def t off crc magic ts count
    by (simp add: body entries)
qed


section \<open>Reading through the index\<close>

definition flt_ok :: "event_filter option \<Rightarrow> event \<Rightarrow> bool" where
  "flt_ok flt e \<longleftrightarrow> (case flt of None \<Rightarrow> True | Some ft \<Rightarrow> filter_matches ft e)"

definition gathered ::
  "event_filter option \<Rightarrow> event list \<Rightarrow> event list sink \<Rightarrow> event list sink \<Rightarrow> bool" where
  "gathered flt es sk sk' \<longleftrightarrow>
     sk_stopped sk' = sk_stopped sk \<and> sk_state sk' = sk_state sk @ filter (flt_ok flt) es \<and>
     (flt = None \<longrightarrow> sk_seen sk' = sk_seen sk + of_nat (length es))"

lemma gathered_Nil [simp]: "gathered flt [] sk sk"
  by (simp add: gathered_def)

lemma gathered_trans:
  "gathered flt es sk sk1 \<Longrightarrow> gathered flt fs sk1 sk2 \<Longrightarrow> gathered flt (es @ fs) sk sk2"
  by (simp add: gathered_def algebra_simps)

lemma push_collect: "\<not> sk_stopped sk \<Longrightarrow> gathered flt [e] sk (sink_push flt collect e sk)"
  by (auto simp: gathered_def sink_push_def flt_ok_def collect_def Let_def split: option.splits)

lemma push_all_collect: "\<not> sk_stopped sk \<Longrightarrow> gathered flt es sk (push_all flt collect es sk)"
proof (induction es arbitrary: sk)
  case Nil
  show ?case by simp
next
  case (Cons e es)
  note e = push_collect [OF Cons.prems, of flt e]
  then have "\<not> sk_stopped (sink_push flt collect e sk)" using Cons.prems by (simp add: gathered_def)
  with gathered_trans [OF e Cons.IH [OF this]] show ?case by (simp add: Let_def)
qed

lemma read_entry_group:
  assumes "group_ok c (KChunked cc) g" and "zstd_ok c" and "entry_for c g off e"
    and "drop off buf = group_bytes c (KChunked cc) g @ rest" and "length HEAD_MAGIC \<le> off"
    and "off + length (group_bytes c (KChunked cc) g) \<le> fo" and "fo < 2 ^ 64"
    and "\<not> sk_stopped sk"
  shows "\<exists>sk'. read_entry c flt collect buf fo i e (sk, pb) = (sk', pb) \<and> gathered flt g sk sk'"
proof (cases "case flt of None \<Rightarrow> False | Some ft \<Rightarrow> \<not> chunk_overlaps ft e")
  case True
  then obtain ft where ft: "flt = Some ft" "\<not> chunk_overlaps ft e" by (auto split: option.splits)
  have "\<not> filter_matches ft x" if "x \<in> set g" for x
    using assms(3) ft(2) that by (auto simp: entry_for_def list_all_iff dest: covers_overlaps)
  then have "filter (flt_ok flt) g = []" by (simp add: filter_empty_conv flt_ok_def ft(1))
  with True ft(1) show ?thesis by (simp add: read_entry_def gathered_def)
next
  case False
  note z = group_compressed [OF assms(1,2)]
  let ?z = "compressed c g"
  have len: "length (group_bytes c (KChunked cc) g) = 4 + length ?z" by (simp add: group_bytes_def)
  have d: "drop off buf = put_u32 (of_nat (length ?z)) @ (?z @ rest)"
    using assms(4) by (simp add: group_bytes_def)
  from drop_prefix [OF d] have d4: "drop (off + 4) buf = ?z @ rest" by simp
  have "?z \<noteq> []" using z(2) by auto
  from drop_length [OF d4 this] have inbuf: "off + 4 + length ?z \<le> length buf" .
  have max: "length ?z < 2 ^ 32" and small: "length g < 2 ^ 32"
    using assms(1) by (simp_all add: group_ok_def MAX_CHUNK_BYTES_def)
  have comp: "unat (ce_comp_len e) = length ?z" and cnt: "unat (ce_event_count e) = length g"
    and ofs: "ce_offset e = of_nat off"
    using assms(3) max small by (simp_all add: entry_for_def unat_of_nat)
  have ucl: "ucast (ce_comp_len e) = (of_nat (length ?z) :: u64)"
    using comp by (metis of_nat_unat)
  have stop: "ce_offset e + 4 + ucast (ce_comp_len e) = (of_nat (off + 4 + length ?z) :: u64)"
    by (simp add: ofs ucl)
  have le: "off + 4 + length ?z \<le> fo" using assms(6) len by simp
  have "unat (of_nat fo :: u64) = fo" "unat (of_nat (off + 4 + length ?z) :: u64) = off + 4 + length ?z"
    using assms(7) le by (simp_all only: unat_of_nat) (simp_all add: mod_less)
  then have "\<not> (of_nat fo :: u64) < ce_offset e + 4 + ucast (ce_comp_len e)"
    unfolding stop word_less_nat_alt using le by simp
  moreover have start: "unat (ce_offset e + 4) = off + 4"
  proof -
    have "ce_offset e + 4 = (of_nat (off + 4) :: u64)" by (simp add: ofs)
    then show ?thesis using assms(7) le by (simp add: unat_of_nat del: of_nat_add)
  qed
  moreover have "\<not> ce_offset e < of_nat (length HEAD_MAGIC)"
  proof -
    have "unat (of_nat off :: u64) = off" "unat (of_nat (length HEAD_MAGIC) :: u64) = length HEAD_MAGIC"
      using assms(7) le by (simp_all add: unat_of_nat HEAD_MAGIC_def)
    then show ?thesis using assms(5) by (simp add: ofs word_less_nat_alt)
  qed
  ultimately have "read_entry c flt collect buf fo i e (sk, pb) = (push_all flt collect g sk, pb)"
    using False inbuf z(6) by (simp add: read_entry_def Let_def comp cnt d4)
  with push_all_collect [OF assms(8)] show ?thesis by auto
qed

lemma decode_index:
  assumes "index_for c (KChunked cc) off gs es" and "list_all (group_ok c (KChunked cc)) gs"
    and "zstd_ok c" and "drop off buf = groups_bytes c (KChunked cc) gs @ rest"
    and "length HEAD_MAGIC \<le> off" and "off + length (groups_bytes c (KChunked cc) gs) \<le> fo"
    and "fo < 2 ^ 64" and "\<not> sk_stopped sk"
  shows "\<exists>sk'. decode_indexed c flt collect buf fo i es (sk, pb) = (sk', pb) \<and>
    gathered flt (concat gs) sk sk'"
  using assms
proof (induction c "KChunked cc" off gs es arbitrary: i sk rule: index_for.induct)
  case (2 c off g gs e es)
  let ?n = "length (group_bytes c (KChunked cc) g)"
  have d: "drop off buf = group_bytes c (KChunked cc) g @ (groups_bytes c (KChunked cc) gs @ rest)"
    using 2 by simp
  have "group_ok c (KChunked cc) g" "entry_for c g off e" "off + ?n \<le> fo" using 2 by simp_all
  from read_entry_group [OF this(1) \<open>zstd_ok c\<close> this(2) d \<open>length HEAD_MAGIC \<le> off\<close> this(3)
      \<open>fo < 2 ^ 64\<close> \<open>\<not> sk_stopped sk\<close>]
  obtain sk1 where r: "read_entry c flt collect buf fo i e (sk, pb) = (sk1, pb)"
    and g1: "gathered flt g sk sk1" by blast
  have run: "\<not> sk_stopped sk1" using g1 \<open>\<not> sk_stopped sk\<close> by (simp add: gathered_def)
  have "\<exists>sk'. decode_indexed c flt collect buf fo (Suc i) es (sk1, pb) = (sk', pb) \<and>
      gathered flt (concat gs) sk1 sk'"
    using 2 drop_prefix [OF d] run by (intro 2(1)) simp_all
  then obtain sk2 where "decode_indexed c flt collect buf fo (Suc i) es (sk1, pb) = (sk2, pb)"
    "gathered flt (concat gs) sk1 sk2" by blast
  with r gathered_trans [OF g1 this(2)] \<open>\<not> sk_stopped sk\<close> show ?case by simp
qed simp_all

section \<open>Reading legacy frames\<close>

lemma parse_group:
  assumes "read_frames c d = (g, None)" and "\<not> sk_stopped sk"
  shows "\<exists>p. parser_feed c flt collect d (parser_new pos, sk, pb) = (p, push_all flt collect g sk, pb) \<and>
    parser_finish p pb = pb"
proof -
  obtain p sk' pb' where f: "parser_feed c flt collect d (parser_new pos, sk, pb) = (p, sk', pb')"
    by (cases "parser_feed c flt collect d (parser_new pos, sk, pb)")
  then have pieces: "feed_pieces c flt collect [d] (parser_new pos, sk, pb) = (p, sk', pb')"
    by (simp add: feed_pieces_def)
  obtain es n er where w: "whole c d 0 = (es, n, er)" by (cases "whole c d 0")
  from parsed_pieces [OF nonstop_collect assms(2), of c flt pos pb "[d]"] pieces
  have st: "parsed c flt collect pos sk pb d (p, sk', pb')" by simp
  from whole_read_frames [OF w] assms(1) have "es = g" "er = None" "n = length d"
    using whole_bounds [OF w] by (auto simp: whole_error_def split: option.splits if_splits)
  with st w f show ?thesis by (auto simp: parsed_def parser_finish_def)
qed

lemma truncate_fields [simp]:
  "cbor_dec (codecs.truncate c) = cbor_dec c" "zstd_dec (codecs.truncate c) = zstd_dec c"
  "cbor_enc (codecs.truncate c) = cbor_enc c" "zstd_enc (codecs.truncate c) = zstd_enc c"
  "zstd_frame_size (codecs.truncate c) = zstd_frame_size c" "crc32 (codecs.truncate c) = crc32 c"
  by (simp_all add: codecs.truncate_def)

lemma decode_at_truncate: "decode_at (codecs.truncate c) = decode_at c"
  by (intro ext) (simp add: decode_at_def split: prod.splits)

lemma parser_feed_truncate: "parser_feed (codecs.truncate c) = parser_feed c"
proof -
  have "decode_frames_in (codecs.truncate c) = decode_frames_in c"
    by (intro ext) (simp add: decode_frames_in_def decode_at_truncate)
  then show ?thesis by (intro ext) (simp only: parser_feed_def)
qed

lemma read_legacy_groups:
  fixes c :: stream_codecs
  assumes "list_all (group_ok (codecs.truncate c) KLegacy) gs" and "zstd_ok (codecs.truncate c)"
    and "drop pos buf = groups_bytes (codecs.truncate c) KLegacy gs" and "pos \<le> length buf"
    and "\<not> sk_stopped sk"
  shows "\<exists>sk'. read_legacy_from c flt collect buf pos (sk, pb) = (sk', pb) \<and>
    gathered flt (concat gs) sk sk'"
  using assms
proof (induction gs arbitrary: pos sk)
  case Nil
  then show ?case by (simp add: read_legacy_from.simps [of c flt collect buf pos])
next
  case (Cons g gs)
  let ?c = "codecs.truncate c" and ?z = "compressed (codecs.truncate c) g"
  have d: "drop pos buf = ?z @ groups_bytes ?c KLegacy gs"
    using Cons.prems by (simp add: group_bytes_def)
  have g: "group_ok ?c KLegacy g" using Cons.prems by simp
  note z = group_compressed [OF g Cons.prems(2)]
  have ne: "?z \<noteq> []" using z(2) by auto
  have lt: "pos < length buf" using drop_length [OF d ne] z(2) by linarith
  have check: "frame_has_checksum (drop pos buf)"
    using z(1,2) by (simp add: d frame_has_checksum_def nth_append)
  then have trusted: "trusted_frame buf pos" by (simp add: trusted_frame_def frame_has_checksum_def)
  have size: "frame_size c (drop pos buf) = Some (length ?z)"
    using ne z(5) [of "groups_bytes ?c KLegacy gs"] by (simp add: frame_size_def d)
  have "read_frames ?c (encode_all ?c g) = (g, None)"
    using g by (intro read_frames_encoded) (simp add: group_ok_def)
  from parse_group [OF this Cons.prems(5), of flt pos pb] obtain p where
    p: "parser_feed c flt collect (encode_all ?c g) (parser_new pos, sk, pb) =
      (p, push_all flt collect g sk, pb)" "parser_finish p pb = pb"
    by (auto simp: parser_feed_truncate)
  note gath = push_all_collect [OF Cons.prems(5), of flt g]
  then have run: "\<not> sk_stopped (push_all flt collect g sk)"
    using Cons.prems(5) by (simp add: gathered_def)
  have dec: "zstd_dec c (take (length ?z) (drop pos buf)) = Some (encode_all ?c g)"
    using z(4) by (simp add: d)
  have one: "read_one_frame c flt collect buf pos (sk, pb) =
      (False, p, push_all flt collect g sk, pb)"
    unfolding read_one_frame_def Let_def size using check dec p(1) by simp
  have "read_legacy_from c flt collect buf pos (sk, pb) =
      read_legacy_from c flt collect buf (pos + length ?z) (push_all flt collect g sk, pb)"
    using lt Cons.prems(5) trusted one run p(2) size
    by (simp add: read_legacy_from.simps [of c flt collect buf pos] Let_def)
  moreover have "\<exists>sk'. read_legacy_from c flt collect buf (pos + length ?z)
      (push_all flt collect g sk, pb) = (sk', pb) \<and>
      gathered flt (concat gs) (push_all flt collect g sk) sk'"
    using Cons.prems drop_prefix [OF d] drop_length [OF d ne] run by (intro Cons.IH) simp_all
  ultimately show ?case using gathered_trans [OF gath] by auto
qed

end
