(* ===== verification/PostMortem.thy ===== *)
theory PostMortem
  imports Triggers StoreFacts
begin

text \<open>
  The events file of a post-mortem session is one unchecked zstd frame, read through
  \<open>stream_frame\<close>.  The frame is decompressed in steps and parsed in blocks; the events are those
  of the whole output.
\<close>

section \<open>Streaming a frame\<close>

lemma take_block_concat:
  "take_block block steps = (b, rest, ended) \<Longrightarrow>
     b @ concat rest = block @ concat steps \<and> (ended \<longrightarrow> rest = [])"
  by (induction block steps rule: take_block.induct) (auto split: if_splits)

lemma parsed_running:
  "parsed c flt f pos sk pb d st \<Longrightarrow> nonstop f \<Longrightarrow> \<not> sk_stopped sk \<Longrightarrow>
     \<not> sk_stopped (fst (snd st))"
  by (cases st) (auto simp: parsed_def push_all_running split: prod.splits)

text \<open>What the decoder can produce: its steps and, after an error, the bytes before the damage.\<close>

definition frame_output :: "('a) stream_codecs_scheme \<Rightarrow> bytes \<Rightarrow> nat \<Rightarrow> bytes list \<Rightarrow> bytes" where
  "frame_output c frame fed steps =
     concat steps @
     (if snd (zstd_steps c frame) then zstd_tail c frame (fed + length (concat steps)) else [])"

lemma stream_blocks_parsed:
  assumes "nonstop f" and "\<not> sk_stopped sk" and "parsed c flt f pos sk pb d st"
  shows "\<exists>st'. stream_blocks c flt f frame fed steps st = (snd (zstd_steps c frame), st') \<and>
    parsed c flt f pos sk pb (d @ frame_output c frame fed steps) st'"
  using assms
proof (induction c flt f frame fed steps st arbitrary: d rule: stream_blocks.induct)
  case (1 c flt f frame fed steps st)
  obtain b rest ended where tb: "take_block [] steps = (b, rest, ended)" by (cases "take_block [] steps")
  from take_block_concat [OF tb] have cat: "b @ concat rest = concat steps" "ended \<Longrightarrow> rest = []" by auto
  let ?st1 = "parser_feed c flt f b st"
  have fed1: "parsed c flt f pos sk pb (d @ b) ?st1" by (rule parsed_feed [OF 1(4,2,3)])
  then have run: "\<not> sk_stopped (fst (snd ?st1))"
    using 1(2,3) by (rule parsed_running)
  show ?case
  proof (cases ended)
    case False
    from 1(1) [OF tb [symmetric] refl refl refl run False 1(2,3) fed1] obtain st' where
      st': "stream_blocks c flt f frame (fed + length b) rest ?st1 = (snd (zstd_steps c frame), st')"
      "parsed c flt f pos sk pb ((d @ b) @ frame_output c frame (fed + length b) rest) st'" by blast
    have "frame_output c frame fed steps = b @ frame_output c frame (fed + length b) rest"
      unfolding frame_output_def cat(1) [symmetric] by (simp add: add.assoc)
    with st' show ?thesis using tb run False
      by (simp add: stream_blocks.simps [of c flt f frame fed steps st] Let_def)
  next
    case True
    then have b: "b = concat steps" using cat by simp
    show ?thesis
    proof (cases "snd (zstd_steps c frame)")
      case err: True
      have "parsed c flt f pos sk pb ((d @ b) @ zstd_tail c frame (fed + length b))
          (parser_feed c flt f (zstd_tail c frame (fed + length b)) ?st1)"
        by (rule parsed_feed [OF fed1 1(2,3)])
      then show ?thesis using tb run True err b
        by (simp add: stream_blocks.simps [of c flt f frame fed steps st] Let_def frame_output_def)
    next
      case False
      with tb run True b fed1 show ?thesis
        by (simp add: stream_blocks.simps [of c flt f frame fed steps st] Let_def frame_output_def)
    qed
  qed
qed

section \<open>Files of one unchecked frame\<close>

text \<open>A frame written without the checksum, as the code relies on it.\<close>

definition unchecked_frame :: "stream_codecs \<Rightarrow> bytes \<Rightarrow> bytes \<Rightarrow> bool" where
  "unchecked_frame c data z \<longleftrightarrow>
     take 4 z = ZSTD_MAGIC \<and> \<not> frame_has_checksum z \<and> zstd_frame_size c z = Some (length z) \<and>
     concat (fst (zstd_steps c z)) = data \<and> \<not> snd (zstd_steps c z)"

lemma whole_truncate: "whole (codecs.truncate c) buf p = whole c buf p"
proof (induction c buf p rule: whole.induct)
  case (1 c buf p)
  then show ?case
    by (simp add: whole.simps [of c buf p] whole.simps [of "codecs.truncate c" buf p] Let_def
        split: option.splits)
qed

lemma read_unchecked_file:
  assumes "unchecked_frame c data z" and "read_frames (codecs.truncate c) data = (evs, None)"
  shows "read_events_checked c True z (Some \<lparr>rm_event_count = None, rm_dropped_events = None\<rparr>) =
    Inr (evs, [])"
proof -
  have z: "take 4 z = ZSTD_MAGIC" "\<not> frame_has_checksum z" "zstd_frame_size c z = Some (length z)"
    and steps: "concat (fst (zstd_steps c z)) = data" "\<not> snd (zstd_steps c z)"
    using assms(1) by (simp_all add: unchecked_frame_def)
  let ?sk = "sink_new [] :: event list sink"
  have run: "\<not> sk_stopped ?sk" by (simp add: sink_new_def)
  obtain es n er where w: "whole c data 0 = (es, n, er)" by (cases "whole c data 0")
  then have "whole (codecs.truncate c) data 0 = (es, n, er)" by (simp add: whole_truncate)
  from whole_read_frames [OF this] assms(2) have es: "es = evs" "er = None" "n = length data"
    using whole_bounds [OF w] by (auto simp: whole_error_def split: option.splits if_splits)
  from stream_blocks_parsed [OF nonstop_collect run parsed_start, where c = c and frame = z
      and fed = 0 and steps = "fst (zstd_steps c z)" and flt = None and pos = 0 and pb = "[]"]
  obtain p sk' pb' where sb: "stream_frame c None collect z (parser_new 0, ?sk, []) = (False, p, sk', pb')"
    and "parsed c None collect 0 ?sk [] data (p, sk', pb')"
    using steps by (auto simp: stream_frame_def frame_output_def)
  with w es have sk': "sk' = push_all None collect evs ?sk" and pb': "pb' = []"
    and fin: "parser_finish p [] = []" by (auto simp: parsed_def parser_finish_def)
  note g = push_all_collect [OF run, of None evs, folded sk']
  then have run': "\<not> sk_stopped sk'" using run by (simp add: gathered_def)
  have len: "0 < length z" using z(1) by (auto simp: ZSTD_MAGIC_def)
  have size: "frame_size c z = Some (length z)" using z(3) len by (simp add: frame_size_def)
  have one: "read_one_frame c None collect z 0 (?sk, []) = (False, p, sk', [])"
    using sb z(2) size pb' by (simp add: read_one_frame_def Let_def)
  have "trusted_frame z 0" using z(1) by (simp add: trusted_frame_def)
  then have "read_legacy_from c None collect z 0 (?sk, []) =
      read_legacy_from c None collect z (length z) (sk', [])"
    unfolding read_legacy_from.simps [of c None collect z 0] drop_0 size Let_def
    using len run one run' fin by simp
  also have "\<dots> = (sk', [])" by (simp add: read_legacy_from.simps [of c None collect z "length z"])
  finally have "read_legacy_zst c None collect z (?sk, []) = (sk', [])"
    by (simp add: read_legacy_zst_def)
  moreover have "take 3 z = take 3 (take 4 z)" by simp
  then have "detect_bytes z = Legacy" using z(1) by (simp add: detect_bytes_def HEAD_MAGIC_def ZSTD_MAGIC_def)
  ultimately show ?thesis using g
    by (simp add: read_events_checked_def for_each_event_def meta_problems_def gathered_def sink_new_def
        flt_ok_def)
qed

section \<open>Post-mortem sessions\<close>

lemma write_frames_encoded:
  "write_frames c evs = Inr data \<Longrightarrow> list_all (cbor_ok c) evs \<Longrightarrow> read_frames c data = (evs, None)"
proof -
  assume w: "write_frames c evs = Inr data" and ok: "list_all (cbor_ok c) evs"
  from w have "data = encode_all c evs \<and> list_all (\<lambda>ev. \<not> isl (encode_frame c ev)) evs"
    by (induction evs arbitrary: data) (auto simp: encode_all_def split: sum.splits)
  with ok show ?thesis by (simp add: read_frames_encoded list_all_iff storable_def)
qed

lemma flushed_reads_back:
  fixes sc :: stream_codecs
  assumes "flush_post_mortem (codecs.truncate sc) enc fr reason = Inr pm"
    and "\<And>data z. enc data = Some z \<Longrightarrow> unchecked_frame sc data z"
    and "list_all (cbor_ok (codecs.truncate sc)) (snapshot fr)"
  shows "read_events_checked sc True (pm_file pm) (Some (pm_meta pm)) = Inr (snapshot fr, [])"
    and "pm_event_count pm = length (snapshot fr)" and "snapshot fr \<noteq> []"
proof -
  from assms(1) obtain data z where w: "write_frames (codecs.truncate sc) (snapshot fr) = Inr data"
    and z: "enc data = Some z" and pm: "pm_file pm = z"
      "pm_meta pm = \<lparr>rm_event_count = None, rm_dropped_events = None\<rparr>"
      "pm_event_count pm = length (snapshot fr)" "snapshot fr \<noteq> []"
    by (auto simp: flush_post_mortem_def flush_post_mortem_events_def
        split: if_splits sum.splits option.splits)
  from read_unchecked_file [OF assms(2) [OF z] write_frames_encoded [OF w assms(3)]] pm
  show "read_events_checked sc True (pm_file pm) (Some (pm_meta pm)) = Inr (snapshot fr, [])"
    "pm_event_count pm = length (snapshot fr)" "snapshot fr \<noteq> []" by simp_all
qed

lemma recent_keeps:
  assumes "length ys < mx" and "now - t \<le> window"
  shows "(t, e) \<in> set (recent window mx now (xs @ (t, e) # ys))"
proof -
  have "length (xs @ (t, e) # ys) - mx \<le> length xs" using assms(1) by simp
  then have "(t, e) \<in> set (drop (length (xs @ (t, e) # ys) - mx) (xs @ (t, e) # ys))" by simp
  then show ?thesis using assms(2) by (simp add: recent_def)
qed

text \<open>
  C22. The black box.  When the watcher writes a post-mortem for an event the flight recorder was
  given, the session reads back without damage as the recorder's content; the event that
  triggered it is among them, provided fewer than \<open>max_events\<close> events and no more than the
  window have passed since it arrived.
\<close>
theorem post_mortem_holds_trigger:
  fixes sc :: stream_codecs
  assumes "fr = record_all (xs @ (t, ev) # ys) (with_max_events window mx)"
    and "sorted (map fst (xs @ (t, ev) # ys))" and "length ys < mx"
    and "last (map fst ((t, ev) # ys)) - t \<le> window"
    and "watch_event (codecs.truncate sc) enc fr short now ev g = (g', Some (Inr pm), reply)"
    and "\<And>data z. enc data = Some z \<Longrightarrow> unchecked_frame sc data z"
    and "list_all (cbor_ok (codecs.truncate sc)) (map snd (xs @ (t, ev) # ys))"
  shows "read_events_checked sc True (pm_file pm) (Some (pm_meta pm)) = Inr (snapshot fr, []) \<and>
    ev \<in> set (snapshot fr)"
proof
  obtain now' e' rest where split: "xs @ (t, ev) # ys = rest @ [(now', e')]"
    and last: "now' = last (map fst ((t, ev) # ys))"
    by (cases "(t, ev) # ys" rule: rev_cases) auto
  from recorder_holds_recent [of rest now' e' window mx] assms(1,2)
  have inner: "fr_inner fr = recent window mx now' (xs @ (t, ev) # ys)" by (simp add: split)
  then have "(t, ev) \<in> set (fr_inner fr)"
    using recent_keeps [OF assms(3), of now' t window ev xs] assms(4) last by simp
  then show "ev \<in> set (snapshot fr)" by (force simp: snapshot_def)
  from assms(5) obtain reason where "flush_post_mortem (codecs.truncate sc) enc fr reason = Inr pm"
    by (auto simp: watch_event_def split: option.splits prod.splits bool.splits sum.splits)
  moreover have "set (fr_inner fr) \<subseteq> set (xs @ (t, ev) # ys)"
    unfolding inner recent_def by (auto dest: in_set_dropD)
  then have "set (snapshot fr) \<subseteq> snd ` set (xs @ (t, ev) # ys)" unfolding snapshot_def by auto
  then have "list_all (cbor_ok (codecs.truncate sc)) (snapshot fr)"
    using assms(7) by (auto simp: list_all_iff)
  ultimately show "read_events_checked sc True (pm_file pm) (Some (pm_meta pm)) =
      Inr (snapshot fr, [])" using flushed_reads_back(1) [OF _ assms(6)] by blast
qed

end
