(* ===== verification/StoreProps.thy ===== *)
theory StoreProps
  imports StoreFacts
begin

text \<open>
  The session file as a log: what the writer promises, across any answers of the disk, and what
  the reader makes of the files it leaves.
\<close>

section \<open>Creating a session\<close>

definition session_start :: "chunk_config option \<Rightarrow> bytes \<Rightarrow> bytes" where
  "session_start cfg old = (case cfg of None \<Rightarrow> old | Some _ \<Rightarrow> HEAD_MAGIC)"

definition kind_of_config :: "chunk_config option \<Rightarrow> writer_kind" where
  "kind_of_config cfg = (case cfg of None \<Rightarrow> KLegacy | Some cc \<Rightarrow> KChunked cc)"

lemma persist_holds:
  assumes "persist_metadata w = (ok, w')" and "writer_holds c base tidy w ws ps bs"
  shows "writer_holds c base tidy w' ws ps bs" and "dropped w' = dropped w"
    and "sw_kind w' = sw_kind w" and "sw_metadata w' = sw_metadata w"
    and "ok \<Longrightarrow> sw_saved w' = Some (sw_metadata w)"
    and "ap_file (sw_out w') = ap_file (sw_out w)"
proof -
  obtain out a where o: "next_outcome (sw_out w) = (out, a)" by (cases "next_outcome (sw_out w)")
  from assms(2) next_outcome_holds [OF o, of c "sw_kind w" base tidy ws ps]
  have a: "appender_holds c (sw_kind w) base tidy a ws ps" and b: "batch_holds c bs (sw_batch w)"
    by (simp_all add: writer_holds_def)
  note f = next_outcome_fields [OF o]
  show "writer_holds c base tidy w' ws ps bs" "dropped w' = dropped w" "sw_kind w' = sw_kind w"
    "sw_metadata w' = sw_metadata w" "ok \<Longrightarrow> sw_saved w' = Some (sw_metadata w)"
    "ap_file (sw_out w') = ap_file (sw_out w)"
    using assms(1) o a b f by (auto simp: persist_metadata_def writer_holds_def split: io_outcome.splits)
qed

lemma appender_new_holds:
  "(tidy \<longrightarrow> list_all outcome_tidy outs) \<Longrightarrow>
     appender_holds c kind base tidy (appender_new base (length base) outs) [] []"
  by (simp add: appender_holds_def appender_new_def)

lemma create_writer_holds:
  assumes "create_writer cfg old outs meta = Some w" and "tidy \<longrightarrow> list_all outcome_tidy outs"
  shows "log_holds c (session_start cfg old) tidy w []" and "dropped w = 0"
    and "sw_kind w = kind_of_config cfg" and "sw_metadata w = meta"
proof -
  let ?start = "session_start cfg old"
  from assms(1) obtain outs' where
    w: "persist_metadata \<lparr>sw_kind = kind_of_config cfg, sw_batch = batch_new,
        sw_out = appender_new ?start (length ?start) outs', sw_metadata = meta, sw_saved = None\<rparr> =
      (True, w)" and outs': "outs' = outs \<or> outs' = drop 1 outs"
    by (auto simp: create_writer_def session_start_def kind_of_config_def
        split: option.splits list.splits io_outcome.splits prod.splits if_splits)
  let ?w = "\<lparr>sw_kind = kind_of_config cfg, sw_batch = batch_new,
    sw_out = appender_new ?start (length ?start) outs', sw_metadata = meta, sw_saved = None\<rparr>"
  have "tidy \<longrightarrow> list_all outcome_tidy outs'"
    using assms(2) outs' by (cases outs) auto
  then have "writer_holds c ?start tidy ?w [] [] []"
    by (simp add: writer_holds_def appender_new_holds batch_new_holds)
  from persist_holds [OF w this] show "log_holds c ?start tidy w []" "dropped w = 0"
    "sw_kind w = kind_of_config cfg" "sw_metadata w = meta"
    by (auto simp: log_holds_def appender_new_def intro!: exI [of _ "[]"])
qed

text \<open>
  C12. The writer's log.  Start a session and make any \<open>write_event\<close> and \<open>flush\<close> calls, with the
  disk failing any way it likes: the file up to the cursor is its start and whole units, the
  waiting units and the open batch hold further events, and together they are the events kept:
  a subsequence of those offered, exactly the acknowledged ones when none were dropped, and
  every acknowledged event that is missing is counted in \<open>dropped_events\<close>.
\<close>
theorem writer_keeps_log:
  assumes "create_writer cfg old outs meta = Some w0" and "writer_run c ops w0 = (acks, w)"
    and "list_all (cbor_ok c) (offered ops)"
  shows "\<exists>gs ps bs kept d. kept = concat gs @ concat ps @ bs \<and>
    writer_holds c (session_start cfg old) False w gs ps bs \<and>
    subseq kept (offered ops) \<and> dropped w = of_nat d \<and> (d = 0 \<longrightarrow> kept = acks) \<and>
    length acks \<le> length kept + d \<and> length kept + d \<le> length (offered ops)"
proof -
  have "False \<longrightarrow> list_all outcome_tidy outs" by simp
  note start = create_writer_holds [OF assms(1) this]
  from writer_run_holds [OF start(1) [of c] assms(2,3)] start(2) obtain xs d where
    "log_holds c (session_start cfg old) False w xs" "subseq xs (offered ops)"
    "dropped w = of_nat d" "d = 0 \<longrightarrow> xs = acks" "length acks \<le> length xs + d"
    "length xs + d \<le> length (offered ops)" by auto
  moreover from this(1) obtain gs ps bs where
    "writer_holds c (session_start cfg old) False w gs ps bs" "xs = concat gs @ concat ps @ bs"
    by (auto simp: log_holds_def)
  ultimately show ?thesis
    by (intro exI [of _ gs] exI [of _ ps] exI [of _ bs] exI [of _ xs] exI [of _ d]) simp
qed

section \<open>Flushed events survive\<close>

text \<open>
  C13. Durability.  Once \<open>flush\<close> has returned \<open>Ok\<close> on a chunked session that seals on every
  flush, the file holds every event kept so far: whatever bytes follow the cursor afterwards
  (nothing, a torn unit, a torn footer), scanning the chunks yields those events first.
\<close>
theorem flushed_events_survive:
  assumes "create_writer (Some cc) old outs meta = Some w0" and "writer_run c ops w0 = (acks, w1)"
    and "flush c w1 = (True, w)" and "cc_flush_min_bytes cc = 0"
    and "list_all (cbor_ok c) (offered ops)" and "zstd_ok c"
    and "buf = take (ap_cursor (sw_out w)) (ap_file (sw_out w)) @ tail"
  shows "\<exists>kept d out dmg.
    scan_chunks_checked c buf (length buf) = (kept @ out, dmg) \<and>
    subseq kept (offered ops) \<and> dropped w = of_nat d \<and> (d = 0 \<longrightarrow> kept = acks) \<and>
    length acks \<le> length kept + d"
proof -
  have "False \<longrightarrow> list_all outcome_tidy outs" by simp
  note start = create_writer_holds [OF assms(1) this]
  from writer_run_holds [OF start(1) [of c] assms(2,5)] start(2,3) obtain xs d where
    run: "log_holds c HEAD_MAGIC False w1 xs" "subseq xs (offered ops)"
    "dropped w1 = of_nat d" "d = 0 \<longrightarrow> xs = acks" "length acks \<le> length xs + d"
    "sw_kind w1 = KChunked cc" by (auto simp: session_start_def kind_of_config_def)
  from flush_holds [OF run(1) assms(3)] run(6) assms(4) obtain gs where
    gs: "writer_holds c HEAD_MAGIC False w gs [] []" "concat gs = xs" "dropped w = dropped w1"
    "sw_kind w = KChunked cc" by (auto simp: flush_min_def)
  then have ok: "list_all (group_ok c (KChunked cc)) gs"
    and content: "take (ap_cursor (sw_out w)) (ap_file (sw_out w)) =
      HEAD_MAGIC @ groups_bytes c (KChunked cc) gs"
    by (simp_all add: writer_holds_def appender_holds_def)
  have buf: "buf = HEAD_MAGIC @ groups_bytes c (KChunked cc) gs @ tail"
    using assms(7) content by simp
  have "length (HEAD_MAGIC @ groups_bytes c (KChunked cc) gs) \<le> length buf" by (simp add: buf)
  from scan_file [OF ok assms(6) buf this] obtain out dmg where
    "scan_chunks_checked c buf (length buf) = (xs @ out, dmg)" using gs(2) by auto
  with gs run show ?thesis
    by (intro exI [of _ xs] exI [of _ d] exI [of _ out] exI [of _ dmg]) simp
qed

section \<open>Finalized sessions read back\<close>

definition meta_of :: "session_end \<Rightarrow> read_meta" where
  "meta_of m = \<lparr>rm_event_count = se_event_count m, rm_dropped_events = se_dropped_events m\<rparr>"

lemma write_footer_ok:
  assumes "write_footer c a = (True, a1)" and "length (ap_file a) = ap_cursor a"
  shows "ap_file a1 = ap_file a @ write_footer_at c (ap_cursor a) (ap_index a)"
    and "ap_written_events a1 = ap_written_events a" and "ap_dropped_events a1 = ap_dropped_events a"
proof -
  obtain out b where o: "next_outcome a = (out, b)" by (cases "next_outcome a")
  note f = next_outcome_fields [OF o]
  have "out = IoOk" and a1: "a1 = b\<lparr>ap_file := file_write (ap_cursor b)
      (write_footer_at c (ap_cursor a) (ap_index a)) (ap_file b)\<rparr>"
    using assms(1) o by (auto simp: write_footer_def Let_def split: io_outcome.splits)
  then show "ap_file a1 = ap_file a @ write_footer_at c (ap_cursor a) (ap_index a)"
    "ap_written_events a1 = ap_written_events a" "ap_dropped_events a1 = ap_dropped_events a"
    using f assms(2) by (simp_all add: file_write_def)
qed

lemma close_ok:
  assumes "(case kind of KLegacy \<Rightarrow> (True, a) | KChunked _ \<Rightarrow> write_footer c a) = (True, a1)"
    and "length (ap_file a) = ap_cursor a"
  shows "ap_file a1 = ap_file a @
      (if is_chunked kind then write_footer_at c (ap_cursor a) (ap_index a) else [])"
    and "ap_written_events a1 = ap_written_events a" and "ap_dropped_events a1 = ap_dropped_events a"
proof -
  have "ap_file a1 = ap_file a @
      (if is_chunked kind then write_footer_at c (ap_cursor a) (ap_index a) else []) \<and>
    ap_written_events a1 = ap_written_events a \<and> ap_dropped_events a1 = ap_dropped_events a"
  proof (cases kind)
    case KLegacy
    with assms(1) show ?thesis by simp
  next
    case (KChunked cc)
    with assms(1) have "write_footer c a = (True, a1)" by simp
    from write_footer_ok [OF this assms(2)] KChunked show ?thesis by simp
  qed
  then show "ap_file a1 = ap_file a @
      (if is_chunked kind then write_footer_at c (ap_cursor a) (ap_index a) else [])"
    "ap_written_events a1 = ap_written_events a" "ap_dropped_events a1 = ap_dropped_events a" by auto
qed

lemma finalize_holds:
  assumes "log_holds c base True w xs" and "finalize c code ended w = (True, w')"
    and "se_dropped_events (sw_metadata w) = None"
  shows "\<exists>gs es m. concat gs = xs \<and> list_all (group_ok c (sw_kind w)) gs \<and>
    ap_file (sw_out w') = base @ groups_bytes c (sw_kind w) gs @
      (if is_chunked (sw_kind w)
       then write_footer_at c (length (base @ groups_bytes c (sw_kind w) gs)) es else []) \<and>
    (is_chunked (sw_kind w) \<longrightarrow> index_for c (sw_kind w) (length base) gs es) \<and>
    sw_saved w' = Some m \<and> se_event_count m = Some (of_nat (length xs)) \<and>
    se_dropped_events m = (if 0 < dropped w then Some (dropped w) else None)"
proof -
  from assms(1) obtain ws ps bs where w: "writer_holds c base True w ws ps bs"
    "xs = concat (ws @ ps) @ bs" by (auto simp: log_holds_def)
  obtain ok1 w1 where s: "seal c w = (ok1, w1)" by (cases "seal c w")
  obtain ok2 a where dr: "drain (sw_out w1) = (ok2, a)" by (cases "drain (sw_out w1)")
  have meta1: "sw_metadata w1 = sw_metadata w"
    using s by (auto simp: seal_def Let_def drop_batch_def split: if_splits option.splits prod.splits)
  from seal_holds [OF w(1) s] obtain ws1 ps1 d where
    h: "writer_holds c base True w1 ws1 ps1 []" "loses d xs (concat (ws1 @ ps1))"
    "dropped w1 = dropped w + of_nat d" "ok1 \<longleftrightarrow> d = 0" "sw_kind w1 = sw_kind w" using w(2) by blast
  from drain_writer_holds [OF h(1) dr] obtain gs qs where
    g: "writer_holds c base True (w1\<lparr>sw_out := a\<rparr>) gs qs []" "gs @ qs = ws1 @ ps1"
    "ok2 \<longrightarrow> qs = []" "ap_dropped_events a = dropped w1" by blast
  obtain closed a1 where cl: "(if \<not> ok2
      then (False, a\<lparr>ap_dropped_events := ap_dropped_events a + pending_events a\<rparr>)
      else (case sw_kind w of KLegacy \<Rightarrow> (True, a) | KChunked _ \<Rightarrow> write_footer c a)) = (closed, a1)"
    by fastforce
  let ?w2 = "w1\<lparr>sw_out := a1, sw_metadata := finalize_meta code ended a1 (sw_metadata w1)\<rparr>"
  obtain saved w2 where p: "persist_metadata ?w2 = (saved, w2)" by (cases "persist_metadata ?w2")
  from assms(2) s dr cl p have oks: "ok1" "closed" "saved" "w' = w2"
    by (auto simp: finalize_def split: prod.splits)
  from oks(2) cl have ok2: "ok2" by (auto split: if_splits)
  with g(3) have qs: "qs = []" by simp
  have xs: "concat gs = xs" using h(2,4) oks(1) g(2) qs by auto
  from g(1) qs h(5) have a: "appender_holds c (sw_kind w) base True a gs []"
    by (simp add: writer_holds_def)
  then have okg: "list_all (group_ok c (sw_kind w)) gs"
    and cur: "ap_cursor a = length (base @ groups_bytes c (sw_kind w) gs)"
    and wr: "ap_written_events a = of_nat (length xs)"
    and idx: "if is_chunked (sw_kind w) then index_for c (sw_kind w) (length base) gs (ap_index a)
      else ap_index a = []"
    using appender_cursor [OF a] xs by (simp_all add: appender_holds_def)
  from a have len: "length (ap_file a) = ap_cursor a"
    and "take (ap_cursor a) (ap_file a) = base @ groups_bytes c (sw_kind w) gs"
    by (simp_all add: appender_holds_def)
  then have content: "ap_file a = base @ groups_bytes c (sw_kind w) gs"
    by (metis take_all order_refl)
  have "(case sw_kind w of KLegacy \<Rightarrow> (True, a) | KChunked _ \<Rightarrow> write_footer c a) = (True, a1)"
    using cl ok2 oks(2) by simp
  note a1 = close_ok [OF this len]
  have saved: "sw_saved w' = Some (finalize_meta code ended a1 (sw_metadata w))"
    "ap_file (sw_out w') = ap_file a1"
    using p oks(3,4) meta1 next_outcome_fields [of a1]
    by (auto simp: persist_metadata_def split: prod.splits io_outcome.splits)
  have drop: "ap_dropped_events a1 = dropped w" using a1(3) g(4) h(3,4) oks(1) by simp
  show ?thesis
    using xs okg a1 saved content cur wr idx drop assms(3)
    by (intro exI [of _ gs] exI [of _ "ap_index a"]
        exI [of _ "finalize_meta code ended a1 (sw_metadata w)"])
      (simp add: finalize_meta_def split: if_splits)
qed


lemma finalize_with_signal_holds:
  assumes "log_holds c base True w xs" and "finalize_with_signal c code signal ended w = (True, w')"
    and "se_dropped_events (sw_metadata w) = None"
  shows "\<exists>gs es m. concat gs = xs \<and> list_all (group_ok c (sw_kind w)) gs \<and>
    ap_file (sw_out w') = base @ groups_bytes c (sw_kind w) gs @
      (if is_chunked (sw_kind w)
       then write_footer_at c (length (base @ groups_bytes c (sw_kind w) gs)) es else []) \<and>
    (is_chunked (sw_kind w) \<longrightarrow> index_for c (sw_kind w) (length base) gs es) \<and>
    sw_saved w' = Some m \<and> se_event_count m = Some (of_nat (length xs)) \<and>
    se_dropped_events m = (if 0 < dropped w then Some (dropped w) else None)"
proof -
  let ?w = "w\<lparr>sw_metadata := (sw_metadata w)\<lparr>se_term_signal := signal\<rparr>\<rparr>"
  have same: "sw_kind ?w = sw_kind w" "sw_out ?w = sw_out w" by simp_all
  have "log_holds c base True ?w xs" "se_dropped_events (sw_metadata ?w) = None"
    using assms(1,3) by (simp_all add: log_holds_def writer_holds_def)
  from finalize_holds [OF this(1) assms(2) [unfolded finalize_with_signal_def] this(2)]
  show ?thesis unfolding same .
qed

lemma flt_ok_simps: "flt_ok None = (\<lambda>e. True)" "flt_ok (Some ft) = filter_matches ft"
  by (simp_all add: fun_eq_iff flt_ok_def)

lemma detect_head: "detect_bytes (HEAD_MAGIC @ rest) = Chunked"
  by (simp add: detect_bytes_def HEAD_MAGIC_def FORMAT_VERSION_def)

lemma detect_groups:
  assumes "list_all (group_ok c KLegacy) gs" and "zstd_ok c"
  shows "detect_bytes (groups_bytes c KLegacy gs) = Legacy"
proof (cases gs)
  case Nil
  then show ?thesis by (simp add: detect_bytes_def)
next
  case (Cons g hs)
  with assms have "take 4 (compressed c g) = ZSTD_MAGIC" "4 < length (compressed c g)"
    using group_compressed [of c KLegacy g] by auto
  then obtain r where "compressed c g = ZSTD_MAGIC @ r" by (metis append_take_drop_id)
  with Cons show ?thesis by (simp add: detect_bytes_def group_bytes_def ZSTD_MAGIC_def HEAD_MAGIC_def)
qed

lemma index_length: "index_for c kind off gs es \<Longrightarrow> length es = length gs"
  by (induction c kind off gs es rule: index_for.induct) simp_all

lemma groups_length:
  "list_all (group_ok c kind) gs \<Longrightarrow> zstd_ok c \<Longrightarrow> 4 * length gs \<le> length (groups_bytes c kind gs)"
proof (induction gs)
  case (Cons g gs)
  then have "4 < length (compressed c g)" using group_compressed(2) [of c kind g] by simp
  with Cons show ?case by (simp add: group_bytes_def)
qed simp

text \<open>What the reader finds in a file of whole units, with or without a filter.\<close>

lemma read_session_file:
  fixes sc :: stream_codecs
  defines "c \<equiv> codecs.truncate sc"
  assumes "list_all (group_ok c kind) gs" and "zstd_ok c"
    and "buf = start @ groups_bytes c kind gs @
      (if is_chunked kind then write_footer_at c (length (start @ groups_bytes c kind gs)) es else [])"
    and "start = (if is_chunked kind then HEAD_MAGIC else [])"
    and "is_chunked kind \<Longrightarrow> index_for c kind (length start) gs es"
    and "length buf < 2 ^ 34"
  shows "\<exists>sk. for_each_event sc True buf meta flt collect [] = Inr (filter (flt_ok flt) (concat gs),
      if flt = None then meta_problems meta (of_nat (length (concat gs))) else [])"
proof (cases kind)
  case KLegacy
  then have buf: "buf = groups_bytes c KLegacy gs" using assms(4,5) by simp
  have "\<exists>sk'. read_legacy_from sc flt collect buf 0 (sink_new [], []) = (sk', []) \<and>
      gathered flt (concat gs) (sink_new []) sk'"
    using assms(2,3) KLegacy buf unfolding c_def
    by (intro read_legacy_groups) (simp_all add: sink_new_def)
  moreover have "detect_bytes buf = Legacy"
    using detect_groups assms(2,3) KLegacy buf by simp
  ultimately show ?thesis
    by (auto simp: for_each_event_def read_legacy_zst_def gathered_def sink_new_def)
next
  case (KChunked cc)
  let ?pre = "HEAD_MAGIC @ groups_bytes c kind gs"
  have buf: "buf = ?pre @ write_footer_at c (length ?pre) es" using assms(4,5) KChunked by simp
  have idx: "index_for c kind (length HEAD_MAGIC) gs es" using assms(5,6) KChunked by simp
  have len: "length ?pre < 2 ^ 34" using assms(7) buf by simp
  have n: "length es < 2 ^ 32"
    using index_length [OF idx] groups_length [OF assms(2,3)] len by simp
  have "4 \<le> length ?pre" by (simp add: HEAD_MAGIC_def)
  from read_footer_written [OF this _ n] len
  have footer: "read_footer_with_offset c buf = Inr (Some (es, length ?pre))" unfolding buf by simp
  have "\<exists>sk'. decode_indexed c flt collect buf (length ?pre) 0 es (sink_new [], []) = (sk', []) \<and>
      gathered flt (concat gs) (sink_new []) sk'"
  proof (rule decode_index)
    show "index_for c (KChunked cc) (length HEAD_MAGIC) gs es" using idx KChunked by simp
    show "drop (length HEAD_MAGIC) buf =
        groups_bytes c (KChunked cc) gs @ write_footer_at c (length ?pre) es"
      by (simp add: buf KChunked)
    show "list_all (group_ok c (KChunked cc)) gs" using assms(2) KChunked by simp
    show "length ?pre < 2 ^ 64" using len by simp
  qed (use assms(3) KChunked in \<open>simp_all add: sink_new_def\<close>)
  moreover have "detect_bytes buf = Chunked" by (simp add: buf detect_head)
  ultimately show ?thesis
    by (auto simp: for_each_event_def read_chunked_def footer gathered_def sink_new_def
        simp flip: c_def)
qed

lemma index_count:
  "index_for c kind off gs es \<Longrightarrow> list_all (group_ok c kind) gs \<Longrightarrow>
     sum_list (map (\<lambda>e. unat (ce_event_count e)) es) = length (concat gs)"
  by (induction c kind off gs es rule: index_for.induct)
    (simp_all add: entry_for_def group_ok_def unat_of_nat)

lemma indexed_count:
  assumes "is_chunked kind" and "list_all (group_ok c kind) gs" and "zstd_ok c"
    and "buf = start @ groups_bytes c kind gs @
      (if is_chunked kind then write_footer_at c (length (start @ groups_bytes c kind gs)) es else [])"
    and "start = HEAD_MAGIC" and "is_chunked kind \<Longrightarrow> index_for c kind (length start) gs es"
    and "length buf < 2 ^ 34"
  shows "indexed_event_count c True buf = Some (length (concat gs))"
proof -
  let ?pre = "HEAD_MAGIC @ groups_bytes c kind gs"
  have buf: "buf = ?pre @ write_footer_at c (length ?pre) es" using assms(1,4,5) by simp
  have idx: "index_for c kind (length HEAD_MAGIC) gs es" using assms(1,5,6) by simp
  have len: "length ?pre < 2 ^ 34" using assms(7) buf by simp
  have n: "length es < 2 ^ 32"
    using index_length [OF idx] groups_length [OF assms(2,3)] len by simp
  have "4 \<le> length ?pre" by (simp add: HEAD_MAGIC_def)
  from read_footer_written [OF this _ n] len
  have "read_footer_with_offset c buf = Inr (Some (es, length ?pre))" unfolding buf by simp
  moreover have "detect_bytes buf = Chunked" by (simp add: buf detect_head)
  ultimately show ?thesis
    by (simp add: indexed_event_count_def read_footer_def index_count [OF idx assms(2)])
qed

text \<open>Only \<open>finalize\<close> touches the metadata.\<close>

lemma seal_metadata: "seal c w = (ok, w') \<Longrightarrow> sw_metadata w' = sw_metadata w"
  by (auto simp: seal_def Let_def drop_batch_def split: if_splits option.splits prod.splits)

lemma seal_and_try_drain_metadata:
  "seal_and_try_drain c w = (ok, w') \<Longrightarrow> sw_metadata w' = sw_metadata w"
  by (auto simp: seal_and_try_drain_def dest: seal_metadata split: prod.splits bool.splits)

lemma write_event_metadata: "write_event c ev w = (r, w') \<Longrightarrow> sw_metadata w' = sw_metadata w"
  by (auto simp: write_event_def Let_def dest!: seal_and_try_drain_metadata
      split: sum.splits prod.splits bool.splits if_splits)

lemma flush_metadata: "flush c w = (ok, w') \<Longrightarrow> sw_metadata w' = sw_metadata w"
  by (auto simp: flush_def dest!: seal_metadata split: prod.splits if_splits)

lemma writer_run_metadata: "writer_run c ops w = (acks, w') \<Longrightarrow> sw_metadata w' = sw_metadata w"
proof (induction ops arbitrary: w acks)
  case (Cons op ops)
  show ?case
  proof (cases op)
    case (WriteEvent ev)
    with Cons.prems obtain r w1 acks1 where "write_event c ev w = (r, w1)"
      "writer_run c ops w1 = (acks1, w')" by (auto split: prod.splits)
    with Cons.IH write_event_metadata show ?thesis by metis
  next
    case FlushWriter
    obtain ok w1 where "flush c w = (ok, w1)" by (cases "flush c w")
    with Cons FlushWriter flush_metadata show ?thesis by (metis snd_conv writer_run.simps(3))
  qed
qed simp

text \<open>The file of a finalized session and what its metadata says.\<close>

definition finished ::
  "codecs \<Rightarrow> chunk_config option \<Rightarrow> writer_op list \<Rightarrow> event list \<Rightarrow> writer \<Rightarrow> session_end \<Rightarrow> bool" where
  "finished c cfg ops acks w m \<longleftrightarrow>
     (\<exists>outs code signal ended w0 w1.
        create_writer cfg [] outs session_open = Some w0 \<and> list_all outcome_tidy outs \<and>
        writer_run c ops w0 = (acks, w1) \<and>
        finalize_with_signal c code signal ended w1 = (True, w) \<and> sw_saved w = Some m)"


lemma finished_file:
  fixes sc :: stream_codecs
  defines "c \<equiv> codecs.truncate sc"
  assumes "finished c cfg ops acks w m" and "list_all (cbor_ok c) (offered ops)" and "zstd_ok c"
    and "length (ap_file (sw_out w)) < 2 ^ 34" and "length (offered ops) < 2 ^ 64"
  shows "\<exists>xs d. (\<forall>flt. for_each_event sc True (ap_file (sw_out w)) (Some (meta_of m)) flt collect [] =
        Inr (filter (flt_ok flt) xs, if flt = None \<and> d \<noteq> 0 then [EventsDropped d] else [])) \<and>
      (cfg \<noteq> None \<longrightarrow> indexed_event_count c True (ap_file (sw_out w)) = Some (length xs)) \<and>
      subseq xs (offered ops) \<and> (d = 0 \<longrightarrow> xs = acks) \<and> length acks \<le> length xs + d"
proof -
  let ?kind = "kind_of_config cfg" and ?start = "session_start cfg []"
  from assms(2) obtain outs code signal ended w0 w1 where
    cr: "create_writer cfg [] outs session_open = Some w0" and td: "True \<longrightarrow> list_all outcome_tidy outs"
    and run: "writer_run c ops w0 = (acks, w1)" 
    and fin: "finalize_with_signal c code signal ended w1 = (True, w)"
    and saved: "sw_saved w = Some m" by (auto simp: finished_def)
  note start = create_writer_holds [OF cr td]
  from writer_run_holds [OF start(1) run assms(3)] start(2,3) obtain xs d where
    xs: "log_holds c ?start True w1 xs" "subseq xs (offered ops)" "dropped w1 = of_nat d"
    "d = 0 \<longrightarrow> xs = acks" "length acks \<le> length xs + d" "length xs + d \<le> length (offered ops)"
    "sw_kind w1 = ?kind" by auto
  have "se_dropped_events (sw_metadata w1) = None"
    using writer_run_metadata [OF run] start(4) by (simp add: session_open_def)
  from finalize_with_signal_holds [OF xs(1) fin this, unfolded xs(7)] obtain gs es m' where
    gs: "concat gs = xs" "list_all (group_ok c ?kind) gs"
    "ap_file (sw_out w) = ?start @ groups_bytes c ?kind gs @ (if is_chunked ?kind
       then write_footer_at c (length (?start @ groups_bytes c ?kind gs)) es else [])"
    "is_chunked ?kind \<Longrightarrow> index_for c ?kind (length ?start) gs es"
    "se_event_count m' = Some (of_nat (length xs))"
    "se_dropped_events m' = (if 0 < dropped w1 then Some (dropped w1) else None)"
    and m': "sw_saved w = Some m'" by (elim exE conjE) (rule that, simp_all)
  from m' saved have "m' = m" by simp
  note gs = gs [unfolded this]
  have "d < 2 ^ 64" using xs(6) assms(6) by linarith
  then have d: "unat (of_nat d :: u64) = d" by (simp add: unat_of_nat)
  then have "0 < dropped w1 \<longleftrightarrow> d \<noteq> 0" by (simp add: xs(3) word_less_nat_alt)
  then have meta: "meta_problems (Some (meta_of m)) (of_nat (length xs)) =
      (if d \<noteq> 0 then [EventsDropped d] else [])"
    using gs(5,6) d xs(3) by (simp add: meta_problems_def meta_of_def)
  have st: "?start = (if is_chunked ?kind then HEAD_MAGIC else [])"
    by (cases cfg) (simp_all add: session_start_def kind_of_config_def)
  have read: "for_each_event sc True (ap_file (sw_out w)) (Some (meta_of m)) flt collect [] =
      Inr (filter (flt_ok flt) xs, if flt = None \<and> d \<noteq> 0 then [EventsDropped d] else [])" for flt
    using read_session_file [of sc ?kind gs "ap_file (sw_out w)" ?start es "Some (meta_of m)" flt]
      gs(1-4) assms(4,5) st meta unfolding c_def by auto
  have count: "indexed_event_count c True (ap_file (sw_out w)) = Some (length xs)" if "cfg \<noteq> None"
    using indexed_count [OF _ gs(2) assms(4) gs(3) _ gs(4) assms(5)] st gs(1) that
    by (cases cfg) (auto simp: kind_of_config_def session_start_def)
  show ?thesis using read count xs by (intro exI [of _ xs] exI [of _ d]) simp
qed

text \<open>
  C14. Finalized sessions read back.  Whatever writes failed on the way (their tails being cut
  back), once \<open>finalize\<close> has returned \<open>Ok\<close> the reader returns, without any damage but the count
  of dropped events, a subsequence of the events offered: exactly the acknowledged events, in
  order, when none were dropped.
\<close>
theorem finalized_session_reads_back:
  fixes sc :: stream_codecs
  assumes "finished (codecs.truncate sc) cfg ops acks w m"
    and "list_all (cbor_ok (codecs.truncate sc)) (offered ops)" and "zstd_ok (codecs.truncate sc)"
    and "length (ap_file (sw_out w)) < 2 ^ 34" and "length (offered ops) < 2 ^ 64"
  shows "\<exists>xs d. read_events_checked sc True (ap_file (sw_out w)) (Some (meta_of m)) =
      Inr (xs, if d = 0 then [] else [EventsDropped d]) \<and>
    subseq xs (offered ops) \<and> (d = 0 \<longrightarrow> xs = acks) \<and> length acks \<le> length xs + d"
proof -
  from finished_file [OF assms] obtain xs d where
    "\<And>flt. for_each_event sc True (ap_file (sw_out w)) (Some (meta_of m)) flt collect [] =
        Inr (filter (flt_ok flt) xs, if flt = None \<and> d \<noteq> 0 then [EventsDropped d] else [])"
    "subseq xs (offered ops)" "d = 0 \<longrightarrow> xs = acks" "length acks \<le> length xs + d" by blast
  then show ?thesis
    by (intro exI [of _ xs] exI [of _ d]) (simp add: read_events_checked_def flt_ok_simps)
qed

text \<open>
  C15. Filtered reads.  Reading a finalized session with a filter, which skips the chunks whose
  index entry cannot match, returns exactly the matching events of the full read; and a chunked
  session's footer counts its events without decoding any.
\<close>
theorem filtered_read_is_filter:
  fixes sc :: stream_codecs
  assumes "finished (codecs.truncate sc) cfg ops acks w m"
    and "list_all (cbor_ok (codecs.truncate sc)) (offered ops)" and "zstd_ok (codecs.truncate sc)"
    and "length (ap_file (sw_out w)) < 2 ^ 34" and "length (offered ops) < 2 ^ 64"
    and "read_events_checked sc True (ap_file (sw_out w)) (Some (meta_of m)) = Inr (xs, problems)"
  shows "read_events_filtered sc True (ap_file (sw_out w)) (Some (meta_of m)) flt =
      Inr (filter (filter_matches flt) xs) \<and>
    (cfg \<noteq> None \<longrightarrow>
       indexed_event_count (codecs.truncate sc) True (ap_file (sw_out w)) = Some (length xs))"
proof -
  from finished_file [OF assms(1-5)] obtain ys d where
    "\<And>flt. for_each_event sc True (ap_file (sw_out w)) (Some (meta_of m)) flt collect [] =
        Inr (filter (flt_ok flt) ys, if flt = None \<and> d \<noteq> 0 then [EventsDropped d] else [])"
    "cfg \<noteq> None \<longrightarrow>
       indexed_event_count (codecs.truncate sc) True (ap_file (sw_out w)) = Some (length ys)" by blast
  with assms(6) show ?thesis
    by (auto simp: read_events_checked_def read_events_filtered_def flt_ok_simps)
qed

end
