(* ===== verification/StoreExample.thy ===== *)
theory StoreExample
  imports StoreProps
begin

text \<open>
  A concrete session: small codecs that meet what the code relies on, a disk that fails once,
  and the properties of the store applied to it.
\<close>

section \<open>Codecs\<close>

definition tick :: "nat \<Rightarrow> event" where
  "tick n = mk_event n n (MlxPanicTriggered ''oom'')"

definition demo_zstd_enc :: "bytes \<Rightarrow> bytes option" where
  "demo_zstd_enc d =
     (if length d < 2 ^ 32 then Some (ZSTD_MAGIC @ [4] @ put_u32 (of_nat (length d)) @ d) else None)"

lemma tick_simps [simp]: "ts_mono_ns (tick n) = of_nat n" "ev_source (tick n) = MetalHook"
  by (simp_all add: tick_def mk_event_def)

text \<open>A sum of the bytes stands for the checksum, and the sequence number for the CBOR body.\<close>

definition demo_codecs :: stream_codecs where
  "demo_codecs =
     \<lparr>cbor_enc = (\<lambda>ev. Some [ucast (ev_seq ev)]),
      cbor_dec = (\<lambda>bs. case bs of [b] \<Rightarrow> Some (tick (unat b)) | _ \<Rightarrow> None),
      zstd_enc = demo_zstd_enc,
      zstd_dec = (\<lambda>z. if take 5 z = ZSTD_MAGIC @ [4] then Some (drop 9 z) else None),
      zstd_frame_size = (\<lambda>z. Some (9 + unat (u32_at z 5))),
      crc32 = (\<lambda>bs. sum_list (map ucast bs)),
      zstd_steps = (\<lambda>z. ([], True)),
      zstd_tail = (\<lambda>z n. [])\<rparr>"

abbreviation demo :: codecs where
  "demo \<equiv> codecs.truncate demo_codecs"

lemma demo_fields:
  "cbor_enc demo_codecs = (\<lambda>ev. Some [ucast (ev_seq ev)])"
  "cbor_dec demo_codecs = (\<lambda>bs. case bs of [b] \<Rightarrow> Some (tick (unat b)) | _ \<Rightarrow> None)"
  "zstd_enc demo_codecs = demo_zstd_enc"
  "zstd_dec demo_codecs = (\<lambda>z. if take 5 z = ZSTD_MAGIC @ [4] then Some (drop 9 z) else None)"
  "zstd_frame_size demo_codecs = (\<lambda>z. Some (9 + unat (u32_at z 5)))"
  by (simp_all add: demo_codecs_def)

lemma demo_zstd_ok: "zstd_ok demo"
  by (auto simp: zstd_ok_def demo_fields demo_zstd_enc_def frame_has_checksum_def ZSTD_MAGIC_def
      u32_at_def unat_of_nat split: if_splits)

section \<open>A session\<close>

definition demo_config :: chunk_config where
  "demo_config = \<lparr>cc_max_events = 2, cc_max_bytes = 1024, cc_flush_min_bytes = 0\<rparr>"

text \<open>The magic and the metadata are written, then the first chunk tears and is cut back.\<close>

definition demo_disk :: "io_outcome list" where
  "demo_disk = [IoOk, IoOk, IoFail 3 True ''disk full'']"

definition demo_ops :: "writer_op list" where
  "demo_ops = [WriteEvent (tick 1), FlushWriter, WriteEvent (tick 2), WriteEvent (tick 3)]"

text \<open>The frame of an event and the chunk of a batch.\<close>

definition tick_frame :: "nat \<Rightarrow> bytes" where
  "tick_frame n = put_u32 1 @ [ucast (ev_seq (tick n))]"

definition demo_frame :: "bytes \<Rightarrow> bytes" where
  "demo_frame d = ZSTD_MAGIC @ [4] @ put_u32 (of_nat (length d)) @ d"

lemma length_tick_frame [simp]: "length (tick_frame n) = 5"
  by (simp add: tick_frame_def)

lemma length_demo_frame [simp]: "length (demo_frame d) = 9 + length d"
  by (simp add: demo_frame_def ZSTD_MAGIC_def)

lemma encode_tick: "encode_frame demo (tick n) = Inr (tick_frame n)"
  by (simp add: encode_frame_def demo_fields tick_frame_def MAX_FRAME_BYTES_def)

lemma demo_zstd: "length d < 2 ^ 32 \<Longrightarrow> zstd_enc demo_codecs d = Some (demo_frame d)"
  by (simp add: demo_fields demo_zstd_enc_def demo_frame_def)

text \<open>The writer between the calls: its batch and its appender.\<close>

definition demo_writer :: "batch \<Rightarrow> appender \<Rightarrow> writer" where
  "demo_writer b a = \<lparr>sw_kind = KChunked demo_config, sw_batch = b, sw_out = a,
     sw_metadata = session_open, sw_saved = Some session_open\<rparr>"

definition demo_batch :: "bytes \<Rightarrow> nat \<Rightarrow> nat \<Rightarrow> nat \<Rightarrow> batch" where
  "demo_batch d n lo hi = \<lparr>bt_data = d, bt_event_count = of_nat n, bt_uncompressed_bytes = length d,
     bt_min_ts = of_nat lo, bt_max_ts = of_nat hi, bt_source_bitmap = 512\<rparr>"

definition demo_unit :: "bytes \<Rightarrow> nat \<Rightarrow> nat \<Rightarrow> nat \<Rightarrow> sealed_unit" where
  "demo_unit d n lo hi = \<lparr>su_bytes = put_u32 (of_nat (length (demo_frame d))) @ demo_frame d,
     su_events = of_nat n,
     su_entry = Some \<lparr>ce_offset = 0, ce_comp_len = of_nat (length (demo_frame d)),
       ce_min_ts = of_nat lo, ce_max_ts = of_nat hi, ce_source_bitmap = 512, ce_event_count = of_nat n\<rparr>\<rparr>"

definition demo_out :: "io_outcome list \<Rightarrow> sealed_unit list \<Rightarrow> string option \<Rightarrow> appender" where
  "demo_out outs us err = (appender_new HEAD_MAGIC 4 outs)
     \<lparr>ap_pending := us, ap_pending_bytes := sum_list (map (length \<circ> su_bytes) us), ap_last_error := err\<rparr>"

lemma demo_created:
  "create_writer (Some demo_config) [] demo_disk session_open =
     Some (demo_writer batch_new (demo_out [IoFail 3 True ''disk full''] [] None))"
  by (simp add: create_writer_def demo_disk_def persist_metadata_def next_outcome_def
      appender_new_def demo_writer_def demo_out_def HEAD_MAGIC_def)

lemma two_events: "\<not> (2 :: u32) \<le> 1"
  by (simp add: word_le_nat_alt)

lemma demo_write_first:
  "write_event demo (tick 1) (demo_writer batch_new a) =
     (Inr (), demo_writer (demo_batch (tick_frame 1) 1 1 1) a)"
  by (simp add: write_event_def encode_tick needs_seal_def demo_writer_def batch_new_def
      batch_push_def batch_full_def demo_config_def batch_limit_def demo_batch_def
      source_bit_def MAX_FRAME_BYTES_def Let_def two_events)

lemma demo_flush:
  "flush demo (demo_writer (demo_batch (tick_frame 1) 1 1 1) (demo_out [IoFail 3 True msg] [] None)) =
     (False, demo_writer batch_new (demo_out [] [demo_unit (tick_frame 1) 1 1 1] (Some msg)))"
  by (simp add: flush_def demo_writer_def demo_batch_def flush_min_def demo_config_def seal_def
      demo_zstd seal_unit_def MAX_CHUNK_BYTES_def make_room_def demo_out_def appender_new_def
      enqueue_def drain_def next_outcome_def file_torn_def file_write_def HEAD_MAGIC_def demo_unit_def)

lemma demo_flush_again:
  "flush demo (demo_writer batch_new (demo_out [] [u] err)) =
     (True, demo_writer batch_new (unit_written u [] (demo_out [] [u] None)))"
  by (simp add: flush_def demo_writer_def batch_new_def drain_def demo_out_def next_outcome_def
      appender_new_def unit_written_def split: option.split)

lemma demo_write_second:
  "write_event demo (tick 2) (demo_writer batch_new a) =
     (Inr (), demo_writer (demo_batch (tick_frame 2) 1 2 2) a)"
  by (simp add: write_event_def encode_tick needs_seal_def demo_writer_def batch_new_def
      batch_push_def batch_full_def demo_config_def batch_limit_def demo_batch_def
      source_bit_def MAX_FRAME_BYTES_def Let_def two_events)

definition demo_end :: appender where
  "demo_end =
     (let u1 = demo_unit (tick_frame 1) 1 1 1; u2 = demo_unit (tick_frame 2 @ tick_frame 3) 2 2 3
      in unit_written u2 [] ((unit_written u1 [] (demo_out [] [u1] None))
           \<lparr>ap_pending := [u2], ap_pending_bytes := length (su_bytes u2)\<rparr>))"

lemma demo_write_third:
  "write_event demo (tick 3) (demo_writer (demo_batch (tick_frame 2) 1 2 2)
       (demo_out [] [demo_unit (tick_frame 1) 1 1 1] err)) =
     (Inr (), demo_writer batch_new demo_end)"
  by (simp add: write_event_def encode_tick needs_seal_def demo_writer_def demo_batch_def
      batch_push_def batch_full_def demo_config_def batch_limit_def
      source_bit_def MAX_FRAME_BYTES_def Let_def seal_and_try_drain_def seal_def make_room_def
      demo_out_def drain_def demo_zstd seal_unit_def MAX_CHUNK_BYTES_def enqueue_def
      next_outcome_def appender_new_def unit_written_def demo_end_def demo_unit_def MAX_PENDING_BYTES_def)

section \<open>The properties at work\<close>

definition demo_closed :: writer where
  "demo_closed = snd (finalize demo (Some 0) ''2026-01-01T00:00:00Z'' (demo_writer batch_new demo_end))"

lemma demo_run:
  "writer_run demo demo_ops (demo_writer batch_new (demo_out [IoFail 3 True ''disk full''] [] None)) =
     ([tick 1, tick 2, tick 3], demo_writer batch_new demo_end)"
  by (simp only: demo_ops_def writer_run.simps demo_write_first demo_flush demo_write_second
      demo_write_third prod.case snd_conv if_True refl)

lemma finalize_idle:
  assumes "ap_pending a = []" and "ap_disk a = []"
  shows "fst (finalize demo code ended (demo_writer batch_new a))"
    and "ap_file (sw_out (snd (finalize demo code ended (demo_writer batch_new a)))) =
      file_write (ap_cursor a) (write_footer_at demo (ap_cursor a) (ap_index a)) (ap_file a)"
    and "sw_saved (snd (finalize demo code ended (demo_writer batch_new a))) \<noteq> None"
  using assms
  by (simp_all add: finalize_def seal_def demo_writer_def batch_new_def drain_def Let_def
      write_footer_def next_outcome_def persist_metadata_def)

lemma demo_end_idle: "ap_pending demo_end = []" "ap_disk demo_end = []"
  by (simp_all add: demo_end_def Let_def unit_written_def demo_out_def appender_new_def)

lemma demo_finalized:
  "finalize demo (Some 0) ''2026-01-01T00:00:00Z'' (demo_writer batch_new demo_end) = (True, demo_closed)"
  using finalize_idle(1) [OF demo_end_idle] by (simp add: demo_closed_def prod_eq_iff)

lemma demo_closed_file:
  "ap_file (sw_out demo_closed) =
     file_write (ap_cursor demo_end) (write_footer_at demo (ap_cursor demo_end) (ap_index demo_end))
       (ap_file demo_end)"
  using finalize_idle(2) [OF demo_end_idle] by (simp add: demo_closed_def)

lemma length_file_write_le: "length (file_write pos bs file) \<le> length file + length bs"
  by (simp add: file_write_def)

lemma demo_length: "length (ap_file (sw_out demo_closed)) < 2 ^ 34"
proof -
  have "length (ap_file demo_end) < 100" and "length (ap_index demo_end) = 2"
    by (simp_all add: demo_end_def Let_def unit_written_def demo_out_def appender_new_def
        demo_unit_def file_write_def HEAD_MAGIC_def)
  then have "length (write_footer_at demo (ap_cursor demo_end) (ap_index demo_end)) < 200"
    by (simp add: write_footer_at_def length_footer_body ENTRY_SIZE_def)
  with \<open>length (ap_file demo_end) < 100\<close> show ?thesis
    using length_file_write_le [of "ap_cursor demo_end"
        "write_footer_at demo (ap_cursor demo_end) (ap_index demo_end)" "ap_file demo_end"]
    by (simp add: demo_closed_file)
qed

lemma demo_cbor_ok: "list_all (cbor_ok demo) [tick 1, tick 2, tick 3]"
  by (simp add: cbor_ok_def demo_fields tick_def mk_event_def)

definition demo_flushed :: appender where
  "demo_flushed = unit_written (demo_unit (tick_frame 1) 1 1 1) []
     (demo_out [] [demo_unit (tick_frame 1) 1 1 1] None)"

definition demo_parsed :: "event list read_state" where
  "demo_parsed = feed_pieces demo None collect
     [take 3 (tick_frame 1), drop 3 (tick_frame 1) @ put_u32 1] (parser_new 8, sink_new [], [])"

lemma writer_keeps_log_witness:
  "\<exists>gs ps bs kept d. kept = concat gs @ concat ps @ bs \<and>
    writer_holds demo (session_start (Some demo_config) []) False (demo_writer batch_new demo_end)
      gs ps bs \<and>
    subseq kept [tick 1, tick 2, tick 3] \<and> ap_dropped_events demo_end = of_nat d \<and>
    (d = 0 \<longrightarrow> kept = [tick 1, tick 2, tick 3]) \<and> 3 \<le> length kept + d \<and> length kept + d \<le> 3"
  using writer_keeps_log [OF demo_created demo_run] demo_cbor_ok
  by (simp add: demo_ops_def demo_writer_def numeral_3_eq_3)

lemma flushed_events_survive_witness:
  "\<exists>kept d out dmg.
    scan_chunks_checked demo
      (take (ap_cursor demo_flushed) (ap_file demo_flushed) @ [0xFF, 0xFF])
      (length (take (ap_cursor demo_flushed) (ap_file demo_flushed) @ [0xFF, 0xFF])) =
      (kept @ out, dmg) \<and>
    subseq kept [tick 1] \<and> ap_dropped_events demo_flushed = of_nat d \<and>
    (d = 0 \<longrightarrow> kept = [tick 1]) \<and> 1 \<le> length kept + d"
proof -
  have run: "writer_run demo [WriteEvent (tick 1), FlushWriter]
      (demo_writer batch_new (demo_out [IoFail 3 True ''disk full''] [] None)) =
    ([tick 1], demo_writer batch_new (demo_out [] [demo_unit (tick_frame 1) 1 1 1] (Some ''disk full'')))"
    by (simp only: writer_run.simps demo_write_first demo_flush prod.case snd_conv if_True refl)
  from flushed_events_survive [OF demo_created run demo_flush_again, of
      "take (ap_cursor demo_flushed) (ap_file demo_flushed) @ [0xFF, 0xFF]" "[0xFF, 0xFF]"]
    demo_cbor_ok demo_zstd_ok
  show ?thesis by (simp add: demo_config_def demo_flushed_def demo_writer_def)
qed

lemma demo_finished: "finished demo (Some demo_config) demo_ops [tick 1, tick 2, tick 3] demo_closed
    (the (sw_saved demo_closed))"
proof -
  have "list_all outcome_tidy demo_disk" by (simp add: demo_disk_def)
  moreover have "sw_saved demo_closed = Some (the (sw_saved demo_closed))"
    using finalize_idle(3) [OF demo_end_idle] by (simp add: demo_closed_def)
  moreover have "finalize_with_signal demo (Some 0) None ''2026-01-01T00:00:00Z''
      (demo_writer batch_new demo_end) = (True, demo_closed)"
    using demo_finalized by (simp add: finalize_with_signal_def demo_writer_def session_open_def)
  ultimately show ?thesis
    unfolding finished_def using demo_created demo_run by blast
qed

lemma finalized_session_reads_back_witness:
  "\<exists>xs d. read_events_checked demo_codecs True (ap_file (sw_out demo_closed))
      (Some (meta_of (the (sw_saved demo_closed)))) =
      Inr (xs, if d = 0 then [] else [EventsDropped d]) \<and>
    subseq xs [tick 1, tick 2, tick 3] \<and> (d = 0 \<longrightarrow> xs = [tick 1, tick 2, tick 3]) \<and>
    3 \<le> length xs + d"
  using finalized_session_reads_back [OF demo_finished _ demo_zstd_ok demo_length] demo_cbor_ok
  by (simp add: demo_ops_def numeral_3_eq_3)

lemma demo_read:
  "\<exists>xs problems. read_events_checked demo_codecs True (ap_file (sw_out demo_closed))
      (Some (meta_of (the (sw_saved demo_closed)))) = Inr (xs, problems)"
  using finished_file [OF demo_finished _ demo_zstd_ok demo_length] demo_cbor_ok
  by (auto simp: demo_ops_def read_events_checked_def)

lemma filtered_read_is_filter_witness:
  "\<exists>xs. read_events_filtered demo_codecs True (ap_file (sw_out demo_closed))
      (Some (meta_of (the (sw_saved demo_closed)))) (no_filter\<lparr>ef_from_ts := Some 2\<rparr>) =
      Inr (filter (filter_matches (no_filter\<lparr>ef_from_ts := Some 2\<rparr>)) xs) \<and>
    indexed_event_count demo True (ap_file (sw_out demo_closed)) = Some (length xs)"
proof -
  from demo_read obtain xs problems where
    "read_events_checked demo_codecs True (ap_file (sw_out demo_closed))
      (Some (meta_of (the (sw_saved demo_closed)))) = Inr (xs, problems)" by blast
  from filtered_read_is_filter [OF demo_finished _ demo_zstd_ok demo_length _ this] demo_cbor_ok
  show ?thesis by (auto simp: demo_ops_def)
qed

text \<open>The parser on two frames cut in the middle, the second one short of a byte.\<close>

lemma parser_reads_pieces_witness:
  "parser_finish (fst demo_parsed) (snd (snd demo_parsed)) =
      [UndecodableData (read_stop demo (tick_frame 1 @ put_u32 1)) 8 Truncated] \<and>
    fst (snd demo_parsed) = push_all None collect [tick 1] (sink_new [])"
proof -
  obtain p sk pb where st: "demo_parsed = (p, sk, pb)" by (cases demo_parsed)
  have joined: "take 3 fr @ drop 3 fr @ rest = fr @ rest" for fr rest :: bytes
    by (simp flip: append_assoc)
  have "read_frames demo (concat [take 3 (tick_frame 1), drop 3 (tick_frame 1) @ put_u32 1]) =
      ([tick 1], Some Truncated)"
  proof -
    have "cbor_ok demo (tick 1)" using demo_cbor_ok by simp
    note first = read_encoded_frame [OF encode_tick this, of "put_u32 1"]
    have "put_u32 1 \<noteq> []" using length_put(1) [of 1] by (metis list.size(3) zero_neq_numeral)
    then have "read_frame demo (put_u32 1) = Inl Truncated"
      by (simp add: read_frame_def Let_def MAX_FRAME_BYTES_def)
    with first show ?thesis
      by (simp add: read_frames.simps [of demo "tick_frame 1 @ put_u32 1"]
          read_frames.simps [of demo "put_u32 1"] append_assoc [symmetric] del: append_assoc One_nat_def)
  qed
  from parser_reads_pieces [OF nonstop_collect _ _ this, of "sink_new []" None 8 "[]" p sk pb] st
  show ?thesis by (simp add: demo_parsed_def sink_new_def joined)
qed

end
