(* ===== verification/ActiveSession.thy ===== *)
theory ActiveSession
  imports SessionWriter FlightRecorder
begin

text \<open>
  Active sessions of the daemon, \<open>crates/smeltr-daemon/src/sessions.rs\<close>, and the session clock,
  \<open>crates/smeltr-core/src/clock.rs\<close>.  An instant is a number of nanoseconds of the system's
  monotonic clock; the readings an operation takes are its arguments.  The flight recorder and
  the bus are shared by all sessions, so the operations that reach them take and return them;
  a bus is the list of the events published.
\<close>

section \<open>The clock\<close>

record mono_clock =
  mc_epoch :: nat
  mc_epoch_raw_ns :: u64

definition now_ns :: "mono_clock \<Rightarrow> nat \<Rightarrow> u64" where
  "now_ns clk now = of_nat (now - mc_epoch clk)"

definition at_raw_ns :: "mono_clock \<Rightarrow> u64 \<Rightarrow> nat \<Rightarrow> u64" where
  "at_raw_ns clk raw now = min (sat_sub raw (mc_epoch_raw_ns clk)) (now_ns clk now)"

section \<open>State\<close>

record inner =
  in_writer :: writer
  in_session_id :: uuid
  in_clock :: mono_clock
  in_wall_epoch_ns :: u64
  in_seq :: u64
  in_storage_failing :: bool
  in_dropped_reported :: u64
  in_drop_reported :: bool
  in_storage_reports :: u64

definition inner_new :: "writer \<Rightarrow> uuid \<Rightarrow> mono_clock \<Rightarrow> u64 \<Rightarrow> inner" where
  "inner_new w sid clk wall =
     \<lparr>in_writer = w, in_session_id = sid, in_clock = clk, in_wall_epoch_ns = wall, in_seq = 0,
      in_storage_failing = False, in_dropped_reported = 0, in_drop_reported = False,
      in_storage_reports = 0\<rparr>"

text \<open>
  \<open>as_inner\<close> is \<open>None\<close> once the session is finalized; \<open>as_left\<close> is then the writer whose files
  it left on disk.
\<close>

record active_session =
  as_id :: uuid
  as_inner :: "inner option"
  as_scope_token :: "string option"
  as_left :: "writer option"

record shared =
  sh_flight_recorder :: "flight_recorder option"
  sh_bus :: "event list option"

section \<open>Storage reports\<close>

definition storage_error :: "writer \<Rightarrow> string option" where
  "storage_error w = ap_last_error (sw_out w)"

definition dropped_events :: "writer \<Rightarrow> u64" where
  "dropped_events w = ap_dropped_events (sw_out w)"

definition report_failing :: "inner \<Rightarrow> inner" where
  "report_failing s =
     (case (storage_error (in_writer s), in_storage_failing s) of
        (Some _, False) \<Rightarrow>
          s\<lparr>in_storage_failing := True, in_storage_reports := in_storage_reports s + 1\<rparr>
      | (None, True) \<Rightarrow>
          s\<lparr>in_storage_failing := False, in_storage_reports := in_storage_reports s + 1\<rparr>
      | _ \<Rightarrow> s)"

definition report_drops :: "inner \<Rightarrow> inner" where
  "report_drops s =
     (let d = dropped_events (in_writer s);
          s1 = (if in_dropped_reported s < d \<and> in_storage_failing s then
                  (if in_drop_reported s then s
                   else s\<lparr>in_storage_reports := in_storage_reports s + 1, in_drop_reported := True\<rparr>)
                else if \<not> in_storage_failing s then s\<lparr>in_drop_reported := False\<rparr>
                else s)
      in s1\<lparr>in_dropped_reported := d\<rparr>)"

definition report_storage :: "inner \<Rightarrow> inner" where
  "report_storage s = report_drops (report_failing s)"

section \<open>Appending\<close>

datatype session_error = AlreadyFinalized | NotWritten codec_error

definition stamp :: "source \<Rightarrow> u32 option \<Rightarrow> u64 option \<Rightarrow> payload \<Rightarrow> nat \<Rightarrow> inner \<Rightarrow> event" where
  "stamp src pid raw p now s =
     (let ts = (case raw of Some r \<Rightarrow> at_raw_ns (in_clock s) r now | None \<Rightarrow> now_ns (in_clock s) now)
      in \<lparr>ts_mono_ns = ts, ts_wall_ns = in_wall_epoch_ns s + ts, ev_session_id = in_session_id s,
          ev_source = src, ev_pid = pid, ev_seq = in_seq s + 1, payload = p\<rparr>)"

definition publish :: "event \<Rightarrow> nat \<Rightarrow> shared \<Rightarrow> shared" where
  "publish ev arrived sh =
     \<lparr>sh_flight_recorder = map_option (push_at ev arrived) (sh_flight_recorder sh),
      sh_bus = map_option (\<lambda>b. b @ [ev]) (sh_bus sh)\<rparr>"

text \<open>\<open>now\<close> is the clock's reading for the stamp, \<open>arrived\<close> the recorder's.\<close>

definition append_internal ::
  "codecs \<Rightarrow> source \<Rightarrow> u32 option \<Rightarrow> u64 option \<Rightarrow> payload \<Rightarrow> nat \<Rightarrow> nat \<Rightarrow>
   active_session \<times> shared \<Rightarrow> (session_error + event) \<times> active_session \<times> shared" where
  "append_internal c src pid raw p now arrived st =
     (case st of (s, sh) \<Rightarrow>
        (case as_inner s of
           None \<Rightarrow> (Inl AlreadyFinalized, s, sh)
         | Some i \<Rightarrow>
             (let ev = stamp src pid raw p now i; i1 = i\<lparr>in_seq := in_seq i + 1\<rparr>
              in case write_event c ev (in_writer i1) of
                   (written, w) \<Rightarrow>
                     (let s1 = s\<lparr>as_inner := Some (report_storage (i1\<lparr>in_writer := w\<rparr>))\<rparr>
                      in case written of
                           Inl e \<Rightarrow> (Inl (NotWritten e), s1, sh)
                         | Inr _ \<Rightarrow> (Inr ev, s1, publish ev arrived sh)))))"

definition session_append ::
  "codecs \<Rightarrow> source \<Rightarrow> u32 option \<Rightarrow> payload \<Rightarrow> nat \<Rightarrow> nat \<Rightarrow>
   active_session \<times> shared \<Rightarrow> (session_error + event) \<times> active_session \<times> shared" where
  "session_append c src pid p = append_internal c src pid None p"

definition session_append_at ::
  "codecs \<Rightarrow> source \<Rightarrow> u32 option \<Rightarrow> u64 \<Rightarrow> payload \<Rightarrow> nat \<Rightarrow> nat \<Rightarrow>
   active_session \<times> shared \<Rightarrow> (session_error + event) \<times> active_session \<times> shared" where
  "session_append_at c src pid raw p = append_internal c src pid (Some raw) p"

section \<open>Opening\<close>

text \<open>
  What the environment supplies when a session opens: its fresh id, the disk of its files, the
  clock readings and the wall clock.
\<close>

record session_seed =
  sd_id :: uuid
  sd_disk :: "io_outcome list"
  sd_clock :: mono_clock
  sd_wall :: u64
  sd_now :: nat
  sd_arrived :: nat

definition open_with ::
  "codecs \<Rightarrow> chunk_config option \<Rightarrow> string option \<Rightarrow> u32 option \<Rightarrow> session_seed \<Rightarrow> shared \<Rightarrow>
   (active_session \<times> shared) option" where
  "open_with c cfg token pid sd sh =
     (case create_writer cfg [] (sd_disk sd) session_open of
        None \<Rightarrow> None
      | Some w \<Rightarrow>
          (case append_internal c System pid None (SessionStarted (sd_wall sd)) (sd_now sd) (sd_arrived sd)
             (\<lparr>as_id = sd_id sd, as_inner = Some (inner_new w (sd_id sd) (sd_clock sd) (sd_wall sd)),
               as_scope_token = token, as_left = None\<rparr>, sh) of
             (Inl _, _) \<Rightarrow> None
           | (Inr _, st) \<Rightarrow> Some st))"

text \<open>The index is asked for by the recording's client or by the daemon's environment.\<close>

definition chunked_format :: "bool \<Rightarrow> bool \<Rightarrow> chunk_config option" where
  "chunked_format requested env = (if requested \<or> env then Some default_chunk_config else None)"

definition open_new :: "codecs \<Rightarrow> bool \<Rightarrow> session_seed \<Rightarrow> shared \<Rightarrow> (active_session \<times> shared) option" where
  "open_new c env sd = open_with c (chunked_format False env) None None sd"

record scoped_opts =
  so_pid :: u32
  so_scope_token :: "string option"
  so_chunked :: bool

definition open_scoped ::
  "codecs \<Rightarrow> bool \<Rightarrow> scoped_opts \<Rightarrow> session_seed \<Rightarrow> shared \<Rightarrow> (active_session \<times> shared) option" where
  "open_scoped c env opts sd =
     open_with c (chunked_format (so_chunked opts) env) (so_scope_token opts) (Some (so_pid opts)) sd"

section \<open>Flushing and finalizing\<close>

definition session_flush :: "codecs \<Rightarrow> active_session \<Rightarrow> bool \<times> active_session" where
  "session_flush c s =
     (case as_inner s of
        None \<Rightarrow> (True, s)
      | Some i \<Rightarrow>
          (case flush c (in_writer i) of
             (ok, w) \<Rightarrow> (ok, s\<lparr>as_inner := Some (report_storage (i\<lparr>in_writer := w\<rparr>))\<rparr>)))"

text \<open>\<open>try_flush\<close>: \<open>Some True\<close> when flushed or finalized, \<open>Some False\<close> when skipped, \<open>None\<close> on error.\<close>

definition try_flush :: "codecs \<Rightarrow> bool \<Rightarrow> active_session \<Rightarrow> bool option \<times> active_session" where
  "try_flush c held s =
     (if held then (Some False, s)
      else (case session_flush c s of (ok, s1) \<Rightarrow> (if ok then Some True else None, s1)))"

definition storage_is_failing :: "active_session \<Rightarrow> bool" where
  "storage_is_failing s = (case as_inner s of None \<Rightarrow> False | Some i \<Rightarrow> in_storage_failing i)"

record closing =
  cl_wall :: u64
  cl_now :: nat
  cl_arrived :: nat
  cl_ended :: string

definition session_finalize ::
  "codecs \<Rightarrow> i32 option \<Rightarrow> i32 option \<Rightarrow> string \<Rightarrow> closing \<Rightarrow> active_session \<times> shared \<Rightarrow>
   bool \<times> active_session \<times> shared" where
  "session_finalize c code sig reason cl st =
     (case session_append c System None (SessionEnded (cl_wall cl) reason) (cl_now cl) (cl_arrived cl) st of
        (_, s, sh) \<Rightarrow>
          (case as_inner s of
             None \<Rightarrow> (True, s, sh)
           | Some i \<Rightarrow>
               (case finalize_with_signal c code sig (cl_ended cl) (in_writer i) of
                  (ok, w) \<Rightarrow> (ok, s\<lparr>as_inner := None, as_left := Some w\<rparr>, sh))))"

end
