(* ===== verification/SessionRouter.thy ===== *)
theory SessionRouter
  imports ActiveSession
begin

text \<open>
  The session router of the daemon, \<open>crates/smeltr-daemon/src/session_router.rs\<close>.  Sessions are
  shared (\<open>Arc\<close>) between the maps, so they live in a store keyed by their ids and the maps hold
  ids.  Every operation runs as a whole; \<open>by_pid\<close> is iterated, so it is an association list.
\<close>

record router =
  rt_ambient :: uuid
  rt_by_pid :: "(u32 \<times> uuid) list"
  rt_by_token :: "string \<rightharpoonup> uuid"
  rt_attach_order :: "u32 list"
  rt_sessions :: "uuid \<rightharpoonup> active_session"
  rt_shared :: shared

definition router_new :: "active_session \<Rightarrow> shared \<Rightarrow> router" where
  "router_new ambient sh =
     \<lparr>rt_ambient = as_id ambient, rt_by_pid = [], rt_by_token = Map.empty, rt_attach_order = [],
      rt_sessions = [as_id ambient \<mapsto> ambient], rt_shared = sh\<rparr>"

section \<open>Routing\<close>

definition newest_scoped :: "router \<Rightarrow> uuid option" where
  "newest_scoped r =
     (case filter (\<lambda>p. map_of (rt_by_pid r) p \<noteq> None) (rev (rt_attach_order r)) of
        [] \<Rightarrow> None
      | p # _ \<Rightarrow> map_of (rt_by_pid r) p)"

definition route_for :: "source \<Rightarrow> string option \<Rightarrow> u32 option \<Rightarrow> router \<Rightarrow> uuid" where
  "route_for src token pid r =
     (case Option.bind token (rt_by_token r) of
        Some s \<Rightarrow> s
      | None \<Rightarrow>
          (case Option.bind pid (map_of (rt_by_pid r)) of
             Some s \<Rightarrow> s
           | None \<Rightarrow>
               (case (if src = SMark then newest_scoped r else None) of
                  Some s \<Rightarrow> s
                | None \<Rightarrow> rt_ambient r)))"

text \<open>
  \<open>append_stamped\<close>, of which \<open>append\<close> and \<open>append_at\<close> are instances, routes the event to a
  session (an \<open>Arc\<close> it clones) and then appends to that session, which another thread may have
  ended meanwhile: \<open>append_to\<close> is the second half.  A map never holds an id without its session;
  the model answers as a finalized session there.
\<close>

definition append_to ::
  "codecs \<Rightarrow> uuid \<Rightarrow> source \<Rightarrow> u32 option \<Rightarrow> u64 option \<Rightarrow> payload \<Rightarrow> nat \<Rightarrow> nat \<Rightarrow>
   router \<Rightarrow> (session_error + event) \<times> router" where
  "append_to c target src pid raw p now arrived r =
     (case rt_sessions r target of
        None \<Rightarrow> (Inl AlreadyFinalized, r)
      | Some s \<Rightarrow>
          (case append_internal c src pid raw p now arrived (s, rt_shared r) of
             (res, s', sh) \<Rightarrow>
               (res, r\<lparr>rt_sessions := (rt_sessions r)(target \<mapsto> s'), rt_shared := sh\<rparr>)))"

definition append_stamped ::
  "codecs \<Rightarrow> source \<Rightarrow> u32 option \<Rightarrow> string option \<Rightarrow> u64 option \<Rightarrow> payload \<Rightarrow> nat \<Rightarrow> nat \<Rightarrow>
   router \<Rightarrow> (session_error + event) \<times> router" where
  "append_stamped c src pid token raw p now arrived r =
     append_to c (route_for src token pid r) src pid raw p now arrived r"

section \<open>Attaching and detaching\<close>

definition finalize_at ::
  "codecs \<Rightarrow> i32 option \<Rightarrow> i32 option \<Rightarrow> string \<Rightarrow> closing \<Rightarrow> uuid \<Rightarrow> router \<Rightarrow> bool \<times> router" where
  "finalize_at c code sig reason cl sid r =
     (case rt_sessions r sid of
        None \<Rightarrow> (True, r)
      | Some s \<Rightarrow>
          (case session_finalize c code sig reason cl (s, rt_shared r) of
             (ok, s', sh) \<Rightarrow>
               (ok, r\<lparr>rt_sessions := (rt_sessions r)(sid \<mapsto> s'), rt_shared := sh\<rparr>)))"

definition token_of :: "router \<Rightarrow> uuid \<Rightarrow> string option" where
  "token_of r sid = Option.bind (rt_sessions r sid) as_scope_token"

definition register :: "u32 \<Rightarrow> string option \<Rightarrow> active_session \<Rightarrow> router \<Rightarrow> router" where
  "register pid token s r =
     r\<lparr>rt_sessions := (rt_sessions r)(as_id s \<mapsto> s),
       rt_by_pid := AList.update pid (as_id s) (rt_by_pid r),
       rt_attach_order := filter (\<lambda>p. p \<noteq> pid) (rt_attach_order r) @ [pid],
       rt_by_token := (case token of None \<Rightarrow> rt_by_token r
                       | Some t \<Rightarrow> (rt_by_token r)(t \<mapsto> as_id s))\<rparr>"

text \<open>The superseded session gives up its token only while the token is still its own.\<close>

definition release_token :: "uuid \<Rightarrow> router \<Rightarrow> router" where
  "release_token prev r =
     (case token_of r prev of
        None \<Rightarrow> r
      | Some t \<Rightarrow>
          if rt_by_token r t = Some prev then r\<lparr>rt_by_token := (rt_by_token r)(t := None)\<rparr> else r)"

definition attach_scoped ::
  "codecs \<Rightarrow> bool \<Rightarrow> scoped_opts \<Rightarrow> session_seed \<Rightarrow> closing \<Rightarrow> router \<Rightarrow> uuid option \<times> router" where
  "attach_scoped c env opts sd cl r =
     (case open_scoped c env opts sd (rt_shared r) of
        None \<Rightarrow> (None, r)
      | Some (s, sh) \<Rightarrow>
          (let r1 = register (so_pid opts) (so_scope_token opts) s (r\<lparr>rt_shared := sh\<rparr>)
           in (Some (as_id s),
               case map_of (rt_by_pid r) (so_pid opts) of
                 None \<Rightarrow> r1
               | Some prev \<Rightarrow>
                   snd (finalize_at c None None ''superseded by new AttachScopedProbes'' cl prev
                          (release_token prev r1)))))"

definition detach_scoped ::
  "codecs \<Rightarrow> u32 \<Rightarrow> i32 option \<Rightarrow> i32 option \<Rightarrow> closing \<Rightarrow> router \<Rightarrow> uuid option \<times> router" where
  "detach_scoped c pid code sig cl r =
     (case map_of (rt_by_pid r) pid of
        None \<Rightarrow> (None, r)
      | Some removed \<Rightarrow>
          (let r1 = r\<lparr>rt_by_pid := AList.delete pid (rt_by_pid r),
                      rt_attach_order := filter (\<lambda>p. p \<noteq> pid) (rt_attach_order r),
                      rt_by_token := (case token_of r removed of None \<Rightarrow> rt_by_token r
                                      | Some t \<Rightarrow> (rt_by_token r)(t := None))\<rparr>
           in (Some removed,
               snd (finalize_at c code sig (''record:exit pid='' @ digits (unat pid)) cl removed r1))))"

definition session_for_token :: "string \<Rightarrow> router \<Rightarrow> uuid option" where
  "session_for_token token r = rt_by_token r token"

section \<open>All sessions\<close>

definition flush_at :: "codecs \<Rightarrow> uuid \<Rightarrow> bool \<times> router \<Rightarrow> bool \<times> router" where
  "flush_at c sid st =
     (case st of (ok, r) \<Rightarrow>
        (case rt_sessions r sid of
           None \<Rightarrow> (ok, r)
         | Some s \<Rightarrow>
             (case session_flush c s of
                (ok', s') \<Rightarrow> (ok \<and> ok', r\<lparr>rt_sessions := (rt_sessions r)(sid \<mapsto> s')\<rparr>))))"

definition flush_all :: "codecs \<Rightarrow> router \<Rightarrow> bool \<times> router" where
  "flush_all c r = fold (flush_at c) (map snd (rt_by_pid r) @ [rt_ambient r]) (True, r)"

text \<open>Which locks another thread holds: that of \<open>by_pid\<close> and those of the sessions.\<close>

definition try_flush_at :: "codecs \<Rightarrow> (uuid \<Rightarrow> bool) \<Rightarrow> uuid \<Rightarrow> nat \<times> router \<Rightarrow> nat \<times> router" where
  "try_flush_at c held sid st =
     (case st of (n, r) \<Rightarrow>
        (case rt_sessions r sid of
           None \<Rightarrow> (n, r)
         | Some s \<Rightarrow>
             (case try_flush c (held sid) s of
                (res, s') \<Rightarrow> (if res = Some True then Suc n else n,
                              r\<lparr>rt_sessions := (rt_sessions r)(sid \<mapsto> s')\<rparr>))))"

definition try_flush_all :: "codecs \<Rightarrow> bool \<Rightarrow> (uuid \<Rightarrow> bool) \<Rightarrow> router \<Rightarrow> nat \<times> router" where
  "try_flush_all c map_held held r =
     fold (try_flush_at c held)
       ((if map_held then [] else map snd (rt_by_pid r)) @ [rt_ambient r]) (0, r)"

definition finalize_all :: "codecs \<Rightarrow> string \<Rightarrow> (uuid \<Rightarrow> closing) \<Rightarrow> router \<Rightarrow> bool \<times> router" where
  "finalize_all c reason cl r =
     (let scoped = map snd (rt_by_pid r);
          r1 = r\<lparr>rt_by_pid := [], rt_by_token := Map.empty\<rparr>
      in finalize_at c None None reason (cl (rt_ambient r)) (rt_ambient r)
           (fold (\<lambda>sid r. snd (finalize_at c None None reason (cl sid) sid r)) scoped r1))"

end
