(* ===== verification/SessionLog.thy ===== *)
theory SessionLog
  imports ActiveSession StoreProps
begin

text \<open>
  An active session is its writer fed with numbered events: every operation of the session is an
  operation of the writer, so what the session acknowledged is what the reader returns.
\<close>

section \<open>Runs of a session\<close>

datatype session_op =
    SAppend source "u32 option" "u64 option" payload nat nat
  | SFlush
  | STryFlush bool

text \<open>The events returned by the successful appends, in order.\<close>

fun session_run ::
  "codecs \<Rightarrow> session_op list \<Rightarrow> active_session \<times> shared \<Rightarrow> event list \<times> active_session \<times> shared" where
  "session_run c [] st = ([], st)"
| "session_run c (SAppend src pid raw p now arrived # ops) st =
     (case append_internal c src pid raw p now arrived st of
        (r, st1) \<Rightarrow> (case session_run c ops st1 of
           (acks, st2) \<Rightarrow> (case r of Inl _ \<Rightarrow> acks | Inr ev \<Rightarrow> ev # acks, st2)))"
| "session_run c (SFlush # ops) st = session_run c ops (snd (session_flush c (fst st)), snd st)"
| "session_run c (STryFlush held # ops) st =
     session_run c ops (snd (try_flush c held (fst st)), snd st)"

fun numbered :: "uuid \<Rightarrow> u64 \<Rightarrow> event list \<Rightarrow> bool" where
  "numbered sid n [] = True"
| "numbered sid n (e # es) = (ev_session_id e = sid \<and> ev_seq e = n + 1 \<and> numbered sid (n + 1) es)"

lemma numbered_append:
  "numbered sid n (es @ fs) \<longleftrightarrow> numbered sid n es \<and> numbered sid (n + of_nat (length es)) fs"
  by (induction es arbitrary: n) (auto simp: algebra_simps)

lemma numbered_from:
  "numbered sid n es \<Longrightarrow>
     map ev_seq es = map (\<lambda>k. n + 1 + of_nat k) [0..<length es] \<and> list_all (\<lambda>e. ev_session_id e = sid) es"
proof (induction es arbitrary: n)
  case (Cons e es)
  have "[0..<length (e # es)] = 0 # map Suc [0..<length es]"
    by (simp add: map_Suc_upt upt_conv_Cons del: upt_Suc)
  with Cons show ?case by (auto simp: o_def algebra_simps)
qed simp

lemma numbered_sorted:
  assumes "numbered sid 0 es" and "length es < 2 ^ 64 - 1"
  shows "sorted_wrt (<) (map ev_seq es)"
proof -
  have "unat (1 + of_nat k :: u64) = Suc k" if "k < length es" for k
    using that assms(2) unat_of_nat [where 'a = 64, of "Suc k"] by simp
  then have "sorted_wrt (<) (map (\<lambda>k. 1 + of_nat k :: u64) [0..<length es])"
    by (auto simp: sorted_wrt_iff_nth_less word_less_nat_alt)
  with numbered_from [OF assms(1)] show ?thesis by simp
qed

lemma subseq_set: "subseq xs ys \<Longrightarrow> set xs \<subseteq> set ys"
  by (auto dest: list_emb_set)

lemma sorted_wrt_subseq: "subseq xs ys \<Longrightarrow> sorted_wrt P ys \<Longrightarrow> sorted_wrt P xs"
proof (induction xs ys rule: list_emb.induct)
  case (list_emb_Cons2 x y xs ys)
  moreover from this(2) have "set xs \<subseteq> set ys" by (rule subseq_set)
  ultimately show ?case by auto
qed simp_all

section \<open>The writer of a session\<close>

lemma report_storage_fields [simp]:
  "in_writer (report_storage i) = in_writer i" "in_seq (report_storage i) = in_seq i"
  "in_session_id (report_storage i) = in_session_id i" "in_clock (report_storage i) = in_clock i"
  by (simp_all add: report_storage_def report_drops_def report_failing_def Let_def
      split: option.splits bool.splits)

lemma stamp_fields [simp]:
  "ev_session_id (stamp src pid raw p now i) = in_session_id i"
  "ev_seq (stamp src pid raw p now i) = in_seq i + 1"
  "payload (stamp src pid raw p now i) = p" "ev_source (stamp src pid raw p now i) = src"
  by (simp_all add: stamp_def Let_def)

lemma append_internal_writer:
  assumes "append_internal c src pid raw p now arrived (s, sh) = (r, s', sh')"
    and "as_inner s = Some i"
  shows "\<exists>i' e. as_inner s' = Some i' \<and>
    write_event c (stamp src pid raw p now i) (in_writer i) = (e, in_writer i') \<and>
    in_seq i' = in_seq i + 1 \<and> in_session_id i' = in_session_id i \<and> as_left s' = as_left s \<and>
    as_id s' = as_id s \<and> as_scope_token s' = as_scope_token s \<and>
    (case r of Inl _ \<Rightarrow> e \<noteq> Inr () \<and> sh' = sh
     | Inr ev \<Rightarrow> e = Inr () \<and> ev = stamp src pid raw p now i \<and> sh' = publish ev arrived sh)"
  using assms by (auto simp: append_internal_def Let_def split: prod.splits sum.splits)

lemma session_flush_writer:
  assumes "session_flush c s = (ok, s')" and "as_inner s = Some i"
  shows "\<exists>i'. as_inner s' = Some i' \<and> in_writer i' = snd (flush c (in_writer i)) \<and>
    in_seq i' = in_seq i \<and> in_session_id i' = in_session_id i \<and> as_left s' = as_left s \<and>
    as_id s' = as_id s \<and> as_scope_token s' = as_scope_token s"
  using assms by (auto simp: session_flush_def split: prod.splits)

lemma try_flush_writer:
  "try_flush c held s = (r, s') \<Longrightarrow> s' = s \<or> (\<exists>ok. session_flush c s = (ok, s'))"
  by (auto simp: try_flush_def split: prod.splits if_splits)

definition follows :: "codecs \<Rightarrow> writer_op list \<Rightarrow> event list \<Rightarrow> active_session \<Rightarrow> active_session \<Rightarrow> bool" where
  "follows c wops acks s s' \<longleftrightarrow>
     (\<exists>i i'. as_inner s = Some i \<and> as_inner s' = Some i' \<and>
        writer_run c wops (in_writer i) = (acks, in_writer i') \<and>
        numbered (in_session_id i) (in_seq i) (offered wops) \<and>
        in_seq i' = in_seq i + of_nat (length (offered wops)) \<and>
        in_session_id i' = in_session_id i \<and> as_left s' = as_left s)"

lemma follows_refl: "as_inner s = Some i \<Longrightarrow> follows c [] [] s s"
  by (simp add: follows_def)

lemma writer_run_append:
  "writer_run c (xs @ ys) w = (case writer_run c xs w of (as, w1) \<Rightarrow>
     (case writer_run c ys w1 of (bs, w2) \<Rightarrow> (as @ bs, w2)))"
  by (induction c xs w rule: writer_run.induct) (auto split: prod.splits)

lemma offered_append: "offered (xs @ ys) = offered xs @ offered ys"
  by (induction xs rule: offered.induct) simp_all

lemma follows_trans:
  "follows c xs as s s1 \<Longrightarrow> follows c ys bs s1 s2 \<Longrightarrow> follows c (xs @ ys) (as @ bs) s s2"
  by (auto simp: follows_def writer_run_append offered_append numbered_append algebra_simps)

lemma append_follows:
  assumes "append_internal c src pid raw p now arrived (s, sh) = (r, s', sh')"
    and "as_inner s = Some i"
  shows "\<exists>ev. follows c [WriteEvent ev] (case r of Inl _ \<Rightarrow> [] | Inr ev \<Rightarrow> [ev]) s s' \<and> payload ev = p \<and>
    (\<forall>e. r = Inr e \<longrightarrow> e = ev)"
proof -
  from append_internal_writer [OF assms] obtain i' e where a: "as_inner s' = Some i'"
    "write_event c (stamp src pid raw p now i) (in_writer i) = (e, in_writer i')"
    "in_seq i' = in_seq i + 1" "in_session_id i' = in_session_id i" "as_left s' = as_left s"
    "case r of Inl _ \<Rightarrow> e \<noteq> Inr () \<and> sh' = sh
     | Inr ev \<Rightarrow> e = Inr () \<and> ev = stamp src pid raw p now i \<and> sh' = publish ev arrived sh"
    by blast
  then show ?thesis using assms(2)
    by (intro exI [of _ "stamp src pid raw p now i"]) (auto simp: follows_def split: sum.splits)
qed

lemma follows_inner: "follows c xs as s s' \<Longrightarrow> \<exists>i'. as_inner s' = Some i'"
  by (auto simp: follows_def)

lemma session_run_follows:
  assumes "session_run c ops (s, sh) = (acks, s', sh')" and "as_inner s = Some i"
  shows "\<exists>wops. follows c wops acks s s' \<and> length (offered wops) \<le> length ops"
  using assms
proof (induction ops arbitrary: s sh acks i)
  case Nil
  then show ?case using follows_refl by fastforce
next
  case (Cons op ops)
  have flushed: "\<exists>wops. follows c wops acks s s' \<and> length (offered wops) \<le> length (op # ops)"
    if run: "session_run c ops (s1, sh) = (acks, s', sh')"
      and s1: "s1 = s \<or> (\<exists>ok. session_flush c s = (ok, s1))" for s1
    using s1
  proof
    assume "s1 = s"
    with Cons.IH [OF run] Cons.prems(2) show ?thesis by fastforce
  next
    assume "\<exists>ok. session_flush c s = (ok, s1)"
    then obtain ok where "session_flush c s = (ok, s1)" ..
    from session_flush_writer [OF this Cons.prems(2)] obtain i1 where
      i1: "as_inner s1 = Some i1" "in_writer i1 = snd (flush c (in_writer i))" "in_seq i1 = in_seq i"
      "in_session_id i1 = in_session_id i" "as_left s1 = as_left s" by blast
    then have "follows c [FlushWriter] [] s s1" using Cons.prems(2) by (simp add: follows_def)
    moreover from Cons.IH [OF run i1(1)] obtain wops where "follows c wops acks s1 s'"
      "length (offered wops) \<le> length ops" by blast
    ultimately have "follows c ([FlushWriter] @ wops) ([] @ acks) s s'" by (intro follows_trans)
    with \<open>length (offered wops) \<le> length ops\<close> show ?thesis by fastforce
  qed
  show ?case
  proof (cases op)
    case (SAppend src pid raw p now arrived)
    obtain r s1 sh1 where a: "append_internal c src pid raw p now arrived (s, sh) = (r, s1, sh1)"
      by (cases "append_internal c src pid raw p now arrived (s, sh)")
    obtain as st where run: "session_run c ops (s1, sh1) = (as, st)"
      by (cases "session_run c ops (s1, sh1)")
    with Cons.prems(1) SAppend a have acks: "acks = (case r of Inl _ \<Rightarrow> [] | Inr ev \<Rightarrow> [ev]) @ as"
      and st: "st = (s', sh')" by (auto split: sum.splits)
    from append_follows [OF a Cons.prems(2)] obtain ev where
      f: "follows c [WriteEvent ev] (case r of Inl _ \<Rightarrow> [] | Inr ev \<Rightarrow> [ev]) s s1" by blast
    then obtain i1 where "as_inner s1 = Some i1" using follows_inner by blast
    from Cons.IH [OF run [unfolded st] this] obtain wops where "follows c wops as s1 s'"
      "length (offered wops) \<le> length ops" by blast
    with follows_trans [OF f this(1)] show ?thesis
      by (intro exI [of _ "[WriteEvent ev] @ wops"]) (simp add: acks)
  next
    case SFlush
    then show ?thesis
      using flushed [of "snd (session_flush c s)"] Cons.prems(1) by (metis fst_conv prod.collapse
          session_run.simps(3) snd_conv)
  next
    case (STryFlush held)
    then show ?thesis
      using flushed [of "snd (try_flush c held s)"] try_flush_writer [of c held s] Cons.prems(1)
      by (metis fst_conv prod.collapse session_run.simps(4) snd_conv)
  qed
qed

section \<open>From open to finalize\<close>

definition fresh_session :: "string option \<Rightarrow> session_seed \<Rightarrow> writer \<Rightarrow> active_session" where
  "fresh_session token sd w =
     \<lparr>as_id = sd_id sd, as_inner = Some (inner_new w (sd_id sd) (sd_clock sd) (sd_wall sd)),
      as_scope_token = token, as_left = None\<rparr>"

lemma open_with_follows:
  assumes "open_with c cfg token pid sd sh = Some (s, sh')"
  shows "\<exists>w ev. create_writer cfg [] (sd_disk sd) session_open = Some w \<and>
    follows c [WriteEvent ev] [ev] (fresh_session token sd w) s \<and>
    payload ev = SessionStarted (sd_wall sd)"
proof -
  from assms obtain w ev where w: "create_writer cfg [] (sd_disk sd) session_open = Some w"
    and a: "append_internal c System pid None (SessionStarted (sd_wall sd)) (sd_now sd) (sd_arrived sd)
      (fresh_session token sd w, sh) = (Inr ev, s, sh')"
    by (auto simp: open_with_def fresh_session_def split: option.splits prod.splits sum.splits)
  from append_follows [OF a] have "follows c [WriteEvent ev] [ev] (fresh_session token sd w) s \<and>
      payload ev = SessionStarted (sd_wall sd)" by (auto simp: fresh_session_def)
  with w show ?thesis by blast
qed

lemma session_finalize_follows:
  assumes "session_finalize c code sig reason cl (s, sh) = (ok, s', sh')" and "as_inner s = Some i"
  shows "\<exists>s1 i1 ev acks w. follows c [WriteEvent ev] acks s s1 \<and> as_inner s1 = Some i1 \<and>
    finalize_with_signal c code sig (cl_ended cl) (in_writer i1) = (ok, w) \<and>
    as_left s' = Some w \<and> as_inner s' = None \<and> payload ev = SessionEnded (cl_wall cl) reason \<and>
    (acks = [] \<or> acks = [ev])"
proof -
  obtain r s1 sh1 where a: "append_internal c System None None (SessionEnded (cl_wall cl) reason)
      (cl_now cl) (cl_arrived cl) (s, sh) = (r, s1, sh1)"
    by (cases "append_internal c System None None (SessionEnded (cl_wall cl) reason)
      (cl_now cl) (cl_arrived cl) (s, sh)")
  from append_follows [OF a assms(2)] obtain ev where
    f: "follows c [WriteEvent ev] (case r of Inl _ \<Rightarrow> [] | Inr ev \<Rightarrow> [ev]) s s1"
    "payload ev = SessionEnded (cl_wall cl) reason" "\<And>e. r = Inr e \<Longrightarrow> e = ev" by blast
  from follows_inner [OF f(1)] obtain i1 where i1: "as_inner s1 = Some i1" ..
  obtain ok' w where w: "finalize_with_signal c code sig (cl_ended cl) (in_writer i1) = (ok', w)"
    by (cases "finalize_with_signal c code sig (cl_ended cl) (in_writer i1)")
  from assms(1) a i1 w have "ok' = ok" "as_left s' = Some w" "as_inner s' = None"
    by (auto simp: session_finalize_def session_append_def)
  with f i1 w show ?thesis
    by (intro exI [of _ s1] exI [of _ i1] exI [of _ ev] exI [of _ w]
        exI [of _ "case r of Inl _ \<Rightarrow> [] | Inr ev \<Rightarrow> [ev]"]) (auto split: sum.splits)
qed

lemma session_finished:
  assumes "open_with c cfg token pid sd sh = Some (s0, sh0)" and "list_all outcome_tidy (sd_disk sd)"
    and "session_run c ops (s0, sh0) = (acks, s1, sh1)"
    and "session_finalize c code sig reason cl (s1, sh1) = (True, s2, sh2)"
    and "as_left s2 = Some w" and "sw_saved w = Some m"
  shows "\<exists>st wops en eacks.
    finished c cfg ([WriteEvent st] @ wops @ [WriteEvent en]) ([st] @ acks @ eacks) w m \<and>
    numbered (sd_id sd) 0 (offered ([WriteEvent st] @ wops @ [WriteEvent en])) \<and>
    length (offered wops) \<le> length ops \<and> payload st = SessionStarted (sd_wall sd) \<and>
    payload en = SessionEnded (cl_wall cl) reason \<and> (eacks = [] \<or> eacks = [en])"
proof -
  from open_with_follows [OF assms(1)] obtain w0 st where
    o: "create_writer cfg [] (sd_disk sd) session_open = Some w0"
    "follows c [WriteEvent st] [st] (fresh_session token sd w0) s0" "payload st = SessionStarted (sd_wall sd)"
    by blast
  from follows_inner [OF o(2)] obtain i0 where "as_inner s0 = Some i0" ..
  from session_run_follows [OF assms(3) this] obtain wops where
    r: "follows c wops acks s0 s1" "length (offered wops) \<le> length ops" by blast
  from follows_inner [OF r(1)] obtain i1 where "as_inner s1 = Some i1" ..
  from session_finalize_follows [OF assms(4) this] obtain s1' i1' en eacks where
    f: "follows c [WriteEvent en] eacks s1 s1'" "as_inner s1' = Some i1'"
    "finalize_with_signal c code sig (cl_ended cl) (in_writer i1') = (True, w)"
    "payload en = SessionEnded (cl_wall cl) reason" "eacks = [] \<or> eacks = [en]"
    using assms(5) by auto
  let ?ops = "[WriteEvent st] @ wops @ [WriteEvent en]" and ?acks = "[st] @ acks @ eacks"
  have run: "follows c ?ops ?acks (fresh_session token sd w0) s1'"
    by (intro follows_trans [OF o(2)] follows_trans [OF r(1) f(1)])
  with f(2) have "writer_run c ?ops w0 = (?acks, in_writer i1')"
    and num: "numbered (sd_id sd) 0 (offered ?ops)"
    by (auto simp: follows_def fresh_session_def inner_new_def)
  then have "finished c cfg ?ops ?acks w m"
    unfolding finished_def using o(1) assms(2,6) f(3) by blast
  with num r(2) o(3) f(4,5) show ?thesis by blast
qed

text \<open>
  C17. A session of the daemon, from open to a successful finalize with any appends and flushes
  between, reads back without damage but the count of drops.  Its events carry its id and
  strictly increasing sequence numbers; when none were dropped they are the start event, exactly
  the events whose append succeeded, in order, and at most the end event.
\<close>
theorem session_reads_back:
  fixes sc :: stream_codecs
  defines "c \<equiv> codecs.truncate sc"
  assumes "open_with c cfg token pid sd sh = Some (s0, sh0)" and "list_all outcome_tidy (sd_disk sd)"
    and "session_run c ops (s0, sh0) = (acks, s1, sh1)"
    and "session_finalize c code sig reason cl (s1, sh1) = (True, s2, sh2)"
    and "as_left s2 = Some w" and "sw_saved w = Some m"
    and "\<And>ev. cbor_ok c ev" and "zstd_ok c"
    and "length (ap_file (sw_out w)) < 2 ^ 34" and "length ops < 2 ^ 64 - 3"
  shows "\<exists>xs d. read_events_checked sc True (ap_file (sw_out w)) (Some (meta_of m)) =
      Inr (xs, if d = 0 then [] else [EventsDropped d]) \<and>
    sorted_wrt (<) (map ev_seq xs) \<and> list_all (\<lambda>e. ev_session_id e = sd_id sd) xs \<and>
    (d = 0 \<longrightarrow> (\<exists>started ended. xs = started # acks @ ended \<and>
       payload started = SessionStarted (sd_wall sd) \<and>
       (ended = [] \<or> map payload ended = [SessionEnded (cl_wall cl) reason])))"
proof -
  from session_finished [OF assms(2-7)] obtain st wops en eacks where
    fin: "finished c cfg ([WriteEvent st] @ wops @ [WriteEvent en]) ([st] @ acks @ eacks) w m"
    and num: "numbered (sd_id sd) 0 (offered ([WriteEvent st] @ wops @ [WriteEvent en]))"
    and few: "length (offered wops) \<le> length ops"
    and ends: "payload st = SessionStarted (sd_wall sd)"
      "payload en = SessionEnded (cl_wall cl) reason" "eacks = [] \<or> eacks = [en]" by blast
  let ?ops = "[WriteEvent st] @ wops @ [WriteEvent en]" and ?acks = "[st] @ acks @ eacks"
  have cbor: "list_all (cbor_ok c) (offered ?ops)" using assms(8) by (simp add: list_all_iff)
  have short: "length (offered ?ops) < 2 ^ 64 - 1" using few assms(11) by (simp add: offered_append)
  then have "length (offered ?ops) < 2 ^ 64" by linarith
  from finished_file [OF fin [unfolded c_def] cbor [unfolded c_def] assms(9) [unfolded c_def]
      assms(10) this] obtain xs d where
    all: "\<And>flt. for_each_event sc True (ap_file (sw_out w)) (Some (meta_of m)) flt collect [] =
      Inr (filter (flt_ok flt) xs, if flt = None \<and> d \<noteq> 0 then [EventsDropped d] else [])"
    and xs: "subseq xs (offered ?ops)" "d = 0 \<longrightarrow> xs = ?acks" by blast
  from all have read: "read_events_checked sc True (ap_file (sw_out w)) (Some (meta_of m)) =
      Inr (xs, if d = 0 then [] else [EventsDropped d])"
    by (simp add: read_events_checked_def flt_ok_simps)
  have sorted: "sorted_wrt (<) (map ev_seq xs)"
    by (rule sorted_wrt_subseq [OF subseq_map [OF xs(1)] numbered_sorted [OF num short]])
  have ids: "list_all (\<lambda>e. ev_session_id e = sd_id sd) xs"
    using conjunct2 [OF numbered_from [OF num]] subseq_set [OF xs(1)] unfolding list_all_iff by blast
  have log: "\<exists>started ended. xs = started # acks @ ended \<and>
      payload started = SessionStarted (sd_wall sd) \<and>
      (ended = [] \<or> map payload ended = [SessionEnded (cl_wall cl) reason])" if "d = 0"
    by (rule exI [of _ st], rule exI [of _ eacks]) (use that xs(2) ends in auto)
  show ?thesis
    by (rule exI [of _ xs], rule exI [of _ d], intro conjI impI) (rule read sorted ids log, assumption?)+
qed

end
