(* ===== verification/RouterFacts.thy ===== *)
theory RouterFacts
  imports SessionRouter SessionLog
begin

text \<open>
  What the router promises, as a roster of the recordings attached, newest last: the maps of the
  router are an implementation of looking the roster up.  The relation \<open>router_steps\<close> runs the
  router and its roster side by side under any sequence of calls, the shutdown of the daemon
  included; \<open>serves\<close> starts it at the daemon's start.
\<close>

section \<open>The roster\<close>

type_synonym recording = "u32 \<times> string option \<times> uuid"

definition drop_pid :: "u32 \<Rightarrow> recording list \<Rightarrow> recording list" where
  "drop_pid pid ros = filter (\<lambda>(p, _). p \<noteq> pid) ros"

definition with_pid :: "u32 \<Rightarrow> recording list \<Rightarrow> uuid option" where
  "with_pid pid ros = map_of (map (\<lambda>(p, tk, i). (p, i)) ros) pid"

definition with_token :: "string \<Rightarrow> recording list \<Rightarrow> uuid option" where
  "with_token t ros = map_of (map (\<lambda>(p, tk, i). (tk, i)) ros) (Some t)"

definition newest :: "recording list \<Rightarrow> uuid option" where
  "newest ros = (case rev ros of [] \<Rightarrow> None | (p, tk, i) # _ \<Rightarrow> Some i)"

text \<open>
  An event goes to the recording of its token, else to that of its process, else, for a marker,
  to the newest recording, else to the ambient session.
\<close>

definition route_spec ::
  "recording list \<Rightarrow> uuid \<Rightarrow> source \<Rightarrow> string option \<Rightarrow> u32 option \<Rightarrow> uuid" where
  "route_spec ros ambient src token pid =
     (case Option.bind token (\<lambda>t. with_token t ros) of
        Some i \<Rightarrow> i
      | None \<Rightarrow>
          (case Option.bind pid (\<lambda>p. with_pid p ros) of
             Some i \<Rightarrow> i
           | None \<Rightarrow>
               (case (if src = SMark then newest ros else None) of
                  Some i \<Rightarrow> i
                | None \<Rightarrow> ambient)))"

definition token_free :: "string option \<Rightarrow> u32 \<Rightarrow> recording list \<Rightarrow> bool" where
  "token_free token pid ros \<longleftrightarrow> token = None \<or> list_all (\<lambda>(p, tk, _). p = pid \<or> tk \<noteq> token) ros"

section \<open>Running the router\<close>

text \<open>What a step of the router did.  An event is written to a session some thread routed it to.\<close>

datatype router_call = Attached u32 | Refused | Detached u32 | Wrote uuid | Flushed | FinalizedAll

text \<open>
  With \<open>distinct_tokens\<close>, a recording is only attached under a token no other recording holds.
  The id of a new session is fresh.
\<close>

inductive router_step ::
  "codecs \<Rightarrow> bool \<Rightarrow> bool \<Rightarrow> router \<Rightarrow> recording list \<Rightarrow> router_call \<Rightarrow> router \<Rightarrow> recording list \<Rightarrow> bool"
  for c :: codecs and env :: bool and distinct_tokens :: bool where
  attached: "rt_sessions r (sd_id sd) = None \<Longrightarrow>
    (distinct_tokens \<Longrightarrow> token_free (so_scope_token opts) (so_pid opts) ros) \<Longrightarrow>
    attach_scoped c env opts sd cl r = (Some i, r') \<Longrightarrow>
    router_step c env distinct_tokens r ros (Attached (so_pid opts)) r'
      (drop_pid (so_pid opts) ros @ [(so_pid opts, so_scope_token opts, i)])"
| refused: "attach_scoped c env opts sd cl r = (None, r') \<Longrightarrow>
    router_step c env distinct_tokens r ros Refused r' ros"
| detached: "detach_scoped c pid code sig cl r = (res, r') \<Longrightarrow>
    router_step c env distinct_tokens r ros (Detached pid) r' (drop_pid pid ros)"
| wrote: "append_to c sid src pid raw p now arrived r = (result, r') \<Longrightarrow>
    router_step c env distinct_tokens r ros (Wrote sid) r' ros"
| flushed: "flush_all c r = (ok, r') \<Longrightarrow> router_step c env distinct_tokens r ros Flushed r' ros"
| try_flushed: "try_flush_all c map_held held r = (n, r') \<Longrightarrow>
    router_step c env distinct_tokens r ros Flushed r' ros"
| finalized_all: "finalize_all c reason cls r = (ok, r') \<Longrightarrow>
    router_step c env distinct_tokens r ros FinalizedAll r' []"

inductive router_steps ::
  "codecs \<Rightarrow> bool \<Rightarrow> bool \<Rightarrow> router \<Rightarrow> recording list \<Rightarrow> router_call list \<Rightarrow> router \<Rightarrow> recording list \<Rightarrow> bool"
  for c :: codecs and env :: bool and distinct_tokens :: bool and r :: router and ros :: "recording list" where
  none: "router_steps c env distinct_tokens r ros [] r ros"
| next_call: "router_steps c env distinct_tokens r ros ks r1 ros1 \<Longrightarrow>
    router_step c env distinct_tokens r1 ros1 k r2 ros2 \<Longrightarrow>
    router_steps c env distinct_tokens r ros (ks @ [k]) r2 ros2"

definition serves :: "codecs \<Rightarrow> bool \<Rightarrow> bool \<Rightarrow> router \<Rightarrow> recording list \<Rightarrow> bool" where
  "serves c env distinct_tokens r ros \<longleftrightarrow>
     (\<exists>ambient sh ks. as_inner ambient \<noteq> None \<and>
        router_steps c env distinct_tokens (router_new ambient sh) [] ks r ros)"

lemma serves_start: "as_inner ambient \<noteq> None \<Longrightarrow> serves c env dt (router_new ambient sh) []"
  unfolding serves_def using router_steps.none by blast

lemma serves_step: "serves c env dt r ros \<Longrightarrow> router_step c env dt r ros k r' ros' \<Longrightarrow> serves c env dt r' ros'"
  unfolding serves_def using router_steps.next_call by blast

section \<open>Effects on the store\<close>

text \<open>The token of a session that is not finalized.\<close>

definition live_token :: "router \<Rightarrow> uuid \<Rightarrow> string option option" where
  "live_token r sid =
     (case rt_sessions r sid of
        None \<Rightarrow> None
      | Some s \<Rightarrow> if as_inner s = None then None else Some (as_scope_token s))"

text \<open>The routing tables.\<close>

definition tables :: "router \<Rightarrow> uuid \<times> (u32 \<times> uuid) list \<times> (string \<rightharpoonup> uuid) \<times> u32 list" where
  "tables r = (rt_ambient r, rt_by_pid r, rt_by_token r, rt_attach_order r)"

lemma append_internal_live:
  assumes "append_internal c src pid raw p now arrived (s, sh) = (res, s', sh')"
  shows "(as_inner s' = None \<longleftrightarrow> as_inner s = None) \<and> as_scope_token s' = as_scope_token s \<and>
    as_id s' = as_id s"
proof (cases "as_inner s")
  case None
  with assms show ?thesis by (auto simp: append_internal_def)
next
  case (Some i)
  with append_internal_writer [OF assms Some] show ?thesis by auto
qed

lemma session_flush_live:
  "session_flush c s = (ok, s') \<Longrightarrow>
     (as_inner s' = None \<longleftrightarrow> as_inner s = None) \<and> as_scope_token s' = as_scope_token s"
  by (auto simp: session_flush_def split: option.splits prod.splits)

lemma live_token_upd:
  "live_token (r\<lparr>rt_sessions := (rt_sessions r)(sid \<mapsto> s'), rt_shared := sh\<rparr>) =
     (live_token r)(sid := if as_inner s' = None then None else Some (as_scope_token s'))"
  "live_token (r\<lparr>rt_sessions := (rt_sessions r)(sid \<mapsto> s')\<rparr>) =
     (live_token r)(sid := if as_inner s' = None then None else Some (as_scope_token s'))"
  by (auto simp: live_token_def)

lemma tables_store [simp]:
  "tables (r\<lparr>rt_sessions := f, rt_shared := sh\<rparr>) = tables r"
  "tables (r\<lparr>rt_sessions := f\<rparr>) = tables r" "tables (r\<lparr>rt_shared := sh\<rparr>) = tables r"
  by (simp_all add: tables_def)

lemma live_token_same:
  "rt_sessions r sid = Some s \<Longrightarrow>
     (as_inner s' = None \<longleftrightarrow> as_inner s = None) \<and> as_scope_token s' = as_scope_token s \<Longrightarrow>
     (live_token r)(sid := if as_inner s' = None then None else Some (as_scope_token s')) = live_token r"
  by (auto simp: live_token_def fun_eq_iff)

lemma append_to_live:
  assumes "append_to c t src pid raw p now arrived r = (res, r')"
  shows "live_token r' = live_token r" and "tables r' = tables r"
proof -
  have "live_token r' = live_token r \<and> tables r' = tables r"
  proof (cases "rt_sessions r t")
    case None
    with assms show ?thesis by (simp add: append_to_def)
  next
    case (Some s)
    obtain res s' sh where a: "append_internal c src pid raw p now arrived (s, rt_shared r) = (res, s', sh)"
      by (cases "append_internal c src pid raw p now arrived (s, rt_shared r)")
    from append_internal_live [OF this] live_token_same [OF Some, of s'] assms a Some
    show ?thesis by (auto simp: append_to_def live_token_upd)
  qed
  then show "live_token r' = live_token r" and "tables r' = tables r" by auto
qed

lemmas append_stamped_live = append_to_live [of _ "route_for _ _ _ _", folded append_stamped_def]

lemma flush_at_live:
  assumes "flush_at c sid (ok, r) = (ok', r')"
  shows "live_token r' = live_token r \<and> tables r' = tables r"
proof (cases "rt_sessions r sid")
  case None
  with assms show ?thesis by (simp add: flush_at_def)
next
  case (Some s)
  obtain ok1 s' where f: "session_flush c s = (ok1, s')" by (cases "session_flush c s")
  from session_flush_live [OF this] live_token_same [OF Some, of s'] assms f Some
  show ?thesis by (auto simp: flush_at_def live_token_upd)
qed

lemma try_flush_at_live:
  assumes "try_flush_at c held sid (n, r) = (n', r')"
  shows "live_token r' = live_token r \<and> tables r' = tables r"
proof (cases "rt_sessions r sid")
  case None
  with assms show ?thesis by (simp add: try_flush_at_def)
next
  case (Some s)
  obtain res s' where f: "try_flush c (held sid) s = (res, s')" by (cases "try_flush c (held sid) s")
  from try_flush_writer [OF this] have
    "(as_inner s' = None \<longleftrightarrow> as_inner s = None) \<and> as_scope_token s' = as_scope_token s"
    using session_flush_live by blast
  with live_token_same [OF Some, of s'] assms f Some
  show ?thesis by (auto simp: try_flush_at_def live_token_upd)
qed

lemma fold_keeps:
  assumes "\<And>x n r n' r'. f x (n, r) = (n', r') \<Longrightarrow> live_token r' = live_token r \<and> tables r' = tables r"
    and "fold f xs (n, r) = (n', r')"
  shows "live_token r' = live_token r" and "tables r' = tables r"
proof -
  have "live_token r' = live_token r \<and> tables r' = tables r" using assms(2)
  proof (induction xs arbitrary: n r)
    case (Cons x xs)
    obtain n1 r1 where x: "f x (n, r) = (n1, r1)" by (cases "f x (n, r)")
    with Cons assms(1) [OF x] show ?case by auto
  qed simp
  then show "live_token r' = live_token r" and "tables r' = tables r" by auto
qed

lemma flush_all_live:
  "flush_all c r = (ok, r') \<Longrightarrow> live_token r' = live_token r \<and> tables r' = tables r"
  unfolding flush_all_def using fold_keeps [of "flush_at c"] flush_at_live by blast

lemma try_flush_all_live:
  "try_flush_all c mh held r = (n, r') \<Longrightarrow> live_token r' = live_token r \<and> tables r' = tables r"
  unfolding try_flush_all_def using fold_keeps [of "try_flush_at c held"] try_flush_at_live by blast

lemma session_finalize_inner:
  assumes "session_finalize c code sig reason cl (s, sh) = (ok, s', sh')"
  shows "as_inner s' = None"
proof (cases "as_inner s")
  case None
  with assms show ?thesis by (auto simp: session_finalize_def session_append_def append_internal_def)
next
  case (Some i)
  with session_finalize_follows [OF assms] show ?thesis by blast
qed

lemma finalize_at_live:
  assumes "finalize_at c code sig reason cl sid r = (ok, r')"
  shows "live_token r' = (live_token r)(sid := None)" and "tables r' = tables r"
  using assms session_finalize_inner [of c code sig reason cl]
  by (auto simp: finalize_at_def live_token_upd fun_eq_iff split: option.splits prod.splits)
    (simp_all add: live_token_def)

text \<open>No session ever leaves the store.\<close>

definition known :: "router \<Rightarrow> uuid set" where
  "known r = dom (rt_sessions r)"

lemma known_store [simp]:
  "known (r\<lparr>rt_shared := sh\<rparr>) = known r" "known (r\<lparr>rt_sessions := f, rt_shared := sh\<rparr>) = dom f"
  "known (r\<lparr>rt_sessions := f\<rparr>) = dom f" "known (r\<lparr>rt_by_pid := a, rt_by_token := b\<rparr>) = known r"
  "known (r\<lparr>rt_by_pid := a, rt_attach_order := d, rt_by_token := b\<rparr>) = known r"
  by (simp_all add: known_def)

lemma known_at: "rt_sessions r sid = Some s \<Longrightarrow> insert sid (known r) = known r"
  by (auto simp: known_def)

lemma append_to_known: "append_to c t src pid raw p now arrived r = (res, r') \<Longrightarrow> known r' = known r"
  by (auto simp: append_to_def known_def split: option.splits prod.splits if_splits)

lemma finalize_at_known: "finalize_at c code sig reason cl sid r = (ok, r') \<Longrightarrow> known r' = known r"
  by (auto simp: finalize_at_def known_def split: option.splits prod.splits if_splits)

lemma finalize_at_known' [simp]: "known (snd (finalize_at c code sig reason cl sid r)) = known r"
  by (rule finalize_at_known [OF prod.collapse [symmetric]])

lemma fold_known:
  assumes "\<And>x n r n' r'. f x (n, r) = (n', r') \<Longrightarrow> known r' = known r" and "fold f xs (n, r) = (n', r')"
  shows "known r' = known r"
  using assms(2)
proof (induction xs arbitrary: n r)
  case (Cons x xs)
  obtain n1 r1 where x: "f x (n, r) = (n1, r1)" by (cases "f x (n, r)")
  with Cons assms(1) [OF x] show ?case by auto
qed simp

lemma flush_all_known: "flush_all c r = (ok, r') \<Longrightarrow> known r' = known r"
  unfolding flush_all_def
  by (erule fold_known [rotated]) (auto simp: flush_at_def known_def split: option.splits prod.splits if_splits)

lemma try_flush_all_known: "try_flush_all c mh held r = (n, r') \<Longrightarrow> known r' = known r"
  unfolding try_flush_all_def
  by (erule fold_known [rotated]) (auto simp: try_flush_at_def known_def split: option.splits prod.splits if_splits)

lemma detach_known: "detach_scoped c pid code sig cl r = (res, r') \<Longrightarrow> known r' = known r"
proof -
  assume "detach_scoped c pid code sig cl r = (res, r')"
  then have "known (snd (detach_scoped c pid code sig cl r)) = known r'" by simp
  then show ?thesis by (simp add: detach_scoped_def Let_def split: option.splits)
qed

lemma release_token_known [simp]: "known (release_token prev r) = known r"
  by (simp add: release_token_def known_def split: option.split)

lemma attach_known: "attach_scoped c env opts sd cl r = (res, r') \<Longrightarrow> known r \<subseteq> known r'"
proof -
  assume "attach_scoped c env opts sd cl r = (res, r')"
  then have r': "r' = snd (attach_scoped c env opts sd cl r)" by simp
  have reg: "known r \<subseteq> known (register pid tk s (r\<lparr>rt_shared := sh\<rparr>))" for pid tk s sh
    by (auto simp: register_def known_def)
  show ?thesis unfolding r' using reg by (simp add: attach_scoped_def Let_def split: option.split)
qed

text \<open>The shutdown: every session of the tables is finalized and the tables are emptied.\<close>

lemma fold_finalize:
  assumes f_def: "f = fold (\<lambda>sid r. snd (finalize_at c None None reason (cl sid) sid r))"
  shows "live_token (f sids r) = (\<lambda>i. if i \<in> set sids then None else live_token r i)"
    and "tables (f sids r) = tables r" and "known (f sids r) = known r"
proof -
  have "live_token (f sids r) = (\<lambda>i. if i \<in> set sids then None else live_token r i) \<and>
      tables (f sids r) = tables r \<and> known (f sids r) = known r"
  proof (induction sids arbitrary: r)
    case (Cons sid sids)
    obtain ok r1 where r1: "finalize_at c None None reason (cl sid) sid r = (ok, r1)" by fastforce
    from Cons.IH [of r1] finalize_at_live [OF r1] finalize_at_known [OF r1] r1 show ?case
      by (auto simp: f_def fun_eq_iff)
  qed (simp add: f_def)
  then show "live_token (f sids r) = (\<lambda>i. if i \<in> set sids then None else live_token r i)"
    and "tables (f sids r) = tables r" and "known (f sids r) = known r" by simp_all
qed

lemma finalize_all_effect:
  assumes "finalize_all c reason cl r = (ok, r')"
  shows "live_token r' = (\<lambda>i. if i = rt_ambient r \<or> i \<in> snd ` set (rt_by_pid r) then None else live_token r i)"
    and "tables r' = (rt_ambient r, [], Map.empty, rt_attach_order r)" and "known r' = known r"
proof -
  let ?r1 = "r\<lparr>rt_by_pid := [], rt_by_token := Map.empty\<rparr>"
  let ?r2 = "fold (\<lambda>sid r. snd (finalize_at c None None reason (cl sid) sid r)) (map snd (rt_by_pid r)) ?r1"
  note f = fold_finalize [OF refl, of c reason cl "map snd (rt_by_pid r)" ?r1]
  have e: "finalize_at c None None reason (cl (rt_ambient r)) (rt_ambient r) ?r2 = (ok, r')"
    using assms by (simp add: finalize_all_def Let_def)
  have "live_token ?r1 = live_token r" by (simp add: live_token_def fun_eq_iff)
  with finalize_at_live [OF e] finalize_at_known [OF e] f
  show "live_token r' = (\<lambda>i. if i = rt_ambient r \<or> i \<in> snd ` set (rt_by_pid r) then None else live_token r i)"
    "tables r' = (rt_ambient r, [], Map.empty, rt_attach_order r)" "known r' = known r"
    by (auto simp: tables_def fun_eq_iff)
qed

section \<open>The tables follow the roster\<close>

definition in_step :: "bool \<Rightarrow> router \<Rightarrow> recording list \<Rightarrow> bool" where
  "in_step distinct_tokens r ros \<longleftrightarrow>
     distinct (map fst ros) \<and> distinct (map (snd \<circ> snd) ros) \<and>
     map_of (rt_by_pid r) = (\<lambda>p. with_pid p ros) \<and>
     filter (\<lambda>p. with_pid p ros \<noteq> None) (rt_attach_order r) = map fst ros \<and>
     (\<forall>p tk i. (p, tk, i) \<in> set ros \<longrightarrow> live_token r i = Some tk \<and> i \<noteq> rt_ambient r) \<and>
     rt_ambient r \<in> known r \<and>
     (\<forall>t i. rt_by_token r t = Some i \<longrightarrow> (\<exists>p. (p, Some t, i) \<in> set ros)) \<and>
     (distinct_tokens \<longrightarrow> (\<forall>p t i. (p, Some t, i) \<in> set ros \<longrightarrow> rt_by_token r t = Some i))"

lemma in_stepI:
  assumes "distinct (map fst ros)" and "distinct (map (snd \<circ> snd) ros)"
    and "map_of (rt_by_pid r) = (\<lambda>p. with_pid p ros)"
    and "filter (\<lambda>p. with_pid p ros \<noteq> None) (rt_attach_order r) = map fst ros"
    and "\<And>p tk i. (p, tk, i) \<in> set ros \<Longrightarrow> live_token r i = Some tk \<and> i \<noteq> rt_ambient r"
    and "rt_ambient r \<in> known r"
    and "\<And>t i. rt_by_token r t = Some i \<Longrightarrow> \<exists>p. (p, Some t, i) \<in> set ros"
    and "\<And>p t i. distinct_tokens \<Longrightarrow> (p, Some t, i) \<in> set ros \<Longrightarrow> rt_by_token r t = Some i"
  shows "in_step distinct_tokens r ros"
  using assms unfolding in_step_def by blast

lemma in_step_same:
  "in_step dt r ros \<Longrightarrow> live_token r' = live_token r \<and> tables r' = tables r \<Longrightarrow> known r' = known r \<Longrightarrow>
     in_step dt r' ros"
  by (simp add: in_step_def tables_def)

lemma in_step_start: "as_inner ambient \<noteq> None \<Longrightarrow> in_step dt (router_new ambient sh) []"
  by (simp add: in_step_def router_new_def with_pid_def known_def fun_eq_iff)

lemma with_pid_drop:
  "with_pid p (drop_pid pid ros) = (if p = pid then None else with_pid p ros)"
  by (induction ros) (auto simp: with_pid_def drop_pid_def)

lemma with_pid_snoc:
  "with_pid p (drop_pid pid ros @ [(pid, tk, i)]) = (if p = pid then Some i else with_pid p ros)"
proof -
  have "with_pid p (xs @ [(pid, tk, i)]) = (case with_pid p xs of Some j \<Rightarrow> Some j
      | None \<Rightarrow> if p = pid then Some i else None)" for xs
    by (induction xs) (auto simp: with_pid_def)
  then show ?thesis by (simp add: with_pid_drop split: option.splits)
qed

lemma map_fst_drop_pid: "map fst (drop_pid pid ros) = filter (\<lambda>p. p \<noteq> pid) (map fst ros)"
  by (induction ros) (auto simp: drop_pid_def)

lemma with_pid_mem: "with_pid p ros = Some i \<Longrightarrow> \<exists>tk. (p, tk, i) \<in> set ros"
  unfolding with_pid_def by (drule map_of_SomeD) auto

lemma with_pid_of_mem: "distinct (map fst ros) \<Longrightarrow> (p, tk, i) \<in> set ros \<Longrightarrow> with_pid p ros = Some i"
  by (induction ros) (auto simp: with_pid_def image_iff)

lemma set_drop_pid [simp]: "x \<in> set (drop_pid pid ros) \<longleftrightarrow> x \<in> set ros \<and> fst x \<noteq> pid"
  by (auto simp: drop_pid_def)

lemma same_recording:
  "distinct (map (snd \<circ> snd) ros) \<Longrightarrow> (p, tk, i) \<in> set ros \<Longrightarrow> (p', tk', i) \<in> set ros \<Longrightarrow>
     p = p' \<and> tk = tk'"
  by (induction ros) (force simp: image_iff)+

lemma distinct_drop_pid:
  "distinct (map fst ros) \<Longrightarrow> distinct (map fst (drop_pid pid ros))"
  "distinct (map (snd \<circ> snd) ros) \<Longrightarrow> distinct (map (snd \<circ> snd) (drop_pid pid ros))"
  by (simp_all add: map_fst_drop_pid) (simp add: drop_pid_def distinct_map_filter)

lemma live_token_of: "live_token r i = Some tk \<Longrightarrow> token_of r i = tk"
  by (auto simp: live_token_def token_of_def split: option.splits if_splits)

lemma detach_tables:
  assumes "map_of (rt_by_pid r) pid = Some rm" and "detach_scoped c pid code sig cl r = (res, r')"
  shows "tables r' = (rt_ambient r, AList.delete pid (rt_by_pid r),
      case token_of r rm of None \<Rightarrow> rt_by_token r | Some t \<Rightarrow> (rt_by_token r)(t := None),
      filter (\<lambda>p. p \<noteq> pid) (rt_attach_order r))"
    and "live_token r' = (live_token r)(rm := None)"
proof -
  let ?r1 = "r\<lparr>rt_by_pid := AList.delete pid (rt_by_pid r),
    rt_attach_order := filter (\<lambda>p. p \<noteq> pid) (rt_attach_order r),
    rt_by_token := (case token_of r rm of None \<Rightarrow> rt_by_token r | Some t \<Rightarrow> (rt_by_token r)(t := None))\<rparr>"
  obtain ok where f: "finalize_at c code sig (''record:exit pid='' @ digits (unat pid)) cl rm ?r1 = (ok, r')"
    using assms by (auto simp: detach_scoped_def Let_def prod_eq_iff)
  have "live_token ?r1 = live_token r" by (simp add: live_token_def fun_eq_iff)
  with finalize_at_live [OF f] show "live_token r' = (live_token r)(rm := None)"
    "tables r' = (rt_ambient r, AList.delete pid (rt_by_pid r),
      case token_of r rm of None \<Rightarrow> rt_by_token r | Some t \<Rightarrow> (rt_by_token r)(t := None),
      filter (\<lambda>p. p \<noteq> pid) (rt_attach_order r))" by (simp_all add: tables_def)
qed

lemma in_step_detach:
  assumes "in_step dt r ros" and "detach_scoped c pid code sig cl r = (res, r')"
  shows "in_step dt r' (drop_pid pid ros)"
proof (cases "map_of (rt_by_pid r) pid")
  case None
  with assms have "r' = r" by (simp add: detach_scoped_def)
  moreover have "pid \<notin> fst ` set ros"
    using assms(1) None by (auto simp: in_step_def with_pid_def map_of_eq_None_iff image_iff)
  then have "drop_pid pid ros = ros" by (force simp: drop_pid_def filter_id_conv)
  ultimately show ?thesis using assms(1) by simp
next
  case (Some rm)
  note t = detach_tables [OF Some assms(2), unfolded tables_def]
  from assms(1) have d: "distinct (map fst ros)" "distinct (map (snd \<circ> snd) ros)"
    and bp: "map_of (rt_by_pid r) = (\<lambda>p. with_pid p ros)"
    and ord: "filter (\<lambda>p. with_pid p ros \<noteq> None) (rt_attach_order r) = map fst ros"
    and live: "\<And>p tk i. (p, tk, i) \<in> set ros \<Longrightarrow> live_token r i = Some tk \<and> i \<noteq> rt_ambient r"
    and amb: "rt_ambient r \<in> known r"
    and bt: "\<And>t i. rt_by_token r t = Some i \<Longrightarrow> \<exists>p. (p, Some t, i) \<in> set ros"
    and full: "\<And>p t i. dt \<Longrightarrow> (p, Some t, i) \<in> set ros \<Longrightarrow> rt_by_token r t = Some i"
    by (auto simp: in_step_def)
  from Some bp obtain tk where rm: "(pid, tk, rm) \<in> set ros" using with_pid_mem by metis
  then have tok: "token_of r rm = tk" using live live_token_of by blast
  have "filter (\<lambda>p. with_pid p (drop_pid pid ros) \<noteq> None) (rt_attach_order r') =
      filter (\<lambda>p. p \<noteq> pid) (filter (\<lambda>p. with_pid p ros \<noteq> None) (rt_attach_order r))"
    using t(1) by (auto simp: with_pid_drop intro!: filter_cong)
  then have ord': "filter (\<lambda>p. with_pid p (drop_pid pid ros) \<noteq> None) (rt_attach_order r') =
      map fst (drop_pid pid ros)" by (simp only: ord map_fst_drop_pid)
  have bp': "map_of (rt_by_pid r') = (\<lambda>p. with_pid p (drop_pid pid ros))"
    using t(1) bp by (auto simp: fun_eq_iff with_pid_drop delete_conv')
  have other: "i \<noteq> rm" if "(p, tk', i) \<in> set ros" "p \<noteq> pid" for p tk' i
    using same_recording [OF d(2) rm] that by blast
  have bt': "\<exists>p. (p, Some u, i) \<in> set (drop_pid pid ros)" if "rt_by_token r' u = Some i" for u i
  proof -
    have u: "rt_by_token r u = Some i" and "tk \<noteq> Some u"
      using that t(1) by (auto simp: tok split: option.splits if_splits)
    from bt [OF u] obtain p where p: "(p, Some u, i) \<in> set ros" ..
    have "p \<noteq> pid"
    proof
      assume "p = pid"
      with p rm d(1) have "tk = Some u" by (metis Pair_inject eq_key_imp_eq_value)
      with \<open>tk \<noteq> Some u\<close> show False ..
    qed
    with p show ?thesis by auto
  qed
  have full': "rt_by_token r' u = Some i" if "dt" "(p, Some u, i) \<in> set (drop_pid pid ros)" for p u i
  proof -
    from that have p: "(p, Some u, i) \<in> set ros" "p \<noteq> pid" by auto
    with full [OF that(1)] have "rt_by_token r u = Some i" by blast
    moreover have "tk \<noteq> Some u"
    proof
      assume "tk = Some u"
      with full [OF that(1)] rm have "rt_by_token r u = Some rm" by blast
      with \<open>rt_by_token r u = Some i\<close> other [OF p] show False by simp
    qed
    ultimately show ?thesis using t(1) by (auto simp: tok split: option.splits)
  qed
  have live': "live_token r' i = Some tk' \<and> i \<noteq> rt_ambient r'"
    if "(p, tk', i) \<in> set (drop_pid pid ros)" for p tk' i
    using that live [of p tk' i] other [of p tk' i] t by auto
  have amb': "rt_ambient r' \<in> known r'" using amb t detach_known [OF assms(2)] by simp
  show ?thesis
    by (rule in_stepI [OF distinct_drop_pid(1) [OF d(1)] distinct_drop_pid(2) [OF d(2)] bp' ord'
        live' amb' bt' full'])
qed

lemma open_with_fields:
  assumes "open_with c cfg token pid sd sh = Some (s, sh')"
  shows "as_inner s \<noteq> None" and "as_scope_token s = token" and "as_id s = sd_id sd"
proof -
  from assms obtain w res where a: "append_internal c System pid None (SessionStarted (sd_wall sd))
      (sd_now sd) (sd_arrived sd) (fresh_session token sd w, sh) = (Inr res, s, sh')"
    by (auto simp: open_with_def fresh_session_def split: option.splits prod.splits sum.splits)
  from append_internal_live [OF a] show "as_inner s \<noteq> None" "as_scope_token s = token"
    "as_id s = sd_id sd" by (simp_all add: fresh_session_def)
qed

lemma release_token_effect:
  "live_token (release_token prev r) = live_token r"
  "tables (release_token prev r) = (rt_ambient r, rt_by_pid r,
     (case token_of r prev of None \<Rightarrow> rt_by_token r
      | Some t \<Rightarrow> if rt_by_token r t = Some prev then (rt_by_token r)(t := None) else rt_by_token r),
     rt_attach_order r)"
  by (auto simp: release_token_def tables_def live_token_def fun_eq_iff split: option.splits)

text \<open>The tables and the store after a session was attached.\<close>

lemma attach_tables:
  assumes "attach_scoped c env opts sd cl r = (Some i, r')"
  defines "pid \<equiv> so_pid opts" and "tk \<equiv> so_scope_token opts"
  defines "bt \<equiv> (case tk of None \<Rightarrow> rt_by_token r | Some t \<Rightarrow> (rt_by_token r)(t \<mapsto> i))"
    and "lv \<equiv> (live_token r)(i := Some tk)"
  shows "i = sd_id sd" and "rt_ambient r' = rt_ambient r"
    and "rt_by_pid r' = AList.update pid i (rt_by_pid r)"
    and "rt_attach_order r' = filter (\<lambda>p. p \<noteq> pid) (rt_attach_order r) @ [pid]"
    and "map_of (rt_by_pid r) pid = None \<Longrightarrow> live_token r' = lv \<and> rt_by_token r' = bt"
    and "map_of (rt_by_pid r) pid = Some pv \<Longrightarrow> pv \<noteq> i \<Longrightarrow> live_token r pv = Some otk \<Longrightarrow>
      live_token r' = lv(pv := None) \<and>
      rt_by_token r' = (case otk of None \<Rightarrow> bt | Some t \<Rightarrow> if bt t = Some pv then bt(t := None) else bt)"
proof -
  from assms(1) obtain s sh where s: "open_scoped c env opts sd (rt_shared r) = Some (s, sh)"
    by (auto simp: attach_scoped_def split: option.splits)
  note f = open_with_fields [OF s [unfolded open_scoped_def]]
  let ?r1 = "register pid tk s (r\<lparr>rt_shared := sh\<rparr>)"
  have i: "i = as_id s" and r': "r' = (case map_of (rt_by_pid r) pid of None \<Rightarrow> ?r1
      | Some prev \<Rightarrow> snd (finalize_at c None None ''superseded by new AttachScopedProbes'' cl prev
          (release_token prev ?r1)))"
    using assms(1) s unfolding pid_def tk_def by (auto simp: attach_scoped_def Let_def)
  show "i = sd_id sd" using i f(3) by simp
  have t1: "tables ?r1 = (rt_ambient r, AList.update pid i (rt_by_pid r), bt,
      filter (\<lambda>p. p \<noteq> pid) (rt_attach_order r) @ [pid])"
    by (auto simp: register_def tables_def i bt_def split: option.split)
  have l1: "live_token ?r1 = lv"
    using f(1,2) by (auto simp: register_def lv_def live_token_def i tk_def fun_eq_iff)
  have fin: "live_token (snd (finalize_at c None None why cl prev (release_token prev ?r1))) = lv(prev := None)"
    "tables (snd (finalize_at c None None why cl prev (release_token prev ?r1))) =
      tables (release_token prev ?r1)" for why prev
    using finalize_at_live [of c None None why cl prev "release_token prev ?r1",
        OF prod.collapse [symmetric]] l1 by (simp_all add: release_token_effect)
  have t: "fst (tables r') = rt_ambient r \<and> fst (snd (tables r')) = AList.update pid i (rt_by_pid r) \<and>
      snd (snd (snd (tables r'))) = filter (\<lambda>p. p \<noteq> pid) (rt_attach_order r) @ [pid]"
    using t1 by (auto simp: r' fin release_token_effect tables_def [of ?r1] split: option.split)
  then show "rt_ambient r' = rt_ambient r" "rt_by_pid r' = AList.update pid i (rt_by_pid r)"
    "rt_attach_order r' = filter (\<lambda>p. p \<noteq> pid) (rt_attach_order r) @ [pid]"
    by (simp_all add: tables_def)
  show "map_of (rt_by_pid r) pid = None \<Longrightarrow> live_token r' = lv \<and> rt_by_token r' = bt"
    using r' l1 t1 by (simp add: tables_def)
  show "live_token r' = lv(pv := None) \<and>
      rt_by_token r' = (case otk of None \<Rightarrow> bt | Some t \<Rightarrow> if bt t = Some pv then bt(t := None) else bt)"
    if "map_of (rt_by_pid r) pid = Some pv" "pv \<noteq> i" "live_token r pv = Some otk"
  proof -
    have "live_token ?r1 pv = Some otk" using l1 that by (simp add: lv_def)
    then have "token_of ?r1 pv = otk" by (rule live_token_of)
    then show ?thesis using fin [of _ pv] release_token_effect(2) [of pv ?r1] t1 that(1)
      by (auto simp: r' tables_def split: option.split)
  qed
qed

lemma in_step_attach:
  assumes "in_step dt r ros" and "rt_sessions r (sd_id sd) = None"
    and "dt \<Longrightarrow> token_free (so_scope_token opts) (so_pid opts) ros"
    and "attach_scoped c env opts sd cl r = (Some i, r')"
  shows "in_step dt r' (drop_pid (so_pid opts) ros @ [(so_pid opts, so_scope_token opts, i)])"
proof -
  let ?pid = "so_pid opts" and ?tk = "so_scope_token opts"
  let ?bt = "case ?tk of None \<Rightarrow> rt_by_token r | Some t \<Rightarrow> (rt_by_token r)(t \<mapsto> i)"
  let ?new = "drop_pid ?pid ros @ [(?pid, ?tk, i)]"
  note a = attach_tables [OF assms(4)]
  from assms(1) have d: "distinct (map fst ros)" "distinct (map (snd \<circ> snd) ros)"
    and bp: "map_of (rt_by_pid r) = (\<lambda>p. with_pid p ros)"
    and ord: "filter (\<lambda>p. with_pid p ros \<noteq> None) (rt_attach_order r) = map fst ros"
    and live: "\<And>p tk i. (p, tk, i) \<in> set ros \<Longrightarrow> live_token r i = Some tk \<and> i \<noteq> rt_ambient r"
    and amb: "rt_ambient r \<in> known r"
    and bt: "\<And>t i. rt_by_token r t = Some i \<Longrightarrow> \<exists>p. (p, Some t, i) \<in> set ros"
    and full: "\<And>p t i. dt \<Longrightarrow> (p, Some t, i) \<in> set ros \<Longrightarrow> rt_by_token r t = Some i"
    by (auto simp: in_step_def)
  have fresh: "live_token r i = None" using assms(2) a(1) by (simp add: live_token_def)
  then have new: "i \<noteq> rt_ambient r" "\<And>p tk. (p, tk, i) \<notin> set ros"
    using amb live assms(2) a(1) by (auto simp: known_def)
  let ?sup = "\<lambda>j. map_of (rt_by_pid r) ?pid = Some j"
  have sup: "p = ?pid \<longleftrightarrow> ?sup j" if "(p, tk, j) \<in> set ros" for p tk j
  proof
    assume "p = ?pid"
    with that have "with_pid ?pid ros = Some j" using with_pid_of_mem [OF d(1)] by blast
    then show "?sup j" using bp by simp
  next
    assume "?sup j"
    then obtain tk' where "(?pid, tk', j) \<in> set ros" using bp with_pid_mem by metis
    with same_recording [OF d(2) that] show "p = ?pid" by blast
  qed
  obtain otk where old:
    "\<And>j. \<not> ?sup j \<Longrightarrow> live_token r' j = ((live_token r)(i := Some ?tk)) j"
    "\<And>u j. rt_by_token r' u = Some j \<Longrightarrow> ?bt u = Some j \<and> (?sup j \<longrightarrow> u \<notin> set_option otk)"
    "\<And>u j. ?bt u = Some j \<Longrightarrow> \<not> ?sup j \<Longrightarrow> rt_by_token r' u = Some j"
    "\<And>j. ?sup j \<Longrightarrow> j \<noteq> i \<and> j \<noteq> rt_ambient r"
    "\<And>p u j. ?sup j \<Longrightarrow> (p, Some u, j) \<in> set ros \<Longrightarrow> otk = Some u"
  proof (cases "map_of (rt_by_pid r) ?pid")
    case None
    with a(5) show ?thesis by (intro that [of None]) auto
  next
    case (Some pv)
    then obtain otk where pv: "(?pid, otk, pv) \<in> set ros" using bp with_pid_mem by metis
    from live [OF pv] new(2) pv have "live_token r pv = Some otk" "pv \<noteq> i" "pv \<noteq> rt_ambient r" by auto
    with a(6) [OF Some] have eff: "live_token r' = ((live_token r)(i := Some ?tk))(pv := None)"
      "rt_by_token r' = (case otk of None \<Rightarrow> ?bt | Some t \<Rightarrow> if ?bt t = Some pv then ?bt(t := None) else ?bt)"
      by blast+
    show ?thesis
    proof (rule that [of otk])
      show "otk = Some u" if "?sup j" "(p, Some u, j) \<in> set ros" for p u j
        using same_recording [OF d(2) pv] that Some by auto
    qed (use Some eff \<open>pv \<noteq> i\<close> \<open>pv \<noteq> rt_ambient r\<close> in \<open>auto split: option.splits if_splits\<close>)
  qed
  have ni: "\<not> ?sup i" using old(4) [of i] by blast
  show ?thesis
  proof (rule in_stepI)
    show "distinct (map fst ?new)" using distinct_drop_pid(1) [OF d(1)] by (auto simp: map_fst_drop_pid)
    show "distinct (map (snd \<circ> snd) ?new)"
      using distinct_drop_pid(2) [OF d(2)] new(2) by force
    show "map_of (rt_by_pid r') = (\<lambda>p. with_pid p ?new)"
      using bp by (auto simp: a(3) with_pid_snoc update_conv' fun_eq_iff)
    have "filter (\<lambda>p. with_pid p ?new \<noteq> None) (filter (\<lambda>p. p \<noteq> ?pid) (rt_attach_order r)) =
        filter (\<lambda>p. p \<noteq> ?pid) (filter (\<lambda>p. with_pid p ros \<noteq> None) (rt_attach_order r))"
      by (auto simp: with_pid_snoc intro!: filter_cong)
    then show "filter (\<lambda>p. with_pid p ?new \<noteq> None) (rt_attach_order r') = map fst ?new"
      by (simp only: a(4) filter_append ord map_append map_fst_drop_pid) (simp add: with_pid_snoc)
    show "live_token r' j = Some tk \<and> j \<noteq> rt_ambient r'" if "(p, tk, j) \<in> set ?new" for p tk j
      using that live [of p tk j] sup [of p tk j] old(1) [of j] ni new by (auto simp: a(2))
    show "rt_ambient r' \<in> known r'" using amb attach_known [OF assms(4)] by (auto simp: a(2))
    show "\<exists>p. (p, Some u, j) \<in> set ?new" if "rt_by_token r' u = Some j" for u j
    proof (cases "?tk = Some u")
      case True
      with old(2) [OF that] show ?thesis by auto
    next
      case False
      with old(2) [OF that] have "rt_by_token r u = Some j" and keep: "?sup j \<longrightarrow> u \<notin> set_option otk"
        by (auto split: option.splits)
      with bt obtain p where p: "(p, Some u, j) \<in> set ros" by blast
      with keep old(5) have "\<not> ?sup j" by fastforce
      with sup [OF p] p show ?thesis by auto
    qed
    show "rt_by_token r' u = Some j" if "dt" "(p, Some u, j) \<in> set ?new" for p u j
    proof (cases "(p, Some u, j) = (?pid, ?tk, i)")
      case True
      then have "?bt u = Some j" "j = i" by (auto split: option.split)
      with old(3) [of u j] ni show ?thesis by auto
    next
      case False
      with that(2) have p: "(p, Some u, j) \<in> set ros" "p \<noteq> ?pid" by auto
      with assms(3) [OF that(1)] have "?tk \<noteq> Some u" by (auto simp: token_free_def list_all_iff)
      with full [OF that(1) p(1)] have "?bt u = Some j" by (auto split: option.splits)
      with sup [OF p(1)] p(2) old(3) show ?thesis by auto
    qed
  qed
qed

lemma in_step_step:
  assumes s: "in_step dt r ros" and k: "router_step c env dt r ros k r' ros'"
  shows "in_step dt r' ros'"
  using k
proof cases
  case (attached sd opts cl i)
  from in_step_attach [OF s attached(3-5)] show ?thesis by (simp add: attached(2))
next
  case (refused opts sd cl)
  then have "r' = r" by (auto simp: attach_scoped_def Let_def split: option.splits)
  with s refused(2) show ?thesis by simp
next
  case (detached pid code sig cl res)
  with in_step_detach [OF s detached(3)] show ?thesis by simp
next
  case (wrote sid src pid raw p now arrived result)
  with append_to_live [OF wrote(3)] append_to_known [OF wrote(3)] in_step_same [OF s, of r'] show ?thesis by simp
next
  case (flushed ok)
  with in_step_same [OF s flush_all_live [OF flushed(3)] flush_all_known [OF flushed(3)]] show ?thesis by simp
next
  case (try_flushed mh held n)
  with in_step_same [OF s try_flush_all_live [OF try_flushed(3)] try_flush_all_known [OF try_flushed(3)]]
  show ?thesis by simp
next
  case (finalized_all reason cls ok)
  with s finalize_all_effect(2,3) [OF finalized_all(3)] show ?thesis
    by (auto simp: in_step_def tables_def with_pid_def fun_eq_iff)
qed

lemma in_step_steps:
  "router_steps c env dt r ros ks r' ros' \<Longrightarrow> in_step dt r ros \<Longrightarrow> in_step dt r' ros'"
  by (induction rule: router_steps.induct) (auto intro: in_step_step)

lemma serves_in_step: "serves c env dt r ros \<Longrightarrow> in_step dt r ros"
  unfolding serves_def using in_step_steps in_step_start by blast

section \<open>Routing\<close>

lemma newest_scoped_step:
  assumes "in_step dt r ros"
  shows "newest_scoped r = newest ros"
proof -
  from assms have d: "distinct (map fst ros)" and bp: "map_of (rt_by_pid r) = (\<lambda>p. with_pid p ros)"
    and ord: "filter (\<lambda>p. with_pid p ros \<noteq> None) (rt_attach_order r) = map fst ros"
    by (simp_all add: in_step_def)
  have rev: "filter (\<lambda>p. with_pid p ros \<noteq> None) (rev (rt_attach_order r)) = rev (map fst ros)"
    by (simp only: rev_filter [symmetric] ord)
  show ?thesis
  proof (cases ros rule: rev_cases)
    case Nil
    with rev bp show ?thesis by (simp add: newest_scoped_def newest_def)
  next
    case (snoc ys y)
    obtain p tk i where y: "y = (p, tk, i)" by (cases y)
    have "with_pid p ros = Some i" by (rule with_pid_of_mem [OF d, of p tk]) (simp add: snoc y)
    with rev bp snoc y show ?thesis by (simp add: newest_scoped_def newest_def)
  qed
qed

lemma by_token_step:
  assumes "in_step True r ros"
  shows "rt_by_token r t = with_token t ros"
proof (cases "with_token t ros")
  case (Some i)
  then obtain p where "(p, Some t, i) \<in> set ros"
    unfolding with_token_def by (auto dest!: map_of_SomeD)
  with assms Some show ?thesis unfolding in_step_def by auto
next
  case None
  then have "(p, Some t, i) \<notin> set ros" for p i
    unfolding with_token_def map_of_eq_None_iff by force
  with assms None show ?thesis unfolding in_step_def by (metis option.exhaust)
qed

lemma route_source:
  "route_for src token pid r \<noteq> rt_ambient r \<Longrightarrow>
     (\<exists>t. rt_by_token r t = Some (route_for src token pid r)) \<or>
     (\<exists>p. map_of (rt_by_pid r) p = Some (route_for src token pid r)) \<or>
     newest_scoped r = Some (route_for src token pid r)"
  by (cases token; cases pid) (auto simp: route_for_def split: option.splits if_splits)

section \<open>When an append comes too late\<close>

text \<open>The calls that end the recording a process has.\<close>

fun ends_recording :: "u32 \<Rightarrow> router_call \<Rightarrow> bool" where
  "ends_recording pid (Attached p) = (p = pid)"
| "ends_recording pid (Detached p) = (p = pid)"
| "ends_recording pid FinalizedAll = True"
| "ends_recording pid _ = False"

lemma live_recording: "in_step dt r ros \<Longrightarrow> (pid, tk, t) \<in> set ros \<Longrightarrow> live_token r t = Some tk \<and> t \<noteq> rt_ambient r"
  by (auto simp: in_step_def)

text \<open>One call: a session that has ended stays so, and a recording ends exactly by the calls above.\<close>

lemma step_fate:
  assumes s: "in_step dt r ros" and k: "router_step c env dt r ros k r' ros'"
  shows "rt_ambient r' = rt_ambient r"
    and "t \<in> known r \<Longrightarrow> t \<in> known r' \<and> (live_token r t = None \<longrightarrow> live_token r' t = None)"
    and "live_token r' (rt_ambient r) = (if k = FinalizedAll then None else live_token r (rt_ambient r))"
    and "(pid, tk, t) \<in> set ros \<Longrightarrow>
      if ends_recording pid k then live_token r' t = None else (pid, tk, t) \<in> set ros'"
proof -
  let ?goal = "rt_ambient r' = rt_ambient r \<and>
    (t \<in> known r \<longrightarrow> t \<in> known r' \<and> (live_token r t = None \<longrightarrow> live_token r' t = None)) \<and>
    live_token r' (rt_ambient r) = (if k = FinalizedAll then None else live_token r (rt_ambient r)) \<and>
    ((pid, tk, t) \<in> set ros \<longrightarrow> (if ends_recording pid k then live_token r' t = None else (pid, tk, t) \<in> set ros'))"
  from s have d: "distinct (map fst ros)" "distinct (map (snd \<circ> snd) ros)"
    and bp: "map_of (rt_by_pid r) = (\<lambda>p. with_pid p ros)" and amb: "rt_ambient r \<in> known r"
    by (simp_all add: in_step_def)
  note live = live_recording [OF s]
  have at: "map_of (rt_by_pid r) p = Some j" if "(p, tk', j) \<in> set ros" for p tk' j
    using with_pid_of_mem [OF d(1) that] bp by simp
  have same: ?goal if "live_token r' = live_token r" "tables r' = tables r" "known r' = known r" "ros' = ros"
    "k \<noteq> FinalizedAll" "\<not> ends_recording pid k"
    using that by (simp add: tables_def)
  from k have ?goal
  proof cases
    case (attached sd opts cl i)
    let ?pid = "so_pid opts"
    note a = attach_tables [OF attached(5)]
    have fresh: "i \<notin> known r" using attached(3) a(1) by (auto simp: known_def)
    have rest: "live_token r' j = live_token r j" if "j \<noteq> i" "map_of (rt_by_pid r) ?pid \<noteq> Some j" for j
    proof (cases "map_of (rt_by_pid r) ?pid")
      case None
      with a(5) that show ?thesis by simp
    next
      case (Some pv)
      then obtain otk where pv: "(?pid, otk, pv) \<in> set ros" using bp with_pid_mem by metis
      with fresh live [OF pv] have "pv \<noteq> i" by (auto simp: known_def live_token_def split: option.splits)
      with a(6) [OF Some] live [OF pv] that Some show ?thesis by simp
    qed
    have old: "live_token r' pv = None" if "map_of (rt_by_pid r) ?pid = Some pv" for pv
    proof -
      from that obtain otk where pv: "(?pid, otk, pv) \<in> set ros" using bp with_pid_mem by metis
      with fresh live [OF pv] have "pv \<noteq> i" by (auto simp: known_def live_token_def split: option.splits)
      with a(6) [OF that] live [OF pv] show ?thesis by simp
    qed
    have notamb: "map_of (rt_by_pid r) ?pid \<noteq> Some (rt_ambient r)"
    proof
      assume "map_of (rt_by_pid r) ?pid = Some (rt_ambient r)"
      then obtain otk where "(?pid, otk, rt_ambient r) \<in> set ros" using bp with_pid_mem by metis
      with live show False by blast
    qed
    have "rt_ambient r \<noteq> i" using amb fresh by auto
    moreover have "t \<in> known r \<Longrightarrow> live_token r t = None \<Longrightarrow> live_token r' t = None"
      using rest [of t] old fresh by (cases "map_of (rt_by_pid r) ?pid = Some t") auto
    moreover have "(pid, tk, t) \<in> set ros \<Longrightarrow> pid = ?pid \<Longrightarrow> live_token r' t = None" using at old by blast
    ultimately show ?thesis
      using attach_known [OF attached(5)] rest [of "rt_ambient r"] notamb attached(1,2)
      by (auto simp: a(2))
  next
    case (refused opts sd cl)
    then have "r' = r" by (auto simp: attach_scoped_def Let_def split: option.splits)
    with refused show ?thesis by (intro same) simp_all
  next
    case (detached p code sig cl res)
    show ?thesis
    proof (cases "map_of (rt_by_pid r) p")
      case None
      with detached(3) have "r' = r" by (simp add: detach_scoped_def)
      moreover have "(p, tk', j) \<notin> set ros" for tk' j using at None by fastforce
      ultimately show ?thesis using detached(1,2) by auto
    next
      case (Some rm)
      note t = detach_tables [OF Some detached(3)]
      from Some obtain rtk where rm: "(p, rtk, rm) \<in> set ros" using bp with_pid_mem by metis
      have "(pid, tk, t) \<in> set ros \<Longrightarrow> pid = p \<Longrightarrow> t = rm" using at Some by fastforce
      then show ?thesis
        using t live [OF rm] detach_known [OF detached(3)] detached(1,2) by (auto simp: tables_def)
    qed
  next
    case (wrote sid src p raw pl now arrived result)
    with append_to_live [OF wrote(3)] append_to_known [OF wrote(3)] show ?thesis by (intro same) simp_all
  next
    case (flushed ok)
    with flush_all_live [OF flushed(3)] flush_all_known [OF flushed(3)] show ?thesis by (intro same) simp_all
  next
    case (try_flushed mh held n)
    with try_flush_all_live [OF try_flushed(3)] try_flush_all_known [OF try_flushed(3)] show ?thesis
      by (intro same) simp_all
  next
    case (finalized_all reason cls ok)
    have "(pid, tk, t) \<in> set ros \<Longrightarrow> t \<in> snd ` set (rt_by_pid r)" using at by (force dest: map_of_SomeD)
    then show ?thesis using finalize_all_effect [OF finalized_all(3)] finalized_all(1) by (auto simp: tables_def)
  qed
  then show "rt_ambient r' = rt_ambient r"
    and "t \<in> known r \<Longrightarrow> t \<in> known r' \<and> (live_token r t = None \<longrightarrow> live_token r' t = None)"
    and "live_token r' (rt_ambient r) = (if k = FinalizedAll then None else live_token r (rt_ambient r))"
    and "(pid, tk, t) \<in> set ros \<Longrightarrow>
      if ends_recording pid k then live_token r' t = None else (pid, tk, t) \<in> set ros'" by blast+
qed

lemma steps_ambient:
  "router_steps c env dt r ros ks r' ros' \<Longrightarrow> in_step dt r ros \<Longrightarrow>
     rt_ambient r' = rt_ambient r \<and>
     live_token r' (rt_ambient r) = (if FinalizedAll \<in> set ks then None else live_token r (rt_ambient r))"
proof (induction rule: router_steps.induct)
  case (next_call ks r1 ros1 k r2 ros2)
  from step_fate(1,3) [OF in_step_steps [OF next_call.hyps(1) next_call.prems] next_call.hyps(2)] next_call
  show ?case by auto
qed simp

lemma steps_recording:
  "router_steps c env dt r ros ks r' ros' \<Longrightarrow> in_step dt r ros \<Longrightarrow> (pid, tk, t) \<in> set ros \<Longrightarrow>
     t \<in> known r' \<and>
     (if \<exists>k \<in> set ks. ends_recording pid k then live_token r' t = None else (pid, tk, t) \<in> set ros')"
proof (induction rule: router_steps.induct)
  case none
  then show ?case using live_recording [OF none] by (auto simp: known_def live_token_def split: option.splits)
next
  case (next_call ks r1 ros1 k r2 ros2)
  note s1 = in_step_steps [OF next_call.hyps(1) next_call.prems(1)]
  from next_call have IH: "t \<in> known r1"
    "if \<exists>k \<in> set ks. ends_recording pid k then live_token r1 t = None else (pid, tk, t) \<in> set ros1" by blast+
  from step_fate(2) [OF s1 next_call.hyps(2) IH(1)] step_fate(4) [OF s1 next_call.hyps(2), of pid tk t] IH(2)
  show ?case by (cases "\<exists>k \<in> set ks. ends_recording pid k") auto
qed

text \<open>An event goes to the ambient session or to a recording of the roster.\<close>

lemma route_target:
  assumes inv: "in_step dt r ros" and t: "route_for src token pid r \<noteq> rt_ambient r"
  shows "\<exists>p tk. (p, tk, route_for src token pid r) \<in> set ros"
proof -
  from inv have bp: "map_of (rt_by_pid r) = (\<lambda>p. with_pid p ros)"
    and bt: "\<And>t i. rt_by_token r t = Some i \<Longrightarrow> \<exists>p. (p, Some t, i) \<in> set ros"
    by (auto simp: in_step_def)
  have "newest ros = Some i \<Longrightarrow> \<exists>p tk. (p, tk, i) \<in> set ros" for i
    unfolding newest_def by (cases ros rule: rev_cases) auto
  with newest_scoped_step [OF inv] have new: "newest_scoped r = Some i \<Longrightarrow> \<exists>p tk. (p, tk, i) \<in> set ros" for i
    by simp
  from route_source [OF t] bt new with_pid_mem [of _ ros] bp show ?thesis by metis
qed

lemma append_to_refused:
  "fst (append_to c t src pid raw p now arrived r) = Inl AlreadyFinalized \<longleftrightarrow> live_token r t = None"
  by (auto simp: append_to_def append_internal_def live_token_def Let_def split: option.splits prod.splits sum.splits)

text \<open>
  C21. Which appends come too late.  An event is routed at one moment and written at a later one,
  with any calls of other threads in between: recordings attached, refused, detached and superseded,
  other events, flushes, and the shutdown, which finalizes all.  The write is refused as finalized
  exactly when, if it was routed to the ambient session, the shutdown has happened, before or after the
  routing, and, if it was routed to the recording of a process, that recording was detached,
  superseded or shut down after the routing.  So an event written at once is refused only
  after the shutdown and only by the ambient session, whichever tokens the recordings share.
\<close>
theorem late_append_refused:
  assumes "as_inner ambient \<noteq> None"
    and "router_steps c env False (router_new ambient sh) [] before r ros"
    and "router_steps c env False r ros between r' ros'"
    and "t = route_for src token pid r"
  shows "fst (append_to c t src pid raw p now arrived r') = Inl AlreadyFinalized \<longleftrightarrow>
    (if t = rt_ambient r then FinalizedAll \<in> set (before @ between)
     else \<exists>rec_pid tk. (rec_pid, tk, t) \<in> set ros \<and> (\<exists>k \<in> set between. ends_recording rec_pid k))"
proof -
  note start = in_step_start [OF assms(1), of False sh]
  note inv = in_step_steps [OF assms(2) start] and inv' = in_step_steps [OF assms(3) in_step_steps [OF assms(2) start]]
  show ?thesis
  proof (cases "t = rt_ambient r")
    case True
    have "live_token (router_new ambient sh) (rt_ambient (router_new ambient sh)) \<noteq> None"
      using assms(1) by (simp add: live_token_def router_new_def)
    with steps_ambient [OF assms(2) start] steps_ambient [OF assms(3) inv] True show ?thesis
      by (auto simp: append_to_refused split: if_splits)
  next
    case False
    with route_target [OF inv] assms(4) obtain rp tk where t: "(rp, tk, t) \<in> set ros" by blast
    have only: "rp' = rp" if "(rp', tk', t) \<in> set ros" for rp' tk'
      using same_recording [OF _ that t] inv by (simp add: in_step_def)
    have "live_token r' t = None \<longleftrightarrow> (\<exists>k \<in> set between. ends_recording rp k)"
      using steps_recording [OF assms(3) inv t] live_recording [OF inv'] by (auto split: if_splits)
    moreover have "(\<exists>rec_pid tk. (rec_pid, tk, t) \<in> set ros \<and> (\<exists>k \<in> set between. ends_recording rec_pid k)) \<longleftrightarrow>
        (\<exists>k \<in> set between. ends_recording rp k)" using t only by blast
    ultimately show ?thesis using False by (simp add: append_to_refused)
  qed
qed

text \<open>
  C18. Routing by the roster.  When no two recordings share a token, the router's tables answer as
  the roster does: an event goes to the recording of its token, else of its process, else, for a
  marker, to the recording attached last, else to the ambient session.
\<close>
theorem route_refines_roster:
  assumes "serves c env True r ros"
  shows "route_for src token pid r = route_spec ros (rt_ambient r) src token pid \<and>
    session_for_token t r = with_token t ros"
proof -
  note inv = serves_in_step [OF assms]
  from inv have bp: "map_of (rt_by_pid r) = (\<lambda>p. with_pid p ros)" by (simp add: in_step_def)
  have bt: "rt_by_token r = (\<lambda>t. with_token t ros)" using by_token_step [OF inv] by auto
  show ?thesis
    unfolding route_for_def route_spec_def newest_scoped_step [OF inv] session_for_token_def bp bt
    by simp
qed

end
