(* ===== verification/DaemonExample.thy ===== *)
theory DaemonExample
  imports PostMortem StoreExample RouterFacts
begin

text \<open>The properties of the daemon applied to concrete runs.\<close>

section \<open>A post-mortem\<close>

definition fault :: "nat \<Rightarrow> event" where
  "fault n = mk_event n n (MachException 7 1 [])"

definition box_codecs :: stream_codecs where
  "box_codecs = demo_codecs
     \<lparr>cbor_dec := (\<lambda>bs. case bs of [b] \<Rightarrow> Some (fault (unat b)) | _ \<Rightarrow> None),
      zstd_steps := (\<lambda>z. ([drop 9 z], False))\<rparr>"

definition box_enc :: "bytes \<Rightarrow> bytes option" where
  "box_enc d =
     (if length d < 2 ^ 32 then Some (ZSTD_MAGIC @ [0] @ put_u32 (of_nat (length d)) @ d) else None)"

lemma box_fields:
  "cbor_enc box_codecs = (\<lambda>ev. Some [ucast (ev_seq ev)])"
  "cbor_dec box_codecs = (\<lambda>bs. case bs of [b] \<Rightarrow> Some (fault (unat b)) | _ \<Rightarrow> None)"
  "zstd_frame_size box_codecs = (\<lambda>z. Some (9 + unat (u32_at z 5)))"
  "zstd_steps box_codecs = (\<lambda>z. ([drop 9 z], False))"
  by (simp_all add: box_codecs_def demo_codecs_def)

lemma box_unchecked: "box_enc d = Some z \<Longrightarrow> unchecked_frame box_codecs d z"
  by (auto simp: box_enc_def unchecked_frame_def box_fields ZSTD_MAGIC_def frame_has_checksum_def
      u32_at_def unat_of_nat split: if_splits)

definition box_recorder :: flight_recorder where
  "box_recorder = record_all [(10, fault 1), (20, fault 2), (25, fault 3)] (with_max_events 50 10)"

definition box_result :: "trigger_gate \<times> (flush_error + post_mortem) option \<times> payload option" where
  "box_result = watch_event (codecs.truncate box_codecs) box_enc box_recorder ''pm'' 30 (fault 2)
     (gate_new TRIGGER_MIN_INTERVAL)"

lemma box_snapshot: "snapshot box_recorder = [fault 1, fault 2, fault 3]"
  by (simp add: box_recorder_def record_all_def with_max_events_def push_at_def snapshot_def)

lemma box_written: "\<exists>g pm reply. box_result = (g, Some (Inr pm), reply)"
  by (simp add: box_result_def watch_event_def classify_def fault_def mk_event_def admit_def gate_new_def
      flush_post_mortem_def box_snapshot flush_post_mortem_events_def encode_frame_def box_fields
      MAX_FRAME_BYTES_def box_enc_def)

lemma post_mortem_holds_trigger_witness:
  "\<exists>g pm reply. box_result = (g, Some (Inr pm), reply) \<and>
     read_events_checked box_codecs True (pm_file pm) (Some (pm_meta pm)) =
       Inr ([fault 1, fault 2, fault 3], []) \<and> fault 2 \<in> set (snapshot box_recorder)"
proof -
  from box_written obtain g pm reply where r: "box_result = (g, Some (Inr pm), reply)"
    by (elim exE) (rule that)
  have "list_all (cbor_ok (codecs.truncate box_codecs))
      (map snd ([(10, fault 1)] @ (20, fault 2) # [(25, fault 3)]))"
    by (simp add: cbor_ok_def box_fields fault_def mk_event_def)
  from post_mortem_holds_trigger [of box_recorder "[(10, fault 1)]" 20 "fault 2" "[(25, fault 3)]" 50 10,
      OF _ _ _ _ r [unfolded box_result_def] box_unchecked this]
  have "read_events_checked box_codecs True (pm_file pm) (Some (pm_meta pm)) =
      Inr (snapshot box_recorder, []) \<and> fault 2 \<in> set (snapshot box_recorder)"
    by (simp add: box_recorder_def)
  with r show ?thesis unfolding box_snapshot by blast
qed

section \<open>A router\<close>

definition seed :: "uuid \<Rightarrow> session_seed" where
  "seed i = \<lparr>sd_id = i, sd_disk = [], sd_clock = \<lparr>mc_epoch = 0, mc_epoch_raw_ns = 0\<rparr>,
     sd_wall = 0, sd_now = 1, sd_arrived = 1\<rparr>"

definition no_shared :: shared where
  "no_shared = \<lparr>sh_flight_recorder = None, sh_bus = None\<rparr>"

definition at_end :: closing where
  "at_end = \<lparr>cl_wall = 9, cl_now = 9, cl_arrived = 9, cl_ended = ''2026-01-01T00:00:00Z''\<rparr>"

lemma demo_encodes: "encode_frame demo ev = Inr (put_u32 1 @ [ucast (ev_seq ev)])"
  by (simp add: encode_frame_def demo_fields MAX_FRAME_BYTES_def)

lemma demo_opens: "\<exists>s sh'. open_with demo None token pid (seed i) sh = Some (s, sh')"
  by (auto simp: open_with_def create_writer_def persist_metadata_def appender_new_def next_outcome_def
      seed_def append_internal_def inner_new_def write_event_def demo_encodes needs_seal_def batch_new_def
      batch_full_def batch_limit_def LEGACY_FRAME_BYTES_def batch_push_def Let_def
      split: option.split)

definition token_opts :: "u32 \<Rightarrow> scoped_opts" where
  "token_opts pid = \<lparr>so_pid = pid, so_scope_token = Some ''run'', so_chunked = False\<rparr>"

lemma demo_attaches:
  assumes "map_of (rt_by_pid r) pid = None"
  shows "\<exists>s sh. attach_scoped demo False (token_opts pid) (seed i) at_end r =
      (Some i, register pid (Some ''run'') s (r\<lparr>rt_shared := sh\<rparr>)) \<and> as_id s = i \<and>
    as_scope_token s = Some ''run''"
proof -
  obtain s sh' where o: "open_with demo None (Some ''run'') (Some pid) (seed i) (rt_shared r) = Some (s, sh')"
    using demo_opens by blast
  then have "open_scoped demo False (token_opts pid) (seed i) (rt_shared r) = Some (s, sh')"
    by (simp add: open_scoped_def token_opts_def chunked_format_def)
  with open_with_fields [OF o] assms show ?thesis
    by (auto simp: attach_scoped_def Let_def token_opts_def seed_def)
qed

text \<open>
  The defect of \<open>detach_scoped\<close>: it removes the token's entry without checking that it is the
  detached session's own, as \<open>attach_scoped\<close> does.  Two recordings share a token; when the first
  detaches, the token no longer reaches the second, which is still recording under it.
\<close>
theorem detach_releases_shared_token:
  "\<exists>r. serves demo False False r [(2, Some ''run'', 2)] \<and>
     session_for_token ''run'' r = None \<and>
     route_for PythonSidecar (Some ''run'') (Some 9) r = rt_ambient r \<and>
     route_spec [(2, Some ''run'', 2)] (rt_ambient r) PythonSidecar (Some ''run'') (Some 9) = 2"
proof -
  obtain amb sh0 where o: "open_with demo None None None (seed 0) no_shared = Some (amb, sh0)"
    using demo_opens by blast
  let ?r0 = "router_new amb sh0"
  have start: "serves demo False False ?r0 []" using open_with_fields(1) [OF o] by (rule serves_start)
  have amb: "as_id amb = 0" using open_with_fields(3) [OF o] by (simp add: seed_def)
  obtain s1 sh1 where a1: "attach_scoped demo False (token_opts 1) (seed 1) at_end ?r0 =
      (Some 1, register 1 (Some ''run'') s1 (?r0\<lparr>rt_shared := sh1\<rparr>))" "as_id s1 = 1"
    "as_scope_token s1 = Some ''run''"
    using demo_attaches [of ?r0 1 1] by (auto simp: router_new_def)
  let ?r1 = "register 1 (Some ''run'') s1 (?r0\<lparr>rt_shared := sh1\<rparr>)"
  have run1: "serves demo False False ?r1 [(1, Some ''run'', 1)]"
    using serves_step [OF start router_step.attached [OF _ _ a1(1)]] amb
    by (simp add: drop_pid_def token_opts_def seed_def router_new_def)
  obtain s2 sh2 where a2: "attach_scoped demo False (token_opts 2) (seed 2) at_end ?r1 =
      (Some 2, register 2 (Some ''run'') s2 (?r1\<lparr>rt_shared := sh2\<rparr>))" "as_id s2 = 2"
    "as_scope_token s2 = Some ''run''"
    using demo_attaches [of ?r1 2 2] a1(2) by (auto simp: register_def router_new_def)
  let ?r2 = "register 2 (Some ''run'') s2 (?r1\<lparr>rt_shared := sh2\<rparr>)"
  have run2: "serves demo False False ?r2 [(1, Some ''run'', 1), (2, Some ''run'', 2)]"
    using serves_step [OF run1 router_step.attached [OF _ _ a2(1)]] amb a1(2)
    by (simp add: drop_pid_def token_opts_def seed_def router_new_def register_def)
  obtain res r3 where d: "detach_scoped demo 1 None None at_end ?r2 = (res, r3)"
    by (cases "detach_scoped demo 1 None None at_end ?r2")
  have "serves demo False False r3 [(2, Some ''run'', 2)]"
    using serves_step [OF run2 router_step.detached [OF d]] by (simp add: drop_pid_def)
  moreover have "map_of (rt_by_pid ?r2) 1 = Some 1"
    using a1(2) a2(2) by (simp add: register_def router_new_def)
  from detach_tables(1) [OF this d] have "rt_by_token r3 ''run'' = None" "map_of (rt_by_pid r3) 9 = None"
    using a1(2,3) a2(2) by (auto simp: tables_def token_of_def register_def router_new_def)
  then have "session_for_token ''run'' r3 = None"
    "route_for PythonSidecar (Some ''run'') (Some 9) r3 = rt_ambient r3"
    by (simp_all add: session_for_token_def route_for_def)
  ultimately show ?thesis by (intro exI [of _ r3]) (simp add: route_spec_def with_token_def)
qed

lemma demo_serving: "\<exists>r. serves demo False dt r [(1, Some ''run'', 1)]"
proof -
  obtain amb sh0 where o: "open_with demo None None None (seed 0) no_shared = Some (amb, sh0)"
    using demo_opens by blast
  have start: "serves demo False dt (router_new amb sh0) []"
    using open_with_fields(1) [OF o] by (rule serves_start)
  obtain s sh where a: "attach_scoped demo False (token_opts 1) (seed 1) at_end (router_new amb sh0) =
      (Some 1, register 1 (Some ''run'') s (router_new amb sh0\<lparr>rt_shared := sh\<rparr>))"
    using demo_attaches [of "router_new amb sh0" 1 1] by (auto simp: router_new_def)
  show ?thesis
    using serves_step [OF start router_step.attached [OF _ _ a]] open_with_fields(3) [OF o]
    by (auto simp: drop_pid_def token_opts_def seed_def router_new_def token_free_def)
qed

lemma route_refines_roster_witness:
  "\<exists>r. route_for PythonSidecar (Some ''run'') (Some 9) r = 1 \<and> session_for_token ''run'' r = Some 1"
proof -
  from demo_serving [of True] obtain r where "serves demo False True r [(1, Some ''run'', 1)]" ..
  from route_refines_roster [OF this, of PythonSidecar "Some ''run''" "Some 9" "''run''"]
  show ?thesis by (auto simp: route_spec_def with_token_def)
qed

text \<open>An event written to the recording it was routed to, at once and after the recording was detached.\<close>

lemma late_append_refused_witness:
  "\<exists>r r'. route_for PythonSidecar None (Some 1) r = 1 \<and>
     fst (append_to demo 1 PythonSidecar (Some 1) None (Mark ''m'' []) 3 3 r) \<noteq> Inl AlreadyFinalized \<and>
     fst (append_to demo 1 PythonSidecar (Some 1) None (Mark ''m'' []) 3 3 r') = Inl AlreadyFinalized"
proof -
  from demo_serving [of False] obtain r amb sh ks where s: "as_inner amb \<noteq> None"
    "router_steps demo False False (router_new amb sh) [] ks r [(1, Some ''run'', 1)]"
    unfolding serves_def by blast
  obtain res r' where d: "detach_scoped demo 1 None None at_end r = (res, r')"
    by (cases "detach_scoped demo 1 None None at_end r")
  have more: "router_steps demo False False r [(1, Some ''run'', 1)] ([] @ [Detached 1]) r' (drop_pid 1 [(1, Some ''run'', 1)])"
    by (rule router_steps.next_call [OF router_steps.none router_step.detached [OF d]])
  have inv: "in_step False r [(1, Some ''run'', 1)]" by (rule in_step_steps [OF s(2) in_step_start [OF s(1)]])
  then have rt: "route_for PythonSidecar None (Some 1) r = 1" and amb: "(1 :: uuid) \<noteq> rt_ambient r"
    by (auto simp: in_step_def route_for_def with_pid_def)
  from late_append_refused [OF s router_steps.none rt [symmetric], of None "Mark ''m'' []" 3 3]
    late_append_refused [OF s more rt [symmetric], of None "Mark ''m'' []" 3 3] amb
  have "fst (append_to demo 1 PythonSidecar (Some 1) None (Mark ''m'' []) 3 3 r) \<noteq> Inl AlreadyFinalized"
    "fst (append_to demo 1 PythonSidecar (Some 1) None (Mark ''m'' []) 3 3 r') = Inl AlreadyFinalized" by auto
  with rt show ?thesis by blast
qed

section \<open>A whole session\<close>

definition life_event :: "nat \<Rightarrow> source \<Rightarrow> u64 \<Rightarrow> payload \<Rightarrow> event" where
  "life_event t src sq p = \<lparr>ts_mono_ns = of_nat t, ts_wall_ns = of_nat t, ev_session_id = 5,
     ev_source = src, ev_pid = None, ev_seq = sq, payload = p\<rparr>"

definition life_dec :: "bytes \<Rightarrow> event option" where
  "life_dec bs =
     (if bs = [1] then Some (life_event 4 System 1 (SessionStarted 0))
      else if bs = [2] then Some (life_event 5 SMark 2 (Mark ''step'' []))
      else if bs = [3] then Some (life_event 9 System 3 (SessionEnded 9 ''done''))
      else None)"

text \<open>Codecs that know the events of a finite decoder only.\<close>

definition table_codecs :: "(bytes \<Rightarrow> event option) \<Rightarrow> stream_codecs" where
  "table_codecs dec = demo_codecs
     \<lparr>cbor_enc := (\<lambda>ev. let bs = [ucast (ev_seq ev)] in if dec bs = Some ev then Some bs else None),
      cbor_dec := dec\<rparr>"

lemma table_fields [simp]:
  "cbor_enc (table_codecs dec) ev = (if dec [ucast (ev_seq ev)] = Some ev then Some [ucast (ev_seq ev)] else None)"
  "cbor_dec (table_codecs dec) = dec" "zstd_enc (table_codecs dec) = zstd_enc demo_codecs"
  "zstd_dec (table_codecs dec) = zstd_dec demo_codecs"
  "zstd_frame_size (table_codecs dec) = zstd_frame_size demo_codecs"
  by (simp_all add: table_codecs_def Let_def)

lemma table_cbor_ok: "cbor_ok (codecs.truncate (table_codecs dec)) ev"
  by (simp add: cbor_ok_def)

lemma table_zstd_ok: "zstd_ok (codecs.truncate (table_codecs dec))"
  using demo_zstd_ok by (simp add: zstd_ok_def)

lemma table_encode:
  "dec [ucast (ev_seq ev)] = Some ev \<Longrightarrow>
     encode_frame (codecs.truncate (table_codecs dec)) ev = Inr (put_u32 1 @ [ucast (ev_seq ev)])"
  by (simp add: encode_frame_def MAX_FRAME_BYTES_def)

abbreviation life_codecs :: stream_codecs where
  "life_codecs \<equiv> table_codecs life_dec"

definition life_writer :: "batch \<Rightarrow> writer" where
  "life_writer b = \<lparr>sw_kind = KLegacy, sw_batch = b, sw_out = appender_new [] 0 [],
     sw_metadata = session_open, sw_saved = Some session_open\<rparr>"

lemma life_write:
  assumes "dec [ucast (ev_seq ev)] = Some ev" and "bt_uncompressed_bytes b < 100"
  shows "write_event (codecs.truncate (table_codecs dec)) ev (life_writer b) =
    (Inr (), life_writer (batch_push (put_u32 1 @ [ucast (ev_seq ev)]) ev b))"
  using assms by (simp add: write_event_def table_encode needs_seal_def life_writer_def batch_limit_def
      LEGACY_FRAME_BYTES_def batch_full_def batch_push_def Let_def)

definition life_inner :: "batch \<Rightarrow> u64 \<Rightarrow> inner" where
  "life_inner b sq = (inner_new (life_writer b) 5 \<lparr>mc_epoch = 0, mc_epoch_raw_ns = 0\<rparr> 0)\<lparr>in_seq := sq\<rparr>"

definition life_session :: "batch \<Rightarrow> u64 \<Rightarrow> active_session" where
  "life_session b sq =
     \<lparr>as_id = 5, as_inner = Some (life_inner b sq), as_scope_token = None, as_left = None\<rparr>"

lemma life_append:
  assumes "stamp src pid raw p t (life_inner b sq) = ev" and "dec [ucast (ev_seq ev)] = Some ev"
    and "bt_uncompressed_bytes b < 100"
  shows "append_internal (codecs.truncate (table_codecs dec)) src pid raw p t ar (life_session b sq, no_shared) =
    (Inr ev, life_session (batch_push (put_u32 1 @ [ucast (ev_seq ev)]) ev b) (sq + 1), no_shared)"
  using life_write [of dec, OF assms(2,3)] assms(1)
  by (simp add: append_internal_def life_session_def life_inner_def inner_new_def Let_def
      report_storage_def report_failing_def report_drops_def storage_error_def dropped_events_def
      life_writer_def appender_new_def publish_def no_shared_def)

lemma life_stamp:
  "stamp src None None p t (life_inner b sq) = life_event t src (sq + 1) p"
  by (simp add: stamp_def life_inner_def inner_new_def now_ns_def life_event_def Let_def)

definition life_frame :: "u64 \<Rightarrow> bytes" where
  "life_frame sq = put_u32 1 @ [ucast sq]"

definition life_batch :: "event list \<Rightarrow> batch" where
  "life_batch evs = foldl (\<lambda>b ev. batch_push (life_frame (ev_seq ev)) ev b) batch_new evs"

abbreviation "born \<equiv> life_event 4 System 1 (SessionStarted 0)"
abbreviation "step \<equiv> life_event 5 SMark 2 (Mark ''step'' [])"
abbreviation "died \<equiv> life_event 9 System 3 (SessionEnded 9 ''done'')"

lemma life_batch_snoc: "batch_push (put_u32 1 @ [ucast (ev_seq ev)]) ev (life_batch evs) = life_batch (evs @ [ev])"
  by (simp add: life_batch_def life_frame_def)

lemma life_batch_fields:
  "bt_uncompressed_bytes (life_batch evs) = 5 * length evs"
  "bt_event_count (life_batch evs) = of_nat (length evs)" "length (bt_data (life_batch evs)) = 5 * length evs"
  by (induction evs rule: rev_induct)
    (simp_all add: life_batch_def batch_new_def batch_push_def life_frame_def)

lemma life_known:
  "life_dec [ucast (ev_seq born)] = Some born" "life_dec [ucast (ev_seq step)] = Some step"
  "life_dec [ucast (ev_seq died)] = Some died"
  by (simp_all add: life_dec_def life_event_def)

definition life_seed :: session_seed where
  "life_seed = \<lparr>sd_id = 5, sd_disk = [], sd_clock = \<lparr>mc_epoch = 0, mc_epoch_raw_ns = 0\<rparr>,
     sd_wall = 0, sd_now = 4, sd_arrived = 4\<rparr>"

lemma life_opens:
  assumes "dec [ucast (ev_seq ev)] = Some ev"
    and "stamp System pid None (SessionStarted 0) 4 (life_inner (life_batch []) 0) = ev"
  shows "open_with (codecs.truncate (table_codecs dec)) None None pid life_seed no_shared =
     Some (life_session (life_batch [ev]) 1, no_shared)"
proof -
  have "create_writer None [] [] session_open = Some (life_writer (life_batch []))"
    by (simp add: create_writer_def persist_metadata_def appender_new_def next_outcome_def
        life_writer_def life_batch_def)
  moreover have "\<lparr>as_id = 5, as_inner = Some (inner_new (life_writer (life_batch [])) 5
      \<lparr>mc_epoch = 0, mc_epoch_raw_ns = 0\<rparr> 0), as_scope_token = None, as_left = None\<rparr> =
    life_session (life_batch []) 0"
    by (simp add: life_session_def life_inner_def inner_new_def)
  ultimately show ?thesis
    using life_append [of System pid None "SessionStarted 0" 4 "life_batch []" 0 ev dec 4] assms
    by (simp add: open_with_def life_seed_def life_batch_fields life_batch_snoc)
qed

lemma life_opened:
  "open_with (codecs.truncate life_codecs) None None None life_seed no_shared =
     Some (life_session (life_batch [born]) 1, no_shared)"
  using life_opens [of life_dec born None] life_known(1) by (simp add: life_stamp)

lemma life_ran:
  "session_run (codecs.truncate life_codecs) [SAppend SMark None None (Mark ''step'' []) 5 5]
     (life_session (life_batch [born]) 1, no_shared) =
   ([step], life_session (life_batch [born, step]) 2, no_shared)"
  using life_append [of SMark None None "Mark ''step'' []" 5 "life_batch [born]" 1 step life_dec 5] life_known(2)
  by (simp add: life_batch_fields life_batch_snoc life_stamp)

definition life_closed :: "(bytes \<Rightarrow> event option) \<Rightarrow> event list \<Rightarrow> bool \<times> writer" where
  "life_closed dec evs =
     finalize_with_signal (codecs.truncate (table_codecs dec)) None None ''2026-01-01T00:00:00Z''
       (life_writer (life_batch evs))"

lemma life_closed_ok:
  assumes "length evs = 3"
  shows "fst (life_closed dec evs)" and "sw_saved (snd (life_closed dec evs)) \<noteq> None"
    and "length (ap_file (sw_out (snd (life_closed dec evs)))) = 24"
  using assms by (simp_all add: life_closed_def finalize_with_signal_def finalize_def seal_def life_writer_def
      life_batch_fields demo_zstd seal_unit_def make_room_def appender_new_def enqueue_def Let_def
      drain_def next_outcome_def unit_written_def persist_metadata_def file_write_def)

lemma life_finalizes:
  assumes "dec [ucast (ev_seq ev)] = Some ev" and "length evs = 2"
    and "stamp System None None (SessionEnded 9 ''done'') 9 (life_inner (life_batch evs) sq) = ev"
  shows "session_finalize (codecs.truncate (table_codecs dec)) None None ''done''
      \<lparr>cl_wall = 9, cl_now = 9, cl_arrived = 9, cl_ended = ''2026-01-01T00:00:00Z''\<rparr>
      (life_session (life_batch evs) sq, no_shared) =
    (True, (life_session (life_batch (evs @ [ev])) (sq + 1))
       \<lparr>as_inner := None, as_left := Some (snd (life_closed dec (evs @ [ev])))\<rparr>, no_shared)"
proof -
  have "finalize_with_signal (codecs.truncate (table_codecs dec)) None None ''2026-01-01T00:00:00Z''
      (life_writer (life_batch (evs @ [ev]))) = (True, snd (life_closed dec (evs @ [ev])))"
    using life_closed_ok(1) [of "evs @ [ev]" dec] assms(2) by (simp add: life_closed_def prod_eq_iff)
  moreover have "append_internal (codecs.truncate (table_codecs dec)) System None None
      (SessionEnded 9 ''done'') 9 9 (life_session (life_batch evs) sq, no_shared) =
    (Inr ev, life_session (life_batch (evs @ [ev])) (sq + 1), no_shared)"
    using life_append [of System None None "SessionEnded 9 ''done''" 9 "life_batch evs" sq ev dec 9] assms
    by (simp add: life_batch_fields life_batch_snoc)
  ultimately show ?thesis
    by (simp add: session_finalize_def session_append_def life_session_def life_inner_def inner_new_def)
qed

lemma life_finalized:
  "session_finalize (codecs.truncate life_codecs) None None ''done''
     \<lparr>cl_wall = 9, cl_now = 9, cl_arrived = 9, cl_ended = ''2026-01-01T00:00:00Z''\<rparr>
     (life_session (life_batch [born, step]) 2, no_shared) =
   (True, (life_session (life_batch [born, step, died]) 3)
      \<lparr>as_inner := None, as_left := Some (snd (life_closed life_dec [born, step, died]))\<rparr>, no_shared)"
  using life_finalizes [of life_dec died "[born, step]" 2] life_known(3) by (simp add: life_stamp)

lemma session_reads_back_witness:
  "\<exists>xs d. read_events_checked life_codecs True (ap_file (sw_out (snd (life_closed life_dec [born, step, died]))))
      (Some (meta_of (the (sw_saved (snd (life_closed life_dec [born, step, died])))))) =
      Inr (xs, if d = 0 then [] else [EventsDropped d]) \<and>
    sorted_wrt (<) (map ev_seq xs) \<and> list_all (\<lambda>e. ev_session_id e = 5) xs \<and>
    (d = 0 \<longrightarrow> (\<exists>started ended. xs = started # [step] @ ended \<and>
       payload started = SessionStarted 0 \<and>
       (ended = [] \<or> map payload ended = [SessionEnded 9 ''done''])))"
proof -
  have "list_all outcome_tidy (sd_disk life_seed)" by (simp add: life_seed_def)
  moreover obtain m where "sw_saved (snd (life_closed life_dec [born, step, died])) = Some m" using life_closed_ok(2) [of "[born, step, died]" life_dec] by auto
  ultimately show ?thesis
    using session_reads_back [OF life_opened _ life_ran life_finalized, of "snd (life_closed life_dec [born, step, died])" m]
      table_cbor_ok table_zstd_ok life_closed_ok(3) [of "[born, step, died]" life_dec]
    by (simp add: life_seed_def)
qed

end
