(* ===== verification/HookRecording.thy ===== *)
theory HookRecording
  imports MetalHookFacts DaemonExample
begin

text \<open>
  From the hooked process to the file: the emissions of the hook probe go through
  \<open>DaemonSink\<close> (\<open>crates/smeltr-daemon/src/probes.rs\<close>) and the router to the session of the pid, and
  are read back from its file.
\<close>

section \<open>The daemon's sink\<close>

text \<open>\<open>emit\<close> and \<open>emit_at\<close>: an append that fails is logged and forgotten.\<close>

definition daemon_sink ::
  "codecs \<Rightarrow> source \<Rightarrow> u32 option \<Rightarrow> emission \<Rightarrow> nat \<Rightarrow> nat \<Rightarrow> router \<Rightarrow> (session_error + event) \<times> router" where
  "daemon_sink c src pid e now arrived r = append_stamped c src pid None (fst e) (snd e) now arrived r"

text \<open>The emissions of a probe with the clock readings of their appends; the events appended.\<close>

fun deliver ::
  "codecs \<Rightarrow> source \<Rightarrow> u32 option \<Rightarrow> (emission \<times> nat \<times> nat) list \<Rightarrow> router \<Rightarrow> event list \<times> router" where
  "deliver c src pid [] r = ([], r)"
| "deliver c src pid ((e, now, arrived) # es) r =
     (case daemon_sink c src pid e now arrived r of
        (res, r1) \<Rightarrow> (case deliver c src pid es r1 of
           (acks, r2) \<Rightarrow> (case res of Inl _ \<Rightarrow> acks | Inr ev \<Rightarrow> ev # acks, r2)))"

text \<open>While the pid stays attached, delivering is appending to its session.\<close>

definition append_ops :: "source \<Rightarrow> u32 option \<Rightarrow> (emission \<times> nat \<times> nat) list \<Rightarrow> session_op list" where
  "append_ops src pid es = map (\<lambda>((raw, p), now, arrived). SAppend src pid raw p now arrived) es"

lemma deliver_appends:
  assumes "map_of (rt_by_pid r) pid = Some sid" and "rt_sessions r sid = Some s"
    and "session_run c (append_ops src (Some pid) es) (s, rt_shared r) = (acks, s', sh')"
  shows "\<exists>r'. deliver c src (Some pid) es r = (acks, r') \<and> rt_sessions r' sid = Some s' \<and>
    rt_shared r' = sh' \<and> map_of (rt_by_pid r') pid = Some sid"
  using assms
proof (induction es arbitrary: r s acks)
  case Nil
  then show ?case by (simp add: append_ops_def)
next
  case (Cons x es)
  obtain raw p now arrived where x: "x = ((raw, p), now, arrived)" by (metis surj_pair)
  obtain res s1 sh1 where a: "append_internal c src (Some pid) raw p now arrived (s, rt_shared r) =
      (res, s1, sh1)" by (metis surj_pair)
  let ?r = "r\<lparr>rt_sessions := (rt_sessions r)(sid \<mapsto> s1), rt_shared := sh1\<rparr>"
  have sink: "daemon_sink c src (Some pid) (raw, p) now arrived r = (res, ?r)"
    using a Cons.prems(1,2) by (simp add: daemon_sink_def append_stamped_def append_to_def route_for_def Let_def)
  obtain acks1 where rest: "session_run c (append_ops src (Some pid) es) (s1, sh1) = (acks1, s', sh')"
    and acks: "acks = (case res of Inl _ \<Rightarrow> acks1 | Inr ev \<Rightarrow> ev # acks1)"
    using Cons.prems(3) x a by (auto simp: append_ops_def split: prod.splits)
  from Cons.IH [of ?r s1 acks1] rest Cons.prems(1) obtain r' where
    "deliver c src (Some pid) es ?r = (acks1, r')" "rt_sessions r' sid = Some s'"
    "rt_shared r' = sh'" "map_of (rt_by_pid r') pid = Some sid" by auto
  with x sink acks show ?case by simp
qed

text \<open>An acknowledged event carries the payload of its append.\<close>

lemma acked_payloads:
  assumes "session_run c (append_ops src pid es) st = (acks, st')"
  shows "length acks \<le> length es"
    and "length acks = length es \<Longrightarrow> map payload acks = map (snd \<circ> fst) es"
proof -
  have "length acks \<le> length es \<and> (length acks = length es \<longrightarrow> map payload acks = map (snd \<circ> fst) es)"
    using assms
  proof (induction es arbitrary: st acks)
    case Nil
    then show ?case by (simp add: append_ops_def)
  next
    case (Cons x es)
    obtain raw p now arrived where x: "x = ((raw, p), now, arrived)" by (metis surj_pair)
    obtain s sh where st: "st = (s, sh)" by (cases st)
    obtain res st1 where a: "append_internal c src pid raw p now arrived st = (res, st1)"
      by (cases "append_internal c src pid raw p now arrived st")
    obtain acks1 where rest: "session_run c (append_ops src pid es) st1 = (acks1, st')"
      and acks: "acks = (case res of Inl _ \<Rightarrow> acks1 | Inr ev \<Rightarrow> ev # acks1)"
      using Cons.prems x a by (auto simp: append_ops_def split: prod.splits)
    have "payload ev = p" if "res = Inr ev" for ev
      using a that st by (auto simp: append_internal_def Let_def split: option.splits prod.splits sum.splits)
    with Cons.IH [OF rest] acks x show ?case by (auto split: sum.splits)
  qed
  then show "length acks \<le> length es"
    and "length acks = length es \<Longrightarrow> map payload acks = map (snd \<circ> fst) es" by auto
qed

section \<open>The whole path\<close>

text \<open>
  A recording: a session is opened for the pid and attached, the hook's emissions are delivered to
  it, none refused, and the session is finalized, leaving the file \<open>ap_file (sw_out w)\<close> and the
  metadata \<open>m\<close>.
\<close>

definition hook_recorded ::
  "codecs \<Rightarrow> session_seed \<Rightarrow> u32 \<Rightarrow> emission list \<Rightarrow> writer \<Rightarrow> session_end \<Rightarrow> bool" where
  "hook_recorded c sd pid out w m \<longleftrightarrow>
     (\<exists>cfg token sh s0 r0 sid times acks r1 code sig reason cl r2 s2.
        open_with c cfg token (Some pid) sd sh = Some (s0, rt_shared r0) \<and>
        map_of (rt_by_pid r0) pid = Some sid \<and> rt_sessions r0 sid = Some s0 \<and>
        length times = length out \<and> deliver c MetalHook (Some pid) (zip out times) r0 = (acks, r1) \<and>
        length acks = length out \<and> finalize_at c code sig reason cl sid r1 = (True, r2) \<and>
        rt_sessions r2 sid = Some s2 \<and> as_left s2 = Some w \<and> sw_saved w = Some m)"

lemma hook_recorded_log:
  fixes sc :: stream_codecs
  defines "c \<equiv> codecs.truncate sc"
  assumes "hook_recorded c sd pid out w m" and "list_all outcome_tidy (sd_disk sd)"
    and "\<And>ev. cbor_ok c ev" and "zstd_ok c"
    and "length (ap_file (sw_out w)) < 2 ^ 34" and "length out < 2 ^ 64 - 3"
  shows "\<exists>xs d. read_events_checked sc True (ap_file (sw_out w)) (Some (meta_of m)) =
      Inr (xs, if d = 0 then [] else [EventsDropped d]) \<and>
    (d = 0 \<longrightarrow> (\<exists>ended. map payload xs = SessionStarted (sd_wall sd) # map snd out @ ended))"
proof -
  from assms(2) obtain cfg token sh s0 r0 sid times acks r1 code sig reason cl r2 s2 where
    h: "open_with c cfg token (Some pid) sd sh = Some (s0, rt_shared r0)"
    "map_of (rt_by_pid r0) pid = Some sid" "rt_sessions r0 sid = Some s0" "length times = length out"
    "deliver c MetalHook (Some pid) (zip out times) r0 = (acks, r1)" "length acks = length out"
    "finalize_at c code sig reason cl sid r1 = (True, r2)" "rt_sessions r2 sid = Some s2"
    "as_left s2 = Some w" "sw_saved w = Some m" unfolding hook_recorded_def by blast
  let ?ops = "append_ops MetalHook (Some pid) (zip out times)"
  obtain acks' s1 sh1 where run: "session_run c ?ops (s0, rt_shared r0) = (acks', s1, sh1)"
    by (metis surj_pair)
  from deliver_appends [OF h(2,3) run] h(5) have acks: "acks' = acks"
    and s1: "rt_sessions r1 sid = Some s1" "rt_shared r1 = sh1" by auto
  obtain sh2 where fin: "session_finalize c code sig reason cl (s1, sh1) = (True, s2, sh2)"
    using h(7,8) s1 by (auto simp: finalize_at_def split: prod.splits)
  from session_finished [OF h(1) assms(3) run fin h(9,10)] obtain st wops en eacks where
    closed: "finished c cfg ([WriteEvent st] @ wops @ [WriteEvent en]) ([st] @ acks' @ eacks) w m"
    and few: "length (offered wops) \<le> length ?ops" and st: "payload st = SessionStarted (sd_wall sd)"
    by blast
  let ?log = "[WriteEvent st] @ wops @ [WriteEvent en]"
  have cbor: "list_all (cbor_ok c) (offered ?log)" using assms(4) by (simp add: list_all_iff)
  have "length ?ops = length out" using h(4) by (simp add: append_ops_def)
  then have "length (offered ?log) < 2 ^ 64" using few assms(7) by (simp add: offered_append)
  from finished_file [OF closed [unfolded c_def] cbor [unfolded c_def] assms(5) [unfolded c_def]
      assms(6) this] obtain xs d where
    all: "\<And>flt. for_each_event sc True (ap_file (sw_out w)) (Some (meta_of m)) flt collect [] =
      Inr (filter (flt_ok flt) xs, if flt = None \<and> d \<noteq> 0 then [EventsDropped d] else [])"
    and xs: "d = 0 \<longrightarrow> xs = [st] @ acks' @ eacks" by blast
  have "map payload acks' = map snd out"
    using acked_payloads(2) [OF run] acks h(4,6) by (simp flip: map_map)
  with all xs st show ?thesis
    by (intro exI [of _ xs] exI [of _ d]) (auto simp: read_events_checked_def flt_ok_simps)
qed

text \<open>
  C24. End to end: the frames a hooked process got into its ring, drained by the probe, routed by pid
  and appended to the session, are all in the finished file, in order, unless the reader
  reports drops.
\<close>
theorem hooked_frames_reach_the_file:
  fixes sc :: stream_codecs
  defines "c \<equiv> codecs.truncate sc"
  assumes "create_ring cap = Inr ring" and "cap < 2 ^ 32" and "list_all writable ops"
    and "hook_writes ops * (2 * cap) < 2 ^ 63"
    and "hook_run disp (ops @ [HookDrain]) (drain_start ring) = Some (out, d)"
    and "hook_recorded c sd pid out w m" and "list_all outcome_tidy (sd_disk sd)"
    and "\<And>ev. cbor_ok c ev" and "zstd_ok c"
    and "length (ap_file (sw_out w)) < 2 ^ 34" and "length out < 2 ^ 64 - 3"
  shows "\<exists>xs lost. read_events_checked sc True (ap_file (sw_out w)) (Some (meta_of m)) =
      Inr (xs, if lost = 0 then [] else [EventsDropped lost]) \<and>
    (lost = 0 \<longrightarrow>
       subseq (map (\<lambda>x. frame_to_payload (frame_norm (snd x))) (hook_taken disp ops (drain_start ring)))
         (map payload xs))"
proof -
  from hook_run_delivers [OF assms(2-5), of disp] assms(6)
  have "map snd (filter (\<lambda>e. fst e \<noteq> None) out) =
      map (\<lambda>x. frame_to_payload (frame_norm (snd x))) (hook_taken disp ops (drain_start ring))"
    by (simp add: frame_emission_def)
  moreover have "subseq (map snd (filter (\<lambda>e. fst e \<noteq> None) out)) (map snd out)"
    by (intro subseq_map subseq_filter_left)
  moreover from hook_recorded_log [OF assms(7-12) [unfolded c_def]] obtain xs lost where
    read: "read_events_checked sc True (ap_file (sw_out w)) (Some (meta_of m)) =
      Inr (xs, if lost = 0 then [] else [EventsDropped lost])"
    and "lost = 0 \<longrightarrow> (\<exists>ended. map payload xs = SessionStarted (sd_wall sd) # map snd out @ ended)"
    by (elim exE conjE) (rule that)
  ultimately have "subseq (map (\<lambda>x. frame_to_payload (frame_norm (snd x)))
      (hook_taken disp ops (drain_start ring))) (map payload xs)" if "lost = 0"
    using that by (metis list_emb_Cons list_emb_prefix)
  with read show ?thesis by blast
qed

text \<open>One freed heap, from the ring to the file.\<close>

abbreviation "hook_born \<equiv> (life_event 4 System 1 (SessionStarted 0))\<lparr>ev_pid := Some 7\<rparr>"
abbreviation "hook_freed \<equiv> (life_event 9 MetalHook 2 (MetalHeapFree 7))\<lparr>ev_pid := Some 7\<rparr>"
abbreviation "hook_died \<equiv> life_event 9 System 3 (SessionEnded 9 ''done'')"

definition hook_dec :: "bytes \<Rightarrow> event option" where
  "hook_dec bs =
     (if bs = [1] then Some hook_born else if bs = [2] then Some hook_freed
      else if bs = [3] then Some hook_died else None)"

lemma hook_known:
  "hook_dec [ucast (ev_seq hook_born)] = Some hook_born"
  "hook_dec [ucast (ev_seq hook_freed)] = Some hook_freed"
  "hook_dec [ucast (ev_seq hook_died)] = Some hook_died"
  by (simp_all add: hook_dec_def life_event_def)

abbreviation "hook_codecs \<equiv> codecs.truncate (table_codecs hook_dec)"
abbreviation "hook_writer \<equiv> snd (life_closed hook_dec [hook_born, hook_freed, hook_died])"

definition hook_router :: router where
  "hook_router = register 7 None (life_session (life_batch [hook_born]) 1)
     (router_new ((life_session (life_batch []) 0)\<lparr>as_id := 0\<rparr>) no_shared)"

lemma hook_router_fields:
  "map_of (rt_by_pid hook_router) 7 = Some 5"
  "rt_sessions hook_router 5 = Some (life_session (life_batch [hook_born]) 1)"
  "rt_shared hook_router = no_shared"
  by (simp_all add: hook_router_def register_def router_new_def life_session_def)

lemma hook_delivered:
  "\<exists>r1. deliver hook_codecs MetalHook (Some 7) [((Some 9, MetalHeapFree 7), 9, 9)] hook_router =
      ([hook_freed], r1) \<and>
    rt_sessions r1 5 = Some (life_session (life_batch [hook_born, hook_freed]) 2) \<and>
    rt_shared r1 = no_shared"
proof -
  have "stamp MetalHook (Some 7) (Some 9) (MetalHeapFree 7) 9 (life_inner (life_batch [hook_born]) 1) =
      hook_freed"
    by (simp add: stamp_def life_inner_def inner_new_def now_ns_def at_raw_ns_def sat_sub_def life_event_def)
  from life_append [of _ _ _ _ _ _ _ _ hook_dec 9, OF this hook_known(2), unfolded life_batch_snoc]
  have "session_run hook_codecs (append_ops MetalHook (Some 7) [((Some 9, MetalHeapFree 7), 9, 9)])
      (life_session (life_batch [hook_born]) 1, no_shared) =
    ([hook_freed], life_session (life_batch [hook_born, hook_freed]) 2, no_shared)"
    by (simp add: append_ops_def life_batch_fields)
  from deliver_appends [OF hook_router_fields(1,2) this [folded hook_router_fields(3)]]
  show ?thesis unfolding hook_router_fields(3) by (elim exE conjE) (intro exI conjI, assumption+)
qed

lemma hook_recorded_demo:
  "hook_recorded hook_codecs life_seed 7 [(Some 9, MetalHeapFree 7)] hook_writer
     (the (sw_saved hook_writer))"
proof -
  let ?s0 = "life_session (life_batch [hook_born]) 1"
  have "stamp System (Some 7) None (SessionStarted 0) 4 (life_inner (life_batch []) 0) = hook_born"
    by (simp add: stamp_def life_inner_def inner_new_def now_ns_def life_event_def Let_def)
  from life_opens [of hook_dec, OF hook_known(1) this]
  have "open_with hook_codecs None None (Some 7) life_seed no_shared = Some (?s0, rt_shared hook_router)"
    by (simp add: hook_router_fields)
  moreover obtain r1 where r1: "deliver hook_codecs MetalHook (Some 7) [((Some 9, MetalHeapFree 7), 9, 9)]
      hook_router = ([hook_freed], r1)"
    "rt_sessions r1 5 = Some (life_session (life_batch [hook_born, hook_freed]) 2)" "rt_shared r1 = no_shared"
    using hook_delivered by (elim exE conjE) (rule that)
  moreover obtain r2 s2 where "finalize_at hook_codecs None None ''done''
      \<lparr>cl_wall = 9, cl_now = 9, cl_arrived = 9, cl_ended = ''2026-01-01T00:00:00Z''\<rparr> 5 r1 = (True, r2)"
    "rt_sessions r2 5 = Some s2" "as_left s2 = Some hook_writer"
    using life_finalizes [of hook_dec hook_died "[hook_born, hook_freed]" 2] hook_known(3) r1(2,3)
    by (auto simp: finalize_at_def life_stamp)
  moreover have "sw_saved hook_writer = Some (the (sw_saved hook_writer))"
    using life_closed_ok(2) [of "[hook_born, hook_freed, hook_died]" hook_dec] by simp
  ultimately show ?thesis unfolding hook_recorded_def using hook_router_fields
    by (intro exI [of _ None] exI [of _ no_shared] exI [of _ ?s0] exI [of _ hook_router]
        exI [of _ 5] exI [of _ "[(9, 9)]"] exI [of _ "[hook_freed]"] exI [of _ r1]
        exI [of _ "''done''"] exI [of _ "\<lparr>cl_wall = 9, cl_now = 9, cl_arrived = 9,
          cl_ended = ''2026-01-01T00:00:00Z''\<rparr>"] exI [of _ r2] exI [of _ s2]) simp
qed

definition one_free :: "hook_op list" where
  "one_free = [HookWrite 9 (HeapFree 7)]"

lemma hooked_frames_reach_the_file_witness:
  "\<exists>xs lost. read_events_checked (table_codecs hook_dec) True (ap_file (sw_out hook_writer))
      (Some (meta_of (the (sw_saved hook_writer)))) =
      Inr (xs, if lost = 0 then [] else [EventsDropped lost]) \<and>
    (lost = 0 \<longrightarrow> subseq [MetalHeapFree 7] (map payload xs))"
proof -
  let ?ops = one_free and ?disp = "\<lambda>_. ''bad''"
  have taken: "hook_taken ?disp ?ops (drain_start small_ring) = [(9, HeapFree 7)]"
    by (simp add: one_free_def write_fits_def drain_start_def ring_room_def small_ring_def frame_length_def
        FRAME_HEADER_BYTES_def FRAME_ALIGN_def hook_write_def split: option.splits)
  have ok: "list_all writable ?ops" and one: "hook_writes ?ops = 1"
    by (simp_all add: one_free_def writable_def)
  from hook_run_delivers [OF small_ring_created _ ok, of ?disp] taken one obtain out d where
    out: "hook_run ?disp (?ops @ [HookDrain]) (drain_start small_ring) = Some (out, d)"
    "filter (\<lambda>e. fst e \<noteq> None) out = [(Some 9, MetalHeapFree 7)]" "sum_list (map drop_count out) = 0"
    "\<forall>e \<in> set out. fst e = None \<longrightarrow> 0 < drop_count e"
    by (auto simp: frame_emission_def)
  then have "\<forall>e \<in> set out. fst e \<noteq> None" by (metis (mono_tags) gr_implies_not0 image_eqI image_set sum_list_eq_0_iff)
  with out(2) have "out = [(Some 9, MetalHeapFree 7)]" by (simp add: filter_id_conv)
  with out(1) have run: "hook_run ?disp (?ops @ [HookDrain]) (drain_start small_ring) =
      Some ([(Some 9, MetalHeapFree 7)], d)" by simp
  have tidy: "list_all outcome_tidy (sd_disk life_seed)" by (simp add: life_seed_def)
  show ?thesis
    using hooked_frames_reach_the_file [OF small_ring_created _ ok _ run hook_recorded_demo tidy
        table_cbor_ok table_zstd_ok] life_closed_ok(3) [of "[hook_born, hook_freed, hook_died]" hook_dec] taken one
    by simp
qed

end
