(* ===== verification/Utf8Text.thy ===== *)
theory Utf8Text
  imports Fmt StrOps
begin

text \<open>
  The Unicode-aware string operations of the standard library that the code applies to names
  and report texts: white space, control characters, trimming and splitting, on UTF-8 bytes.
\<close>

section \<open>Classes of characters\<close>

text \<open>A character is the list of its UTF-8 bytes.  The property \<open>White_Space\<close> of Unicode.\<close>

definition byte_at :: "nat \<Rightarrow> string \<Rightarrow> nat" where
  "byte_at i ch = of_char (ch ! i)"

definition is_white :: "string \<Rightarrow> bool" where
  "is_white ch \<longleftrightarrow>
     length ch = 1 \<and> (9 \<le> byte_at 0 ch \<and> byte_at 0 ch \<le> 13 \<or> byte_at 0 ch = 32) \<or>
     length ch = 2 \<and> byte_at 0 ch = 0xC2 \<and> (byte_at 1 ch = 0x85 \<or> byte_at 1 ch = 0xA0) \<or>
     length ch = 3 \<and>
       (byte_at 0 ch = 0xE1 \<and> byte_at 1 ch = 0x9A \<and> byte_at 2 ch = 0x80 \<or>
        byte_at 0 ch = 0xE2 \<and> byte_at 1 ch = 0x80 \<and>
          (byte_at 2 ch \<le> 0x8A \<or> byte_at 2 ch = 0xA8 \<or> byte_at 2 ch = 0xA9 \<or> byte_at 2 ch = 0xAF) \<or>
        byte_at 0 ch = 0xE2 \<and> byte_at 1 ch = 0x81 \<and> byte_at 2 ch = 0x9F \<or>
        byte_at 0 ch = 0xE3 \<and> byte_at 1 ch = 0x80 \<and> byte_at 2 ch = 0x80)"

text \<open>\<open>char::is_control\<close>: general category \<open>Cc\<close>.\<close>

definition is_control :: "string \<Rightarrow> bool" where
  "is_control ch \<longleftrightarrow>
     length ch = 1 \<and> (byte_at 0 ch < 32 \<or> byte_at 0 ch = 127) \<or>
     length ch = 2 \<and> byte_at 0 ch = 0xC2 \<and> byte_at 1 ch < 0xA0"

section \<open>Trimming and splitting\<close>

definition trim :: "string \<Rightarrow> string" where
  "trim s = concat (rev (dropWhile is_white (rev (dropWhile is_white (utf8_chars s)))))"

fun split_white :: "string list \<Rightarrow> string list" where
  "split_white [] = [[]]"
| "split_white (ch # chs) =
     (if is_white ch then [] # split_white chs
      else case split_white chs of [] \<Rightarrow> [ch] | s # ss \<Rightarrow> (ch @ s) # ss)"

definition split_whitespace :: "string \<Rightarrow> string list" where
  "split_whitespace s = filter (\<lambda>t. t \<noteq> []) (split_white (utf8_chars s))"

text \<open>The longest prefix that fits and ends at a character boundary.\<close>

definition is_boundary :: "string \<Rightarrow> nat \<Rightarrow> bool" where
  "is_boundary s i \<longleftrightarrow> i = 0 \<or> i = length s \<or> i < length s \<and> \<not> is_continuation (s ! i)"

fun boundary_below :: "string \<Rightarrow> nat \<Rightarrow> nat" where
  "boundary_below s 0 = 0"
| "boundary_below s (Suc i) = (if is_boundary s (Suc i) then Suc i else boundary_below s i)"

definition trim_matches :: "(char \<Rightarrow> bool) \<Rightarrow> string \<Rightarrow> string" where
  "trim_matches P s = rev (dropWhile P (rev (dropWhile P s)))"

text \<open>\<open>Path::extension\<close>: what follows the last dot of the file name, unless that dot is its first byte.\<close>

definition path_extension :: "string \<Rightarrow> string option" where
  "path_extension p =
     (case file_name p of
        None \<Rightarrow> None
      | Some n \<Rightarrow>
          (let after = takeWhile (\<lambda>c. c \<noteq> CHR ''.'') (rev n); before = drop (Suc (length after)) (rev n)
           in if length after = length n \<or> before = [] then None else Some (rev after)))"

end
