(* ===== verification/SessionDir.thy ===== *)
theory SessionDir
  imports Utf8Text Triggers "HOL-Library.Option_ord"
begin

text \<open>
  Session metadata, names and references: \<open>crates/smeltr-core/src/session.rs\<close>,
  \<open>session_resolve.rs\<close> and \<open>find_session_dir\<close> of \<open>reader.rs\<close>.  The store is the list of the
  session directories in the order \<open>list_sessions\<close> gives them (sorted by name), each with the
  metadata that \<open>toml\<close> parses from it, if it does; all lie in one parent, so a directory is its file
  name.  The parsers of RFC 3339 times (crate \<open>time\<close>, giving nanoseconds since the epoch) and of
  UUIDs (crate \<open>uuid\<close>) are parameters.
\<close>

section \<open>Metadata\<close>

datatype session_kind = KindAmbient | KindScoped u32 "string list"

record session_metadata =
  sm_session_id :: uuid
  sm_started :: string
  sm_ended :: "string option"
  sm_exit_code :: "i32 option"
  sm_kind :: session_kind
  sm_name :: "string option"
  sm_term_signal :: "i32 option"
  sm_post_mortem :: "post_mortem_trigger option"

text \<open>\<open>SessionId::short\<close>: the first eight digits of the UUID in hexadecimal.\<close>

definition hex_digit :: "nat \<Rightarrow> char" where
  "hex_digit d = char_of (if d < 10 then 48 + d else 87 + d)"

definition hex_word :: "nat \<Rightarrow> nat \<Rightarrow> string" where
  "hex_word k n = map (\<lambda>i. hex_digit (n div 16 ^ i mod 16)) (rev [0..<k])"

definition simple_uuid :: "uuid \<Rightarrow> string" where
  "simple_uuid u = hex_word 32 (unat u)"

definition short :: "uuid \<Rightarrow> string" where
  "short u = take 8 (simple_uuid u)"

section \<open>Names\<close>

definition SESSION_NAME_MAX_LEN :: nat where "SESSION_NAME_MAX_LEN = 200"

definition validate_session_name :: "string \<Rightarrow> string option" where
  "validate_session_name raw =
     (let trimmed = trim raw
      in if trimmed = [] then None
         else if list_ex is_control (utf8_chars trimmed) then None
         else if CHR ''/'' \<in> set trimmed then None
         else if SESSION_NAME_MAX_LEN < length trimmed
              then Some (take (boundary_below trimmed SESSION_NAME_MAX_LEN) trimmed)
         else Some trimmed)"

section \<open>References to sessions\<close>

type_synonym store = "(string \<times> session_metadata option) list"

datatype resolve_error = ResolveIo | NotFound string

text \<open>\<open>sort_by\<close> with the operands swapped: descending, equal elements kept in order.\<close>

definition sort_desc :: "('a \<Rightarrow> 'b::linorder) \<Rightarrow> 'a list \<Rightarrow> 'a list" where
  "sort_desc k xs = rev (sort_key k (rev xs))"

definition started_key :: "(string \<Rightarrow> int option) \<Rightarrow> string \<times> session_metadata option \<Rightarrow> int option \<times> string" where
  "started_key parse_time e = (Option.bind (snd e) (\<lambda>m. parse_time (sm_started m)), fst e)"

definition sessions_newest_first :: "(string \<Rightarrow> int option) \<Rightarrow> store \<Rightarrow> store" where
  "sessions_newest_first parse_time st = sort_desc (started_key parse_time) st"

definition is_hexdigit :: "char \<Rightarrow> bool" where
  "is_hexdigit c \<longleftrightarrow> c \<in> set ''0123456789abcdefABCDEF''"

text \<open>The whole name, or eight hexadecimal digits after its last dash.\<close>

definition names_directory :: "string \<Rightarrow> string \<Rightarrow> bool" where
  "names_directory dir arg \<longleftrightarrow>
     dir = arg \<or>
     length arg = 8 \<and> list_all is_hexdigit arg \<and> last (split_on (CHR ''-'') dir) = arg"

definition has_session_id :: "uuid \<Rightarrow> string \<times> session_metadata option \<Rightarrow> bool" where
  "has_session_id want e = (case snd e of Some m \<Rightarrow> sm_session_id m = want | None \<Rightarrow> False)"

definition named_key :: "string \<times> session_metadata option \<Rightarrow> string \<times> string" where
  "named_key e = (case snd e of Some m \<Rightarrow> sm_started m | None \<Rightarrow> [], fst e)"

definition has_name :: "string \<Rightarrow> string \<times> session_metadata option \<Rightarrow> bool" where
  "has_name nm e = (case snd e of Some m \<Rightarrow> sm_name m = Some nm | None \<Rightarrow> False)"

definition resolve_session_dir_by_name :: "string \<Rightarrow> store \<Rightarrow> string option" where
  "resolve_session_dir_by_name nm st =
     (case sort_desc named_key (filter (has_name nm) st) of [] \<Rightarrow> None | e # _ \<Rightarrow> Some (fst e))"

definition resolve_session ::
  "(string \<Rightarrow> int option) \<Rightarrow> (string \<Rightarrow> uuid option) \<Rightarrow> string \<Rightarrow> store option \<Rightarrow> resolve_error + string" where
  "resolve_session parse_time parse_uuid arg listing =
     (case listing of
        None \<Rightarrow> Inl ResolveIo
      | Some st \<Rightarrow>
          (let sessions = sessions_newest_first parse_time st
           in case find (\<lambda>e. names_directory (fst e) arg) sessions of
                Some e \<Rightarrow> Inr (fst e)
              | None \<Rightarrow>
                  (case Option.bind (parse_uuid arg) (\<lambda>want. find (has_session_id want) sessions) of
                     Some e \<Rightarrow> Inr (fst e)
                   | None \<Rightarrow>
                       (case resolve_session_dir_by_name arg st of
                          Some dir \<Rightarrow> Inr dir
                        | None \<Rightarrow> Inl (NotFound arg)))))"

definition is_recording :: "string \<times> session_metadata option \<Rightarrow> bool" where
  "is_recording e = (case snd e of Some m \<Rightarrow> sm_kind m \<noteq> KindAmbient | None \<Rightarrow> False)"

definition latest_session :: "(string \<Rightarrow> int option) \<Rightarrow> store option \<Rightarrow> resolve_error + string" where
  "latest_session parse_time listing =
     (case listing of
        None \<Rightarrow> Inl ResolveIo
      | Some st \<Rightarrow>
          (let sessions = sessions_newest_first parse_time st
           in case find is_recording sessions of
                Some e \<Rightarrow> Inr (fst e)
              | None \<Rightarrow>
                  (case sessions of e # _ \<Rightarrow> Inr (fst e) | [] \<Rightarrow> Inl (NotFound ''<latest>''))))"

definition find_session_dir :: "uuid \<Rightarrow> store \<Rightarrow> string option" where
  "find_session_dir u st =
     (case find (\<lambda>e. ends_with (fst e) (short u) \<and>
                 (case snd e of None \<Rightarrow> True | Some m \<Rightarrow> sm_session_id m = u)) st of
        Some e \<Rightarrow> Some (fst e)
      | None \<Rightarrow> map_option fst (find (has_session_id u) st))"

end
