(* ===== verification/SessionDirFacts.thy ===== *)
theory SessionDirFacts
  imports SessionDir
begin

text \<open>What a reference to a session resolves to, and which names a session can have.\<close>

section \<open>Descending order\<close>

lemma set_sort_desc [simp]: "set (sort_desc k xs) = set xs"
  by (simp add: sort_desc_def)

lemma sort_desc_sorted: "sorted_wrt (\<lambda>a b. k b \<le> k a) (sort_desc k xs)"
proof -
  have "sorted (map k (sort_key k (rev xs)))" by simp
  then have "sorted_wrt (\<lambda>a b. k a \<le> k b) (sort_key k (rev xs))" by (simp add: sorted_map)
  then show ?thesis by (simp add: sort_desc_def sorted_wrt_rev)
qed

lemma find_sorted:
  assumes "sorted_wrt (\<lambda>a b. k b \<le> k a) xs" and "find P xs = Some x"
  shows "x \<in> set xs \<and> P x \<and> (\<forall>y \<in> set xs. P y \<longrightarrow> k y \<le> (k x :: 'b::linorder))"
  using assms by (induction xs) (auto split: if_splits)

lemma find_sort_desc:
  "find P (sort_desc k xs) = Some x \<Longrightarrow>
     x \<in> set xs \<and> P x \<and> (\<forall>y \<in> set xs. P y \<longrightarrow> k y \<le> (k x :: 'b::linorder))"
  using find_sorted [OF sort_desc_sorted] by fastforce

lemma find_sort_desc_None: "find P (sort_desc k xs) = None \<longleftrightarrow> (\<forall>x \<in> set xs. \<not> P x)"
  by (auto simp: find_None_iff)

lemma hd_sort_desc:
  assumes "sort_desc k xs = x # ys"
  shows "x \<in> set xs" and "\<forall>y \<in> set xs. k y \<le> (k x :: 'b::linorder)"
proof -
  have "find (\<lambda>_. True) (sort_desc k xs) = Some x" using assms by simp
  from find_sort_desc [OF this] show "x \<in> set xs" and "\<forall>y \<in> set xs. k y \<le> k x" by auto
qed

section \<open>Resolution\<close>

definition refers :: "(string \<Rightarrow> uuid option) \<Rightarrow> string \<Rightarrow> string \<times> session_metadata option \<Rightarrow> bool" where
  "refers parse_uuid arg e \<longleftrightarrow>
     names_directory (fst e) arg \<or>
     (case parse_uuid arg of None \<Rightarrow> False | Some want \<Rightarrow> has_session_id want e) \<or> has_name arg e"

lemma by_name_Some:
  assumes "resolve_session_dir_by_name nm st = Some d"
  shows "\<exists>e \<in> set st. fst e = d \<and> has_name nm e \<and> (\<forall>y \<in> set st. has_name nm y \<longrightarrow> named_key y \<le> named_key e)"
proof -
  from assms obtain e es where e: "sort_desc named_key (filter (has_name nm) st) = e # es" "fst e = d"
    by (auto simp: resolve_session_dir_by_name_def split: list.splits)
  from hd_sort_desc [OF e(1)] e(2) show ?thesis by auto
qed

lemma by_name_None:
  "resolve_session_dir_by_name nm st = None \<longleftrightarrow> (\<forall>e \<in> set st. \<not> has_name nm e)"
proof -
  have "sort_desc named_key (filter (has_name nm) st) = [] \<longleftrightarrow> (\<forall>e \<in> set st. \<not> has_name nm e)"
    by (metis (no_types, lifting) empty_filter_conv set_empty set_sort_desc)
  then show ?thesis by (auto simp: resolve_session_dir_by_name_def split: list.splits)
qed

text \<open>
  C30. Resolving a session reference fails exactly when no session of the store answers to it, by
  directory name, short id, UUID or recorded name; otherwise it gives a session that does.  When
  some directory is named by it, the result is the most recently started of those; when none is
  but a UUID matches, the most recently started session with that UUID; and when neither is, the
  session recorded under that name whose start time is greatest as text.
\<close>
theorem resolve_session_spec:
  "(resolve_session pt pu arg (Some st) = Inl (NotFound arg) \<longleftrightarrow> (\<forall>e \<in> set st. \<not> refers pu arg e)) \<and>
   (\<forall>d. resolve_session pt pu arg (Some st) = Inr d \<longrightarrow>
      (\<exists>e \<in> set st. fst e = d \<and> refers pu arg e \<and>
         (\<forall>e' \<in> set st. names_directory (fst e') arg \<longrightarrow>
            names_directory d arg \<and> started_key pt e' \<le> started_key pt e) \<and>
         (\<forall>want. pu arg = Some want \<longrightarrow> \<not> (\<exists>e' \<in> set st. names_directory (fst e') arg) \<longrightarrow>
            (\<forall>e' \<in> set st. has_session_id want e' \<longrightarrow>
               has_session_id want e \<and> started_key pt e' \<le> started_key pt e)) \<and>
         (\<not> (\<exists>e' \<in> set st. names_directory (fst e') arg \<or>
                 (\<exists>want. pu arg = Some want \<and> has_session_id want e')) \<longrightarrow>
            has_name arg e \<and> (\<forall>e' \<in> set st. has_name arg e' \<longrightarrow> named_key e' \<le> named_key e))))"
proof -
  let ?named = "find (\<lambda>e. names_directory (fst e) arg) (sessions_newest_first pt st)"
  let ?uuid = "Option.bind (pu arg) (\<lambda>want. find (has_session_id want) (sessions_newest_first pt st))"
  show ?thesis
  proof (cases ?named)
    case (Some e)
    then have r: "resolve_session pt pu arg (Some st) = Inr (fst e)" by (simp add: resolve_session_def Let_def)
    from find_sort_desc [OF Some [unfolded sessions_newest_first_def]] show ?thesis
      unfolding r by (auto simp: refers_def)
  next
    case None
    then have none: "\<forall>e \<in> set st. \<not> names_directory (fst e) arg"
      unfolding sessions_newest_first_def find_sort_desc_None .
    show ?thesis
    proof (cases ?uuid)
      case (Some e)
      then obtain want where want: "pu arg = Some want"
        "find (has_session_id want) (sessions_newest_first pt st) = Some e" by (cases "pu arg") auto
      from None Some have r: "resolve_session pt pu arg (Some st) = Inr (fst e)"
        by (simp add: resolve_session_def Let_def)
      from find_sort_desc [OF want(2) [unfolded sessions_newest_first_def]] want(1) none show ?thesis
        unfolding r by (auto simp: refers_def)
    next
      case uuid: None
      have no_id: "\<forall>e \<in> set st. \<not> has_session_id want e" if "pu arg = Some want" for want
      proof -
        from uuid that have "find (has_session_id want) (sessions_newest_first pt st) = None" by simp
        then show ?thesis unfolding sessions_newest_first_def find_sort_desc_None .
      qed
      show ?thesis
      proof (cases "resolve_session_dir_by_name arg st")
        case None': None
        with None uuid have r: "resolve_session pt pu arg (Some st) = Inl (NotFound arg)"
          by (simp add: resolve_session_def Let_def)
        from None' [unfolded by_name_None] none no_id show ?thesis
          unfolding r by (auto simp: refers_def split: option.splits)
      next
        case (Some d)
        with None uuid have r: "resolve_session pt pu arg (Some st) = Inr d"
          by (simp add: resolve_session_def Let_def)
        from by_name_Some [OF Some] none no_id show ?thesis
          unfolding r by (auto simp: refers_def)
      qed
    qed
  qed
qed

definition dir_meta :: "string \<Rightarrow> string \<Rightarrow> session_metadata" where
  "dir_meta nm started =
     \<lparr>sm_session_id = 0, sm_started = started, sm_ended = None, sm_exit_code = None,
      sm_kind = KindScoped 7 [], sm_name = Some nm, sm_term_signal = None, sm_post_mortem = None\<rparr>"

definition two_runs :: store where
  "two_runs =
     [(''2026-01-01-100000-aaaaaaaa'', Some (dir_meta ''run'' ''2026-01-01T10:00:00.12Z'')),
      (''2026-01-01-100000-bbbbbbbb'', Some (dir_meta ''run'' ''2026-01-01T10:00:00.123Z''))]"

definition run_time :: "string \<Rightarrow> int option" where
  "run_time s =
     (if s = ''2026-01-01T10:00:00.12Z'' then Some 120000000
      else if s = ''2026-01-01T10:00:00.123Z'' then Some 123000000 else None)"

lemma resolve_session_spec_witness:
  "resolve_session run_time (\<lambda>_. None) ''bbbbbbbb'' (Some two_runs) = Inr ''2026-01-01-100000-bbbbbbbb''"
proof -
  let ?r = "resolve_session run_time (\<lambda>_. None) ''bbbbbbbb'' (Some two_runs)"
  have yes: "\<not> (\<forall>e \<in> set two_runs. \<not> refers (\<lambda>_. None) ''bbbbbbbb'' e)"
    by (simp add: two_runs_def refers_def names_directory_def is_hexdigit_def)
  have no: "\<not> names_directory ''2026-01-01-100000-aaaaaaaa'' ''bbbbbbbb''"
    by (simp add: names_directory_def)
  note spec = resolve_session_spec [of run_time "\<lambda>_. None" "''bbbbbbbb''" two_runs]
  from spec yes have "?r \<noteq> Inl (NotFound ''bbbbbbbb'')" by blast
  moreover have "?r \<noteq> Inl ResolveIo"
    by (auto simp: resolve_session_def Let_def split: option.splits)
  moreover have "\<forall>t. ?r = Inl (NotFound t) \<longrightarrow> t = ''bbbbbbbb''"
    by (auto simp: resolve_session_def Let_def split: option.splits)
  ultimately obtain d where d: "?r = Inr d"
    by (metis resolve_error.exhaust sum.exhaust)
  with spec obtain e where e: "e \<in> set two_runs" "fst e = d" "refers (\<lambda>_. None) ''bbbbbbbb'' e" by blast
  have "has_name ''bbbbbbbb'' e \<Longrightarrow> False" using e(1) by (auto simp: two_runs_def has_name_def dir_meta_def)
  with e no have "d = ''2026-01-01-100000-bbbbbbbb''" by (auto simp: refers_def two_runs_def)
  with d show ?thesis by simp
qed

text \<open>
  The defect of resolution by name: the start times are compared as text, and the fraction of a
  second is written without trailing zeros.  Of two sessions with the same name, one started at
  \<open>s\<close> and one at \<open>s\<close> and some more digits of the fraction, the second started later and the listing
  ranks it first, but the lookup by name never returns it, whatever else is in the store.
\<close>

lemma append_less_append: "s @ x < s @ y \<longleftrightarrow> x < (y :: string)"
  by (induction s) simp_all

theorem resolve_by_name_prefers_earlier:
  assumes "distinct (map fst st)" and "a \<in> set st" and "b \<in> set st"
    and "snd a = Some ma" and "snd b = Some mb" and "sm_name ma = Some nm" and "sm_name mb = Some nm"
    and "sm_started ma = s @ ''Z''" and "sm_started mb = s @ d # ds @ ''Z''" and "d \<in> set ''0123456789''"
    and "pt (s @ ''Z'') = Some ta" and "pt (s @ d # ds @ ''Z'') = Some tb" and "ta < tb"
  shows "resolve_session_dir_by_name nm st \<noteq> Some (fst b) \<and> started_key pt a < started_key pt b"
proof
  have "d < CHR ''Z''" using assms(10) by (auto simp: less_char_def)
  then have lt: "s @ d # ds @ ''Z'' < s @ ''Z''" unfolding append_less_append by simp
  show "resolve_session_dir_by_name nm st \<noteq> Some (fst b)"
  proof
    assume "resolve_session_dir_by_name nm st = Some (fst b)"
    from by_name_Some [OF this] obtain e where e: "e \<in> set st" "fst e = fst b"
      "\<forall>y \<in> set st. has_name nm y \<longrightarrow> named_key y \<le> named_key e" by blast
    have "e = b" using assms(1,3) e(1,2) by (auto simp: distinct_map dest: inj_onD)
    moreover have "has_name nm a" using assms(4,6) by (simp add: has_name_def)
    ultimately have "named_key a \<le> named_key b" using e(3) assms(2) by blast
    with lt assms show False by (auto simp: named_key_def less_eq_prod_def)
  qed
  show "started_key pt a < started_key pt b"
    using assms by (simp add: started_key_def less_prod_def less_eq_option_def)
qed

theorem resolve_by_name_prefers_earlier_witness:
  "resolve_session_dir_by_name ''run'' two_runs \<noteq> Some ''2026-01-01-100000-bbbbbbbb''"
proof -
  let ?a = "(''2026-01-01-100000-aaaaaaaa'', Some (dir_meta ''run'' ''2026-01-01T10:00:00.12Z''))"
  let ?b = "(''2026-01-01-100000-bbbbbbbb'', Some (dir_meta ''run'' ''2026-01-01T10:00:00.123Z''))"
  have "resolve_session_dir_by_name ''run'' two_runs \<noteq> Some (fst ?b) \<and> started_key run_time ?a < started_key run_time ?b"
    by (rule resolve_by_name_prefers_earlier [of two_runs ?a ?b
          "dir_meta ''run'' ''2026-01-01T10:00:00.12Z''" "dir_meta ''run'' ''2026-01-01T10:00:00.123Z''"
          "''run''" "''2026-01-01T10:00:00.12''" "CHR ''3''" "[]" run_time 120000000 123000000])
      (simp_all add: two_runs_def dir_meta_def run_time_def)
  then show ?thesis by simp
qed

section \<open>Names\<close>

lemma utf8_chars_start: "ys \<noteq> [] \<Longrightarrow> \<exists>t rest. utf8_chars ys = (hd ys # t) # rest"
  by (induction ys rule: utf8_chars.induct) (auto split: list.splits)

lemma utf8_chars_append:
  assumes "ys = [] \<or> \<not> is_continuation (hd ys)"
  shows "utf8_chars (xs @ ys) = utf8_chars xs @ utf8_chars ys"
proof (induction xs)
  case (Cons c xs)
  show ?case
  proof (cases "xs = []")
    case True
    with assms utf8_chars_start [of ys] show ?thesis by (cases "ys = []") (auto split: list.splits)
  next
    case False
    with utf8_chars_start [OF this] Cons show ?thesis by auto
  qed
qed simp

lemma boundary_below_le: "boundary_below s n \<le> n"
  by (induction s n rule: boundary_below.induct) auto

lemma boundary_below_ok: "is_boundary s (boundary_below s n)"
  by (induction s n rule: boundary_below.induct) (auto simp: is_boundary_def)

lemma utf8_chars_take:
  assumes "is_boundary s n" and "n \<le> length s"
  shows "\<exists>rest. utf8_chars s = utf8_chars (take n s) @ rest"
proof -
  have "drop n s = [] \<or> \<not> is_continuation (hd (drop n s)) \<or> n = 0"
    using assms by (auto simp: is_boundary_def hd_drop_conv_nth)
  then show ?thesis
    using utf8_chars_append [of "drop n s" "take n s"] by (auto simp: append_take_drop_id)
qed

text \<open>
  C31. The type of a session name: one accepted by \<open>validate_session_name\<close> has at most 200 bytes, no
  slash and no control character, is a prefix of the trimmed text cut at a character boundary,
  and is that whole text when it fits.
\<close>
theorem session_name_well_formed:
  assumes "validate_session_name raw = Some n"
  shows "length n \<le> SESSION_NAME_MAX_LEN \<and> CHR ''/'' \<notin> set n \<and>
    \<not> list_ex is_control (utf8_chars n) \<and>
    (\<exists>k. n = take k (trim raw) \<and> is_boundary (trim raw) k) \<and>
    (length (trim raw) \<le> SESSION_NAME_MAX_LEN \<longrightarrow> n = trim raw)"
proof -
  let ?t = "trim raw"
  from assms have ok: "\<not> list_ex is_control (utf8_chars ?t)" "CHR ''/'' \<notin> set ?t"
    by (auto simp: validate_session_name_def Let_def split: if_splits)
  show ?thesis
  proof (cases "SESSION_NAME_MAX_LEN < length ?t")
    case True
    let ?k = "boundary_below ?t SESSION_NAME_MAX_LEN"
    from assms True have n: "n = take ?k ?t"
      by (auto simp: validate_session_name_def Let_def split: if_splits)
    have le: "?k \<le> SESSION_NAME_MAX_LEN" by (rule boundary_below_le)
    obtain rest where "utf8_chars ?t = utf8_chars n @ rest"
      using utf8_chars_take [OF boundary_below_ok, of ?t SESSION_NAME_MAX_LEN] le True n by auto
    with ok(1) have "\<not> list_ex is_control (utf8_chars n)" by simp
    with n le ok(2) True boundary_below_ok show ?thesis by (auto dest: in_set_takeD)
  next
    case False
    with assms have "n = ?t" by (auto simp: validate_session_name_def Let_def split: if_splits)
    with ok False show ?thesis
      by (auto simp: is_boundary_def intro!: exI [of _ "length ?t"])
  qed
qed

lemma session_name_well_formed_witness:
  "validate_session_name '' run 1 '' = Some ''run 1'' \<and> CHR ''/'' \<notin> set ''run 1''"
proof -
  have "validate_session_name '' run 1 '' = Some ''run 1''"
    by (simp add: validate_session_name_def trim_def is_white_def byte_at_def is_continuation_def
        is_control_def SESSION_NAME_MAX_LEN_def Let_def)
  with session_name_well_formed [OF this] show ?thesis by blast
qed

end
