(* ===== verification/Display.thy ===== *)
theory Display
  imports Fmt Float64
begin

text \<open>
  How numbers and bytes are written in the findings of the analyzer: the formatting of the
  standard library for unsigned, signed and fixed-point numbers, and the byte formatters of
  \<open>crates/smeltr-core/src/fmt.rs\<close>.  Strings are UTF-8 bytes.
\<close>

section \<open>Punctuation outside ASCII\<close>

definition newline :: string where "newline = [CHR 0x0A]"
definition em_dash :: string where "em_dash = [CHR 0xE2, CHR 0x80, CHR 0x94]"
definition en_dash :: string where "en_dash = [CHR 0xE2, CHR 0x80, CHR 0x93]"
definition times_sign :: string where "times_sign = [CHR 0xC3, CHR 0x97]"

section \<open>Numbers\<close>

definition dec :: "'a::len word \<Rightarrow> string" where
  "dec w = digits (unat w)"

text \<open>\<open>{:.k}\<close> of a non-negative number: the exact value rounded to \<open>k\<close> digits, ties to even.\<close>

definition zero_pad :: "nat \<Rightarrow> string \<Rightarrow> string" where
  "zero_pad k s = replicate (k - length s) (CHR ''0'') @ s"

definition fmt_fixed :: "nat \<Rightarrow> rat \<Rightarrow> string" where
  "fmt_fixed k x =
     (let n = nat (round_half_even (x * 10 ^ k))
      in if k = 0 then digits n
         else digits (n div 10 ^ k) @ ''.'' @ zero_pad k (digits (n mod 10 ^ k)))"

text \<open>\<open>f64::round\<close> of a non-negative number: ties away from zero.\<close>

definition f64_round_int :: "f64 \<Rightarrow> f64" where
  "f64_round_int x = of_int \<lfloor>x + 1 / 2\<rfloor>"

section \<open>Byte counts\<close>

definition f64_over :: "u64 \<Rightarrow> nat \<Rightarrow> f64" where
  "f64_over b n = f64_div (f64_of_u64 b) (f64_of_nat n)"

definition binary_bytes :: "u64 \<Rightarrow> string" where
  "binary_bytes b =
     (if 2 ^ 30 \<le> unat b then fmt_fixed 2 (f64_over b (2 ^ 30)) @ '' GiB''
      else if 2 ^ 20 \<le> unat b then fmt_fixed 1 (f64_over b (2 ^ 20)) @ '' MiB''
      else if 2 ^ 10 \<le> unat b then fmt_fixed 0 (f64_over b (2 ^ 10)) @ '' KiB''
      else dec b @ '' B'')"

definition decimal_gb :: "u64 \<Rightarrow> f64" where
  "decimal_gb b = f64_over b 1000000000"

text \<open>\<open>{:.2}\<close> of \<open>decimal_gb\<close>, and of a duration in seconds.\<close>

definition gb2 :: "u64 \<Rightarrow> string" where
  "gb2 b = fmt_fixed 2 (decimal_gb b)"

definition secs :: "u64 \<Rightarrow> f64" where
  "secs ns = f64_over ns 1000000000"

section \<open>Single precision\<close>

text \<open>The value of an \<open>f32\<close> bit pattern, its order (\<open>PartialOrd\<close>) and its \<open>{:.k}\<close>.\<close>

datatype f32_value = F32NaN | F32Inf bool | F32Fin rat

definition f32_value_of :: "u32 \<Rightarrow> f32_value" where
  "f32_value_of b =
     (let neg = bit b 31; e = unat (take_bit 8 (drop_bit 23 b)); m = unat (take_bit 23 b);
          sgn = (if neg then - 1 else 1)
      in if e = 255 then (if m = 0 then F32Inf neg else F32NaN)
         else if e = 0 then F32Fin (sgn * of_nat m * two_powi (- 149))
         else F32Fin (sgn * of_nat (2 ^ 23 + m) * two_powi (int e - 150)))"

fun f32_less :: "f32_value \<Rightarrow> f32_value \<Rightarrow> bool" where
  "f32_less (F32Fin x) (F32Fin y) = (x < y)"
| "f32_less (F32Fin x) (F32Inf neg) = (\<not> neg)"
| "f32_less (F32Inf neg) (F32Fin y) = neg"
| "f32_less (F32Inf a) (F32Inf b) = (a \<and> \<not> b)"
| "f32_less _ _ = False"

fun fmt_f32 :: "nat \<Rightarrow> f32_value \<Rightarrow> string" where
  "fmt_f32 k F32NaN = ''NaN''"
| "fmt_f32 k (F32Inf neg) = (if neg then ''-inf'' else ''inf'')"
| "fmt_f32 k (F32Fin x) = (if x < 0 then ''-'' @ fmt_fixed k (- x) else fmt_fixed k x)"

end
