(* ===== verification/Report.thy ===== *)
theory Report
  imports Display
begin

text \<open>
  Findings and the report, \<open>crates/smeltr-analyzer/src/finding.rs\<close> and \<open>report.rs\<close>.
\<close>

section \<open>Findings\<close>

datatype severity = Info | Warning | Critical

datatype category = RootCause | ContributingFactor | Timing | SystemPressure

record evidence_ref =
  er_seq :: u64
  er_ts_mono_ns :: u64
  er_description :: string

record finding =
  fi_severity :: severity
  fi_category :: category
  fi_title :: string
  fi_detail :: string
  fi_evidence :: "evidence_ref list"

definition finding_new :: "severity \<Rightarrow> category \<Rightarrow> string \<Rightarrow> finding" where
  "finding_new s c title =
     \<lparr>fi_severity = s, fi_category = c, fi_title = title, fi_detail = [], fi_evidence = []\<rparr>"

definition with_detail :: "string \<Rightarrow> finding \<Rightarrow> finding" where
  "with_detail d f = f\<lparr>fi_detail := d\<rparr>"

definition with_evidence :: "evidence_ref \<Rightarrow> finding \<Rightarrow> finding" where
  "with_evidence e f = f\<lparr>fi_evidence := fi_evidence f @ [e]\<rparr>"

definition evidence :: "u64 \<Rightarrow> u64 \<Rightarrow> string \<Rightarrow> evidence_ref" where
  "evidence sq ts d = \<lparr>er_seq = sq, er_ts_mono_ns = ts, er_description = d\<rparr>"

lemma finding_simps [simp]:
  "fi_severity (finding_new s c t) = s" "fi_category (finding_new s c t) = c"
  "fi_title (finding_new s c t) = t" "fi_detail (finding_new s c t) = []"
  "fi_evidence (finding_new s c t) = []"
  "fi_severity (with_detail d f) = fi_severity f" "fi_category (with_detail d f) = fi_category f"
  "fi_title (with_detail d f) = fi_title f" "fi_detail (with_detail d f) = d"
  "fi_evidence (with_detail d f) = fi_evidence f"
  "fi_severity (with_evidence e f) = fi_severity f" "fi_category (with_evidence e f) = fi_category f"
  "fi_title (with_evidence e f) = fi_title f" "fi_detail (with_evidence e f) = fi_detail f"
  "fi_evidence (with_evidence e f) = fi_evidence f @ [e]"
  by (simp_all add: finding_new_def with_detail_def with_evidence_def)

lemma evidence_simps [simp]:
  "er_seq (evidence sq ts d) = sq" "er_ts_mono_ns (evidence sq ts d) = ts"
  by (simp_all add: evidence_def)

section \<open>The report\<close>

record report =
  rp_findings :: "finding list"
  rp_session_short :: "string option"
  rp_event_count :: nat

definition of_category :: "category \<Rightarrow> report \<Rightarrow> finding list" where
  "of_category c r = filter (\<lambda>f. fi_category f = c) (rp_findings r)"

definition root_cause :: "report \<Rightarrow> finding option" where
  "root_cause r = find (\<lambda>f. fi_category f = RootCause) (rp_findings r)"

text \<open>\<open>{:?}\<close> of a severity.\<close>

fun severity_name :: "severity \<Rightarrow> string" where
  "severity_name Info = ''Info''"
| "severity_name Warning = ''Warning''"
| "severity_name Critical = ''Critical''"

definition render_finding :: "bool \<Rightarrow> finding \<Rightarrow> string" where
  "render_finding shown f =
     ''  '' @ (if shown then ''['' @ severity_name (fi_severity f) @ ''] '' else []) @ fi_title f @ newline @
     (if fi_detail f = [] then [] else ''    '' @ fi_detail f @ newline)"

definition render_section :: "string \<Rightarrow> bool \<Rightarrow> finding list \<Rightarrow> string" where
  "render_section heading shown fs =
     (if fs = [] then []
      else heading @ newline @ concat (map (render_finding shown) fs) @ newline)"

definition render :: "report \<Rightarrow> string" where
  "render r =
     ''=== smeltr analyze ==='' @ newline @
     (case rp_session_short r of None \<Rightarrow> [] | Some s \<Rightarrow> ''session: '' @ s @ newline) @
     ''events:  '' @ digits (rp_event_count r) @ newline @ newline @
     render_section ''ROOT CAUSE'' True (case root_cause r of None \<Rightarrow> [] | Some f \<Rightarrow> [f]) @
     render_section ''CONTRIBUTING FACTORS'' True (of_category ContributingFactor r) @
     render_section ''TIMING'' False (of_category Timing r) @
     render_section ''SYSTEM PRESSURE'' True (of_category SystemPressure r)"

end
