(* ===== verification/RulesGpu.thy ===== *)
theory RulesGpu
  imports Report
begin

text \<open>
  The analyzer's rules over Metal failures, queue depth and eval timing:
  \<open>metal_error.rs\<close>, \<open>queue_depth.rs\<close>, \<open>queue_pressure.rs\<close> and \<open>mlx_timing.rs\<close> in
  \<open>crates/smeltr-analyzer/src/rules/\<close>.  A rule maps the events to its findings.
\<close>

section \<open>Metal errors\<close>

fun name_iogpu_error :: "int \<Rightarrow> string" where
  "name_iogpu_error c =
     (if c = 1 then ''kIOGPUCommandBufferCallbackErrorTimeout''
      else if c = 2 then ''kIOGPUCommandBufferCallbackErrorOutOfMemory''
      else if c = 3 then ''kIOGPUCommandBufferCallbackErrorPageFault''
      else if c = 4 then ''kIOGPUCommandBufferCallbackErrorAccessViolation''
      else if c = 5 then ''kIOGPUCommandBufferCallbackErrorInvalidResource''
      else if c = 6 then ''kIOGPUCommandBufferCallbackErrorBlacklisted''
      else if c = 14 then ''kIOGPUCommandBufferCallbackErrorImpactingInteractivity''
      else ''kIOGPUCommandBufferCallbackErrorUnknown'')"

definition is_watchdog_code :: "int \<Rightarrow> bool" where
  "is_watchdog_code c \<longleftrightarrow> c = 1 \<or> c = 14"

text \<open>A completion with an error code that is not zero.\<close>

fun failure_of :: "payload \<Rightarrow> (u64 \<times> i64 \<times> string option) option" where
  "failure_of (MetalCbCompleted cb q st (Some c) domain fl) = (if c = 0 then None else Some (cb, c, domain))"
| "failure_of _ = None"

definition metal_error_finding :: "event \<Rightarrow> u64 \<Rightarrow> i64 \<Rightarrow> string option \<Rightarrow> finding" where
  "metal_error_finding ev cb c domain =
     (let watchdog = is_watchdog_code (sint c)
      in with_evidence
           (evidence (ev_seq ev) (ts_mono_ns ev)
             (''MetalCbCompleted cb_id='' @ dec cb @ '' error_code='' @ signed_digits c))
           (finding_new (if watchdog then Critical else Warning)
             (if watchdog then RootCause else ContributingFactor)
             (''Metal command buffer #'' @ dec cb @ '' failed: '' @ name_iogpu_error (sint c) @
        '' (code='' @ signed_digits c @ '', domain='' @
        (case domain of None \<Rightarrow> ''?'' | Some d \<Rightarrow> d) @ '')'')))"

definition metal_error_rule :: "event list \<Rightarrow> finding list" where
  "metal_error_rule es =
     concat (map (\<lambda>ev. case failure_of (payload ev) of
         Some (cb, c, domain) \<Rightarrow> [metal_error_finding ev cb c domain] | None \<Rightarrow> []) es)"

section \<open>Queue depth before a failure\<close>

definition is_failure :: "event \<Rightarrow> bool" where
  "is_failure ev \<longleftrightarrow> failure_of (payload ev) \<noteq> None"

definition WINDOW_NS :: u64 where "WINDOW_NS = 5000000000"

text \<open>The deepest commit of the window: depth, stamp and command buffer.\<close>

definition depth_step :: "u64 \<Rightarrow> u64 \<Rightarrow> u32 \<times> u64 \<times> u64 \<Rightarrow> event \<Rightarrow> u32 \<times> u64 \<times> u64" where
  "depth_step start crash_ts m ev =
     (if ts_mono_ns ev < start \<or> crash_ts < ts_mono_ns ev then m
      else case payload ev of
             MetalCbCommitted cb q depth l \<Rightarrow> if fst m < depth then (depth, ts_mono_ns ev, cb) else m
           | _ \<Rightarrow> m)"

definition queue_depth_rule :: "event list \<Rightarrow> finding list" where
  "queue_depth_rule es =
     (case find is_failure es of
        None \<Rightarrow> []
      | Some crash \<Rightarrow>
          (case foldl (depth_step (sat_sub (ts_mono_ns crash) WINDOW_NS) (ts_mono_ns crash))
                  (0, ts_mono_ns crash, 0) es of
             (depth, peak_ts, cb) \<Rightarrow>
               if depth = 0 then []
               else
                 [with_evidence
                    (evidence (ev_seq crash) (ts_mono_ns crash) ''MetalCbCompleted (failure marker)'')
                    (with_detail
                      (''Observed at cb_id='' @ dec cb @ '', '' @
        fmt_fixed 2 (secs (ts_mono_ns crash - peak_ts)) @
        ''s before the failing command buffer.'')
                      (finding_new Warning ContributingFactor
                        (''Queue depth peaked at '' @ dec depth @ '' CBs in-flight'')))]))"

section \<open>Queue pressure without a failure\<close>

definition DEPTH_THRESHOLD :: u32 where "DEPTH_THRESHOLD = 32"
definition IN_FLIGHT_THRESHOLD_NS :: u64 where "IN_FLIGHT_THRESHOLD_NS = 1000000000"

record pressure =
  pr_max_depth :: u32
  pr_depth_seq :: u64
  pr_depth_ts :: u64
  pr_max_in_flight :: u64
  pr_in_flight_cb :: u64
  pr_in_flight_seq :: u64
  pr_in_flight_ts :: u64

definition pressure_init :: pressure where
  "pressure_init =
     \<lparr>pr_max_depth = 0, pr_depth_seq = 0, pr_depth_ts = 0, pr_max_in_flight = 0,
      pr_in_flight_cb = 0, pr_in_flight_seq = 0, pr_in_flight_ts = 0\<rparr>"

definition pressure_step :: "pressure \<Rightarrow> event \<Rightarrow> pressure" where
  "pressure_step s ev =
     (case payload ev of
        MetalCbCommitted cb q depth l \<Rightarrow>
          if pr_max_depth s < depth
          then s\<lparr>pr_max_depth := depth, pr_depth_seq := ev_seq ev, pr_depth_ts := ts_mono_ns ev\<rparr> else s
      | MetalCbCompleted cb q st ec dm in_flight \<Rightarrow>
          if pr_max_in_flight s < in_flight
          then s\<lparr>pr_max_in_flight := in_flight, pr_in_flight_cb := cb, pr_in_flight_seq := ev_seq ev,
                 pr_in_flight_ts := ts_mono_ns ev\<rparr> else s
      | _ \<Rightarrow> s)"

definition queue_pressure_rule :: "event list \<Rightarrow> finding list" where
  "queue_pressure_rule es =
     (if list_ex is_failure es then []
      else
        (let s = foldl pressure_step pressure_init es;
             depth_alarm = DEPTH_THRESHOLD \<le> pr_max_depth s;
             in_flight_alarm = IN_FLIGHT_THRESHOLD_NS \<le> pr_max_in_flight s;
             ms = dec (pr_max_in_flight s div 1000000);
             f = with_detail
               (''Sustained pressure detected: queue_depth >= '' @ dec DEPTH_THRESHOLD @
        '' or in_flight_ns >= '' @ dec (IN_FLIGHT_THRESHOLD_NS div 1000000000) @
        ''s. Consider mx.synchronize() between phases or reducing batch '' @ ''concurrency.'')
               (finding_new Warning ContributingFactor
                 (''Queue pressure: peak depth '' @ dec (pr_max_depth s) @ '', max in-flight '' @ ms @
        ''ms''));
             f1 = (if depth_alarm then with_evidence
                     (evidence (pr_depth_seq s) (pr_depth_ts s)
                       (''MetalCbCommitted queue_depth='' @ dec (pr_max_depth s))) f else f);
             f2 = (if in_flight_alarm then with_evidence
                     (evidence (pr_in_flight_seq s) (pr_in_flight_ts s)
                       (''MetalCbCompleted cb_id='' @ dec (pr_in_flight_cb s) @ '' in_flight='' @ ms @ ''ms'')) f1 else f1)
         in if \<not> depth_alarm \<and> \<not> in_flight_alarm then [] else [f2]))"

section \<open>Eval timing\<close>

record eval_rec =
  rc_call_id :: u64
  rc_duration_ns :: u64
  rc_was_async :: bool
  rc_entered_ts :: "u64 option"
  rc_returned_ts :: u64
  rc_seq :: u64

definition rec_step ::
  "(u64 \<times> u64) option \<times> eval_rec list \<Rightarrow> event \<Rightarrow> (u64 \<times> u64) option \<times> eval_rec list" where
  "rec_step st ev =
     (case st of (entered, recs) \<Rightarrow>
        (case payload ev of
           MlxEvalEntered call_id n label ids frames \<Rightarrow> (Some (call_id, ts_mono_ns ev), recs)
         | MlxEvalReturned call_id duration was_async \<Rightarrow>
             (entered, recs @
               [\<lparr>rc_call_id = call_id, rc_duration_ns = duration, rc_was_async = was_async,
                 rc_entered_ts = (case entered of
                     Some (cid, ts) \<Rightarrow> if cid = call_id then Some ts else None | None \<Rightarrow> None),
                 rc_returned_ts = ts_mono_ns ev, rc_seq = ev_seq ev\<rparr>])
         | _ \<Rightarrow> st))"

definition eval_recs :: "event list \<Rightarrow> eval_rec list" where
  "eval_recs es = snd (foldl rec_step (None, []) es)"

definition CRASH_ADJACENT_EVALS :: nat where "CRASH_ADJACENT_EVALS = 5"

text \<open>The last evals that returned before the failure.\<close>

definition crash_adjacent :: "u64 \<Rightarrow> eval_rec list \<Rightarrow> eval_rec list" where
  "crash_adjacent crash recs =
     (let before = sort_key rc_returned_ts (filter (\<lambda>r. rc_returned_ts r \<le> crash) recs)
      in drop (length before - CRASH_ADJACENT_EVALS) before)"

definition eval_finding :: "u64 \<Rightarrow> eval_rec \<Rightarrow> finding" where
  "eval_finding crash r =
     (let back = fmt_fixed 2 (secs (crash - rc_returned_ts r))
      in with_evidence
           (evidence (rc_seq r) (rc_returned_ts r) (''MlxEvalReturned call_id='' @ dec (rc_call_id r)))
           (with_detail
             (case rc_entered_ts r of
                Some entered \<Rightarrow> (''entered '' @ fmt_fixed 2 (secs (crash - entered)) @ ''s before crash, returned '' @
        back @ ''s before crash'')
              | None \<Rightarrow> (''returned '' @ back @ ''s before crash''))
             (finding_new Info Timing
               (''mx.eval call_id='' @ dec (rc_call_id r) @ '' returned ('' @
        (if rc_was_async r then ''async, '' else ''sync, '') @
        dec (rc_duration_ns r div 1000000) @ ''ms)''))))"

text \<open>\<open>((len as f64 - 1.0) * p).round() as usize\<close>.\<close>

definition pct_index :: "f64 \<Rightarrow> nat \<Rightarrow> nat" where
  "pct_index p n = unat (f64_to_u64 (f64_round_int (f64_mul (f64_sub (f64_of_nat n) 1) p)))"

definition P95 :: f64 where "P95 = f64_round (95 / 100)"

definition duration_pct :: "eval_rec list \<Rightarrow> f64 \<Rightarrow> u64" where
  "duration_pct sorted_recs p = rc_duration_ns (sorted_recs ! pct_index p (length sorted_recs))"

definition slow_label :: "eval_rec \<Rightarrow> string" where
  "slow_label r = (''call_id='' @ dec (rc_call_id r) @ '' '' @ dec (rc_duration_ns r div 1000000) @
        ''ms ('' @ (if rc_was_async r then ''async'' else ''sync'') @ '')'')"

definition timing_finding :: "eval_rec list \<Rightarrow> finding" where
  "timing_finding recs =
     (let sorted_recs = sort_key rc_duration_ns recs;
          n_async = length (filter rc_was_async recs); n_sync = length recs - n_async;
          slowest = last sorted_recs
      in with_evidence
           (evidence (rc_seq slowest) (rc_returned_ts slowest)
             (''slowest MlxEvalReturned call_id='' @ dec (rc_call_id slowest)))
           (with_detail (''slowest: '' @ join_with '', '' (map slow_label (take 5 (rev sorted_recs))))
             (finding_new Info Timing
               (''mx.eval timing: '' @ digits (length recs) @ '' calls ('' @ digits n_sync @
        '' sync, '' @ digits n_async @ '' async) '' @ em_dash @ '' p50 '' @
        dec (duration_pct sorted_recs (1 / 2) div 1000000) @ ''ms, p95 '' @
        dec (duration_pct sorted_recs P95 div 1000000) @ ''ms, max '' @
        dec (rc_duration_ns slowest div 1000000) @ ''ms''))))"

definition mlx_timing_rule :: "event list \<Rightarrow> finding list" where
  "mlx_timing_rule es =
     (let recs = eval_recs es
      in if recs = [] then []
         else (case find is_failure es of
                 None \<Rightarrow> []
               | Some crash \<Rightarrow>
                   map (eval_finding (ts_mono_ns crash)) (crash_adjacent (ts_mono_ns crash) recs)) @
              [timing_finding recs])"

end
