(* ===== verification/RulesMem.thy ===== *)
theory RulesMem
  imports Report OpRows
begin

text \<open>
  The analyzer's rules over memory, models and the system: \<open>memory.rs\<close> (the windows over the
  budget), and \<open>memory_pressure.rs\<close>, \<open>mlx_cache_growth.rs\<close>, \<open>duplicate_model_load.rs\<close>,
  \<open>unread_model_tensors.rs\<close>, \<open>system_pressure.rs\<close> in \<open>crates/smeltr-analyzer/src/rules/\<close>.
\<close>

section \<open>Windows over the budget\<close>

record mem_window =
  mw_start :: u64
  mw_end :: u64
  mw_peak_bytes :: u64
  mw_peak_ts :: u64
  mw_peak_seq :: u64
  mw_recommended :: u64
  mw_peak_scope :: string

definition f64_ratio :: "u64 \<Rightarrow> u64 \<Rightarrow> f64" where
  "f64_ratio a b = f64_div (f64_of_u64 a) (f64_of_u64 b)"

definition peak_ratio :: "mem_window \<Rightarrow> f64" where
  "peak_ratio w =
     (if mw_recommended w = 0 then 0 else f64_ratio (mw_peak_bytes w) (mw_recommended w))"

record window_scan =
  ws_scope :: "(u64 \<times> string) list"
  ws_windows :: "mem_window list"
  ws_current :: "mem_window option"
  ws_last_over :: u64

definition window_scan_init :: window_scan where
  "window_scan_init = \<lparr>ws_scope = [], ws_windows = [], ws_current = None, ws_last_over = 0\<rparr>"

definition scope_label :: "(u64 \<times> string) list \<Rightarrow> string" where
  "scope_label scope = (if scope = [] then ''<unscoped>'' else snd (last scope))"

text \<open>A long quiet stretch closes the open window; the sample then extends or opens one.\<close>

definition close_stale :: "u64 \<Rightarrow> u64 \<Rightarrow> window_scan \<Rightarrow> window_scan" where
  "close_stale gap ts s =
     (case ws_current s of
        None \<Rightarrow> s
      | Some w \<Rightarrow>
          if gap < sat_sub ts (ws_last_over s)
          then s\<lparr>ws_windows := ws_windows s @ [w], ws_current := None\<rparr> else s)"

definition open_window :: "event \<Rightarrow> u64 \<Rightarrow> u64 \<Rightarrow> string \<Rightarrow> mem_window" where
  "open_window ev allocated recommended scope =
     \<lparr>mw_start = ts_mono_ns ev, mw_end = ts_mono_ns ev, mw_peak_bytes = allocated,
      mw_peak_ts = ts_mono_ns ev, mw_peak_seq = ev_seq ev, mw_recommended = recommended,
      mw_peak_scope = scope\<rparr>"

definition extend_window :: "event \<Rightarrow> u64 \<Rightarrow> u64 \<Rightarrow> string \<Rightarrow> mem_window \<Rightarrow> mem_window" where
  "extend_window ev allocated recommended scope w =
     (let w1 = w\<lparr>mw_end := ts_mono_ns ev\<rparr>
      in if mw_peak_bytes w < allocated
         then w1\<lparr>mw_peak_bytes := allocated, mw_peak_ts := ts_mono_ns ev, mw_peak_seq := ev_seq ev,
                 mw_recommended := recommended, mw_peak_scope := scope\<rparr> else w1)"

definition window_step :: "f64 \<Rightarrow> u64 \<Rightarrow> window_scan \<Rightarrow> event \<Rightarrow> window_scan" where
  "window_step threshold gap s ev =
     (case payload ev of
        ModuleEntered call_id def_id qualname cls parent depth attrs \<Rightarrow>
          s\<lparr>ws_scope := ws_scope s @ [(call_id, qualname)]\<rparr>
      | ModuleReturned call_id \<Rightarrow>
          (case rposition (\<lambda>p. fst p = call_id) (ws_scope s) of
             None \<Rightarrow> s
           | Some pos \<Rightarrow> s\<lparr>ws_scope := remove_at pos (ws_scope s)\<rparr>)
      | MetalDeviceMemSample allocated recommended at_event \<Rightarrow>
          if recommended = 0 then s
          else if threshold \<le> f64_ratio allocated recommended then
            (let s1 = (close_stale gap (ts_mono_ns ev) s)\<lparr>ws_last_over := ts_mono_ns ev\<rparr>;
                 scope = scope_label (ws_scope s)
             in s1\<lparr>ws_current := Some (case ws_current s1 of
                     Some w \<Rightarrow> extend_window ev allocated recommended scope w
                   | None \<Rightarrow> open_window ev allocated recommended scope)\<rparr>)
          else close_stale gap (ts_mono_ns ev) s
      | _ \<Rightarrow> s)"

definition over_budget_windows :: "event list \<Rightarrow> f64 \<Rightarrow> u64 \<Rightarrow> mem_window list" where
  "over_budget_windows es threshold gap =
     (let s = foldl (window_step threshold gap) window_scan_init es
      in ws_windows s @ (case ws_current s of None \<Rightarrow> [] | Some w \<Rightarrow> [w]))"

section \<open>Memory pressure\<close>

definition WARN_RATIO :: f64 where "WARN_RATIO = f64_round (9 / 10)"
definition MERGE_GAP_NS :: u64 where "MERGE_GAP_NS = 5000000000"
definition MAX_LINES :: nat where "MAX_LINES = 8"

text \<open>\<open>Iterator::max_by\<close>: the last of the greatest.\<close>

definition max_by :: "('a \<Rightarrow> 'b::linorder) \<Rightarrow> 'a list \<Rightarrow> 'a option" where
  "max_by f xs =
     (case xs of [] \<Rightarrow> None | x # ys \<Rightarrow> Some (foldl (\<lambda>m y. if f m \<le> f y then y else m) x ys))"

definition ratio_pct :: "f64 \<Rightarrow> string" where
  "ratio_pct r = dec (f64_to_u64 (f64_round_int (f64_mul r 100)))"

definition window_line :: "(u64 \<Rightarrow> string) \<Rightarrow> mem_window \<Rightarrow> string" where
  "window_line rel w = (''  t+'' @ rel (mw_start w) @ ''s..t+'' @ rel (mw_end w) @ ''s peak '' @
        dec (mw_peak_bytes w) @ '' bytes ('' @ ratio_pct (peak_ratio w) @ ''%) in scope `'' @
        mw_peak_scope w @ ''`'')"

definition cap_lines :: "string list \<Rightarrow> string list" where
  "cap_lines ls =
     (if MAX_LINES < length ls
      then take MAX_LINES ls @ [(''  ... '' @ digits (length ls - MAX_LINES) @ '' more window(s) elided'')]
      else ls)"

definition memory_pressure_rule :: "event list \<Rightarrow> finding list" where
  "memory_pressure_rule es =
     (let windows = over_budget_windows es WARN_RATIO MERGE_GAP_NS
      in case max_by peak_ratio windows of
           None \<Rightarrow> []
         | Some worst \<Rightarrow>
             (let t0 = (case es of [] \<Rightarrow> 0 | e # _ \<Rightarrow> ts_mono_ns e);
                  rel = (\<lambda>ts. dec (sat_sub ts t0 div 1000000000));
                  ratio = peak_ratio worst; pct = ratio_pct ratio; q = mw_peak_scope worst;
                  title = (if 1 < ratio
                    then (''GPU memory over the recommended working-set budget ('' @ pct @ ''%) in scope `'' @
        q @ ''` '' @ em_dash @ '' elevated eviction risk'')
                    else (''GPU memory near the recommended working-set budget ('' @ pct @ ''%) in scope `'' @
        q @ ''`''));
                  detail = (''peak allocated '' @ dec (mw_peak_bytes worst) @
        '' bytes vs recommendedMaxWorkingSetSize '' @ dec (mw_recommended worst) @
        '' bytes; '' @ digits (length windows) @ '' over-budget window(s):'' @ newline @
        join_with newline (cap_lines (map (window_line rel) windows)))
              in [with_evidence
                    (evidence (mw_peak_seq worst) (mw_peak_ts worst)
                      (''MetalDeviceMemSample '' @ em_dash @ '' worst window's peak at t+'' @
        rel (mw_peak_ts worst) @ ''s''))
                    (with_detail detail
                      (finding_new (if 1 < ratio then Critical else Warning) ContributingFactor title))]))"

section \<open>Allocator cache\<close>

definition CACHE_TO_ACTIVE_RATIO :: f64 where "CACHE_TO_ACTIVE_RATIO = 5 / 4"
definition MIN_CACHE_BYTES :: u64 where "MIN_CACHE_BYTES = 1000000000"

text \<open>The peak of the cache, where it was reached, and the peak of the active memory.\<close>

definition cache_step :: "u64 \<times> event option \<times> u64 \<Rightarrow> event \<Rightarrow> u64 \<times> event option \<times> u64" where
  "cache_step st ev =
     (case st of (peak_cache, at_peak, peak_active) \<Rightarrow>
        (case payload ev of
           MlxMemoryPoll active peak cache \<Rightarrow>
             if peak_cache < cache then (cache, Some ev, max peak_active active)
             else (peak_cache, at_peak, max peak_active active)
         | _ \<Rightarrow> st))"

definition mlx_cache_growth_rule :: "event list \<Rightarrow> finding list" where
  "mlx_cache_growth_rule es =
     (case foldl cache_step (0, None, 0) es of
        (peak_cache, None, peak_active) \<Rightarrow> []
      | (peak_cache, Some at_peak, peak_active) \<Rightarrow>
          if peak_cache < MIN_CACHE_BYTES \<or> peak_active = 0 then []
          else if f64_ratio peak_cache peak_active < CACHE_TO_ACTIVE_RATIO then []
          else
            [with_evidence
               (evidence (ev_seq at_peak) (ts_mono_ns at_peak) (''cache peak '' @ gb2 peak_cache @ '' GB''))
               (with_detail
                 (''The MLX cache reached '' @ gb2 peak_cache @
        '' GB while active memory never went above '' @ gb2 peak_active @ '' GB (x'' @
        fmt_fixed 2 (f64_ratio peak_cache peak_active) @
        ''). These are buffers the program freed and MLX kept: seen from Metal '' @
        ''they are indistinguishable from working memory, which makes the '' @
        ''problem look like a genuine requirement. Check that no component '' @
        ''widens a cache limit set upstream '' @ em_dash @ '' `mx.set_cache_limit()` '' @
        em_dash @ '' and, if memory is tight, consider `mx.clear_cache()` between stages.'')
                 (finding_new Warning ContributingFactor
                   ''The MLX allocator cache exceeds the memory actually in use''))])"

section \<open>Model files loaded twice\<close>

text \<open>The files loaded and not yet unloaded, with the stamp of the last load.\<close>

definition duplicate_finding :: "event \<Rightarrow> string \<Rightarrow> u64 \<Rightarrow> u64 \<Rightarrow> finding" where
  "duplicate_finding ev path nbytes first_ts =
     with_evidence
       (evidence (ev_seq ev) (ts_mono_ns ev) (''ModelLoad path='' @ path @ '' size_bytes='' @ dec nbytes))
       (with_detail
         (''Duplicate load of '' @ path @ '': first at t='' @ dec first_ts @
        '' ns, duplicate at t='' @ dec (ts_mono_ns ev) @ '' ns, size='' @ dec nbytes @
        '' bytes'')
         (finding_new Warning ContributingFactor
           (''Model '' @ basename path @ '' loaded again without prior unload (size='' @
        binary_bytes nbytes @ '')'')))"

definition load_step ::
  "(string \<rightharpoonup> u64) \<times> finding list \<Rightarrow> event \<Rightarrow> (string \<rightharpoonup> u64) \<times> finding list" where
  "load_step st ev =
     (case st of (loaded, out) \<Rightarrow>
        (case payload ev of
           ModelLoad path nbytes t_start t_end sha framework \<Rightarrow>
             (loaded(path \<mapsto> ts_mono_ns ev),
              case loaded path of
                Some first_ts \<Rightarrow> out @ [duplicate_finding ev path nbytes first_ts]
              | None \<Rightarrow> out)
         | ModelUnload path t sha tensors unread keys requested \<Rightarrow> (loaded(path := None), out)
         | _ \<Rightarrow> st))"

definition duplicate_model_load_rule :: "event list \<Rightarrow> finding list" where
  "duplicate_model_load_rule es = snd (foldl load_step (Map.empty, []) es)"

section \<open>Tensors never read\<close>

definition MAX_PATTERNS :: nat where "MAX_PATTERNS = 12"

definition all_digits :: "string \<Rightarrow> bool" where
  "all_digits s \<longleftrightarrow> list_all (\<lambda>c. CHR ''0'' \<le> c \<and> c \<le> CHR ''9'') s"

definition pattern_of :: "string \<Rightarrow> string" where
  "pattern_of key =
     join_with ''.'' (map (\<lambda>seg. if seg \<noteq> [] \<and> all_digits seg then ''*'' else seg)
       (split_on (CHR ''.'') key))"

definition pattern_depth :: "string \<Rightarrow> nat" where
  "pattern_depth p = length (split_on (CHR ''.'') p)"

definition cut_pattern :: "nat \<Rightarrow> string \<Rightarrow> string" where
  "cut_pattern depth p =
     (let segs = split_on (CHR ''.'') p
      in if depth < length segs then join_with ''.'' (take depth segs) @ ''.*'' else p)"

text \<open>The counts come out of a hash map in any order and are sorted, by count and then name.\<close>

definition count_at_depth :: "string list \<Rightarrow> nat \<Rightarrow> (string \<times> nat) list" where
  "count_at_depth patterns depth =
     sort_key (\<lambda>(p, n). (- int n, p))
       (foldl (\<lambda>al p. entry_mod (cut_pattern depth p) 0 Suc al) [] patterns)"

definition group_by_pattern :: "string list \<Rightarrow> (string \<times> nat) list" where
  "group_by_pattern keys =
     (let patterns = map pattern_of keys;
          max_depth = fold max (map pattern_depth patterns) 0;
          full = count_at_depth patterns max_depth
      in if length full \<le> MAX_PATTERNS then full
         else case find (\<lambda>groups. length groups \<le> MAX_PATTERNS)
                (map (count_at_depth patterns) (rev [1..<max_depth])) of
                Some groups \<Rightarrow> groups
              | None \<Rightarrow> full)"

definition unread_detail :: "string \<Rightarrow> u64 \<Rightarrow> string list \<Rightarrow> string" where
  "unread_detail path unread keys =
     (let patterns = group_by_pattern keys; rest = drop MAX_PATTERNS patterns
      in (''The program loaded '' @ path @ '' but never read the value of '' @ dec unread @
        '' of its tensors before releasing it: the loader skipped them. A '' @
        ''key-mapping filter that drops part of a file (a prefix check, a '' @
        ''renamed module) leaves no other trace '' @ em_dash @
        '' the model runs, only partly patched. Tensors that are legitimately '' @
        ''unused (another component's weights in a shared file) also show up '' @ ''here.'' @
        newline @ newline @ ''Unread keys by pattern:'') @
         concat (map (\<lambda>(p, n). (newline @ ''  '' @ p @ ''  '' @ times_sign @ digits n)) (take MAX_PATTERNS patterns)) @
         (if rest = [] then []
          else (newline @ ''  '' @ ellipsis @ '' '' @ digits (length rest) @ '' more pattern(s), '' @
        digits (sum_list (map snd rest)) @ '' key(s)'')) @
         (if length keys < unat unread
          then (newline @ ''(patterns cover the first '' @ digits (length keys) @
        '' unread keys the sidecar reported)'')
          else []))"

definition unread_finding ::
  "event \<Rightarrow> string \<Rightarrow> u64 option \<Rightarrow> u64 \<Rightarrow> string list \<Rightarrow> string option \<Rightarrow> finding" where
  "unread_finding ev path tensors unread keys requested =
     with_evidence
       (evidence (ev_seq ev) (ts_mono_ns ev) (''ModelUnload path='' @ path @ '' unread_count='' @ dec unread))
       (with_detail
         (unread_detail (case requested of Some r \<Rightarrow> (r @ '' ('' @ path @ '')'') | None \<Rightarrow> path) unread keys)
         (finding_new Warning ContributingFactor
           (basename (case requested of Some r \<Rightarrow> r | None \<Rightarrow> path) @
        '': '' @ dec unread @
        (case tensors of None \<Rightarrow> [] | Some t \<Rightarrow> '' of '' @ dec t) @
        '' loaded tensor(s) were never read'')))"

definition unread_model_tensors_rule :: "event list \<Rightarrow> finding list" where
  "unread_model_tensors_rule es =
     concat (map (\<lambda>ev. case payload ev of
         ModelUnload path t sha tensors (Some unread) keys requested \<Rightarrow>
           if unread = 0 then [] else [unread_finding ev path tensors unread keys requested]
       | _ \<Rightarrow> []) es)"

section \<open>System processes\<close>

definition PRESSURE_PROCESS_NAMES :: "string list" where
  "PRESSURE_PROCESS_NAMES =
     [''ReportCrash'', ''diagnosticservicesd'', ''crashanalyticsd'', ''UserNotificationCenter'',
      ''spindump'', ''syslogd'']"

definition CPU_THRESHOLD :: f32_value where "CPU_THRESHOLD = F32Fin 5"

record pressure_slot =
  ps_name :: string
  ps_samples :: u32
  ps_peak :: f32_value
  ps_seq :: u64
  ps_ts :: u64

text \<open>The position of a process in the list of those seen.\<close>

fun slot_index :: "string \<Rightarrow> pressure_slot list \<Rightarrow> nat option" where
  "slot_index name [] = None"
| "slot_index name (x # xs) =
     (if ps_name x = name then Some 0 else map_option Suc (slot_index name xs))"

definition is_flagged :: "proc_entry \<Rightarrow> bool" where
  "is_flagged p \<longleftrightarrow>
     \<not> f32_less (f32_value_of (pe_cpu_pct p)) CPU_THRESHOLD \<and>
     list_ex (contains_str (pe_name p)) PRESSURE_PROCESS_NAMES"

definition proc_step :: "event \<Rightarrow> pressure_slot list \<Rightarrow> proc_entry \<Rightarrow> pressure_slot list" where
  "proc_step ev slots p =
     (let cpu = f32_value_of (pe_cpu_pct p)
      in if \<not> is_flagged p then slots
         else case slot_index (pe_name p) slots of
                Some i \<Rightarrow>
                  (let x = slots ! i; x1 = x\<lparr>ps_samples := ps_samples x + 1\<rparr>
                   in slots[i := if f32_less (ps_peak x) cpu
                                 then x1\<lparr>ps_peak := cpu, ps_seq := ev_seq ev, ps_ts := ts_mono_ns ev\<rparr>
                                 else x1])
              | None \<Rightarrow> slots @ [\<lparr>ps_name = pe_name p, ps_samples = 1, ps_peak = cpu,
                                  ps_seq = ev_seq ev, ps_ts = ts_mono_ns ev\<rparr>])"

definition pressure_slots :: "event list \<Rightarrow> pressure_slot list" where
  "pressure_slots es =
     foldl (\<lambda>slots ev. case payload ev of
         ProcTop top_procs flagged \<Rightarrow> foldl (proc_step ev) slots top_procs | _ \<Rightarrow> slots) [] es"

definition slot_finding :: "pressure_slot \<Rightarrow> finding" where
  "slot_finding x =
     (let peak = fmt_f32 1 (ps_peak x)
      in with_evidence (evidence (ps_seq x) (ps_ts x) (''peak ProcTop at ts='' @ dec (ps_ts x)))
           (finding_new Warning SystemPressure
             (if ps_samples x = 1 then (ps_name x @ '' consuming '' @ peak @ ''% CPU'')
              else (ps_name x @ '' consuming up to '' @ peak @ ''% CPU ('' @ dec (ps_samples x) @
        '' samples)''))))"

definition system_pressure_rule :: "event list \<Rightarrow> finding list" where
  "system_pressure_rule es = map slot_finding (pressure_slots es)"

end
