(* ===== verification/RulesCapture.thy ===== *)
theory RulesCapture
  imports Report OpRows
begin

text \<open>
  The analyzer's rules over the quality of the capture: \<open>hook_degradation.rs\<close>,
  \<open>lazy_eval_attribution.rs\<close> and \<open>sidecar_absent.rs\<close> in
  \<open>crates/smeltr-analyzer/src/rules/\<close>, with the estimate of \<open>breakdown.rs\<close> they report.
\<close>

section \<open>Estimated op times\<close>

definition APPORTIONED_ADVICE_MIN_SHARE :: f64 where
  "APPORTIONED_ADVICE_MIN_SHARE = f64_round (5 / 100)"

definition apportioned_share :: "apportioned_ops \<Rightarrow> f64" where
  "apportioned_share a = f64_div (f64_of_u64 (ap_apportioned_ns a)) (f64_of_u64 (ap_total_ns a))"

definition apportioned_ops_advice :: "apportioned_ops \<Rightarrow> string option" where
  "apportioned_ops_advice a =
     (let share = apportioned_share a
      in if APPORTIONED_ADVICE_MIN_SHARE \<le> share
         then Some (''op times estimated: '' @ fmt_fixed 0 (f64_mul share 100) @
        ''% of op-level GPU time was split between different kernels of the '' @
        ''same encoder by dispatch count, not measured (the GPU timestamps '' @
        ''encoders, not dispatches). Per-kernel and per-kind shares can be off '' @
        ''by an order of magnitude: a GEMM and an elementwise kernel get the '' @
        ''same share. For measured per-kernel times, record with `smeltr record '' @
        ''--exact-ops` (MLX: one op per command buffer); on M3 and later, '' @
        ''SMELTR_HOOK_DISPATCH_BOUNDARY=1 times each dispatch instead'')
         else None)"

definition apportioned_advice :: "event list \<Rightarrow> string option" where
  "apportioned_advice es = Option.bind (apportioned_detect es) apportioned_ops_advice"

section \<open>Sampling disabled\<close>

text \<open>The reason of a skip that matches a marker.\<close>

definition skip_matches :: "string \<Rightarrow> event \<Rightarrow> bool" where
  "skip_matches marker ev =
     (case payload ev of MetalHookSkipped reason \<Rightarrow> contains_str reason marker | _ \<Rightarrow> False)"

definition span_step ::
  "string \<Rightarrow> string \<Rightarrow> (u64 \<times> u64 option) list \<times> u64 option \<Rightarrow> event \<Rightarrow>
   (u64 \<times> u64 option) list \<times> u64 option" where
  "span_step disable reenable st ev =
     (case st of (spans, opened) \<Rightarrow>
        if skip_matches disable ev then
          (spans, Some (case opened of Some t \<Rightarrow> t | None \<Rightarrow> ts_mono_ns ev))
        else if skip_matches reenable ev then
          (case opened of
             Some start \<Rightarrow> (spans @ [(start, Some (ts_mono_ns ev))], None)
           | None \<Rightarrow> (spans, None))
        else st)"

definition disabled_spans :: "event list \<Rightarrow> string \<Rightarrow> string \<Rightarrow> (u64 \<times> u64 option) list" where
  "disabled_spans es disable reenable =
     (case foldl (span_step disable reenable) ([], None) es of
        (spans, opened) \<Rightarrow> spans @ (case opened of None \<Rightarrow> [] | Some start \<Rightarrow> [(start, None)]))"

definition in_span :: "u64 \<Rightarrow> u64 \<times> u64 option \<Rightarrow> bool" where
  "in_span t sp \<longleftrightarrow> fst sp \<le> t \<and> (case snd sp of None \<Rightarrow> True | Some e \<Rightarrow> t < e)"

text \<open>Op time inside the spans, and in all.\<close>

definition share_step ::
  "op_time_scales \<Rightarrow> (u64 \<times> u64 option) list \<Rightarrow> u64 \<times> u64 \<Rightarrow> event \<Rightarrow> u64 \<times> u64" where
  "share_step scales spans st ev =
     (case payload ev of
        MetalCbOps cb ops \<Rightarrow>
          (let ns = sum_list (map (\<lambda>op. scaled_gpu_ns scales (ev_seq ev) (op_gpu_ns op)) ops)
           in (if list_ex (in_span (ts_mono_ns ev)) spans then fst st + ns else fst st, snd st + ns))
      | _ \<Rightarrow> st)"

definition op_share_in_spans :: "event list \<Rightarrow> (u64 \<times> u64 option) list \<Rightarrow> string" where
  "op_share_in_spans es spans =
     (case foldl (share_step (compute_op_time_scales es) spans) (0, 0) es of
        (inside, overall) \<Rightarrow>
          if overall = 0 then ''an unknown share''
          else fmt_fixed 0 (f64_div (f64_mul (f64_of_u64 inside) 100) (f64_of_u64 overall)) @ ''%'')"

definition span_text :: "u64 \<times> u64 option \<Rightarrow> string" where
  "span_text sp =
     (case sp of
        (s, Some e) \<Rightarrow> (fmt_fixed 1 (secs s) @ en_dash @ fmt_fixed 1 (secs e) @ '' s'')
      | (s, None) \<Rightarrow> (fmt_fixed 1 (secs s) @ '' s'' @ en_dash @ ''end''))"

definition format_spans :: "(u64 \<times> u64 option) list \<Rightarrow> string" where
  "format_spans spans =
     join_with '', ''
       (map span_text (take 5 spans) @
        (if 5 < length spans then [(''and '' @ digits (length spans - 5) @ '' more'')] else []))"

fun skip_reason :: "payload \<Rightarrow> string" where
  "skip_reason (MetalHookSkipped reason) = reason"
| "skip_reason _ = []"

definition sampling_findings :: "event list \<Rightarrow> string \<Rightarrow> finding list" where
  "sampling_findings es kind =
     (let disable = kind @ '' sampling disabled''; reenable = kind @ '' sampling re-enabled'';
          disables = filter (skip_matches disable) es;
          reenables = filter (\<lambda>ev. \<not> skip_matches disable ev \<and> skip_matches reenable ev) es
      in case disables of
           [] \<Rightarrow> []
         | first # _ \<Rightarrow>
             (let spans = disabled_spans es disable reenable
              in [with_evidence
                    (evidence (ev_seq first) (ts_mono_ns first)
                      (''first occurrence '' @ em_dash @ '' MetalHookSkipped: '' @ skip_reason (payload first)))
                    (with_detail
                      (''Sampling was off during '' @ format_spans spans @ ''. '' @
        op_share_in_spans es spans @
        '' of op-level GPU time was recorded in these spans: those per-op times '' @
        ''are split by dispatch count, not measured (re-enabled '' @
        digits (length reenables) @ '' time(s) by the backoff retry).'')
                      (finding_new Warning ContributingFactor
                        (''GPU op timing degraded: '' @ kind @ '' sampling disabled '' @
        digits (length disables) @ '' time(s) after sustained alloc failures'')))]))"

section \<open>Corruption, estimates and drops\<close>

definition corruption_findings :: "event list \<Rightarrow> finding list" where
  "corruption_findings es =
     (case filter (skip_matches ''ring decode error'') es of
        [] \<Rightarrow> []
      | first # rest \<Rightarrow>
          [with_evidence
             (evidence (ev_seq first) (ts_mono_ns first)
               (''MetalHookSkipped: '' @ skip_reason (payload first)))
             (with_detail ''Corrupt ring frames were skipped; some Metal events are lost.''
               (finding_new Warning ContributingFactor
                 (''Metal hook ring corruption: '' @ digits (Suc (length rest)) @
        '' corrupt frame report(s) skipped'')))])"

definition has_apportioned :: "event \<Rightarrow> bool" where
  "has_apportioned ev =
     (case payload ev of
        MetalCbOps cb ops \<Rightarrow>
          list_ex (\<lambda>op. 0 < (case op_apportioned_ns op of None \<Rightarrow> 0 | Some a \<Rightarrow> a)) ops
      | _ \<Rightarrow> False)"

definition estimate_findings :: "event list \<Rightarrow> finding list" where
  "estimate_findings es =
     (case apportioned_advice es of
        None \<Rightarrow> []
      | Some advice \<Rightarrow>
          (let share = (case apportioned_detect es of None \<Rightarrow> 0 | Some a \<Rightarrow> f64_mul (apportioned_share a) 100);
               f = with_detail advice
                 (finding_new Warning ContributingFactor
                   (''GPU op times estimated: '' @ fmt_fixed 0 share @
        ''% split between kernels by dispatch count''))
           in [case find has_apportioned es of
                 None \<Rightarrow> f
               | Some first \<Rightarrow>
                   with_evidence
                     (evidence (ev_seq first) (ts_mono_ns first)
                       ''first MetalCbOps with apportioned op time'') f]))"

fun dropped_count :: "payload \<Rightarrow> u64 option" where
  "dropped_count (MetalHookDropped n) = Some n"
| "dropped_count _ = None"

definition drop_step :: "u64 \<times> event option \<Rightarrow> event \<Rightarrow> u64 \<times> event option" where
  "drop_step st ev =
     (case dropped_count (payload ev) of
        None \<Rightarrow> st
      | Some n \<Rightarrow> (fst st + n, Some (case snd st of None \<Rightarrow> ev | Some first \<Rightarrow> first)))"

definition drop_findings :: "event list \<Rightarrow> finding list" where
  "drop_findings es =
     (case foldl drop_step (0, None) es of
        (n, None) \<Rightarrow> []
      | (n, Some first) \<Rightarrow>
          [with_evidence
             (evidence (ev_seq first) (ts_mono_ns first) ''first MetalHookDropped event'')
             (with_detail
               (''The mmap ring filled faster than the daemon drained it; Metal events '' @
        ''were dropped at the source.'')
               (finding_new Warning ContributingFactor
                 (''Metal hook ring overflow: '' @ dec n @ '' event(s) dropped'')))])"

definition hook_degradation_rule :: "event list \<Rightarrow> finding list" where
  "hook_degradation_rule es =
     sampling_findings es ''stage'' @ sampling_findings es ''dispatch'' @
     corruption_findings es @ estimate_findings es @ drop_findings es"

section \<open>GPU time outside every module\<close>

definition LAZY_GAP_THRESHOLD_PCT :: u64 where "LAZY_GAP_THRESHOLD_PCT = 50"

record lazy_eval_gap =
  lg_gap_gpu_ns :: u64
  lg_total_gpu_ns :: u64
  lg_module_call_count :: u64
  lg_lazy_eval_count :: u64
  lg_first_seq :: u64
  lg_first_ts :: u64

definition gap_pct :: "lazy_eval_gap \<Rightarrow> u64" where
  "gap_pct g = (if lg_total_gpu_ns g = 0 then 0 else lg_gap_gpu_ns g * 100 div lg_total_gpu_ns g)"

definition lazy_advice :: "lazy_eval_gap \<Rightarrow> string" where
  "lazy_advice g =
     (let cause =
        (if 0 < lg_module_call_count g
         then (''module instrumentation is active, but the graph is evaluated lazily '' @
        ''by mx.eval() calls made outside any module forward (typically a '' @
        ''single eval per step at pipeline level)'')
         else (''the recorded process calls mx.eval() with no module or scope '' @
        ''instrumentation around the work''))
      in (dec (gap_pct g) @ ''% of GPU time cannot be attributed to modules: '' @ cause @
        '', so it is reported as <unscoped>. Add smeltr.scope(\"...\") around '' @
        ''pipeline stages for semantic attribution, or record with '' @
        ''SMELTR_STACK_CAPTURE=1 and use `smeltr origins` for file:line '' @ ''attribution.''))"

fun is_module_entered :: "payload \<Rightarrow> bool" where
  "is_module_entered (ModuleEntered _ _ _ _ _ _ _) = True"
| "is_module_entered _ = False"

text \<open>The gap, the total, the lazy evals and the earliest of them.\<close>

record lazy_scan =
  lz_gap :: u64
  lz_total :: u64
  lz_evals :: "nat list"
  lz_first :: "(u64 \<times> u64) option"

definition pair_min :: "u64 \<times> u64 \<Rightarrow> u64 \<times> u64 \<Rightarrow> u64 \<times> u64" where
  "pair_min a b = (if fst a < fst b \<or> fst a = fst b \<and> snd a \<le> snd b then a else b)"

definition lazy_step :: "eval_window list \<Rightarrow> bool \<Rightarrow> lazy_scan \<Rightarrow> completed_cb \<Rightarrow> lazy_scan" where
  "lazy_step intervals seen s cb =
     (let ns = cb_gpu_ns seen cb; s1 = s\<lparr>lz_total := lz_total s + ns\<rparr>
      in case eval_at intervals (cb_commit_ts cb) of
           None \<Rightarrow> s1
         | Some i \<Rightarrow>
             (let w = intervals ! i; ev = (ew_seq w, ew_t_in w)
              in if ew_module_stack w = [] \<and> 0 < ns
                 then s1\<lparr>lz_gap := lz_gap s + ns, lz_evals := List.insert i (lz_evals s),
                        lz_first := Some (case lz_first s of None \<Rightarrow> ev | Some f \<Rightarrow> pair_min f ev)\<rparr>
                 else s1))"

definition lazy_scan :: "event list \<Rightarrow> lazy_scan" where
  "lazy_scan es =
     (let cbs = clamped_command_buffers es
      in foldl (lazy_step (eval_windows es) (cc_seen_any_cb_ops cbs))
           \<lparr>lz_gap = 0, lz_total = 0, lz_evals = [], lz_first = None\<rparr> (cc_completed cbs))"

definition lazy_detect :: "event list \<Rightarrow> lazy_eval_gap option" where
  "lazy_detect es =
     (let s = lazy_scan es
      in case lz_first s of
           None \<Rightarrow> None
         | Some (sq, ts) \<Rightarrow>
             (let g = \<lparr>lg_gap_gpu_ns = lz_gap s, lg_total_gpu_ns = lz_total s,
                       lg_module_call_count = of_nat (length (filter (\<lambda>ev. is_module_entered (payload ev)) es)),
                       lg_lazy_eval_count = of_nat (length (lz_evals s)),
                       lg_first_seq = sq, lg_first_ts = ts\<rparr>
              in if LAZY_GAP_THRESHOLD_PCT \<le> gap_pct g then Some g else None))"

definition lazy_eval_rule :: "event list \<Rightarrow> finding list" where
  "lazy_eval_rule es =
     (case lazy_detect es of
        None \<Rightarrow> []
      | Some g \<Rightarrow>
          [with_evidence
             (evidence (lg_first_seq g) (lg_first_ts g)
               (''first empty-module-stack mx.eval that received GPU time ('' @
        dec (lg_lazy_eval_count g) @ '' such eval(s), '' @ dec (lg_module_call_count g) @
        '' ModuleEntered in session)''))
             (with_detail (lazy_advice g)
               (finding_new Warning ContributingFactor
                 (''module attribution gap: '' @ dec (gap_pct g) @
        ''% of GPU time evaluated outside module windows (lazy graph)'')))])"

section \<open>No sidecar, nothing instrumented\<close>

record sidecar_absent =
  sa_metal_cb_count :: u64
  sa_first_seq :: u64
  sa_first_ts :: u64

definition sidecar_advice :: "sidecar_absent \<Rightarrow> string" where
  "sidecar_advice a =
     (''Metal capture recorded '' @ dec (sa_metal_cb_count a) @
        '' command buffer(s) but the Python sidecar never attached (no '' @
        ''PythonSidecarHello, module or eval events), so nothing can be '' @
        ''attributed to modules or scopes. If the target is a Python/MLX '' @
        ''workload, install the `smeltr` package in ITS environment (`pip '' @
        ''install -e python/` from the smeltr repo) '' @ em_dash @
        '' `smeltr record` then auto-attaches it and enables module/scope '' @
        ''attribution, eval windows and `smeltr origins`. For pure Metal/C++ '' @
        ''targets this is expected.'')"

fun from_sidecar :: "payload \<Rightarrow> bool" where
  "from_sidecar (PythonSidecarHello _ _ _) = True"
| "from_sidecar (ModuleEntered _ _ _ _ _ _ _) = True"
| "from_sidecar (MlxEvalEntered _ _ _ _ _) = True"
| "from_sidecar _ = False"

fun is_cb_completed :: "payload \<Rightarrow> bool" where
  "is_cb_completed (MetalCbCompleted _ _ _ _ _ _) = True"
| "is_cb_completed _ = False"

fun sidecar_scan :: "u64 \<Rightarrow> (u64 \<times> u64) option \<Rightarrow> event list \<Rightarrow> sidecar_absent option" where
  "sidecar_scan n first [] =
     (case first of
        None \<Rightarrow> None
      | Some (sq, ts) \<Rightarrow> Some \<lparr>sa_metal_cb_count = n, sa_first_seq = sq, sa_first_ts = ts\<rparr>)"
| "sidecar_scan n first (ev # es) =
     (if from_sidecar (payload ev) then None
      else if is_cb_completed (payload ev) then
        sidecar_scan (n + 1) (Some (case first of Some f \<Rightarrow> f | None \<Rightarrow> (ev_seq ev, ts_mono_ns ev))) es
      else sidecar_scan n first es)"

definition sidecar_detect :: "event list \<Rightarrow> sidecar_absent option" where
  "sidecar_detect es = sidecar_scan 0 None es"

record nothing_instrumented =
  ni_event_count :: nat
  ni_has_proc_footprint :: bool

definition nothing_advice :: "nothing_instrumented \<Rightarrow> string" where
  "nothing_advice n =
     (let rest =
        (if ni_has_proc_footprint n
         then (''A process was genuinely followed (footprint samples are present), but '' @
        ''neither the Metal hook nor the Python sidecar produced any event: '' @
        ''launched with `--no-hook`, against a non-Metal target, or without the '' @
        ''`smeltr` package installed in the target's Python environment.'')
         else (''This is the expected shape of the ambient session the daemon opens at '' @
        ''every startup. To analyze a real run, record it with `smeltr record '' @
        ''-- <command>`, then target it with `--last` or with the name given '' @
        ''through SMELTR_SESSION_NAME.''))
      in (''This session holds '' @ digits (ni_event_count n) @
        '' event(s), all of them from system probes: no Metal capture and no '' @
        ''Python sidecar event. There is therefore nothing to break down by '' @
        ''scope or by module '' @ em_dash @
        '' the empty arrays mean \"nothing was instrumented\", not \"nothing to '' @
        ''report\". '' @ rest))"

fun is_proc_footprint :: "payload \<Rightarrow> bool" where
  "is_proc_footprint (ProcFootprint _ _ _ _ _) = True"
| "is_proc_footprint _ = False"

fun instrumented_scan :: "bool \<Rightarrow> event list \<Rightarrow> bool option" where
  "instrumented_scan fp [] = Some fp"
| "instrumented_scan fp (ev # es) =
     (if from_sidecar (payload ev) \<or> is_cb_completed (payload ev) then None
      else instrumented_scan (fp \<or> is_proc_footprint (payload ev)) es)"

definition detect_nothing_instrumented :: "event list \<Rightarrow> nothing_instrumented option" where
  "detect_nothing_instrumented es =
     (if es = [] then None
      else map_option (\<lambda>fp. \<lparr>ni_event_count = length es, ni_has_proc_footprint = fp\<rparr>)
             (instrumented_scan False es))"

definition NOTHING_INSTRUMENTED_TITLE :: string where
  "NOTHING_INSTRUMENTED_TITLE = ''No instrumented GPU workload in this session''"

definition sidecar_absent_rule :: "event list \<Rightarrow> finding list" where
  "sidecar_absent_rule es =
     (case detect_nothing_instrumented es of
        Some n \<Rightarrow> [with_detail (nothing_advice n) (finding_new Info ContributingFactor NOTHING_INSTRUMENTED_TITLE)]
      | None \<Rightarrow>
          (case sidecar_detect es of
             None \<Rightarrow> []
           | Some a \<Rightarrow>
               [with_evidence
                  (evidence (sa_first_seq a) (sa_first_ts a)
                    (''first of '' @ dec (sa_metal_cb_count a) @
        '' completed Metal CB(s) in a session with zero Python-sidecar events''))
                  (with_detail (sidecar_advice a)
                    (finding_new Info ContributingFactor
                      (''Python sidecar never attached: GPU time cannot be attributed to '' @
        ''modules/scopes'')))]))"

end
