(* ===== verification/CrashJoin.thy ===== *)
theory CrashJoin
  imports SessionDir Report
begin

text \<open>
  Which crash or jetsam report belongs to a session:
  \<open>crates/smeltr-probes-crash-reports/src/parse.rs\<close> and
  \<open>crates/smeltr-analyzer/src/crash_join.rs\<close>.  The deserializers that \<open>serde\<close> derives for the
  structs of \<open>parse.rs\<close> are parameters, as are the contents of the directories of reports.
\<close>

section \<open>Reading a report\<close>

record ips_exception =
  ix_ty :: "string option"
  ix_codes :: "string option"
  ix_signal :: "string option"
  ix_subtype :: "string option"

record ips_body =
  ib_pid :: "u32 option"
  ib_proc_name :: "string option"
  ib_exception :: "ips_exception option"
  ib_termination :: "string option option" \<comment> \<open>the signal of the termination\<close>

record jetsam_process =
  jp_pid :: "u32 option"
  jp_name :: "string option"
  jp_rpages :: "u64 option"
  jp_lifetime_max :: "u64 option"
  jp_reason :: "string option"
  jp_kill_delta :: "u64 option"

record jetsam_body =
  jb_page_size :: "u64 option" \<comment> \<open>of the memory status, when there is one\<close>
  jb_processes :: "jetsam_process list"

text \<open>The derived deserializers: the bug type of a header, the other header, and the bodies.\<close>

record ips_json =
  json_bug_type :: "string \<Rightarrow> string option option"
  json_header :: "string \<Rightarrow> bool"
  json_body :: "string \<Rightarrow> ips_body option"
  json_jetsam :: "string \<Rightarrow> jetsam_body option"

definition sat_mul :: "u64 \<Rightarrow> u64 \<Rightarrow> u64" where
  "sat_mul a b = (if unat a * unat b < 2 ^ 64 then a * b else - 1)"

definition is_victim :: "jetsam_process \<Rightarrow> bool" where
  "is_victim p \<longleftrightarrow> jp_reason p \<noteq> None \<or> jp_kill_delta p \<noteq> None"

definition unwrap_or :: "'a option \<Rightarrow> 'a \<Rightarrow> 'a" where
  "unwrap_or x d = (case x of None \<Rightarrow> d | Some v \<Rightarrow> v)"

definition parse_jetsam :: "ips_json \<Rightarrow> string \<Rightarrow> string \<Rightarrow> payload option" where
  "parse_jetsam js body_text path =
     (case json_jetsam js body_text of
        None \<Rightarrow> None
      | Some body \<Rightarrow>
          (let page = unwrap_or (jb_page_size body) 16384
           in case find is_victim (jb_processes body) of
                None \<Rightarrow> None
              | Some v \<Rightarrow>
                  Some (JetsamKill path (jp_pid v) (unwrap_or (jp_name v) [])
                    (sat_mul (unwrap_or (jp_rpages v) 0) page)
                    (sat_mul (unwrap_or (jp_lifetime_max v) 0) page) page (jp_reason v))))"

text \<open>The words of the subtype that are Metal error codes.\<close>

definition is_code_token :: "string \<Rightarrow> bool" where
  "is_code_token tok \<longleftrightarrow> starts_with tok ''kIOGPU'' \<or> starts_with tok ''(0x''"

definition subtype_codes :: "string \<Rightarrow> string list" where
  "subtype_codes s =
     map (trim_matches (\<lambda>c. c = CHR ''('' \<or> c = CHR '')'')) (filter is_code_token (split_whitespace s))"

definition exception_summary :: "ips_exception \<Rightarrow> string" where
  "exception_summary x =
     (let ty = unwrap_or (ix_ty x) []
      in case ix_subtype x of
           None \<Rightarrow> ty
         | Some s \<Rightarrow> ty @ (if ty = [] then [] else '': '') @ s)"

definition exception_codes :: "ips_exception \<Rightarrow> string list" where
  "exception_codes x =
     (case ix_subtype x of None \<Rightarrow> [] | Some s \<Rightarrow> subtype_codes s) @
     (case ix_codes x of None \<Rightarrow> [] | Some c \<Rightarrow> [c])"

definition parse_ips :: "ips_json \<Rightarrow> string \<Rightarrow> string \<Rightarrow> payload option" where
  "parse_ips js content path =
     (case split_once (CHR 0x0A) content of
        None \<Rightarrow> None
      | Some (header_line, body_text) \<Rightarrow>
          if json_bug_type js header_line = Some (Some ''298'') then parse_jetsam js body_text path
          else if \<not> json_header js header_line then None
          else
            (case json_body js body_text of
               None \<Rightarrow> None
             | Some body \<Rightarrow>
                 (let signal = (case Option.bind (ib_termination body) (\<lambda>s. s) of
                          Some s \<Rightarrow> Some s
                        | None \<Rightarrow> Option.bind (ib_exception body) ix_signal)
                  in Some (CrashReportEmitted path (ib_pid body) signal
                       (case ib_exception body of None \<Rightarrow> [] | Some x \<Rightarrow> exception_codes x)
                       (case ib_exception body of None \<Rightarrow> [] | Some x \<Rightarrow> exception_summary x)
                       (ib_proc_name body)))))"

section \<open>Searching the directories of reports\<close>

definition CRASH_REPORT_GRACE_NS :: u64 where "CRASH_REPORT_GRACE_NS = 120000000000"

text \<open>An entry of a directory: its path, modification time and text, when they can be read.\<close>

record report_entry =
  re_path :: string
  re_mtime :: "u64 option"
  re_content :: "string option"

record crash_join =
  cj_path :: string
  cj_pid :: u32
  cj_signal :: "string option"
  cj_summary :: string
  cj_codes :: "string list"

record jetsam_join =
  jj_path :: string
  jj_pid :: u32
  jj_name :: string
  jj_footprint :: u64
  jj_lifetime_max :: u64
  jj_reason :: "string option"

text \<open>The report of an entry written inside the window, with its time.\<close>

definition dated_report ::
  "ips_json \<Rightarrow> u64 \<Rightarrow> u64 \<Rightarrow> u64 \<Rightarrow> report_entry \<Rightarrow> (u64 \<times> payload) option" where
  "dated_report js wall_start wall_end grace e =
     (if path_extension (re_path e) \<noteq> Some ''ips'' then None
      else case re_mtime e of
             None \<Rightarrow> None
           | Some mtime \<Rightarrow>
               if mtime < wall_start \<or> sat_add wall_end grace < mtime then None
               else Option.bind (re_content e)
                      (\<lambda>content. map_option (\<lambda>p. (mtime, p)) (parse_ips js content (re_path e))))"

text \<open>The newest so far; an entry as old as it does not replace it.\<close>

definition newest_step :: "(u64 \<times> 'a) option \<Rightarrow> u64 \<times> 'a \<Rightarrow> (u64 \<times> 'a) option" where
  "newest_step best x =
     (case best of Some (t, y) \<Rightarrow> if fst x \<le> t then best else Some x | None \<Rightarrow> Some x)"

definition newest_report :: "(u64 \<times> 'a) list \<Rightarrow> 'a option" where
  "newest_report xs = map_option snd (foldl newest_step None xs)"

fun crash_of :: "u32 \<Rightarrow> payload \<Rightarrow> crash_join option" where
  "crash_of pid (CrashReportEmitted path crashed signal codes summary name) =
     (if crashed = Some pid
      then Some \<lparr>cj_path = path, cj_pid = pid, cj_signal = signal, cj_summary = summary, cj_codes = codes\<rparr>
      else None)"
| "crash_of pid _ = None"

definition crash_candidate ::
  "ips_json \<Rightarrow> u32 \<Rightarrow> u64 \<Rightarrow> u64 \<Rightarrow> u64 \<Rightarrow> report_entry \<Rightarrow> (u64 \<times> crash_join) option" where
  "crash_candidate js pid ws we grace e =
     Option.bind (dated_report js ws we grace e)
       (\<lambda>(mtime, p). map_option (\<lambda>j. (mtime, j)) (crash_of pid p))"

definition find_crash_report ::
  "ips_json \<Rightarrow> u32 \<Rightarrow> u64 \<Rightarrow> u64 \<Rightarrow> u64 \<Rightarrow> report_entry list option \<Rightarrow> crash_join option" where
  "find_crash_report js pid ws we grace dir =
     Option.bind dir (\<lambda>entries. newest_report (List.map_filter (crash_candidate js pid ws we grace) entries))"

text \<open>Two process names, either of which may have been cut.\<close>

definition names_compatible :: "string \<Rightarrow> string \<Rightarrow> bool" where
  "names_compatible a b \<longleftrightarrow>
     (let n = min (length a) (length b) in 0 < n \<and> take n a = take n b)"

fun jetsam_of :: "u32 list \<Rightarrow> string list \<Rightarrow> payload \<Rightarrow> jetsam_join option" where
  "jetsam_of pids known (JetsamKill path killed name fp lm page reason) =
     (case killed of
        None \<Rightarrow> None
      | Some pid \<Rightarrow>
          if pid \<notin> set pids then None
          else if known \<noteq> [] \<and> name \<noteq> [] \<and> \<not> list_ex (\<lambda>n. names_compatible n name) known then None
          else Some \<lparr>jj_path = path, jj_pid = pid, jj_name = name, jj_footprint = fp,
                     jj_lifetime_max = lm, jj_reason = reason\<rparr>)"
| "jetsam_of pids known _ = None"

definition jetsam_candidate ::
  "ips_json \<Rightarrow> u32 list \<Rightarrow> string list \<Rightarrow> u64 \<Rightarrow> u64 \<Rightarrow> u64 \<Rightarrow> report_entry \<Rightarrow> (u64 \<times> jetsam_join) option" where
  "jetsam_candidate js pids known ws we grace e =
     Option.bind (dated_report js ws we grace e)
       (\<lambda>(mtime, p). map_option (\<lambda>j. (mtime, j)) (jetsam_of pids known p))"

definition find_jetsam_report ::
  "ips_json \<Rightarrow> u32 list \<Rightarrow> string list \<Rightarrow> u64 \<Rightarrow> u64 \<Rightarrow> u64 \<Rightarrow> report_entry list option list \<Rightarrow>
   jetsam_join option" where
  "find_jetsam_report js pids known ws we grace dirs =
     newest_report (List.map_filter (jetsam_candidate js pids known ws we grace)
       (concat (map (\<lambda>d. unwrap_or d []) dirs)))"

section \<open>The findings\<close>

definition crash_finding :: "crash_join \<Rightarrow> finding" where
  "crash_finding j =
     (let title = (case cj_signal j of
            Some s \<Rightarrow> (''Recorded process crashed ('' @ s @ '')'') | None \<Rightarrow> ''Recorded process crashed'');
          summary = cj_summary j;
          codes = (if cj_codes j = [] then []
                   else (if summary = [] then [] else ('' '' @ em_dash @ '' '')) @ ''codes: '' @ join_with '', '' (cj_codes j));
          text = summary @ codes
      in with_detail (text @ (if text = [] then [] else newline @ ''    '') @ ''crash report: '' @ cj_path j)
           (finding_new Critical RootCause title))"

definition jetsam_reason :: "string option \<Rightarrow> string" where
  "jetsam_reason r =
     (case r of
        None \<Rightarrow> []
      | Some reason \<Rightarrow>
          if reason = ''per-process-limit''
          then ('' Reason: `per-process-limit` '' @ em_dash @
        '' the process exceeded ITS OWN limit, regardless of the state of the '' @
        ''rest of the machine.'')
          else if reason = ''vm-pageshortage''
          then ('' Reason: `vm-pageshortage` '' @ em_dash @
        '' the whole machine was short of memory; the run is not necessarily at '' @ ''fault.'')
          else ('' Reason as the kernel reports it: `'' @ reason @ ''`.''))"

definition jetsam_finding :: "jetsam_join \<Rightarrow> finding" where
  "jetsam_finding j =
     with_detail
       (''jetsam killed PID '' @ dec (jj_pid j) @ '' ('' @ jj_name j @
        '') at a footprint of '' @ gb2 (jj_footprint j) @ '' GB (lifetime maximum '' @
        gb2 (jj_lifetime_max j) @ '' GB).'' @ jetsam_reason (jj_reason j) @
        '' `phys_footprint` is what decides, not MTLDevice memory: a run can '' @
        ''fit within the GPU budget and still be killed. The process vanishes '' @
        ''with no traceback and no exception '' @ em_dash @
        '' this finding is the only trace of the decision.'' @ newline @ ''    report: '' @
        jj_path j)
       (finding_new Critical RootCause
         ''The kernel killed the recorded process under memory pressure (jetsam)'')"

section \<open>The session and its window\<close>

text \<open>
  What the joins read: the session's metadata, name of its directory, events, the modification
  time of its event file, the join kept by an earlier run, the directories of reports in order,
  whether a copy of a report and the kept join can be written, the path of the copy, and now.
\<close>

record crash_env =
  ce_meta :: "session_metadata option"
  ce_dir_name :: string
  ce_events :: "event list option"
  ce_written :: "u64 option"
  ce_kept :: "crash_join option"
  ce_reports :: "report_entry list option list"
  ce_copies :: "string \<Rightarrow> bool"
  ce_writes :: bool
  ce_copy_path :: string
  ce_now :: u64

type_synonym time_parser = "string \<Rightarrow> int option"

definition rfc3339_unix_ns :: "time_parser \<Rightarrow> string \<Rightarrow> u64 option" where
  "rfc3339_unix_ns parse s =
     Option.bind (parse s) (\<lambda>n. if 0 \<le> n \<and> n < 2 ^ 64 then Some (word_of_int n) else None)"

definition max_wall :: "event list \<Rightarrow> u64 option" where
  "max_wall es = (case map ts_wall_ns es of [] \<Rightarrow> None | t # ts \<Rightarrow> Some (fold max ts t))"

definition window_end_ns :: "time_parser \<Rightarrow> crash_env \<Rightarrow> session_metadata \<Rightarrow> event list \<Rightarrow> u64" where
  "window_end_ns parse env m es =
     (case Option.bind (sm_ended m) (rfc3339_unix_ns parse) of
        Some e \<Rightarrow> e
      | None \<Rightarrow> unwrap_or (max (ce_written env) (max_wall es)) (ce_now env))"

section \<open>The crash of a session\<close>

text \<open>\<open>keep_crash\<close>: the join, pointing at the copy when both the copy and the join could be written.\<close>

definition keep_crash :: "crash_env \<Rightarrow> crash_join \<Rightarrow> crash_join \<times> crash_env" where
  "keep_crash env j =
     (if ce_copies env (cj_path j) \<and> ce_writes env
      then (let kept = j\<lparr>cj_path := ce_copy_path env\<rparr> in (kept, env\<lparr>ce_kept := Some kept\<rparr>))
      else (j, env))"

fun find_map :: "('a \<Rightarrow> 'b option) \<Rightarrow> 'a list \<Rightarrow> 'b option" where
  "find_map f [] = None"
| "find_map f (x # xs) = (case f x of Some y \<Rightarrow> Some y | None \<Rightarrow> find_map f xs)"

definition session_crash ::
  "ips_json \<Rightarrow> time_parser \<Rightarrow> crash_env \<Rightarrow> crash_join option \<times> crash_env" where
  "session_crash js parse env =
     (case ce_meta env of
        None \<Rightarrow> (None, env)
      | Some m \<Rightarrow>
          (case sm_kind m of
             KindAmbient \<Rightarrow> (None, env)
           | KindScoped pid argv \<Rightarrow>
               if sm_exit_code m = Some 0 then (None, env)
               else
                 (case ce_kept env of
                    Some kept \<Rightarrow> (Some kept, env)
                  | None \<Rightarrow>
                      (case rfc3339_unix_ns parse (sm_started m) of
                         None \<Rightarrow> (None, env)
                       | Some start \<Rightarrow>
                           (let es = unwrap_or (ce_events env) [];
                                end_ns = window_end_ns parse env m es
                            in case find_map (find_crash_report js pid start end_ns CRASH_REPORT_GRACE_NS)
                                  (ce_reports env) of
                                 None \<Rightarrow> (None, env)
                               | Some j \<Rightarrow> (case keep_crash env j of (kept, env1) \<Rightarrow> (Some kept, env1)))))))"

text \<open>The crash a post-mortem was written for.\<close>

definition is_crash_post_mortem :: "crash_env \<Rightarrow> session_metadata \<Rightarrow> bool" where
  "is_crash_post_mortem env m =
     (case sm_post_mortem m of
        Some t \<Rightarrow> pt_reason t = ''crash-report''
      | None \<Rightarrow> starts_with (ce_dir_name env) ''post-mortem-crash-report-'')"

fun wanted_report :: "string option \<Rightarrow> payload \<Rightarrow> bool" where
  "wanted_report wanted (CrashReportEmitted path pid signal codes summary name) =
     (case wanted of None \<Rightarrow> True | Some w \<Rightarrow> w = path)"
| "wanted_report wanted _ = False"

fun post_mortem_finding :: "payload \<Rightarrow> finding" where
  "post_mortem_finding (CrashReportEmitted path pid signal codes summary name) =
     (let who = unwrap_or name ''A process'';
          sig = (case signal of None \<Rightarrow> [] | Some s \<Rightarrow> ('' ('' @ s @ '')''))
      in with_detail
           ((case pid of None \<Rightarrow> [] | Some p \<Rightarrow> (''pid '' @ dec p @ ''. '')) @
            (if summary = [] then [] else (summary @ ''. '')) @
            (if codes = [] then [] else (''exception codes: '' @ join_with '', '' codes @ ''. '')) @
            (''crash report: '' @ path))
           (finding_new Critical RootCause (who @ '' crashed'' @ sig @ '': the crash this post-mortem was written for'')))"
| "post_mortem_finding _ = finding_new Critical RootCause []"

definition post_mortem_crash :: "crash_env \<Rightarrow> finding option" where
  "post_mortem_crash env =
     (case ce_meta env of
        None \<Rightarrow> None
      | Some m \<Rightarrow>
          if \<not> is_crash_post_mortem env m then None
          else
            (let wanted = Option.bind (sm_post_mortem m) pt_crash_report
             in Option.bind (ce_events env)
                  (\<lambda>es. map_option post_mortem_finding
                     (find (wanted_report wanted) (rev (map payload es))))))"

definition join_crash :: "ips_json \<Rightarrow> time_parser \<Rightarrow> crash_env \<Rightarrow> report \<Rightarrow> report \<times> crash_env" where
  "join_crash js parse env r =
     (case session_crash js parse env of
        (Some j, env1) \<Rightarrow> (r\<lparr>rp_findings := crash_finding j # rp_findings r\<rparr>, env1)
      | (None, env1) \<Rightarrow>
          (case post_mortem_crash env1 of
             Some f \<Rightarrow> (r\<lparr>rp_findings := f # rp_findings r\<rparr>, env1)
           | None \<Rightarrow> (r, env1)))"

section \<open>Presumed memory death\<close>

definition RISE_FACTOR :: f64 where "RISE_FACTOR = 2"

fun root_footprint :: "payload \<Rightarrow> u64 option" where
  "root_footprint (ProcFootprint pid name phys lifetime traced_root) = (if traced_root then Some phys else None)"
| "root_footprint _ = None"

definition footprint_samples :: "event list \<Rightarrow> (event \<times> u64) list" where
  "footprint_samples es =
     List.map_filter (\<lambda>ev. map_option (\<lambda>n. (ev, n)) (root_footprint (payload ev))) es"

definition ended_abnormally :: "session_metadata \<Rightarrow> bool" where
  "ended_abnormally m =
     (case sm_exit_code m of Some c \<Rightarrow> c = - 1 | None \<Rightarrow> sm_ended m \<noteq> None)"

definition presumption :: "event \<times> u64 \<Rightarrow> event \<times> u64 \<Rightarrow> finding" where
  "presumption a b =
     with_evidence
       (evidence (ev_seq (fst b)) (ts_mono_ns (fst b)) (''last footprint '' @ gb2 (snd b) @ '' GB''))
       (with_evidence
         (evidence (ev_seq (fst a)) (ts_mono_ns (fst a)) (''initial footprint '' @ gb2 (snd a) @ '' GB''))
         (with_detail
           (''The traced process's footprint went from '' @ gb2 (snd a) @ '' to '' @ gb2 (snd b) @
        '' GB, and the session did not end cleanly, with no jetsam report '' @
        ''joinable. A memory-pressure death is possible: the process then '' @
        ''vanishes with no traceback and no exception. Check '' @
        ''/Library/Logs/DiagnosticReports for a JetsamEvent-*.ips later than '' @
        ''the session '' @ em_dash @
        '' it can be written after the fact. This is a presumption, not a '' @ ''verdict.'')
           (finding_new Warning ContributingFactor
             ''Memory footprint was rising and the session ended abnormally'')))"

definition presume_memory_death :: "session_metadata \<Rightarrow> event list \<Rightarrow> report \<Rightarrow> finding option" where
  "presume_memory_death m es r =
     (if sm_term_signal m = Some 2 \<or> sm_term_signal m = Some 15 then None
      else if \<not> ended_abnormally m then None
      else if root_cause r \<noteq> None then None
      else
        (case footprint_samples es of
           [] \<Rightarrow> None
         | a # rest \<Rightarrow>
             (let b = last (a # rest)
              in if snd a = 0 \<or> f64_of_u64 (snd b) < f64_mul (f64_of_u64 (snd a)) RISE_FACTOR then None
                 else Some (presumption a b))))"

section \<open>The jetsam join\<close>

text \<open>The candidate pids and names: the session's own and those of the footprint samples.\<close>

definition push_new :: "'a \<Rightarrow> 'a list \<Rightarrow> 'a list" where
  "push_new x xs = (if x \<in> set xs then xs else xs @ [x])"

definition candidate_step :: "u32 list \<times> string list \<Rightarrow> event \<Rightarrow> u32 list \<times> string list" where
  "candidate_step st ev =
     (case payload ev of
        ProcFootprint pid name phys lifetime traced_root \<Rightarrow>
          (push_new pid (fst st), if name = [] then snd st else push_new name (snd st))
      | _ \<Rightarrow> st)"

definition argv_names :: "string list \<Rightarrow> string list" where
  "argv_names argv =
     (case argv of [] \<Rightarrow> [] | a # _ \<Rightarrow> if basename a = [] then [] else [basename a])"

definition join_jetsam :: "ips_json \<Rightarrow> time_parser \<Rightarrow> crash_env \<Rightarrow> report \<Rightarrow> report" where
  "join_jetsam js parse env r =
     (case ce_meta env of
        None \<Rightarrow> r
      | Some m \<Rightarrow>
          (case sm_kind m of
             KindAmbient \<Rightarrow> r
           | KindScoped pid argv \<Rightarrow>
               (case rfc3339_unix_ns parse (sm_started m) of
                  None \<Rightarrow> r
                | Some start \<Rightarrow>
                    (let es = unwrap_or (ce_events env) [];
                         end_ns = window_end_ns parse env m es
                     in case foldl candidate_step ([pid], argv_names argv) es of
                          (pids, known) \<Rightarrow>
                            (case find_jetsam_report js pids known start end_ns CRASH_REPORT_GRACE_NS
                                    (ce_reports env) of
                               Some j \<Rightarrow> r\<lparr>rp_findings := jetsam_finding j # rp_findings r\<rparr>
                             | None \<Rightarrow>
                                 (case presume_memory_death m es r of
                                    Some f \<Rightarrow> r\<lparr>rp_findings := rp_findings r @ [f]\<rparr>
                                  | None \<Rightarrow> r))))))"

end
