(* ===== verification/Analyze.thy ===== *)
theory Analyze
  imports RulesGpu RulesMem RulesCapture CrashJoin
begin

text \<open>
  The analyzer: all rules over the events of a session, then the joins with the crash and jetsam
  reports, \<open>crates/smeltr-analyzer/src/rule.rs\<close> and \<open>lib.rs\<close>.
\<close>

definition all_rules :: "(event list \<Rightarrow> finding list) list" where
  "all_rules =
     [metal_error_rule, queue_depth_rule, queue_pressure_rule, mlx_timing_rule,
      mlx_cache_growth_rule, memory_pressure_rule, system_pressure_rule,
      duplicate_model_load_rule, unread_model_tensors_rule, hook_degradation_rule,
      lazy_eval_rule, sidecar_absent_rule]"

definition analyze :: "event list \<Rightarrow> report" where
  "analyze es =
     \<lparr>rp_findings = concat (map (\<lambda>rule. rule es) all_rules),
      rp_session_short = (case es of [] \<Rightarrow> None | e # _ \<Rightarrow> Some (short (ev_session_id e))),
      rp_event_count = length es\<rparr>"

definition analyze_session ::
  "ips_json \<Rightarrow> time_parser \<Rightarrow> crash_env \<Rightarrow> event list \<Rightarrow> report \<times> crash_env" where
  "analyze_session js parse env es =
     (let r = analyze es;
          r1 = (case ce_meta env of
                  None \<Rightarrow> r | Some m \<Rightarrow> r\<lparr>rp_session_short := Some (short (sm_session_id m))\<rparr>)
      in case join_crash js parse env r1 of (r2, env1) \<Rightarrow> (join_jetsam js parse env1 r2, env1))"

definition INCOMPLETE_DATA_TITLE :: string where
  "INCOMPLETE_DATA_TITLE = ''Session data is incomplete''"

text \<open>The problems of a damaged file, as the reader words them.\<close>

definition damage_finding :: "nat \<Rightarrow> string list \<Rightarrow> finding" where
  "damage_finding n problems =
     with_detail
       (join_with ''; '' problems @
        ''. Findings based on the absence of an event (no GPU work, no sidecar, '' @
        ''no crash) may be wrong.'')
       (finding_new Warning ContributingFactor
         (INCOMPLETE_DATA_TITLE @ '': this report covers only the '' @ digits n @
        '' event(s) that could be read''))"

definition analyze_session_checked ::
  "ips_json \<Rightarrow> time_parser \<Rightarrow> crash_env \<Rightarrow> event list \<Rightarrow> string list option \<Rightarrow> report \<times> crash_env" where
  "analyze_session_checked js parse env es damage =
     (case analyze_session js parse env es of
        (r, env1) \<Rightarrow>
          (case damage of
             None \<Rightarrow> (r, env1)
           | Some problems \<Rightarrow>
               (r\<lparr>rp_findings := damage_finding (length es) problems #
                    filter (\<lambda>f. fi_title f \<noteq> NOTHING_INSTRUMENTED_TITLE) (rp_findings r)\<rparr>, env1)))"

end
