(* ===== verification/CrashFacts.thy ===== *)
theory CrashFacts
  imports Analyze
begin

text \<open>What the joins with crash and jetsam reports guarantee.\<close>

section \<open>The newest candidate\<close>

lemma newest_steps:
  "\<exists>best. foldl newest_step b xs = best \<and> (best = None \<longleftrightarrow> b = None \<and> xs = []) \<and>
     (\<forall>x. best = Some x \<longrightarrow> (b = Some x \<or> x \<in> set xs) \<and>
        (\<forall>y \<in> set xs. fst y \<le> fst x) \<and> (\<forall>y. b = Some y \<longrightarrow> fst y \<le> fst x))"
proof (induction xs arbitrary: b)
  case Nil
  then show ?case by simp
next
  case (Cons x xs)
  let ?b = "newest_step b x"
  have step: "\<exists>z. ?b = Some z \<and> (z = x \<or> b = Some z) \<and> fst x \<le> fst z \<and> (\<forall>y. b = Some y \<longrightarrow> fst y \<le> fst z)"
    by (cases b; cases x) (auto simp: newest_step_def)
  then obtain z where z: "?b = Some z" "z = x \<or> b = Some z" "fst x \<le> fst z"
    "\<forall>y. b = Some y \<longrightarrow> fst y \<le> fst z" by blast
  from Cons.IH [of ?b] obtain best where best: "foldl newest_step ?b xs = best" "best \<noteq> None"
    "\<forall>w. best = Some w \<longrightarrow> (?b = Some w \<or> w \<in> set xs) \<and> (\<forall>y \<in> set xs. fst y \<le> fst w) \<and>
      (\<forall>y. ?b = Some y \<longrightarrow> fst y \<le> fst w)" unfolding z(1) by auto
  have "(b = Some w \<or> w \<in> set (x # xs)) \<and> (\<forall>y \<in> set (x # xs). fst y \<le> fst w) \<and>
      (\<forall>y. b = Some y \<longrightarrow> fst y \<le> fst w)" if "best = Some w" for w
  proof -
    from best(3) that z(1) have w: "w = z \<or> w \<in> set xs" "\<forall>y \<in> set xs. fst y \<le> fst w" "fst z \<le> fst w"
      by auto
    have "b = Some w \<or> w \<in> set (x # xs)" using w(1) z(2) by auto
    moreover have "\<forall>y \<in> set (x # xs). fst y \<le> fst w"
      using w(2) order_trans [OF z(3) w(3)] by simp
    moreover have "\<forall>y. b = Some y \<longrightarrow> fst y \<le> fst w"
      using z(4) order_trans [OF _ w(3)] by blast
    ultimately show ?thesis by blast
  qed
  with best(1,2) show ?case by (intro exI [of _ best]) simp
qed

lemma newest_None: "newest_report xs = None \<longleftrightarrow> xs = []"
  using newest_steps [of None xs] by (auto simp: newest_report_def)

lemma newest_Some: "newest_report xs = Some j \<Longrightarrow> \<exists>t. (t, j) \<in> set xs \<and> (\<forall>y \<in> set xs. fst y \<le> t)"
  using newest_steps [of None xs] by (fastforce simp: newest_report_def)

lemma in_map_filter: "y \<in> set (List.map_filter f xs) \<longleftrightarrow> (\<exists>x \<in> set xs. f x = Some y)"
  by (induction xs) (auto simp: List.map_filter_simps split: option.splits)

lemma map_filter_Nil: "List.map_filter f xs = [] \<longleftrightarrow> (\<forall>x \<in> set xs. f x = None)"
  by (induction xs) (auto simp: List.map_filter_simps split: option.splits)

section \<open>Jetsam reports\<close>

text \<open>The entries of all readable directories.\<close>

definition all_entries :: "report_entry list option list \<Rightarrow> report_entry set" where
  "all_entries dirs = (\<Union>d \<in> set dirs. set (unwrap_or d []))"

lemma dated_report_window:
  assumes "dated_report js ws we grace e = Some (t, p)"
  shows "re_mtime e = Some t" and "ws \<le> t" and "t \<le> sat_add we grace"
    and "path_extension (re_path e) = Some ''ips''"
  using assms by (auto simp: dated_report_def not_less split: if_splits option.splits bind_splits)

lemma jetsam_of_Some:
  assumes "jetsam_of pids known p = Some j"
  shows "jj_pid j \<in> set pids"
    and "known = [] \<or> jj_name j = [] \<or> list_ex (\<lambda>n. names_compatible n (jj_name j)) known"
  using assms by (cases p; auto split: option.splits if_splits)+

text \<open>
  A jetsam report is joined to a session exactly when some readable \<open>.ips\<close> file of the report
  directories is a candidate; the join is the most recently written candidate, it was written
  inside the session's window (with its grace), names one of the session's pids, and bears one
  of its process names when both sides give one.
\<close>
theorem jetsam_join_newest:
  "(find_jetsam_report js pids known ws we grace dirs = None \<longleftrightarrow>
     (\<forall>e \<in> all_entries dirs. jetsam_candidate js pids known ws we grace e = None)) \<and>
   (\<forall>j. find_jetsam_report js pids known ws we grace dirs = Some j \<longrightarrow>
     (\<exists>e \<in> all_entries dirs. \<exists>t. jetsam_candidate js pids known ws we grace e = Some (t, j) \<and>
        re_mtime e = Some t \<and> ws \<le> t \<and> t \<le> sat_add we grace \<and> jj_pid j \<in> set pids \<and>
        (known = [] \<or> jj_name j = [] \<or> list_ex (\<lambda>n. names_compatible n (jj_name j)) known) \<and>
        (\<forall>e' \<in> all_entries dirs. \<forall>t' j'.
           jetsam_candidate js pids known ws we grace e' = Some (t', j') \<longrightarrow> t' \<le> t)))"
proof -
  let ?c = "jetsam_candidate js pids known ws we grace"
  let ?es = "concat (map (\<lambda>d. unwrap_or d []) dirs)"
  have all: "all_entries dirs = set ?es" by (auto simp: all_entries_def)
  have none: "find_jetsam_report js pids known ws we grace dirs = None \<longleftrightarrow> (\<forall>e \<in> set ?es. ?c e = None)"
    by (simp only: find_jetsam_report_def newest_None map_filter_Nil)
  have some: "\<exists>e \<in> set ?es. \<exists>t. ?c e = Some (t, j) \<and> re_mtime e = Some t \<and> ws \<le> t \<and> t \<le> sat_add we grace \<and>
        jj_pid j \<in> set pids \<and>
        (known = [] \<or> jj_name j = [] \<or> list_ex (\<lambda>n. names_compatible n (jj_name j)) known) \<and>
        (\<forall>e' \<in> set ?es. \<forall>t' j'. ?c e' = Some (t', j') \<longrightarrow> t' \<le> t)"
    if j: "find_jetsam_report js pids known ws we grace dirs = Some j" for j
  proof -
    from newest_Some [OF j [unfolded find_jetsam_report_def]] obtain t e where
      e: "e \<in> set ?es" "?c e = Some (t, j)" and
      best: "\<forall>y \<in> set (List.map_filter ?c ?es). fst y \<le> t" unfolding in_map_filter by blast
    from e(2) obtain p where "dated_report js ws we grace e = Some (t, p)" "jetsam_of pids known p = Some j"
      by (auto simp: jetsam_candidate_def split: bind_splits)
    note found = dated_report_window [OF this(1)] jetsam_of_Some [OF this(2)]
    have "t' \<le> t" if "e' \<in> set ?es" and "?c e' = Some (t', j')" for e' t' j'
    proof -
      have "(t', j') \<in> set (List.map_filter ?c ?es)" unfolding in_map_filter using that by blast
      with best show ?thesis by fastforce
    qed
    with found e show ?thesis by (intro bexI [OF _ e(1)] exI [of _ t] conjI) blast+
  qed
  show ?thesis unfolding all using none some by blast
qed

definition one_report :: report_entry where
  "one_report = \<lparr>re_path = ''/r/JetsamEvent.ips'', re_mtime = Some 50, re_content = Some ''h'' \<rparr>"

definition one_json :: ips_json where
  "one_json = \<lparr>json_bug_type = (\<lambda>_. Some (Some ''298'')), json_header = (\<lambda>_. True), json_body = (\<lambda>_. None),
     json_jetsam = (\<lambda>_. Some \<lparr>jb_page_size = None, jb_processes =
       [\<lparr>jp_pid = Some 7, jp_name = Some ''python'', jp_rpages = Some 2, jp_lifetime_max = Some 3,
         jp_reason = Some ''per-process-limit'', jp_kill_delta = None\<rparr>]\<rparr>)\<rparr>"

definition jetsam_report :: report_entry where
  "jetsam_report = one_report\<lparr>re_content := Some (''h'' @ newline @ ''b'')\<rparr>"

lemma one_candidate:
  "jetsam_candidate one_json [7] [''python3''] 10 40 20 jetsam_report =
     Some (50, \<lparr>jj_path = ''/r/JetsamEvent.ips'', jj_pid = 7, jj_name = ''python'', jj_footprint = 32768,
       jj_lifetime_max = 49152, jj_reason = Some ''per-process-limit''\<rparr>)"
  by (simp add: jetsam_candidate_def dated_report_def jetsam_report_def one_report_def one_json_def
      path_extension_def file_name_def Let_def sat_add_def parse_ips_def newline_def
      parse_jetsam_def unwrap_or_def is_victim_def sat_mul_def names_compatible_def word_less_nat_alt)

lemma jetsam_join_newest_witness:
  "\<exists>j. find_jetsam_report one_json [7] [''python3''] 10 40 20 [None, Some [jetsam_report]] = Some j \<and>
     jj_pid j = 7"
proof -
  have entries: "all_entries [None, Some [jetsam_report]] = {jetsam_report}"
    by (simp add: all_entries_def unwrap_or_def)
  note spec = jetsam_join_newest [of one_json "[7]" "[''python3'']" 10 40 20 "[None, Some [jetsam_report]]",
      unfolded entries]
  from spec one_candidate obtain j where
    "find_jetsam_report one_json [7] [''python3''] 10 40 20 [None, Some [jetsam_report]] = Some j" by auto
  with spec show ?thesis by auto
qed

section \<open>Verdicts\<close>

text \<open>The jetsam kill that \<open>join_jetsam\<close> joins, if any.\<close>

definition jetsam_verdict :: "ips_json \<Rightarrow> time_parser \<Rightarrow> crash_env \<Rightarrow> jetsam_join option" where
  "jetsam_verdict js parse env =
     (case ce_meta env of
        Some m \<Rightarrow>
          (case (sm_kind m, rfc3339_unix_ns parse (sm_started m)) of
             (KindScoped pid argv, Some start) \<Rightarrow>
               (let es = unwrap_or (ce_events env) [];
                    st = foldl candidate_step ([pid], argv_names argv) es
                in find_jetsam_report js (fst st) (snd st) start (window_end_ns parse env m es)
                     CRASH_REPORT_GRACE_NS (ce_reports env))
           | _ \<Rightarrow> None)
      | None \<Rightarrow> None)"

lemma join_jetsam_cases:
  "join_jetsam js parse env r =
     (case jetsam_verdict js parse env of
        Some j \<Rightarrow> r\<lparr>rp_findings := jetsam_finding j # rp_findings r\<rparr>
      | None \<Rightarrow>
          (case ce_meta env of
             Some m \<Rightarrow>
               (if sm_kind m = KindAmbient \<or> rfc3339_unix_ns parse (sm_started m) = None then r
                else case presume_memory_death m (unwrap_or (ce_events env) []) r of
                       Some f \<Rightarrow> r\<lparr>rp_findings := rp_findings r @ [f]\<rparr> | None \<Rightarrow> r)
           | None \<Rightarrow> r))"
  by (auto simp: join_jetsam_def jetsam_verdict_def Let_def
      split: option.splits session_kind.splits prod.splits)

lemma root_cause_front [simp]:
  "fi_category f = RootCause \<Longrightarrow> root_cause (r\<lparr>rp_findings := f # fs\<rparr>) = Some f"
  by (simp add: root_cause_def)

lemma find_snoc: "\<not> P f \<Longrightarrow> find P (xs @ [f]) = find P xs"
  by (induction xs) simp_all

lemma root_cause_back:
  "fi_category f \<noteq> RootCause \<Longrightarrow> root_cause (r\<lparr>rp_findings := rp_findings r @ [f]\<rparr>) = root_cause r"
  by (simp add: root_cause_def find_snoc)

lemma finding_categories [simp]:
  "fi_category (jetsam_finding j) = RootCause" "fi_category (crash_finding c) = RootCause"
  "fi_category (presumption a b) = ContributingFactor"
  by (simp_all add: jetsam_finding_def crash_finding_def presumption_def Let_def)

lemma post_mortem_category [simp]: "fi_category (post_mortem_finding p) = RootCause"
  by (cases p) (simp_all add: Let_def)

lemma presume_Some:
  assumes "presume_memory_death m es r = Some f"
  shows "root_cause r = None" and "ended_abnormally m"
    and "sm_term_signal m \<noteq> Some 2" and "sm_term_signal m \<noteq> Some 15"
    and "\<exists>a b rest. footprint_samples es = a # rest \<and> b = last (a # rest) \<and> f = presumption a b \<and>
      snd a \<noteq> 0 \<and> f64_mul (f64_of_u64 (snd a)) RISE_FACTOR \<le> f64_of_u64 (snd b)"
proof -
  show "root_cause r = None" and "ended_abnormally m" and "sm_term_signal m \<noteq> Some 2"
    and "sm_term_signal m \<noteq> Some 15"
    using assms by (auto simp: presume_memory_death_def split: if_splits)
  show "\<exists>a b rest. footprint_samples es = a # rest \<and> b = last (a # rest) \<and> f = presumption a b \<and>
      snd a \<noteq> 0 \<and> f64_mul (f64_of_u64 (snd a)) RISE_FACTOR \<le> f64_of_u64 (snd b)"
    using assms
    by (cases "footprint_samples es")
      (auto simp: presume_memory_death_def Let_def not_less split: if_splits)
qed

lemma window_end_kept [simp]: "window_end_ns parse (env\<lparr>ce_kept := k\<rparr>) m es = window_end_ns parse env m es"
  by (auto simp: window_end_ns_def split: option.splits)

lemma jetsam_verdict_kept [simp]: "jetsam_verdict js parse (env\<lparr>ce_kept := k\<rparr>) = jetsam_verdict js parse env"
  by (auto simp: jetsam_verdict_def Let_def split: option.splits session_kind.splits)

lemma session_crash_env:
  "session_crash js parse env = (c, env1) \<Longrightarrow> \<exists>k. env1 = env\<lparr>ce_kept := k\<rparr>"
  by (auto simp: session_crash_def keep_crash_def Let_def
      split: option.splits session_kind.splits if_splits prod.splits intro: exI [of _ "ce_kept env"])

text \<open>
  C25. Which verdict a report opens with: a joined jetsam kill outranks everything, then a joined
  crash, then the crash a post-mortem was written for; without any of them the root cause is the
  one the rules found, if they did.
\<close>
theorem verdict_precedence:
  assumes "analyze_session js parse env es = (r, env1)"
  shows "root_cause r =
    (case jetsam_verdict js parse env of
       Some j \<Rightarrow> Some (jetsam_finding j)
     | None \<Rightarrow>
         (case fst (session_crash js parse env) of
            Some c \<Rightarrow> Some (crash_finding c)
          | None \<Rightarrow>
              (case post_mortem_crash env1 of Some f \<Rightarrow> Some f | None \<Rightarrow> root_cause (analyze es))))"
proof -
  obtain c env' where c: "session_crash js parse env = (c, env')" by (cases "session_crash js parse env")
  from session_crash_env [OF c] obtain k where k: "env' = env\<lparr>ce_kept := k\<rparr>" ..
  define r1 where "r1 = (case ce_meta env of None \<Rightarrow> analyze es
    | Some m \<Rightarrow> (analyze es)\<lparr>rp_session_short := Some (short (sm_session_id m))\<rparr>)"
  have r1: "root_cause r1 = root_cause (analyze es)" "rp_findings r1 = rp_findings (analyze es)"
    by (simp_all add: r1_def root_cause_def split: option.splits)
  obtain r2 where j: "join_crash js parse env r1 = (r2, env')" and
    r2: "root_cause r2 = (case c of Some c \<Rightarrow> Some (crash_finding c) | None \<Rightarrow>
      (case post_mortem_crash env' of Some f \<Rightarrow> Some f | None \<Rightarrow> root_cause (analyze es)))"
  proof -
    have pm: "fi_category f = RootCause" if "post_mortem_crash env' = Some f" for f
      using that by (auto simp: post_mortem_crash_def Let_def split: option.splits if_splits bind_splits)
    show thesis
      by (rule that [of "fst (join_crash js parse env r1)"])
        (use pm r1 in \<open>simp_all add: join_crash_def c split: option.splits\<close>)
  qed
  from assms have r: "r = join_jetsam js parse env' r2" and e: "env1 = env'"
    by (auto simp: analyze_session_def Let_def r1_def [symmetric] j)
  have "root_cause (r2\<lparr>rp_findings := rp_findings r2 @ [f]\<rparr>) = root_cause r2"
    if "presume_memory_death m ev r2 = Some f" for m ev f
    using presume_Some(5) [OF that] by (auto intro!: root_cause_back)
  then have "root_cause r = (case jetsam_verdict js parse env' of Some j \<Rightarrow> Some (jetsam_finding j)
      | None \<Rightarrow> root_cause r2)"
    unfolding r join_jetsam_cases by (auto split: option.splits)
  then show ?thesis unfolding e by (simp add: k r2 c split: option.splits)
qed

definition no_env :: crash_env where
  "no_env = \<lparr>ce_meta = Some \<lparr>sm_session_id = 0, sm_started = ''t'', sm_ended = None, sm_exit_code = Some (- 1),
       sm_kind = KindScoped 7 [''python''], sm_name = None, sm_term_signal = Some 9, sm_post_mortem = None\<rparr>,
     ce_dir_name = ''d'', ce_events = Some [], ce_written = Some 40, ce_kept = None,
     ce_reports = [Some [jetsam_report]], ce_copies = (\<lambda>_. True), ce_writes = True,
     ce_copy_path = ''/s/crash-report.ips'', ce_now = 90\<rparr>"

lemma verdict_precedence_witness:
  "\<exists>j. root_cause (fst (analyze_session one_json (\<lambda>_. Some 10) no_env [])) = Some (jetsam_finding j)"
proof -
  obtain r env1 where a: "analyze_session one_json (\<lambda>_. Some 10) no_env [] = (r, env1)"
    by (cases "analyze_session one_json (\<lambda>_. Some 10) no_env []")
  have "\<exists>j. jetsam_verdict one_json (\<lambda>_. Some 10) no_env = Some j"
  proof -
    have "max_wall [] = None" by (simp add: max_wall_def)
    then have "window_end_ns (\<lambda>_. Some 10) no_env (the (ce_meta no_env)) [] = 40"
      by (simp add: window_end_ns_def no_env_def unwrap_or_def max_def)
    moreover have "jetsam_candidate one_json [7] [''python''] 10 40 CRASH_REPORT_GRACE_NS jetsam_report \<noteq> None"
      by (simp add: jetsam_candidate_def dated_report_def jetsam_report_def one_report_def one_json_def
          path_extension_def file_name_def Let_def sat_add_def parse_ips_def newline_def
          parse_jetsam_def unwrap_or_def is_victim_def sat_mul_def names_compatible_def word_less_nat_alt
          CRASH_REPORT_GRACE_NS_def)
    then have "List.map_filter (jetsam_candidate one_json [7] [''python''] 10 40 CRASH_REPORT_GRACE_NS)
        [jetsam_report] \<noteq> []" unfolding map_filter_Nil by auto
    then have "\<exists>j. find_jetsam_report one_json [7] [''python''] 10 40 CRASH_REPORT_GRACE_NS
        [Some [jetsam_report]] = Some j"
      using newest_None by (simp add: find_jetsam_report_def unwrap_or_def) blast
    ultimately show ?thesis
      by (simp add: jetsam_verdict_def no_env_def unwrap_or_def rfc3339_unix_ns_def argv_names_def
          basename_def file_name_def Let_def)
  qed
  with verdict_precedence [OF a] a show ?thesis by auto
qed

text \<open>
  A death by memory pressure is only ever presumed for want of a verdict: \<open>join_jetsam\<close> changes
  a report by putting a joined kill in front, or by appending the presumption, and the latter
  only when no kill was joined, the report has no root cause, the session ended abnormally and
  not by an interrupt or a termination request, and the footprint of the traced process at
  least doubled.
\<close>
theorem presumption_is_last_resort:
  "rp_findings (join_jetsam js parse env r) = rp_findings r \<or>
   (\<exists>j. jetsam_verdict js parse env = Some j \<and>
      rp_findings (join_jetsam js parse env r) = jetsam_finding j # rp_findings r) \<or>
   (\<exists>m a b. ce_meta env = Some m \<and> jetsam_verdict js parse env = None \<and> root_cause r = None \<and>
      (sm_exit_code m = Some (- 1) \<or> sm_exit_code m = None \<and> sm_ended m \<noteq> None) \<and>
      sm_term_signal m \<noteq> Some 2 \<and> sm_term_signal m \<noteq> Some 15 \<and>
      f64_mul (f64_of_u64 (snd a)) RISE_FACTOR \<le> f64_of_u64 (snd b) \<and>
      rp_findings (join_jetsam js parse env r) = rp_findings r @ [presumption a b])"
proof (cases "jetsam_verdict js parse env")
  case (Some j)
  then show ?thesis by (simp add: join_jetsam_cases)
next
  case None
  note none = None
  show ?thesis
  proof (cases "rp_findings (join_jetsam js parse env r) = rp_findings r")
    case False
    with none obtain m f where m: "ce_meta env = Some m"
      "presume_memory_death m (unwrap_or (ce_events env) []) r = Some f"
      "rp_findings (join_jetsam js parse env r) = rp_findings r @ [f]"
      by (auto simp: join_jetsam_cases split: option.splits if_splits)
    have "sm_exit_code m = Some (- 1) \<or> sm_exit_code m = None \<and> sm_ended m \<noteq> None"
      using presume_Some(2) [OF m(2)] by (auto simp: ended_abnormally_def split: option.splits)
    with presume_Some [OF m(2)] m none show ?thesis by blast
  qed simp
qed

text \<open>
  A crash verdict survives the purge of the reports: once the report of a crashed session was
  joined and could be copied next to it, every later analysis gives the same verdict, whatever
  the report directories and the clock say then.
\<close>
theorem crash_verdict_survives_purge:
  assumes "session_crash js parse env = (Some j, env1)"
    and "\<And>path. ce_copies env path" and "ce_writes env"
  shows "session_crash js' parse' (env1\<lparr>ce_reports := reports', ce_now := now'\<rparr>) =
    (Some j, env1\<lparr>ce_reports := reports', ce_now := now'\<rparr>)"
  using assms
  by (auto simp: session_crash_def keep_crash_def Let_def
      split: option.splits session_kind.splits if_splits prod.splits)

definition crash_json :: ips_json where
  "crash_json = one_json\<lparr>json_bug_type := (\<lambda>_. None),
     json_body := (\<lambda>_. Some \<lparr>ib_pid = Some 7, ib_proc_name = None, ib_exception = None, ib_termination = None\<rparr>)\<rparr>"

lemma crash_verdict_survives_purge_witness:
  "\<exists>j env1. session_crash crash_json (\<lambda>_. Some 10) no_env = (Some j, env1) \<and>
     session_crash one_json (\<lambda>_. None) (env1\<lparr>ce_reports := [], ce_now := 0\<rparr>) =
       (Some j, env1\<lparr>ce_reports := [], ce_now := 0\<rparr>)"
proof -
  have "max_wall [] = None" by (simp add: max_wall_def)
  then have "window_end_ns (\<lambda>_. Some 10) no_env (the (ce_meta no_env)) [] = 40"
    by (simp add: window_end_ns_def no_env_def unwrap_or_def max_def)
  moreover have "\<exists>j. find_crash_report crash_json 7 10 40 CRASH_REPORT_GRACE_NS (Some [jetsam_report]) = Some j"
    by (simp add: find_crash_report_def newest_report_def newest_step_def crash_candidate_def dated_report_def
        jetsam_report_def one_report_def crash_json_def one_json_def path_extension_def file_name_def Let_def
        sat_add_def parse_ips_def newline_def word_less_nat_alt CRASH_REPORT_GRACE_NS_def
        List.map_filter_simps)
  ultimately have "\<exists>j env1. session_crash crash_json (\<lambda>_. Some 10) no_env = (Some j, env1)"
    by (auto simp: session_crash_def no_env_def unwrap_or_def rfc3339_unix_ns_def keep_crash_def Let_def)
  then obtain j env1 where "session_crash crash_json (\<lambda>_. Some 10) no_env = (Some j, env1)" by blast
  moreover from crash_verdict_survives_purge [OF this, where js' = one_json and
      parse' = "\<lambda>_. None" and reports' = "[]" and now' = 0]
  have "session_crash one_json (\<lambda>_. None) (env1\<lparr>ce_reports := [], ce_now := 0\<rparr>) =
      (Some j, env1\<lparr>ce_reports := [], ce_now := 0\<rparr>)" by (simp add: no_env_def)
  ultimately show ?thesis by blast
qed

end
