(* ===== verification/RuleFacts.thy ===== *)
theory RuleFacts
  imports CrashFacts BreakdownProps
begin

text \<open>
  What the rules of the analyzer report: exact characterisations of their passes over the events,
  agreement with the breakdown, and what a damaged file changes.
\<close>

section \<open>Model files loaded twice\<close>

fun touches :: "string \<Rightarrow> payload \<Rightarrow> bool" where
  "touches path (ModelLoad p nbytes a b sha fw) = (p = path)"
| "touches path (ModelUnload p t sha tensors unread keys requested) = (p = path)"
| "touches path _ = False"

fun is_load :: "payload \<Rightarrow> bool" where
  "is_load (ModelLoad p nbytes a b sha fw) = True"
| "is_load _ = False"

text \<open>The stamp of the load of a file that no unload followed yet.\<close>

definition loaded_at :: "event list \<Rightarrow> string \<Rightarrow> u64 option" where
  "loaded_at es path =
     (case rfind (\<lambda>ev. touches path (payload ev)) es of
        Some ev \<Rightarrow> if is_load (payload ev) then Some (ts_mono_ns ev) else None
      | None \<Rightarrow> None)"

fun duplicate_of :: "(string \<Rightarrow> u64 option) \<Rightarrow> event \<Rightarrow> payload \<Rightarrow> finding list" where
  "duplicate_of loaded ev (ModelLoad path nbytes a b sha fw) =
     (case loaded path of Some first_ts \<Rightarrow> [duplicate_finding ev path nbytes first_ts] | None \<Rightarrow> [])"
| "duplicate_of loaded ev _ = []"

definition duplicates :: "event list \<Rightarrow> finding list" where
  "duplicates es =
     concat (map (\<lambda>i. duplicate_of (loaded_at (take i es)) (es ! i) (payload (es ! i))) [0..<length es])"

lemma loaded_at_snoc:
  "loaded_at (es @ [ev]) path =
     (if touches path (payload ev) then if is_load (payload ev) then Some (ts_mono_ns ev) else None
      else loaded_at es path)"
  by (simp add: loaded_at_def rfind_snoc)

lemma duplicates_snoc:
  "duplicates (es @ [ev]) = duplicates es @ duplicate_of (loaded_at es) ev (payload ev)"
  unfolding duplicates_def
  by (rule concat_upto_snoc [of "\<lambda>pre ev. duplicate_of (loaded_at pre) ev (payload ev)"])

interpretation load_scan: stream_fold load_step "(Map.empty, [])"
  "\<lambda>es st. st = (loaded_at es, duplicates es)"
proof unfold_locales
  show "(Map.empty, []) = (loaded_at [], duplicates [])"
    by (auto simp: loaded_at_def duplicates_def rfind_alt)
next
  fix es st e
  assume st: "st = (loaded_at es, duplicates es)"
  show "load_step st e = (loaded_at (es @ [e]), duplicates (es @ [e]))"
    by (cases "payload e") (auto simp: st load_step_def duplicates_snoc loaded_at_snoc fun_eq_iff
        split: option.splits)
qed

text \<open>
  The duplicate-load rule flags exactly the loads of a file whose last load or unload before was
  a load, in the order of the events, and quotes the stamp of that load.
\<close>
theorem duplicate_loads_exact: "duplicate_model_load_rule es = duplicates es"
  using load_scan.holds_run [of es] by (simp add: duplicate_model_load_rule_def)

section \<open>Spans with sampling off\<close>

definition is_marker :: "string \<Rightarrow> string \<Rightarrow> event \<Rightarrow> bool" where
  "is_marker disable reenable ev \<longleftrightarrow> skip_matches disable ev \<or> skip_matches reenable ev"

text \<open>Whether sampling was off at an instant: the last marker up to then says so.\<close>

definition sampling_off :: "string \<Rightarrow> string \<Rightarrow> event list \<Rightarrow> u64 \<Rightarrow> bool" where
  "sampling_off disable reenable es t =
     (case rfind (\<lambda>ev. is_marker disable reenable ev \<and> ts_mono_ns ev \<le> t) es of
        None \<Rightarrow> False | Some ev \<Rightarrow> skip_matches disable ev)"

lemma sampling_off_snoc:
  "sampling_off d r (es @ [ev]) t =
     (if is_marker d r ev \<and> ts_mono_ns ev \<le> t then skip_matches d ev else sampling_off d r es t)"
  by (simp add: sampling_off_def rfind_snoc)

definition open_span :: "u64 option \<Rightarrow> (u64 \<times> u64 option) list" where
  "open_span opened = (case opened of None \<Rightarrow> [] | Some start \<Rightarrow> [(start, None)])"

definition spans_ok ::
  "string \<Rightarrow> string \<Rightarrow> event list \<Rightarrow> (u64 \<times> u64 option) list \<times> u64 option \<Rightarrow> bool" where
  "spans_ok d r es st \<longleftrightarrow>
     (sorted (map ts_mono_ns es) \<longrightarrow>
       (\<forall>t. list_ex (in_span t) (fst st @ open_span (snd st)) = sampling_off d r es t) \<and>
       (\<forall>sp \<in> set (fst st). \<exists>e. snd sp = Some e \<and> e \<in> ts_mono_ns ` set es) \<and>
       (\<forall>s. snd st = Some s \<longrightarrow> s \<in> ts_mono_ns ` set es))"

lemma in_span_closed: "snd sp = Some e \<Longrightarrow> e \<le> t \<Longrightarrow> \<not> in_span t sp"
  by (simp add: in_span_def not_less)

lemma in_span_open: "in_span t (s, None) \<longleftrightarrow> s \<le> t"
  by (simp add: in_span_def)

lemma in_span_close: "in_span t (s, Some e) \<longleftrightarrow> s \<le> t \<and> t < e"
  by (simp add: in_span_def)

lemma spans_step:
  assumes ok: "spans_ok d r es st" and srt: "sorted (map ts_mono_ns (es @ [ev]))"
  shows "\<forall>t. list_ex (in_span t) (fst (span_step d r st ev) @ open_span (snd (span_step d r st ev))) =
      sampling_off d r (es @ [ev]) t"
proof
  fix t
  obtain spans opened where st: "st = (spans, opened)" by (cases st)
  have le: "u \<le> ts_mono_ns ev" if "u \<in> ts_mono_ns ` set es" for u
    using srt that by (auto simp: sorted_append)
  have s: "sorted (map ts_mono_ns es)" using srt by (simp add: sorted_append)
  from ok s have inv: "\<forall>t. list_ex (in_span t) (spans @ open_span opened) = sampling_off d r es t"
    "\<forall>sp \<in> set spans. \<exists>e. snd sp = Some e \<and> e \<in> ts_mono_ns ` set es"
    "\<forall>s. opened = Some s \<longrightarrow> s \<in> ts_mono_ns ` set es"
    by (simp_all add: spans_ok_def st)
  have before: "list_ex (in_span t) (spans @ open_span opened) = sampling_off d r es t"
    using inv(1) by blast
  have start: "s \<le> ts_mono_ns ev" if "opened = Some s" for s using inv(3) that le by blast
  have past: "\<not> list_ex (in_span t) spans" if t: "ts_mono_ns ev \<le> t"
  proof -
    have "\<not> in_span t sp" if "sp \<in> set spans" for sp
    proof -
      from inv(2) that obtain e where "snd sp = Some e" "e \<le> ts_mono_ns ev" using le by blast
      then show ?thesis using in_span_closed [OF _ order_trans [OF _ t]] by blast
    qed
    then show ?thesis by (simp add: list_ex_iff)
  qed
  show "list_ex (in_span t) (fst (span_step d r st ev) @ open_span (snd (span_step d r st ev))) =
      sampling_off d r (es @ [ev]) t"
  proof (cases "ts_mono_ns ev \<le> t")
    case True
    with past have "\<not> list_ex (in_span t) spans" by simp
    with True before start show ?thesis
      by (cases opened)
        (auto simp: st span_step_def sampling_off_snoc is_marker_def open_span_def in_span_open
          in_span_close not_less)
  next
    case False
    with before show ?thesis
      by (cases opened)
        (auto simp: st span_step_def sampling_off_snoc is_marker_def open_span_def in_span_open
          in_span_close not_le)
  qed
qed

interpretation span_scan: stream_fold "span_step d r" "([], None)" "spans_ok d r" for d r
proof unfold_locales
  show "spans_ok d r [] ([], None)"
    by (simp add: spans_ok_def open_span_def sampling_off_def rfind_alt)
next
  fix es st e
  assume ok: "spans_ok d r es st"
  show "spans_ok d r (es @ [e]) (span_step d r st e)"
    unfolding spans_ok_def
  proof (intro impI conjI)
    assume srt: "sorted (map ts_mono_ns (es @ [e]))"
    show "\<forall>t. list_ex (in_span t) (fst (span_step d r st e) @ open_span (snd (span_step d r st e))) =
        sampling_off d r (es @ [e]) t" by (rule spans_step [OF ok srt])
    have s: "sorted (map ts_mono_ns es)" using srt by (simp add: sorted_append)
    with ok show "\<forall>sp \<in> set (fst (span_step d r st e)). \<exists>u. snd sp = Some u \<and> u \<in> ts_mono_ns ` set (es @ [e])"
      by (cases st) (auto simp: spans_ok_def span_step_def split: option.splits)
    from ok s show "\<forall>u. snd (span_step d r st e) = Some u \<longrightarrow> u \<in> ts_mono_ns ` set (es @ [e])"
      by (cases st) (auto simp: spans_ok_def span_step_def split: option.splits)
  qed
qed

text \<open>
  The spans of the degradation rule cover exactly the instants at which sampling was off, as the
  last marker up to that instant says: an instant is in a span when that marker disabled sampling.
\<close>
theorem disabled_spans_exact:
  assumes "sorted (map ts_mono_ns es)"
  shows "list_ex (in_span t) (disabled_spans es d r) = sampling_off d r es t"
proof -
  obtain spans opened where st: "foldl (span_step d r) ([], None) es = (spans, opened)"
    by (cases "foldl (span_step d r) ([], None) es")
  from span_scan.holds_run [of d r es] assms
  have "list_ex (in_span t) (spans @ open_span opened) = sampling_off d r es t"
    by (simp add: spans_ok_def st)
  then show ?thesis by (simp add: disabled_spans_def st open_span_def)
qed

lemma disabled_spans_exact_witness:
  "sampling_off ''off'' ''on'' [mk_event 5 0 (MetalHookSkipped ''off''), mk_event 9 1 (MetalHookSkipped ''on'')] 7 \<and>
   list_ex (in_span 7) (disabled_spans [mk_event 5 0 (MetalHookSkipped ''off''),
     mk_event 9 1 (MetalHookSkipped ''on'')] ''off'' ''on'')"
proof -
  let ?es = "[mk_event 5 0 (MetalHookSkipped ''off''), mk_event 9 1 (MetalHookSkipped ''on'')]"
  have "list_ex (in_span 7) (disabled_spans ?es ''off'' ''on'')"
    by (simp add: disabled_spans_def span_step_def skip_matches_def contains_str_def in_span_def)
  moreover have "list_ex (in_span 7) (disabled_spans ?es ''off'' ''on'') = sampling_off ''off'' ''on'' ?es 7"
    by (rule disabled_spans_exact) simp
  ultimately show ?thesis by simp
qed

section \<open>Patterns of tensor names\<close>

lemma count_fold:
  "map_of (foldl (\<lambda>al p. entry_mod (f p) 0 Suc al) al ps) k =
     (if k \<in> set (map f ps) \<or> map_of al k \<noteq> None
      then Some ((case map_of al k of None \<Rightarrow> 0 | Some n \<Rightarrow> n) + count_list (map f ps) k) else None)"
  by (induction ps arbitrary: al) (auto split: option.splits)

lemma count_fold_distinct:
  "distinct (map fst al) \<Longrightarrow> distinct (map fst (foldl (\<lambda>al p. entry_mod (f p) 0 Suc al) al ps))"
  by (induction ps arbitrary: al) simp_all

text \<open>The groups at one depth are the cut patterns with their numbers of keys, in the order shown.\<close>

definition pattern_order :: "string \<times> nat \<Rightarrow> int \<times> string" where
  "pattern_order x = (- int (snd x), fst x)"

lemma count_at_depth_order: "count_at_depth ps d =
  sort_key pattern_order (foldl (\<lambda>al p. entry_mod (cut_pattern d p) 0 Suc al) [] ps)"
proof -
  have "pattern_order = (\<lambda>(p, n). (- int n, p))" by (auto simp: pattern_order_def)
  then show ?thesis by (simp add: count_at_depth_def)
qed

lemma count_at_depth_set:
  "(k, n) \<in> set (count_at_depth ps d) \<longleftrightarrow>
     k \<in> cut_pattern d ` set ps \<and> n = count_list (map (cut_pattern d) ps) k"
  (is "?l \<longleftrightarrow> ?r")
proof -
  let ?al = "foldl (\<lambda>al p. entry_mod (cut_pattern d p) 0 Suc al) [] ps"
  have d: "distinct (map fst ?al)" by (rule count_fold_distinct) simp
  have "?l \<longleftrightarrow> map_of ?al k = Some n" using d by (simp add: count_at_depth_order)
  then show ?thesis by (auto simp: count_fold)
qed

lemma count_at_depth_distinct: "distinct (map fst (count_at_depth ps d))"
proof -
  let ?al = "foldl (\<lambda>al p. entry_mod (cut_pattern d p) 0 Suc al) [] ps"
  have "distinct (map fst ?al)" by (rule count_fold_distinct) simp
  then have "distinct ?al" and "inj_on fst (set ?al)" by (simp_all add: distinct_map)
  then show ?thesis by (simp add: count_at_depth_order distinct_map)
qed

lemma count_at_depth_sorted: "sorted (map pattern_order (count_at_depth ps d))"
  by (simp add: count_at_depth_order)

lemma count_at_depth_total: "sum_list (map snd (count_at_depth ps d)) = length ps"
proof -
  let ?cs = "count_at_depth ps d" and ?ms = "map (cut_pattern d) ps"
  have "map snd ?cs = map (count_list ?ms) (map fst ?cs)"
    unfolding map_map by (rule map_cong) (auto simp: count_at_depth_set)
  then have "sum_list (map snd ?cs) = sum_list (map (count_list ?ms) (map fst ?cs))" by (simp only:)
  also have "\<dots> = (\<Sum>k \<in> set (map fst ?cs). count_list ?ms k)"
    using count_at_depth_distinct by (rule sum_list_distinct_conv_sum_set)
  also have "set (map fst ?cs) = set ?ms"
  proof (intro set_eqI iffI)
    fix k
    assume "k \<in> set ?ms"
    then have "(k, count_list ?ms k) \<in> set ?cs" by (simp add: count_at_depth_set)
    then show "k \<in> set (map fst ?cs)" by force
  qed (auto simp: count_at_depth_set)
  also have "(\<Sum>k \<in> set ?ms. count_list ?ms k) = length ?ms" by (rule sum_count_set) simp_all
  finally show ?thesis by simp
qed

text \<open>
  The unread tensors are grouped by one depth of their patterns: every key is counted in exactly
  one group, the groups are the distinct cut patterns, most frequent first and then by name, and
  there are at most twelve of them unless no depth gives so few, when the full patterns are kept.
\<close>
theorem unread_groups_exact:
  "\<exists>d. set (group_by_pattern keys) =
      (\<lambda>p. (p, count_list (map (cut_pattern d \<circ> pattern_of) keys) p)) `
        set (map (cut_pattern d \<circ> pattern_of) keys) \<and>
    distinct (map fst (group_by_pattern keys)) \<and>
    sorted (map pattern_order (group_by_pattern keys)) \<and>
    sum_list (map snd (group_by_pattern keys)) = length keys \<and>
    (length (group_by_pattern keys) \<le> MAX_PATTERNS \<or>
     d = fold max (map (pattern_depth \<circ> pattern_of) keys) 0 \<and>
     (\<forall>d' \<in> {1..<d}. MAX_PATTERNS < length (count_at_depth (map pattern_of keys) d')))"
proof -
  let ?ps = "map pattern_of keys" and ?max = "fold max (map pattern_depth (map pattern_of keys)) 0"
  let ?fits = "\<lambda>gs :: (string \<times> nat) list. length gs \<le> MAX_PATTERNS"
  have pick: "\<exists>d. group_by_pattern keys = count_at_depth ?ps d \<and>
      (?fits (count_at_depth ?ps d) \<or> d = ?max \<and>
       (\<forall>d' \<in> {1..<d}. MAX_PATTERNS < length (count_at_depth ?ps d')))"
  proof (cases "find ?fits (map (count_at_depth ?ps) (rev [1..<?max]))")
    case None
    then have "\<forall>d' \<in> {1..<?max}. MAX_PATTERNS < length (count_at_depth ?ps d')"
      by (auto simp: find_None_iff not_le)
    with None show ?thesis by (intro exI [of _ ?max]) (auto simp: group_by_pattern_def Let_def)
  next
    case (Some gs)
    then obtain d where d: "gs = count_at_depth ?ps d" "?fits gs" by (auto simp: find_Some_iff)
    show ?thesis
    proof (cases "?fits (count_at_depth ?ps ?max)")
      case True
      then show ?thesis by (intro exI [of _ ?max]) (simp add: group_by_pattern_def Let_def)
    next
      case False
      with Some d show ?thesis by (intro exI [of _ d]) (simp add: group_by_pattern_def Let_def)
    qed
  qed
  then obtain d where d: "group_by_pattern keys = count_at_depth ?ps d"
    "?fits (count_at_depth ?ps d) \<or> d = ?max \<and>
       (\<forall>d' \<in> {1..<d}. MAX_PATTERNS < length (count_at_depth ?ps d'))" by blast
  have "set (count_at_depth ?ps d) =
      (\<lambda>p. (p, count_list (map (cut_pattern d \<circ> pattern_of) keys) p)) `
        set (map (cut_pattern d \<circ> pattern_of) keys)"
    by (auto simp: count_at_depth_set image_iff)
  with d show ?thesis
    using count_at_depth_distinct count_at_depth_sorted count_at_depth_total [of ?ps d]
    by (intro exI [of _ d]) simp
qed

lemma unread_groups_exact_witness:
  "\<exists>d. set (group_by_pattern [''a.0.w'', ''a.1.w'']) =
      (\<lambda>p. (p, count_list (map (cut_pattern d \<circ> pattern_of) [''a.0.w'', ''a.1.w'']) p)) `
        set (map (cut_pattern d \<circ> pattern_of) [''a.0.w'', ''a.1.w'']) \<and>
    sum_list (map snd (group_by_pattern [''a.0.w'', ''a.1.w''])) = 2"
proof -
  from unread_groups_exact [of "[''a.0.w'', ''a.1.w'']"] obtain d where
    "set (group_by_pattern [''a.0.w'', ''a.1.w'']) =
      (\<lambda>p. (p, count_list (map (cut_pattern d \<circ> pattern_of) [''a.0.w'', ''a.1.w'']) p)) `
        set (map (cut_pattern d \<circ> pattern_of) [''a.0.w'', ''a.1.w''])"
    "sum_list (map snd (group_by_pattern [''a.0.w'', ''a.1.w''])) = length [''a.0.w'', ''a.1.w'']"
    by (elim exE conjE) (rule that)
  then show ?thesis by (intro exI [of _ d]) simp
qed

section \<open>The gap and the breakdown measure the same time\<close>

text \<open>What the time of a command buffer depends on.\<close>

definition cb_view :: "completed_cb \<Rightarrow> u64 \<times> u64 \<times> u64 list option" where
  "cb_view cb = (cb_commit_ts cb, cb_in_flight_ns cb, map_option (map op_gpu_ns) (cb_ops cb))"

definition pair_view :: "pair_state \<Rightarrow> _" where
  "pair_view s = (ps_commit_ts s, map cb_view (ps_completed s), ps_last_completed_idx s, ps_seen_any_cb_ops s)"

lemma scaled_views:
  "map op_gpu_ns (rescale_ops (Some sc) sq ops) = map (scaled_gpu_ns sc sq \<circ> op_gpu_ns) ops"
  "map op_gpu_ns (map (scale_op sc sq) ops) = map (scaled_gpu_ns sc sq \<circ> op_gpu_ns) ops"
  by (simp_all add: rescale_ops_def scale_op_def)

lemma scaled_none: "map_of sc sq = None \<Longrightarrow> scaled_gpu_ns sc sq g = g"
  by (simp add: scaled_gpu_ns_def)

lemma cb_view_update:
  assumes "map cb_view xs = map cb_view ys" and "map op_gpu_ns a = map op_gpu_ns b"
  shows "map cb_view (xs[i := (xs ! i)\<lparr>cb_ops := Some a\<rparr>]) = map cb_view (ys[i := (ys ! i)\<lparr>cb_ops := Some b\<rparr>])"
proof (cases "i < length xs")
  case True
  have len: "length xs = length ys" using map_eq_imp_length_eq [OF assms(1)] .
  with assms(1) True have "cb_view (xs ! i) = cb_view (ys ! i)" by (metis nth_map)
  with assms show ?thesis by (simp add: map_update cb_view_def)
next
  case False
  with map_eq_imp_length_eq [OF assms(1)] assms(1) show ?thesis by (simp add: list_update_beyond)
qed

lemma pair_step_view:
  assumes "pair_view s = pair_view t"
  shows "pair_view (pair_step None s (scale_event sc ev)) = pair_view (pair_step (Some sc) t ev)"
proof (cases "payload ev")
  case (MetalCbOps cb ops)
  obtain ops' where ops': "payload (scale_event sc ev) = MetalCbOps cb ops'"
    "map op_gpu_ns ops' = map op_gpu_ns (rescale_ops (Some sc) (ev_seq ev) ops)"
  proof (cases "map_of sc (ev_seq ev) = None")
    case True
    show ?thesis
      by (rule that [of ops]) (simp_all add: scale_event_def MetalCbOps True scaled_views(1) scaled_none comp_def)
  next
    case False
    then show ?thesis
      by (intro that [of "map (scale_op sc (ev_seq ev)) ops"])
        (auto simp: scale_event_def MetalCbOps scaled_views simp del: map_map)
  qed
  have none: "rescale_ops None sq ops' = ops'" for sq by (simp add: rescale_ops_def)
  have len: "map cb_view (ps_completed s) = map cb_view (ps_completed t)"
    using assms by (simp add: pair_view_def)
  from cb_view_update [OF this ops'(2)] assms show ?thesis
    by (auto simp: pair_step_def ops'(1) MetalCbOps none pair_view_def Let_def split: option.splits)
next
  case (MetalCbCompleted cb q st ec dm fl)
  from assms have eqs: "ps_commit_ts s = ps_commit_ts t" "ps_last_completed_idx s = ps_last_completed_idx t"
    "ps_seen_any_cb_ops s = ps_seen_any_cb_ops t" "map cb_view (ps_completed s) = map cb_view (ps_completed t)"
    by (simp_all add: pair_view_def)
  from map_eq_imp_length_eq [OF eqs(4)] eqs show ?thesis
    by (cases "ps_commit_ts t cb") (simp_all add: pair_step_def scale_event_def MetalCbCompleted pair_view_def cb_view_def)
qed (use assms in \<open>simp_all add: pair_step_def scale_event_def pair_view_def\<close>)

lemma pair_views:
  "pair_view s = pair_view t \<Longrightarrow>
     pair_view (foldl (pair_step None) s (map (scale_event sc) es)) = pair_view (foldl (pair_step (Some sc)) t es)"
  by (induction es arbitrary: s t) (simp_all add: pair_step_view)

lemma ops_sum_view: "ops_sum ops = sum_list (map op_gpu_ns ops)"
  by (simp add: ops_sum_def)

lemma cb_gpu_ns_view: "cb_view a = cb_view b \<Longrightarrow> cb_gpu_ns k a = cb_gpu_ns k b"
  by (auto simp: cb_view_def cb_gpu_ns_def ops_sum_view split: option.splits)

lemma clamped_pairing:
  "cc_seen_any_cb_ops (completed_command_buffers (clamped_events es)) =
     cc_seen_any_cb_ops (clamped_command_buffers es)"
  "map cb_view (cc_completed (completed_command_buffers (clamped_events es))) =
     map cb_view (cc_completed (clamped_command_buffers es))"
  using pair_views [OF refl, of pair_init "compute_op_time_scales es" es]
  by (simp_all add: completed_command_buffers_def clamped_command_buffers_def clamped_events_def
      apply_op_time_scales_def pair_command_buffers_def Let_def pair_view_def)

lemma session_gpu_ns_clamped:
  "session_gpu_ns (clamped_events es) =
     sum_list (map (cb_gpu_ns (cc_seen_any_cb_ops (clamped_command_buffers es)))
       (cc_completed (clamped_command_buffers es)))"
proof -
  have "map (cb_gpu_ns k) xs = map (cb_gpu_ns k) ys" if "map cb_view xs = map cb_view ys" for k xs ys
  proof (rule nth_equalityI)
    have len: "length xs = length ys" using map_eq_imp_length_eq [OF that] .
    then show "length (map (cb_gpu_ns k) xs) = length (map (cb_gpu_ns k) ys)" by simp
    fix i
    assume "i < length (map (cb_gpu_ns k) xs)"
    with len have i: "i < length xs" "i < length ys" by simp_all
    from that i have "cb_view (xs ! i) = cb_view (ys ! i)" by (metis nth_map)
    from cb_gpu_ns_view [OF this] i show "map (cb_gpu_ns k) xs ! i = map (cb_gpu_ns k) ys ! i" by simp
  qed
  from this [OF clamped_pairing(2) [of es]] show ?thesis
    by (simp add: session_gpu_ns_def Let_def clamped_pairing(1))
qed

text \<open>The time of the command buffers that an eval outside every module waited for.\<close>

definition outside_modules :: "event list \<Rightarrow> bool \<Rightarrow> completed_cb \<Rightarrow> bool" where
  "outside_modules es seen cb \<longleftrightarrow>
     (case eval_at (eval_windows es) (cb_commit_ts cb) of
        None \<Rightarrow> False
      | Some i \<Rightarrow> ew_module_stack (eval_windows es ! i) = [] \<and> 0 < cb_gpu_ns seen cb)"

lemma lazy_step_sums:
  "lz_total (lazy_step (eval_windows es) seen s cb) = lz_total s + cb_gpu_ns seen cb"
  "lz_gap (lazy_step (eval_windows es) seen s cb) =
     lz_gap s + (if outside_modules es seen cb then cb_gpu_ns seen cb else 0)"
  by (simp_all add: lazy_step_def outside_modules_def Let_def split: option.splits)

interpretation lazy_total: metered_fold "lazy_step (eval_windows es) seen" "\<lambda>_. True" "\<lambda>_. True" lz_total
  "cb_gpu_ns seen" for es seen
  by unfold_locales (simp_all add: lazy_step_sums)

interpretation lazy_gap: metered_fold "lazy_step (eval_windows es) seen" "\<lambda>_. True" "\<lambda>_. True" lz_gap
  "\<lambda>cb. if outside_modules es seen cb then cb_gpu_ns seen cb else 0" for es seen
  by unfold_locales (simp_all add: lazy_step_sums)

lemma lazy_detect_sums:
  assumes "lazy_detect es = Some g"
  shows "lg_total_gpu_ns g = session_gpu_ns (clamped_events es)"
    and "lg_gap_gpu_ns g =
      sum_list (map (cb_gpu_ns (cc_seen_any_cb_ops (clamped_command_buffers es)))
        (filter (outside_modules es (cc_seen_any_cb_ops (clamped_command_buffers es)))
          (cc_completed (clamped_command_buffers es))))"
    and "LAZY_GAP_THRESHOLD_PCT \<le> gap_pct g"
proof -
  from assms have g: "lg_total_gpu_ns g = lz_total (lazy_scan es)" "lg_gap_gpu_ns g = lz_gap (lazy_scan es)"
    and "LAZY_GAP_THRESHOLD_PCT \<le> gap_pct g"
    by (auto simp: lazy_detect_def Let_def split: option.splits if_splits prod.splits)
  then show "LAZY_GAP_THRESHOLD_PCT \<le> gap_pct g" by simp
  show "lg_total_gpu_ns g = session_gpu_ns (clamped_events es)"
    unfolding g by (simp add: lazy_scan_def Let_def lazy_total.meter_run session_gpu_ns_clamped list_all_iff)
  show "lg_gap_gpu_ns g =
      sum_list (map (cb_gpu_ns (cc_seen_any_cb_ops (clamped_command_buffers es)))
        (filter (outside_modules es (cc_seen_any_cb_ops (clamped_command_buffers es)))
          (cc_completed (clamped_command_buffers es))))"
    unfolding g by (simp add: lazy_scan_def Let_def lazy_gap.meter_run list_all_iff sum_list_map_filter')
qed

text \<open>
  The lazy-evaluation rule and the module breakdown agree: the total the gap is a share of is the
  subtree time of the root of the breakdown of the same session, and the gap is the time of the
  command buffers whose commit falls in an eval made outside every module, at least half of it.
\<close>
theorem lazy_gap_matches_breakdown:
  assumes "lazy_detect es = Some g" and "es \<noteq> []"
    and "distinct (entered_ids (clamped_events es))" and "parents_first (clamped_events es)"
  shows "\<exists>root. compute es = Some (Inr root) \<and> mb_gpu_ns_subtree root = lg_total_gpu_ns g \<and>
    lg_gap_gpu_ns g =
      sum_list (map (cb_gpu_ns (cc_seen_any_cb_ops (clamped_command_buffers es)))
        (filter (outside_modules es (cc_seen_any_cb_ops (clamped_command_buffers es)))
          (cc_completed (clamped_command_buffers es)))) \<and>
    50 \<le> gap_pct g"
  using compute_root_total [OF assms(2-4)] lazy_detect_sums [OF assms(1)]
  by (auto simp: LAZY_GAP_THRESHOLD_PCT_def)

definition lazy_example :: "event list" where
  "lazy_example =
     [mk_event 10 0 (MlxEvalEntered 1 1 [] [] []), mk_event 20 1 (MetalCbCommitted 5 1 1 None),
      mk_event 30 2 (MetalCbCompleted 5 1 4 None None 8), mk_event 40 3 (MlxEvalReturned 1 30 False)]"

lemma lazy_gap_matches_breakdown_witness:
  "\<exists>root. compute lazy_example = Some (Inr root) \<and> mb_gpu_ns_subtree root = 8"
proof -
  have pairs: "cc_completed (clamped_command_buffers lazy_example) =
      [\<lparr>cb_commit_ts = 20, cb_in_flight_ns = 8, cb_ops = None\<rparr>]"
    "cc_seen_any_cb_ops (clamped_command_buffers lazy_example) = False"
    by (simp_all add: lazy_example_def clamped_command_buffers_def pair_command_buffers_def pair_step_def
        pair_init_def Let_def)
  have windows: "eval_windows lazy_example =
      [\<lparr>ew_t_in = 10, ew_t_out = 40, ew_seq = 0, ew_module_stack = [], ew_top_frame = None\<rparr>]"
    by (simp add: lazy_example_def eval_windows_def eval_step_def eval_scan_init_def)
  have found: "eval_at (eval_windows lazy_example) 20 = Some 0"
    by (simp add: windows eval_at_def)
  have scan: "lazy_scan lazy_example =
      \<lparr>lz_gap = 8, lz_total = 8, lz_evals = [0], lz_first = Some (0, 10)\<rparr>"
    by (simp add: lazy_scan_def Let_def pairs lazy_step_def cb_gpu_ns_def found) (simp add: windows)
  have calls: "filter (\<lambda>ev. is_module_entered (payload ev)) lazy_example = []"
    by (simp add: lazy_example_def)
  have g: "lazy_detect lazy_example = Some \<lparr>lg_gap_gpu_ns = 8, lg_total_gpu_ns = 8,
      lg_module_call_count = 0, lg_lazy_eval_count = 1, lg_first_seq = 0, lg_first_ts = 10\<rparr>"
    by (simp add: lazy_detect_def scan calls Let_def gap_pct_def LAZY_GAP_THRESHOLD_PCT_def)
  have "clamped_events lazy_example = lazy_example"
    by (simp add: clamped_events_def apply_op_time_scales_def lazy_example_def scale_event_def)
  then have "distinct (entered_ids (clamped_events lazy_example))" "parents_first (clamped_events lazy_example)"
    by (simp_all add: lazy_example_def parents_first_def upt_rec parent_of_def)
  from lazy_gap_matches_breakdown [OF g _ this] show ?thesis by (auto simp: lazy_example_def)
qed

section \<open>Percentiles\<close>

lemma f64_round_close: "0 \<le> x \<Longrightarrow> 0 \<le> f64_round x \<and> f64_round x \<le> x * (101 / 100) \<and> x * (1 / 2) \<le> f64_round x"
proof -
  assume x: "0 \<le> x"
  have "x * (1 + 1 / 2 ^ 53) \<le> x * (101 / 100)" and "x * (1 / 2) \<le> x * (1 - 1 / 2 ^ 53)"
    using x by (intro mult_left_mono; simp)+
  with f64_round_nonneg [OF x] show ?thesis by linarith
qed

lemma P95_le: "P95 \<le> 24 / 25"
proof -
  have "P95 \<le> 95 / 100 * (101 / 100)" unfolding P95_def using f64_round_close [of "95 / 100"] by simp
  then show ?thesis by simp
qed

lemma f64_of_nat_1: "f64_of_nat 1 = 1"
  by code_simp

text \<open>
  The percentile of a non-empty list of durations is that of one of its elements: the index
  computed in floating point never reaches the length, so the lookup cannot panic.
\<close>
theorem percentile_in_range:
  assumes "0 < n" and "0 \<le> p" and "p \<le> P95"
  shows "pct_index p n < n"
proof (cases "n = 1")
  case True
  have "f64_sub (f64_of_nat n) 1 = 0" by (simp only: True f64_of_nat_1) (simp add: f64_sub_def f64_round_def)
  then have "pct_index p n = 0" by (simp add: pct_index_def f64_mul_def f64_round_def f64_round_int_def f64_to_u64_def)
  with True show ?thesis by simp
next
  case False
  with assms(1) have n: "2 \<le> (of_nat n :: rat)" by (cases n) auto
  let ?a = "f64_of_nat n" and ?b = "f64_sub (f64_of_nat n) 1"
  let ?c = "f64_mul ?b p"
  have a: "?a \<le> of_nat n * (101 / 100)" "1 \<le> ?a"
    using f64_round_close [of "of_nat n"] n by (auto simp: f64_of_nat_def)
  then have b: "0 \<le> ?b" "?b \<le> (?a - 1) * (101 / 100)"
    using f64_round_close [of "?a - 1"] by (simp_all add: f64_sub_def)
  have "?b * p \<le> ?b * (24 / 25)" using b(1) assms(3) P95_le by (intro mult_left_mono) auto
  moreover have "0 \<le> ?c" "?c \<le> ?b * p * (1 + 1 / 2 ^ 53)"
    using f64_round_nonneg [of "?b * p"] b(1) assms(2) by (simp_all add: f64_mul_def)
  moreover have "?b * p * (1 + 1 / 2 ^ 53) \<le> ?b * p * (101 / 100)"
    using b(1) assms(2) by (intro mult_left_mono) simp_all
  ultimately have c: "0 \<le> ?c" "?c \<le> ?b * (24 / 25) * (101 / 100)" by linarith+
  with a b n have "?c + 1 / 2 < of_nat n" by (simp add: field_simps)
  moreover have r: "0 \<le> f64_round_int ?c" "f64_round_int ?c \<le> ?c + 1 / 2"
    using c(1) by (simp_all add: f64_round_int_def)
  moreover have "of_nat (pct_index p n) \<le> f64_round_int ?c"
    unfolding pct_index_def using unat_f64_to_u64 [OF r(1)] by simp
  ultimately have "(of_nat (pct_index p n) :: rat) < of_nat n" by linarith
  then show ?thesis by simp
qed

lemma percentile_in_range_witness: "pct_index P95 4 < 4"
proof -
  have "0 \<le> P95" unfolding P95_def using f64_round_close [of "95 / 100"] by simp
  then show ?thesis by (intro percentile_in_range) simp_all
qed

section \<open>Damaged files\<close>

text \<open>Only a Metal watchdog error makes a rule name a root cause.\<close>

lemma contributing_rules:
  "f \<in> set (queue_depth_rule es) \<Longrightarrow> fi_category f \<noteq> RootCause"
  "f \<in> set (queue_pressure_rule es) \<Longrightarrow> fi_category f \<noteq> RootCause"
  "f \<in> set (mlx_timing_rule es) \<Longrightarrow> fi_category f \<noteq> RootCause"
  "f \<in> set (mlx_cache_growth_rule es) \<Longrightarrow> fi_category f \<noteq> RootCause"
  "f \<in> set (memory_pressure_rule es) \<Longrightarrow> fi_category f \<noteq> RootCause"
  "f \<in> set (system_pressure_rule es) \<Longrightarrow> fi_category f \<noteq> RootCause"
  "f \<in> set (unread_model_tensors_rule es) \<Longrightarrow> fi_category f \<noteq> RootCause"
  "f \<in> set (lazy_eval_rule es) \<Longrightarrow> fi_category f \<noteq> RootCause"
  "f \<in> set (sidecar_absent_rule es) \<Longrightarrow> fi_category f \<noteq> RootCause"
  by (auto simp: queue_depth_rule_def queue_pressure_rule_def mlx_timing_rule_def timing_finding_def
      eval_finding_def mlx_cache_growth_rule_def memory_pressure_rule_def system_pressure_rule_def
      slot_finding_def unread_model_tensors_rule_def unread_finding_def lazy_eval_rule_def
      sidecar_absent_rule_def Let_def
      split: option.splits if_splits prod.splits payload.splits)

lemma duplicate_rule_category: "f \<in> set (duplicate_model_load_rule es) \<Longrightarrow> fi_category f \<noteq> RootCause"
proof -
  have "fi_category f \<noteq> RootCause" if "f \<in> set (duplicate_of loaded ev p)" for loaded ev p
    using that by (cases p) (auto simp: duplicate_finding_def split: option.splits)
  moreover assume "f \<in> set (duplicate_model_load_rule es)"
  ultimately show ?thesis
    using load_scan.holds_run [of es] by (auto simp: duplicate_model_load_rule_def duplicates_def)
qed

lemma degradation_rule_category: "f \<in> set (hook_degradation_rule es) \<Longrightarrow> fi_category f \<noteq> RootCause"
  by (auto simp: hook_degradation_rule_def sampling_findings_def corruption_findings_def
      estimate_findings_def drop_findings_def Let_def split: list.splits option.splits prod.splits)

lemma metal_rule_title:
  "f \<in> set (metal_error_rule es) \<Longrightarrow> \<exists>s. fi_title f = ''Metal command buffer #'' @ s"
  by (auto simp: metal_error_rule_def metal_error_finding_def Let_def split: option.splits)

lemma analyze_root_titles:
  assumes "f \<in> set (rp_findings (analyze es))" and "fi_category f = RootCause"
  shows "fi_title f \<noteq> NOTHING_INSTRUMENTED_TITLE"
proof -
  from assms have "f \<in> set (metal_error_rule es)"
    using contributing_rules duplicate_rule_category degradation_rule_category
    by (auto simp: analyze_def all_rules_def)
  from metal_rule_title [OF this] show ?thesis by (auto simp: NOTHING_INSTRUMENTED_TITLE_def)
qed

lemma post_mortem_title:
  assumes "post_mortem_crash env = Some f"
  shows "\<exists>s. fi_title f = s @ ''post-mortem was written for''"
proof -
  from assms obtain w p where "find (wanted_report w) (rev (map payload (the (ce_events env)))) = Some p"
    "f = post_mortem_finding p"
    by (auto simp: post_mortem_crash_def Let_def split: option.splits if_splits bind_splits)
  then have "wanted_report w p" by (auto simp: find_Some_iff)
  with \<open>f = _\<close> show ?thesis by (cases p) (auto simp: Let_def)
qed

lemma session_root_titles:
  assumes "analyze_session js parse env es = (r, env1)"
    and "f \<in> set (rp_findings r)" and "fi_category f = RootCause"
  shows "fi_title f \<noteq> NOTHING_INSTRUMENTED_TITLE"
proof -
  have last_char: "last NOTHING_INSTRUMENTED_TITLE = CHR ''n''" by (simp add: NOTHING_INSTRUMENTED_TITLE_def)
  have verdicts: "fi_title (crash_finding c) \<noteq> NOTHING_INSTRUMENTED_TITLE"
    "fi_title (jetsam_finding j) \<noteq> NOTHING_INSTRUMENTED_TITLE" for c j
    by (auto simp: crash_finding_def jetsam_finding_def NOTHING_INSTRUMENTED_TITLE_def Let_def
        split: option.splits)
  have pm: "fi_title g \<noteq> NOTHING_INSTRUMENTED_TITLE" if "post_mortem_crash e = Some g" for e g
  proof -
    from post_mortem_title [OF that] have "last (fi_title g) = CHR ''r''" by auto
    with last_char show ?thesis by auto
  qed
  define r1 where "r1 = (case ce_meta env of None \<Rightarrow> analyze es
    | Some m \<Rightarrow> (analyze es)\<lparr>rp_session_short := Some (short (sm_session_id m))\<rparr>)"
  obtain r2 where r2: "join_crash js parse env r1 = (r2, env1)" and r: "r = join_jetsam js parse env1 r2"
    using assms(1) by (auto simp: analyze_session_def Let_def r1_def [symmetric] split: prod.splits)
  have "rp_findings r1 = rp_findings (analyze es)" by (simp add: r1_def split: option.splits)
  then have "fi_title g \<noteq> NOTHING_INSTRUMENTED_TITLE"
    if "g \<in> set (rp_findings r2)" "fi_category g = RootCause" for g
    using that r2 verdicts pm analyze_root_titles
    by (auto simp: join_crash_def split: option.splits prod.splits)
  moreover have "f \<in> set (rp_findings r2) \<or> (\<exists>j. f = jetsam_finding j)"
  proof -
    have "fi_category g \<noteq> RootCause" if "presume_memory_death m ev r2 = Some g" for m ev g
      using presume_Some(5) [OF that] by auto
    with assms(2,3) show ?thesis
      by (auto simp: r join_jetsam_cases split: option.splits if_splits)
  qed
  ultimately show ?thesis using assms(3) verdicts(2) by blast
qed

lemma find_filter: "(\<And>x. x \<in> set xs \<Longrightarrow> P x \<Longrightarrow> Q x) \<Longrightarrow> find P (filter Q xs) = find P xs"
  by (induction xs) auto

text \<open>
  The report over a damaged file opens with the warning that names the damage and withdraws every
  finding that nothing was instrumented; the other findings keep their order, the root cause is
  the one of the plain analysis, and an intact file changes nothing.
\<close>
theorem damage_withdraws_absence:
  assumes "analyze_session js parse env es = (r, env1)"
  shows "analyze_session_checked js parse env es None = (r, env1) \<and>
    (\<exists>r'. analyze_session_checked js parse env es (Some problems) = (r', env1) \<and>
      root_cause r' = root_cause r \<and>
      rp_findings r' = damage_finding (length es) problems #
        filter (\<lambda>f. fi_title f \<noteq> NOTHING_INSTRUMENTED_TITLE) (rp_findings r))"
proof -
  have "find (\<lambda>f. fi_category f = RootCause)
      (filter (\<lambda>f. fi_title f \<noteq> NOTHING_INSTRUMENTED_TITLE) (rp_findings r)) = root_cause r"
    unfolding root_cause_def by (rule find_filter) (rule session_root_titles [OF assms])
  with assms show ?thesis
    by (simp add: analyze_session_checked_def root_cause_def damage_finding_def)
qed

lemma damage_withdraws_absence_witness:
  "\<exists>r. rp_findings (fst (analyze_session_checked one_json (\<lambda>_. None) no_env [] (Some [''cut short'']))) =
     damage_finding 0 [''cut short''] # r"
proof -
  obtain r env1 where a: "analyze_session one_json (\<lambda>_. None) no_env [] = (r, env1)"
    by (cases "analyze_session one_json (\<lambda>_. None) no_env []")
  from damage_withdraws_absence [OF a, of "[''cut short'']"] show ?thesis by auto
qed

end
