(* ===== verification/PressureFacts.thy ===== *)
theory PressureFacts
  imports RulesMem
begin

text \<open>
  The windows over the memory budget, characterised over the samples alone, in the order of the log,
  whatever their stamps: the file is not in time order.
\<close>

section \<open>The samples over the threshold\<close>

record over_sample =
  os_at :: nat \<comment> \<open>position in the log\<close>
  os_ev :: event
  os_bytes :: u64
  os_recommended :: u64
  os_scope :: string

abbreviation os_ts :: "over_sample \<Rightarrow> u64" where
  "os_ts x \<equiv> ts_mono_ns (os_ev x)"

definition scope_step :: "(u64 \<times> string) list \<Rightarrow> event \<Rightarrow> (u64 \<times> string) list" where
  "scope_step stack ev =
     (case payload ev of
        ModuleEntered call_id def_id qualname cls parent depth attrs \<Rightarrow> stack @ [(call_id, qualname)]
      | ModuleReturned call_id \<Rightarrow>
          (case rposition (\<lambda>p. fst p = call_id) stack of None \<Rightarrow> stack | Some pos \<Rightarrow> remove_at pos stack)
      | _ \<Rightarrow> stack)"

definition scopes_open :: "event list \<Rightarrow> (u64 \<times> string) list" where
  "scopes_open es = foldl scope_step [] es"

fun over_of :: "f64 \<Rightarrow> string \<Rightarrow> nat \<Rightarrow> event \<Rightarrow> payload \<Rightarrow> over_sample list" where
  "over_of th scope i ev (MetalDeviceMemSample allocated recommended at_event) =
     (if recommended \<noteq> 0 \<and> th \<le> f64_ratio allocated recommended
      then [\<lparr>os_at = i, os_ev = ev, os_bytes = allocated, os_recommended = recommended, os_scope = scope\<rparr>]
      else [])"
| "over_of th scope i ev _ = []"

definition over_samples :: "f64 \<Rightarrow> event list \<Rightarrow> over_sample list" where
  "over_samples th es =
     concat (map (\<lambda>i. over_of th (scope_label (scopes_open (take i es))) i (es ! i) (payload (es ! i)))
       [0..<length es])"

lemma over_samples_snoc:
  "over_samples th (es @ [ev]) =
     over_samples th es @ over_of th (scope_label (scopes_open es)) (length es) ev (payload ev)"
proof -
  have "concat (map (\<lambda>i. over_of th (scope_label (scopes_open (take i (es @ [ev])))) i ((es @ [ev]) ! i)
      (payload ((es @ [ev]) ! i))) [0..<length es]) = over_samples th es"
    unfolding over_samples_def by (intro arg_cong [of _ _ concat] map_cong) (auto simp: nth_append)
  then show ?thesis by (simp add: over_samples_def [of th "es @ [ev]"])
qed

lemma scopes_open_snoc: "scopes_open (es @ [ev]) = scope_step (scopes_open es) ev"
  by (simp add: scopes_open_def)

section \<open>Runs of samples\<close>

text \<open>The first sample of a run that no other exceeds, and the window of the run.\<close>

definition peak_of :: "over_sample list \<Rightarrow> over_sample" where
  "peak_of g = the (find (\<lambda>x. list_all (\<lambda>y. os_bytes y \<le> os_bytes x) g) g)"

definition window_of :: "over_sample list \<Rightarrow> mem_window" where
  "window_of g =
     \<lparr>mw_start = os_ts (hd g), mw_end = os_ts (last g), mw_peak_bytes = os_bytes (peak_of g),
      mw_peak_ts = os_ts (peak_of g), mw_peak_seq = ev_seq (os_ev (peak_of g)),
      mw_recommended = os_recommended (peak_of g), mw_peak_scope = os_scope (peak_of g)\<rparr>"

lemma peak_exists: "g \<noteq> [] \<Longrightarrow> \<exists>x \<in> set g. list_all (\<lambda>y. os_bytes y \<le> os_bytes x) g"
proof (induction g)
  case (Cons a g)
  show ?case
  proof (cases "g = []")
    case False
    from Cons.IH [OF this] obtain x where x: "x \<in> set g" "list_all (\<lambda>y. os_bytes y \<le> os_bytes x) g" by blast
    show ?thesis
    proof (cases "os_bytes a \<le> os_bytes x")
      case False
      with x(2) have "list_all (\<lambda>y. os_bytes y \<le> os_bytes a) (a # g)" by (auto simp: list_all_iff)
      then show ?thesis by auto
    qed (use x in auto)
  qed simp
qed simp

lemma peak_of_max:
  assumes "g \<noteq> []"
  shows "peak_of g \<in> set g" and "\<And>y. y \<in> set g \<Longrightarrow> os_bytes y \<le> os_bytes (peak_of g)"
proof -
  obtain x where x: "find (\<lambda>x. list_all (\<lambda>y. os_bytes y \<le> os_bytes x) g) g = Some x"
    using peak_exists [OF assms] by (cases "find (\<lambda>x. list_all (\<lambda>y. os_bytes y \<le> os_bytes x) g) g")
      (auto simp: find_None_iff)
  then have "peak_of g = x" by (simp add: peak_of_def)
  moreover from x have "x \<in> set g" "list_all (\<lambda>y. os_bytes y \<le> os_bytes x) g"
    unfolding find_Some_iff by auto
  ultimately show "peak_of g \<in> set g" and "\<And>y. y \<in> set g \<Longrightarrow> os_bytes y \<le> os_bytes (peak_of g)"
    by (simp_all add: list_all_iff)
qed

lemma find_cong_on: "(\<And>x. x \<in> set xs \<Longrightarrow> P x = Q x) \<Longrightarrow> find P xs = find Q xs"
  by (induction xs) auto

lemma find_append_none: "(\<And>x. x \<in> set xs \<Longrightarrow> \<not> P x) \<Longrightarrow> find P (xs @ ys) = find P ys"
  by (induction xs) auto

lemma find_append_some: "find P xs = Some x \<Longrightarrow> find P (xs @ ys) = Some x"
  by (induction xs) auto

lemma peak_of_snoc:
  assumes "g \<noteq> []"
  shows "peak_of (g @ [x]) = (if os_bytes (peak_of g) < os_bytes x then x else peak_of g)"
proof (cases "os_bytes (peak_of g) < os_bytes x")
  case True
  with peak_of_max(2) [OF assms] have lt: "os_bytes y < os_bytes x" if "y \<in> set g" for y
    using that by (meson order_le_less_trans)
  then have "find (\<lambda>a. list_all (\<lambda>y. os_bytes y \<le> os_bytes a) (g @ [x])) (g @ [x]) =
      find (\<lambda>a. list_all (\<lambda>y. os_bytes y \<le> os_bytes a) (g @ [x])) [x]"
    by (intro find_append_none) (auto simp: not_le)
  with True lt show ?thesis by (auto simp: peak_of_def list_all_iff less_imp_le)
next
  case False
  let ?P = "\<lambda>a. list_all (\<lambda>y. os_bytes y \<le> os_bytes a) g"
  have "find ?P g = Some (peak_of g)"
    using peak_exists [OF assms] by (cases "find ?P g") (auto simp: find_None_iff peak_of_def)
  moreover have "find (\<lambda>a. list_all (\<lambda>y. os_bytes y \<le> os_bytes a) (g @ [x])) g = find ?P g"
  proof (rule find_cong_on)
    fix a
    assume "a \<in> set g"
    have "os_bytes x \<le> os_bytes a" if "?P a"
    proof -
      have "os_bytes (peak_of g) \<le> os_bytes a" using that peak_of_max(1) [OF assms] by (auto simp: list_all_iff)
      with False show ?thesis by auto
    qed
    then show "list_all (\<lambda>y. os_bytes y \<le> os_bytes a) (g @ [x]) = ?P a" by auto
  qed
  ultimately have "find (\<lambda>a. list_all (\<lambda>y. os_bytes y \<le> os_bytes a) (g @ [x])) (g @ [x]) = Some (peak_of g)"
    by (intro find_append_some) simp
  with False show ?thesis by (simp add: peak_of_def)
qed

text \<open>
  A silence after a sample: some later sample of the log, over the threshold or under it, is stamped
  more than the gap after it.  A list of runs has no silence inside a run and one between two runs.
\<close>

fun budget_sample :: "payload \<Rightarrow> bool" where
  "budget_sample (MetalDeviceMemSample allocated recommended at_event) = (recommended \<noteq> 0)"
| "budget_sample _ = False"

definition lapsed :: "event list \<Rightarrow> u64 \<Rightarrow> over_sample \<Rightarrow> bool" where
  "lapsed es gap a \<longleftrightarrow>
     (\<exists>k. os_at a < k \<and> k < length es \<and> budget_sample (payload (es ! k)) \<and>
        gap < sat_sub (ts_mono_ns (es ! k)) (os_ts a))"

definition far :: "event list \<Rightarrow> u64 \<Rightarrow> over_sample \<Rightarrow> over_sample \<Rightarrow> bool" where
  "far es gap a b \<longleftrightarrow> lapsed (take (Suc (os_at b)) es) gap a"

definition are_runs :: "event list \<Rightarrow> u64 \<Rightarrow> over_sample list list \<Rightarrow> bool" where
  "are_runs es gap gs \<longleftrightarrow>
     (\<forall>g \<in> set gs. g \<noteq> [] \<and> successively (\<lambda>a b. \<not> far es gap a b) g) \<and>
     successively (\<lambda>g h. far es gap (last g) (hd h)) gs"

lemma lapsed_snoc:
  "lapsed (es @ [ev]) gap a \<longleftrightarrow>
     lapsed es gap a \<or>
     os_at a < length es \<and> budget_sample (payload ev) \<and> gap < sat_sub (ts_mono_ns ev) (os_ts a)"
proof -
  let ?P = "\<lambda>xs k. os_at a < k \<and> budget_sample (payload (xs ! k)) \<and> gap < sat_sub (ts_mono_ns (xs ! k)) (os_ts a)"
  have "lapsed (es @ [ev]) gap a \<longleftrightarrow> (\<exists>k < length es. ?P (es @ [ev]) k) \<or> ?P (es @ [ev]) (length es)"
    unfolding lapsed_def length_append_singleton using less_Suc_eq by metis
  moreover have "(\<exists>k < length es. ?P (es @ [ev]) k) \<longleftrightarrow> lapsed es gap a"
    by (auto simp: lapsed_def nth_append)
  ultimately show ?thesis by simp
qed

lemma are_runs_snoc:
  assumes "\<forall>x \<in> set (concat gs). os_at x < length es" and "\<forall>g \<in> set gs. g \<noteq> []"
  shows "are_runs (es @ [ev]) gap gs = are_runs es gap gs"
proof -
  have far: "far (es @ [ev]) gap a b = far es gap a b" if "b \<in> set (concat gs)" for a b
  proof -
    from assms(1) that have "os_at b < length es" by blast
    then have "Suc (os_at b) - length es = 0" by simp
    then show ?thesis by (simp add: far_def)
  qed
  have inner: "successively (\<lambda>a b. \<not> far (es @ [ev]) gap a b) g = successively (\<lambda>a b. \<not> far es gap a b) g"
    if "g \<in> set gs" for g
    by (rule successively_cong) (use far that in auto)
  have "hd h \<in> set (concat gs)" if "h \<in> set gs" for h using that assms(2) hd_in_set by auto
  then have "successively (\<lambda>g h. far (es @ [ev]) gap (last g) (hd h)) gs =
      successively (\<lambda>g h. far es gap (last g) (hd h)) gs"
    by (intro successively_cong) (use far in blast, simp)
  with inner show ?thesis by (simp add: are_runs_def)
qed

lemma are_runs_open:
  "are_runs es gap gs \<Longrightarrow> (gs \<noteq> [] \<Longrightarrow> far es gap (last (last gs)) x) \<Longrightarrow> are_runs es gap (gs @ [[x]])"
  by (auto simp: are_runs_def successively_append_iff)

lemma are_runs_extend:
  "are_runs es gap (hs @ [g]) \<Longrightarrow> \<not> far es gap (last g) x \<Longrightarrow> are_runs es gap (hs @ [g @ [x]])"
  by (auto simp: are_runs_def successively_append_iff hd_append)

lemma window_of_single: "window_of [x] =
  open_window (os_ev x) (os_bytes x) (os_recommended x) (os_scope x)"
  by (simp add: window_of_def open_window_def peak_of_def)

lemma window_of_snoc:
  "g \<noteq> [] \<Longrightarrow> window_of (g @ [x]) =
     extend_window (os_ev x) (os_bytes x) (os_recommended x) (os_scope x) (window_of g)"
  by (simp add: window_of_def extend_window_def peak_of_snoc Let_def)

section \<open>The pass\<close>

definition scan_runs :: "u64 \<Rightarrow> event list \<Rightarrow> window_scan \<Rightarrow> over_sample list list \<Rightarrow> bool" where
  "scan_runs gap es s gs \<longleftrightarrow>
     are_runs es gap gs \<and> (\<forall>x \<in> set (concat gs). os_at x < length es) \<and>
     (gs \<noteq> [] \<longrightarrow> ws_last_over s = os_ts (last (last gs))) \<and>
     (case ws_current s of
        None \<Rightarrow> ws_windows s = map window_of gs \<and> (gs \<noteq> [] \<longrightarrow> lapsed es gap (last (last gs)))
      | Some w \<Rightarrow> gs \<noteq> [] \<and> ws_windows s = map window_of (butlast gs) \<and> w = window_of (last gs) \<and>
          \<not> lapsed es gap (last (last gs)))"

lemma scan_runs_last:
  "scan_runs gap es s gs \<Longrightarrow> gs \<noteq> [] \<Longrightarrow> last (last gs) \<in> set (concat gs)"
  by (cases gs rule: rev_cases) (auto simp: scan_runs_def are_runs_def)

lemma scan_runs_kept:
  assumes "scan_runs gap es s gs"
  shows "are_runs (es @ [ev]) gap gs" and "\<forall>x \<in> set (concat gs). os_at x < length (es @ [ev])"
    and "gs \<noteq> [] \<Longrightarrow> lapsed (es @ [ev]) gap (last (last gs)) \<longleftrightarrow> lapsed es gap (last (last gs)) \<or>
      budget_sample (payload ev) \<and> gap < sat_sub (ts_mono_ns ev) (ws_last_over s)"
proof -
  have at: "\<forall>x \<in> set (concat gs). os_at x < length es" and runs: "are_runs es gap gs"
    and over: "gs \<noteq> [] \<Longrightarrow> ws_last_over s = os_ts (last (last gs))"
    using assms by (simp_all add: scan_runs_def)
  from runs have "\<forall>g \<in> set gs. g \<noteq> []" by (simp add: are_runs_def)
  with runs at show "are_runs (es @ [ev]) gap gs" by (simp add: are_runs_snoc)
  show "\<forall>x \<in> set (concat gs). os_at x < length (es @ [ev])" using at by (auto intro: less_SucI)
  show "lapsed (es @ [ev]) gap (last (last gs)) \<longleftrightarrow> lapsed es gap (last (last gs)) \<or>
      budget_sample (payload ev) \<and> gap < sat_sub (ts_mono_ns ev) (ws_last_over s)" if "gs \<noteq> []"
    using at over scan_runs_last [OF assms that] that by (auto simp: lapsed_snoc)
qed

lemma scan_runs_idle:
  assumes "scan_runs gap es s gs" and "\<not> budget_sample (payload ev)"
  shows "scan_runs gap (es @ [ev]) (s\<lparr>ws_scope := sc\<rparr>) gs"
  using scan_runs_kept [OF assms(1), of ev] assms
  by (auto simp: scan_runs_def split: option.splits)

lemma scan_runs_stale:
  assumes "scan_runs gap es s gs" and "budget_sample (payload ev)"
  shows "scan_runs gap (es @ [ev]) (close_stale gap (ts_mono_ns ev) s) gs"
proof (cases "ws_current s")
  case None
  with scan_runs_kept [OF assms(1), of ev] assms show ?thesis
    by (auto simp: scan_runs_def close_stale_def)
next
  case (Some w)
  with assms(1) obtain hs g where gs: "gs = hs @ [g]" by (cases gs rule: rev_cases) (auto simp: scan_runs_def)
  with Some scan_runs_kept [OF assms(1), of ev] assms show ?thesis
    by (cases "gap < sat_sub (ts_mono_ns ev) (ws_last_over s)") (simp_all add: scan_runs_def close_stale_def)
qed

lemma scan_runs_over:
  assumes "scan_runs gap (es @ [ev]) s gs" and "\<forall>y \<in> set (concat gs). os_at y < length es"
    and "os_ev x = ev" and "os_at x = length es"
  shows "\<exists>gs'. concat gs' = concat gs @ [x] \<and>
    scan_runs gap (es @ [ev]) (s\<lparr>ws_last_over := ts_mono_ns ev,
      ws_current := Some (case ws_current s of
          Some w \<Rightarrow> extend_window ev (os_bytes x) (os_recommended x) (os_scope x) w
        | None \<Rightarrow> open_window ev (os_bytes x) (os_recommended x) (os_scope x))\<rparr>) gs'"
proof -
  have far: "far (es @ [ev]) gap a x \<longleftrightarrow> lapsed (es @ [ev]) gap a" for a
    by (simp add: far_def assms(4))
  have live: "\<not> lapsed (es @ [ev]) gap x" by (simp add: lapsed_def assms(4))
  show ?thesis
  proof (cases "ws_current s")
    case None
    with assms(1) have "are_runs (es @ [ev]) gap (gs @ [[x]])"
      by (intro are_runs_open) (simp_all add: scan_runs_def far)
    with None assms live show ?thesis
      by (intro exI [of _ "gs @ [[x]]"]) (simp add: scan_runs_def window_of_single)
  next
    case (Some w)
    with assms(1) obtain hs g where gs: "gs = hs @ [g]" by (cases gs rule: rev_cases) (auto simp: scan_runs_def)
    with Some assms(1) have runs: "are_runs (es @ [ev]) gap (hs @ [g @ [x]])"
      by (intro are_runs_extend) (simp_all add: scan_runs_def far)
    from assms(1) gs have "g \<noteq> []" by (simp add: scan_runs_def are_runs_def)
    with runs Some assms live show ?thesis
      by (intro exI [of _ "hs @ [g @ [x]]"]) (simp add: scan_runs_def window_of_snoc gs)
  qed
qed

lemma window_step_runs:
  assumes runs: "scan_runs gap es s gs" and scope: "ws_scope s = scopes_open es"
  shows "ws_scope (window_step th gap s ev) = scopes_open (es @ [ev]) \<and>
    (\<exists>gs'. concat gs' = concat gs @ over_of th (scope_label (scopes_open es)) (length es) ev (payload ev) \<and>
      scan_runs gap (es @ [ev]) (window_step th gap s ev) gs')"
proof -
  note idle = scan_runs_idle [OF runs]
  note same = idle [where sc = "ws_scope s", simplified]
  note stale = scan_runs_stale [OF runs]
  have keep: "ws_scope (close_stale gap t s) = ws_scope s" for t
    by (simp add: close_stale_def split: option.splits)
  show ?thesis
  proof (cases "payload ev")
    case (MetalDeviceMemSample allocated recommended at_event)
    let ?s1 = "close_stale gap (ts_mono_ns ev) s"
    define x where "x = \<lparr>os_at = length es, os_ev = ev, os_bytes = allocated, os_recommended = recommended,
      os_scope = scope_label (scopes_open es)\<rparr>"
    have sc: "scopes_open (es @ [ev]) = scopes_open es"
      by (simp add: scopes_open_snoc scope_step_def MetalDeviceMemSample)
    consider "recommended = 0" | "recommended \<noteq> 0" "th \<le> f64_ratio allocated recommended"
      | "recommended \<noteq> 0" "\<not> th \<le> f64_ratio allocated recommended" by blast
    then show ?thesis
    proof cases
      case 1
      with same [of ev] show ?thesis
        by (intro conjI exI [of _ gs]) (simp_all add: window_step_def MetalDeviceMemSample sc scope)
    next
      case 3
      with stale [of ev] show ?thesis
        by (intro conjI exI [of _ gs]) (simp_all add: window_step_def MetalDeviceMemSample sc scope keep)
    next
      case 2
      have b: "budget_sample (payload ev)" using 2 by (simp add: MetalDeviceMemSample)
      have x: "os_ev x = ev" "os_at x = length es" by (simp_all add: x_def)
      have at: "\<forall>y \<in> set (concat gs). os_at y < length es" using runs by (simp add: scan_runs_def)
      obtain gs' where gs': "concat gs' = concat gs @ [x]"
        "scan_runs gap (es @ [ev]) (?s1\<lparr>ws_last_over := ts_mono_ns ev,
          ws_current := Some (case ws_current ?s1 of
              Some w \<Rightarrow> extend_window ev (os_bytes x) (os_recommended x) (os_scope x) w
            | None \<Rightarrow> open_window ev (os_bytes x) (os_recommended x) (os_scope x))\<rparr>) gs'"
        using scan_runs_over [OF stale [OF b] at x] by blast
      have "window_step th gap s ev = ?s1\<lparr>ws_last_over := ts_mono_ns ev,
          ws_current := Some (case ws_current ?s1 of
              Some w \<Rightarrow> extend_window ev (os_bytes x) (os_recommended x) (os_scope x) w
            | None \<Rightarrow> open_window ev (os_bytes x) (os_recommended x) (os_scope x))\<rparr>"
        using 2 scope keep
        by (simp add: window_step_def MetalDeviceMemSample Let_def x_def split: option.splits)
      with 2 gs' show ?thesis
        by (intro conjI exI [of _ gs']) (simp_all add: MetalDeviceMemSample sc scope keep x_def)
    qed
  next
    case (ModuleReturned call_id)
    with same [of ev] idle [of ev] show ?thesis
      by (intro conjI exI [of _ gs])
        (auto simp: window_step_def scopes_open_snoc scope_step_def scope split: option.splits)
  next
    case (ModuleEntered a b c d e f g)
    with idle [of ev] show ?thesis
      by (intro conjI exI [of _ gs])
        (simp_all add: window_step_def scopes_open_snoc scope_step_def scope)
  qed (use same [of ev] in \<open>intro conjI exI [of _ gs]; simp add: window_step_def scopes_open_snoc scope_step_def scope\<close>)+
qed

definition window_inv :: "f64 \<Rightarrow> u64 \<Rightarrow> event list \<Rightarrow> window_scan \<Rightarrow> bool" where
  "window_inv th gap es s \<longleftrightarrow>
     ws_scope s = scopes_open es \<and> (\<exists>gs. concat gs = over_samples th es \<and> scan_runs gap es s gs)"

interpretation window_scan: stream_fold "window_step th gap" window_scan_init "window_inv th gap" for th gap
proof unfold_locales
  show "window_inv th gap [] window_scan_init"
    by (auto simp: window_inv_def window_scan_init_def scopes_open_def over_samples_def scan_runs_def
        are_runs_def intro: exI [of _ "[]"])
next
  fix es s e
  assume "window_inv th gap es s"
  then obtain gs where gs: "ws_scope s = scopes_open es" "concat gs = over_samples th es" "scan_runs gap es s gs"
    unfolding window_inv_def by blast
  from window_step_runs [OF gs(3) gs(1), of th e] gs(2)
  show "window_inv th gap (es @ [e]) (window_step th gap s e)"
    unfolding window_inv_def over_samples_snoc by auto
qed

text \<open>
  C26. The over-budget windows are the runs of the samples at or above the threshold, in the order
  of the log, whatever the order of the stamps: every such sample lies in exactly one window; two
  samples that follow each other belong to different windows exactly when some sample after the
  first and up to the second, over or under the threshold, is stamped more than the gap after
  the first; and a window has the stamps of its first and last sample and the figures and the
  innermost open scope of the first of its greatest samples.
\<close>
theorem over_budget_windows_exact:
  "\<exists>gs. over_budget_windows es th gap = map window_of gs \<and> concat gs = over_samples th es \<and>
    are_runs es gap gs"
proof -
  let ?s = "foldl (window_step th gap) window_scan_init es"
  from window_scan.holds_run [of th gap es] obtain gs where
    gs: "concat gs = over_samples th es" "scan_runs gap es ?s gs" by (auto simp: window_inv_def)
  have "over_budget_windows es th gap = map window_of gs"
  proof (cases "ws_current ?s")
    case None
    with gs(2) show ?thesis by (simp add: over_budget_windows_def Let_def scan_runs_def)
  next
    case (Some w)
    with gs(2) obtain hs g where "gs = hs @ [g]" by (cases gs rule: rev_cases) (auto simp: scan_runs_def)
    with Some gs(2) show ?thesis by (simp add: over_budget_windows_def Let_def scan_runs_def)
  qed
  with gs show ?thesis by (auto simp: scan_runs_def)
qed

end
