(* ===== verification/Budget.thy ===== *)
theory Budget
  imports Utf8Text
begin

text \<open>
  The response-size guard of the MCP server, \<open>crates/smeltr-mcp/src/budget.rs\<close>.  A JSON value is
  that of \<open>serde_json\<close>, whose objects are sorted maps (the feature \<open>preserve_order\<close> is off), here
  association lists in key order.  A number is the text it prints as, and \<open>esc c\<close> is the number of
  bytes the byte \<open>c\<close> of a string takes when printed.
\<close>

datatype json =
  JNull
| JBool bool
| JNum string
| JStr string
| JArr "json list"
| JObj "(string \<times> json) list"

type_synonym json_map = "(string \<times> json) list"
type_synonym escaping = "char \<Rightarrow> nat"

section \<open>Sizes\<close>

definition str_size :: "escaping \<Rightarrow> string \<Rightarrow> nat" where
  "str_size esc s = 2 + sum_list (map esc s)"

text \<open>The length of the compact JSON of a value: brackets, and members separated by commas.\<close>

definition frame_size :: "nat \<Rightarrow> nat" where
  "frame_size n = 2 + (n - 1)"

fun size_of :: "escaping \<Rightarrow> json \<Rightarrow> nat"
  and items_size :: "escaping \<Rightarrow> json list \<Rightarrow> nat"
  and members_size :: "escaping \<Rightarrow> json_map \<Rightarrow> nat" where
  "size_of esc JNull = 4"
| "size_of esc (JBool b) = (if b then 4 else 5)"
| "size_of esc (JNum t) = length t"
| "size_of esc (JStr s) = str_size esc s"
| "size_of esc (JArr a) = frame_size (length a) + items_size esc a"
| "size_of esc (JObj m) = frame_size (length m) + members_size esc m"
| "items_size esc [] = 0"
| "items_size esc (v # vs) = size_of esc v + items_size esc vs"
| "members_size esc [] = 0"
| "members_size esc ((k, v) # ms) = str_size esc k + 1 + size_of esc v + members_size esc ms"

definition RESPONSE_BUDGET_CHARS :: nat where "RESPONSE_BUDGET_CHARS = 60000"
definition NOTICE_KEY :: string where "NOTICE_KEY = ''_truncated''"
definition MIN_CUT_STRING :: nat where "MIN_CUT_STRING = 64"

section \<open>Sorted maps\<close>

fun map_insert :: "string \<Rightarrow> json \<Rightarrow> json_map \<Rightarrow> json_map" where
  "map_insert k v [] = [(k, v)]"
| "map_insert k v ((k', v') # m) =
     (if k = k' then (k, v) # m
      else if k < k' then (k, v) # (k', v') # m
      else (k', v') # map_insert k v m)"

definition map_remove :: "string \<Rightarrow> json_map \<Rightarrow> json_map" where
  "map_remove k m = filter (\<lambda>p. fst p \<noteq> k) m"

section \<open>The notice\<close>

record cut_entry =
  cu_path :: string
  cu_kept :: nat
  cu_of :: nat
  cu_unit :: string

definition cut_json :: "cut_entry \<Rightarrow> json" where
  "cut_json c =
     JObj [(''kept'', JNum (digits (cu_kept c))), (''of'', JNum (digits (cu_of c))),
           (''path'', JStr (cu_path c)), (''unit'', JStr (cu_unit c))]"

definition cut_notice :: "nat \<Rightarrow> nat \<Rightarrow> string \<Rightarrow> cut_entry list \<Rightarrow> bool \<Rightarrow> json" where
  "cut_notice budget original hint cuts all =
     JObj ([(''budget_chars'', JNum (digits budget)), (''cut'', JArr (map cut_json cuts))] @
           (if all then [(''dropped'', JStr ''the whole result: nothing in it could be cut to fit'')] else []) @
           [(''hint'', JStr hint), (''original_chars'', JNum (digits original))])"

section \<open>Candidates\<close>

datatype cut_kind = Sequence | Object

type_synonym json_path = "string list"

record best_cuts =
  bc_sequence :: "(nat \<times> json_path) option"
  bc_object :: "(nat \<times> json_path) option"

definition best_init :: best_cuts where
  "best_init = \<lparr>bc_sequence = None, bc_object = None\<rparr>"

definition better :: "(nat \<times> json_path) option \<Rightarrow> nat \<Rightarrow> json_path \<Rightarrow> (nat \<times> json_path) option" where
  "better slot score path =
     (case slot of
        None \<Rightarrow> Some (score, path)
      | Some (s, p) \<Rightarrow> if s < score then Some (score, path) else Some (s, p))"

definition offer :: "cut_kind \<Rightarrow> nat \<Rightarrow> json_path \<Rightarrow> best_cuts \<Rightarrow> best_cuts" where
  "offer kind score path b =
     (case kind of
        Sequence \<Rightarrow> b\<lparr>bc_sequence := better (bc_sequence b) score path\<rparr>
      | Object \<Rightarrow> b\<lparr>bc_object := better (bc_object b) score path\<rparr>)"

definition pick :: "best_cuts \<Rightarrow> json_path option" where
  "pick b = map_option snd (case bc_sequence b of Some c \<Rightarrow> Some c | None \<Rightarrow> bc_object b)"

text \<open>\<open>walk\<close>: the size of a value, and the best candidates below \<open>path\<close>.\<close>

fun walk :: "escaping \<Rightarrow> json \<Rightarrow> json_path \<Rightarrow> best_cuts \<Rightarrow> nat \<times> best_cuts"
  and walk_items :: "escaping \<Rightarrow> json list \<Rightarrow> nat \<Rightarrow> json_path \<Rightarrow> best_cuts \<Rightarrow> nat \<Rightarrow> nat \<Rightarrow> nat \<times> nat \<times> best_cuts"
  and walk_members :: "escaping \<Rightarrow> json_map \<Rightarrow> json_path \<Rightarrow> best_cuts \<Rightarrow> nat \<Rightarrow> nat \<Rightarrow> nat \<times> nat \<times> best_cuts" where
  "walk esc (JArr a) path b =
     (case walk_items esc a 0 path b (frame_size (length a)) 0 of
        (sz, largest, b1) \<Rightarrow> (sz, if a = [] then b1 else offer Sequence (sz - largest) path b1))"
| "walk esc (JObj m) path b =
     (case walk_members esc m path b (frame_size (length m)) 0 of
        (sz, largest, b1) \<Rightarrow> (sz, if m = [] then b1 else offer Object (sz - largest) path b1))"
| "walk esc (JStr s) path b =
     (str_size esc s, if MIN_CUT_STRING \<le> length s then offer Sequence (str_size esc s) path b else b)"
| "walk esc v path b = (size_of esc v, b)"
| "walk_items esc [] i path b sz largest = (sz, largest, b)"
| "walk_items esc (e # es) i path b sz largest =
     (let r = walk esc e (path @ [digits i]) b
      in walk_items esc es (Suc i) path (snd r) (sz + fst r) (max largest (fst r)))"
| "walk_members esc [] path b sz largest = (sz, largest, b)"
| "walk_members esc ((k, e) # ms) path b sz largest =
     (let r = walk esc e (path @ [k]) b; t = str_size esc k + 1 + fst r
      in walk_members esc ms path (snd r) (sz + t) (max largest t))"

fun walk_root_from :: "escaping \<Rightarrow> json_map \<Rightarrow> nat \<Rightarrow> best_cuts \<Rightarrow> nat \<times> best_cuts" where
  "walk_root_from esc [] sz b = (sz, b)"
| "walk_root_from esc ((k, v) # m) sz b =
     (if k = NOTICE_KEY then walk_root_from esc m (sz + (str_size esc k + 1) + size_of esc v) b
      else let r = walk esc v [k] b
           in walk_root_from esc m (sz + (str_size esc k + 1) + fst r) (snd r))"

definition walk_root :: "escaping \<Rightarrow> json_map \<Rightarrow> nat \<times> best_cuts" where
  "walk_root esc m = walk_root_from esc m (frame_size (length m)) best_init"

section \<open>Cutting\<close>

text \<open>The elements of an array that are popped, from its end (the list is reversed).\<close>

fun pop_items :: "escaping \<Rightarrow> nat \<Rightarrow> nat \<Rightarrow> json list \<Rightarrow> json list" where
  "pop_items esc excess freed [] = []"
| "pop_items esc excess freed (v # vs) =
     (if freed < excess then pop_items esc excess (freed + size_of esc v + (if vs = [] then 0 else 1)) vs
      else v # vs)"

fun pop_members :: "escaping \<Rightarrow> nat \<Rightarrow> nat \<Rightarrow> json_map \<Rightarrow> json_map" where
  "pop_members esc excess freed [] = []"
| "pop_members esc excess freed ((k, v) # ms) =
     (if excess \<le> freed then (k, v) # ms
      else pop_members esc excess (freed + (str_size esc k + 1 + size_of esc v + 1)) ms)"

fun cut_node :: "escaping \<Rightarrow> nat \<Rightarrow> json \<Rightarrow> json \<times> nat \<times> nat \<times> string" where
  "cut_node esc excess (JArr a) =
     (let a1 = rev (pop_items esc excess 0 (rev a)) in (JArr a1, length a1, length a, ''items''))"
| "cut_node esc excess (JStr s) =
     (let s1 = take (boundary_below s (length s - excess)) s
      in (JStr s1, length (utf8_chars s1), length (utf8_chars s), ''chars''))"
| "cut_node esc excess (JObj m) =
     (let m1 = rev (pop_members esc excess 0 (rev m)) in (JObj m1, length m1, length m, ''keys''))"
| "cut_node esc excess v = (v, 0, 0, ''items'')"

text \<open>The node a path leads to, and the value with that node replaced.\<close>

fun child :: "json \<Rightarrow> string \<Rightarrow> json option" where
  "child (JObj m) seg = map_of m seg"
| "child (JArr a) seg =
     (case parse_u64 seg of None \<Rightarrow> None | Some i \<Rightarrow> if i < length a then Some (a ! i) else None)"
| "child v seg = None"

fun node_at :: "json \<Rightarrow> json_path \<Rightarrow> json option" where
  "node_at v [] = Some v"
| "node_at v (seg # p) = (case child v seg of None \<Rightarrow> None | Some u \<Rightarrow> node_at u p)"

fun set_child :: "json \<Rightarrow> string \<Rightarrow> json \<Rightarrow> json" where
  "set_child (JObj m) seg u = JObj (map (\<lambda>(k, v). if k = seg then (k, u) else (k, v)) m)"
| "set_child (JArr a) seg u =
     (case parse_u64 seg of None \<Rightarrow> JArr a | Some i \<Rightarrow> JArr (a[i := u]))"
| "set_child v seg u = v"

fun put_at :: "json \<Rightarrow> json_path \<Rightarrow> json \<Rightarrow> json" where
  "put_at v [] u = u"
| "put_at v (seg # p) u =
     (case child v seg of None \<Rightarrow> v | Some w \<Rightarrow> set_child v seg (put_at w p u))"

definition pointer_mut :: "json_map \<Rightarrow> json_path \<Rightarrow> json option" where
  "pointer_mut root path = (case path of [] \<Rightarrow> None | _ \<Rightarrow> node_at (JObj root) path)"

text \<open>RFC 6901.\<close>

definition pointer :: "json_path \<Rightarrow> string" where
  "pointer path =
     concat (map (\<lambda>s. CHR ''/'' # concat (map (\<lambda>c. if c = CHR 0x7E then CHR 0x7E # ''0''
         else if c = CHR ''/'' then CHR 0x7E # ''1'' else [c]) s)) path)"

fun record_cut :: "string \<Rightarrow> nat \<Rightarrow> nat \<Rightarrow> string \<Rightarrow> cut_entry list \<Rightarrow> cut_entry list" where
  "record_cut path kept of_n u [] = [\<lparr>cu_path = path, cu_kept = kept, cu_of = of_n, cu_unit = u\<rparr>]"
| "record_cut path kept of_n u (c # cs) =
     (if cu_path c = path then c\<lparr>cu_kept := kept\<rparr> # cs else c # record_cut path kept of_n u cs)"

section \<open>Fitting\<close>

fun members :: "json \<Rightarrow> json_map" where
  "members (JObj m) = m"
| "members v = []"

text \<open>
  The loop: \<open>Inr\<close> when the root fits with its notice, or when a path leads nowhere, \<open>Inl\<close> when
  nothing can be cut any more.
\<close>

partial_function (option) fit_loop ::
  "escaping \<Rightarrow> nat \<Rightarrow> nat \<Rightarrow> string \<Rightarrow> json_map \<Rightarrow> cut_entry list \<Rightarrow>
   (cut_entry list + json_map \<times> cut_entry list) option" where
  "fit_loop esc budget original hint root cuts =
     (case walk_root esc (map_insert NOTICE_KEY (cut_notice budget original hint cuts False) root) of
        (sz, best) \<Rightarrow>
          (let root1 = map_remove NOTICE_KEY root
           in if sz \<le> budget then Some (Inr (root1, cuts))
              else
                (case pick best of
                   None \<Rightarrow> Some (Inl cuts)
                 | Some path \<Rightarrow>
                     (case pointer_mut root1 path of
                        None \<Rightarrow> Some (Inr (root1, cuts))
                      | Some node \<Rightarrow>
                          (case cut_node esc (sz - budget) node of
                             (node1, kept, of_n, u) \<Rightarrow>
                               fit_loop esc budget original hint (members (put_at (JObj root1) path node1))
                                 (record_cut (pointer path) kept of_n u cuts))))))"

declare fit_loop.simps [code]

definition wrap_root :: "json \<Rightarrow> json_map" where
  "wrap_root v = (case v of JObj m \<Rightarrow> m | _ \<Rightarrow> [(''result'', v)])"

definition fit :: "escaping \<Rightarrow> json \<Rightarrow> nat \<Rightarrow> string \<Rightarrow> json option" where
  "fit esc v budget hint =
     (if size_of esc v \<le> budget then Some v
      else
        (case fit_loop esc budget (size_of esc v) hint (wrap_root v) [] of
           None \<Rightarrow> None
         | Some (Inl cuts) \<Rightarrow> Some (JObj [(NOTICE_KEY, cut_notice budget (size_of esc v) hint cuts True)])
         | Some (Inr (root, cuts)) \<Rightarrow>
             Some (JObj (map_insert NOTICE_KEY (cut_notice budget (size_of esc v) hint cuts False) root))))"

end
