(* ===== verification/BudgetFacts.thy ===== *)
theory BudgetFacts
  imports Budget
begin

text \<open>
  The size guard returns on every value, what it returns fits, and it has only cut the ends of
  arrays, strings and objects.
\<close>

section \<open>Well-formed values\<close>

text \<open>Objects are sorted maps, and lengths are those of vectors.\<close>

fun json_wf :: "json \<Rightarrow> bool" and members_wf :: "json_map \<Rightarrow> bool" where
  "json_wf (JArr a) \<longleftrightarrow> length a < 2 ^ 64 \<and> list_all json_wf a"
| "json_wf (JObj m) \<longleftrightarrow> sorted_wrt (<) (map fst m) \<and> members_wf m"
| "json_wf v \<longleftrightarrow> True"
| "members_wf [] \<longleftrightarrow> True"
| "members_wf ((k, v) # ms) \<longleftrightarrow> json_wf v \<and> members_wf ms"

lemma members_wf_iff: "members_wf m \<longleftrightarrow> (\<forall>(k, v) \<in> set m. json_wf v)"
  by (induction m) auto

fun weight :: "json \<Rightarrow> nat" and items_weight :: "json list \<Rightarrow> nat" and members_weight :: "json_map \<Rightarrow> nat" where
  "weight (JArr a) = items_weight a"
| "weight (JObj m) = members_weight m"
| "weight (JStr s) = length s"
| "weight v = 0"
| "items_weight [] = 0"
| "items_weight (v # vs) = 1 + weight v + items_weight vs"
| "members_weight [] = 0"
| "members_weight ((k, v) # ms) = 1 + weight v + members_weight ms"

lemma items_weight_eq: "items_weight a = sum_list (map (\<lambda>v. 1 + weight v) a)"
  by (induction a) auto

lemma members_weight_eq: "members_weight m = sum_list (map (\<lambda>p. 1 + weight (snd p)) m)"
  by (induction m) auto

fun cuttable :: "json \<Rightarrow> bool" where
  "cuttable (JArr a) \<longleftrightarrow> a \<noteq> []"
| "cuttable (JObj m) \<longleftrightarrow> m \<noteq> []"
| "cuttable (JStr s) \<longleftrightarrow> MIN_CUT_STRING \<le> length s"
| "cuttable v \<longleftrightarrow> False"

section \<open>The walk\<close>

lemma walk_sizes:
  "fst (walk esc v path b) = size_of esc v"
  "fst (walk_items esc es i path b sz largest) = sz + items_size esc es"
  "fst (walk_members esc ms path b sz largest) = sz + members_size esc ms"
  by (induction esc v path b and esc es i path b sz largest and esc ms path b sz largest
      rule: walk_walk_items_walk_members.induct)
    (simp_all add: split_beta Let_def)

lemma node_at_append: "node_at v (p @ q) = (case node_at v p of None \<Rightarrow> None | Some u \<Rightarrow> node_at u q)"
  by (induction v p rule: node_at.induct) (auto split: option.splits)

definition leads :: "json \<Rightarrow> json_path \<Rightarrow> bool" where
  "leads root p \<longleftrightarrow> (\<exists>u. node_at root p = Some u \<and> cuttable u) \<and> p \<noteq> []"

definition good_cuts :: "json \<Rightarrow> best_cuts \<Rightarrow> bool" where
  "good_cuts root b \<longleftrightarrow>
     (\<forall>s p. bc_sequence b = Some (s, p) \<or> bc_object b = Some (s, p) \<longrightarrow> leads root p)"

lemma good_offer: "good_cuts root b \<Longrightarrow> leads root p \<Longrightarrow> good_cuts root (offer k s p b)"
  by (cases k) (auto simp: good_cuts_def offer_def better_def split: option.splits if_splits)

lemma walk_good:
  "json_wf v \<Longrightarrow> node_at root path = Some v \<Longrightarrow> path \<noteq> [] \<Longrightarrow> good_cuts root b \<Longrightarrow>
     good_cuts root (snd (walk esc v path b))"
  "(\<And>j. j < length es \<Longrightarrow> json_wf (es ! j) \<and> node_at root (path @ [digits (i + j)]) = Some (es ! j)) \<Longrightarrow>
     good_cuts root b \<Longrightarrow> good_cuts root (snd (snd (walk_items esc es i path b sz largest)))"
  "(\<And>k e. (k, e) \<in> set ms \<Longrightarrow> json_wf e \<and> node_at root (path @ [k]) = Some e) \<Longrightarrow>
     good_cuts root b \<Longrightarrow> good_cuts root (snd (snd (walk_members esc ms path b sz largest)))"
proof (induction esc v path b and esc es i path b sz largest and esc ms path b sz largest
      rule: walk_walk_items_walk_members.induct)
  case (1 esc a path b)
  have "json_wf (a ! j) \<and> node_at root (path @ [digits (0 + j)]) = Some (a ! j)" if "j < length a" for j
    using 1(2,3) that by (simp add: node_at_append list_all_length)
  from "1.IH" [OF this "1.prems"(4)] have
    "good_cuts root (snd (snd (walk_items esc a 0 path b (frame_size (length a)) 0)))" by simp
  moreover have "leads root path" if "a \<noteq> []" using "1.prems" that by (simp add: leads_def)
  ultimately show ?case using "1.prems"(4) by (simp add: split_beta good_offer)
next
  case (2 esc m path b)
  have "json_wf e \<and> node_at root (path @ [k]) = Some e" if "(k, e) \<in> set m" for k e
  proof -
    have "distinct (map fst m)" using 2(2) strict_sorted_iff [of "map fst m"] by simp
    with that 2(2,3) show ?thesis by (auto simp: node_at_append members_wf_iff)
  qed
  from "2.IH" [OF this "2.prems"(4)] have
    "good_cuts root (snd (snd (walk_members esc m path b (frame_size (length m)) 0)))" by simp
  moreover have "leads root path" if "m \<noteq> []" using "2.prems" that by (simp add: leads_def)
  ultimately show ?case using "2.prems"(4) by (simp add: split_beta good_offer)
next
  case (3 esc s path b)
  then show ?case by (auto simp: leads_def intro!: good_offer)
next
  case (6 esc e es i path b sz largest)
  have e: "json_wf e \<and> node_at root (path @ [digits i]) = Some e" using "6.prems"(1) [of 0] by simp
  have rest: "json_wf (es ! j) \<and> node_at root (path @ [digits (Suc i + j)]) = Some (es ! j)"
    if "j < length es" for j
    using "6.prems"(1) [of "Suc j"] that by simp
  from "6.IH"(1) e "6.prems"(2) have "good_cuts root (snd (walk esc e (path @ [digits i]) b))" by simp
  from "6.IH"(2) [OF refl rest this] show ?case by (simp add: Let_def)
next
  case (8 esc k e ms path b sz largest)
  have e: "json_wf e \<and> node_at root (path @ [k]) = Some e" using "8.prems"(1) [of k e] by simp
  have rest: "json_wf e' \<and> node_at root (path @ [k']) = Some e'" if "(k', e') \<in> set ms" for k' e'
    using "8.prems"(1) [of k' e'] that by simp
  from "8.IH"(1) e "8.prems"(2) have "good_cuts root (snd (walk esc e (path @ [k]) b))" by simp
  from "8.IH"(2) [OF refl refl rest this] show ?case by (simp add: Let_def)
qed simp_all

text \<open>A walk without a candidate found nothing to cut.\<close>

lemma offer_some: "bc_sequence (offer k s p b) = None \<Longrightarrow> bc_object (offer k s p b) = None \<Longrightarrow> False"
  by (cases k) (auto simp: offer_def better_def split: option.splits if_splits)

lemma offer_keeps:
  "bc_sequence (offer k s p b) = None \<Longrightarrow> bc_sequence b = None"
  "bc_object (offer k s p b) = None \<Longrightarrow> bc_object b = None"
  by (cases k; auto simp: offer_def better_def split: option.splits if_splits)+

definition keeps_cuts :: "best_cuts \<Rightarrow> best_cuts \<Rightarrow> bool" where
  "keeps_cuts b b' \<longleftrightarrow>
     (bc_sequence b' = None \<longrightarrow> bc_sequence b = None) \<and> (bc_object b' = None \<longrightarrow> bc_object b = None)"

lemma keeps_cuts_trans: "keeps_cuts a b \<Longrightarrow> keeps_cuts b c \<Longrightarrow> keeps_cuts a c"
  by (simp add: keeps_cuts_def)

lemma keeps_cuts_refl [simp]: "keeps_cuts b b"
  by (simp add: keeps_cuts_def)

lemma keeps_offer: "keeps_cuts b (offer k s p b)"
  using offer_keeps by (auto simp: keeps_cuts_def)

lemma walk_keeps:
  "keeps_cuts b (snd (walk esc v path b))"
  "keeps_cuts b (snd (snd (walk_items esc es i path b sz largest)))"
  "keeps_cuts b (snd (snd (walk_members esc ms path b sz largest)))"
proof (induction esc v path b and esc es i path b sz largest and esc ms path b sz largest
      rule: walk_walk_items_walk_members.induct)
  case (1 esc a path b)
  from keeps_cuts_trans [OF this keeps_offer] this show ?case by (simp add: split_beta)
next
  case (2 esc m path b)
  from keeps_cuts_trans [OF this keeps_offer] this show ?case by (simp add: split_beta)
next
  case (6 esc e es i path b sz largest)
  from keeps_cuts_trans [OF 6(1) 6(2) [OF refl]] show ?case by (simp add: Let_def)
next
  case (8 esc k e ms path b sz largest)
  from keeps_cuts_trans [OF 8(1) 8(2) [OF refl refl]] show ?case by (simp add: Let_def)
qed (simp_all add: keeps_offer)

definition no_cut :: "best_cuts \<Rightarrow> bool" where
  "no_cut b \<longleftrightarrow> bc_sequence b = None \<and> bc_object b = None"

lemma pick_None: "pick b = None \<longleftrightarrow> no_cut b"
  by (auto simp: pick_def no_cut_def split: option.splits)

lemma walk_no_cut: "no_cut (snd (walk esc v path b)) \<Longrightarrow> no_cut b \<and> \<not> cuttable v"
  using walk_keeps(1) [of b esc v path]
  by (cases v) (auto simp: no_cut_def keeps_cuts_def split_beta dest: offer_some split: if_splits)

lemma walk_root_facts:
  "fst (walk_root_from esc m sz b) = sz + members_size esc m"
  "no_cut (snd (walk_root_from esc m sz b)) \<Longrightarrow>
     no_cut b \<and> (\<forall>(k, v) \<in> set m. k \<noteq> NOTICE_KEY \<longrightarrow> \<not> cuttable v)"
proof (induction esc m sz b rule: walk_root_from.induct)
  case (2 esc k v m sz b)
  {
    case 1
    with "2.IH" show ?case by (simp add: Let_def walk_sizes)
  next
    case 2
    with "2.IH" show ?case by (auto simp: Let_def dest: walk_no_cut split: if_splits)
  }
qed simp_all

lemma walk_root_good:
  assumes "\<And>k v. (k, v) \<in> set m \<Longrightarrow> k \<noteq> NOTICE_KEY \<Longrightarrow> json_wf v \<and> node_at root [k] = Some v"
    and "good_cuts root b"
  shows "good_cuts root (snd (walk_root_from esc m sz b))"
  using assms
proof (induction esc m sz b rule: walk_root_from.induct)
  case (2 esc k v m sz b)
  show ?case
  proof (cases "k = NOTICE_KEY")
    case True
    with 2 show ?thesis by simp
  next
    case False
    have "good_cuts root (snd (walk esc v [k] b))"
      using "2.prems"(1) [of k v] False "2.prems"(2) by (intro walk_good(1)) simp_all
    moreover have "json_wf w \<and> node_at root [l] = Some w" if "(l, w) \<in> set m" "l \<noteq> NOTICE_KEY" for l w
      using "2.prems"(1) [of l w] that by simp
    ultimately have "good_cuts root (snd (walk_root_from esc m
        (sz + (str_size esc k + 1) + fst (walk esc v [k] b)) (snd (walk esc v [k] b))))"
      by (intro "2.IH"(2) [OF False refl])
    with False show ?thesis by (simp add: Let_def)
  qed
qed simp

section \<open>Sorted maps\<close>

lemma map_insert_remove:
  "sorted_wrt (<) (map fst m) \<Longrightarrow> map_remove k (map_insert k v m) = map_remove k m"
  "sorted_wrt (<) (map fst m) \<Longrightarrow> map_insert k v (map_remove k m) = map_insert k v m"
proof (induction k v m rule: map_insert.induct)
  case (2 k v k' v' m)
  {
    case 1
    with 2 show ?case by (auto simp: map_remove_def)
  next
    case 2
    have gone: "map_remove k m = m" if "k \<le> k'"
      using that 2 by (auto simp: map_remove_def filter_id_conv dest: order_le_less_trans)
    show ?case
    proof (cases k k' rule: linorder_cases)
      case less
      then show ?thesis using gone by (auto simp: map_remove_def)
    next
      case equal
      have "map_insert k v m = (k, v) # m"
        using 2 equal by (cases m) auto
      then show ?thesis using gone equal by (auto simp: map_remove_def)
    next
      case greater
      with "2.IH"(2) 2 show ?thesis by (auto simp: map_remove_def)
    qed
  }
qed (simp_all add: map_remove_def)

lemma map_insert_set: "set (map_insert k v m) \<subseteq> insert (k, v) (set m)"
  by (induction k v m rule: map_insert.induct) auto

lemma sorted_remove: "sorted_wrt (<) (map fst m) \<Longrightarrow> sorted_wrt (<) (map fst (map_remove k m))"
  by (induction m) (auto simp: map_remove_def)

lemma map_remove_wf: "json_wf (JObj m) \<Longrightarrow> json_wf (JObj (map_remove k m))"
  by (simp add: sorted_remove members_wf_iff) (auto simp: map_remove_def)

lemma map_of_sorted: "json_wf (JObj m) \<Longrightarrow> (k, v) \<in> set m \<Longrightarrow> map_of m k = Some v"
  using strict_sorted_iff [of "map fst m"] by simp

section \<open>One cut\<close>

text \<open>Cutting keeps a prefix.\<close>

fun shorten :: "nat \<Rightarrow> json \<Rightarrow> json" where
  "shorten n (JArr a) = JArr (take n a)"
| "shorten n (JObj m) = JObj (take n m)"
| "shorten n (JStr s) = JStr (take n s)"
| "shorten n v = v"

lemma pop_items_drop: "\<exists>n. pop_items esc excess freed vs = drop n vs \<and> (freed < excess \<and> vs \<noteq> [] \<longrightarrow> 0 < n)"
proof (induction esc excess freed vs rule: pop_items.induct)
  case (2 esc excess freed v vs)
  show ?case
  proof (cases "freed < excess")
    case True
    from "2.IH" [OF this] obtain n where
      "pop_items esc excess (freed + size_of esc v + (if vs = [] then 0 else 1)) vs = drop n vs" by blast
    with True show ?thesis by (intro exI [of _ "Suc n"]) simp
  next
    case False
    then show ?thesis by (intro exI [of _ 0]) simp
  qed
qed simp

lemma pop_members_drop: "\<exists>n. pop_members esc excess freed ms = drop n ms \<and> (freed < excess \<and> ms \<noteq> [] \<longrightarrow> 0 < n)"
proof (induction esc excess freed ms rule: pop_members.induct)
  case (2 esc excess freed k v ms)
  show ?case
  proof (cases "excess \<le> freed")
    case False
    from "2.IH" [OF this] obtain n where
      "pop_members esc excess (freed + (str_size esc k + 1 + size_of esc v + 1)) ms = drop n ms" by blast
    with False show ?thesis by (intro exI [of _ "Suc n"]) simp
  next
    case True
    then show ?thesis by (intro exI [of _ 0]) simp
  qed
qed simp

lemma items_weight_append: "items_weight (a @ b) = items_weight a + items_weight b"
  by (simp add: items_weight_eq)

lemma members_weight_append: "members_weight (a @ b) = members_weight a + members_weight b"
  by (simp add: members_weight_eq)

lemma items_weight_pos: "a \<noteq> [] \<Longrightarrow> 0 < items_weight a"
  by (cases a) auto

lemma members_weight_pos: "m \<noteq> [] \<Longrightarrow> 0 < members_weight m"
  by (cases m) auto

lemma shorten_weight:
  assumes "n < (case v of JArr a \<Rightarrow> length a | JObj m \<Rightarrow> length m | JStr s \<Rightarrow> length s | _ \<Rightarrow> 0)"
  shows "weight (shorten n v) < weight v"
proof (cases v)
  case (JArr a)
  have "items_weight a = items_weight (take n a) + items_weight (drop n a)"
    by (metis append_take_drop_id items_weight_append)
  moreover have "0 < items_weight (drop n a)" using assms JArr by (intro items_weight_pos) simp
  ultimately show ?thesis by (simp add: JArr)
next
  case (JObj m)
  have "members_weight m = members_weight (take n m) + members_weight (drop n m)"
    by (metis append_take_drop_id members_weight_append)
  moreover have "0 < members_weight (drop n m)" using assms JObj by (intro members_weight_pos) simp
  ultimately show ?thesis by (simp add: JObj)
qed (use assms in auto)

lemma shorten_wf: "json_wf v \<Longrightarrow> json_wf (shorten n v)"
proof (cases v)
  case (JArr a)
  assume "json_wf v"
  with JArr show ?thesis by (auto simp: list_all_iff dest: in_set_takeD)
next
  case (JObj m)
  assume "json_wf v"
  with JObj have "sorted_wrt (<) (take n (map fst m))" "\<forall>(k, v) \<in> set (take n m). json_wf v"
    by (auto simp: members_wf_iff sorted_wrt_take dest: in_set_takeD)
  with JObj show ?thesis by (simp add: take_map members_wf_iff)
qed simp_all

lemma boundary_below_upto: "boundary_below s n \<le> n"
  by (induction s n rule: boundary_below.induct) auto

lemma cut_node_shortens:
  assumes "cuttable v" and "0 < excess"
  shows "\<exists>n. fst (cut_node esc excess v) = shorten n v \<and>
    n < (case v of JArr a \<Rightarrow> length a | JObj m \<Rightarrow> length m | JStr s \<Rightarrow> length s | _ \<Rightarrow> 0)"
proof (cases v)
  case (JArr a)
  from pop_items_drop [of esc excess 0 "rev a"] obtain n where
    "pop_items esc excess 0 (rev a) = drop n (rev a)" "0 < n" using assms JArr by auto
  then show ?thesis using assms JArr
    by (intro exI [of _ "length a - n"]) (auto simp: Let_def rev_drop)
next
  case (JObj m)
  from pop_members_drop [of esc excess 0 "rev m"] obtain n where
    "pop_members esc excess 0 (rev m) = drop n (rev m)" "0 < n" using assms JObj by auto
  then show ?thesis using assms JObj
    by (intro exI [of _ "length m - n"]) (auto simp: Let_def rev_drop)
next
  case (JStr s)
  let ?n = "boundary_below s (length s - excess)"
  have "?n \<le> length s - excess" by (rule boundary_below_upto)
  moreover have "0 < length s" using assms(1) JStr by (cases s) (simp_all add: MIN_CUT_STRING_def)
  ultimately have "?n < length s" using assms(2) by linarith
  then show ?thesis using JStr by (intro exI [of _ ?n]) (simp add: Let_def)
qed (use assms in auto)

section \<open>Replacing a node\<close>

lemma child_wf: "json_wf v \<Longrightarrow> child v seg = Some u \<Longrightarrow> json_wf u"
  by (cases v) (auto simp: list_all_length members_wf_iff split: option.splits if_splits dest: map_of_SomeD)

lemma items_weight_update:
  "i < length a \<Longrightarrow> items_weight (a[i := w]) + weight (a ! i) = items_weight a + weight w"
proof (induction a arbitrary: i)
  case (Cons v a)
  then show ?case by (cases i) auto
qed simp

lemma set_child_weight:
  assumes "json_wf v" and "child v seg = Some u"
  shows "weight (set_child v seg w) + weight u = weight v + weight w"
proof (cases v)
  case (JObj m)
  have "distinct (map fst m)" using assms(1) JObj strict_sorted_iff [of "map fst m"] by simp
  then have "map_of m seg = Some u \<Longrightarrow>
      members_weight (map (\<lambda>(k, v). if k = seg then (k, w) else (k, v)) m) + weight u =
      members_weight m + weight w"
  proof (induction m)
    case (Cons x m)
    obtain k v' where x: "x = (k, v')" by (cases x)
    have same: "map (\<lambda>(k, v). if k = seg then (k, w) else (k, v)) m = m" if "seg \<notin> fst ` set m"
      using that by (intro map_idI) (auto simp: image_iff)
    from Cons x same show ?case by (cases "k = seg") auto
  qed simp
  with assms JObj show ?thesis by simp
next
  case (JArr a)
  from assms(2) JArr obtain i where i: "parse_u64 seg = Some i" "i < length a" "u = a ! i"
    by (auto split: option.splits if_splits)
  have "items_weight (a[i := w]) + weight (a ! i) = items_weight a + weight w"
    using i(2) by (rule items_weight_update)
  with i JArr show ?thesis by simp
qed (use assms in auto)

lemma set_child_wf: "json_wf v \<Longrightarrow> json_wf w \<Longrightarrow> json_wf (set_child v seg w)"
proof (cases v)
  case (JObj m)
  assume wf: "json_wf v" "json_wf w"
  have "map fst (map (\<lambda>(k, v). if k = seg then (k, w) else (k, v)) m) = map fst m" by auto
  moreover have "members_wf (map (\<lambda>(k, v). if k = seg then (k, w) else (k, v)) m)"
    using wf JObj by (auto simp: members_wf_iff split: if_splits)
  ultimately show ?thesis using wf JObj by (simp del: map_map)
next
  case (JArr a)
  assume "json_wf v" "json_wf w"
  with JArr show ?thesis
    by (auto simp: list_all_iff split: option.splits dest: set_update_subset_insert [THEN subsetD])
qed simp_all

lemma node_at_wf: "json_wf v \<Longrightarrow> node_at v p = Some u \<Longrightarrow> json_wf u"
  by (induction v p rule: node_at.induct) (auto split: option.splits dest: child_wf)

lemma put_at_facts:
  assumes "json_wf v" and "node_at v p = Some u" and "json_wf w" and "weight w < weight u"
  shows "json_wf (put_at v p w) \<and> weight (put_at v p w) < weight v"
  using assms
proof (induction v p arbitrary: u rule: node_at.induct)
  case (2 v seg p)
  from "2.prems"(2) obtain c where c: "child v seg = Some c" "node_at c p = Some u"
    by (auto split: option.splits)
  from "2.IH" [OF c(1) child_wf [OF "2.prems"(1) c(1)] c(2) "2.prems"(3,4)]
  have "json_wf (put_at c p w)" "weight (put_at c p w) < weight c" by simp_all
  with set_child_wf [OF "2.prems"(1)] set_child_weight [OF "2.prems"(1) c(1), of "put_at c p w"] c(1)
  show ?case by simp
qed simp

section \<open>Fitting\<close>

text \<open>What cutting ends of arrays, strings and objects below the root makes of a value.\<close>

definition shortens :: "json \<Rightarrow> json \<Rightarrow> bool" where
  "shortens v v' \<longleftrightarrow> (\<exists>p n u. p \<noteq> [] \<and> node_at v p = Some u \<and> v' = put_at v p (shorten n u))"

definition trimmed :: "json \<Rightarrow> json \<Rightarrow> bool" where
  "trimmed = shortens\<^sup>*\<^sup>*"

definition with_notice :: "nat \<Rightarrow> nat \<Rightarrow> string \<Rightarrow> json_map \<Rightarrow> cut_entry list \<Rightarrow> json" where
  "with_notice budget original hint root cuts =
     JObj (map_insert NOTICE_KEY (cut_notice budget original hint cuts False) root)"

definition loop_post :: "escaping \<Rightarrow> nat \<Rightarrow> nat \<Rightarrow> string \<Rightarrow> json_map \<Rightarrow> cut_entry list + json_map \<times> cut_entry list \<Rightarrow> bool" where
  "loop_post esc budget original hint root res =
     (case res of
        Inr (root', cuts) \<Rightarrow>
          size_of esc (with_notice budget original hint root' cuts) \<le> budget \<and>
          trimmed (JObj (map_remove NOTICE_KEY root)) (JObj root')
      | Inl cuts \<Rightarrow>
          (\<exists>root'. trimmed (JObj (map_remove NOTICE_KEY root)) (JObj root') \<and>
             (\<forall>(k, v) \<in> set root'. \<not> cuttable v) \<and>
             budget < size_of esc (with_notice budget original hint root' cuts)))"

lemma put_at_root:
  "p \<noteq> [] \<Longrightarrow> JObj (members (put_at (JObj m) p w)) = put_at (JObj m) p w \<and>
     map fst (members (put_at (JObj m) p w)) = map fst m"
  by (cases p) (auto split: option.splits)

lemma members_weight_remove: "members_weight (map_remove k m) \<le> members_weight m"
  by (induction m) (auto simp: map_remove_def)

lemma map_remove_same: "k \<notin> fst ` set m \<Longrightarrow> map_remove k m = m"
  by (auto simp: map_remove_def filter_id_conv image_iff)

lemma walk_root_size: "fst (walk_root esc m) = size_of esc (JObj m)"
  by (simp add: walk_root_def walk_root_facts(1))

lemma walk_root_no_cut:
  "no_cut (snd (walk_root esc m)) \<Longrightarrow> (k, v) \<in> set m \<Longrightarrow> k \<noteq> NOTICE_KEY \<Longrightarrow> \<not> cuttable v"
  using walk_root_facts(2) by (fastforce simp: walk_root_def)

lemma walk_root_leads:
  assumes wf: "json_wf (JObj root)"
    and best: "pick (snd (walk_root esc (map_insert NOTICE_KEY nt root))) = Some path"
  shows "leads (JObj (map_remove NOTICE_KEY root)) path"
proof -
  let ?root = "JObj (map_remove NOTICE_KEY root)"
  have "json_wf v \<and> node_at ?root [k] = Some v"
    if "(k, v) \<in> set (map_insert NOTICE_KEY nt root)" "k \<noteq> NOTICE_KEY" for k v
  proof -
    from that map_insert_set have "(k, v) \<in> set root" by fastforce
    with that(2) have "(k, v) \<in> set (map_remove NOTICE_KEY root)" by (simp add: map_remove_def)
    from map_of_sorted [OF map_remove_wf [OF wf] this] \<open>(k, v) \<in> set root\<close> wf show ?thesis
      by (auto simp: members_wf_iff)
  qed
  then have "good_cuts ?root (snd (walk_root esc (map_insert NOTICE_KEY nt root)))"
    unfolding walk_root_def by (rule walk_root_good) (auto simp: good_cuts_def best_init_def)
  with best show ?thesis by (auto simp: good_cuts_def pick_def split: option.splits)
qed

lemma not_in_removed: "(k, v) \<in> set (map_remove k' m) \<Longrightarrow> (k, v) \<in> set m \<and> k \<noteq> k'"
  by (auto simp: map_remove_def)

lemma in_inserted: "(k, v) \<in> set m \<Longrightarrow> k \<noteq> k' \<Longrightarrow> (k, v) \<in> set (map_insert k' nt m)"
  by (induction k' nt m rule: map_insert.induct) auto

lemma fit_loop_post:
  "json_wf (JObj root) \<Longrightarrow>
     \<exists>res. fit_loop esc budget original hint root cuts = Some res \<and> loop_post esc budget original hint root res"
proof (induction "members_weight root" arbitrary: root cuts rule: less_induct)
  case less
  let ?nt = "cut_notice budget original hint cuts False" and ?root = "map_remove NOTICE_KEY root"
  let ?w = "walk_root esc (map_insert NOTICE_KEY ?nt root)"
  from less.prems have srt: "sorted_wrt (<) (map fst root)" by simp
  have sz: "fst ?w = size_of esc (with_notice budget original hint ?root cuts)"
    by (simp only: walk_root_size with_notice_def map_insert_remove(2) [OF srt])
  have refl: "trimmed (JObj ?root) (JObj ?root)" by (simp add: trimmed_def)
  show ?case
  proof (cases "fst ?w \<le> budget")
    case True
    then have "fit_loop esc budget original hint root cuts = Some (Inr (?root, cuts))"
      by (subst fit_loop.simps) (simp add: split_beta Let_def)
    with True sz refl show ?thesis by (simp add: loop_post_def)
  next
    case over: False
    show ?thesis
    proof (cases "pick (snd ?w)")
      case None
      have "fit_loop esc budget original hint root cuts = Some (Inl cuts)"
        using over None by (subst fit_loop.simps) (simp add: split_beta Let_def)
      moreover have "\<not> cuttable v" if "(k, v) \<in> set ?root" for k v
        using walk_root_no_cut [OF None [unfolded pick_None]] in_inserted not_in_removed [OF that] by blast
      ultimately show ?thesis using over sz refl by (auto simp: loop_post_def)
    next
      case (Some path)
      from walk_root_leads [OF less.prems Some] obtain u where
        u: "node_at (JObj ?root) path = Some u" "cuttable u" "path \<noteq> []" by (auto simp: leads_def)
      obtain u1 kept n un where c: "cut_node esc (fst ?w - budget) u = (u1, kept, n, un)"
        by (cases "cut_node esc (fst ?w - budget) u")
      from cut_node_shortens [OF u(2), of "fst ?w - budget" esc] over obtain k where
        k: "u1 = shorten k u" "weight u1 < weight u" by (auto simp: c intro: shorten_weight)
      let ?put = "put_at (JObj ?root) path u1"
      have wf: "json_wf (JObj ?root)" using map_remove_wf [OF less.prems] .
      have "json_wf u"
        using node_at_wf [OF wf u(1)] .
      then have "json_wf u1" by (simp add: k(1) shorten_wf)
      from put_at_facts [OF wf u(1) this k(2)] put_at_root [OF u(3), of ?root u1] have
        put: "json_wf (JObj (members ?put))" "members_weight (members ?put) < members_weight ?root"
        "map fst (members ?put) = map fst ?root" "JObj (members ?put) = ?put"
        by (auto simp: weight.simps(2) [symmetric] simp del: weight.simps(2))
      have gone: "map_remove NOTICE_KEY (members ?put) = members ?put"
        using put(3) by (intro map_remove_same) (metis (no_types, lifting) imageE list.set_map not_in_removed prod.collapse)
      from put(2) members_weight_remove [of NOTICE_KEY root] have lt: "members_weight (members ?put) < members_weight root"
        by linarith
      have "fit_loop esc budget original hint root cuts =
          fit_loop esc budget original hint (members ?put) (record_cut (pointer path) kept n un cuts)"
      proof -
        have "pointer_mut ?root path = Some u" using u by (cases path) (simp_all add: pointer_mut_def)
        with over Some c show ?thesis by (subst fit_loop.simps) (simp add: split_beta Let_def)
      qed
      moreover from less.hyps [OF lt put(1)] obtain res where
        res: "fit_loop esc budget original hint (members ?put) (record_cut (pointer path) kept n un cuts) = Some res"
        "loop_post esc budget original hint (members ?put) res" by blast
      moreover have "shortens (JObj ?root) ?put" unfolding shortens_def using u k by blast
      then have "trimmed ?put x \<Longrightarrow> trimmed (JObj ?root) x" for x
        unfolding trimmed_def by (rule converse_rtranclp_into_rtranclp)
      ultimately show ?thesis
        by (intro exI [of _ res]) (auto simp: loop_post_def gone put(4) split: sum.splits)
    qed
  qed
qed

text \<open>
  C29. The size guard returns on every value.  A result that fits is left alone; a larger one gets a
  notice and fits with it, having lost only ends of arrays, strings and objects below the root;
  and it is replaced by the notice alone only when nothing below the root can be cut any more
  and what is left is still too large with its notice.
\<close>
theorem fit_within_budget:
  assumes "json_wf v"
  shows "\<exists>r. fit esc v budget hint = Some r \<and>
    (size_of esc v \<le> budget \<and> r = v \<or>
     (\<exists>root cuts. r = with_notice budget (size_of esc v) hint root cuts \<and> size_of esc r \<le> budget \<and>
        trimmed (JObj (map_remove NOTICE_KEY (wrap_root v))) (JObj root)) \<or>
     (\<exists>root cuts. r = JObj [(NOTICE_KEY, cut_notice budget (size_of esc v) hint cuts True)] \<and>
        trimmed (JObj (map_remove NOTICE_KEY (wrap_root v))) (JObj root) \<and>
        (\<forall>(k, u) \<in> set root. \<not> cuttable u) \<and>
        budget < size_of esc (with_notice budget (size_of esc v) hint root cuts)))"
proof (cases "size_of esc v \<le> budget")
  case False
  have "json_wf (JObj (wrap_root v))" using assms by (cases v) (simp_all add: wrap_root_def)
  from fit_loop_post [OF this] obtain res where
    res: "fit_loop esc budget (size_of esc v) hint (wrap_root v) [] = Some res"
    "loop_post esc budget (size_of esc v) hint (wrap_root v) res" by blast
  show ?thesis
  proof (cases res)
    case (Inl cuts)
    with res False show ?thesis by (auto simp: fit_def loop_post_def)
  next
    case (Inr r)
    with res False show ?thesis
      by (cases r) (auto simp: fit_def loop_post_def with_notice_def)
  qed
qed (simp add: fit_def)

definition plain :: escaping where "plain c = 1"

definition long_list :: json where
  "long_list = JObj [(''xs'', JArr (replicate 30 (JNum ''12345'')))]"

lemma fit_within_budget_witness:
  "\<exists>r. fit plain long_list 150 ''h'' = Some r \<and> r \<noteq> long_list"
proof -
  have "json_wf long_list" by (simp add: long_list_def list_all_iff)
  moreover have "\<not> size_of plain long_list \<le> 150" by code_simp
  ultimately obtain r where r: "fit plain long_list 150 ''h'' = Some r"
    and "(\<exists>root cuts. r = with_notice 150 (size_of plain long_list) ''h'' root cuts) \<or>
      (\<exists>cuts. r = JObj [(NOTICE_KEY, cut_notice 150 (size_of plain long_list) ''h'' cuts True)])"
    using fit_within_budget [of long_list plain 150 "''h''"] by blast
  moreover have key: "NOTICE_KEY \<in> fst ` set (map_insert NOTICE_KEY w m)" for w m
    by (induction NOTICE_KEY w m rule: map_insert.induct) auto
  ultimately have "NOTICE_KEY \<in> fst ` set (members r)" unfolding with_notice_def by (elim disjE exE) simp_all
  moreover have "NOTICE_KEY \<notin> fst ` set (members long_list)" by (simp add: long_list_def NOTICE_KEY_def)
  ultimately have "r \<noteq> long_list" by metis
  with r show ?thesis by blast
qed

section \<open>The notice has no budget\<close>

definition many_arrays :: json where
  "many_arrays =
     JObj [(''m'', JObj (map (\<lambda>k. ([k], JArr [JNum (replicate 40 (CHR ''7''))])) ''abcde''))]"

text \<open>
  The defect of the guard: every cut adds an entry to the notice, and an entry can be larger than
  what the cut frees.  Five arrays of one number each, 242 bytes in all, do not fit 200 bytes;
  the guard cuts them one after the other, then the object, and returns a notice of 418 bytes,
  larger than the value and twice the budget.
\<close>
theorem notice_exceeds_budget:
  "map_option (size_of plain) (fit plain many_arrays 200 ''h'') = Some 418 \<and> size_of plain many_arrays = 242"
  by code_simp

end
