(* ===== verification/UiState.thy ===== *)
theory UiState
  imports OpClamp Display SessionDir
begin

text \<open>
  The aggregate state of the terminal interface, \<open>crates/smeltr-tui/src/state.rs\<close>, and the bands
  of the model view, \<open>compute_stacked_points\<close> of \<open>models.rs\<close>.  A deque is a list with its front
  first.  \<open>it\<close> is the order in which the hash map of a queue's buffers in flight is iterated.
\<close>

section \<open>State\<close>

definition HOT_KERNELS_WINDOW_NS :: u64 where "HOT_KERNELS_WINDOW_NS = 30000000000"
definition HOT_KERNELS_CAP :: nat where "HOT_KERNELS_CAP = 4096"
definition MODEL_LOADS_CAP :: nat where "MODEL_LOADS_CAP = 256"
definition GPU_MEM_SAMPLES_CAP :: nat where "GPU_MEM_SAMPLES_CAP = 1024"
definition TIMELINE_WINDOW_SEC :: u64 where "TIMELINE_WINDOW_SEC = 60"
definition RECENT_MARKS :: nat where "RECENT_MARKS = 10"
definition LOG_FEED_CAP :: nat where "LOG_FEED_CAP = 200"

record model_load_sample =
  ml_path :: string
  ml_size_bytes :: u64
  ml_t_start_ns :: u64
  ml_t_end_ns :: u64
  ml_sha8 :: "string option"
  ml_framework :: "string option"

record model_unload_sample =
  mu_path :: string
  mu_t_ns :: u64
  mu_sha8 :: "string option"

record metal_queue_state =
  mq_depth :: u32
  mq_in_flight :: "(u64 \<times> u64) list"
  mq_oldest_in_flight_cb :: "(u64 \<times> u64) option"
  mq_last_completed_status :: "u32 option"
  mq_last_completed_error :: "i64 option"

record mlx_memory_sample =
  mm_active_bytes :: u64
  mm_peak_bytes :: u64
  mm_cache_bytes :: u64
  mm_ts_mono_ns :: u64

record vm_sample =
  vs_wired_bytes :: u64
  vs_active_bytes :: u64
  vs_compressed_bytes :: u64
  vs_swap_used_bytes :: u64
  vs_page_outs_per_sec :: u32
  vs_ts_mono_ns :: u64

record hot_kernel_sample =
  hk_ts_mono_ns :: u64
  hk_name :: string
  hk_gpu_ns :: u64
  hk_count :: u32

record log_entry =
  lg_ts_mono_ns :: u64
  lg_kind :: string
  lg_summary :: string

record ui_state =
  ui_events_total :: u64
  ui_timeline_buckets :: "(u64 \<times> u32) list"
  ui_metal_queues :: "u64 \<rightharpoonup> metal_queue_state"
  ui_mlx_memory :: "mlx_memory_sample option"
  ui_mlx_eval_depth :: u32
  ui_mlx_recent_marks :: "(u64 \<times> string) list"
  ui_mlx_streams_seen :: "string set"
  ui_vm_sample :: "vm_sample option"
  ui_proc_top :: "proc_entry list"
  ui_log_feed :: "log_entry list"
  ui_hot_kernels :: "hot_kernel_sample list"
  ui_op_clamp :: op_clamp_state
  ui_model_loads :: "model_load_sample list"
  ui_model_unloads :: "model_unload_sample list"
  ui_gpu_mem_samples :: "(u64 \<times> u64) list"
  ui_session_short :: "string option"
  ui_last_ts_wall_ns :: u64
  ui_last_ts_mono_ns :: u64

definition ui_default :: ui_state where
  "ui_default =
     \<lparr>ui_events_total = 0, ui_timeline_buckets = [], ui_metal_queues = Map.empty,
      ui_mlx_memory = None, ui_mlx_eval_depth = 0, ui_mlx_recent_marks = [],
      ui_mlx_streams_seen = {}, ui_vm_sample = None, ui_proc_top = [], ui_log_feed = [],
      ui_hot_kernels = [], ui_op_clamp = op_clamp_init, ui_model_loads = [],
      ui_model_unloads = [], ui_gpu_mem_samples = [], ui_session_short = None,
      ui_last_ts_wall_ns = 0, ui_last_ts_mono_ns = 0\<rparr>"

definition queue_default :: metal_queue_state where
  "queue_default =
     \<lparr>mq_depth = 0, mq_in_flight = [], mq_oldest_in_flight_cb = None,
      mq_last_completed_status = None, mq_last_completed_error = None\<rparr>"

section \<open>Bounded buffers\<close>

text \<open>\<open>push_back\<close>, then \<open>pop_front\<close> while the length is over the cap.\<close>

fun pop_to :: "nat \<Rightarrow> 'a list \<Rightarrow> 'a list" where
  "pop_to cap [] = []"
| "pop_to cap (x # xs) = (if cap < length (x # xs) then pop_to cap xs else x # xs)"

definition push_capped :: "nat \<Rightarrow> 'a \<Rightarrow> 'a list \<Rightarrow> 'a list" where
  "push_capped cap x xs = pop_to cap (xs @ [x])"

text \<open>\<open>push\<close>, then \<open>remove(0)\<close> once if the length is over the cap.\<close>

definition push_sample :: "nat \<Rightarrow> 'a \<Rightarrow> 'a list \<Rightarrow> 'a list" where
  "push_sample cap x xs = (if cap < length (xs @ [x]) then tl (xs @ [x]) else xs @ [x])"

definition push_log :: "u64 \<Rightarrow> string \<Rightarrow> string \<Rightarrow> ui_state \<Rightarrow> ui_state" where
  "push_log ts kind summary s =
     s\<lparr>ui_log_feed := push_capped LOG_FEED_CAP
        \<lparr>lg_ts_mono_ns = ts, lg_kind = kind, lg_summary = summary\<rparr> (ui_log_feed s)\<rparr>"

definition drop_old_buckets :: "u64 \<Rightarrow> (u64 \<times> u32) list \<Rightarrow> (u64 \<times> u32) list" where
  "drop_old_buckets cutoff bs = dropWhile (\<lambda>b. fst b < cutoff) bs"

definition bump_buckets :: "u64 \<Rightarrow> (u64 \<times> u32) list \<Rightarrow> (u64 \<times> u32) list" where
  "bump_buckets sec bs =
     (if bs \<noteq> [] \<and> fst (last bs) = sec then butlast bs @ [(sec, snd (last bs) + 1)]
      else drop_old_buckets (sat_sub sec TIMELINE_WINDOW_SEC) (bs @ [(sec, 1)]))"

definition bump_timeline :: "u64 \<Rightarrow> ui_state \<Rightarrow> ui_state" where
  "bump_timeline sec s = s\<lparr>ui_timeline_buckets := bump_buckets sec (ui_timeline_buckets s)\<rparr>"

fun trim_hot :: "u64 \<Rightarrow> hot_kernel_sample list \<Rightarrow> hot_kernel_sample list" where
  "trim_hot cutoff [] = []"
| "trim_hot cutoff (k # ks) =
     (if hk_ts_mono_ns k < cutoff \<or> HOT_KERNELS_CAP < length (k # ks) then trim_hot cutoff ks
      else k # ks)"

section \<open>Queues\<close>

type_synonym map_order = "(u64 \<times> u64) list \<Rightarrow> (u64 \<times> u64) list"

text \<open>\<open>min_by_key\<close> takes the first of equal minima.\<close>

definition min_by_ts :: "(u64 \<times> u64) list \<Rightarrow> (u64 \<times> u64) option" where
  "min_by_ts xs = (case sort_key snd xs of [] \<Rightarrow> None | x # _ \<Rightarrow> Some x)"

definition recompute_oldest :: "map_order \<Rightarrow> metal_queue_state \<Rightarrow> metal_queue_state" where
  "recompute_oldest it q = q\<lparr>mq_oldest_in_flight_cb := min_by_ts (it (mq_in_flight q))\<rparr>"

definition queue_entry :: "u64 \<Rightarrow> ui_state \<Rightarrow> metal_queue_state" where
  "queue_entry qid s =
     (case ui_metal_queues s qid of None \<Rightarrow> queue_default | Some q \<Rightarrow> q)"

definition put_queue :: "u64 \<Rightarrow> metal_queue_state \<Rightarrow> ui_state \<Rightarrow> ui_state" where
  "put_queue qid q s = s\<lparr>ui_metal_queues := (ui_metal_queues s)(qid \<mapsto> q)\<rparr>"

definition queue_committed :: "map_order \<Rightarrow> u64 \<Rightarrow> u32 \<Rightarrow> u64 \<Rightarrow> metal_queue_state \<Rightarrow> metal_queue_state" where
  "queue_committed it cb depth ts q =
     recompute_oldest it (q\<lparr>mq_depth := depth, mq_in_flight := AList.update cb ts (mq_in_flight q)\<rparr>)"

definition queue_completed ::
  "map_order \<Rightarrow> u64 \<Rightarrow> u32 \<Rightarrow> i64 option \<Rightarrow> metal_queue_state \<Rightarrow> metal_queue_state" where
  "queue_completed it cb status err q =
     (recompute_oldest it (q\<lparr>mq_in_flight := AList.delete cb (mq_in_flight q)\<rparr>))
       \<lparr>mq_last_completed_status := Some status, mq_last_completed_error := err\<rparr>"

section \<open>Ingesting an event\<close>

fun hex_lower :: "nat \<Rightarrow> string" where
  "hex_lower n = (if n < 16 then [hex_digit n] else hex_lower (n div 16) @ [hex_digit (n mod 16)])"

definition reason_detail :: "string option \<Rightarrow> string" where
  "reason_detail r = (case r of None \<Rightarrow> [] | Some s \<Rightarrow> '': '' @ s)"

definition hot_sample :: "u64 \<Rightarrow> f64 option \<Rightarrow> op_sample \<Rightarrow> hot_kernel_sample" where
  "hot_sample ts scale op =
     \<lparr>hk_ts_mono_ns = ts, hk_name = op_name op,
      hk_gpu_ns = (case scale of
                     Some x \<Rightarrow> f64_to_u64 (f64_mul (f64_of_u64 (op_gpu_ns op)) x)
                   | None \<Rightarrow> op_gpu_ns op),
      hk_count = op_count op\<rparr>"

definition ingest_payload :: "map_order \<Rightarrow> event \<Rightarrow> f64 option \<Rightarrow> ui_state \<Rightarrow> ui_state" where
  "ingest_payload it ev op_scale s =
     (let ts = ts_mono_ns ev in
      case payload ev of
        MetalCbCommitted cb qid depth _ \<Rightarrow>
          put_queue qid (queue_committed it cb depth ts (queue_entry qid s)) s
      | MetalCbCompleted cb qid status err _ _ \<Rightarrow>
          put_queue qid (queue_completed it cb status err (queue_entry qid s)) s
      | MlxMemoryPoll active peak cache \<Rightarrow>
          s\<lparr>ui_mlx_memory := Some \<lparr>mm_active_bytes = active, mm_peak_bytes = peak,
              mm_cache_bytes = cache, mm_ts_mono_ns = ts\<rparr>\<rparr>
      | MlxEvalEntered _ _ stream _ _ \<Rightarrow>
          s\<lparr>ui_mlx_eval_depth := (if ui_mlx_eval_depth s = - 1 then - 1 else ui_mlx_eval_depth s + 1),
            ui_mlx_streams_seen := insert stream (ui_mlx_streams_seen s)\<rparr>
      | MlxEvalReturned _ _ _ \<Rightarrow>
          s\<lparr>ui_mlx_eval_depth := (if ui_mlx_eval_depth s = 0 then 0 else ui_mlx_eval_depth s - 1)\<rparr>
      | Mark lbl _ \<Rightarrow>
          push_log ts ''mark'' lbl
            (s\<lparr>ui_mlx_recent_marks := push_capped RECENT_MARKS (ts, lbl) (ui_mlx_recent_marks s)\<rparr>)
      | VmSample wired active compressed swap page_outs \<Rightarrow>
          s\<lparr>ui_vm_sample := Some \<lparr>vs_wired_bytes = wired, vs_active_bytes = active,
              vs_compressed_bytes = compressed, vs_swap_used_bytes = swap,
              vs_page_outs_per_sec = page_outs, vs_ts_mono_ns = ts\<rparr>\<rparr>
      | ProcTop procs _ \<Rightarrow> s\<lparr>ui_proc_top := procs\<rparr>
      | OsLogLine _ subsystem _ message \<Rightarrow>
          push_log ts ''oslog'' (subsystem @ '': '' @ truncate_str message 120) s
      | CrashReportEmitted path _ _ _ summary _ \<Rightarrow>
          push_log ts ''crash-rpt'' (basename path @ '' '' @ truncate_str summary 80) s
      | MachException target_pid exception_type _ \<Rightarrow>
          push_log ts ''mach-exc'' (''pid='' @ dec target_pid @ '' type='' @ signed_digits exception_type) s
      | PostMortemFlushed reason _ event_count \<Rightarrow>
          push_log ts ''post-mortem'' (reason @ '' ('' @ dec event_count @ '' events)'') s
      | MetalHookSkipped reason \<Rightarrow> push_log ts ''metal-hook'' (''skipped: '' @ reason) s
      | ProbeHealth probe Degraded reason \<Rightarrow>
          push_log ts ''probe'' (probe @ '' degraded'' @ reason_detail reason) s
      | ProbeHealth probe Failed reason \<Rightarrow>
          push_log ts ''probe'' (probe @ '' failed'' @ reason_detail reason) s
      | MetalCbWarning cb qid elapsed \<Rightarrow>
          push_log ts ''metal-cb''
            (''cb=0x'' @ hex_lower (unat cb) @ '' q=0x'' @ hex_lower (unat qid) @
             '' in-flight '' @ fmt_fixed 1 (f64_over elapsed 1000000) @ ''ms'') s
      | MlxPanicTriggered condition \<Rightarrow> push_log ts ''mlx-panic'' condition s
      | MetalDeviceMemSample allocated _ _ \<Rightarrow>
          s\<lparr>ui_gpu_mem_samples := push_sample GPU_MEM_SAMPLES_CAP (ts, allocated) (ui_gpu_mem_samples s)\<rparr>
      | ModelLoad path bytes t_start t_end sha8 framework \<Rightarrow>
          s\<lparr>ui_model_loads := push_sample MODEL_LOADS_CAP
              \<lparr>ml_path = path, ml_size_bytes = bytes, ml_t_start_ns = t_start, ml_t_end_ns = t_end,
               ml_sha8 = sha8, ml_framework = framework\<rparr> (ui_model_loads s)\<rparr>
      | ModelUnload path t sha8 _ _ _ _ \<Rightarrow>
          s\<lparr>ui_model_unloads := push_sample MODEL_LOADS_CAP
              \<lparr>mu_path = path, mu_t_ns = t, mu_sha8 = sha8\<rparr> (ui_model_unloads s)\<rparr>
      | MetalCbOps _ ops \<Rightarrow>
          s\<lparr>ui_hot_kernels := trim_hot (sat_sub ts HOT_KERNELS_WINDOW_NS)
              (ui_hot_kernels s @ map (hot_sample ts op_scale) ops)\<rparr>
      | _ \<Rightarrow> s)"

definition stamp_event :: "event \<Rightarrow> ui_state \<Rightarrow> ui_state" where
  "stamp_event ev s =
     s\<lparr>ui_events_total := ui_events_total s + 1, ui_last_ts_wall_ns := ts_wall_ns ev,
       ui_last_ts_mono_ns := ts_mono_ns ev,
       ui_session_short := (case ui_session_short s of
          None \<Rightarrow> Some (take (min (length (simple_uuid (ev_session_id ev))) 8) (simple_uuid (ev_session_id ev)))
        | Some x \<Rightarrow> Some x)\<rparr>"

definition ingest :: "map_order \<Rightarrow> ui_state \<Rightarrow> event \<Rightarrow> ui_state" where
  "ingest it s ev =
     (let s1 = bump_timeline (ts_wall_ns ev div 1000000000) (stamp_event ev s);
          r = op_clamp_observe (ui_op_clamp s1) ev
      in ingest_payload it ev (snd r) (s1\<lparr>ui_op_clamp := fst r\<rparr>))"

definition rebuild :: "map_order \<Rightarrow> event list \<Rightarrow> ui_state" where
  "rebuild it evs = foldl (ingest it) ui_default evs"

section \<open>The hot kernels panel\<close>

text \<open>
  The totals per kernel name, \<open>agg\<close> in the order in which the hash map yields them: the sort
  is stable, so equal totals keep that order.
\<close>

definition hot_totals :: "hot_kernel_sample list \<Rightarrow> (string \<times> u64 \<times> u64) list" where
  "hot_totals ks =
     foldl (\<lambda>agg k. entry_mod (hk_name k) (0, 0)
        (\<lambda>(g, c). (g + hk_gpu_ns k, c + ucast (hk_count k))) agg) [] ks"

definition top_hot_kernels ::
  "((string \<times> u64 \<times> u64) list \<Rightarrow> (string \<times> u64 \<times> u64) list) \<Rightarrow> nat \<Rightarrow> ui_state \<Rightarrow>
   (string \<times> u64 \<times> u64) list" where
  "top_hot_kernels it n s =
     take n (sort_key (\<lambda>(_, g, _). desc g) (it (hot_totals (ui_hot_kernels s))))"

end
