(* ===== verification/Replay.thy ===== *)
theory Replay
  imports UiState
begin

text \<open>
  Replay of a recorded session in the terminal interface: the timeline with its virtual clock,
  \<open>crates/smeltr-tui/src/scrub.rs\<close>, and the application around it, \<open>app.rs\<close>.  The speed is a
  finite number; drawing is left out; the readings of the clock, the keys, the live events and
  the result of writing a snapshot are arguments.
\<close>

section \<open>The timeline\<close>

record scrub_state =
  sb_events :: "event list"
  sb_base_ns :: u64
  sb_cursor :: nat
  sb_virtual_ns :: u64
  sb_speed :: f64

type_synonym event_range = "nat \<times> nat"

datatype seek_outcome = Forward event_range | Rewind event_range

definition duration_ns :: "scrub_state \<Rightarrow> u64" where
  "duration_ns s =
     (case sb_events s of
        [] \<Rightarrow> 0
      | f # _ \<Rightarrow> sat_sub (ts_mono_ns (last (sb_events s))) (ts_mono_ns f))"

definition scrub_new :: "event list \<Rightarrow> f64 \<Rightarrow> scrub_state" where
  "scrub_new events speed =
     (let evs = sort_key ts_mono_ns events;
          s = \<lparr>sb_events = evs, sb_base_ns = (case evs of [] \<Rightarrow> 0 | e # _ \<Rightarrow> ts_mono_ns e),
               sb_cursor = 0, sb_virtual_ns = 0, sb_speed = speed\<rparr>
      in if speed \<le> 0 then s\<lparr>sb_virtual_ns := duration_ns s, sb_cursor := length evs\<rparr> else s)"

definition rel_ts :: "scrub_state \<Rightarrow> nat \<Rightarrow> u64" where
  "rel_ts s i = sat_sub (ts_mono_ns (sb_events s ! i)) (sb_base_ns s)"

function catch_from :: "scrub_state \<Rightarrow> nat \<Rightarrow> nat" where
  "catch_from s i =
     (if i < length (sb_events s) \<and> rel_ts s i \<le> sb_virtual_ns s then catch_from s (Suc i) else i)"
  by pat_completeness auto
termination by (relation "measure (\<lambda>(s, i). length (sb_events s) - i)") auto

definition catch_up :: "scrub_state \<Rightarrow> scrub_state \<times> event_range" where
  "catch_up s =
     (let j = catch_from s (sb_cursor s) in (s\<lparr>sb_cursor := j\<rparr>, (sb_cursor s, j)))"

definition at_end :: "scrub_state \<Rightarrow> bool" where
  "at_end s \<longleftrightarrow> length (sb_events s) \<le> sb_cursor s \<and> duration_ns s \<le> sb_virtual_ns s"

text \<open>The nanoseconds of the wall clock, times the speed.  The addition to the clock wraps.\<close>

definition dt_ns :: "scrub_state \<Rightarrow> nat \<Rightarrow> u64" where
  "dt_ns s wall_dt = f64_to_u64 (f64_mul (f64_of_nat wall_dt) (sb_speed s))"

definition advance :: "nat \<Rightarrow> scrub_state \<Rightarrow> scrub_state \<times> event_range" where
  "advance wall_dt s =
     (if sb_speed s \<le> 0 \<or> at_end s then (s, (sb_cursor s, sb_cursor s))
      else catch_up (s\<lparr>sb_virtual_ns := min (sb_virtual_ns s + dt_ns s wall_dt) (duration_ns s)\<rparr>))"

definition forward_to :: "u64 \<Rightarrow> scrub_state \<Rightarrow> scrub_state \<times> event_range" where
  "forward_to target s = catch_up (s\<lparr>sb_virtual_ns := target\<rparr>)"

definition rewind_to :: "u64 \<Rightarrow> scrub_state \<Rightarrow> scrub_state \<times> event_range" where
  "rewind_to target s = catch_up (s\<lparr>sb_virtual_ns := target, sb_cursor := 0\<rparr>)"

definition seek_by_secs :: "i64 \<Rightarrow> scrub_state \<Rightarrow> scrub_state \<times> seek_outcome" where
  "seek_by_secs delta s =
     (let v = sb_virtual_ns s;
          t = (if 0 \<le> sint delta then sat_add v (delta * 1000000000)
               else sat_sub v ((- delta) * 1000000000));
          target = min t (duration_ns s)
      in if sint delta < 0
         then (if target < v
               then (let r = rewind_to target s in (fst r, Rewind (snd r)))
               else (s, Rewind (0, sb_cursor s)))
         else (let r = forward_to target s in (fst r, Forward (snd r))))"

definition seek_to_ns :: "u64 \<Rightarrow> scrub_state \<Rightarrow> scrub_state \<times> seek_outcome" where
  "seek_to_ns ns s =
     (let target = min ns (duration_ns s)
      in if sb_virtual_ns s \<le> target
         then (let r = forward_to target s in (fst r, Forward (snd r)))
         else (let r = rewind_to target s in (fst r, Rewind (snd r))))"

definition slice :: "'a list \<Rightarrow> event_range \<Rightarrow> 'a list" where
  "slice xs r = take (snd r - fst r) (drop (fst r) xs)"

section \<open>The application\<close>

datatype panel = Timeline | MetalCbs | MemoryPanel | MlxPanel | Pressure | Notices

fun next_panel :: "panel \<Rightarrow> panel" where
  "next_panel Timeline = MetalCbs"
| "next_panel MetalCbs = MemoryPanel"
| "next_panel MemoryPanel = MlxPanel"
| "next_panel MlxPanel = Pressure"
| "next_panel Pressure = Notices"
| "next_panel Notices = Timeline"

record tui_app =
  tu_state :: ui_state
  tu_focus :: panel
  tu_paused :: bool
  tu_mode_label :: string
  tu_quit_requested :: bool
  tu_show_hot_kernels :: bool
  tu_show_models :: bool
  tu_status :: "string option"
  tu_filter :: "string option"
  tu_filtering :: "string option"
  tu_scrub :: "scrub_state option"

definition app_new :: "string \<Rightarrow> tui_app" where
  "app_new mode_label =
     \<lparr>tu_state = ui_default, tu_focus = Timeline, tu_paused = False, tu_mode_label = mode_label,
      tu_quit_requested = False, tu_show_hot_kernels = False, tu_show_models = False,
      tu_status = None, tu_filter = None, tu_filtering = None, tu_scrub = None\<rparr>"

definition set_scrub :: "map_order \<Rightarrow> scrub_state \<Rightarrow> tui_app \<Rightarrow> tui_app" where
  "set_scrub it s a =
     (let a1 = (if at_end s then a\<lparr>tu_state := rebuild it (sb_events s)\<rparr> else a)
      in a1\<lparr>tu_scrub := Some s\<rparr>)"

record replay_gauge =
  rg_playing :: bool
  rg_at_end :: bool
  rg_position_ns :: u64
  rg_duration_ns :: u64

definition replay_gauge_of :: "tui_app \<Rightarrow> replay_gauge option" where
  "replay_gauge_of a =
     map_option (\<lambda>s. \<lparr>rg_playing = \<not> tu_paused a, rg_at_end = at_end s,
        rg_position_ns = sb_virtual_ns s, rg_duration_ns = duration_ns s\<rparr>) (tu_scrub a)"

definition apply_seek ::
  "map_order \<Rightarrow> (scrub_state \<Rightarrow> scrub_state \<times> seek_outcome) \<Rightarrow> tui_app \<Rightarrow> tui_app" where
  "apply_seek it f a =
     (case tu_scrub a of
        None \<Rightarrow> a
      | Some s \<Rightarrow>
          (let r = f s; evs = sb_events (fst r)
           in a\<lparr>tu_scrub := Some (fst r),
                tu_state := (case snd r of
                   Forward rg \<Rightarrow> foldl (ingest it) (tu_state a) (slice evs rg)
                 | Rewind rg \<Rightarrow> rebuild it (slice evs rg))\<rparr>))"

text \<open>A character key carries its character in UTF-8.\<close>

datatype key_code =
  KLeft | KRight | KHome | KEnd | KEsc | KEnter | KBackspace | KTab | KChar string | KOther

definition char_pop :: "string \<Rightarrow> string" where
  "char_pop b = concat (butlast (utf8_chars b))"

definition arrow :: string where "arrow = [CHR 0xE2, CHR 0x86, CHR 0x92]"

text \<open>The keys of the filter prompt.\<close>

definition filter_key :: "key_code \<Rightarrow> string \<Rightarrow> tui_app \<Rightarrow> tui_app" where
  "filter_key code b a =
     (case code of
        KChar c \<Rightarrow> a\<lparr>tu_filtering := Some (b @ c)\<rparr>
      | KBackspace \<Rightarrow> a\<lparr>tu_filtering := Some (char_pop b)\<rparr>
      | KEnter \<Rightarrow> a\<lparr>tu_filtering := None, tu_filter := (if b = [] then None else Some b)\<rparr>
      | KEsc \<Rightarrow> a\<lparr>tu_filtering := None\<rparr>
      | _ \<Rightarrow> a)"

definition seek_key ::
  "map_order \<Rightarrow> key_code \<Rightarrow> bool \<Rightarrow> tui_app \<Rightarrow> tui_app" where
  "seek_key it code shift a =
     (let step = (if shift then 30 else 5) in
      case code of
        KLeft \<Rightarrow> apply_seek it (seek_by_secs (- step)) a
      | KRight \<Rightarrow> apply_seek it (seek_by_secs step) a
      | KHome \<Rightarrow> apply_seek it (seek_to_ns 0) a
      | KEnd \<Rightarrow> apply_seek it (seek_to_ns (- 1)) a
      | _ \<Rightarrow> a)"

text \<open>\<open>snap\<close>: the path written, or the error.\<close>

definition handle_key ::
  "map_order \<Rightarrow> (ui_state \<Rightarrow> string + string) \<Rightarrow> key_code \<Rightarrow> bool \<Rightarrow> tui_app \<Rightarrow> tui_app" where
  "handle_key it snap code shift a0 =
     (let a = a0\<lparr>tu_status := None\<rparr> in
      case tu_filtering a of
        Some b \<Rightarrow> filter_key code b a
      | None \<Rightarrow>
          if tu_scrub a \<noteq> None \<and> code \<in> {KLeft, KRight, KHome, KEnd} then seek_key it code shift a
          else if code = KChar ''q'' \<or> code = KEsc then a\<lparr>tu_quit_requested := True\<rparr>
          else if code = KChar ''/'' then a\<lparr>tu_filtering := Some []\<rparr>
          else if code = KTab then a\<lparr>tu_focus := next_panel (tu_focus a)\<rparr>
          else if code = KChar '' '' then a\<lparr>tu_paused := \<not> tu_paused a\<rparr>
          else if code = KChar ''r'' then a\<lparr>tu_state := ui_default\<rparr>
          else if code = KChar ''s'' then
            a\<lparr>tu_status := Some (case snap (tu_state a) of
                Inr p \<Rightarrow> ''snapshot '' @ arrow @ '' '' @ p
              | Inl e \<Rightarrow> ''snapshot failed: '' @ e)\<rparr>
          else if code = KChar ''k'' \<or> code = KChar ''K'' then
            a\<lparr>tu_show_hot_kernels := \<not> tu_show_hot_kernels a\<rparr>
          else if code = KChar ''M'' then a\<lparr>tu_show_models := \<not> tu_show_models a\<rparr>
          else a)"

text \<open>What one pass of the event loop is given: a key, the time since the last pass, live events.\<close>

record pass_input =
  pi_key :: "(key_code \<times> bool) option"
  pi_wall_dt :: nat
  pi_inbox :: "event list"

definition tick :: "map_order \<Rightarrow> nat \<Rightarrow> event list \<Rightarrow> tui_app \<Rightarrow> tui_app" where
  "tick it wall_dt inbox a =
     (case tu_scrub a of
        Some s \<Rightarrow>
          if tu_paused a then a
          else (let r = advance wall_dt s
                in a\<lparr>tu_scrub := Some (fst r),
                     tu_state := foldl (ingest it) (tu_state a) (slice (sb_events (fst r)) (snd r))\<rparr>)
      | None \<Rightarrow> if tu_paused a then a else a\<lparr>tu_state := foldl (ingest it) (tu_state a) inbox\<rparr>)"

definition loop_pass ::
  "map_order \<Rightarrow> (ui_state \<Rightarrow> string + string) \<Rightarrow> tui_app \<Rightarrow> pass_input \<Rightarrow> tui_app" where
  "loop_pass it snap a inp =
     (if tu_quit_requested a then a
      else tick it (pi_wall_dt inp) (pi_inbox inp)
        (case pi_key inp of None \<Rightarrow> a | Some (code, shift) \<Rightarrow> handle_key it snap code shift a))"

definition run_tui ::
  "map_order \<Rightarrow> (ui_state \<Rightarrow> string + string) \<Rightarrow> tui_app \<Rightarrow> pass_input list \<Rightarrow> tui_app" where
  "run_tui it snap a inps = foldl (loop_pass it snap) a inps"

end
