(* ===== verification/UiFacts.thy ===== *)
theory UiFacts
  imports UiState
begin

text \<open>
  What the state of the terminal interface holds after a sequence of events: the buffers in
  flight of each queue, and the samples behind the hot-kernels panel.
\<close>

section \<open>Folding\<close>

lemma rebuild_Nil [simp]: "rebuild it [] = ui_default"
  by (simp add: rebuild_def)

lemma rebuild_snoc: "rebuild it (evs @ [ev]) = ingest it (rebuild it evs) ev"
  by (simp add: rebuild_def)

lemma rebuild_append: "rebuild it (xs @ ys) = foldl (ingest it) (rebuild it xs) ys"
  by (simp add: rebuild_def)

section \<open>Fields that only one kind of event touches\<close>

lemma push_log_fields [simp]:
  "ui_metal_queues (push_log ts k m s) = ui_metal_queues s"
  "ui_hot_kernels (push_log ts k m s) = ui_hot_kernels s"
  "ui_op_clamp (push_log ts k m s) = ui_op_clamp s"
  by (simp_all add: push_log_def)

lemma put_queue_fields [simp]:
  "ui_metal_queues (put_queue q st s) = (ui_metal_queues s)(q \<mapsto> st)"
  "ui_hot_kernels (put_queue q st s) = ui_hot_kernels s"
  "ui_op_clamp (put_queue q st s) = ui_op_clamp s"
  by (simp_all add: put_queue_def)

lemma before_payload_fields [simp]:
  "ui_metal_queues (bump_timeline n (stamp_event ev s)) = ui_metal_queues s"
  "ui_hot_kernels (bump_timeline n (stamp_event ev s)) = ui_hot_kernels s"
  "ui_op_clamp (bump_timeline n (stamp_event ev s)) = ui_op_clamp s"
  by (simp_all add: bump_timeline_def stamp_event_def)

lemma ingest_payload_clamp [simp]: "ui_op_clamp (ingest_payload it ev sc s) = ui_op_clamp s"
  by (simp add: ingest_payload_def Let_def split: payload.split probe_health_state.split)

lemma ingest_clamp: "ui_op_clamp (ingest it s ev) = fst (op_clamp_observe (ui_op_clamp s) ev)"
  by (simp add: ingest_def Let_def)

section \<open>Buffers in flight\<close>

definition touches :: "u64 \<Rightarrow> u64 \<Rightarrow> event \<Rightarrow> bool" where
  "touches qid cb ev \<longleftrightarrow>
     (case payload ev of
        MetalCbCommitted c q _ _ \<Rightarrow> c = cb \<and> q = qid
      | MetalCbCompleted c q _ _ _ _ \<Rightarrow> c = cb \<and> q = qid
      | _ \<Rightarrow> False)"

text \<open>The commit stamp of a buffer whose last event on the queue is a commit.\<close>

definition in_flight_since :: "event list \<Rightarrow> u64 \<Rightarrow> u64 \<Rightarrow> u64 option" where
  "in_flight_since evs qid cb =
     (case rfind (touches qid cb) evs of
        None \<Rightarrow> None
      | Some ev \<Rightarrow> (case payload ev of MetalCbCommitted _ _ _ _ \<Rightarrow> Some (ts_mono_ns ev) | _ \<Rightarrow> None))"

lemma in_flight_snoc:
  "in_flight_since (evs @ [ev]) qid cb =
     (case payload ev of
        MetalCbCommitted c q _ _ \<Rightarrow>
          if c = cb \<and> q = qid then Some (ts_mono_ns ev) else in_flight_since evs qid cb
      | MetalCbCompleted c q _ _ _ _ \<Rightarrow>
          if c = cb \<and> q = qid then None else in_flight_since evs qid cb
      | _ \<Rightarrow> in_flight_since evs qid cb)"
  by (cases "payload ev") (simp_all add: in_flight_since_def rfind_snoc touches_def)

lemma queue_entry_ingest:
  "queue_entry qid (ingest it s ev) =
     (case payload ev of
        MetalCbCommitted c q depth _ \<Rightarrow>
          if q = qid then queue_committed it c depth (ts_mono_ns ev) (queue_entry qid s)
          else queue_entry qid s
      | MetalCbCompleted c q status err _ _ \<Rightarrow>
          if q = qid then queue_completed it c status err (queue_entry qid s)
          else queue_entry qid s
      | _ \<Rightarrow> queue_entry qid s)"
  by (simp add: ingest_def ingest_payload_def queue_entry_def Let_def
      split: payload.split probe_health_state.split)

definition oldest_of :: "map_order \<Rightarrow> metal_queue_state \<Rightarrow> bool" where
  "oldest_of it q \<longleftrightarrow>
     distinct (map fst (mq_in_flight q)) \<and> mq_oldest_in_flight_cb q = min_by_ts (it (mq_in_flight q))"

lemma queue_step_facts:
  "oldest_of it q \<Longrightarrow> oldest_of it (queue_committed it cb depth ts q)"
  "oldest_of it q \<Longrightarrow> oldest_of it (queue_completed it cb status err q)"
  "map_of (mq_in_flight (queue_committed it cb depth ts q)) = (map_of (mq_in_flight q))(cb \<mapsto> ts)"
  "map_of (mq_in_flight (queue_completed it cb status err q)) = (map_of (mq_in_flight q))(cb := None)"
  by (simp_all add: oldest_of_def queue_committed_def queue_completed_def recompute_oldest_def
      distinct_update distinct_delete update_conv' delete_conv')

lemma queue_entry_holds:
  assumes "it [] = []"
  shows "oldest_of it (queue_entry qid (rebuild it evs)) \<and>
    map_of (mq_in_flight (queue_entry qid (rebuild it evs))) = in_flight_since evs qid"
proof (induction evs rule: rev_induct)
  case Nil
  show ?case
    using assms by (auto simp: queue_entry_def ui_default_def queue_default_def oldest_of_def
        min_by_ts_def in_flight_since_def rfind_def)
next
  case (snoc ev evs)
  have "in_flight_since (evs @ [ev]) qid =
    (case payload ev of
        MetalCbCommitted c q _ _ \<Rightarrow>
          if q = qid then (in_flight_since evs qid)(c \<mapsto> ts_mono_ns ev) else in_flight_since evs qid
      | MetalCbCompleted c q _ _ _ _ \<Rightarrow>
          if q = qid then (in_flight_since evs qid)(c := None) else in_flight_since evs qid
      | _ \<Rightarrow> in_flight_since evs qid)"
    by (rule ext) (simp add: in_flight_snoc split: payload.split)
  with snoc.IH show ?case
    by (cases "payload ev")
      (simp_all add: rebuild_snoc queue_entry_ingest queue_step_facts)
qed

lemma min_by_ts_Some: "min_by_ts xs = Some x \<Longrightarrow> x \<in> set xs \<and> (\<forall>y \<in> set xs. snd x \<le> snd y)"
proof -
  assume "min_by_ts xs = Some x"
  then obtain ys where ys: "sort_key snd xs = x # ys" by (auto simp: min_by_ts_def split: list.splits)
  have "set xs = set (x # ys)" by (metis ys set_sort)
  moreover have "sorted (map snd (x # ys))" by (metis ys sorted_sort_key)
  ultimately show ?thesis by auto
qed

lemma min_by_ts_None: "min_by_ts xs = None \<longleftrightarrow> xs = []"
proof -
  have "min_by_ts xs = None \<longleftrightarrow> sort_key snd xs = []"
    by (simp add: min_by_ts_def split: list.split)
  also have "\<dots> \<longleftrightarrow> length (sort_key snd xs) = 0" by (simp del: length_sort)
  finally show ?thesis by simp
qed

text \<open>
  Whatever order the hash map of a queue is iterated in, the buffers shown in flight are
  those whose last commit or completion on that queue is a commit, each with the stamp of that
  commit, and the oldest one shown is in flight since no later than any other.
\<close>

theorem in_flight_exact:
  assumes "\<And>xs. set (it xs) = set xs"
  shows "map_of (mq_in_flight (queue_entry qid (rebuild it evs))) = in_flight_since evs qid \<and>
    (case mq_oldest_in_flight_cb (queue_entry qid (rebuild it evs)) of
       None \<Rightarrow> \<forall>c. in_flight_since evs qid c = None
     | Some (c, ts) \<Rightarrow> in_flight_since evs qid c = Some ts \<and>
         (\<forall>c' ts'. in_flight_since evs qid c' = Some ts' \<longrightarrow> ts \<le> ts'))"
proof (rule conjI)
  let ?q = "queue_entry qid (rebuild it evs)"
  from assms [of "[]"] have "it [] = []" by simp
  note q = queue_entry_holds [where it = it and qid = qid and evs = evs, OF this]
  then show "map_of (mq_in_flight ?q) = in_flight_since evs qid" by simp
  from q have old: "mq_oldest_in_flight_cb ?q = min_by_ts (it (mq_in_flight ?q))"
    and d: "distinct (map fst (mq_in_flight ?q))" by (simp_all add: oldest_of_def)
  have mem: "in_flight_since evs qid c = Some t \<longleftrightarrow> (c, t) \<in> set (mq_in_flight ?q)" for c t
    using q d by (metis map_of_eq_Some_iff)
  show "case mq_oldest_in_flight_cb ?q of None \<Rightarrow> \<forall>c. in_flight_since evs qid c = None
     | Some (c, ts) \<Rightarrow> in_flight_since evs qid c = Some ts \<and>
         (\<forall>c' ts'. in_flight_since evs qid c' = Some ts' \<longrightarrow> ts \<le> ts')"
  proof (cases "min_by_ts (it (mq_in_flight ?q))")
    case None
    then have "it (mq_in_flight ?q) = []" by (simp only: min_by_ts_None)
    with assms [of "mq_in_flight ?q"] have "mq_in_flight ?q = []" by simp
    with None old q show ?thesis by (auto simp flip: fun_eq_iff)
  next
    case (Some x)
    from min_by_ts_Some [OF this] assms have "x \<in> set (mq_in_flight ?q)"
      and "\<forall>y \<in> set (mq_in_flight ?q). snd x \<le> snd y" by simp_all
    with Some old show ?thesis by (cases x) (auto simp: mem)
  qed
qed

lemma default_entry: "queue_entry qid ui_default = queue_default"
  by (simp add: queue_entry_def ui_default_def)

text \<open>Two buffers on one queue, the first completed.\<close>

lemma in_flight_exact_witness:
  "mq_oldest_in_flight_cb (queue_entry 7 (rebuild id
     [mk_event 1 0 (MetalCbCommitted 10 7 1 None), mk_event 2 1 (MetalCbCommitted 11 7 2 None),
      mk_event 3 2 (MetalCbCompleted 10 7 4 None None 0)])) = Some (11, 2) \<and>
   in_flight_since
     [mk_event 1 0 (MetalCbCommitted 10 7 1 None), mk_event 2 1 (MetalCbCommitted 11 7 2 None),
      mk_event 3 2 (MetalCbCompleted 10 7 4 None None 0)] 7 10 = None"
  (is "mq_oldest_in_flight_cb (queue_entry 7 (rebuild id ?evs)) = _ \<and> _")
proof -
  have q: "queue_entry 7 (rebuild id ?evs) =
    \<lparr>mq_depth = 2, mq_in_flight = [(11, 2)], mq_oldest_in_flight_cb = Some (11, 2),
     mq_last_completed_status = Some 4, mq_last_completed_error = None\<rparr>"
    by (simp add: rebuild_def queue_entry_ingest queue_committed_def queue_completed_def
        recompute_oldest_def min_by_ts_def default_entry queue_default_def)
  have "map_of (mq_in_flight (queue_entry 7 (rebuild id ?evs))) = in_flight_since ?evs 7"
    by (rule conjunct1 [OF in_flight_exact]) simp
  from fun_cong [OF this, of 10] have "in_flight_since ?evs 7 10 = None" unfolding q by simp
  with q show ?thesis by simp
qed

section \<open>The hot kernels\<close>

lemma pop_to_drop: "pop_to cap xs = drop (length xs - cap) xs"
  by (induction xs) (auto simp: Suc_diff_le not_less)

lemma pop_to_short: "length xs \<le> cap \<Longrightarrow> pop_to cap xs = xs"
  by (simp add: pop_to_drop)

lemma trim_hot_eq:
  "trim_hot c ks = dropWhile (\<lambda>k. hk_ts_mono_ns k < c) (pop_to HOT_KERNELS_CAP ks)"
  by (induction ks) (auto simp: pop_to_short)

definition recent :: "u64 \<Rightarrow> hot_kernel_sample list \<Rightarrow> hot_kernel_sample list" where
  "recent c ks = dropWhile (\<lambda>k. hk_ts_mono_ns k < c) (drop (length ks - HOT_KERNELS_CAP) ks)"

lemma dropWhile_skip:
  "j \<le> m \<Longrightarrow> (\<forall>i. j \<le> i \<and> i < m \<longrightarrow> i < length xs \<and> P (xs ! i)) \<Longrightarrow>
     dropWhile P (drop m xs) = dropWhile P (drop j xs)"
proof (induction "m - j" arbitrary: j)
  case 0
  then show ?case by simp
next
  case (Suc n)
  then have "j < length xs" "P (xs ! j)" by auto
  then have "dropWhile P (drop j xs) = dropWhile P (drop (Suc j) xs)"
    by (metis Cons_nth_drop_Suc dropWhile.simps(2))
  with Suc.hyps(1) [of "Suc j"] Suc.hyps(2) Suc.prems show ?case by simp
qed

text \<open>Trimming after every batch is trimming once at the end, when the cutoff never falls.\<close>

lemma recent_append:
  assumes "c \<le> c'"
  shows "trim_hot c' (recent c xs @ ys) = recent c' (xs @ ys)"
proof -
  let ?n = "length xs - HOT_KERNELS_CAP" and ?m = "length (xs @ ys) - HOT_KERNELS_CAP"
  let ?old = "\<lambda>c k. hk_ts_mono_ns k < c"
  define k where "k = ?n + length (takeWhile (?old c) (drop ?n xs))"
  have kl: "k \<le> length xs" unfolding k_def
    using length_takeWhile_le [of "?old c" "drop ?n xs"] by simp
  have r: "recent c xs = drop k xs"
    unfolding recent_def k_def by (simp add: dropWhile_eq_drop add.commute)
  have "trim_hot c' (recent c xs @ ys) =
    dropWhile (?old c') (drop (length xs - k + length ys - HOT_KERNELS_CAP) (drop k (xs @ ys)))"
    using kl by (simp add: trim_hot_eq pop_to_drop r)
  also have "\<dots> = dropWhile (?old c') (drop (max k ?m) (xs @ ys))"
  proof -
    have "length xs - k + length ys - HOT_KERNELS_CAP + k = max k ?m"
      using kl by (auto simp: max_def)
    then show ?thesis by (simp only: drop_drop)
  qed
  also have "\<dots> = dropWhile (?old c') (drop ?m (xs @ ys))"
  proof (rule dropWhile_skip)
    show "\<forall>i. ?m \<le> i \<and> i < max k ?m \<longrightarrow> i < length (xs @ ys) \<and> ?old c' ((xs @ ys) ! i)"
    proof (intro allI impI)
      fix i assume i: "?m \<le> i \<and> i < max k ?m"
      then have ik: "i < k" by auto
      have "?n \<le> ?m" by simp
      with i have ni: "?n \<le> i" by (meson order_trans)
      from ik ni have "i - ?n < length (takeWhile (?old c) (drop ?n xs))" by (simp add: k_def)
      then have "?old c (drop ?n xs ! (i - ?n))"
        by (metis nth_mem set_takeWhileD takeWhile_nth)
      with ni ik kl assms show "i < length (xs @ ys) \<and> ?old c' ((xs @ ys) ! i)"
        by (auto simp: nth_append)
    qed
  qed simp
  finally show ?thesis by (simp add: recent_def)
qed

text \<open>The samples a finished session gives for an event whose times have been rescaled.\<close>

definition hot_of :: "event \<Rightarrow> hot_kernel_sample list" where
  "hot_of ev = (case payload ev of MetalCbOps _ ops \<Rightarrow> map (hot_sample (ts_mono_ns ev) None) ops | _ \<Rightarrow> [])"

definition hot_samples :: "event list \<Rightarrow> hot_kernel_sample list" where
  "hot_samples evs = concat (map hot_of (apply_op_time_scales evs (compute_op_time_scales evs)))"

definition is_ops :: "event \<Rightarrow> bool" where
  "is_ops ev \<longleftrightarrow> (case payload ev of MetalCbOps _ _ \<Rightarrow> True | _ \<Rightarrow> False)"

text \<open>Thirty seconds before the last batch of ops.\<close>

definition hot_cutoff :: "event list \<Rightarrow> u64" where
  "hot_cutoff evs =
     (case rfind is_ops evs of None \<Rightarrow> 0 | Some ev \<Rightarrow> sat_sub (ts_mono_ns ev) HOT_KERNELS_WINDOW_NS)"

lemma clamp_follows: "ui_op_clamp (rebuild it evs) = fst (foldl clamp_step (op_clamp_init, []) evs)"
  by (induction evs rule: rev_induct)
    (simp_all add: ui_default_def rebuild_snoc ingest_clamp clamp_step_def split: prod.split option.split)

lemma scales_snoc:
  "compute_op_time_scales (evs @ [ev]) =
     (case snd (op_clamp_observe (ui_op_clamp (rebuild it evs)) ev) of
        None \<Rightarrow> compute_op_time_scales evs
      | Some x \<Rightarrow> AList.update (ev_seq ev) x (compute_op_time_scales evs))"
  by (simp add: compute_op_time_scales_def clamp_follows clamp_step_def split: prod.split option.split)

lemma scales_keys: "map_of (compute_op_time_scales evs) k \<noteq> None \<Longrightarrow> k \<in> ev_seq ` set evs"
  by (induction evs rule: rev_induct)
    (auto simp: compute_op_time_scales_def [of "[]"] scales_snoc [of _ _ id] update_conv'
      split: option.splits if_splits)

lemma hot_of_scaled:
  "hot_of (scale_event scales ev) =
     (case payload ev of
        MetalCbOps _ ops \<Rightarrow> map (hot_sample (ts_mono_ns ev) (map_of scales (ev_seq ev))) ops
      | _ \<Rightarrow> [])"
  by (simp add: hot_of_def scale_event_def scale_op_def scaled_gpu_ns_def hot_sample_def
      split: payload.split option.split)

lemma hot_samples_snoc:
  assumes "ev_seq ev \<notin> ev_seq ` set evs"
  shows "hot_samples (evs @ [ev]) = hot_samples evs @
    (case payload ev of
       MetalCbOps _ ops \<Rightarrow>
         map (hot_sample (ts_mono_ns ev) (snd (op_clamp_observe (ui_op_clamp (rebuild it evs)) ev))) ops
     | _ \<Rightarrow> [])"
proof -
  let ?sc = "compute_op_time_scales evs" and ?sc' = "compute_op_time_scales (evs @ [ev])"
  have new: "map_of ?sc' (ev_seq ev) = snd (op_clamp_observe (ui_op_clamp (rebuild it evs)) ev)"
    using assms scales_keys [of evs "ev_seq ev"]
    by (auto simp: scales_snoc [of _ _ it] update_conv' split: option.split)
  have "map_of ?sc' (ev_seq e) = map_of ?sc (ev_seq e)" if "e \<in> set evs" for e
  proof -
    have "ev_seq e \<noteq> ev_seq ev" using that assms by (metis imageI)
    then show ?thesis by (simp add: scales_snoc [of _ _ it] update_conv' split: option.split)
  qed
  then have "hot_of (scale_event ?sc' e) = hot_of (scale_event ?sc e)" if "e \<in> set evs" for e
    using that by (simp only: hot_of_scaled)
  then have c: "concat (map (\<lambda>e. hot_of (scale_event ?sc' e)) evs) = hot_samples evs"
    by (auto simp: hot_samples_def apply_op_time_scales_def intro!: arg_cong [of _ _ concat])
  have "hot_samples (evs @ [ev]) =
      concat (map (\<lambda>e. hot_of (scale_event ?sc' e)) evs) @ hot_of (scale_event ?sc' ev)"
    by (simp add: hot_samples_def apply_op_time_scales_def comp_def)
  then show ?thesis by (simp only: c hot_of_scaled [of ?sc' ev] new)
qed

lemma hot_ingest:
  "ui_hot_kernels (ingest it s ev) =
     (case payload ev of
        MetalCbOps _ ops \<Rightarrow>
          trim_hot (sat_sub (ts_mono_ns ev) HOT_KERNELS_WINDOW_NS)
            (ui_hot_kernels s @ map (hot_sample (ts_mono_ns ev) (snd (op_clamp_observe (ui_op_clamp s) ev))) ops)
      | _ \<Rightarrow> ui_hot_kernels s)"
  by (simp add: ingest_def ingest_payload_def Let_def split: payload.split probe_health_state.split)

lemma rfind_in: "rfind p xs = Some x \<Longrightarrow> x \<in> set xs"
  by (induction xs rule: rev_induct) (simp add: rfind_def, auto simp: rfind_snoc split: if_splits)

lemma hot_cutoff_mono:
  assumes "sorted (map ts_mono_ns (evs @ [ev]))"
  shows "hot_cutoff evs \<le> sat_sub (ts_mono_ns ev) HOT_KERNELS_WINDOW_NS"
proof (cases "rfind is_ops evs")
  case (Some e)
  then have "e \<in> set evs"
    using rfind_in by metis
  with assms have "ts_mono_ns e \<le> ts_mono_ns ev" by (auto simp: sorted_append)
  with Some show ?thesis
    by (simp add: hot_cutoff_def word_le_nat_alt unat_sat_sub diff_le_mono)
qed (simp add: hot_cutoff_def)

lemma hot_kernels_recent:
  "sorted (map ts_mono_ns evs) \<Longrightarrow> distinct (map ev_seq evs) \<Longrightarrow>
     ui_hot_kernels (rebuild it evs) = recent (hot_cutoff evs) (hot_samples evs)"
proof (induction evs rule: rev_induct)
  case Nil
  show ?case
    by (simp add: ui_default_def hot_samples_def apply_op_time_scales_def recent_def)
next
  case (snoc ev evs)
  then have IH: "ui_hot_kernels (rebuild it evs) = recent (hot_cutoff evs) (hot_samples evs)"
    by (simp add: sorted_append)
  have new: "ev_seq ev \<notin> ev_seq ` set evs" using snoc.prems(2) by simp
  have same: "hot_cutoff (evs @ [ev]) =
    (if is_ops ev then sat_sub (ts_mono_ns ev) HOT_KERNELS_WINDOW_NS else hot_cutoff evs)"
    by (simp add: hot_cutoff_def rfind_snoc)
  show ?case
    unfolding rebuild_snoc hot_ingest hot_samples_snoc [OF new, of it] same IH
    by (cases "payload ev")
      (simp_all add: is_ops_def recent_append [OF hot_cutoff_mono [OF snoc.prems(1)]])
qed

lemma sorted_const: "\<forall>k \<in> set ks. hk_ts_mono_ns k = t \<Longrightarrow> sorted (map hk_ts_mono_ns ks)"
  by (induction ks) auto

lemma hot_samples_sorted:
  "sorted (map ts_mono_ns evs) \<Longrightarrow> sorted (map hk_ts_mono_ns (hot_samples evs))"
proof -
  have stamp: "\<forall>k \<in> set (hot_of (scale_event sc ev)). hk_ts_mono_ns k = ts_mono_ns ev" for sc ev
    by (auto simp: hot_of_scaled hot_sample_def split: payload.split)
  have "sorted (map ts_mono_ns evs) \<Longrightarrow>
      sorted (map hk_ts_mono_ns (concat (map (\<lambda>ev. hot_of (scale_event sc ev)) evs)))" for sc
  proof (induction evs)
    case (Cons e es)
    then show ?case
      using stamp [of sc e] stamp [of sc] by (fastforce simp: sorted_append intro: sorted_const)
  qed simp
  then show "sorted (map ts_mono_ns evs) \<Longrightarrow> sorted (map hk_ts_mono_ns (hot_samples evs))"
    by (simp add: hot_samples_def apply_op_time_scales_def comp_def)
qed

lemma dropWhile_keyed:
  "sorted (map f xs) \<Longrightarrow> dropWhile (\<lambda>x. f x < c) xs = filter (\<lambda>x. c \<le> f x) xs"
  by (induction xs) (auto simp: not_less intro!: filter_True [symmetric] intro: order_trans)

text \<open>
  C28. The live hot-kernels panel works on the numbers of the offline breakdown.  For events in
  stamp order with distinct sequence numbers, the rolling window holds, of the last 4096 samples
  which the batch pass \<open>compute_op_time_scales\<close> gives for the session, those that are at most thirty
  seconds older than the last batch of ops.
\<close>

theorem hot_kernels_match_breakdown:
  assumes "sorted (map ts_mono_ns evs)" and "distinct (map ev_seq evs)"
  shows "ui_hot_kernels (rebuild it evs) =
    filter (\<lambda>k. hot_cutoff evs \<le> hk_ts_mono_ns k)
      (drop (length (hot_samples evs) - HOT_KERNELS_CAP) (hot_samples evs))"
proof -
  have "sorted (map hk_ts_mono_ns (drop n (hot_samples evs)))" for n
    using hot_samples_sorted [OF assms(1)] by (simp add: drop_map [symmetric])
  then show ?thesis
    by (simp add: hot_kernels_recent [OF assms] recent_def dropWhile_keyed)
qed

text \<open>A buffer whose two ops overlap, so that their times are scaled down to its window.\<close>

definition sample_ops :: "op_sample list" where
  "sample_ops =
     [\<lparr>op_name = ''matmul'', op_symbol = None, op_gpu_ns = 80, op_count = 1, op_apportioned_ns = None\<rparr>,
      \<lparr>op_name = ''add'', op_symbol = None, op_gpu_ns = 40, op_count = 1, op_apportioned_ns = None\<rparr>]"

definition live_events :: "event list" where
  "live_events = [mk_event 100 1 (MetalCbScheduled 5 7), mk_event 160 2 (MetalCbCompleted 5 7 4 None None 0),
     mk_event 161 3 (MetalCbOps 5 sample_ops)]"

lemma hot_kernels_match_breakdown_witness:
  "ui_hot_kernels (rebuild id live_events) =
     filter (\<lambda>k. hot_cutoff live_events \<le> hk_ts_mono_ns k)
       (drop (length (hot_samples live_events) - HOT_KERNELS_CAP) (hot_samples live_events)) \<and>
   map_of (compute_op_time_scales live_events) 3 = Some (1 / 2)"
proof
  show "ui_hot_kernels (rebuild id live_events) =
     filter (\<lambda>k. hot_cutoff live_events \<le> hk_ts_mono_ns k)
       (drop (length (hot_samples live_events) - HOT_KERNELS_CAP) (hot_samples live_events))"
    by (rule hot_kernels_match_breakdown) (simp_all add: live_events_def)
  show "map_of (compute_op_time_scales live_events) 3 = Some (1 / 2)" by code_simp
qed

end
