(* ===== verification/ReplayFacts.thy ===== *)
theory ReplayFacts
  imports Replay UiFacts
begin

text \<open>
  What the replay shows: whatever the keys and the clock do, the state drawn is the one of a fresh
  fold over the events from the last reset, if any, to the cursor; and the cursor stands at the
  virtual clock as long as the clock does not wrap.
\<close>

section \<open>The cursor\<close>

declare catch_from.simps [simp del]

lemma catch_from_spec:
  "i \<le> length (sb_events s) \<Longrightarrow>
     i \<le> catch_from s i \<and> catch_from s i \<le> length (sb_events s) \<and>
     (\<forall>k. i \<le> k \<and> k < catch_from s i \<longrightarrow> rel_ts s k \<le> sb_virtual_ns s) \<and>
     (catch_from s i < length (sb_events s) \<longrightarrow> \<not> rel_ts s (catch_from s i) \<le> sb_virtual_ns s)"
proof (induction s i rule: catch_from.induct)
  case (1 s i)
  show ?case
  proof (cases "i < length (sb_events s) \<and> rel_ts s i \<le> sb_virtual_ns s")
    case True
    note IH = "1.IH" [OF True]
    have e: "catch_from s i = catch_from s (Suc i)" using True by (subst catch_from.simps) simp
    have "rel_ts s k \<le> sb_virtual_ns s" if "i \<le> k" "k < catch_from s (Suc i)" for k
    proof (cases "k = i")
      case False
      with that IH True show ?thesis by simp
    qed (simp add: True)
    with IH True show ?thesis by (simp add: e)
  next
    case False
    have "catch_from s i = i" by (subst catch_from.simps) (rule if_not_P [OF False])
    with False "1.prems" show ?thesis by auto
  qed
qed

text \<open>The events lie in stamp order and the clock starts at the first one.\<close>

definition timeline_ok :: "scrub_state \<Rightarrow> bool" where
  "timeline_ok s \<longleftrightarrow>
     sorted (map ts_mono_ns (sb_events s)) \<and>
     sb_base_ns s = (case sb_events s of [] \<Rightarrow> 0 | e # _ \<Rightarrow> ts_mono_ns e)"

lemma rel_ts_mono:
  "timeline_ok s \<Longrightarrow> i \<le> j \<Longrightarrow> j < length (sb_events s) \<Longrightarrow> rel_ts s i \<le> rel_ts s j"
  by (auto simp: timeline_ok_def rel_ts_def sorted_iff_nth_mono word_le_nat_alt unat_sat_sub intro!: diff_le_mono)

lemma rel_ts_duration:
  assumes "timeline_ok s" and "i < length (sb_events s)"
  shows "rel_ts s i \<le> duration_ns s"
proof -
  from assms(2) have "sb_events s \<noteq> []" by auto
  then have "rel_ts s (length (sb_events s) - 1) = duration_ns s"
    using assms(1)
    by (cases "sb_events s") (auto simp: rel_ts_def duration_ns_def timeline_ok_def last_conv_nth)
  with rel_ts_mono [OF assms(1), of i "length (sb_events s) - 1"] assms(2) show ?thesis by simp
qed

text \<open>
  The cursor agrees with the clock: it has passed exactly the events up to the clock, or
  nothing has been played.
\<close>

definition passed :: "scrub_state \<Rightarrow> bool" where
  "passed s \<longleftrightarrow> (\<forall>i < length (sb_events s). i < sb_cursor s \<longleftrightarrow> rel_ts s i \<le> sb_virtual_ns s)"

definition cursor_ok :: "scrub_state \<Rightarrow> bool" where
  "cursor_ok s \<longleftrightarrow>
     timeline_ok s \<and> sb_cursor s \<le> length (sb_events s) \<and> sb_virtual_ns s \<le> duration_ns s \<and>
     (passed s \<or> sb_cursor s = 0 \<and> sb_virtual_ns s = 0)"

lemma moved_fields [simp]:
  "rel_ts (s\<lparr>sb_virtual_ns := v\<rparr>) = rel_ts s" "rel_ts (s\<lparr>sb_cursor := c\<rparr>) = rel_ts s"
  "duration_ns (s\<lparr>sb_virtual_ns := v\<rparr>) = duration_ns s" "duration_ns (s\<lparr>sb_cursor := c\<rparr>) = duration_ns s"
  "timeline_ok (s\<lparr>sb_virtual_ns := v\<rparr>) = timeline_ok s" "timeline_ok (s\<lparr>sb_cursor := c\<rparr>) = timeline_ok s"
  by (simp_all add: rel_ts_def duration_ns_def timeline_ok_def fun_eq_iff split: list.split)

lemma catch_up_ok:
  assumes t: "timeline_ok s" and c: "sb_cursor s \<le> length (sb_events s)"
    and v: "sb_virtual_ns s \<le> duration_ns s"
    and low: "\<forall>i < sb_cursor s. rel_ts s i \<le> sb_virtual_ns s"
  shows "cursor_ok (fst (catch_up s))" and "sb_events (fst (catch_up s)) = sb_events s"
    and "snd (catch_up s) = (sb_cursor s, sb_cursor (fst (catch_up s)))"
    and "sb_cursor s \<le> sb_cursor (fst (catch_up s))"
    and "sb_virtual_ns (fst (catch_up s)) = sb_virtual_ns s"
    and "sb_speed (fst (catch_up s)) = sb_speed s"
proof -
  let ?j = "catch_from s (sb_cursor s)"
  note j = catch_from_spec [OF c]
  have "i < ?j \<longleftrightarrow> rel_ts s i \<le> sb_virtual_ns s" if i: "i < length (sb_events s)" for i
  proof
    assume "i < ?j"
    with low j show "rel_ts s i \<le> sb_virtual_ns s" by (cases "i < sb_cursor s") simp_all
  next
    assume a: "rel_ts s i \<le> sb_virtual_ns s"
    show "i < ?j"
    proof (rule ccontr)
      assume "\<not> i < ?j"
      with rel_ts_mono [OF t, of ?j i] i a have "rel_ts s ?j \<le> sb_virtual_ns s" by simp
      with j i \<open>\<not> i < ?j\<close> show False by simp
    qed
  qed
  with t v j show "cursor_ok (fst (catch_up s))"
    by (simp add: catch_up_def Let_def cursor_ok_def passed_def)
qed (use catch_from_spec [OF c] in \<open>simp_all add: catch_up_def Let_def\<close>)

lemma cursor_ok_low: "cursor_ok s \<Longrightarrow> \<forall>i < sb_cursor s. rel_ts s i \<le> sb_virtual_ns s"
  by (auto simp: cursor_ok_def passed_def dest: less_le_trans)

lemma forward_ok:
  assumes s: "cursor_ok s" and v: "sb_virtual_ns s \<le> v" "v \<le> duration_ns s"
  shows "cursor_ok (fst (forward_to v s))" and "sb_events (fst (forward_to v s)) = sb_events s"
    and "snd (forward_to v s) = (sb_cursor s, sb_cursor (fst (forward_to v s)))"
    and "sb_cursor s \<le> sb_cursor (fst (forward_to v s))"
    and "sb_speed (fst (forward_to v s)) = sb_speed s"
proof -
  let ?s = "s\<lparr>sb_virtual_ns := v\<rparr>"
  have "\<forall>i < sb_cursor ?s. rel_ts ?s i \<le> sb_virtual_ns ?s"
    using cursor_ok_low [OF s] v(1) by (auto intro: order_trans)
  with s v catch_up_ok [of ?s]
  show "cursor_ok (fst (forward_to v s))" "sb_events (fst (forward_to v s)) = sb_events s"
    "snd (forward_to v s) = (sb_cursor s, sb_cursor (fst (forward_to v s)))"
    "sb_cursor s \<le> sb_cursor (fst (forward_to v s))"
    "sb_speed (fst (forward_to v s)) = sb_speed s"
    by (simp_all add: forward_to_def cursor_ok_def)
qed

lemma rewind_ok:
  assumes s: "cursor_ok s" and v: "v \<le> duration_ns s"
  shows "cursor_ok (fst (rewind_to v s))" and "sb_events (fst (rewind_to v s)) = sb_events s"
    and "snd (rewind_to v s) = (0, sb_cursor (fst (rewind_to v s)))"
    and "sb_speed (fst (rewind_to v s)) = sb_speed s"
  using s v catch_up_ok [of "s\<lparr>sb_virtual_ns := v, sb_cursor := 0\<rparr>"]
  by (simp_all add: rewind_to_def cursor_ok_def)

section \<open>Moves of the cursor\<close>

text \<open>
  A move stays in the session and says what it passed: the events from the old cursor to the new
  one, or all the events before the new one.
\<close>

definition moved :: "scrub_state \<Rightarrow> scrub_state \<Rightarrow> bool" where
  "moved s s' \<longleftrightarrow>
     sb_events s' = sb_events s \<and> sb_speed s' = sb_speed s \<and> sb_cursor s' \<le> length (sb_events s)"

definition seek_moves :: "(scrub_state \<Rightarrow> scrub_state \<times> seek_outcome) \<Rightarrow> scrub_state \<Rightarrow> bool" where
  "seek_moves f s \<longleftrightarrow>
     moved s (fst (f s)) \<and>
     (case snd (f s) of
        Forward r \<Rightarrow> r = (sb_cursor s, sb_cursor (fst (f s))) \<and> sb_cursor s \<le> sb_cursor (fst (f s))
      | Rewind r \<Rightarrow> r = (0, sb_cursor (fst (f s))))"

lemma catch_up_moves:
  assumes "sb_cursor s \<le> length (sb_events s)"
  shows "moved s (fst (catch_up s))" and "snd (catch_up s) = (sb_cursor s, sb_cursor (fst (catch_up s)))"
    and "sb_cursor s \<le> sb_cursor (fst (catch_up s))"
  using catch_from_spec [OF assms] by (simp_all add: moved_def catch_up_def Let_def)

lemma forward_moves:
  assumes "sb_cursor s \<le> length (sb_events s)"
  shows "moved s (fst (forward_to v s))" and "snd (forward_to v s) = (sb_cursor s, sb_cursor (fst (forward_to v s)))"
    and "sb_cursor s \<le> sb_cursor (fst (forward_to v s))"
  using catch_up_moves [of "s\<lparr>sb_virtual_ns := v\<rparr>"] assms by (simp_all add: forward_to_def moved_def)

lemma rewind_moves:
  "moved s (fst (rewind_to v s))" "snd (rewind_to v s) = (0, sb_cursor (fst (rewind_to v s)))"
  using catch_up_moves [of "s\<lparr>sb_virtual_ns := v, sb_cursor := 0\<rparr>"] by (simp_all add: rewind_to_def moved_def)

lemma seek_by_moves: "sb_cursor s \<le> length (sb_events s) \<Longrightarrow> seek_moves (seek_by_secs delta) s"
  using forward_moves [where s = s] rewind_moves [where s = s]
  by (simp add: seek_moves_def seek_by_secs_def Let_def) (simp add: moved_def)

lemma seek_to_moves: "sb_cursor s \<le> length (sb_events s) \<Longrightarrow> seek_moves (seek_to_ns ns) s"
  using forward_moves [where s = s] rewind_moves [where s = s] by (simp add: seek_moves_def seek_to_ns_def Let_def)

lemma advance_moves:
  assumes "sb_cursor s \<le> length (sb_events s)"
  shows "moved s (fst (advance wall_dt s))" and "snd (advance wall_dt s) = (sb_cursor s, sb_cursor (fst (advance wall_dt s)))"
    and "sb_cursor s \<le> sb_cursor (fst (advance wall_dt s))"
  using forward_moves [OF assms] assms
  by (simp_all add: advance_def forward_to_def [symmetric]) (simp add: moved_def)

section \<open>The state shown\<close>

definition shows_from :: "map_order \<Rightarrow> tui_app \<Rightarrow> scrub_state \<Rightarrow> nat \<Rightarrow> bool" where
  "shows_from it a s b \<longleftrightarrow>
     tu_scrub a = Some s \<and> b \<le> sb_cursor s \<and> sb_cursor s \<le> length (sb_events s) \<and>
     tu_state a = rebuild it (slice (sb_events s) (b, sb_cursor s))"

lemma slice_slice: "b \<le> c \<Longrightarrow> c \<le> j \<Longrightarrow> slice xs (b, c) @ slice xs (c, j) = slice xs (b, j)"
  using take_add [of "c - b" "j - c" "drop b xs"] by (simp add: slice_def)

lemma slice_empty [simp]: "slice xs (c, c) = []"
  by (simp add: slice_def)

lemma fold_slice:
  "b \<le> c \<Longrightarrow> c \<le> j \<Longrightarrow>
     foldl (ingest it) (rebuild it (slice xs (b, c))) (slice xs (c, j)) = rebuild it (slice xs (b, j))"
  by (simp add: slice_slice rebuild_append [symmetric])

lemma apply_seek_shows:
  assumes "shows_from it a s b" and "seek_moves f s"
  shows "moved s (fst (f s)) \<and> (\<exists>b' \<in> {b, 0}. shows_from it (apply_seek it f a) (fst (f s)) b')"
  using assms
  by (cases "snd (f s)")
    (auto simp: shows_from_def seek_moves_def moved_def apply_seek_def Let_def fold_slice)

definition resets :: "pass_input \<Rightarrow> bool" where
  "resets inp \<longleftrightarrow> (case pi_key inp of Some (code, _) \<Rightarrow> code = KChar ''r'' | None \<Rightarrow> False)"

text \<open>Any key: the fold starts where it did, or over from the first event, or, on a reset, at the cursor.\<close>

lemma handle_key_shows:
  assumes a: "shows_from it a s b"
  shows "\<exists>s' b'. shows_from it (handle_key it snap code shift a) s' b' \<and> moved s s' \<and>
    (b' = b \<or> b' = 0 \<or> code = KChar ''r'')"
proof (cases "tu_filtering a = None \<and> code \<in> {KLeft, KRight, KHome, KEnd}")
  case True
  from a have s: "tu_scrub a = Some s" "sb_cursor s \<le> length (sb_events s)" by (simp_all add: shows_from_def)
  from a have a': "shows_from it (a\<lparr>tu_status := None\<rparr>) s b" by (simp add: shows_from_def)
  from True s(1) have "handle_key it snap code shift a = seek_key it code shift (a\<lparr>tu_status := None\<rparr>)"
    by (simp add: handle_key_def)
  moreover from True obtain f where "seek_key it code shift (a\<lparr>tu_status := None\<rparr>) =
      apply_seek it f (a\<lparr>tu_status := None\<rparr>)" and "seek_moves f s"
    using seek_by_moves [OF s(2)] seek_to_moves [OF s(2)] by (auto simp: seek_key_def Let_def)
  moreover from apply_seek_shows [OF a' this(2)] obtain b' where
    "moved s (fst (f s))" "b' \<in> {b, 0}" "shows_from it (apply_seek it f (a\<lparr>tu_status := None\<rparr>)) (fst (f s)) b'"
    by blast
  ultimately show ?thesis by (intro exI [of _ "fst (f s)"] exI [of _ b']) auto
next
  case False
  have m: "moved s s" using a by (simp add: shows_from_def moved_def)
  have scrub: "tu_scrub (handle_key it snap code shift a) = tu_scrub a"
  proof (cases "tu_filtering a")
    case None
    with False show ?thesis by (auto simp: handle_key_def Let_def)
  next
    case (Some f)
    then show ?thesis by (simp add: handle_key_def filter_key_def Let_def split: key_code.split)
  qed
  show ?thesis
  proof (cases "tu_filtering a = None \<and> code = KChar ''r''")
    case True
    then have "tu_state (handle_key it snap code shift a) = ui_default"
      by (auto simp: handle_key_def Let_def)
    with a scrub True m show ?thesis
      by (intro exI [of _ s] exI [of _ "sb_cursor s"]) (simp add: shows_from_def rebuild_def)
  next
    case other: False
    have "tu_state (handle_key it snap code shift a) = tu_state a"
    proof (cases "tu_filtering a")
      case None
      with False other show ?thesis by (auto simp: handle_key_def Let_def)
    next
      case (Some f)
      then show ?thesis by (simp add: handle_key_def filter_key_def Let_def split: key_code.split)
    qed
    with a scrub m show ?thesis
      by (intro exI [of _ s] exI [of _ b]) (simp add: shows_from_def)
  qed
qed

lemma tick_shows:
  assumes a: "shows_from it a s b"
  shows "\<exists>s'. shows_from it (tick it wall_dt inbox a) s' b \<and> moved s s'"
proof (cases "tu_paused a")
  case True
  with a have "shows_from it (tick it wall_dt inbox a) s b" "moved s s"
    by (simp_all add: shows_from_def tick_def moved_def)
  then show ?thesis by blast
next
  case False
  from a have "sb_cursor s \<le> length (sb_events s)" by (simp add: shows_from_def)
  note adv = advance_moves [OF this, of wall_dt]
  with a False have "shows_from it (tick it wall_dt inbox a) (fst (advance wall_dt s)) b"
    by (simp add: shows_from_def tick_def Let_def moved_def fold_slice)
  with adv(1) show ?thesis by blast
qed

lemma moved_trans: "moved r s \<Longrightarrow> moved s t \<Longrightarrow> moved r t"
  by (simp add: moved_def)

lemma pass_shows:
  assumes a: "shows_from it a s b"
  shows "\<exists>s' b'. shows_from it (loop_pass it snap a inp) s' b' \<and> moved s s' \<and> (b' = b \<or> b' = 0 \<or> resets inp)"
proof (cases "tu_quit_requested a")
  case True
  with a show ?thesis
    by (intro exI [of _ s] exI [of _ b]) (simp add: loop_pass_def shows_from_def moved_def)
next
  case False
  define a1 where "a1 = (case pi_key inp of None \<Rightarrow> a | Some (code, shift) \<Rightarrow> handle_key it snap code shift a)"
  have "\<exists>s1 b1. shows_from it a1 s1 b1 \<and> moved s s1 \<and> (b1 = b \<or> b1 = 0 \<or> resets inp)"
  proof (cases "pi_key inp")
    case None
    with a show ?thesis
      by (intro exI [of _ s] exI [of _ b]) (simp add: a1_def shows_from_def moved_def)
  next
    case (Some k)
    with handle_key_shows [OF a, of snap "fst k" "snd k"] show ?thesis
      by (cases k) (simp add: a1_def resets_def)
  qed
  then obtain s1 b1 where s1: "shows_from it a1 s1 b1" "moved s s1" "b1 = b \<or> b1 = 0 \<or> resets inp" by blast
  from tick_shows [OF s1(1), of "pi_wall_dt inp" "pi_inbox inp"] obtain s2 where
    "shows_from it (tick it (pi_wall_dt inp) (pi_inbox inp) a1) s2 b1" "moved s1 s2" by blast
  with s1(2,3) False show ?thesis
    by (intro exI [of _ s2] exI [of _ b1]) (simp add: loop_pass_def a1_def moved_trans [of s s1 s2])
qed

lemma run_shows:
  "shows_from it a s b \<Longrightarrow>
     \<exists>s' b'. shows_from it (run_tui it snap a inps) s' b' \<and> moved s s' \<and>
       (b' = b \<or> b' = 0 \<or> (\<exists>inp \<in> set inps. resets inp))"
proof (induction inps rule: rev_induct)
  case Nil
  then have "moved s s" by (simp add: shows_from_def moved_def)
  with Nil show ?case by (intro exI [of _ s] exI [of _ b]) (simp add: run_tui_def)
next
  case (snoc inp inps)
  then obtain s1 b1 where s1: "shows_from it (run_tui it snap a inps) s1 b1" "moved s s1"
    "b1 = b \<or> b1 = 0 \<or> (\<exists>inp \<in> set inps. resets inp)" by blast
  from pass_shows [OF s1(1), of snap inp] obtain s2 b2 where
    "shows_from it (loop_pass it snap (run_tui it snap a inps) inp) s2 b2" "moved s1 s2"
    "b2 = b1 \<or> b2 = 0 \<or> resets inp" by blast
  with s1(2,3) show ?case
    by (intro exI [of _ s2] exI [of _ b2]) (auto simp: run_tui_def moved_trans [of s s1 s2])
qed

section \<open>The clock\<close>

text \<open>The cursor agrees with the clock after any key and after a tick that does not wrap it.\<close>

definition on_time :: "tui_app \<Rightarrow> bool" where
  "on_time a \<longleftrightarrow> (\<exists>s. tu_scrub a = Some s \<and> cursor_ok s)"

lemma seek_by_ok:
  assumes s: "cursor_ok s"
  shows "cursor_ok (fst (seek_by_secs delta s))"
proof -
  have v: "sb_virtual_ns s \<le> duration_ns s" using s by (simp add: cursor_ok_def)
  show ?thesis
  proof (cases "sint delta < 0")
    case True
    let ?t = "min (sat_sub (sb_virtual_ns s) (- delta * 1000000000)) (duration_ns s)"
    show ?thesis
      using True s rewind_ok [OF s, of ?t] by (simp add: seek_by_secs_def Let_def)
  next
    case False
    let ?t = "min (sat_add (sb_virtual_ns s) (delta * 1000000000)) (duration_ns s)"
    from v have "sb_virtual_ns s \<le> ?t" by (simp add: sat_add_ge)
    with False forward_ok [OF s this] show ?thesis by (simp add: seek_by_secs_def Let_def)
  qed
qed

lemma seek_to_ok:
  assumes s: "cursor_ok s"
  shows "cursor_ok (fst (seek_to_ns ns s))"
proof (cases "sb_virtual_ns s \<le> min ns (duration_ns s)")
  case True
  with forward_ok [OF s True] show ?thesis by (simp add: seek_to_ns_def Let_def)
next
  case False
  then have "seek_to_ns ns s =
    (fst (rewind_to (min ns (duration_ns s)) s), Rewind (snd (rewind_to (min ns (duration_ns s)) s)))"
    unfolding seek_to_ns_def Let_def by (rule if_not_P)
  with rewind_ok [OF s, of "min ns (duration_ns s)"] show ?thesis by simp
qed

lemma handle_key_on_time: "on_time a \<Longrightarrow> on_time (handle_key it snap code shift a)"
proof -
  assume "on_time a"
  then obtain s where s: "tu_scrub a = Some s" "cursor_ok s" by (auto simp: on_time_def)
  have seek: "on_time (apply_seek it f (a\<lparr>tu_status := None\<rparr>))" if "cursor_ok (fst (f s))" for f
    using that s by (simp add: on_time_def apply_seek_def Let_def)
  have seeks: "on_time (apply_seek it (seek_by_secs delta) (a\<lparr>tu_status := None\<rparr>))"
    "on_time (apply_seek it (seek_to_ns ns) (a\<lparr>tu_status := None\<rparr>))" for delta ns
    using seek [of "seek_by_secs delta"] seek [of "seek_to_ns ns"] seek_by_ok [OF s(2)] seek_to_ok [OF s(2)]
    by blast+
  have other: "tu_scrub (filter_key code b a') = tu_scrub a'" for b a'
    by (simp add: filter_key_def split: key_code.split)
  show ?thesis
  proof (cases "tu_filtering a = None \<and> code \<in> {KLeft, KRight, KHome, KEnd}")
    case True
    with s(1) seeks show ?thesis by (auto simp: handle_key_def seek_key_def Let_def)
  next
    case False
    then have "tu_scrub (handle_key it snap code shift a) = tu_scrub a"
      by (cases "tu_filtering a") (auto simp: handle_key_def Let_def other)
    with s show ?thesis by (simp add: on_time_def)
  qed
qed

definition no_wrap :: "scrub_state \<Rightarrow> nat \<Rightarrow> bool" where
  "no_wrap s wall_dt \<longleftrightarrow> unat (duration_ns s) + unat (dt_ns s wall_dt) < 2 ^ 64"

lemma no_wrap_moved: "moved s s' \<Longrightarrow> no_wrap s' = no_wrap s"
  by (auto simp: moved_def no_wrap_def dt_ns_def duration_ns_def fun_eq_iff split: list.split)

lemma clock_advances:
  assumes "cursor_ok s" and "no_wrap s wall_dt"
  shows "sb_virtual_ns s \<le> min (sb_virtual_ns s + dt_ns s wall_dt) (duration_ns s)"
proof -
  from assms have "unat (sb_virtual_ns s) + unat (dt_ns s wall_dt) < 2 ^ 64"
    by (simp add: cursor_ok_def no_wrap_def word_le_nat_alt)
  then have "unat (sb_virtual_ns s + dt_ns s wall_dt) = unat (sb_virtual_ns s) + unat (dt_ns s wall_dt)"
    by (simp add: unat_word_ariths)
  then have "sb_virtual_ns s \<le> sb_virtual_ns s + dt_ns s wall_dt" by (simp add: word_le_nat_alt)
  with assms(1) show ?thesis by (simp add: cursor_ok_def)
qed

lemma tick_on_time:
  assumes "tu_scrub a = Some s" and s: "cursor_ok s" and w: "no_wrap s wall_dt"
  shows "on_time (tick it wall_dt inbox a)"
proof (cases "tu_paused a \<or> sb_speed s \<le> 0 \<or> at_end s")
  case True
  with assms show ?thesis by (auto simp: on_time_def tick_def advance_def)
next
  case False
  let ?v = "min (sb_virtual_ns s + dt_ns s wall_dt) (duration_ns s)"
  from False have adv: "advance wall_dt s = forward_to ?v s"
    by (simp add: advance_def forward_to_def)
  have "?v \<le> duration_ns s" by simp
  from forward_ok [OF s clock_advances [OF s w] this] False assms(1) show ?thesis
    by (simp add: on_time_def tick_def adv Let_def)
qed

lemma run_on_time:
  assumes a: "shows_from it a s b" and t: "on_time a"
  shows "list_all (\<lambda>inp. no_wrap s (pi_wall_dt inp)) inps \<Longrightarrow> on_time (run_tui it snap a inps)"
proof (induction inps rule: rev_induct)
  case Nil
  with t show ?case by (simp add: run_tui_def)
next
  case (snoc inp inps)
  let ?a = "run_tui it snap a inps"
  let ?k = "case pi_key inp of None \<Rightarrow> ?a | Some (code, shift) \<Rightarrow> handle_key it snap code shift ?a"
  from snoc have t1: "on_time ?a" and w: "no_wrap s (pi_wall_dt inp)" by simp_all
  obtain s1 b1 where s1: "shows_from it ?a s1 b1" "moved s s1" using run_shows [OF a, of snap inps] by blast
  show ?case
  proof (cases "tu_quit_requested ?a")
    case True
    with t1 show ?thesis by (simp add: run_tui_def loop_pass_def)
  next
    case False
    have t2: "on_time ?k" using t1 handle_key_on_time by (simp split: option.split)
    have "\<exists>s2 b2. shows_from it ?k s2 b2 \<and> moved s1 s2"
    proof (cases "pi_key inp")
      case None
      with s1(1) show ?thesis by (intro exI [of _ s1] exI [of _ b1]) (simp add: shows_from_def moved_def)
    next
      case (Some k)
      with handle_key_shows [OF s1(1), of snap "fst k" "snd k"] show ?thesis by (cases k) auto
    qed
    then obtain s2 b2 where s2: "shows_from it ?k s2 b2" "moved s1 s2" by blast
    with w no_wrap_moved [OF moved_trans [OF s1(2) s2(2)]] have "no_wrap s2 (pi_wall_dt inp)" by simp
    moreover have "tu_scrub ?k = Some s2" "cursor_ok s2" using s2(1) t2 by (auto simp: shows_from_def on_time_def)
    ultimately have "on_time (tick it (pi_wall_dt inp) (pi_inbox inp) ?k)" by (intro tick_on_time)
    moreover have "run_tui it snap a (inps @ [inp]) = loop_pass it snap ?a inp" by (simp add: run_tui_def)
    ultimately show ?thesis using False by (simp add: loop_pass_def)
  qed
qed

lemma scrub_new_fields:
  "sb_events (scrub_new events speed) = sort_key ts_mono_ns events"
  "sb_speed (scrub_new events speed) = speed" "timeline_ok (scrub_new events speed)"
  by (simp_all add: scrub_new_def Let_def timeline_ok_def split: list.split)

lemma start_shows:
  "shows_from it (set_scrub it (scrub_new events speed) (app_new m)) (scrub_new events speed) 0"
  "cursor_ok (scrub_new events speed)"
proof -
  let ?s = "scrub_new events speed"
  note f = scrub_new_fields [of events speed]
  have "shows_from it (set_scrub it ?s (app_new m)) ?s 0 \<and> cursor_ok ?s"
  proof (cases "speed \<le> 0")
    case True
    define s0 where "s0 = \<lparr>sb_events = sort_key ts_mono_ns events,
      sb_base_ns = (case sort_key ts_mono_ns events of [] \<Rightarrow> 0 | e # _ \<Rightarrow> ts_mono_ns e),
      sb_cursor = 0, sb_virtual_ns = 0, sb_speed = speed\<rparr>"
    from True have "?s = s0\<lparr>sb_virtual_ns := duration_ns s0, sb_cursor := length (sb_events s0)\<rparr>"
      by (simp add: scrub_new_def Let_def s0_def)
    then have c: "sb_cursor ?s = length (sb_events ?s)" "sb_virtual_ns ?s = duration_ns ?s"
      by simp_all
    with rel_ts_duration [OF f(3)] f(3) show ?thesis
      by (simp add: shows_from_def set_scrub_def at_end_def cursor_ok_def passed_def slice_def)
  next
    case False
    then have c: "sb_cursor ?s = 0" "sb_virtual_ns ?s = 0" by (simp_all add: scrub_new_def Let_def)
    have "at_end ?s \<Longrightarrow> sb_events ?s = []" using c by (simp add: at_end_def)
    with c f(3) show ?thesis
      by (auto simp: shows_from_def set_scrub_def cursor_ok_def app_new_def rebuild_def)
  qed
  then show "shows_from it (set_scrub it ?s (app_new m)) ?s 0" "cursor_ok ?s" by simp_all
qed


text \<open>A session of three events out of order: two ticks, a seek back and a tick.\<close>

definition sample_events :: "event list" where
  "sample_events = [mk_event 7 0 (Mark ''b'' []), mk_event 1 1 (Mark ''a'' []),
     mk_event 9 2 (Mark ''c'' [])]"

definition sample_passes :: "pass_input list" where
  "sample_passes =
     [\<lparr>pi_key = None, pi_wall_dt = 4, pi_inbox = []\<rparr>,
      \<lparr>pi_key = None, pi_wall_dt = 2, pi_inbox = []\<rparr>,
      \<lparr>pi_key = Some (KLeft, False), pi_wall_dt = 1, pi_inbox = []\<rparr>]"

lemma sample_no_wrap:
  "n \<in> {1, 2, 4} \<Longrightarrow> no_wrap (scrub_new sample_events 1) n"
proof -
  have "duration_ns (scrub_new sample_events 1) = 8" by code_simp
  moreover have "dt_ns (scrub_new sample_events 1) 1 = 1" "dt_ns (scrub_new sample_events 1) 2 = 2"
    "dt_ns (scrub_new sample_events 1) 4 = 4" by code_simp+
  ultimately show "n \<in> {1, 2, 4} \<Longrightarrow> no_wrap (scrub_new sample_events 1) n"
    by (auto simp: no_wrap_def)
qed


text \<open>Three events, five seconds apart, played at a speed of \<open>10\<^sup>1\<^sup>3\<close>.\<close>

definition mark_at :: "u64 \<Rightarrow> event" where
  "mark_at t = (mk_event 0 0 (Mark ''m'' []))\<lparr>ts_mono_ns := t\<rparr>"

definition fast_start :: scrub_state where
  "fast_start = scrub_new [mark_at 0, mark_at 5000000000, mark_at 10000000000] 10000000000000"

definition fast_replay :: scrub_state where
  "fast_replay = fst (seek_by_secs (- 5) (fst (advance 33000000 fast_start)))"

text \<open>A tick of 33 ms at that speed.\<close>

definition saturated_advance :: "scrub_state \<Rightarrow> scrub_state \<times> event_range" where
  "saturated_advance s =
     (if sb_speed s \<le> 0 \<or> at_end s then (s, (sb_cursor s, sb_cursor s))
      else catch_up (s\<lparr>sb_virtual_ns := min (sb_virtual_ns s + - 1) (duration_ns s)\<rparr>))"

lemma fast_tick: "sb_speed s = 10000000000000 \<Longrightarrow> advance 33000000 s = saturated_advance s"
proof -
  have "f64_of_nat 33000000 = f64_round 33000000" by (simp add: f64_of_nat_def)
  also have "\<dots> = 33000000" by code_simp
  finally have "dt_ns s 33000000 = f64_to_u64 (f64_mul 33000000 10000000000000)"
    if "sb_speed s = 10000000000000" using that by (simp only: dt_ns_def)
  also have "f64_to_u64 (f64_mul 33000000 10000000000000) = - 1" by code_simp
  finally have "dt_ns s 33000000 = - 1" if "sb_speed s = 10000000000000" using that .
  then show "sb_speed s = 10000000000000 \<Longrightarrow> advance 33000000 s = saturated_advance s"
    by (simp add: advance_def saturated_advance_def)
qed

lemma mark_at_stamp [simp]: "ts_mono_ns (mark_at t) = t"
  by (simp add: mark_at_def)

definition fast_at :: "nat \<Rightarrow> u64 \<Rightarrow> scrub_state" where
  "fast_at c v =
     \<lparr>sb_events = [mark_at 0, mark_at 5000000000, mark_at 10000000000], sb_base_ns = 0,
      sb_cursor = c, sb_virtual_ns = v, sb_speed = 10000000000000\<rparr>"

lemma fast_at_simps [simp]:
  "sb_cursor (fast_at c v) = c" "sb_virtual_ns (fast_at c v) = v"
  "sb_speed (fast_at c v) = 10000000000000" "duration_ns (fast_at c v) = 10000000000"
  "length (sb_events (fast_at c v)) = 3"
  "rel_ts (fast_at c v) 0 = 0" "rel_ts (fast_at c v) (Suc 0) = 5000000000"
  "rel_ts (fast_at c v) (Suc (Suc 0)) = 10000000000" "rel_ts (fast_at c v) 2 = 10000000000"
  "(fast_at c v)\<lparr>sb_cursor := d\<rparr> = fast_at d v" "(fast_at c v)\<lparr>sb_virtual_ns := w\<rparr> = fast_at c w"
  by (simp_all add: fast_at_def duration_ns_def rel_ts_def sat_sub_def)

lemma fast_start_at: "fast_start = fast_at 0 0"
  by (simp add: fast_start_def fast_at_def scrub_new_def Let_def)

lemma fast_replay_at: "fast_replay = fast_at 2 5000000000"
  by (simp add: fast_replay_def fast_start_at fast_tick saturated_advance_def at_end_def
      seek_by_secs_def rewind_to_def catch_up_def Let_def catch_from.simps sat_sub_def)
    (simp only: numeral_2_eq_2)

lemma fast_replay_tick: "fst (advance 33000000 fast_replay) = fast_at 2 4999999999"
  by (simp add: fast_replay_at fast_tick saturated_advance_def at_end_def catch_up_def Let_def
      catch_from.simps)

lemma passed_fast_at: "passed (fast_at c v) \<longleftrightarrow>
    (0 < c) \<and> (1 < c \<longleftrightarrow> 5000000000 \<le> v) \<and> (2 < c \<longleftrightarrow> 10000000000 \<le> v)"
  by (auto simp: passed_def less_Suc_eq numeral_eq_Suc)

text \<open>
  The condition on the ticks is needed: at a speed of \<open>10\<^sup>1\<^sup>3\<close> the nanoseconds of a tick
  saturate at \<open>2\<^sup>6\<^sup>4 - 1\<close>, and adding them to a clock that stands at five seconds wraps.  Instead of
  playing to the end, the clock then runs backward by one nanosecond per tick, below an event the
  cursor has passed.
\<close>

theorem fast_replay_runs_backward:
  "sb_virtual_ns fast_replay = 5000000000 \<and> passed fast_replay \<and>
   sb_virtual_ns (fst (advance 33000000 fast_replay)) = 4999999999 \<and>
   sb_cursor (fst (advance 33000000 fast_replay)) = 2 \<and>
   \<not> passed (fst (advance 33000000 fast_replay))"
  unfolding fast_replay_tick unfolding fast_replay_at by (simp add: passed_fast_at)

end
