(* ===== verification/DaemonServer.thy ===== *)
theory DaemonServer
  imports SessionRouter SessionDir
begin

text \<open>
  The server of the daemon: the messages, \<open>crates/smeltr-daemon/src/protocol.rs\<close>, the runtime of
  the per-process probes, \<open>probes.rs\<close>, the removal of rings, \<open>metal-ring/src/family.rs\<close>, and the
  handling of connections and messages, \<open>server.rs\<close>.  A request is handled as a whole.  A probe
  task is a number; what the operating system answers (new ids, clocks, the files) comes with each
  request.
\<close>

section \<open>Messages\<close>

datatype client_to_daemon =
  Hello string "string option"
| Emit source "u32 option" "string option" "u64 option" payload
| ListSessions
| GetSession uuid
| Shutdown
| AttachScopedProbes u32 "string list" "string option" "string option" bool "string option"
| DetachScopedProbes u32 "i32 option" "i32 option"
| AttachMetalHook u32 string
| DetachMetalHook u32
| SubscribeEvents

datatype daemon_to_client =
  Welcome string uuid string
| Ack
| ErrorReply string
| SessionList "string list"
| SessionEvents "event list" session_metadata
| EventNotification event

section \<open>Framing on the socket\<close>

text \<open>
  \<open>read_msg_within\<close> on the bytes that arrive before the peer closes the connection or, when
  \<open>stalled\<close>, stops sending.  \<open>None\<close>: still waiting for the next frame.
\<close>

datatype msg_error = FrameTooLargeMsg | TimedOut | MidFrame | InvalidData

definition read_msg ::
  "(bytes \<Rightarrow> 'm option) \<Rightarrow> bool \<Rightarrow> bytes \<Rightarrow> (msg_error + ('m \<times> bytes) option) option" where
  "read_msg dec stalled bs =
     (if length bs < 4 then (if stalled then None else Some (Inr None))
      else
        (let len = unat (u32_of (take 4 bs)); rest = drop 4 bs
         in if MAX_FRAME_BYTES < len then Some (Inl FrameTooLargeMsg)
            else if length rest < len then Some (Inl (if stalled then TimedOut else MidFrame))
            else (case dec (take len rest) of
                    None \<Rightarrow> Some (Inl InvalidData)
                  | Some v \<Rightarrow> Some (Inr (Some (v, drop len rest))))))"

definition too_large_reply :: "nat \<Rightarrow> daemon_to_client" where
  "too_large_reply n =
     ErrorReply (''response too large for the socket ('' @ digits n @
       '' bytes); read the session from disk'')"

definition write_bytes :: "bytes \<Rightarrow> bytes" where
  "write_bytes buf = put_u32 (of_nat (length buf)) @ buf"

definition write_msg :: "(daemon_to_client \<Rightarrow> bytes option) \<Rightarrow> daemon_to_client \<Rightarrow> bytes option" where
  "write_msg enc v =
     (case enc v of
        None \<Rightarrow> None
      | Some buf \<Rightarrow>
          if MAX_FRAME_BYTES < length buf
          then map_option write_bytes (enc (too_large_reply (length buf)))
          else Some (write_bytes buf))"

section \<open>Per-process probes\<close>

record probe_runtime =
  pr_next :: nat
  pr_running :: "nat set"
  pr_handle :: "nat option"
  pr_scoped :: "u32 \<rightharpoonup> nat"
  pr_metal_hooks :: "u32 \<rightharpoonup> nat"

definition start_global :: probe_runtime where
  "start_global =
     \<lparr>pr_next = 1, pr_running = {0}, pr_handle = Some 0, pr_scoped = Map.empty,
      pr_metal_hooks = Map.empty\<rparr>"

definition spawn :: "probe_runtime \<Rightarrow> probe_runtime" where
  "spawn p = p\<lparr>pr_running := insert (pr_next p) (pr_running p), pr_next := Suc (pr_next p)\<rparr>"

definition stop :: "nat option \<Rightarrow> probe_runtime \<Rightarrow> probe_runtime" where
  "stop h p = p\<lparr>pr_running := pr_running p - set_option h\<rparr>"

definition attach_probes :: "u32 \<Rightarrow> probe_runtime \<Rightarrow> probe_runtime" where
  "attach_probes pid p =
     (let p1 = spawn p
      in stop (pr_scoped p pid) (p1\<lparr>pr_scoped := (pr_scoped p)(pid \<mapsto> pr_next p)\<rparr>))"

definition detach_probes :: "u32 \<Rightarrow> probe_runtime \<Rightarrow> probe_runtime" where
  "detach_probes pid p = stop (pr_scoped p pid) (p\<lparr>pr_scoped := (pr_scoped p)(pid := None)\<rparr>)"

definition attach_metal_hook :: "u32 \<Rightarrow> probe_runtime \<Rightarrow> probe_runtime" where
  "attach_metal_hook pid p =
     (let p1 = spawn p
      in stop (pr_metal_hooks p pid)
           (p1\<lparr>pr_metal_hooks := (pr_metal_hooks p)(pid \<mapsto> pr_next p)\<rparr>))"

definition detach_metal_hook :: "u32 \<Rightarrow> probe_runtime \<Rightarrow> probe_runtime" where
  "detach_metal_hook pid p =
     stop (pr_metal_hooks p pid) (p\<lparr>pr_metal_hooks := (pr_metal_hooks p)(pid := None)\<rparr>)"

definition shutdown_probes :: "probe_runtime \<Rightarrow> probe_runtime" where
  "shutdown_probes p =
     p\<lparr>pr_running := pr_running p - ran (pr_metal_hooks p) - ran (pr_scoped p) - set_option (pr_handle p),
       pr_handle := None, pr_scoped := Map.empty, pr_metal_hooks := Map.empty\<rparr>"

section \<open>Rings\<close>

text \<open>
  The files present are paths.  A sibling of a ring is a file of its directory whose name goes on
  with a dot and a process id.
\<close>

definition parse_u32 :: "string \<Rightarrow> nat option" where
  "parse_u32 s = (case parse_u64 s of None \<Rightarrow> None | Some n \<Rightarrow> if n < 2 ^ 32 then Some n else None)"

definition siblings_matching ::
  "(string \<Rightarrow> nat option) \<Rightarrow> string \<Rightarrow> string list \<Rightarrow> (nat \<times> string) list" where
  "siblings_matching parse main paths =
     (if file_name main = None then []
      else List.map_filter (\<lambda>p.
        if starts_with p (main @ ''.'') \<and> CHR ''/'' \<notin> set (drop (Suc (length main)) p)
        then map_option (\<lambda>pid. (pid, p)) (parse (drop (Suc (length main)) p))
        else None) paths)"

definition ring_family :: "string list \<Rightarrow> string \<Rightarrow> string list" where
  "ring_family paths main =
     (if main \<in> set paths then [main] else []) @
     map snd (sort_key fst (siblings_matching parse_u32 main paths))"

definition without_tmp :: "string \<Rightarrow> string" where
  "without_tmp s = (if ends_with s ''.tmp'' then take (length s - 4) s else s)"

definition remove_ring_family :: "string \<Rightarrow> string list \<Rightarrow> string list" where
  "remove_ring_family main paths =
     (let left = filter (\<lambda>p. p \<noteq> main) paths;
          doomed = siblings_matching (\<lambda>suffix. parse_u32 (without_tmp suffix)) main left
      in filter (\<lambda>p. p \<notin> snd ` set doomed) left)"

section \<open>The server\<close>

record server =
  sv_router :: router
  sv_probes :: probe_runtime
  sv_shutdown :: bool
  sv_paths :: "string list"

record request_env =
  rq_codecs :: codecs
  rq_chunked_env :: bool
  rq_seed :: session_seed
  rq_closing :: closing
  rq_now :: nat
  rq_arrived :: nat
  rq_version :: string
  rq_append_error :: "session_error \<Rightarrow> string"
  rq_open_error :: string
  rq_sessions :: "string + store"
  rq_events :: "string \<Rightarrow> string + event list"
  rq_metadata :: "string \<Rightarrow> string + session_metadata"

text \<open>\<open>SMELTR_SOCKET\<close>, else \<open>smeltr.sock\<close> in the runtime directory; an empty variable is unset.\<close>

definition path_join :: "string \<Rightarrow> string \<Rightarrow> string" where
  "path_join dir name = (if ends_with dir ''/'' then dir @ name else dir @ ''/'' @ name)"

definition nonempty_var :: "(string \<rightharpoonup> string) \<Rightarrow> string \<Rightarrow> string option" where
  "nonempty_var env k = (case env k of None \<Rightarrow> None | Some v \<Rightarrow> if v = [] then None else Some v)"

definition socket_path :: "(string \<rightharpoonup> string) \<Rightarrow> string" where
  "socket_path env =
     (case nonempty_var env ''SMELTR_SOCKET'' of
        Some p \<Rightarrow> p
      | None \<Rightarrow>
          path_join
            (case nonempty_var env ''XDG_RUNTIME_DIR'' of
               Some d \<Rightarrow> d
             | None \<Rightarrow> (case nonempty_var env ''TMPDIR'' of Some d \<Rightarrow> d | None \<Rightarrow> ''/tmp''))
            ''smeltr.sock'')"

text \<open>\<open>Display\<close> of a session id.\<close>

definition hyphenated :: "uuid \<Rightarrow> string" where
  "hyphenated u =
     (let s = simple_uuid u
      in take 8 s @ ''-'' @ take 4 (drop 8 s) @ ''-'' @ take 4 (drop 12 s) @ ''-'' @
         take 4 (drop 16 s) @ ''-'' @ drop 20 s)"

definition get_session :: "request_env \<Rightarrow> uuid \<Rightarrow> daemon_to_client" where
  "get_session e u =
     (case rq_sessions e of
        Inl err \<Rightarrow> ErrorReply err
      | Inr st \<Rightarrow>
          (case find_session_dir u st of
             None \<Rightarrow> ErrorReply (''session '' @ hyphenated u @ '' not found'')
           | Some dir \<Rightarrow>
               (case (rq_events e dir, rq_metadata e dir) of
                  (Inr events, Inr m) \<Rightarrow> SessionEvents events m
                | (Inl err, _) \<Rightarrow> ErrorReply err
                | (_, Inl err) \<Rightarrow> ErrorReply err)))"

text \<open>\<open>handle_msg\<close>; \<open>None\<close> stands for its \<open>unreachable!\<close>.\<close>

definition handle_msg ::
  "request_env \<Rightarrow> client_to_daemon \<Rightarrow> server \<Rightarrow> (daemon_to_client \<times> server) option" where
  "handle_msg e msg sv =
     (case msg of
        Hello client token \<Rightarrow>
          (let r = sv_router sv;
               sid = (case Option.bind token (\<lambda>t. session_for_token t r) of
                        Some s \<Rightarrow> s | None \<Rightarrow> rt_ambient r)
           in Some (Welcome (rq_version e) (rt_ambient r) (short sid), sv))
      | Emit src pid token raw p \<Rightarrow>
          (case append_stamped (rq_codecs e) src pid token raw p (rq_now e) (rq_arrived e) (sv_router sv) of
             (res, r) \<Rightarrow>
               Some (case res of Inr _ \<Rightarrow> Ack | Inl err \<Rightarrow> ErrorReply (rq_append_error e err),
                     sv\<lparr>sv_router := r\<rparr>))
      | ListSessions \<Rightarrow>
          Some (case rq_sessions e of Inl err \<Rightarrow> ErrorReply err | Inr st \<Rightarrow> SessionList (map fst st), sv)
      | GetSession u \<Rightarrow> Some (get_session e u, sv)
      | Shutdown \<Rightarrow> Some (Ack, sv\<lparr>sv_shutdown := True\<rparr>)
      | AttachScopedProbes pid argv token name chunked gputrace \<Rightarrow>
          (case attach_scoped (rq_codecs e) (rq_chunked_env e)
                  \<lparr>so_pid = pid, so_scope_token = token, so_chunked = chunked\<rparr>
                  (rq_seed e) (rq_closing e) (sv_router sv) of
             (Some _, r) \<Rightarrow>
               Some (Ack, sv\<lparr>sv_router := r, sv_probes := attach_probes pid (sv_probes sv)\<rparr>)
           | (None, r) \<Rightarrow>
               Some (ErrorReply (''could not open the scoped session: '' @ rq_open_error e),
                     sv\<lparr>sv_router := r\<rparr>))
      | DetachScopedProbes pid code sig \<Rightarrow>
          Some (Ack, sv\<lparr>sv_probes := detach_probes pid (sv_probes sv),
                        sv_router := snd (detach_scoped (rq_codecs e) pid code sig (rq_closing e) (sv_router sv))\<rparr>)
      | AttachMetalHook pid ring \<Rightarrow>
          Some (Ack, sv\<lparr>sv_probes := attach_metal_hook pid (sv_probes sv)\<rparr>)
      | DetachMetalHook pid \<Rightarrow>
          Some (Ack, sv\<lparr>sv_probes := detach_metal_hook pid (sv_probes sv)\<rparr>)
      | SubscribeEvents \<Rightarrow> None)"

section \<open>Connections\<close>

record conn_attachments =
  ca_scoped :: "u32 list"
  ca_hooks :: "(u32 \<times> string) list"

definition no_attachments :: conn_attachments where
  "no_attachments = \<lparr>ca_scoped = [], ca_hooks = []\<rparr>"

definition note_msg :: "client_to_daemon \<Rightarrow> conn_attachments \<Rightarrow> conn_attachments" where
  "note_msg msg a =
     (case msg of
        AttachScopedProbes pid _ _ _ _ _ \<Rightarrow> a\<lparr>ca_scoped := ca_scoped a @ [pid]\<rparr>
      | DetachScopedProbes pid _ _ \<Rightarrow> a\<lparr>ca_scoped := filter (\<lambda>p. p \<noteq> pid) (ca_scoped a)\<rparr>
      | AttachMetalHook pid ring \<Rightarrow> a\<lparr>ca_hooks := ca_hooks a @ [(pid, ring)]\<rparr>
      | DetachMetalHook pid \<Rightarrow> a\<lparr>ca_hooks := filter (\<lambda>h. fst h \<noteq> pid) (ca_hooks a)\<rparr>
      | _ \<Rightarrow> a)"

text \<open>
  One turn of \<open>handle_connection_inner\<close>: the reply, and whether the connection goes on reading
  messages.  A subscriber is answered and only streamed to from then on.
\<close>

definition connection_turn ::
  "request_env \<Rightarrow> client_to_daemon \<Rightarrow> server \<times> conn_attachments \<Rightarrow>
   daemon_to_client \<times> bool \<times> server \<times> conn_attachments" where
  "connection_turn e msg st =
     (case handle_msg e msg (fst st) of
        None \<Rightarrow> (Ack, False, st)
      | Some (reply, sv) \<Rightarrow> (reply, True, sv, note_msg msg (snd st)))"

text \<open>
  Whether a process exists: signal \<open>0\<close> is delivered, or refused because it belongs to someone else.
  What \<open>kill\<close> answers is the operating system's.
\<close>

datatype kill_result = KillOk | KillErrno int

definition EPERM :: int where "EPERM = 1"

definition pid_alive :: "(u32 \<Rightarrow> kill_result) \<Rightarrow> u32 \<Rightarrow> bool" where
  "pid_alive kill pid =
     (if 2 ^ 31 \<le> unat pid then False
      else (case kill pid of KillOk \<Rightarrow> True | KillErrno n \<Rightarrow> n = EPERM))"

text \<open>
  A connection: its messages are read; or it is only streamed to; or it is over and
  \<open>handle_connection\<close> waits for the listed processes to exit, then detaches what is left attached.
  Other connections run between two polls of a process and before each detach, where the code sleeps.
\<close>

datatype connection = Reading conn_attachments | Streaming conn_attachments
  | Ending "u32 list" conn_attachments

definition hung_up :: "conn_attachments \<Rightarrow> connection" where
  "hung_up a = Ending (ca_scoped a @ map fst (ca_hooks a)) a"

definition drop_hook :: "server \<Rightarrow> u32 \<times> string \<Rightarrow> server" where
  "drop_hook sv h =
     sv\<lparr>sv_probes := detach_metal_hook (fst h) (sv_probes sv),
        sv_paths := remove_ring_family (snd h) (sv_paths sv)\<rparr>"

definition drop_scoped :: "request_env \<Rightarrow> server \<Rightarrow> u32 \<Rightarrow> server" where
  "drop_scoped e sv pid =
     sv\<lparr>sv_probes := detach_probes pid (sv_probes sv),
        sv_router := snd (detach_scoped (rq_codecs e) pid None None (rq_closing e) (sv_router sv))\<rparr>"

text \<open>One turn of a connection that is over; \<open>None\<close>: it is done.\<close>

definition ending_turn ::
  "request_env \<Rightarrow> (u32 \<Rightarrow> kill_result) \<Rightarrow> u32 list \<Rightarrow> conn_attachments \<Rightarrow> server \<Rightarrow>
   connection option \<times> server" where
  "ending_turn e kill pids a sv =
     (case pids of
        p # ps \<Rightarrow> (Some (Ending (if pid_alive kill p then p # ps else ps) a), sv)
      | [] \<Rightarrow>
          (case ca_hooks a of
             h # hs \<Rightarrow> (Some (Ending [] (a\<lparr>ca_hooks := hs\<rparr>)), drop_hook sv h)
           | [] \<Rightarrow>
               (case ca_scoped a of
                  p # ps \<Rightarrow> (Some (Ending [] (a\<lparr>ca_scoped := ps\<rparr>)), drop_scoped e sv p)
                | [] \<Rightarrow> (None, sv))))"

definition server_new :: "active_session \<Rightarrow> shared \<Rightarrow> string list \<Rightarrow> server" where
  "server_new ambient sh paths =
     \<lparr>sv_router = router_new ambient sh, sv_probes = start_global, sv_shutdown = False,
      sv_paths = paths\<rparr>"

end
