(* ===== verification/DaemonServerFacts.thy ===== *)
theory DaemonServerFacts
  imports DaemonServer DaemonExample
begin

text \<open>
  The daemon under any interleaving of its connections.  \<open>daemon_step\<close> is one step: a connection
  accepted, a request served, a client gone, one turn of a connection that is over, an event or a
  flush from inside the daemon, the steps of its shutdown.  The facts: nothing attached outlives the
  connections it was attached over, and a recording outlives its client as long as its process.
\<close>

section \<open>Runs\<close>

type_synonym connections = "nat \<rightharpoonup> connection"

datatype daemon_event =
  Accepted nat | Served nat client_to_daemon | HungUp nat | Polled nat "u32 \<Rightarrow> kill_result"
| Emitted | Saved | Stopping | ProbesDown | AllFinalized

text \<open>
  The id of a session opened for a request is fresh.  After \<open>sv_shutdown\<close> is set, \<open>main\<close> stops the
  probes and finalizes all sessions, while connections may still be served.
\<close>

inductive daemon_step ::
  "codecs \<Rightarrow> bool \<Rightarrow> server \<Rightarrow> connections \<Rightarrow> daemon_event \<Rightarrow> server \<Rightarrow> connections \<Rightarrow> bool"
  for c :: codecs and env :: bool where
  accepted: "conns k = None \<Longrightarrow>
    daemon_step c env sv conns (Accepted k) sv (conns(k \<mapsto> Reading no_attachments))"
| served: "conns k = Some (Reading a) \<Longrightarrow> rq_codecs e = c \<Longrightarrow> rq_chunked_env e = env \<Longrightarrow>
    rt_sessions (sv_router sv) (sd_id (rq_seed e)) = None \<Longrightarrow>
    connection_turn e msg (sv, a) = (reply, going, sv', a') \<Longrightarrow>
    daemon_step c env sv conns (Served k msg) sv' (conns(k \<mapsto> (if going then Reading a' else Streaming a')))"
| client_gone: "conns k = Some (Reading a) \<or> conns k = Some (Streaming a) \<Longrightarrow>
    daemon_step c env sv conns (HungUp k) sv (conns(k \<mapsto> hung_up a))"
| polled: "conns k = Some (Ending pids a) \<Longrightarrow> rq_codecs e = c \<Longrightarrow>
    ending_turn e kill pids a sv = (conn, sv') \<Longrightarrow>
    daemon_step c env sv conns (Polled k kill) sv' (conns(k := conn))"
| emitted: "append_to c sid src pid raw p now arrived (sv_router sv) = (res, r) \<Longrightarrow>
    daemon_step c env sv conns Emitted (sv\<lparr>sv_router := r\<rparr>) conns"
| saved: "flush_all c (sv_router sv) = (ok, r) \<Longrightarrow>
    daemon_step c env sv conns Saved (sv\<lparr>sv_router := r\<rparr>) conns"
| stopping: "daemon_step c env sv conns Stopping (sv\<lparr>sv_shutdown := True\<rparr>) conns"
| probes_down: "sv_shutdown sv \<Longrightarrow>
    daemon_step c env sv conns ProbesDown (sv\<lparr>sv_probes := shutdown_probes (sv_probes sv)\<rparr>) conns"
| all_finalized: "sv_shutdown sv \<Longrightarrow> finalize_all c reason cls (sv_router sv) = (ok, r) \<Longrightarrow>
    daemon_step c env sv conns AllFinalized (sv\<lparr>sv_router := r\<rparr>) conns"

inductive daemon_steps ::
  "codecs \<Rightarrow> bool \<Rightarrow> server \<Rightarrow> connections \<Rightarrow> daemon_event list \<Rightarrow> server \<Rightarrow> connections \<Rightarrow> bool"
  for c :: codecs and env :: bool and sv :: server and conns :: connections where
  none: "daemon_steps c env sv conns [] sv conns"
| next_event: "daemon_steps c env sv conns evs sv1 conns1 \<Longrightarrow>
    daemon_step c env sv1 conns1 ev sv2 conns2 \<Longrightarrow>
    daemon_steps c env sv conns (evs @ [ev]) sv2 conns2"

definition daemon_runs :: "codecs \<Rightarrow> bool \<Rightarrow> server \<Rightarrow> connections \<Rightarrow> bool" where
  "daemon_runs c env sv conns \<longleftrightarrow>
     (\<exists>ambient sh paths evs. as_inner ambient \<noteq> None \<and>
        daemon_steps c env (server_new ambient sh paths) Map.empty evs sv conns)"

inductive_cases daemon_stepE: "daemon_step c env sv conns ev sv' conns'"

lemma runs_step: "daemon_runs c env sv conns \<Longrightarrow> daemon_step c env sv conns ev sv' conns' \<Longrightarrow> daemon_runs c env sv' conns'"
  unfolding daemon_runs_def using daemon_steps.next_event by blast

lemma runs_steps: "daemon_steps c env sv conns evs sv' conns' \<Longrightarrow> daemon_runs c env sv conns \<Longrightarrow> daemon_runs c env sv' conns'"
  by (induction rule: daemon_steps.induct) (auto intro: runs_step)

section \<open>Which processes are recorded\<close>

definition recorded :: "server \<Rightarrow> u32 set" where
  "recorded sv = dom (map_of (rt_by_pid (sv_router sv)))"

lemma detach_recorded:
  "dom (map_of (rt_by_pid (snd (detach_scoped c pid code sig cl r)))) = dom (map_of (rt_by_pid r)) - {pid}"
proof (cases "map_of (rt_by_pid r) pid")
  case None
  then show ?thesis by (auto simp: detach_scoped_def)
next
  case (Some rm)
  obtain res r' where d: "detach_scoped c pid code sig cl r = (res, r')" by fastforce
  from detach_tables(1) [OF Some d] show ?thesis
    by (auto simp: tables_def d delete_conv' split: if_splits)
qed

lemma attach_recorded:
  assumes "attach_scoped c env opts sd cl r = (res, r')"
  shows "dom (map_of (rt_by_pid r')) =
    (if res = None then dom (map_of (rt_by_pid r)) else insert (so_pid opts) (dom (map_of (rt_by_pid r))))"
proof (cases res)
  case None
  with assms show ?thesis by (auto simp: attach_scoped_def Let_def split: option.splits)
next
  case (Some i)
  from attach_tables(3) [OF assms [unfolded Some]] Some show ?thesis by (simp add: update_conv')
qed

lemma append_recorded:
  "append_to c sid src pid raw p now arrived r = (res, r') \<Longrightarrow> rt_by_pid r' = rt_by_pid r"
  using append_to_live(2) by (simp add: tables_def)

section \<open>Probe tasks\<close>

text \<open>
  Every task that runs is held once: by the global handle, or by one process in one of the maps.
\<close>

definition holds :: "nat set \<Rightarrow> (u32 \<rightharpoonup> nat) \<Rightarrow> nat set \<Rightarrow> bool" where
  "holds run m rest \<longleftrightarrow> run = rest \<union> ran m \<and> rest \<inter> ran m = {} \<and> inj_on m (dom m)"

definition tasks_ok :: "probe_runtime \<Rightarrow> bool" where
  "tasks_ok p \<longleftrightarrow>
     holds (pr_running p) (pr_scoped p) (set_option (pr_handle p) \<union> ran (pr_metal_hooks p)) \<and>
     holds (pr_running p) (pr_metal_hooks p) (set_option (pr_handle p) \<union> ran (pr_scoped p)) \<and>
     (\<forall>h \<in> pr_running p. h < pr_next p)"

lemma ran_upd_drop: "inj_on m (dom m) \<Longrightarrow> ran (m(k := None)) = ran m - set_option (m k)"
  by (auto simp: ran_def inj_on_def dom_def split: if_splits)

lemma holds_drop: "holds run m rest \<Longrightarrow> holds (run - set_option (m k)) (m(k := None)) rest"
proof -
  assume h: "holds run m rest"
  then have "inj_on (m(k := None)) (dom (m(k := None)))" by (auto simp: holds_def inj_on_def)
  moreover have "set_option (m k) \<subseteq> ran m" by (cases "m k") (auto intro: ranI)
  ultimately show ?thesis using h ran_upd_drop [of m k] by (auto simp: holds_def)
qed

lemma holds_put:
  assumes "holds run m rest" and "x \<notin> run"
  shows "holds (insert x run - set_option (m k)) (m(k \<mapsto> x)) rest"
proof -
  have d: "holds (run - set_option (m k)) (m(k := None)) rest" using assms(1) by (rule holds_drop)
  have x: "x \<notin> ran (m(k := None))" "x \<notin> rest" using d assms by (auto simp: holds_def)
  have r: "ran (m(k \<mapsto> x)) = insert x (ran (m(k := None)))"
    using ran_map_upd [of "m(k := None)" k x] by simp
  have "inj_on (m(k \<mapsto> x)) (dom (m(k \<mapsto> x)))"
    using d x(1) by (auto simp: holds_def inj_on_def ran_def split: if_splits)
  moreover have "x \<notin> set_option (m k)" using assms by (auto simp: holds_def ran_def)
  ultimately show ?thesis using d x(2) unfolding holds_def r by blast
qed

text \<open>The other map, when one of them has changed.\<close>

lemma holds_other:
  "holds run' m' (g \<union> ran n) \<Longrightarrow> holds run n (g \<union> ran m) \<Longrightarrow> holds run' n (g \<union> ran m')"
  by (auto simp: holds_def)

lemma tasks_start: "tasks_ok start_global"
  by (simp add: tasks_ok_def start_global_def holds_def)

lemma fresh_task: "tasks_ok p \<Longrightarrow> pr_next p \<notin> pr_running p"
  by (auto simp: tasks_ok_def)

lemma tasks_attach:
  assumes p: "tasks_ok p"
  shows "tasks_ok (attach_probes pid p)" and "tasks_ok (attach_metal_hook pid p)"
proof -
  note fresh = fresh_task [OF p]
  let ?g = "set_option (pr_handle p)"
  from p have s: "holds (pr_running p) (pr_scoped p) (?g \<union> ran (pr_metal_hooks p))"
    and h: "holds (pr_running p) (pr_metal_hooks p) (?g \<union> ran (pr_scoped p))"
    and lt: "\<forall>h \<in> insert (pr_next p) (pr_running p) - A. h < Suc (pr_next p)" for A
    by (auto simp: tasks_ok_def less_Suc_eq)
  from holds_put [OF s fresh, of pid] holds_other [OF holds_put [OF s fresh, of pid] h] lt
  show "tasks_ok (attach_probes pid p)"
    by (simp add: tasks_ok_def attach_probes_def spawn_def stop_def Let_def)
  from holds_put [OF h fresh, of pid] holds_other [OF holds_put [OF h fresh, of pid] s] lt
  show "tasks_ok (attach_metal_hook pid p)"
    by (simp add: tasks_ok_def attach_metal_hook_def spawn_def stop_def Let_def)
qed

lemma tasks_detach:
  assumes p: "tasks_ok p"
  shows "tasks_ok (detach_probes pid p)" and "tasks_ok (detach_metal_hook pid p)"
proof -
  let ?g = "set_option (pr_handle p)"
  from p have s: "holds (pr_running p) (pr_scoped p) (?g \<union> ran (pr_metal_hooks p))"
    and h: "holds (pr_running p) (pr_metal_hooks p) (?g \<union> ran (pr_scoped p))"
    and lt: "\<forall>h \<in> pr_running p. h < pr_next p" by (auto simp: tasks_ok_def)
  from holds_drop [OF s, of pid] holds_other [OF holds_drop [OF s, of pid] h] lt
  show "tasks_ok (detach_probes pid p)"
    by (simp add: tasks_ok_def detach_probes_def stop_def)
  from holds_drop [OF h, of pid] holds_other [OF holds_drop [OF h, of pid] s] lt
  show "tasks_ok (detach_metal_hook pid p)"
    by (simp add: tasks_ok_def detach_metal_hook_def stop_def)
qed

lemma tasks_shutdown: "tasks_ok p \<Longrightarrow> tasks_ok (shutdown_probes p)"
proof -
  assume "tasks_ok p"
  then have "pr_running p = set_option (pr_handle p) \<union> ran (pr_scoped p) \<union> ran (pr_metal_hooks p)"
    by (auto simp: tasks_ok_def holds_def)
  then have "pr_running (shutdown_probes p) = {}" by (auto simp: shutdown_probes_def)
  then show ?thesis by (simp add: tasks_ok_def holds_def) (simp add: shutdown_probes_def)
qed

lemma probe_doms [simp]:
  "dom (pr_scoped (attach_probes pid p)) = insert pid (dom (pr_scoped p))"
  "dom (pr_scoped (attach_metal_hook pid p)) = dom (pr_scoped p)"
  "dom (pr_scoped (detach_probes pid p)) = dom (pr_scoped p) - {pid}"
  "dom (pr_scoped (detach_metal_hook pid p)) = dom (pr_scoped p)"
  "dom (pr_metal_hooks (attach_probes pid p)) = dom (pr_metal_hooks p)"
  "dom (pr_metal_hooks (attach_metal_hook pid p)) = insert pid (dom (pr_metal_hooks p))"
  "dom (pr_metal_hooks (detach_probes pid p)) = dom (pr_metal_hooks p)"
  "dom (pr_metal_hooks (detach_metal_hook pid p)) = dom (pr_metal_hooks p) - {pid}"
  by (simp_all add: attach_probes_def attach_metal_hook_def detach_probes_def detach_metal_hook_def
      spawn_def stop_def Let_def)

section \<open>Everything attached has a connection\<close>

fun left_attached :: "connection \<Rightarrow> conn_attachments" where
  "left_attached (Reading a) = a"
| "left_attached (Streaming a) = a"
| "left_attached (Ending pids a) = a"

definition scoped_over :: "connections \<Rightarrow> u32 set" where
  "scoped_over conns = (\<Union>x \<in> ran conns. set (ca_scoped (left_attached x)))"

definition hooked_over :: "connections \<Rightarrow> u32 set" where
  "hooked_over conns = (\<Union>x \<in> ran conns. fst ` set (ca_hooks (left_attached x)))"

definition attended :: "server \<Rightarrow> u32 set \<Rightarrow> u32 set \<Rightarrow> bool" where
  "attended sv S H \<longleftrightarrow>
     recorded sv \<subseteq> S \<and> dom (pr_scoped (sv_probes sv)) \<subseteq> S \<and>
     dom (pr_metal_hooks (sv_probes sv)) \<subseteq> H \<and> tasks_ok (sv_probes sv)"

lemma attended_mono: "attended sv S H \<Longrightarrow> S \<subseteq> S' \<Longrightarrow> H \<subseteq> H' \<Longrightarrow> attended sv S' H'"
  by (auto simp: attended_def)

text \<open>What a request adds to the processes attached and what it takes off.\<close>

fun scoped_after :: "client_to_daemon \<Rightarrow> u32 set \<Rightarrow> u32 set" where
  "scoped_after (AttachScopedProbes pid _ _ _ _ _) S = insert pid S"
| "scoped_after (DetachScopedProbes pid _ _) S = S - {pid}"
| "scoped_after _ S = S"

fun hooked_after :: "client_to_daemon \<Rightarrow> u32 set \<Rightarrow> u32 set" where
  "hooked_after (AttachMetalHook pid _) H = insert pid H"
| "hooked_after (DetachMetalHook pid) H = H - {pid}"
| "hooked_after _ H = H"

lemma attendedI:
  "recorded sv \<subseteq> S \<Longrightarrow> dom (pr_scoped (sv_probes sv)) \<subseteq> S \<Longrightarrow>
     dom (pr_metal_hooks (sv_probes sv)) \<subseteq> H \<Longrightarrow> tasks_ok (sv_probes sv) \<Longrightarrow> attended sv S H"
  by (simp add: attended_def)

lemma attended_request:
  assumes a: "attended sv S H" and m: "handle_msg e msg sv = Some (reply, sv')"
  shows "attended sv' (scoped_after msg S) (hooked_after msg H)"
proof -
  from a have r: "recorded sv \<subseteq> S" and s: "dom (pr_scoped (sv_probes sv)) \<subseteq> S"
    and h: "dom (pr_metal_hooks (sv_probes sv)) \<subseteq> H" and t: "tasks_ok (sv_probes sv)"
    by (simp_all add: attended_def)
  show ?thesis
  proof (cases msg)
    case (Emit src pid token raw p)
    obtain res r' where ap: "append_stamped (rq_codecs e) src pid token raw p (rq_now e) (rq_arrived e)
        (sv_router sv) = (res, r')" by fastforce
    from append_recorded [OF ap [unfolded append_stamped_def]] have "rt_by_pid r' = rt_by_pid (sv_router sv)" .
    moreover from m ap have "sv' = sv\<lparr>sv_router := r'\<rparr>" by (simp add: handle_msg_def Emit)
    ultimately have "recorded sv' = recorded sv" "sv_probes sv' = sv_probes sv" by (simp_all add: recorded_def)
    with Emit a show ?thesis by (simp add: attended_def)
  next
    case (AttachScopedProbes pid argv token nm chunked gputrace)
    let ?opts = "\<lparr>so_pid = pid, so_scope_token = token, so_chunked = chunked\<rparr>"
    obtain res r' where r': "attach_scoped (rq_codecs e) (rq_chunked_env e) ?opts (rq_seed e)
        (rq_closing e) (sv_router sv) = (res, r')" by fastforce
    note ar = attach_recorded [OF r']
    show ?thesis
    proof (cases res)
      case None
      with m r' have "sv' = sv\<lparr>sv_router := r'\<rparr>" by (simp add: handle_msg_def AttachScopedProbes)
      with None ar have "recorded sv' = recorded sv" "sv_probes sv' = sv_probes sv"
        by (simp_all add: recorded_def)
      with a show ?thesis by (auto simp: AttachScopedProbes attended_def)
    next
      case (Some i)
      with m r' have "sv' = sv\<lparr>sv_router := r', sv_probes := attach_probes pid (sv_probes sv)\<rparr>"
        by (simp add: handle_msg_def AttachScopedProbes)
      with Some ar have "recorded sv' = insert pid (recorded sv)"
        "sv_probes sv' = attach_probes pid (sv_probes sv)" by (simp_all add: recorded_def)
      with r s h tasks_attach(1) [OF t] show ?thesis
        unfolding AttachScopedProbes by (intro attendedI) (auto simp only: probe_doms scoped_after.simps hooked_after.simps)
    qed
  next
    case (DetachScopedProbes pid code sig)
    with m have "sv' = sv\<lparr>sv_probes := detach_probes pid (sv_probes sv), sv_router :=
        snd (detach_scoped (rq_codecs e) pid code sig (rq_closing e) (sv_router sv))\<rparr>"
      by (simp add: handle_msg_def)
    then have "recorded sv' = recorded sv - {pid}" "sv_probes sv' = detach_probes pid (sv_probes sv)"
      by (simp_all add: recorded_def detach_recorded)
    with r s h tasks_detach(1) [OF t] show ?thesis
      unfolding DetachScopedProbes by (intro attendedI) (auto simp only: probe_doms scoped_after.simps hooked_after.simps)
  next
    case (AttachMetalHook pid ring)
    with m have "recorded sv' = recorded sv" "sv_probes sv' = attach_metal_hook pid (sv_probes sv)"
      by (auto simp: handle_msg_def recorded_def)
    with r s h tasks_attach(2) [OF t] show ?thesis
      unfolding AttachMetalHook by (intro attendedI) (auto simp only: probe_doms scoped_after.simps hooked_after.simps)
  next
    case (DetachMetalHook pid)
    with m have "recorded sv' = recorded sv" "sv_probes sv' = detach_metal_hook pid (sv_probes sv)"
      by (auto simp: handle_msg_def recorded_def)
    with r s h tasks_detach(2) [OF t] show ?thesis
      unfolding DetachMetalHook by (intro attendedI) (auto simp only: probe_doms scoped_after.simps hooked_after.simps)
  qed (use a m in \<open>auto simp: handle_msg_def attended_def recorded_def Let_def\<close>)
qed

lemma noted:
  "set (ca_scoped (note_msg msg a)) = scoped_after msg (set (ca_scoped a))"
  "fst ` set (ca_hooks (note_msg msg a)) = hooked_after msg (fst ` set (ca_hooks a))"
  by (cases msg; auto simp: note_msg_def)+

lemma attended_drop:
  "attended sv S H \<Longrightarrow> attended (drop_hook sv h) S (H - {fst h})"
  "attended sv S H \<Longrightarrow> attended (drop_scoped e sv pid) (S - {pid}) H"
  using tasks_detach
  by (auto simp: attended_def recorded_def drop_hook_def drop_scoped_def detach_recorded)

lemma over_upd:
  "scoped_over (conns(k \<mapsto> x)) = set (ca_scoped (left_attached x)) \<union> scoped_over (conns(k := None))"
  "hooked_over (conns(k \<mapsto> x)) = fst ` set (ca_hooks (left_attached x)) \<union> hooked_over (conns(k := None))"
  using ran_map_upd [of "conns(k := None)" k x] by (simp_all add: scoped_over_def hooked_over_def)

lemma over_split:
  assumes "conns k = Some x"
  shows "scoped_over conns = set (ca_scoped (left_attached x)) \<union> scoped_over (conns(k := None))"
    and "hooked_over conns = fst ` set (ca_hooks (left_attached x)) \<union> hooked_over (conns(k := None))"
proof -
  have "conns = conns(k \<mapsto> x)" using assms by auto
  with over_upd [of conns k x]
  show "scoped_over conns = set (ca_scoped (left_attached x)) \<union> scoped_over (conns(k := None))"
    "hooked_over conns = fst ` set (ca_hooks (left_attached x)) \<union> hooked_over (conns(k := None))" by simp_all
qed

lemma after_split:
  "scoped_after msg (S \<union> T) \<subseteq> scoped_after msg S \<union> T" "hooked_after msg (S \<union> T) \<subseteq> hooked_after msg S \<union> T"
  by (cases msg; auto)+

text \<open>A step of a connection that is over takes off what it detaches and nothing else.\<close>

lemma attended_turn:
  assumes a: "attended sv (set (ca_scoped a) \<union> S) (fst ` set (ca_hooks a) \<union> H)"
    and t: "ending_turn e kill pids a sv = (conn, sv')"
  shows "attended sv' (case conn of None \<Rightarrow> S | Some x \<Rightarrow> set (ca_scoped (left_attached x)) \<union> S)
    (case conn of None \<Rightarrow> H | Some x \<Rightarrow> fst ` set (ca_hooks (left_attached x)) \<union> H)"
proof (cases pids)
  case (Cons p ps)
  with a t show ?thesis by (auto simp: ending_turn_def)
next
  case Nil
  show ?thesis
  proof (cases "ca_hooks a")
    case (Cons h hs)
    from t Nil Cons have "conn = Some (Ending [] (a\<lparr>ca_hooks := hs\<rparr>))" "sv' = drop_hook sv h"
      by (simp_all add: ending_turn_def)
    moreover have "fst ` set (ca_hooks a) \<union> H - {fst h} \<subseteq> fst ` set hs \<union> H" using Cons by auto
    ultimately show ?thesis using attended_mono [OF attended_drop(1) [OF a, of h]] by simp
  next
    case none: Nil
    show ?thesis
    proof (cases "ca_scoped a")
      case (Cons p ps)
      from t Nil none Cons have "conn = Some (Ending [] (a\<lparr>ca_scoped := ps\<rparr>))" "sv' = drop_scoped e sv p"
        by (simp_all add: ending_turn_def)
      moreover have "set (ca_scoped a) \<union> S - {p} \<subseteq> set ps \<union> S" using Cons by auto
      ultimately show ?thesis using attended_mono [OF attended_drop(2) [OF a, of e p]] by simp
    next
      case empty: Nil
      with a t Nil none show ?thesis by (simp add: ending_turn_def)
    qed
  qed
qed

lemma step_attended:
  assumes s: "daemon_step c env sv conns ev sv' conns'"
    and a: "attended sv (scoped_over conns) (hooked_over conns)"
  shows "attended sv' (scoped_over conns') (hooked_over conns')"
  using s
proof cases
  case (accepted k)
  then have "conns(k := None) = conns" by auto
  then have "scoped_over conns' = scoped_over conns" "hooked_over conns' = hooked_over conns"
    unfolding accepted(3) over_upd by (simp_all add: no_attachments_def)
  with a accepted(2) show ?thesis by (simp only:)
next
  case (served k a0 e msg reply going a')
  have la: "left_attached (if going then Reading a' else Streaming a') = a'" by simp
  show ?thesis
  proof (cases "handle_msg e msg sv")
    case None
    with served have "sv' = sv" "a' = a0" by (simp_all add: connection_turn_def)
    with a over_split [of conns k "Reading a0"] served(3) show ?thesis
      unfolding served(2) over_upd la by simp
  next
    case (Some r)
    with served(7) have r: "r = (reply, sv')" "a' = note_msg msg a0"
      by (auto simp: connection_turn_def split: prod.splits)
    have "attended sv' (scoped_after msg (scoped_over conns)) (hooked_after msg (hooked_over conns))"
      using attended_request [OF a] Some r by simp
    then have "attended sv' (scoped_after msg (set (ca_scoped a0)) \<union> scoped_over (conns(k := None)))
        (hooked_after msg (fst ` set (ca_hooks a0)) \<union> hooked_over (conns(k := None)))"
      unfolding over_split [where conns = conns and k = k, OF served(3), unfolded left_attached.simps] by (rule attended_mono) (rule after_split)+
    then show ?thesis unfolding served(2) over_upd la unfolding r(2) noted .
  qed
next
  case (client_gone k a0)
  then have "scoped_over conns' = scoped_over conns" "hooked_over conns' = hooked_over conns"
    unfolding client_gone(3) over_upd using over_split [of conns k "Reading a0"] over_split [of conns k "Streaming a0"]
    by (auto simp: hung_up_def)
  with a client_gone(2) show ?thesis by simp
next
  case (polled k pids a0 e kill conn)
  note split = over_split [where conns = conns and k = k and x = "Ending pids a0", OF polled(3), unfolded left_attached.simps]
  from attended_turn [OF a [unfolded split] polled(5)] show ?thesis
    unfolding polled(2) using over_upd [of conns k] by (cases conn) simp_all
next
  case (emitted sid src pid raw p now arrived res r)
  with append_recorded [OF emitted(4)] a show ?thesis by (simp add: attended_def recorded_def)
next
  case (saved ok r)
  with flush_all_live [OF saved(4)] a show ?thesis by (simp add: attended_def recorded_def tables_def)
next
  case stopping
  with a show ?thesis by (simp add: attended_def recorded_def)
next
  case probes_down
  have "tasks_ok (shutdown_probes (sv_probes sv))" using a by (auto simp: attended_def intro: tasks_shutdown)
  with a probes_down show ?thesis by (simp add: attended_def recorded_def) (simp add: shutdown_probes_def)
next
  case (all_finalized reason cls ok r)
  from finalize_all_effect(2) [OF all_finalized(5)] have "rt_by_pid r = []" by (simp add: tables_def)
  with a all_finalized show ?thesis by (simp add: attended_def recorded_def)
qed

lemma start_attended: "attended (server_new ambient sh paths) (scoped_over Map.empty) (hooked_over Map.empty)"
  using tasks_start
  by (simp add: attended_def recorded_def server_new_def router_new_def) (simp add: start_global_def)

lemma steps_attended:
  "daemon_steps c env sv conns evs sv' conns' \<Longrightarrow> attended sv (scoped_over conns) (hooked_over conns) \<Longrightarrow>
     attended sv' (scoped_over conns') (hooked_over conns')"
  by (induction rule: daemon_steps.induct) (auto intro: step_attended)

text \<open>
  C19. Nothing outlives its client and its process.  However the requests of any number of
  connections interleave, with events, flushes and the shutdown of the daemon in between, every
  process that is recorded or has scoped probes was attached over a connection that is still there:
  its client is connected, or is gone and the connection, waiting for its processes to exit or
  detaching them one by one, has yet to detach this one.  Every Metal hook likewise; and the probe
  tasks that run are exactly the global one and those held for these processes, so that none is
  orphaned by a replacement.
\<close>

theorem nothing_outlives_its_client:
  assumes "daemon_runs c env sv conns"
  shows "recorded sv \<union> dom (pr_scoped (sv_probes sv)) \<subseteq> scoped_over conns \<and>
    dom (pr_metal_hooks (sv_probes sv)) \<subseteq> hooked_over conns \<and>
    pr_running (sv_probes sv) = set_option (pr_handle (sv_probes sv)) \<union>
      ran (pr_scoped (sv_probes sv)) \<union> ran (pr_metal_hooks (sv_probes sv))"
proof -
  from assms obtain ambient sh paths evs where
    "daemon_steps c env (server_new ambient sh paths) Map.empty evs sv conns" by (auto simp: daemon_runs_def)
  from steps_attended [OF this start_attended] show ?thesis by (auto simp: attended_def tasks_ok_def holds_def)
qed

section \<open>A recording outlives its client\<close>

text \<open>What can end or replace the recording of a process, if no connection has seen it gone yet.\<close>

fun touches :: "u32 \<Rightarrow> daemon_event \<Rightarrow> bool" where
  "touches pid (Served k (AttachScopedProbes p argv token nm chunked trace)) = (p = pid)"
| "touches pid (Served k (DetachScopedProbes p code sig)) = (p = pid)"
| "touches pid (Polled k kill) = (\<not> pid_alive kill pid)"
| "touches pid AllFinalized = True"
| "touches pid _ = False"

definition not_seen_gone :: "u32 \<Rightarrow> connections \<Rightarrow> bool" where
  "not_seen_gone pid conns \<longleftrightarrow>
     (\<forall>k pids a. conns k = Some (Ending pids a) \<longrightarrow> pid \<in> set (ca_scoped a) \<longrightarrow> pid \<in> set pids)"

lemma not_seen_gone_upd:
  "not_seen_gone pid conns \<Longrightarrow>
     (\<And>pids a. x = Some (Ending pids a) \<Longrightarrow> pid \<in> set (ca_scoped a) \<Longrightarrow> pid \<in> set pids) \<Longrightarrow>
     not_seen_gone pid (conns(k := x))"
  by (simp add: not_seen_gone_def)

lemma step_not_seen_gone:
  assumes s: "daemon_step c env sv conns ev sv' conns'" and n: "not_seen_gone pid conns" and t: "\<not> touches pid ev"
  shows "not_seen_gone pid conns'"
  using s
proof cases
  case (polled k pids a e kill conn)
  have p: "pid \<in> set (ca_scoped a) \<Longrightarrow> pid \<in> set pids" using n polled(3) by (simp add: not_seen_gone_def)
  have alive: "pid_alive kill pid" using t polled(1) by simp
  show ?thesis
    unfolding polled(2)
    using n by (rule not_seen_gone_upd)
      (use p alive polled(5) in \<open>auto simp: ending_turn_def split: list.splits if_splits\<close>)
qed (use n in \<open>auto intro!: not_seen_gone_upd simp: hung_up_def split: if_splits\<close>)

text \<open>What a step of the daemon does to the router.\<close>

lemma request_router_step:
  assumes m: "handle_msg e msg sv = Some (reply, sv')"
    and fresh: "rt_sessions (sv_router sv) (sd_id (rq_seed e)) = None"
    and t: "\<not> touches pid (Served k msg)"
  shows "\<exists>ks ros'. router_steps (rq_codecs e) (rq_chunked_env e) False (sv_router sv) ros ks (sv_router sv') ros' \<and>
    \<not> (\<exists>k \<in> set ks. ends_recording pid k)"
proof -
  have one: "\<exists>ks ros'. router_steps (rq_codecs e) (rq_chunked_env e) False (sv_router sv) ros ks r' ros' \<and>
      \<not> (\<exists>k \<in> set ks. ends_recording pid k)"
    if "router_step (rq_codecs e) (rq_chunked_env e) False (sv_router sv) ros k1 r' ros1" "\<not> ends_recording pid k1"
    for k1 r' ros1
    using router_steps.next_call [OF router_steps.none that(1)] that(2)
    by (intro exI [of _ "[] @ [k1]"] exI [of _ ros1]) simp
  have unchanged: ?thesis if "sv_router sv' = sv_router sv"
    unfolding that using router_steps.none by (metis empty_iff empty_set)
  show ?thesis
  proof (cases msg)
    case (Emit src p token raw pl)
    obtain res r where a: "append_stamped (rq_codecs e) src p token raw pl (rq_now e) (rq_arrived e) (sv_router sv) = (res, r)"
      by fastforce
    with m Emit have r: "sv_router sv' = r" by (auto simp: handle_msg_def)
    show ?thesis unfolding r
      by (rule one [OF router_step.wrote [OF a [unfolded append_stamped_def]]]) simp
  next
    case (AttachScopedProbes p argv token nm chunked trace)
    let ?opts = "\<lparr>so_pid = p, so_scope_token = token, so_chunked = chunked\<rparr>"
    obtain res r where a: "attach_scoped (rq_codecs e) (rq_chunked_env e) ?opts (rq_seed e)
        (rq_closing e) (sv_router sv) = (res, r)" by fastforce
    show ?thesis
    proof (cases res)
      case None
      with a m AttachScopedProbes have r: "sv_router sv' = r" by (auto simp: handle_msg_def)
      show ?thesis unfolding r by (rule one [OF router_step.refused [OF a [unfolded None]]]) simp
    next
      case (Some i)
      with a m AttachScopedProbes have r: "sv_router sv' = r" by (auto simp: handle_msg_def)
      show ?thesis unfolding r
        by (rule one [OF router_step.attached [OF fresh _ a [unfolded Some]]]) (use t AttachScopedProbes in simp_all)
    qed
  next
    case (DetachScopedProbes p code sig)
    obtain res r where d: "detach_scoped (rq_codecs e) p code sig (rq_closing e) (sv_router sv) = (res, r)" by fastforce
    with m DetachScopedProbes have r: "sv_router sv' = r" by (auto simp: handle_msg_def)
    show ?thesis unfolding r
      by (rule one [OF router_step.detached [OF d]]) (use t DetachScopedProbes in simp)
  qed (rule unchanged; use m in \<open>auto simp: handle_msg_def Let_def\<close>)+
qed

lemma daemon_router_step:
  assumes s: "daemon_step c env sv conns ev sv' conns'" and n: "not_seen_gone pid conns" and t: "\<not> touches pid ev"
  shows "\<exists>ks ros'. router_steps c env False (sv_router sv) ros ks (sv_router sv') ros' \<and>
    \<not> (\<exists>k \<in> set ks. ends_recording pid k)"
proof -
  have one: "\<exists>ks ros'. router_steps c env False (sv_router sv) ros ks r' ros' \<and>
      \<not> (\<exists>k \<in> set ks. ends_recording pid k)"
    if "router_step c env False (sv_router sv) ros k1 r' ros1" "\<not> ends_recording pid k1" for k1 r' ros1
    using router_steps.next_call [OF router_steps.none that(1)] that(2)
    by (intro exI [of _ "[] @ [k1]"] exI [of _ ros1]) simp
  have unchanged: ?thesis if "sv_router sv' = sv_router sv"
    unfolding that using router_steps.none by (metis empty_iff empty_set)
  from s show ?thesis
  proof cases
    case (served k a e msg reply going a')
    show ?thesis
    proof (cases "handle_msg e msg sv")
      case None
      with served(7) have "sv' = sv" by (simp add: connection_turn_def)
      then show ?thesis by (intro unchanged) simp
    next
      case (Some r)
      with served(7) have "handle_msg e msg sv = Some (reply, sv')"
        by (auto simp: connection_turn_def split: prod.splits)
      from request_router_step [OF this served(6), of pid k ros] t served(1,4,5) show ?thesis by simp
    qed
  next
    case (polled k pids a e kill conn)
    show ?thesis
    proof (cases "sv_router sv' = sv_router sv")
      case True
      then show ?thesis by (rule unchanged)
    next
      case False
      with polled(5) obtain p ps where p: "pids = []" "ca_scoped a = p # ps" "sv' = drop_scoped e sv p"
        by (auto simp: ending_turn_def drop_hook_def split: list.splits)
      then have "p \<noteq> pid" using n polled(3) unfolding not_seen_gone_def
        by (metis empty_iff empty_set list.set_intros(1))
      obtain res r where d: "detach_scoped c p None None (rq_closing e) (sv_router sv) = (res, r)" by fastforce
      with p(3) polled(4) have r: "sv_router sv' = r" by (simp add: drop_scoped_def)
      show ?thesis unfolding r by (rule one [OF router_step.detached [OF d]]) (use \<open>p \<noteq> pid\<close> in simp)
    qed
  next
    case (emitted sid src p raw pl now arrived res r)
    then show ?thesis using one [OF router_step.wrote [OF emitted(4)]] by simp
  next
    case (saved ok r)
    then show ?thesis using one [OF router_step.flushed [OF saved(4)]] by simp
  next
    case (all_finalized reason cls ok r)
    with t show ?thesis by simp
  qed (rule unchanged; simp)+
qed

lemma start_in_step: "as_inner ambient \<noteq> None \<Longrightarrow> in_step False (sv_router (server_new ambient sh paths)) []"
  by (simp add: server_new_def in_step_start)

text \<open>Every router the daemon runs through follows some roster.\<close>

lemma step_in_step:
  assumes s: "daemon_step c env sv conns ev sv' conns'" and i: "in_step False (sv_router sv) ros"
  shows "\<exists>ros'. in_step False (sv_router sv') ros'"
  using s
proof cases
  case (served k a e msg reply going a')
  show ?thesis
  proof (cases "handle_msg e msg sv")
    case None
    with served(7) i show ?thesis by (auto simp: connection_turn_def)
  next
    case (Some r)
    with served(7) have h: "handle_msg e msg sv = Some (reply, sv')"
      by (auto simp: connection_turn_def split: prod.splits)
    obtain pid where "\<not> touches pid (Served k msg)"
    proof (cases "touches 0 (Served k msg)")
      case True
      then have "\<not> touches 1 (Served k msg)" by (cases msg) auto
      then show ?thesis by (rule that)
    qed (rule that)
    from request_router_step [OF h served(6) this] in_step_steps [OF _ i] show ?thesis by blast
  qed
next
  case (polled k pids a e kill conn)
  show ?thesis
  proof (cases "sv_router sv' = sv_router sv")
    case False
    with polled(5) obtain p where p: "sv' = drop_scoped e sv p"
      by (auto simp: ending_turn_def drop_hook_def split: list.splits)
    obtain res r where d: "detach_scoped (rq_codecs e) p None None (rq_closing e) (sv_router sv) = (res, r)" by fastforce
    from in_step_detach [OF i d] p d show ?thesis by (auto simp: drop_scoped_def)
  qed (use i in auto)
next
  case (emitted sid src p raw pl now arrived res r)
  with in_step_same [OF i _ append_to_known [OF emitted(4)]] append_to_live [OF emitted(4)] show ?thesis by auto
next
  case (saved ok r)
  with in_step_same [OF i flush_all_live [OF saved(4)] flush_all_known [OF saved(4)]] show ?thesis by auto
next
  case (all_finalized reason cls ok r)
  from in_step_step [OF i router_step.finalized_all [OF all_finalized(5), of env False ros]] all_finalized(2)
  show ?thesis by auto
qed (use i in auto)

lemma runs_in_step: "daemon_runs c env sv conns \<Longrightarrow> \<exists>ros. in_step False (sv_router sv) ros"
proof -
  assume "daemon_runs c env sv conns"
  then obtain ambient sh paths evs where a: "as_inner ambient \<noteq> None"
    "daemon_steps c env (server_new ambient sh paths) Map.empty evs sv conns" unfolding daemon_runs_def by blast
  from a(2) show ?thesis
  proof (induction rule: daemon_steps.induct)
    case none
    then show ?case using start_in_step [OF a(1)] by blast
  next
    case (next_event evs sv1 conns1 ev sv2 conns2)
    then show ?case using step_in_step by blast
  qed
qed

text \<open>
  C20. A recording outlives its client as long as its process.  Let the daemon have a recording of
  a process that no finished connection has seen gone.  Whatever happens then, in any order
  (clients killed, the one that recorded it included, requests, events, flushes), the recording
  stays registered for the process and open, and an event of the process without a token
  goes to it, as long as every poll by a finished connection finds the process alive, no client
  detaches or re-attaches that very process and the daemon does not shut down.
\<close>

theorem recording_outlives_client:
  assumes "daemon_runs c env sv conns" and "not_seen_gone pid conns"
    and "map_of (rt_by_pid (sv_router sv)) pid = Some t"
    and "daemon_steps c env sv conns evs sv' conns'"
    and "list_all (\<lambda>ev. \<not> touches pid ev) evs"
  shows "map_of (rt_by_pid (sv_router sv')) pid = Some t \<and> live_token (sv_router sv') t \<noteq> None \<and>
    route_for src None (Some pid) (sv_router sv') = t"
proof -
  from runs_in_step [OF assms(1)] obtain ros where i: "in_step False (sv_router sv) ros" by blast
  then have "with_pid pid ros = Some t" using assms(3) by (simp add: in_step_def)
  then obtain tk where m: "(pid, tk, t) \<in> set ros" using with_pid_mem by blast
  have "list_all (\<lambda>ev. \<not> touches pid ev) evs \<Longrightarrow>
      not_seen_gone pid conns' \<and> (\<exists>ros'. in_step False (sv_router sv') ros' \<and> (pid, tk, t) \<in> set ros')"
    using assms(4)
  proof (induction rule: daemon_steps.induct)
    case none
    with assms(2) i m show ?case by blast
  next
    case (next_event evs sv1 conns1 ev sv2 conns2)
    then have n: "not_seen_gone pid conns1" and ev: "\<not> touches pid ev"
      and "\<exists>ros'. in_step False (sv_router sv1) ros' \<and> (pid, tk, t) \<in> set ros'" by simp_all
    then obtain ros1 where r1: "in_step False (sv_router sv1) ros1" "(pid, tk, t) \<in> set ros1" by blast
    from daemon_router_step [OF next_event.hyps(2) n ev, of ros1] obtain ks ros2 where
      k: "router_steps c env False (sv_router sv1) ros1 ks (sv_router sv2) ros2"
        "\<not> (\<exists>k \<in> set ks. ends_recording pid k)" by blast
    from steps_recording [OF k(1) r1] k(2) have "(pid, tk, t) \<in> set ros2" by (simp split: if_splits)
    with in_step_steps [OF k(1) r1(1)] step_not_seen_gone [OF next_event.hyps(2) n ev] show ?case by blast
  qed
  with assms(5) obtain ros' where r: "in_step False (sv_router sv') ros'" "(pid, tk, t) \<in> set ros'" by blast
  then have "with_pid pid ros' = Some t" by (intro with_pid_of_mem [of _ _ tk]) (auto simp: in_step_def)
  with r(1) have "map_of (rt_by_pid (sv_router sv')) pid = Some t" by (simp add: in_step_def)
  with live_recording [OF r] show ?thesis by (simp add: route_for_def)
qed

section \<open>A client\<close>

text \<open>What the system answers: a new session with id \<open>i\<close>.\<close>

definition demo_env :: "uuid \<Rightarrow> request_env" where
  "demo_env i =
     \<lparr>rq_codecs = demo, rq_chunked_env = False, rq_seed = seed i,
      rq_closing = at_end, rq_now = 3, rq_arrived = 3, rq_version = ''0'',
      rq_append_error = (\<lambda>_. ''append''), rq_open_error = ''disk full'', rq_sessions = Inr [],
      rq_events = (\<lambda>_. Inr []), rq_metadata = (\<lambda>_. Inl ''none'')\<rparr>"

abbreviation "record_7 \<equiv> AttachScopedProbes 7 [] (Some ''run'') None False None"
abbreviation "over_7 \<equiv> \<lparr>ca_scoped = [7], ca_hooks = []\<rparr>"

lemma runs_start: "as_inner ambient \<noteq> None \<Longrightarrow> daemon_runs c env (server_new ambient sh paths) Map.empty"
  unfolding daemon_runs_def using daemon_steps.none by blast

lemma demo_served:
  "\<exists>sv. daemon_runs demo False sv [1 \<mapsto> Reading over_7] \<and> recorded sv = {7} \<and>
     map_of (rt_by_pid (sv_router sv)) 7 = Some 1"
proof -
  obtain amb sh0 where o: "open_with demo None None None (seed 0) no_shared = Some (amb, sh0)"
    using demo_opens by blast
  let ?sv0 = "server_new amb sh0 []"
  have amb: "as_id amb = 0" using open_with_fields(3) [OF o] by (simp add: seed_def)
  have "daemon_runs demo False ?sv0 Map.empty" using open_with_fields(1) [OF o] by (rule runs_start)
  then have s1: "daemon_runs demo False ?sv0 [1 \<mapsto> Reading no_attachments]"
    by (rule runs_step) (rule daemon_step.accepted, simp)
  obtain s sh where a: "attach_scoped demo False (token_opts 7) (seed 1) at_end (router_new amb sh0) =
      (Some 1, register 7 (Some ''run'') s (router_new amb sh0\<lparr>rt_shared := sh\<rparr>))" and sid: "as_id s = 1"
    using demo_attaches [of "router_new amb sh0" 7 1] by (auto simp: router_new_def)
  let ?r1 = "register 7 (Some ''run'') s (router_new amb sh0\<lparr>rt_shared := sh\<rparr>)"
  let ?sv1 = "?sv0\<lparr>sv_router := ?r1, sv_probes := attach_probes 7 (sv_probes ?sv0)\<rparr>"
  have turn: "connection_turn (demo_env 1) record_7 (?sv0, no_attachments) = (Ack, True, ?sv1, over_7)"
    using a by (simp add: connection_turn_def handle_msg_def demo_env_def token_opts_def
        note_msg_def no_attachments_def server_new_def)
  have "daemon_step demo False ?sv0 [1 \<mapsto> Reading no_attachments] (Served 1 record_7) ?sv1
      ([1 \<mapsto> Reading no_attachments](1 \<mapsto> (if True then Reading over_7 else Streaming over_7)))"
    by (rule daemon_step.served [OF _ _ _ _ turn])
      (simp_all add: demo_env_def seed_def server_new_def router_new_def amb)
  from runs_step [OF s1 this] have "daemon_runs demo False ?sv1 [1 \<mapsto> Reading over_7]" by simp
  moreover have "recorded ?sv1 = {7}" "map_of (rt_by_pid (sv_router ?sv1)) 7 = Some 1"
    by (simp_all add: recorded_def register_def router_new_def sid)
  ultimately show ?thesis by (intro exI [of _ ?sv1]) simp
qed

lemma nothing_outlives_its_client_witness:
  "\<exists>sv. recorded sv = {7} \<and> recorded sv \<subseteq> scoped_over [1 \<mapsto> hung_up over_7] \<and>
     hung_up over_7 = Ending [7] over_7"
proof -
  obtain sv where sv: "daemon_runs demo False sv [1 \<mapsto> Reading over_7]" "recorded sv = {7}"
    using demo_served by blast
  have "daemon_runs demo False sv ([1 \<mapsto> Reading over_7](1 \<mapsto> hung_up over_7))"
    using sv(1) by (rule runs_step) (rule daemon_step.client_gone, simp)
  from nothing_outlives_its_client [OF this] sv(2) show ?thesis by (auto simp: hung_up_def)
qed

lemma recording_outlives_client_witness:
  "\<exists>sv. daemon_steps demo False sv [1 \<mapsto> Reading over_7] [HungUp 1, Polled 1 (\<lambda>_. KillOk)] sv
       [1 \<mapsto> Ending [7] over_7] \<and>
     map_of (rt_by_pid (sv_router sv)) 7 = Some 1 \<and> route_for PythonSidecar None (Some 7) (sv_router sv) = 1"
proof -
  obtain sv where sv: "daemon_runs demo False sv [1 \<mapsto> Reading over_7]"
    "map_of (rt_by_pid (sv_router sv)) 7 = Some 1"
    using demo_served by blast
  have "daemon_step demo False sv [1 \<mapsto> Reading over_7] (HungUp 1) sv ([1 \<mapsto> Reading over_7](1 \<mapsto> hung_up over_7))"
    by (rule daemon_step.client_gone) simp
  from daemon_steps.next_event [OF daemon_steps.none this]
  have one: "daemon_steps demo False sv [1 \<mapsto> Reading over_7] [HungUp 1] sv [1 \<mapsto> Ending [7] over_7]"
    by (simp add: hung_up_def)
  have "daemon_step demo False sv [1 \<mapsto> Ending [7] over_7] (Polled 1 (\<lambda>_. KillOk)) sv
      ([1 \<mapsto> Ending [7] over_7](1 := Some (Ending [7] over_7)))"
    by (rule daemon_step.polled [of _ _ "[7]" over_7 "demo_env 1"])
      (simp_all add: demo_env_def ending_turn_def pid_alive_def)
  from daemon_steps.next_event [OF one this] have steps: "daemon_steps demo False sv [1 \<mapsto> Reading over_7]
      [HungUp 1, Polled 1 (\<lambda>_. KillOk)] sv [1 \<mapsto> Ending [7] over_7]" by simp
  from recording_outlives_client [OF sv(1) _ sv(2) steps, of PythonSidecar] sv(2) steps show ?thesis
    by (auto simp: not_seen_gone_def pid_alive_def)
qed

text \<open>
  A connection detaches processes, not sessions, and a process counts as attached over it even when
  its attach was refused.  A client whose attach was refused and who disconnects leaves a connection
  that, once the process is gone, detaches whatever recording of it another client has.
\<close>

theorem refused_attach_detaches_other:
  assumes "attach_scoped (rq_codecs e) (rq_chunked_env e) \<lparr>so_pid = pid, so_scope_token = token, so_chunked = chunked\<rparr>
      (rq_seed e) (rq_closing e) (sv_router sv) = (None, r)"
  shows "\<exists>reply a'. connection_turn e (AttachScopedProbes pid argv token nm chunked trace) (sv, no_attachments) =
      (ErrorReply reply, True, sv\<lparr>sv_router := r\<rparr>, a') \<and>
    recorded (sv\<lparr>sv_router := r\<rparr>) = recorded sv \<and> hung_up a' = Ending [pid] a' \<and>
    (\<exists>sv2. ending_turn e kill [] a' sv1 = (Some (Ending [] no_attachments), sv2) \<and>
       recorded sv2 = recorded sv1 - {pid})"
  using assms attach_recorded [OF assms]
  by (simp add: connection_turn_def handle_msg_def note_msg_def no_attachments_def hung_up_def
      ending_turn_def drop_scoped_def recorded_def detach_recorded)

section \<open>Replies on the wire\<close>

text \<open>
  What the server relies on: the encoding of a message decodes to it (CBOR), and the error that
  replaces a reply too large for a frame fits a frame itself.
\<close>

definition wire_ok :: "(daemon_to_client \<Rightarrow> bytes option) \<Rightarrow> (bytes \<Rightarrow> daemon_to_client option) \<Rightarrow> bool" where
  "wire_ok enc dec \<longleftrightarrow>
     (\<forall>v buf. enc v = Some buf \<longrightarrow> dec buf = Some v) \<and>
     (\<forall>n < 2 ^ 64. \<exists>buf. enc (too_large_reply n) = Some buf \<and> length buf \<le> MAX_FRAME_BYTES)"

text \<open>
  Every reply the server writes is one the client can read, whatever follows it in the stream:
  the client decodes the reply itself when its encoding fits a frame, and the error naming its
  size when it does not.
\<close>

theorem reply_reads_back:
  assumes "wire_ok enc dec" and "enc v = Some body" and "length body < 2 ^ 64"
  shows "\<exists>bytes. write_msg enc v = Some bytes \<and>
    read_msg dec stalled (bytes @ rest) =
      Some (Inr (Some (if length body \<le> MAX_FRAME_BYTES then v else too_large_reply (length body), rest)))"
proof -
  define u where "u = (if length body \<le> MAX_FRAME_BYTES then v else too_large_reply (length body))"
  obtain buf where buf: "enc u = Some buf" "length buf \<le> MAX_FRAME_BYTES"
    using assms by (cases "length body \<le> MAX_FRAME_BYTES") (auto simp: u_def wire_ok_def)
  have "write_msg enc v = Some (write_bytes buf)"
    using assms(2) buf by (simp add: write_msg_def u_def not_less split: if_splits)
  moreover have "read_msg dec stalled (write_bytes buf @ rest) = Some (Inr (Some (u, rest)))"
    using buf assms(1)
    by (simp add: read_msg_def write_bytes_def frame_len_word Let_def wire_ok_def)
  ultimately show ?thesis by (simp add: u_def)
qed

text \<open>An encoding in which the number of bytes of a reply is that of its text.\<close>

definition text_enc :: "daemon_to_client \<Rightarrow> bytes option" where
  "text_enc v =
     (case v of
        Ack \<Rightarrow> Some [0]
      | ErrorReply s \<Rightarrow> Some (1 # map (\<lambda>c. of_nat (of_char c)) s)
      | _ \<Rightarrow> None)"

definition text_dec :: "bytes \<Rightarrow> daemon_to_client option" where
  "text_dec bs =
     (case bs of
        [] \<Rightarrow> None
      | b # s \<Rightarrow> if b = 0 then Some Ack else Some (ErrorReply (map (\<lambda>w. char_of (unat w)) s)))"

lemma char_byte: "char_of (unat (of_nat (of_char c) :: 8 word)) = c"
proof -
  have "of_char c < (256 :: nat)" using of_char_mod_256 [of c, where ?'a = nat] by (metis mod_less_divisor zero_less_numeral)
  then show ?thesis by (simp add: unat_of_nat)
qed

lemma length_digits: "n < 10 ^ Suc k \<Longrightarrow> length (digits n) \<le> Suc k"
proof (induction k arbitrary: n)
  case 0
  then show ?case by (simp add: digits.simps [of n])
next
  case (Suc k)
  then have "n div 10 < 10 ^ Suc k" by (simp add: less_mult_imp_div_less)
  with Suc.IH [of "n div 10"] show ?case by (simp add: digits.simps [of n])
qed

lemma text_wire_ok: "wire_ok text_enc text_dec"
proof -
  have "text_dec buf = Some v" if "text_enc v = Some buf" for v buf
    using that by (auto simp: text_enc_def text_dec_def char_byte comp_def split: daemon_to_client.splits)
  moreover have "length (digits n) \<le> 20" if "n < 2 ^ 64" for n
    using length_digits [of n 19] that by simp
  then have "n < 2 ^ 64 \<Longrightarrow> \<exists>buf. text_enc (too_large_reply n) = Some buf \<and> length buf \<le> MAX_FRAME_BYTES" for n
    by (fastforce simp: text_enc_def too_large_reply_def MAX_FRAME_BYTES_def)
  ultimately show ?thesis by (auto simp: wire_ok_def)
qed

lemma reply_reads_back_witness:
  "\<exists>bytes. write_msg text_enc (ErrorReply ''no'') = Some bytes \<and>
     read_msg text_dec True (bytes @ [7]) = Some (Inr (Some (ErrorReply ''no'', [7])))"
proof -
  obtain body where b: "text_enc (ErrorReply ''no'') = Some body" "length body = 3"
    by (simp add: text_enc_def)
  with reply_reads_back [OF text_wire_ok b(1), of True "[7]"] show ?thesis
    by (simp add: MAX_FRAME_BYTES_def)
qed

end
