(* ===== verification/Recovery.thy ===== *)
theory Recovery
  imports SessionDir SessionRouter PostMortem Display
begin

text \<open>
  What the daemon does about an unclean death, its own or its predecessor's:
  \<open>crates/smeltr-daemon/src/recovery.rs\<close> at boot and \<open>panic_flush.rs\<close> on a panic.  The pid of a
  process's executable, file times, the clock and the printing of RFC 3339 times are parameters.
\<close>

section \<open>The pid file\<close>

definition DAEMON_EXE :: string where "DAEMON_EXE = ''smeltrd''"

definition parse_pid :: "string \<Rightarrow> u32 option" where
  "parse_pid s =
     (case parse_u64 s of Some n \<Rightarrow> if n < 2 ^ 32 then Some (of_nat n) else None | None \<Rightarrow> None)"

definition live_pid_named :: "(u32 \<Rightarrow> string option) \<Rightarrow> string option \<Rightarrow> string \<Rightarrow> u32 option" where
  "live_pid_named exe_name pid_file exe =
     (case Option.bind pid_file (\<lambda>s. parse_pid (trim s)) of
        None \<Rightarrow> None
      | Some pid \<Rightarrow> if exe_name pid = Some exe then Some pid else None)"

definition live_daemon_pid :: "(u32 \<Rightarrow> string option) \<Rightarrow> string option \<Rightarrow> u32 option" where
  "live_daemon_pid exe_name pid_file = live_pid_named exe_name pid_file DAEMON_EXE"

text \<open>\<open>O_EXCL\<close>: fails when the file exists.\<close>

definition claim_pid_file :: "u32 \<Rightarrow> string option \<Rightarrow> bool \<times> string option" where
  "claim_pid_file own pid_file =
     (case pid_file of None \<Rightarrow> (True, Some (digits (unat own))) | Some s \<Rightarrow> (False, Some s))"

section \<open>Orphaned sessions\<close>

text \<open>The metadata with the reason a session ended for.\<close>

record closing_metadata = session_metadata +
  sm_end_reason :: "string option"

type_synonym session_dirs = "(string \<times> closing_metadata option) list"

record recovery_env =
  re_parse :: "string \<Rightarrow> int option"
  re_format :: "int \<Rightarrow> string option"
  re_now :: int
  re_events_mtime :: "string \<Rightarrow> int option"
  re_writable :: "string \<Rightarrow> bool"

definition now_rfc3339 :: "recovery_env \<Rightarrow> string" where
  "now_rfc3339 env = (case re_format env (re_now env) of Some s \<Rightarrow> s | None \<Rightarrow> [])"

definition ended_at :: "recovery_env \<Rightarrow> string \<Rightarrow> closing_metadata \<Rightarrow> int" where
  "ended_at env dir m =
     (let ended = (case re_events_mtime env dir of Some t \<Rightarrow> t | None \<Rightarrow> re_now env)
      in case re_parse env (sm_started m) of
           Some started \<Rightarrow> if ended < started then started else ended
         | None \<Rightarrow> ended)"

definition recovered_meta :: "recovery_env \<Rightarrow> string \<Rightarrow> closing_metadata \<Rightarrow> closing_metadata" where
  "recovered_meta env dir m =
     m\<lparr>sm_ended := Some (case re_format env (ended_at env dir m) of
          Some s \<Rightarrow> s | None \<Rightarrow> now_rfc3339 env),
       sm_end_reason := Some ''recovered-after-crash''\<rparr>"

fun recover_orphaned_sessions :: "recovery_env \<Rightarrow> session_dirs \<Rightarrow> nat \<times> session_dirs" where
  "recover_orphaned_sessions env [] = (0, [])"
| "recover_orphaned_sessions env ((dir, meta) # ds) =
     (case recover_orphaned_sessions env ds of
        (n, ds') \<Rightarrow>
          if starts_with dir ''post-mortem-'' then (n, (dir, meta) # ds')
          else (case meta of
             None \<Rightarrow> (n, (dir, meta) # ds')
           | Some m \<Rightarrow>
               if sm_ended m \<noteq> None then (n, (dir, meta) # ds')
               else if \<not> re_writable env dir then (n, (dir, meta) # ds')
               else (Suc n, (dir, Some (recovered_meta env dir m)) # ds')))"

section \<open>Rings\<close>

text \<open>The entries of the directory: whether each is a file, and whether it can be removed.\<close>

definition reap_orphan_rings :: "(string \<times> bool \<times> bool) list option \<Rightarrow> nat \<times> (string \<times> bool \<times> bool) list option" where
  "reap_orphan_rings entries =
     (case entries of
        None \<Rightarrow> (0, None)
      | Some es \<Rightarrow>
          (length (filter (\<lambda>(_, is_file, removable). is_file \<and> removable) es),
           Some (filter (\<lambda>(_, is_file, removable). \<not> (is_file \<and> removable)) es)))"

section \<open>A panic\<close>

definition panic_report :: "string \<Rightarrow> string \<Rightarrow> string" where
  "panic_report message backtrace =
     ''smeltrd panic'' @ newline @ newline @ ''message: '' @ message @ newline @ newline @
     ''backtrace:'' @ newline @ backtrace @ newline"

text \<open>
  What the hook finds: whether the recorder and the router still exist, and the locks that other
  threads hold.
\<close>

record panic_scene =
  ps_recorder :: "flight_recorder option"
  ps_recorder_held :: bool
  ps_router :: "router option"
  ps_by_pid_held :: bool
  ps_session_held :: "uuid \<Rightarrow> bool"
  ps_report_writable :: bool

record panic_effects =
  pe_post_mortem :: "(flush_error + post_mortem) option"
  pe_report :: "string option"
  pe_router :: "router option"
  pe_flushed :: nat

definition handle_panic ::
  "codecs \<Rightarrow> (bytes \<Rightarrow> bytes option) \<Rightarrow> string \<Rightarrow> string \<Rightarrow> panic_scene \<Rightarrow> panic_effects" where
  "handle_panic c enc message backtrace sc =
     (let pm = map_option (\<lambda>fr.
              flush_post_mortem_events c enc
                (case try_snapshot (ps_recorder_held sc) fr of Some evs \<Rightarrow> evs | None \<Rightarrow> [])
                (TrDaemonPanic message)) (ps_recorder sc);
          flushed = map_option (try_flush_all c (ps_by_pid_held sc) (ps_session_held sc)) (ps_router sc)
      in \<lparr>pe_post_mortem = pm,
          pe_report = (case pm of
              Some (Inr _) \<Rightarrow> if ps_report_writable sc then Some (panic_report message backtrace) else None
            | _ \<Rightarrow> None),
          pe_router = map_option snd flushed,
          pe_flushed = (case flushed of Some (n, _) \<Rightarrow> n | None \<Rightarrow> 0)\<rparr>)"

text \<open>
  Boot-time recovery closes exactly the sessions left open, once, and never before they started;
  a panic leaves a black box that reads back.
\<close>

section \<open>Orphans\<close>

definition orphan :: "recovery_env \<Rightarrow> string \<times> closing_metadata option \<Rightarrow> bool" where
  "orphan env d \<longleftrightarrow>
     \<not> starts_with (fst d) ''post-mortem-'' \<and> re_writable env (fst d) \<and>
     (case snd d of Some m \<Rightarrow> sm_ended m = None | None \<Rightarrow> False)"

definition closed_dir ::
  "recovery_env \<Rightarrow> string \<times> closing_metadata option \<Rightarrow> string \<times> closing_metadata option" where
  "closed_dir env d =
     (if orphan env d then (fst d, map_option (recovered_meta env (fst d)) (snd d)) else d)"

lemma recover_map:
  "recover_orphaned_sessions env ds = (length (filter (orphan env) ds), map (closed_dir env) ds)"
  by (induction env ds rule: recover_orphaned_sessions.induct)
    (auto simp: orphan_def closed_dir_def split: option.split)

lemma closed_not_orphan: "\<not> orphan env (closed_dir env d)"
  by (auto simp: closed_dir_def orphan_def recovered_meta_def split: option.splits)

text \<open>Times are printed so that they read back.\<close>

definition prints_times :: "recovery_env \<Rightarrow> bool" where
  "prints_times env \<longleftrightarrow> (\<forall>t. Option.bind (re_format env t) (re_parse env) = Some t)"

lemma closing_time:
  assumes "prints_times env"
  obtains s where "sm_ended (recovered_meta env dir m) = Some s" and "re_parse env s = Some (ended_at env dir m)"
proof -
  from assms obtain s where "re_format env (ended_at env dir m) = Some s" "re_parse env s = Some (ended_at env dir m)"
    unfolding prints_times_def by (metis bind_eq_Some_conv)
  then show thesis by (intro that [of s]) (simp_all add: recovered_meta_def)
qed

definition closed_in_time :: "recovery_env \<Rightarrow> string \<Rightarrow> closing_metadata \<Rightarrow> closing_metadata \<Rightarrow> bool" where
  "closed_in_time env dir m m' \<longleftrightarrow>
     (\<exists>s e. sm_ended m' = Some s \<and> re_parse env s = Some e \<and>
        (case re_parse env (sm_started m) of
           Some started \<Rightarrow>
             started \<le> e \<and>
             (case re_events_mtime env dir of Some t \<Rightarrow> started \<le> t \<longrightarrow> e = t | None \<Rightarrow> True)
         | None \<Rightarrow> True)) \<and>
     sm_end_reason m' = Some ''recovered-after-crash'' \<and>
     m'\<lparr>sm_ended := sm_ended m, sm_end_reason := sm_end_reason m\<rparr> = m"

lemma recovered_in_time:
  assumes "prints_times env"
  shows "closed_in_time env dir m (recovered_meta env dir m)"
proof -
  obtain s where s: "sm_ended (recovered_meta env dir m) = Some s" "re_parse env s = Some (ended_at env dir m)"
    using closing_time [OF assms] .
  have "case re_parse env (sm_started m) of
      Some started \<Rightarrow>
        started \<le> ended_at env dir m \<and>
        (case re_events_mtime env dir of Some t \<Rightarrow> started \<le> t \<longrightarrow> ended_at env dir m = t | None \<Rightarrow> True)
    | None \<Rightarrow> True"
    by (auto simp: ended_at_def Let_def split: option.split)
  with s show ?thesis
    unfolding closed_in_time_def by (auto simp: recovered_meta_def)
qed

text \<open>
  C40. Recovery at boot closes every session left open that it can write, and touches nothing
  else: it reports how many, a second boot finds none, and a session closed gets an end that is
  never before its start, the time of its last write whenever that is not.
\<close>

theorem recovery_closes_orphans:
  assumes "prints_times env" and "recover_orphaned_sessions env ds = (n, ds')"
  shows "n = length (filter (orphan env) ds) \<and> fst (recover_orphaned_sessions env ds') = 0 \<and>
    list_all2 (\<lambda>(dir, m) (dir', m'). dir' = dir \<and>
      (if orphan env (dir, m) then \<exists>a b. m = Some a \<and> m' = Some b \<and> closed_in_time env dir a b else m' = m)) ds ds'"
proof -
  from assms(2) have n: "n = length (filter (orphan env) ds)" and ds': "ds' = map (closed_dir env) ds"
    by (simp_all add: recover_map)
  have "fst (recover_orphaned_sessions env ds') = 0"
    by (simp add: recover_map ds' filter_map comp_def closed_not_orphan)
  moreover have "(\<lambda>(dir, m) (dir', m'). dir' = dir \<and>
      (if orphan env (dir, m) then \<exists>a b. m = Some a \<and> m' = Some b \<and> closed_in_time env dir a b else m' = m))
      d (closed_dir env d)" for d
    using recovered_in_time [OF assms(1)]
    by (cases d) (auto simp: closed_dir_def orphan_def split: option.splits)
  then have "list_all2 (\<lambda>(dir, m) (dir', m'). dir' = dir \<and>
      (if orphan env (dir, m) then \<exists>a b. m = Some a \<and> m' = Some b \<and> closed_in_time env dir a b else m' = m)) ds ds'"
    unfolding ds' by (induction ds) auto
  ultimately show ?thesis using n by blast
qed

section \<open>The black box\<close>

text \<open>
  When the daemon panics while no other thread holds the flight recorder and the post-mortem
  can be written, it reads back as the content of the recorder.
\<close>

theorem panic_black_box_reads_back:
  fixes sc :: stream_codecs
  assumes "ps_recorder scene = Some fr" and "\<not> ps_recorder_held scene"
    and "pe_post_mortem (handle_panic (codecs.truncate sc) enc message backtrace scene) = Some (Inr pm)"
    and "\<And>data z. enc data = Some z \<Longrightarrow> unchecked_frame sc data z"
    and "list_all (cbor_ok (codecs.truncate sc)) (snapshot fr)"
  shows "read_events_checked sc True (pm_file pm) (Some (pm_meta pm)) = Inr (snapshot fr, [])"
proof -
  from assms(1-3) have "flush_post_mortem_events (codecs.truncate sc) enc (snapshot fr) (TrDaemonPanic message) = Inr pm"
    by (simp add: handle_panic_def try_snapshot_def Let_def)
  then obtain data where "write_frames (codecs.truncate sc) (snapshot fr) = Inr data" "enc data = Some (pm_file pm)"
    "pm_meta pm = \<lparr>rm_event_count = None, rm_dropped_events = None\<rparr>"
    by (auto simp: flush_post_mortem_events_def split: sum.splits option.splits)
  with write_frames_encoded [OF this(1) assms(5)] read_unchecked_file [OF assms(4)] show ?thesis by metis
qed

section \<open>A boot\<close>

definition tally :: "int \<Rightarrow> string" where
  "tally t = (if t < 0 then CHR ''-'' # replicate (nat (- t)) (CHR ''I'') else replicate (nat t) (CHR ''I''))"

definition read_tally :: "string \<Rightarrow> int option" where
  "read_tally s =
     (case s of [] \<Rightarrow> Some 0
      | c # cs \<Rightarrow> Some (if c = CHR ''-'' then - int (length cs) else int (length s)))"

definition boot_env :: recovery_env where
  "boot_env = \<lparr>re_parse = read_tally, re_format = (\<lambda>t. Some (tally t)), re_now = 5,
     re_events_mtime = (\<lambda>d. Some 2), re_writable = (\<lambda>d. True)\<rparr>"

lemma read_tally_tally: "read_tally (tally t) = Some t"
proof (cases "t < 0")
  case True
  then show ?thesis by (simp add: tally_def read_tally_def)
next
  case False
  then show ?thesis by (cases "nat t") (auto simp: tally_def read_tally_def)
qed

lemma boot_prints: "prints_times boot_env"
  by (simp add: prints_times_def boot_env_def read_tally_tally)

definition open_meta :: "int \<Rightarrow> closing_metadata" where
  "open_meta started = \<lparr>sm_session_id = 1, sm_started = tally started, sm_ended = None, sm_exit_code = None,
     sm_kind = KindAmbient, sm_name = None, sm_term_signal = None, sm_post_mortem = None, sm_end_reason = None\<rparr>"

definition boot_dirs :: session_dirs where
  "boot_dirs = [(''post-mortem-x'', Some (open_meta 1)), (''a'', Some (open_meta 1)), (''b'', Some (open_meta 3)), (''c'', None)]"

lemma recovery_closes_orphans_witness:
  "fst (recover_orphaned_sessions boot_env boot_dirs) = 2 \<and>
   fst (recover_orphaned_sessions boot_env (snd (recover_orphaned_sessions boot_env boot_dirs))) = 0"
proof -
  have "length (filter (orphan boot_env) boot_dirs) = 2"
    by (simp add: boot_dirs_def orphan_def boot_env_def open_meta_def)
  moreover have "n = length (filter (orphan boot_env) boot_dirs) \<and> fst (recover_orphaned_sessions boot_env ds) = 0"
    if "recover_orphaned_sessions boot_env boot_dirs = (n, ds)" for n ds
    using recovery_closes_orphans [OF boot_prints that] by blast
  ultimately show ?thesis by (cases "recover_orphaned_sessions boot_env boot_dirs") simp
qed

end
