(* ===== verification/Supervisor.thy ===== *)
theory Supervisor
  imports EventModel
begin

text \<open>
  The supervision of a probe, \<open>crates/smeltr-probes-core/src/supervisor.rs\<close>, with the errors and
  health of \<open>probe.rs\<close>.  What each run of the probe does is an argument, one record per run; what
  the supervisor does is the list of its actions.  Durations are in milliseconds.
\<close>

section \<open>Probes\<close>

datatype probe_health = ProbeOk | ProbeDegraded string | ProbeFailed string

datatype probe_error = PermissionDenied string | Unavailable string | Transient string | ProbeIo string

fun error_text :: "probe_error \<Rightarrow> string" where
  "error_text (PermissionDenied s) = ''probe permission denied: '' @ s"
| "error_text (Unavailable s) = ''probe unavailable on this platform: '' @ s"
| "error_text (Transient s) = ''probe transient failure: '' @ s"
| "error_text (ProbeIo s) = ''probe i/o: '' @ s"

text \<open>How the task of a run ends: with the result of \<open>run\<close>, in a panic, or cancelled.\<close>

datatype run_outcome = RunOk | RunErr probe_error | RunPanicked string | TaskCancelled

record probe_run =
  ru_cancelled_before :: bool
  ru_health :: probe_health
  ru_outcome :: run_outcome
  ru_elapsed :: nat
  ru_cancelled_after :: bool
  ru_cancelled_asleep :: bool

section \<open>The restart loop\<close>

definition MAX_RESTARTS :: nat where "MAX_RESTARTS = 5"
definition INITIAL_BACKOFF :: nat where "INITIAL_BACKOFF = 500"
definition MAX_BACKOFF :: nat where "MAX_BACKOFF = 30000"
definition HEALTHY_RUN :: nat where "HEALTHY_RUN = 60000"

datatype supervisor_action = Emitted payload | Slept nat | Stopped

fun health_payload :: "string \<Rightarrow> probe_health \<Rightarrow> payload" where
  "health_payload name ProbeOk = ProbeHealth name HealthOk None"
| "health_payload name (ProbeDegraded r) = ProbeHealth name Degraded (Some r)"
| "health_payload name (ProbeFailed r) = ProbeHealth name Failed (Some r)"

definition gave_up :: "string \<Rightarrow> string \<Rightarrow> supervisor_action" where
  "gave_up name reason = Emitted (ProbeHealth name Failed (Some reason))"

text \<open>The list ends without \<open>Stopped\<close> when the supervisor waits for the next run to end.\<close>

fun run_with_restart :: "string \<Rightarrow> nat \<Rightarrow> nat \<Rightarrow> probe_run list \<Rightarrow> supervisor_action list" where
  "run_with_restart name attempt backoff [] = []"
| "run_with_restart name attempt backoff (r # rs) =
     (if ru_cancelled_before r then [Stopped]
      else Emitted (health_payload name (ru_health r)) #
        (case ru_outcome r of
           RunPanicked msg \<Rightarrow> [gave_up name (''panicked: '' @ msg), Stopped]
         | TaskCancelled \<Rightarrow> [gave_up name ''probe task cancelled'', Stopped]
         | RunOk \<Rightarrow> [Stopped]
         | RunErr e \<Rightarrow>
             if ru_cancelled_after r then [Stopped]
             else
               (let n = (if HEALTHY_RUN \<le> ru_elapsed r then 0 else attempt);
                    b = (if HEALTHY_RUN \<le> ru_elapsed r then INITIAL_BACKOFF else backoff)
                in case e of
                     PermissionDenied reason \<Rightarrow> [gave_up name reason, Stopped]
                   | Unavailable reason \<Rightarrow> [gave_up name reason, Stopped]
                   | _ \<Rightarrow>
                       if MAX_RESTARTS \<le> Suc n
                       then [gave_up name (''max restarts exceeded: '' @ error_text e), Stopped]
                       else Slept b #
                         (if ru_cancelled_asleep r then [Stopped]
                          else run_with_restart name (Suc n) (min (b * 2) MAX_BACKOFF) rs))))"

definition supervise :: "string \<Rightarrow> probe_run list \<Rightarrow> supervisor_action list" where
  "supervise name rs = run_with_restart name 0 INITIAL_BACKOFF rs"

text \<open>
  When a supervised probe is given up, and how long the supervisor waits between its runs.
\<close>

section \<open>Waiting\<close>

fun slept :: "supervisor_action list \<Rightarrow> nat list" where
  "slept [] = []"
| "slept (Slept b # as) = b # slept as"
| "slept (_ # as) = slept as"

lemma slept_gave_up [simp]: "slept (gave_up name r # as) = slept as"
  by (simp add: gave_up_def)

text \<open>The backoff is always the initial one, doubled once per failure counted.\<close>

definition backoff_after :: "nat \<Rightarrow> nat" where
  "backoff_after n = INITIAL_BACKOFF * 2 ^ n"

lemma backoff_next: "Suc n < MAX_RESTARTS \<Longrightarrow> min (backoff_after n * 2) MAX_BACKOFF = backoff_after (Suc n)"
proof -
  assume "Suc n < MAX_RESTARTS"
  then have "n \<in> {0, 1, 2, 3}" by (auto simp: MAX_RESTARTS_def)
  then show ?thesis by (auto simp: backoff_after_def INITIAL_BACKOFF_def MAX_BACKOFF_def)
qed

lemma backoff_0: "backoff_after 0 = INITIAL_BACKOFF"
  by (simp add: backoff_after_def)

text \<open>One run, with the failures counted before it and those counted with it.\<close>

definition counted :: "nat \<Rightarrow> probe_run \<Rightarrow> nat" where
  "counted attempt r = Suc (if HEALTHY_RUN \<le> ru_elapsed r then 0 else attempt)"

definition retryable :: "probe_run \<Rightarrow> bool" where
  "retryable r \<longleftrightarrow>
     \<not> ru_cancelled_before r \<and> \<not> ru_cancelled_after r \<and>
     (case ru_outcome r of RunErr (Transient _) \<Rightarrow> True | RunErr (ProbeIo _) \<Rightarrow> True | _ \<Rightarrow> False)"

lemma run_retried:
  assumes "b = backoff_after attempt" and "retryable r" and "counted attempt r < MAX_RESTARTS"
  shows "run_with_restart name attempt b (r # rs) =
    Emitted (health_payload name (ru_health r)) # Slept (backoff_after (counted attempt r - 1)) #
      (if ru_cancelled_asleep r then [Stopped]
       else run_with_restart name (counted attempt r) (backoff_after (counted attempt r)) rs)"
proof -
  obtain e where e: "ru_outcome r = RunErr e" "\<And>s. e \<noteq> PermissionDenied s" "\<And>s. e \<noteq> Unavailable s"
    using assms(2) by (auto simp: retryable_def split: run_outcome.splits probe_error.splits)
  let ?n = "if HEALTHY_RUN \<le> ru_elapsed r then 0 else attempt"
  from assms(3) have n: "Suc ?n < MAX_RESTARTS" by (simp add: counted_def)
  have b: "(if HEALTHY_RUN \<le> ru_elapsed r then INITIAL_BACKOFF else b) = backoff_after ?n"
    by (simp add: assms(1) backoff_0)
  have next_b: "min (backoff_after ?n * 2) MAX_BACKOFF = backoff_after (Suc ?n)"
    using n by (rule backoff_next)
  from assms(2) show ?thesis
    unfolding run_with_restart.simps(2) Let_def b next_b e(1)
    using n e(2,3) by (auto simp: retryable_def counted_def split: probe_error.split)
qed

lemma run_ended:
  assumes "\<not> (retryable r \<and> counted attempt r < MAX_RESTARTS)"
  shows "run_with_restart name attempt b (r # rs) = run_with_restart name attempt b [r]"
proof (cases "retryable r")
  case True
  with assms have "MAX_RESTARTS \<le> Suc (if HEALTHY_RUN \<le> ru_elapsed r then 0 else attempt)"
    by (simp add: counted_def not_less)
  then show ?thesis by (auto simp: Let_def split: run_outcome.split probe_error.split if_splits)
next
  case False
  then show ?thesis
    by (auto simp: retryable_def Let_def split: run_outcome.split probe_error.split)
qed

lemma run_final:
  assumes "\<not> (retryable r \<and> counted attempt r < MAX_RESTARTS)"
  shows "slept (run_with_restart name attempt b (r # rs)) = []" and
    "Stopped \<in> set (run_with_restart name attempt b (r # rs))"
proof -
  have "slept (run_with_restart name attempt b [r]) = [] \<and> Stopped \<in> set (run_with_restart name attempt b [r])"
  proof (cases "retryable r")
    case True
    with assms have "MAX_RESTARTS \<le> Suc (if HEALTHY_RUN \<le> ru_elapsed r then 0 else attempt)"
      by (simp add: counted_def not_less)
    then show ?thesis by (auto simp: Let_def split: run_outcome.split probe_error.split if_splits)
  next
    case False
    then show ?thesis
      by (auto simp: retryable_def Let_def split: run_outcome.split probe_error.split)
  qed
  then show "slept (run_with_restart name attempt b (r # rs)) = []"
    "Stopped \<in> set (run_with_restart name attempt b (r # rs))"
    unfolding run_ended [OF assms, of name b rs] by auto
qed

declare run_with_restart.simps(2) [simp del]

lemma slept_powers:
  "attempt < MAX_RESTARTS \<Longrightarrow>
     set (slept (run_with_restart name attempt (backoff_after attempt) rs)) \<subseteq> backoff_after ` {n. Suc n < MAX_RESTARTS}"
proof (induction rs arbitrary: attempt)
  case Nil
  then show ?case by simp
next
  case (Cons r rs)
  show ?case
  proof (cases "retryable r \<and> counted attempt r < MAX_RESTARTS")
    case True
    then have "Suc (counted attempt r - 1) < MAX_RESTARTS" by (simp add: counted_def)
    with True Cons.IH [of "counted attempt r"] show ?thesis by (auto simp: run_retried)
  next
    case False
    then show ?thesis by (simp add: run_final(1) [OF False])
  qed
qed

text \<open>
  The supervisor waits half a second, one, two or four seconds between two runs, whatever the
  runs do: it gives the probe up at the fifth failure counted, so the cap of thirty seconds on the
  backoff is never reached.
\<close>

theorem backoff_bounds: "set (slept (supervise name rs)) \<subseteq> {500, 1000, 2000, 4000}"
proof -
  have "{n. Suc n < MAX_RESTARTS} = {0, 1, 2, 3}" by (auto simp: MAX_RESTARTS_def)
  then have "backoff_after ` {n. Suc n < MAX_RESTARTS} = {500, 1000, 2000, 4000}"
    by (simp add: backoff_after_def INITIAL_BACKOFF_def)
  moreover have "set (slept (supervise name rs)) \<subseteq> backoff_after ` {n. Suc n < MAX_RESTARTS}"
    unfolding supervise_def backoff_0 [symmetric] by (rule slept_powers) (simp add: MAX_RESTARTS_def)
  ultimately show ?thesis by simp
qed

section \<open>Giving up\<close>

definition short_run :: "probe_run \<Rightarrow> bool" where
  "short_run r \<longleftrightarrow> ru_elapsed r < HEALTHY_RUN"

text \<open>Four short runs right after some run.\<close>

definition failing_streak :: "bool list \<Rightarrow> bool" where
  "failing_streak bs \<longleftrightarrow> (\<exists>i. Suc i + 4 \<le> length bs \<and> list_all (\<lambda>b. b) (take 4 (drop (Suc i) bs)))"

lemma streak_Cons:
  "failing_streak (b # bs) \<longleftrightarrow> 4 \<le> length bs \<and> list_all (\<lambda>b. b) (take 4 bs) \<or> failing_streak bs"
proof
  assume "failing_streak (b # bs)"
  then obtain i where i: "Suc i + 4 \<le> length (b # bs)" "list_all (\<lambda>b. b) (take 4 (drop i bs))"
    by (auto simp: failing_streak_def)
  then show "4 \<le> length bs \<and> list_all (\<lambda>b. b) (take 4 bs) \<or> failing_streak bs"
    by (cases i) (auto simp: failing_streak_def)
next
  assume "4 \<le> length bs \<and> list_all (\<lambda>b. b) (take 4 bs) \<or> failing_streak bs"
  then show "failing_streak (b # bs)"
  proof
    assume "4 \<le> length bs \<and> list_all (\<lambda>b. b) (take 4 bs)"
    then show ?thesis unfolding failing_streak_def by (intro exI [of _ 0]) simp
  next
    assume "failing_streak bs"
    then obtain i where "Suc i + 4 \<le> length bs" "list_all (\<lambda>b. b) (take 4 (drop (Suc i) bs))"
      by (auto simp: failing_streak_def)
    then show ?thesis unfolding failing_streak_def by (intro exI [of _ "Suc i"]) simp
  qed
qed

lemma list_all_take_le: "list_all P (take n xs) \<Longrightarrow> m \<le> n \<Longrightarrow> list_all P (take m xs)"
  by (auto simp: list_all_length)

definition undisturbed :: "probe_run \<Rightarrow> bool" where
  "undisturbed r \<longleftrightarrow> retryable r \<and> \<not> ru_cancelled_asleep r"

lemma stops_iff:
  "attempt < MAX_RESTARTS \<Longrightarrow> 0 < attempt \<Longrightarrow> list_all undisturbed rs \<Longrightarrow>
     Stopped \<in> set (run_with_restart name attempt (backoff_after attempt) rs) \<longleftrightarrow>
       5 - attempt \<le> length rs \<and> list_all (\<lambda>b. b) (take (5 - attempt) (map short_run rs)) \<or>
       failing_streak (map short_run rs)"
proof (induction rs arbitrary: attempt)
  case Nil
  then show ?case by (simp add: failing_streak_def MAX_RESTARTS_def)
next
  case (Cons r rs)
  let ?bs = "map short_run rs"
  from Cons.prems have r: "retryable r" "\<not> ru_cancelled_asleep r" "list_all undisturbed rs"
    unfolding undisturbed_def by simp_all
  show ?case
  proof (cases "short_run r")
    case True
    then have c: "counted attempt r = Suc attempt" by (simp add: counted_def short_run_def)
    obtain k where k: "5 - attempt = Suc k" using Cons.prems(1) by (cases "5 - attempt") (simp_all add: MAX_RESTARTS_def)
    show ?thesis
    proof (cases "Suc attempt < MAX_RESTARTS")
      case more: True
      have IH: "Stopped \<in> set (run_with_restart name (Suc attempt) (backoff_after (Suc attempt)) rs) \<longleftrightarrow>
          k \<le> length rs \<and> list_all (\<lambda>b. b) (take k ?bs) \<or> failing_streak ?bs"
      proof -
        have "5 - Suc attempt = k" using k by simp
        with Cons.IH [OF more _ r(3)] show ?thesis by simp
      qed
      have "k \<le> 4" using k by simp
      then have "4 \<le> length ?bs \<and> list_all (\<lambda>b. b) (take 4 ?bs) \<Longrightarrow> k \<le> length rs \<and> list_all (\<lambda>b. b) (take k ?bs)"
        by (auto intro: list_all_take_le)
      then show ?thesis
        using r more IH True k c by (auto simp: streak_Cons run_retried)
    next
      case False
      with Cons.prems(1) have "attempt = 4" by (simp add: MAX_RESTARTS_def)
      moreover have "Stopped \<in> set (run_with_restart name attempt (backoff_after attempt) (r # rs))"
        using False c by (intro run_final(2)) simp
      ultimately show ?thesis using True by simp
    qed
  next
    case False
    then have c: "counted attempt r = 1" by (simp add: counted_def short_run_def)
    have one: "1 < MAX_RESTARTS" by (simp add: MAX_RESTARTS_def)
    obtain k where k: "5 - attempt = Suc k" using Cons.prems(1) by (cases "5 - attempt") (simp_all add: MAX_RESTARTS_def)
    show ?thesis
      using r one Cons.IH [OF one _ r(3)] False k c by (auto simp: streak_Cons run_retried)
  qed
qed

text \<open>
  C39. A probe whose runs keep failing in ways worth a restart, with nobody cancelling it, is given
  up exactly when some run is followed by four that each end within a minute; rare failures, after
  healthy runs, never disable it.
\<close>

theorem gives_up_on_streak:
  assumes "list_all undisturbed rs"
  shows "Stopped \<in> set (supervise name rs) \<longleftrightarrow> failing_streak (map short_run rs)"
proof (cases rs)
  case Nil
  then show ?thesis by (simp add: supervise_def failing_streak_def)
next
  case (Cons r rs')
  have one: "1 < MAX_RESTARTS" by (simp add: MAX_RESTARTS_def)
  from assms Cons have r: "retryable r" "\<not> ru_cancelled_asleep r" "list_all undisturbed rs'"
    unfolding undisturbed_def by simp_all
  have c: "counted 0 r = 1" by (simp add: counted_def)
  have "supervise name rs = run_with_restart name 0 (backoff_after 0) (r # rs')"
    by (simp add: supervise_def Cons backoff_0)
  also have "\<dots> = Emitted (health_payload name (ru_health r)) # Slept (backoff_after 0) #
      run_with_restart name 1 (backoff_after 1) rs'"
    using r one c by (simp add: run_retried)
  finally show ?thesis
    using stops_iff [OF one _ r(3)] by (simp add: Cons streak_Cons)
qed

definition flaky_run :: "nat \<Rightarrow> probe_run" where
  "flaky_run ms = \<lparr>ru_cancelled_before = False, ru_health = ProbeOk, ru_outcome = RunErr (Transient ''eof''),
     ru_elapsed = ms, ru_cancelled_after = False, ru_cancelled_asleep = False\<rparr>"

lemma flaky_runs: "list_all undisturbed (map flaky_run mss)"
  by (induction mss) (simp_all add: undisturbed_def retryable_def flaky_run_def)

lemma gives_up_on_streak_witness:
  "Stopped \<in> set (supervise ''logs'' (map flaky_run [90000, 1, 2, 3, 4])) \<and>
   Stopped \<notin> set (supervise ''logs'' (map flaky_run [1, 2, 3, 4, 90000, 1, 2, 3]))"
proof -
  have "failing_streak (map short_run (map flaky_run [90000, 1, 2, 3, 4]))"
    by (simp add: failing_streak_def short_run_def flaky_run_def HEALTHY_RUN_def)
  moreover have "\<not> failing_streak (map short_run (map flaky_run [1, 2, 3, 4, 90000, 1, 2, 3]))"
    by (simp add: streak_Cons short_run_def flaky_run_def HEALTHY_RUN_def) (simp add: failing_streak_def)
  ultimately show ?thesis
    using gives_up_on_streak [OF flaky_runs, of "''logs''" "[90000, 1, 2, 3, 4]"]
      gives_up_on_streak [OF flaky_runs, of "''logs''" "[1, 2, 3, 4, 90000, 1, 2, 3]"] by simp
qed

end
