(* ===== verification/Export.thy ===== *)
theory Export
  imports Display
begin

text \<open>
  The Chrome trace of a session, \<open>to_chrome_trace\<close> of \<open>crates/smeltr-analyzer/src/export.rs\<close>: the
  trace events in the order they are pushed, each as the list of its members.  How \<open>serde_json\<close>
  prints them is not modelled: members come out in key order, a float that is not finite as \<open>null\<close>.
\<close>

section \<open>Trace events\<close>

datatype trace_value =
  TvNull
| TvBool bool
| TvInt int
| TvF64 f64
| TvF64Bits u64
| TvF32 u32
| TvStr string
| TvObj "(string \<times> trace_value) list"

type_synonym trace_event = "(string \<times> trace_value) list"

definition tv_u :: "'a::len word \<Rightarrow> trace_value" where "tv_u w = TvInt (uint w)"

definition tv_opt :: "('a \<Rightarrow> trace_value) \<Rightarrow> 'a option \<Rightarrow> trace_value" where
  "tv_opt f x = (case x of None \<Rightarrow> TvNull | Some v \<Rightarrow> f v)"

fun tv_field :: "field_value \<Rightarrow> trace_value" where
  "tv_field (FBool b) = TvBool b"
| "tv_field (FInt i) = TvInt (sint i)"
| "tv_field (FFloat b) = TvF64Bits b"
| "tv_field (FString s) = TvStr s"

definition us :: "u64 \<Rightarrow> f64" where
  "us ns = f64_div (f64_of_u64 ns) 1000"

definition queue_lane :: "u64 \<Rightarrow> trace_value" where
  "queue_lane q = TvStr (''queue_'' @ dec q)"

definition is_finite :: "u32 \<Rightarrow> bool" where
  "is_finite b \<longleftrightarrow> (case f32_value_of b of F32Fin _ \<Rightarrow> True | _ \<Rightarrow> False)"

section \<open>State\<close>

type_synonym open_module = "f64 \<times> string \<times> string \<times> u16 \<times> fields"
type_synonym open_cb = "f64 \<times> u64 \<times> string option \<times> f64 option"
type_synonym gpu_window = "f64 \<times> f64 \<times> u64"

record model_load_entry =
  me_path :: string
  me_size_bytes :: u64
  me_ingest :: u64
  me_dur :: u64
  me_sha8 :: "string option"
  me_framework :: "string option"

record export_state =
  ex_out :: "trace_event list"
  ex_model_loads :: "model_load_entry list"
  ex_model_unloads :: "(string \<times> u64 \<times> string option) list"
  ex_open_modules :: "u64 \<rightharpoonup> open_module"
  ex_open_cbs :: "u64 \<rightharpoonup> open_cb"
  ex_awaiting_ops :: "u64 \<rightharpoonup> gpu_window"
  ex_pending_ops :: "u64 \<rightharpoonup> op_sample list"
  ex_queue_busy_until :: "u64 \<rightharpoonup> f64"
  ex_async_id :: u64

definition process_name :: "int \<times> string \<Rightarrow> trace_event" where
  "process_name p =
     [(''ph'', TvStr ''M''), (''name'', TvStr ''process_name''), (''pid'', TvInt (fst p)),
      (''tid'', TvInt 0), (''args'', TvObj [(''name'', TvStr (snd p))])]"

definition lanes :: "(int \<times> string) list" where
  "lanes = [(1, ''Python''), (2, ''Metal CBs''), (3, ''Kernels''), (4, ''Model Loads'')]"

definition export_init :: export_state where
  "export_init =
     \<lparr>ex_out = map process_name lanes, ex_model_loads = [], ex_model_unloads = [],
      ex_open_modules = Map.empty, ex_open_cbs = Map.empty, ex_awaiting_ops = Map.empty,
      ex_pending_ops = Map.empty, ex_queue_busy_until = Map.empty, ex_async_id = 0\<rparr>"

definition push :: "trace_event list \<Rightarrow> export_state \<Rightarrow> export_state" where
  "push evs s = s\<lparr>ex_out := ex_out s @ evs\<rparr>"

section \<open>Kernels\<close>

definition kernel_slice :: "u64 \<Rightarrow> f64 \<Rightarrow> f64 \<Rightarrow> op_sample \<Rightarrow> trace_event" where
  "kernel_slice q cursor dur op =
     [(''ph'', TvStr ''X''),
      (''name'', TvStr (case op_symbol op of Some x \<Rightarrow> x | None \<Rightarrow> op_name op)),
      (''pid'', TvInt 3), (''tid'', queue_lane q), (''ts'', TvF64 cursor), (''dur'', TvF64 dur),
      (''args'', TvObj [(''raw_name'', TvStr (op_name op)), (''symbol'', tv_opt TvStr (op_symbol op)),
                        (''count'', tv_u (op_count op))])]"

fun kernel_slices :: "u64 \<Rightarrow> f64 \<Rightarrow> f64 \<Rightarrow> op_sample list \<Rightarrow> trace_event list" where
  "kernel_slices q scale cursor [] = []"
| "kernel_slices q scale cursor (op # ops) =
     (let dur = f64_mul (us (op_gpu_ns op)) scale
      in kernel_slice q cursor dur op # kernel_slices q scale (f64_add cursor dur) ops)"

definition push_kernels :: "gpu_window \<Rightarrow> op_sample list \<Rightarrow> trace_event list" where
  "push_kernels w ops =
     (case w of (start, stop, q) \<Rightarrow>
        (let total_us = foldl f64_add 0 (map (\<lambda>op. us (op_gpu_ns op)) ops);
             window = max (f64_sub stop start) 0;
             scale = (if window < total_us \<and> 0 < total_us then f64_div window total_us else 1)
         in kernel_slices q scale start ops))"

section \<open>Command buffers\<close>

definition cb_args :: "u64 \<Rightarrow> u32 \<Rightarrow> i64 option \<Rightarrow> string option \<Rightarrow> trace_value" where
  "cb_args cb status err err_domain =
     TvObj [(''cb_id'', tv_u cb), (''status'', tv_u status),
            (''error_code'', tv_opt (\<lambda>e. TvInt (sint e)) err), (''error_domain'', tv_opt TvStr err_domain)]"

definition in_flight_mark ::
  "string \<Rightarrow> u64 \<Rightarrow> string \<Rightarrow> u64 \<Rightarrow> f64 \<Rightarrow> trace_value \<Rightarrow> trace_event" where
  "in_flight_mark ph async nm q ts args =
     [(''ph'', TvStr ph), (''cat'', TvStr ''in_flight''), (''id'', tv_u async), (''name'', TvStr nm),
      (''pid'', TvInt 2), (''tid'', queue_lane q), (''ts'', TvF64 ts), (''args'', args)]"

definition gpu_slice :: "string \<Rightarrow> u64 \<Rightarrow> f64 \<Rightarrow> f64 \<Rightarrow> trace_value \<Rightarrow> trace_event" where
  "gpu_slice nm q start stop args =
     [(''ph'', TvStr ''X''), (''name'', TvStr nm), (''pid'', TvInt 2), (''tid'', queue_lane q),
      (''ts'', TvF64 start), (''dur'', TvF64 (f64_sub stop start)), (''args'', args)]"

definition cb_completed ::
  "u64 \<Rightarrow> u32 \<Rightarrow> i64 option \<Rightarrow> string option \<Rightarrow> u64 \<Rightarrow> export_state \<Rightarrow> export_state" where
  "cb_completed cb status err err_domain in_flight_ns s =
     (case ex_open_cbs s cb of
        None \<Rightarrow> s
      | Some (t_commit, q, lbl, t_sched) \<Rightarrow>
          (let nm = (case lbl of Some l \<Rightarrow> l | None \<Rightarrow> ''cb_'' @ dec cb);
               args = cb_args cb status err err_domain;
               async = ex_async_id s + 1;
               in_flight_end = f64_add t_commit (us in_flight_ns);
               busy = (case ex_queue_busy_until s q of None \<Rightarrow> 0 | Some b \<Rightarrow> b);
               start = max (max (case t_sched of None \<Rightarrow> t_commit | Some t \<Rightarrow> t) t_commit) busy;
               stop = max in_flight_end start;
               window = (start, stop, q);
               s1 = push [in_flight_mark ''b'' async nm q t_commit args,
                          in_flight_mark ''e'' async nm q in_flight_end args,
                          gpu_slice nm q start stop args]
                      (s\<lparr>ex_open_cbs := (ex_open_cbs s)(cb := None), ex_async_id := async,
                         ex_queue_busy_until := (ex_queue_busy_until s)(q \<mapsto> stop)\<rparr>)
           in case ex_pending_ops s cb of
                Some ops \<Rightarrow>
                  push (push_kernels window ops) (s1\<lparr>ex_pending_ops := (ex_pending_ops s)(cb := None)\<rparr>)
              | None \<Rightarrow> s1\<lparr>ex_awaiting_ops := (ex_awaiting_ops s)(cb \<mapsto> window)\<rparr>))"

definition cb_ops_arrived :: "u64 \<Rightarrow> op_sample list \<Rightarrow> export_state \<Rightarrow> export_state" where
  "cb_ops_arrived cb ops s =
     (case ex_awaiting_ops s cb of
        Some window \<Rightarrow>
          push (push_kernels window ops) (s\<lparr>ex_awaiting_ops := (ex_awaiting_ops s)(cb := None)\<rparr>)
      | None \<Rightarrow>
          s\<lparr>ex_pending_ops := (ex_pending_ops s)(cb \<mapsto>
             (case ex_pending_ops s cb of None \<Rightarrow> [] | Some old \<Rightarrow> old) @ ops)\<rparr>)"

section \<open>Modules, marks and counters\<close>

definition module_slice :: "u64 \<Rightarrow> f64 \<Rightarrow> open_module \<Rightarrow> trace_event" where
  "module_slice call ts m =
     (case m of (t_enter, qualname, class_nm, depth, fs) \<Rightarrow>
        [(''ph'', TvStr ''X''), (''name'', TvStr qualname), (''pid'', TvInt 1), (''tid'', tv_u depth),
         (''ts'', TvF64 t_enter), (''dur'', TvF64 (f64_sub ts t_enter)),
         (''args'', TvObj (foldl (\<lambda>args (k, v). AList.update k (tv_field v) args)
            [(''class_name'', TvStr class_nm), (''module_call_id'', tv_u call)] fs))])"

definition instant :: "string \<Rightarrow> f64 \<Rightarrow> trace_event" where
  "instant nm ts =
     [(''ph'', TvStr ''i''), (''name'', TvStr nm), (''pid'', TvInt 1), (''tid'', TvInt 0),
      (''ts'', TvF64 ts), (''s'', TvStr ''g'')]"

definition counter :: "string \<Rightarrow> f64 \<Rightarrow> (string \<times> trace_value) list \<Rightarrow> trace_event" where
  "counter nm ts args =
     [(''ph'', TvStr ''C''), (''name'', TvStr nm), (''pid'', TvInt 0), (''ts'', TvF64 ts),
      (''args'', TvObj args)]"

definition finite_pct :: "string \<Rightarrow> u32 option \<Rightarrow> (string \<times> trace_value) list" where
  "finite_pct k p = (case p of Some b \<Rightarrow> if is_finite b then [(k, TvF32 b)] else [] | None \<Rightarrow> [])"

definition opt_counter :: "string \<Rightarrow> f64 \<Rightarrow> string \<Rightarrow> u32 option \<Rightarrow> trace_event list" where
  "opt_counter nm ts k v = (case v of Some x \<Rightarrow> [counter nm ts [(k, tv_u x)]] | None \<Rightarrow> [])"

definition io_counters ::
  "f64 \<Rightarrow> u32 option \<Rightarrow> u32 option \<Rightarrow> u32 option \<Rightarrow> u32 option \<Rightarrow> u32 option \<Rightarrow> trace_event list" where
  "io_counters ts gpu ane cpu pwr freq =
     (let util = finite_pct ''gpu'' gpu @ finite_pct ''ane'' ane @ finite_pct ''cpu'' cpu
      in (if util = [] then [] else [counter ''utilization_pct'' ts util]) @
         opt_counter ''gpu_power_mw'' ts ''mw'' pwr @ opt_counter ''gpu_freq_mhz'' ts ''mhz'' freq)"

section \<open>One event\<close>

fun instants :: "f64 \<Rightarrow> payload \<Rightarrow> trace_event list" where
  "instants ts (Mark lbl fs) =
     [instant lbl ts @ (if fs = [] then [] else [(''args'', TvObj (map (\<lambda>(k, v). (k, tv_field v)) fs))])]"
| "instants ts (SessionStarted _) = [instant ''session-started'' ts]"
| "instants ts (SessionEnded _ reason) = [instant (''session-ended ('' @ reason @ '')'') ts]"
| "instants ts _ = []"

fun counters :: "f64 \<Rightarrow> payload \<Rightarrow> trace_event list" where
  "counters ts (MetalDeviceMemSample allocated recommended _) =
     [counter ''gpu_memory'' ts
        [(''allocated_bytes'', tv_u allocated), (''budget_bytes'', tv_u recommended)]]"
| "counters ts (VmSample wired active compressed swap page_outs) =
     counter ''system_memory'' ts
       [(''wired_bytes'', tv_u wired), (''active_bytes'', tv_u active),
        (''compressed_bytes'', tv_u compressed), (''swap_used_bytes'', tv_u swap)] #
     (if is_finite page_outs then [counter ''vm_page_outs_per_sec'' ts [(''rate'', TvF32 page_outs)]] else [])"
| "counters ts (ThermalState level) = [counter ''thermal_level'' ts [(''level'', tv_u level)]]"
| "counters ts (IoReportSample gpu ane cpu pwr freq) = io_counters ts gpu ane cpu pwr freq"
| "counters ts _ = []"

fun note_model :: "u64 \<Rightarrow> payload \<Rightarrow> export_state \<Rightarrow> export_state" where
  "note_model ingest (ModelLoad path bytes t_start t_end sha8 framework) s =
     s\<lparr>ex_model_loads := ex_model_loads s @
         [\<lparr>me_path = path, me_size_bytes = bytes, me_ingest = ingest,
           me_dur = sat_sub t_end t_start, me_sha8 = sha8, me_framework = framework\<rparr>]\<rparr>"
| "note_model ingest (ModelUnload path _ sha8 _ _ _ _) s =
     s\<lparr>ex_model_unloads := ex_model_unloads s @ [(path, ingest, sha8)]\<rparr>"
| "note_model ingest _ s = s"

definition export_step :: "export_state \<Rightarrow> event \<Rightarrow> export_state" where
  "export_step s ev =
     (let ts = us (ts_mono_ns ev) in
      case payload ev of
        ModuleEntered call _ qualname class_nm _ depth fs \<Rightarrow>
          s\<lparr>ex_open_modules := (ex_open_modules s)(call \<mapsto> (ts, qualname, class_nm, depth, fs))\<rparr>
      | ModuleReturned call \<Rightarrow>
          (case ex_open_modules s call of
             None \<Rightarrow> s
           | Some m \<Rightarrow> push [module_slice call ts m]
                        (s\<lparr>ex_open_modules := (ex_open_modules s)(call := None)\<rparr>))
      | MetalCbCommitted cb q _ lbl \<Rightarrow>
          s\<lparr>ex_open_cbs := (ex_open_cbs s)(cb \<mapsto> (ts, q, lbl, None))\<rparr>
      | MetalCbScheduled cb _ \<Rightarrow>
          (case ex_open_cbs s cb of
             None \<Rightarrow> s
           | Some (t_commit, q, lbl, _) \<Rightarrow>
               s\<lparr>ex_open_cbs := (ex_open_cbs s)(cb \<mapsto> (t_commit, q, lbl, Some ts))\<rparr>)
      | MetalCbCompleted cb _ status err err_domain in_flight \<Rightarrow>
          cb_completed cb status err err_domain in_flight s
      | MetalCbOps cb ops \<Rightarrow> cb_ops_arrived cb ops s
      | p \<Rightarrow> push (instants ts p @ counters ts p) (note_model (ts_mono_ns ev) p s))"

section \<open>After the last event\<close>

definition opt_member :: "string \<Rightarrow> string option \<Rightarrow> (string \<times> trace_value) list" where
  "opt_member k v = (case v of Some x \<Rightarrow> [(k, TvStr x)] | None \<Rightarrow> [])"

definition unload_mark :: "string \<times> u64 \<times> string option \<Rightarrow> trace_event" where
  "unload_mark u =
     (case u of (path, ingest, sha8) \<Rightarrow>
        [(''ph'', TvStr ''i''), (''name'', TvStr (''unload:'' @ basename path)),
         (''cat'', TvStr ''model-unload''), (''pid'', TvInt 4), (''tid'', TvInt 0),
         (''ts'', TvF64 (us ingest)), (''args'', TvObj ((''path'', TvStr path) # opt_member ''sha8'' sha8)),
         (''s'', TvStr ''p'')])"

definition load_slice :: "model_load_entry \<Rightarrow> trace_event" where
  "load_slice m =
     (let start = sat_sub (me_ingest m) (me_dur m)
      in [(''ph'', TvStr ''X''), (''name'', TvStr (basename (me_path m))), (''cat'', TvStr ''model-load''),
          (''pid'', TvInt 4), (''tid'', TvInt 0), (''ts'', TvF64 (us start)),
          (''dur'', TvF64 (us (me_ingest m - start))),
          (''args'', TvObj ([(''path'', TvStr (me_path m)), (''size_bytes'', tv_u (me_size_bytes m))] @
             opt_member ''sha8'' (me_sha8 m) @ opt_member ''framework'' (me_framework m)))])"

definition load_counter ::
  "(string \<rightharpoonup> string \<times> u64) \<times> trace_event list \<Rightarrow> model_load_entry \<Rightarrow>
   (string \<rightharpoonup> string \<times> u64) \<times> trace_event list" where
  "load_counter st m =
     (let key = (case me_sha8 m of Some x \<Rightarrow> x | None \<Rightarrow> me_path m);
          entry = (case fst st key of None \<Rightarrow> (basename (me_path m), 0) | Some e \<Rightarrow> e);
          total = snd entry + me_size_bytes m
      in ((fst st)(key \<mapsto> (fst entry, total)),
          snd st @ [counter (''model:'' @ fst entry) (us (me_ingest m)) [(''bytes'', tv_u total)]]))"

definition load_counters :: "model_load_entry list \<Rightarrow> trace_event list" where
  "load_counters loads = snd (foldl load_counter (Map.empty, []) (sort_key me_ingest loads))"

definition to_chrome_trace :: "event list \<Rightarrow> trace_event list" where
  "to_chrome_trace evs =
     (let s = foldl export_step export_init evs
      in ex_out s @ map unload_mark (ex_model_unloads s) @ map load_slice (ex_model_loads s) @
         load_counters (ex_model_loads s))"

end
