(* ===== verification/ExportFacts.thy ===== *)
theory ExportFacts
  imports Export StrOps
begin

text \<open>
  What the Chrome trace shows: on a queue's lane the GPU slices of its command buffers never
  overlap, and every sampled kernel is drawn once, on the lane of the queue its buffer was
  committed to, as long as a buffer's samples follow its completion.
\<close>

section \<open>Members of a trace event\<close>

definition on_lane :: "int \<Rightarrow> string \<Rightarrow> trace_event \<Rightarrow> bool" where
  "on_lane pid ph e \<longleftrightarrow> map_of e ''pid'' = Some (TvInt pid) \<and> map_of e ''ph'' = Some (TvStr ph)"

lemma dec_inject [simp]: "dec a = dec b \<longleftrightarrow> a = b" for a b :: u64
proof
  assume "dec a = dec b"
  then have "digits (unat a) = digits (unat b)" by (simp add: dec_def)
  then have "Some (unat a) = Some (unat b)" by (metis parse_digits_of)
  then show "a = b" by (simp add: word_unat_eq_iff)
qed simp

lemma queue_lane_inject [simp]: "queue_lane p = queue_lane q \<longleftrightarrow> p = q"
  by (simp add: queue_lane_def)

lemma lane_instant [simp]: "pid \<noteq> 1 \<Longrightarrow> \<not> on_lane pid ph (instant nm ts @ xs)"
  "pid \<noteq> 1 \<Longrightarrow> \<not> on_lane pid ph (instant nm ts)"
  by (simp_all add: on_lane_def instant_def)

lemma lane_counter [simp]: "pid \<noteq> 0 \<Longrightarrow> \<not> on_lane pid ph (counter nm ts args)"
  by (simp add: on_lane_def counter_def)

lemma lane_module [simp]: "pid \<noteq> 1 \<Longrightarrow> \<not> on_lane pid ph (module_slice c ts m)"
  by (simp add: on_lane_def module_slice_def split: prod.split)

lemma lane_process [simp]: "ph \<noteq> ''M'' \<Longrightarrow> \<not> on_lane pid ph (process_name p)"
  by (auto simp add: on_lane_def process_name_def)

lemma lane_unload [simp]: "pid \<noteq> 4 \<Longrightarrow> \<not> on_lane pid ph (unload_mark u)"
  by (simp add: on_lane_def unload_mark_def split: prod.split)

lemma lane_load [simp]: "pid \<noteq> 4 \<Longrightarrow> \<not> on_lane pid ph (load_slice m)"
  by (simp add: on_lane_def load_slice_def Let_def)

lemma lane_in_flight [simp]: "ph = ''X'' \<Longrightarrow> t \<in> {''b'', ''e''} \<Longrightarrow> \<not> on_lane pid ph (in_flight_mark t a nm q ts args)"
  by (auto simp add: on_lane_def in_flight_mark_def)

lemma lane_gpu [simp]: "on_lane pid ''X'' (gpu_slice nm q start stop args) \<longleftrightarrow> pid = 2"
  by (auto simp add: on_lane_def gpu_slice_def)

lemma lane_kernel [simp]: "on_lane pid ''X'' (kernel_slice q cursor dur op) \<longleftrightarrow> pid = 3"
  by (auto simp add: on_lane_def kernel_slice_def)

lemma lane_kernels:
  "e \<in> set (kernel_slices q scale cursor ops) \<Longrightarrow> on_lane pid ''X'' e \<longleftrightarrow> pid = 3"
  by (induction ops arbitrary: cursor) (auto simp: Let_def)

lemma lane_push_kernels: "e \<in> set (push_kernels w ops) \<Longrightarrow> on_lane pid ''X'' e \<longleftrightarrow> pid = 3"
  by (auto simp: push_kernels_def Let_def lane_kernels split: prod.splits)

lemma lane_io [simp]: "e \<in> set (io_counters ts gpu ane cpu pwr freq) \<Longrightarrow> pid \<noteq> 0 \<Longrightarrow> \<not> on_lane pid ph e"
  by (auto simp: io_counters_def opt_counter_def Let_def split: if_splits option.splits)

lemma lane_load_counter:
  "\<exists>c. snd (load_counter st m) = snd st @ [c] \<and> (pid \<noteq> 0 \<longrightarrow> \<not> on_lane pid ph c)"
  by (simp add: load_counter_def Let_def)

lemma lane_load_counters [simp]: "e \<in> set (load_counters ms) \<Longrightarrow> pid \<noteq> 0 \<Longrightarrow> \<not> on_lane pid ph e"
proof -
  have "e \<in> set (snd (foldl load_counter st ms)) \<Longrightarrow> pid \<noteq> 0 \<Longrightarrow> e \<in> set (snd st) \<or> \<not> on_lane pid ph e" for st ms
  proof (induction ms arbitrary: st)
    case (Cons m ms)
    from Cons.IH [of "load_counter st m"] Cons.prems lane_load_counter [of st m pid ph] show ?case by auto
  qed simp
  from this [of "(Map.empty, [])" "sort_key me_ingest ms"] show "e \<in> set (load_counters ms) \<Longrightarrow> pid \<noteq> 0 \<Longrightarrow> \<not> on_lane pid ph e"
    by (simp add: load_counters_def)
qed

section \<open>What a step adds\<close>

text \<open>The slices of a step: only those of command buffers are on the lanes of GPU and kernels.\<close>

definition is_cb_event :: "payload \<Rightarrow> bool" where
  "is_cb_event p \<longleftrightarrow>
     (case p of MetalCbCommitted _ _ _ _ \<Rightarrow> True | MetalCbScheduled _ _ \<Rightarrow> True
      | MetalCbCompleted _ _ _ _ _ _ \<Rightarrow> True | MetalCbOps _ _ \<Rightarrow> True | _ \<Rightarrow> False)"

lemma other_step:
  assumes "\<not> is_cb_event (payload ev)"
  obtains xs where "ex_out (export_step s ev) = ex_out s @ xs"
    and "\<And>e. e \<in> set xs \<Longrightarrow> \<not> on_lane 2 ''X'' e \<and> \<not> on_lane 3 ''X'' e"
    and "ex_open_cbs (export_step s ev) = ex_open_cbs s"
    and "ex_awaiting_ops (export_step s ev) = ex_awaiting_ops s"
    and "ex_pending_ops (export_step s ev) = ex_pending_ops s"
    and "ex_queue_busy_until (export_step s ev) = ex_queue_busy_until s"
proof -
  have "\<exists>xs. ex_out (export_step s ev) = ex_out s @ xs \<and>
      (\<forall>e \<in> set xs. \<not> on_lane 2 ''X'' e \<and> \<not> on_lane 3 ''X'' e) \<and>
      ex_open_cbs (export_step s ev) = ex_open_cbs s \<and>
      ex_awaiting_ops (export_step s ev) = ex_awaiting_ops s \<and>
      ex_pending_ops (export_step s ev) = ex_pending_ops s \<and>
      ex_queue_busy_until (export_step s ev) = ex_queue_busy_until s"
    using assms
    by (cases "payload ev") (auto simp: export_step_def is_cb_event_def push_def Let_def split: option.split)
  then show thesis using that by blast
qed

definition busy_until :: "export_state \<Rightarrow> u64 \<Rightarrow> f64" where
  "busy_until s q = (case ex_queue_busy_until s q of None \<Rightarrow> 0 | Some b \<Rightarrow> b)"

lemma completed_step:
  assumes "ex_open_cbs s cb = Some (t_commit, q, lbl, t_sched)"
  obtains nm async t_end start stop args where
    "ex_out (cb_completed cb status err err_domain in_flight s) =
      ex_out s @ [in_flight_mark ''b'' async nm q t_commit args, in_flight_mark ''e'' async nm q t_end args,
        gpu_slice nm q start stop args] @
      (case ex_pending_ops s cb of None \<Rightarrow> [] | Some ops \<Rightarrow> push_kernels (start, stop, q) ops)"
    and "busy_until s q \<le> start" and "start \<le> stop"
    and "ex_queue_busy_until (cb_completed cb status err err_domain in_flight s) = (ex_queue_busy_until s)(q \<mapsto> stop)"
    and "ex_open_cbs (cb_completed cb status err err_domain in_flight s) = (ex_open_cbs s)(cb := None)"
    and "ex_awaiting_ops (cb_completed cb status err err_domain in_flight s) =
      (case ex_pending_ops s cb of None \<Rightarrow> (ex_awaiting_ops s)(cb \<mapsto> (start, stop, q)) | Some _ \<Rightarrow> ex_awaiting_ops s)"
    and "ex_pending_ops (cb_completed cb status err err_domain in_flight s) = (ex_pending_ops s)(cb := None)"
proof -
  let ?start = "max (max (case t_sched of None \<Rightarrow> t_commit | Some t \<Rightarrow> t) t_commit) (busy_until s q)"
  let ?finish = "f64_add t_commit (us in_flight)"
  show ?thesis
    by (rule that [of "ex_async_id s + 1" "case lbl of Some l \<Rightarrow> l | None \<Rightarrow> ''cb_'' @ dec cb"
          "cb_args cb status err err_domain" ?finish ?start "max ?finish ?start"])
      (auto simp: cb_completed_def assms Let_def push_def busy_until_def split: option.split)
qed

section \<open>The lanes of the queues\<close>

type_synonym drawn_slice = "string \<times> f64 \<times> f64 \<times> trace_value"

definition draw_gpu :: "u64 \<Rightarrow> drawn_slice \<Rightarrow> trace_event" where
  "draw_gpu q w = (case w of (nm, start, stop, args) \<Rightarrow> gpu_slice nm q start stop args)"

definition one_after_another :: "drawn_slice list \<Rightarrow> bool" where
  "one_after_another ws \<longleftrightarrow>
     sorted_wrt (\<lambda>(_, _, stop, _) (_, start, _, _). stop \<le> start) ws \<and>
     (\<forall>(_, start, stop, _) \<in> set ws. start \<le> stop)"

definition on_gpu :: "u64 \<Rightarrow> trace_event \<Rightarrow> bool" where
  "on_gpu q e \<longleftrightarrow> on_lane 2 ''X'' e \<and> map_of e ''tid'' = Some (queue_lane q)"

lemma on_gpu_slice [simp]: "on_gpu q (gpu_slice nm p start stop args) \<longleftrightarrow> p = q"
  by (simp add: on_gpu_def) (auto simp: gpu_slice_def)

lemma off_gpu: "(\<And>e. e \<in> set xs \<Longrightarrow> \<not> on_lane 2 ''X'' e) \<Longrightarrow> filter (on_gpu q) xs = []"
  by (auto simp: on_gpu_def filter_empty_conv)

lemma off_gpu_kernels [simp]: "filter (on_gpu q) (push_kernels w ops) = []"
  by (rule off_gpu) (simp add: lane_push_kernels)

lemma off_gpu_rest [simp]:
  "filter (on_gpu q) (map unload_mark ul) = []" "filter (on_gpu q) (map load_slice ms) = []"
  "filter (on_gpu q) (load_counters ms) = []"
  by (rule off_gpu; auto)+

lemma off_gpu_mark [simp]: "t \<in> {''b'', ''e''} \<Longrightarrow> \<not> on_gpu q (in_flight_mark t a nm p ts args)"
  by (simp add: on_gpu_def)

definition lane_ok :: "u64 \<Rightarrow> export_state \<Rightarrow> bool" where
  "lane_ok q s \<longleftrightarrow>
     (\<exists>ws. filter (on_gpu q) (ex_out s) = map (draw_gpu q) ws \<and> one_after_another ws \<and>
        (\<forall>(_, _, stop, _) \<in> set ws. stop \<le> busy_until s q))"

lemma lane_ok_quiet:
  assumes "lane_ok q s" and "filter (on_gpu q) (ex_out s') = filter (on_gpu q) (ex_out s)"
    and "busy_until s' q = busy_until s q"
  shows "lane_ok q s'"
  using assms by (simp add: lane_ok_def)

lemma lane_ok_completed:
  assumes "lane_ok q s"
  shows "lane_ok q (cb_completed cb status err err_domain in_flight s)"
proof (cases "ex_open_cbs s cb")
  case None
  then show ?thesis using assms by (simp add: cb_completed_def)
next
  case (Some c)
  obtain t_commit p lbl t_sched where c: "c = (t_commit, p, lbl, t_sched)" by (cases c)
  let ?s = "cb_completed cb status err err_domain in_flight s"
  from Some c have opened: "ex_open_cbs s cb = Some (t_commit, p, lbl, t_sched)" by simp
  obtain nm async t_end start stop args where step:
    "ex_out ?s = ex_out s @ [in_flight_mark ''b'' async nm p t_commit args,
       in_flight_mark ''e'' async nm p t_end args, gpu_slice nm p start stop args] @
       (case ex_pending_ops s cb of None \<Rightarrow> [] | Some ops \<Rightarrow> push_kernels (start, stop, p) ops)"
    "busy_until s p \<le> start" "start \<le> stop" "ex_queue_busy_until ?s = (ex_queue_busy_until s)(p \<mapsto> stop)"
    by (rule completed_step [OF opened]) (blast intro: that)
  have out: "filter (on_gpu q) (ex_out ?s) =
      filter (on_gpu q) (ex_out s) @ (if p = q then [draw_gpu q (nm, start, stop, args)] else [])"
    by (simp add: step(1) draw_gpu_def split: option.split)
  from assms obtain ws where ws: "filter (on_gpu q) (ex_out s) = map (draw_gpu q) ws" "one_after_another ws"
    "\<forall>(_, _, stop, _) \<in> set ws. stop \<le> busy_until s q" by (auto simp: lane_ok_def)
  show ?thesis
  proof (cases "p = q")
    case True
    have "one_after_another (ws @ [(nm, start, stop, args)])"
      using ws(2,3) step(2,3) True by (fastforce simp: one_after_another_def sorted_wrt_append)
    moreover have "\<forall>(_, _, stop', _) \<in> set (ws @ [(nm, start, stop, args)]). stop' \<le> busy_until ?s q"
      using ws(3) step(2-4) True by (fastforce simp: busy_until_def)
    ultimately show ?thesis
      unfolding lane_ok_def using out ws(1) True by (intro exI [of _ "ws @ [(nm, start, stop, args)]"]) simp
  next
    case False
    show ?thesis
      by (rule lane_ok_quiet [OF assms]) (use False out step(4) in \<open>simp_all add: busy_until_def\<close>)
  qed
qed

lemma lane_ok_step: "lane_ok q s \<Longrightarrow> lane_ok q (export_step s ev)"
proof (cases "is_cb_event (payload ev)")
  case False
  assume ok: "lane_ok q s"
  obtain xs where xs: "ex_out (export_step s ev) = ex_out s @ xs"
    "\<And>e. e \<in> set xs \<Longrightarrow> \<not> on_lane 2 ''X'' e \<and> \<not> on_lane 3 ''X'' e"
    "ex_queue_busy_until (export_step s ev) = ex_queue_busy_until s"
    by (rule other_step [OF False, of s]) (blast intro: that)
  show ?thesis
    by (rule lane_ok_quiet [OF ok]) (use xs in \<open>simp_all add: off_gpu busy_until_def\<close>)
next
  case True
  assume ok: "lane_ok q s"
  with True lane_ok_completed [OF ok] show ?thesis
    by (cases "payload ev")
      (auto simp: is_cb_event_def export_step_def Let_def cb_ops_arrived_def push_def busy_until_def
        intro!: lane_ok_quiet [OF ok] split: option.split)
qed

text \<open>
  C36. On the lane of every queue, the GPU slices of the trace come one after the other: a slice
  ends no earlier than it starts, and no later than any slice drawn after it starts, whatever the
  events and their stamps.
\<close>

theorem gpu_slices_disjoint:
  "\<exists>ws. filter (on_gpu q) (to_chrome_trace evs) = map (draw_gpu q) ws \<and> one_after_another ws"
proof -
  have "lane_ok q s \<Longrightarrow> lane_ok q (foldl export_step s evs)" for s
    by (induction evs arbitrary: s) (simp_all add: lane_ok_step)
  moreover have "lane_ok q export_init"
    unfolding lane_ok_def
    by (rule exI [of _ "[]"]) (auto simp: one_after_another_def export_init_def intro!: off_gpu)
  ultimately have "lane_ok q (foldl export_step export_init evs)" by blast
  then show ?thesis
    by (auto simp: lane_ok_def to_chrome_trace_def Let_def off_gpu)
qed

section \<open>Kernels on the lane of their queue\<close>

definition kernel_mark :: "u64 \<Rightarrow> op_sample \<Rightarrow> trace_value option \<times> trace_value option" where
  "kernel_mark q op =
     (Some (queue_lane q),
      Some (TvObj [(''raw_name'', TvStr (op_name op)), (''symbol'', tv_opt TvStr (op_symbol op)),
                   (''count'', tv_u (op_count op))]))"

text \<open>The kernels a trace draws: the lane of each, and which sample it shows.\<close>

definition drawn_kernels :: "trace_event list \<Rightarrow> (trace_value option \<times> trace_value option) list" where
  "drawn_kernels tr = map (\<lambda>e. (map_of e ''tid'', map_of e ''args'')) (filter (on_lane 3 ''X'') tr)"

lemma drawn_append [simp]: "drawn_kernels (a @ b) = drawn_kernels a @ drawn_kernels b"
  by (simp add: drawn_kernels_def)

lemma drawn_none: "(\<And>e. e \<in> set xs \<Longrightarrow> \<not> on_lane 3 ''X'' e) \<Longrightarrow> drawn_kernels xs = []"
  by (auto simp: drawn_kernels_def filter_empty_conv)

lemma drawn_slices: "drawn_kernels (kernel_slices q scale cursor ops) = map (kernel_mark q) ops"
proof (induction ops arbitrary: cursor)
  case Nil
  then show ?case by (simp add: drawn_kernels_def)
next
  case (Cons op ops)
  have "drawn_kernels (kernel_slice q cursor d op # es) = kernel_mark q op # drawn_kernels es" for d es
    by (simp add: drawn_kernels_def) (simp add: kernel_slice_def kernel_mark_def)
  with Cons show ?case by (simp add: Let_def)
qed

lemma drawn_push [simp]: "drawn_kernels (push_kernels (start, stop, q) ops) = map (kernel_mark q) ops"
  by (simp add: push_kernels_def Let_def drawn_slices)

lemma drawn_Nil [simp]: "drawn_kernels [] = []"
  by (simp add: drawn_kernels_def)

lemma drawn_init [simp]: "drawn_kernels (ex_out export_init) = []"
  by (auto simp: drawn_kernels_def filter_empty_conv export_init_def)

lemma drawn_off [simp]: "\<not> on_lane 3 ''X'' e \<Longrightarrow> drawn_kernels (e # es) = drawn_kernels es"
  by (simp add: drawn_kernels_def)

lemma drawn_trace: "drawn_kernels (to_chrome_trace evs) = drawn_kernels (ex_out (foldl export_step export_init evs))"
proof -
  have "drawn_kernels (map unload_mark ul) = []" "drawn_kernels (map load_slice ms) = []"
    "drawn_kernels (load_counters ms) = []" for ul ms
    by (rule drawn_none; auto)+
  then show ?thesis by (simp add: to_chrome_trace_def Let_def)
qed

text \<open>Where a command buffer is: committed to a queue, or completed with its samples still due.\<close>

datatype cb_phase = CbOpen u64 | CbDone u64

definition phase_step :: "(u64 \<rightharpoonup> cb_phase) \<Rightarrow> event \<Rightarrow> (u64 \<rightharpoonup> cb_phase)" where
  "phase_step ph ev =
     (case payload ev of
        MetalCbCommitted cb q _ _ \<Rightarrow> ph(cb \<mapsto> CbOpen q)
      | MetalCbCompleted cb _ _ _ _ _ \<Rightarrow>
          (case ph cb of Some (CbOpen q) \<Rightarrow> ph(cb \<mapsto> CbDone q) | _ \<Rightarrow> ph)
      | MetalCbOps cb _ \<Rightarrow> ph(cb := None)
      | _ \<Rightarrow> ph)"

definition samples_due :: "(u64 \<rightharpoonup> cb_phase) \<Rightarrow> event \<Rightarrow> bool" where
  "samples_due ph ev =
     (case payload ev of
        MetalCbOps cb _ \<Rightarrow> (case ph cb of Some (CbDone _) \<Rightarrow> True | _ \<Rightarrow> False)
      | _ \<Rightarrow> True)"

fun samples_follow :: "(u64 \<rightharpoonup> cb_phase) \<Rightarrow> event list \<Rightarrow> bool" where
  "samples_follow ph [] = True"
| "samples_follow ph (ev # evs) = (samples_due ph ev \<and> samples_follow (phase_step ph ev) evs)"

definition sampled :: "(u64 \<rightharpoonup> cb_phase) \<Rightarrow> event \<Rightarrow> (trace_value option \<times> trace_value option) list" where
  "sampled ph ev =
     (case payload ev of
        MetalCbOps cb ops \<Rightarrow> (case ph cb of Some (CbDone q) \<Rightarrow> map (kernel_mark q) ops | _ \<Rightarrow> [])
      | _ \<Rightarrow> [])"

fun sampled_kernels where
  "sampled_kernels ph [] = []"
| "sampled_kernels ph (ev # evs) = sampled ph ev @ sampled_kernels (phase_step ph ev) evs"

fun placed :: "cb_phase option \<Rightarrow> open_cb option \<Rightarrow> gpu_window option \<Rightarrow> bool" where
  "placed None opened awaiting \<longleftrightarrow> opened = None"
| "placed (Some (CbOpen q)) opened awaiting \<longleftrightarrow> (\<exists>t lbl ts. opened = Some (t, q, lbl, ts))"
| "placed (Some (CbDone q)) opened awaiting \<longleftrightarrow> opened = None \<and> (\<exists>a b. awaiting = Some (a, b, q))"

definition in_sync :: "(u64 \<rightharpoonup> cb_phase) \<Rightarrow> export_state \<Rightarrow> bool" where
  "in_sync ph s \<longleftrightarrow>
     ex_pending_ops s = Map.empty \<and> (\<forall>cb. placed (ph cb) (ex_open_cbs s cb) (ex_awaiting_ops s cb))"

lemma in_syncD:
  assumes "in_sync ph s"
  shows "ex_pending_ops s = Map.empty" and "placed (ph cb) (ex_open_cbs s cb) (ex_awaiting_ops s cb)"
  using assms by (simp_all add: in_sync_def)

lemma placed_reschedule:
  "placed p (Some (t, q, lbl, ts)) awaiting \<Longrightarrow> placed p (Some (t, q, lbl, ts')) awaiting"
  by (induction p "Some (t, q, lbl, ts)" awaiting rule: placed.induct) simp_all

lemma in_sync_init: "in_sync Map.empty export_init"
  by (simp add: in_sync_def export_init_def)

lemma committed_in_step:
  assumes ev: "payload ev = MetalCbCommitted cb q n lbl" and s: "in_sync ph s"
  shows "in_sync (phase_step ph ev) (export_step s ev) \<and>
    drawn_kernels (ex_out (export_step s ev)) = drawn_kernels (ex_out s) @ sampled ph ev"
  using s by (simp add: in_sync_def phase_step_def export_step_def sampled_def ev Let_def)

lemma scheduled_in_step:
  assumes ev: "payload ev = MetalCbScheduled cb n" and s: "in_sync ph s"
  shows "in_sync (phase_step ph ev) (export_step s ev) \<and>
    drawn_kernels (ex_out (export_step s ev)) = drawn_kernels (ex_out s) @ sampled ph ev"
proof (cases "ex_open_cbs s cb")
  case None
  with s show ?thesis by (simp add: phase_step_def export_step_def sampled_def ev Let_def)
next
  case (Some c)
  obtain t q lbl ts where c: "c = (t, q, lbl, ts)" by (cases c)
  have "placed (ph cb) (Some (t, q, lbl, Some ts')) (ex_awaiting_ops s cb)" for ts'
    using in_syncD(2) [OF s, of cb] unfolding Some c by (rule placed_reschedule)
  with s Some c show ?thesis
    by (simp add: in_sync_def phase_step_def export_step_def sampled_def ev Let_def)
qed

lemma completed_in_step:
  assumes ev: "payload ev = MetalCbCompleted cb n status err err_domain in_flight" and s: "in_sync ph s"
  shows "in_sync (phase_step ph ev) (export_step s ev) \<and>
    drawn_kernels (ex_out (export_step s ev)) = drawn_kernels (ex_out s) @ sampled ph ev"
proof (cases "\<exists>q. ph cb = Some (CbOpen q)")
  case True
  then obtain q where q: "ph cb = Some (CbOpen q)" by blast
  with in_syncD(2) [OF s, of cb] obtain t lbl ts where "ex_open_cbs s cb = Some (t, q, lbl, ts)" by auto
  then show ?thesis
    by (rule completed_step [where status = status and err = err and err_domain = err_domain and in_flight = in_flight])
      (use s q in_syncD(1) [OF s] in
        \<open>simp add: in_sync_def phase_step_def export_step_def sampled_def ev Let_def\<close>)
next
  case False
  then have "ph cb = None \<or> (\<exists>q. ph cb = Some (CbDone q))"
    by (metis cb_phase.exhaust option.exhaust)
  with in_syncD(2) [OF s, of cb] have "ex_open_cbs s cb = None" by auto
  moreover have "phase_step ph ev = ph"
    using False by (simp add: phase_step_def ev split: option.split cb_phase.split)
  ultimately show ?thesis
    using s by (simp add: export_step_def cb_completed_def sampled_def ev Let_def)
qed

lemma ops_in_step:
  assumes ev: "payload ev = MetalCbOps cb ops" and s: "in_sync ph s" and due: "samples_due ph ev"
  shows "in_sync (phase_step ph ev) (export_step s ev) \<and>
    drawn_kernels (ex_out (export_step s ev)) = drawn_kernels (ex_out s) @ sampled ph ev"
proof -
  from due obtain q where q: "ph cb = Some (CbDone q)"
    by (auto simp: samples_due_def ev split: option.splits cb_phase.splits)
  with in_syncD(2) [OF s, of cb] obtain a b where "ex_awaiting_ops s cb = Some (a, b, q)" "ex_open_cbs s cb = None" by auto
  with s q show ?thesis
    by (simp add: in_sync_def phase_step_def export_step_def cb_ops_arrived_def push_def sampled_def ev Let_def)
qed

lemma keeps_in_step:
  assumes "in_sync ph s" and "samples_due ph ev"
  shows "in_sync (phase_step ph ev) (export_step s ev) \<and>
    drawn_kernels (ex_out (export_step s ev)) = drawn_kernels (ex_out s) @ sampled ph ev"
proof (cases "is_cb_event (payload ev)")
  case True
  with assms show ?thesis
    using committed_in_step scheduled_in_step completed_in_step ops_in_step
    by (cases "payload ev") (simp_all add: is_cb_event_def)
next
  case False
  then have same: "phase_step ph ev = ph" "sampled ph ev = []"
    by (cases "payload ev"; simp add: is_cb_event_def phase_step_def sampled_def)+
  show ?thesis unfolding same
    by (rule other_step [OF False, of s]) (use assms(1) in \<open>simp add: in_sync_def drawn_none\<close>)
qed

text \<open>
  C37. As long as the samples of a command buffer arrive after its completion and at most once per
  commit, every sampled kernel is drawn exactly once and in order, on the lane of the queue the
  buffer was last committed to, however often the identifiers of buffers are used again.
\<close>

theorem kernels_follow_their_buffer:
  assumes "samples_follow Map.empty evs"
  shows "drawn_kernels (to_chrome_trace evs) = sampled_kernels Map.empty evs"
proof -
  have "in_sync ph s \<Longrightarrow> samples_follow ph evs \<Longrightarrow>
      drawn_kernels (ex_out (foldl export_step s evs)) = drawn_kernels (ex_out s) @ sampled_kernels ph evs" for ph s
  proof (induction evs arbitrary: ph s)
    case (Cons ev evs)
    then have due: "samples_due ph ev" "samples_follow (phase_step ph ev) evs" by simp_all
    from keeps_in_step [OF Cons.prems(1) due(1)] due(2) Cons.IH [of "phase_step ph ev" "export_step s ev"]
    show ?case by simp
  qed simp
  from this [OF in_sync_init assms] show ?thesis
    by (simp add: drawn_trace)
qed

text \<open>
  One use of an identifier: committed to a queue, completed, sampled.  The events may carry any
  stamps; only their payloads are fixed.
\<close>

definition buffer_use :: "u64 \<Rightarrow> event \<times> event \<times> event \<times> u64 \<times> op_sample list \<Rightarrow> event list" where
  "buffer_use cb u =
     (case u of (e1, e2, e3, q, ops) \<Rightarrow>
        [e1\<lparr>payload := MetalCbCommitted cb q 1 None\<rparr>,
         e2\<lparr>payload := MetalCbCompleted cb 0 4 None None 1000\<rparr>,
         e3\<lparr>payload := MetalCbOps cb ops\<rparr>])"

definition sample_of :: "string \<Rightarrow> op_sample" where
  "sample_of nm = \<lparr>op_name = nm, op_symbol = None, op_gpu_ns = 5, op_count = 1, op_apportioned_ns = None\<rparr>"

definition blank_event :: event where
  "blank_event = \<lparr>ts_mono_ns = 0, ts_wall_ns = 0, ev_session_id = 0, ev_source = MetalHook, ev_pid = None,
     ev_seq = 0, payload = ModuleReturned 0\<rparr>"

lemma kernels_follow_their_buffer_witness:
  "drawn_kernels (to_chrome_trace (concat (map (buffer_use 7)
     [(blank_event, blank_event, blank_event, 1, [sample_of ''gemm'']),
      (blank_event, blank_event, blank_event, 2, [sample_of ''softmax''])]))) =
   [kernel_mark 1 (sample_of ''gemm''), kernel_mark 2 (sample_of ''softmax'')]"
  (is "drawn_kernels (to_chrome_trace ?evs) = _")
proof -
  have "samples_follow Map.empty ?evs"
    by (simp add: buffer_use_def samples_due_def phase_step_def)
  from kernels_follow_their_buffer [OF this] show ?thesis
    by (simp add: buffer_use_def sampled_def phase_step_def)
qed

section \<open>Samples without a commit\<close>

lemma buffer_use_shifts:
  assumes "ex_pending_ops s cb = Some prev" and "ex_awaiting_ops s cb = None"
  obtains s' where "foldl export_step s (buffer_use cb (e1, e2, e3, q, ops)) = s'"
    and "drawn_kernels (ex_out s') = drawn_kernels (ex_out s) @ map (kernel_mark q) prev"
    and "ex_pending_ops s' cb = Some ops" and "ex_awaiting_ops s' cb = None"
proof -
  define s1 where "s1 = export_step s (e1\<lparr>payload := MetalCbCommitted cb q 1 None\<rparr>)"
  define s2 where "s2 = export_step s1 (e2\<lparr>payload := MetalCbCompleted cb 0 4 None None 1000\<rparr>)"
  define s3 where "s3 = export_step s2 (e3\<lparr>payload := MetalCbOps cb ops\<rparr>)"
  have s1: "ex_open_cbs s1 cb = Some (us (ts_mono_ns e1), q, None, None)" "ex_out s1 = ex_out s"
    "ex_pending_ops s1 = ex_pending_ops s" "ex_awaiting_ops s1 = ex_awaiting_ops s"
    by (simp_all add: s1_def export_step_def Let_def)
  have s2: "s2 = cb_completed cb 4 None None 1000 s1"
    by (simp add: s2_def export_step_def Let_def)
  have "drawn_kernels (ex_out s2) = drawn_kernels (ex_out s) @ map (kernel_mark q) prev \<and>
      ex_pending_ops s2 cb = None \<and> ex_awaiting_ops s2 cb = None"
    by (rule completed_step [OF s1(1), where status = 4 and err = None and err_domain = None and in_flight = 1000])
      (use assms in \<open>simp add: s2 s1(2-4)\<close>)
  then have "drawn_kernels (ex_out s3) = drawn_kernels (ex_out s) @ map (kernel_mark q) prev"
    "ex_pending_ops s3 cb = Some ops" "ex_awaiting_ops s3 cb = None"
    by (simp_all add: s3_def export_step_def cb_ops_arrived_def Let_def)
  then show thesis
    by (intro that [of s3]) (simp_all add: buffer_use_def s1_def s2_def s3_def)
qed

fun use_ops :: "event \<times> event \<times> event \<times> u64 \<times> op_sample list \<Rightarrow> op_sample list" where
  "use_ops (e1, e2, e3, q, ops) = ops"

fun use_queue :: "event \<times> event \<times> event \<times> u64 \<times> op_sample list \<Rightarrow> u64" where
  "use_queue (e1, e2, e3, q, ops) = q"

definition drawn_for :: "op_sample list list \<Rightarrow> u64 list \<Rightarrow> (trace_value option \<times> trace_value option) list" where
  "drawn_for opss qs = concat (map2 (\<lambda>ops q. map (kernel_mark q) ops) opss qs)"

lemma shifted_uses:
  assumes "ex_pending_ops s cb = Some prev" and "ex_awaiting_ops s cb = None"
  shows "drawn_kernels (ex_out (foldl export_step s (concat (map (buffer_use cb) uses)))) =
    drawn_kernels (ex_out s) @ drawn_for (prev # map use_ops uses) (map use_queue uses)"
  using assms
proof (induction uses arbitrary: s prev)
  case Nil
  then show ?case by (simp add: drawn_for_def)
next
  case (Cons u uses)
  obtain e1 e2 e3 q ops where u: "u = (e1, e2, e3, q, ops)" by (cases u)
  from Cons.prems obtain s' where s': "foldl export_step s (buffer_use cb u) = s'"
    "drawn_kernels (ex_out s') = drawn_kernels (ex_out s) @ map (kernel_mark q) prev"
    "ex_pending_ops s' cb = Some ops" "ex_awaiting_ops s' cb = None"
    unfolding u by (rule buffer_use_shifts)
  from Cons.IH [OF s'(3,4)] show ?case
    by (simp add: s'(1) [unfolded u] s'(2) u drawn_for_def)
qed

text \<open>
  C38. When the recording starts while a command buffer is in flight, so that only its completion
  and its samples are seen, these samples are kept, and from then on every use of its identifier
  draws the kernels of the use before it: the first one those of the buffer never committed, and
  the last samples are not drawn at all.
\<close>

theorem stray_samples_shift_kernels:
  "drawn_kernels (to_chrome_trace
     (e\<lparr>payload := MetalCbCompleted cb n status err err_domain in_flight\<rparr> #
      e'\<lparr>payload := MetalCbOps cb stray\<rparr> # concat (map (buffer_use cb) uses))) =
   drawn_for (stray # map use_ops uses) (map use_queue uses)"
proof -
  define s where "s = foldl export_step export_init
    [e\<lparr>payload := MetalCbCompleted cb n status err err_domain in_flight\<rparr>, e'\<lparr>payload := MetalCbOps cb stray\<rparr>]"
  have "ex_pending_ops s cb = Some stray" "ex_awaiting_ops s cb = None" "ex_out s = ex_out export_init"
    by (simp_all add: s_def export_step_def cb_completed_def cb_ops_arrived_def export_init_def Let_def)
  then show ?thesis
    using shifted_uses [of s cb stray uses]
    by (simp add: drawn_trace s_def)
qed

end
