(* ===== verification/SessionCache.thy ===== *)
theory SessionCache
  imports SessionReader
begin

text \<open>
  The cache of the last decoded session, \<open>crates/smeltr-mcp/src/session_cache.rs\<close>.  A call of
  \<open>checked\<close> or \<open>peek\<close> goes through the phases below, one per access to the disk or to the
  cache; calls interleave, and the disk changes between any two steps.  The lock is never
  poisoned: nothing panics while it is held.
\<close>

section \<open>The session on disk\<close>

text \<open>
  The events file that \<open>events_path_for_read\<close> picks, with its extension, and the metadata file,
  with what \<open>read_metadata\<close> makes of it.
\<close>

record events_file =
  ef_len :: u64
  ef_mtime :: nat
  ef_zst :: bool
  ef_bytes :: bytes

record meta_file =
  mf_len :: u64
  mf_mtime :: nat
  mf_meta :: "read_meta option"

record session_files =
  sf_events :: "events_file option"
  sf_meta :: "meta_file option"

definition events_stat :: "session_files \<Rightarrow> (u64 \<times> nat) option" where
  "events_stat f = map_option (\<lambda>e. (ef_len e, ef_mtime e)) (sf_events f)"

definition meta_stat :: "session_files \<Rightarrow> (u64 \<times> nat) option" where
  "meta_stat f = map_option (\<lambda>m. (mf_len m, mf_mtime m)) (sf_meta f)"

datatype checked_error = EventsFileUnreadable | SessionUnreadable read_error

type_synonym checked = "checked_error + event list \<times> problem list"

text \<open>\<open>read_events_checked\<close> reads the events file first, the metadata last.\<close>

definition decode_events ::
  "stream_codecs \<Rightarrow> events_file option \<Rightarrow> meta_file option \<Rightarrow> checked" where
  "decode_events sc ef mf =
     (case ef of
        None \<Rightarrow> Inl EventsFileUnreadable
      | Some e \<Rightarrow>
          (case read_events_checked sc (ef_zst e) (ef_bytes e) (Option.bind mf mf_meta) of
             Inl err \<Rightarrow> Inl (SessionUnreadable err)
           | Inr r \<Rightarrow> Inr r))"

section \<open>The cache\<close>

definition IDLE_TTL :: nat where "IDLE_TTL = 60 * 10 ^ 9"

record cache_key =
  ck_dir :: string
  ck_len :: u64
  ck_mtime :: nat
  ck_meta :: "(u64 \<times> nat) option"

record cache_entry =
  en_key :: cache_key
  en_events :: "event list"
  en_damage :: "problem list"
  en_last_used :: nat

type_synonym cache = "cache_entry option"

definition cache_hit :: "cache_key \<Rightarrow> cache \<Rightarrow> cache_entry option" where
  "cache_hit k slot = (case slot of Some e \<Rightarrow> if en_key e = k then Some e else None | None \<Rightarrow> None)"

definition evict_idle :: "nat \<Rightarrow> nat \<Rightarrow> cache \<Rightarrow> cache" where
  "evict_idle now ttl slot =
     (case slot of
        Some e \<Rightarrow> if ttl \<le> now - en_last_used e then None else slot
      | None \<Rightarrow> None)"

section \<open>One call\<close>

datatype phase =
  StatEvents
| StatMeta u64 nat
| Lookup cache_key
| ReadEvents "cache_key option"
| ReadMeta "cache_key option" "events_file option"
| Store cache_key "event list" "problem list"
| Answered checked
| NotCached

record cache_call =
  cl_dir :: string
  cl_peek :: bool
  cl_since :: nat
  cl_phase :: phase

definition after_stat :: "bool \<Rightarrow> phase" where
  "after_stat peek = (if peek then NotCached else ReadEvents None)"

definition after_decode :: "cache_key option \<Rightarrow> checked \<Rightarrow> phase" where
  "after_decode k r =
     (case r of
        Inl e \<Rightarrow> Answered (Inl e)
      | Inr (events, damage) \<Rightarrow>
          (case k of None \<Rightarrow> Answered (Inr (events, damage)) | Some key \<Rightarrow> Store key events damage))"

definition call_step ::
  "stream_codecs \<Rightarrow> nat \<Rightarrow> session_files \<Rightarrow> cache \<Rightarrow> cache_call \<Rightarrow> cache \<times> phase" where
  "call_step sc now files slot c =
     (case cl_phase c of
        StatEvents \<Rightarrow>
          (slot, case events_stat files of
             None \<Rightarrow> after_stat (cl_peek c) | Some (len, mtime) \<Rightarrow> StatMeta len mtime)
      | StatMeta len mtime \<Rightarrow>
          (slot, Lookup \<lparr>ck_dir = cl_dir c, ck_len = len, ck_mtime = mtime, ck_meta = meta_stat files\<rparr>)
      | Lookup k \<Rightarrow>
          (case cache_hit k slot of
             Some e \<Rightarrow> (Some (e\<lparr>en_last_used := now\<rparr>), Answered (Inr (en_events e, en_damage e)))
           | None \<Rightarrow> if cl_peek c then (slot, NotCached) else (None, ReadEvents (Some k)))
      | ReadEvents k \<Rightarrow> (slot, ReadMeta k (sf_events files))
      | ReadMeta k ef \<Rightarrow> (slot, after_decode k (decode_events sc ef (sf_meta files)))
      | Store k events damage \<Rightarrow>
          (Some \<lparr>en_key = k, en_events = events, en_damage = damage, en_last_used = now\<rparr>,
           Answered (Inr (events, damage)))
      | Answered r \<Rightarrow> (slot, Answered r)
      | NotCached \<Rightarrow> (slot, NotCached))"

section \<open>Calls interleaved\<close>

datatype cache_action = Begin nat string bool | Advance nat | Evict nat

record cache_system =
  cs_cache :: cache
  cs_calls :: "nat \<rightharpoonup> cache_call"

definition cache_init :: cache_system where
  "cache_init = \<lparr>cs_cache = None, cs_calls = Map.empty\<rparr>"

text \<open>The disk at every instant is an argument: anything may write to it.\<close>

type_synonym disk_history = "nat \<Rightarrow> string \<Rightarrow> session_files"

definition cache_act ::
  "stream_codecs \<Rightarrow> disk_history \<Rightarrow> cache_system \<Rightarrow> nat \<times> cache_action \<Rightarrow> cache_system" where
  "cache_act sc H s ta =
     (case ta of (now, a) \<Rightarrow>
        (case a of
           Begin i dir peek \<Rightarrow>
             s\<lparr>cs_calls := (cs_calls s)(i \<mapsto>
               \<lparr>cl_dir = dir, cl_peek = peek, cl_since = now, cl_phase = StatEvents\<rparr>)\<rparr>
         | Advance i \<Rightarrow>
             (case cs_calls s i of
                None \<Rightarrow> s
              | Some c \<Rightarrow>
                  (case call_step sc now (H now (cl_dir c)) (cs_cache s) c of
                     (slot, p) \<Rightarrow> \<lparr>cs_cache = slot, cs_calls = (cs_calls s)(i \<mapsto> c\<lparr>cl_phase := p\<rparr>)\<rparr>))
         | Evict ttl \<Rightarrow> s\<lparr>cs_cache := evict_idle now ttl (cs_cache s)\<rparr>))"

definition cache_run ::
  "stream_codecs \<Rightarrow> disk_history \<Rightarrow> (nat \<times> cache_action) list \<Rightarrow> cache_system" where
  "cache_run sc H as = foldl (cache_act sc H) cache_init as"

section \<open>Visiting\<close>

text \<open>\<open>visit\<close> on the cached session: the callback says whether to stop.\<close>

fun walk_cached :: "event_filter option \<Rightarrow> 'u callback \<Rightarrow> event list \<Rightarrow> 'u \<Rightarrow> 'u" where
  "walk_cached flt f [] u = u"
| "walk_cached flt f (e # es) u =
     (if (case flt of None \<Rightarrow> True | Some ft \<Rightarrow> filter_matches ft e) then
        (case f u e of (u', stop) \<Rightarrow> if stop then u' else walk_cached flt f es u')
      else walk_cached flt f es u)"

text \<open>
  The cache never answers with an outdated session: whatever the interleaving of calls and of
  writes to the disk, an answer is what reading the session would have given during the call.
\<close>

section \<open>Files whose change shows\<close>

text \<open>
  What the key relies on: a file whose size and modification time are again those of an earlier
  moment has not changed since.
\<close>

definition shows_changes :: "(nat \<Rightarrow> 's) \<Rightarrow> (nat \<Rightarrow> 'c) \<Rightarrow> bool" where
  "shows_changes stat content \<longleftrightarrow>
     (\<forall>t1 t2 t3. t1 \<le> t2 \<and> t2 \<le> t3 \<and> stat t1 = stat t3 \<longrightarrow> content t2 = content t3)"

definition honest_disk :: "disk_history \<Rightarrow> bool" where
  "honest_disk H \<longleftrightarrow>
     (\<forall>d. shows_changes (\<lambda>t. events_stat (H t d)) (\<lambda>t. sf_events (H t d)) \<and>
          shows_changes (\<lambda>t. meta_stat (H t d)) (\<lambda>t. sf_meta (H t d)))"

text \<open>
  A content read after its stat, and a later moment with the same stat: the content is that of
  some moment from then on, or the later of the two.
\<close>

lemma still_current:
  assumes "shows_changes stat content" and "a \<le> b" and "stat a = stat c" and "b \<le> now"
    and "lo \<le> c" and "c \<le> now"
  shows "\<exists>t. lo \<le> t \<and> t \<le> now \<and> content t = content b"
proof (cases "b \<le> c")
  case True
  with assms have "content b = content c" by (auto simp: shows_changes_def)
  with assms show ?thesis by (intro exI [of _ c]) simp
next
  case False
  with assms show ?thesis by (intro exI [of _ b]) simp
qed

section \<open>What is known at each phase\<close>

definition key_seen :: "disk_history \<Rightarrow> nat \<Rightarrow> nat \<Rightarrow> cache_key \<Rightarrow> bool" where
  "key_seen H lo hi k \<longleftrightarrow>
     (\<exists>a. lo \<le> a \<and> a \<le> hi \<and> events_stat (H a (ck_dir k)) = Some (ck_len k, ck_mtime k)) \<and>
     (\<exists>a. lo \<le> a \<and> a \<le> hi \<and> meta_stat (H a (ck_dir k)) = ck_meta k)"

definition answer_at :: "stream_codecs \<Rightarrow> disk_history \<Rightarrow> string \<Rightarrow> nat \<Rightarrow> nat \<Rightarrow> checked" where
  "answer_at sc H d t1 t2 = decode_events sc (sf_events (H t1 d)) (sf_meta (H t2 d))"

definition read_between :: "stream_codecs \<Rightarrow> disk_history \<Rightarrow> string \<Rightarrow> nat \<Rightarrow> nat \<Rightarrow> checked \<Rightarrow> bool" where
  "read_between sc H d lo hi r \<longleftrightarrow>
     (\<exists>t1 t2. lo \<le> t1 \<and> t1 \<le> hi \<and> lo \<le> t2 \<and> t2 \<le> hi \<and> r = answer_at sc H d t1 t2)"

definition stored_ok :: "stream_codecs \<Rightarrow> disk_history \<Rightarrow> nat \<Rightarrow> nat \<Rightarrow> cache_key \<Rightarrow> checked \<Rightarrow> bool" where
  "stored_ok sc H lo now k r \<longleftrightarrow>
     (\<exists>b1 b2. lo \<le> b1 \<and> b1 \<le> b2 \<and> b2 \<le> now \<and> key_seen H lo b1 k \<and> r = answer_at sc H (ck_dir k) b1 b2)"

lemma key_seenI:
  assumes "lo \<le> a" and "a \<le> now" and "events_stat (H a d) = Some (len, mtime)"
  shows "key_seen H lo now \<lparr>ck_dir = d, ck_len = len, ck_mtime = mtime, ck_meta = meta_stat (H now d)\<rparr>"
  unfolding key_seen_def
proof (intro conjI)
  show "\<exists>a'. lo \<le> a' \<and> a' \<le> now \<and> meta_stat (H a' (ck_dir \<lparr>ck_dir = d, ck_len = len, ck_mtime = mtime,
      ck_meta = meta_stat (H now d)\<rparr>)) = ck_meta \<lparr>ck_dir = d, ck_len = len, ck_mtime = mtime, ck_meta = meta_stat (H now d)\<rparr>"
    using assms by (intro exI [of _ now]) simp
qed (use assms in auto)

lemma key_seen_mono: "key_seen H lo hi k \<Longrightarrow> hi \<le> hi' \<Longrightarrow> key_seen H lo hi' k"
  unfolding key_seen_def by (meson order_trans)

lemma stored_ok_mono: "stored_ok sc H lo now k r \<Longrightarrow> now \<le> now' \<Longrightarrow> stored_ok sc H lo now' k r"
  unfolding stored_ok_def by (blast intro: order_trans)

lemma read_between_mono: "read_between sc H d lo hi r \<Longrightarrow> hi \<le> hi' \<Longrightarrow> read_between sc H d lo hi' r"
  unfolding read_between_def by (blast intro: order_trans)

lemma stored_is_read: "stored_ok sc H lo now k r \<Longrightarrow> read_between sc H (ck_dir k) lo now r"
  unfolding stored_ok_def read_between_def by (blast intro: order_trans)

text \<open>The entry of an earlier call answers a later one that saw its key.\<close>

lemma hit_is_current:
  assumes "honest_disk H" and "stored_ok sc H lo' now k r" and "key_seen H lo now k"
  shows "read_between sc H (ck_dir k) lo now r"
proof -
  let ?d = "ck_dir k"
  from assms(2) obtain b1 b2 a1 a2 where b: "b1 \<le> b2" "b2 \<le> now" "r = answer_at sc H ?d b1 b2"
    and a: "a1 \<le> b1" "events_stat (H a1 ?d) = Some (ck_len k, ck_mtime k)"
      "a2 \<le> b1" "meta_stat (H a2 ?d) = ck_meta k"
    by (auto simp: stored_ok_def key_seen_def)
  from assms(3) obtain c1 c2 where c: "lo \<le> c1" "c1 \<le> now" "events_stat (H c1 ?d) = Some (ck_len k, ck_mtime k)"
      "lo \<le> c2" "c2 \<le> now" "meta_stat (H c2 ?d) = ck_meta k"
    by (auto simp: key_seen_def)
  have "\<exists>t. lo \<le> t \<and> t \<le> now \<and> sf_events (H t ?d) = sf_events (H b1 ?d)"
    using assms(1) a b c by (intro still_current [where a = a1 and c = c1 and stat = "\<lambda>t. events_stat (H t ?d)"]) (auto simp: honest_disk_def)
  moreover have "\<exists>t. lo \<le> t \<and> t \<le> now \<and> sf_meta (H t ?d) = sf_meta (H b2 ?d)"
    using assms(1) a b c by (intro still_current [where a = a2 and c = c2 and stat = "\<lambda>t. meta_stat (H t ?d)"]) (auto simp: honest_disk_def)
  ultimately obtain t1 t2 where "lo \<le> t1" "t1 \<le> now" "sf_events (H t1 ?d) = sf_events (H b1 ?d)"
    "lo \<le> t2" "t2 \<le> now" "sf_meta (H t2 ?d) = sf_meta (H b2 ?d)" by blast
  then show ?thesis unfolding read_between_def b(3)
    by (intro exI [of _ t1] exI [of _ t2]) (simp add: answer_at_def)
qed

definition cache_ok :: "stream_codecs \<Rightarrow> disk_history \<Rightarrow> nat \<Rightarrow> cache \<Rightarrow> bool" where
  "cache_ok sc H now slot \<longleftrightarrow>
     (\<forall>e. slot = Some e \<longrightarrow> (\<exists>lo. stored_ok sc H lo now (en_key e) (Inr (en_events e, en_damage e))))"

fun phase_ok :: "stream_codecs \<Rightarrow> disk_history \<Rightarrow> nat \<Rightarrow> string \<Rightarrow> nat \<Rightarrow> phase \<Rightarrow> bool" where
  "phase_ok sc H now d lo StatEvents = True"
| "phase_ok sc H now d lo (StatMeta len mtime) =
     (\<exists>a. lo \<le> a \<and> a \<le> now \<and> events_stat (H a d) = Some (len, mtime))"
| "phase_ok sc H now d lo (Lookup k) = (ck_dir k = d \<and> key_seen H lo now k)"
| "phase_ok sc H now d lo (ReadEvents (Some k)) = (ck_dir k = d \<and> key_seen H lo now k)"
| "phase_ok sc H now d lo (ReadEvents None) = True"
| "phase_ok sc H now d lo (ReadMeta (Some k) ef) =
     (ck_dir k = d \<and> (\<exists>b. lo \<le> b \<and> b \<le> now \<and> key_seen H lo b k \<and> sf_events (H b d) = ef))"
| "phase_ok sc H now d lo (ReadMeta None ef) = (\<exists>b. lo \<le> b \<and> b \<le> now \<and> sf_events (H b d) = ef)"
| "phase_ok sc H now d lo (Store k events damage) =
     (ck_dir k = d \<and> stored_ok sc H lo now k (Inr (events, damage)))"
| "phase_ok sc H now d lo (Answered r) = read_between sc H d lo now r"
| "phase_ok sc H now d lo NotCached = True"

lemma phase_ok_mono: "phase_ok sc H now d lo p \<Longrightarrow> now \<le> now' \<Longrightarrow> phase_ok sc H now' d lo p"
proof (induction sc H now d lo p rule: phase_ok.induct)
  case (2 sc H now d lo len mtime)
  then show ?case by simp (blast intro: order_trans)
next
  case (6 sc H now d lo k ef)
  then show ?case by simp (blast intro: order_trans)
next
  case (7 sc H now d lo ef)
  then show ?case by simp (blast intro: order_trans)
qed (auto intro: key_seen_mono stored_ok_mono read_between_mono)

lemma cache_ok_mono: "cache_ok sc H now slot \<Longrightarrow> now \<le> now' \<Longrightarrow> cache_ok sc H now' slot"
  unfolding cache_ok_def by (blast intro: stored_ok_mono)

section \<open>Every step keeps it\<close>

lemma call_step_ok:
  assumes "honest_disk H" and "cache_ok sc H now slot"
    and "phase_ok sc H now (cl_dir c) (cl_since c) (cl_phase c)" and "cl_since c \<le> now"
    and "call_step sc now (H now (cl_dir c)) slot c = (slot', p)"
  shows "cache_ok sc H now slot' \<and> phase_ok sc H now (cl_dir c) (cl_since c) p"
proof (cases "cl_phase c")
  case StatEvents
  with assms(2,4,5) show ?thesis
    by (auto simp: call_step_def after_stat_def split: option.splits)
next
  case (StatMeta len mtime)
  with assms(2-5) show ?thesis by (auto simp: call_step_def intro: key_seenI)
next
  case (Lookup k)
  show ?thesis
  proof (cases "cache_hit k slot")
    case None
    with Lookup assms show ?thesis by (auto simp: call_step_def cache_ok_def split: if_splits)
  next
    case (Some e)
    then have e: "slot = Some e" "en_key e = k" by (auto simp: cache_hit_def split: option.splits if_splits)
    with assms(2) obtain lo where "stored_ok sc H lo now k (Inr (en_events e, en_damage e))"
      by (auto simp: cache_ok_def)
    moreover from Lookup assms(3) have k: "ck_dir k = cl_dir c" "key_seen H (cl_since c) now k" by simp_all
    ultimately have "read_between sc H (cl_dir c) (cl_since c) now (Inr (en_events e, en_damage e))"
      using hit_is_current [OF assms(1)] by metis
    with e Lookup Some assms(2,5) show ?thesis
      by (auto simp: call_step_def cache_ok_def)
  qed
next
  case (ReadEvents k)
  with assms show ?thesis by (cases k) (auto simp: call_step_def)
next
  case (ReadMeta k ef)
  let ?r = "decode_events sc ef (sf_meta (H now (cl_dir c)))"
  from ReadMeta assms(5) have p: "slot' = slot" "p = after_decode k ?r" by (simp_all add: call_step_def)
  from ReadMeta assms(3) obtain b where b: "cl_since c \<le> b" "b \<le> now" "sf_events (H b (cl_dir c)) = ef"
    "\<forall>key. k = Some key \<longrightarrow> ck_dir key = cl_dir c \<and> key_seen H (cl_since c) b key" by (cases k) auto
  then have r: "?r = answer_at sc H (cl_dir c) b now" by (simp add: answer_at_def)
  with b assms(4) have read: "read_between sc H (cl_dir c) (cl_since c) now ?r"
    unfolding read_between_def by (intro exI [of _ b] exI [of _ now]) simp
  have "stored_ok sc H (cl_since c) now key ?r" if "k = Some key" for key
    unfolding stored_ok_def using b r that by (intro exI [of _ b] exI [of _ now]) simp
  with p read b(4) assms(2) show ?thesis
    by (auto simp: after_decode_def split: sum.split option.split)
next
  case (Store k events damage)
  with assms(3) have "ck_dir k = cl_dir c" "stored_ok sc H (cl_since c) now k (Inr (events, damage))" by simp_all
  moreover from stored_is_read [OF this(2)] this(1)
  have "read_between sc H (cl_dir c) (cl_since c) now (Inr (events, damage))" by simp
  ultimately show ?thesis using Store assms(5) by (auto simp: call_step_def cache_ok_def)
next
  case (Answered r)
  with assms have "slot' = slot" "p = Answered r" by (simp_all add: call_step_def)
  with assms(2,3) Answered show ?thesis by simp
next
  case NotCached
  with assms have "slot' = slot" "p = NotCached" by (simp_all add: call_step_def)
  with assms(2) show ?thesis by simp
qed

definition system_ok :: "stream_codecs \<Rightarrow> disk_history \<Rightarrow> nat \<Rightarrow> cache_system \<Rightarrow> bool" where
  "system_ok sc H now s \<longleftrightarrow>
     cache_ok sc H now (cs_cache s) \<and>
     (\<forall>i c. cs_calls s i = Some c \<longrightarrow>
        cl_since c \<le> now \<and> phase_ok sc H now (cl_dir c) (cl_since c) (cl_phase c))"

lemma system_ok_mono: "system_ok sc H now s \<Longrightarrow> now \<le> now' \<Longrightarrow> system_ok sc H now' s"
  by (meson system_ok_def cache_ok_mono phase_ok_mono order_trans)

lemma cache_act_ok:
  assumes "honest_disk H" and ok: "system_ok sc H now s"
  shows "system_ok sc H now (cache_act sc H s (now, a))"
proof (cases a)
  case (Begin i dir peek)
  with ok show ?thesis by (auto simp: cache_act_def system_ok_def)
next
  case (Advance i)
  show ?thesis
  proof (cases "cs_calls s i")
    case None
    with Advance ok show ?thesis by (simp add: cache_act_def)
  next
    case (Some c)
    obtain slot p where step: "call_step sc now (H now (cl_dir c)) (cs_cache s) c = (slot, p)" by fastforce
    from ok Some have "cache_ok sc H now (cs_cache s)" "cl_since c \<le> now"
      "phase_ok sc H now (cl_dir c) (cl_since c) (cl_phase c)" by (auto simp: system_ok_def)
    from call_step_ok [OF assms(1) this(1,3,2) step] Advance Some step ok show ?thesis
      by (auto simp: cache_act_def system_ok_def)
  qed
next
  case (Evict ttl)
  with ok show ?thesis
    by (auto simp: cache_act_def system_ok_def cache_ok_def evict_idle_def split: option.splits if_splits)
qed

text \<open>
  C32. Whatever the interleaving of calls, evictions and writes to the disk, an answer of
  \<open>checked\<close> or \<open>peek\<close> is what reading the session would give with its events file and its
  metadata as they were at moments of that very call, damage and errors included, as long as a
  file's size and modification time show its changes.
\<close>

theorem cached_answer_is_current:
  assumes "honest_disk H" and "sorted (map fst as)" and "\<forall>(t, a) \<in> set as. t \<le> now"
    and "cs_calls (cache_run sc H as) i = Some c" and "cl_phase c = Answered r"
  shows "read_between sc H (cl_dir c) (cl_since c) now r"
proof -
  have "system_ok sc H t0 s \<Longrightarrow> t0 \<le> now \<Longrightarrow> sorted (map fst bs) \<Longrightarrow> \<forall>(t, a) \<in> set bs. t0 \<le> t \<and> t \<le> now \<Longrightarrow>
      system_ok sc H now (foldl (cache_act sc H) s bs)" for t0 s bs
  proof (induction bs arbitrary: t0 s)
    case Nil
    then show ?case by (simp add: system_ok_mono)
  next
    case (Cons b bs)
    obtain t a where b: "b = (t, a)" by (cases b)
    with Cons.prems have "system_ok sc H t s" by (auto intro: system_ok_mono)
    then have "system_ok sc H t (cache_act sc H s (t, a))" by (rule cache_act_ok [OF assms(1)])
    moreover have "\<forall>(t', a') \<in> set bs. t \<le> t' \<and> t' \<le> now" using Cons.prems(3,4) b by fastforce
    ultimately show ?case using Cons.IH [of t] Cons.prems b by simp
  qed
  moreover have "system_ok sc H 0 cache_init" by (simp add: system_ok_def cache_ok_def cache_init_def)
  ultimately have "system_ok sc H now (cache_run sc H as)"
    using assms(2,3) unfolding cache_run_def by blast
  with assms(4,5) show ?thesis by (fastforce simp: system_ok_def)
qed

text \<open>
  A session whose metadata is rewritten at moment 5, between the key and the reading of it by a
  call: the call answers with the new metadata, and its entry, filed under the old key, does not
  answer the next one.
\<close>

definition rewritten :: disk_history where
  "rewritten t d =
     \<lparr>sf_events = Some \<lparr>ef_len = 0, ef_mtime = 1, ef_zst = False, ef_bytes = []\<rparr>,
      sf_meta = Some \<lparr>mf_len = 9, mf_mtime = if t < 5 then 1 else 2,
        mf_meta = Some \<lparr>rm_event_count = Some (if t < 5 then 3 else 4), rm_dropped_events = None\<rparr>\<rparr>\<rparr>"

lemma rewritten_honest: "honest_disk rewritten"
  by (auto simp: honest_disk_def shows_changes_def rewritten_def events_stat_def meta_stat_def split: if_splits)

definition two_calls :: "(nat \<times> cache_action) list" where
  "two_calls =
     [(0, Begin 0 ''s'' False), (1, Advance 0), (2, Advance 0), (3, Advance 0), (4, Advance 0),
      (6, Advance 0), (7, Begin 1 ''s'' True), (8, Advance 0), (9, Advance 1), (10, Advance 1),
      (11, Advance 1)]"

lemma empty_session_read:
  "read_events_checked sc False [] (Some \<lparr>rm_event_count = Some n, rm_dropped_events = None\<rparr>) =
     Inr ([], if n = 0 then [] else [EventsMissing (unat n) (unat n)])"
  by (simp add: read_events_checked_def for_each_event_def parse_all_def parser_feed_def parser_new_def
      split_frames_def split_from.simps decode_frames_in_def parser_finish_def meta_problems_def
      sink_new_def word_gt_0 Let_def)

lemma two_calls_run:
  "map_option (\<lambda>c. (cl_dir c, cl_since c, cl_phase c)) (cs_calls (cache_run sc rewritten two_calls) 0) =
     Some (''s'', 0, Answered (Inr ([], [EventsMissing 4 4]))) \<and>
   map_option cl_phase (cs_calls (cache_run sc rewritten two_calls) 1) = Some NotCached"
  by (simp add: cache_run_def two_calls_def cache_act_def cache_init_def call_step_def rewritten_def
      events_stat_def meta_stat_def cache_hit_def after_decode_def decode_events_def empty_session_read)

lemma cached_answer_is_current_witness:
  "\<forall>sc. map_option cl_phase (cs_calls (cache_run sc rewritten two_calls) 0) =
      Some (Answered (Inr ([], [EventsMissing 4 4]))) \<and>
    read_between sc rewritten ''s'' 0 11 (Inr ([], [EventsMissing 4 4]))"
proof (intro allI conjI)
  fix sc :: stream_codecs
  obtain c where c: "cs_calls (cache_run sc rewritten two_calls) 0 = Some c" "cl_dir c = ''s''" "cl_since c = 0"
    "cl_phase c = Answered (Inr ([], [EventsMissing 4 4]))"
    using two_calls_run [of sc] by auto
  then show "map_option cl_phase (cs_calls (cache_run sc rewritten two_calls) 0) =
      Some (Answered (Inr ([], [EventsMissing 4 4])))" by simp
  have "sorted (map fst two_calls)" "\<forall>(t, a) \<in> set two_calls. t \<le> 11" by (simp_all add: two_calls_def)
  from cached_answer_is_current [OF rewritten_honest this c(1,4)]
  show "read_between sc rewritten ''s'' 0 11 (Inr ([], [EventsMissing 4 4]))" by (simp add: c(2,3))
qed

section \<open>Visiting\<close>

text \<open>Walking the cached events calls the callback exactly as the reader's sink does.\<close>

lemma walk_cached_push:
  "\<not> sk_stopped sk \<Longrightarrow> sk_state (push_all flt f es sk) = walk_cached flt f es (sk_state sk)"
  by (induction es arbitrary: sk)
    (simp_all add: sink_push_def Let_def split: option.split prod.split)

end
