(* ===== verification/TreePrune.thy ===== *)
theory TreePrune
  imports OpRows "HOL-Library.Product_Lexorder"
begin

text \<open>
  How the breakdown tool bounds its tree: \<open>prune\<close> and \<open>shape_ops\<close> of
  \<open>crates/smeltr-mcp/src/tools/inference_breakdown.rs\<close>.  A node is numbered by its place in
  preorder; depths are 16-bit and wrap.
\<close>

section \<open>The sorted tree\<close>

fun subtree_size :: "module_breakdown \<Rightarrow> nat" where
  "subtree_size (ModuleBreakdown q c k s t ev cb ch ops dg fl) = 1 + sum_list (map subtree_size ch)"

fun with_children :: "module_breakdown list \<Rightarrow> module_breakdown \<Rightarrow> module_breakdown" where
  "with_children ch' (ModuleBreakdown q c k s t ev cb ch ops dg fl) =
     ModuleBreakdown q c k s t ev cb ch' ops dg fl"

fun sort_tree :: "module_breakdown \<Rightarrow> module_breakdown" where
  "sort_tree (ModuleBreakdown q c k s t ev cb ch ops dg fl) =
     ModuleBreakdown q c k s t ev cb
       (sort_key (\<lambda>x. desc (mb_gpu_ns_subtree x)) (map sort_tree ch)) ops dg fl"

section \<open>Ranking\<close>

type_synonym ranked = "(u64 \<times> u16 \<times> nat) list"

fun rank_nodes :: "u16 \<times> u64 \<Rightarrow> u16 \<Rightarrow> nat \<times> ranked \<Rightarrow> module_breakdown list \<Rightarrow> nat \<times> ranked" where
  "rank_nodes limits depth st [] = st"
| "rank_nodes limits depth (next_id, out) (ModuleBreakdown q c k s t ev cb ch ops dg fl # ts) =
     rank_nodes limits depth
       (rank_nodes limits (depth + 1)
          (Suc next_id,
           if depth < fst limits \<and> snd limits \<le> t then out @ [(t, depth + 1, next_id)] else out) ch) ts"

definition rank_key :: "u64 \<times> u16 \<times> nat \<Rightarrow> int \<times> u16 \<times> nat" where
  "rank_key r = (case r of (t, depth, i) \<Rightarrow> (desc t, depth, i))"

section \<open>Keeping\<close>

fun retain_nodes :: "nat list \<Rightarrow> nat \<Rightarrow> module_breakdown list \<Rightarrow> nat \<times> module_breakdown list" where
  "retain_nodes keep next_id [] = (next_id, [])"
| "retain_nodes keep next_id (ModuleBreakdown q c k s t ev cb ch ops dg fl # ts) =
     (if next_id \<in> set keep then
        (case retain_nodes keep (Suc next_id) ch of
           (next1, ch') \<Rightarrow>
             (case retain_nodes keep next1 ts of
                (next2, ts') \<Rightarrow> (next2, ModuleBreakdown q c k s t ev cb ch' ops dg fl # ts')))
      else retain_nodes keep
             (next_id + subtree_size (ModuleBreakdown q c k s t ev cb ch ops dg fl)) ts)"

definition prune_tree ::
  "module_breakdown \<Rightarrow> u16 \<Rightarrow> nat \<Rightarrow> u64 \<Rightarrow> module_breakdown \<times> nat" where
  "prune_tree tree max_depth top_n min_gpu_ns =
     (let rt = sort_tree tree;
          ranked = sort_key rank_key (snd (rank_nodes (max_depth, min_gpu_ns) 0 (0, []) (mb_children rt)));
          keep = map (\<lambda>r. snd (snd r)) (take top_n ranked);
          total = subtree_size rt - 1
      in (with_children (snd (retain_nodes keep 0 (mb_children rt))) rt, total - length keep))"

fun shape_ops :: "bool \<Rightarrow> nat \<Rightarrow> module_breakdown \<Rightarrow> module_breakdown" where
  "shape_ops keep_ops n (ModuleBreakdown q c k s t ev cb ch ops dg fl) =
     ModuleBreakdown q c k s t ev cb (map (shape_ops keep_ops n) ch)
       (if keep_ops then take n ops else []) dg fl"

end
