(* ===== verification/TreePruneFacts.thy ===== *)
theory TreePruneFacts
  imports TreePrune OpRowsFacts
begin

text \<open>
  What the bounded tree of the breakdown tool shows: exactly the heaviest nodes within the limits,
  each under its own parent, and the number of nodes cut.
\<close>

section \<open>Preorder\<close>

text \<open>The nodes with their depth, in the order \<open>prune\<close> numbers them.\<close>

fun pre :: "nat \<Rightarrow> module_breakdown list \<Rightarrow> (nat \<times> module_breakdown) list" where
  "pre d [] = []"
| "pre d (ModuleBreakdown q c k s t ev cb ch ops dg fl # ts) =
     (d, ModuleBreakdown q c k s t ev cb ch ops dg fl) # pre (Suc d) ch @ pre d ts"

lemma length_pre: "length (pre d ts) = sum_list (map subtree_size ts)"
  by (induction d ts rule: pre.induct) simp_all

lemma subtree_size_pre: "subtree_size t = Suc (length (pre d (mb_children t)))"
  by (cases t) (simp add: length_pre)

definition row_of :: "nat \<times> module_breakdown \<Rightarrow> nat \<times> module_breakdown" where
  "row_of x = (fst x, with_children [] (snd x))"

section \<open>Ranking lists the nodes within the limits\<close>

definition in_limits :: "u16 \<times> u64 \<Rightarrow> nat \<times> module_breakdown \<Rightarrow> bool" where
  "in_limits limits x \<longleftrightarrow> of_nat (fst x - 1) < fst limits \<and> snd limits \<le> mb_gpu_ns_subtree (snd x)"

fun ranked_from :: "u16 \<times> u64 \<Rightarrow> nat \<Rightarrow> (nat \<times> module_breakdown) list \<Rightarrow> ranked" where
  "ranked_from limits n [] = []"
| "ranked_from limits n (x # xs) =
     (if in_limits limits x then [(mb_gpu_ns_subtree (snd x), of_nat (fst x), n)] else []) @
     ranked_from limits (Suc n) xs"

lemma ranked_from_append:
  "ranked_from limits n (xs @ ys) = ranked_from limits n xs @ ranked_from limits (n + length xs) ys"
  by (induction xs arbitrary: n) simp_all

lemma rank_nodes_pre:
  "rank_nodes limits (of_nat d) (n, out) ts =
     (n + length (pre (Suc d) ts), out @ ranked_from limits n (pre (Suc d) ts))"
proof (induction "Suc d" ts arbitrary: d n out rule: pre.induct)
  case 1
  then show ?case by simp
next
  case (2 q c k s t ev cb ch ops dg fl ts)
  have word: "(of_nat d :: u16) + 1 = of_nat (Suc d)" by simp
  show ?case
    unfolding rank_nodes.simps word 2(1) 2(2)
    by (simp add: ranked_from_append in_limits_def)
qed

lemma ranked_from_set:
  "(w, e, i) \<in> set (ranked_from limits n xs) \<longleftrightarrow>
     n \<le> i \<and> i < n + length xs \<and> in_limits limits (xs ! (i - n)) \<and>
     w = mb_gpu_ns_subtree (snd (xs ! (i - n))) \<and> e = of_nat (fst (xs ! (i - n)))"
proof (induction xs arbitrary: n)
  case Nil
  then show ?case by auto
next
  case (Cons x xs)
  show ?case
  proof (cases "i = n")
    case True
    then show ?thesis using Cons [of "Suc n"] by auto
  next
    case False
    then have "(x # xs) ! (i - n) = xs ! (i - Suc n)" if "n \<le> i" using that False by (simp add: nth_Cons')
    with False show ?thesis using Cons [of "Suc n"] by auto
  qed
qed

lemma ranked_ids_distinct: "distinct (map (\<lambda>r. snd (snd r)) (ranked_from limits n xs))"
proof (induction xs arbitrary: n)
  case (Cons x xs)
  have "n \<notin> set (map (\<lambda>r. snd (snd r)) (ranked_from limits (Suc n) xs))"
    by (auto simp: ranked_from_set)
  with Cons show ?case by simp
qed simp

section \<open>Nodes under their parents\<close>

definition lightens :: "module_breakdown \<Rightarrow> bool" where
  "lightens t \<longleftrightarrow> list_all (\<lambda>c. mb_gpu_ns_subtree c \<le> mb_gpu_ns_subtree t) (mb_children t)"

lemma lightens_node [simp]:
  "lightens (ModuleBreakdown q c k s t ev cb ch ops dg fl) \<longleftrightarrow> list_all (\<lambda>c. mb_gpu_ns_subtree c \<le> t) ch"
  by (simp add: lightens_def)

lemma subtree_sort [simp]: "mb_gpu_ns_subtree (sort_tree t) = mb_gpu_ns_subtree t"
  by (cases t) simp

lemma lightens_sort: "tree_all lightens t \<Longrightarrow> tree_all lightens (sort_tree t)"
proof (induction t)
  case (ModuleBreakdown q c k s t ev cb ch ops dg fl)
  then show ?case by (auto simp: list_all_iff lightens_def)
qed

lemma below:
  assumes "list_all (tree_all lightens) ts" and "list_all (\<lambda>c. mb_gpu_ns_subtree c \<le> w) ts"
    and "x \<in> set (pre d ts)"
  shows "d \<le> fst x" and "mb_gpu_ns_subtree (snd x) \<le> w"
proof -
  have "d \<le> fst x \<and> mb_gpu_ns_subtree (snd x) \<le> w"
    using assms
  proof (induction d ts arbitrary: w rule: pre.induct)
    case (2 d q c k s t ev cb ch ops dg fl ts)
    then consider "x = (d, ModuleBreakdown q c k s t ev cb ch ops dg fl)"
      | "x \<in> set (pre (Suc d) ch)" | "x \<in> set (pre d ts)" by auto
    then show ?case
    proof cases
      case 2
      with "2.IH"(1) [of t] "2.prems" show ?thesis by (auto simp: lightens_def)
    next
      case 3
      with "2.IH"(2) [of w] "2.prems" show ?thesis by auto
    qed (use "2.prems" in auto)
  qed simp
  then show "d \<le> fst x" and "mb_gpu_ns_subtree (snd x) \<le> w" by simp_all
qed

text \<open>A set of numbers that holds no node under a node it misses.\<close>

fun closed_from :: "nat set \<Rightarrow> nat \<Rightarrow> module_breakdown list \<Rightarrow> bool" where
  "closed_from K n [] = True"
| "closed_from K n (ModuleBreakdown q c k s t ev cb ch ops dg fl # ts) =
     ((n \<in> K \<or> (\<forall>j \<in> K. \<not> (n < j \<and> j < n + subtree_size (ModuleBreakdown q c k s t ev cb ch ops dg fl)))) \<and>
      closed_from K (Suc n) ch \<and>
      closed_from K (n + subtree_size (ModuleBreakdown q c k s t ev cb ch ops dg fl)) ts)"

lemma nths_none: "(\<And>i. i < length xs \<Longrightarrow> i \<notin> K) \<Longrightarrow> nths xs K = []"
  by (induction xs arbitrary: K) (auto simp: nths_Cons)

lemma retain_pre:
  assumes "closed_from (set keep) n ts"
  shows "fst (retain_nodes keep n ts) = n + length (pre d ts) \<and>
    map row_of (pre d (snd (retain_nodes keep n ts))) = map row_of (nths (pre d ts) {i. n + i \<in> set keep})"
  using assms
proof (induction d ts arbitrary: n rule: pre.induct)
  case (1 d)
  then show ?case by simp
next
  case (2 d q c k s t ev cb ch ops dg fl ts)
  let ?t = "ModuleBreakdown q c k s t ev cb ch ops dg fl"
  have size: "subtree_size ?t = Suc (length (pre (Suc d) ch))" by (simp add: length_pre)
  let ?n = "n + subtree_size ?t"
  from "2.prems" have cl: "closed_from (set keep) (Suc n) ch" "closed_from (set keep) ?n ts" by simp_all
  note IH1 = "2.IH"(1) [OF cl(1)] and IH2 = "2.IH"(2) [OF cl(2)]
  have shift: "{j. j + length (pre (Suc d) ch) \<in> {j. Suc j \<in> {i. n + i \<in> set keep}}} = {i. ?n + i \<in> set keep}"
    by (auto simp: size add.commute add.left_commute simp del: subtree_size.simps)
  have shift1: "{j. Suc j \<in> {i. n + i \<in> set keep}} = {i. Suc n + i \<in> set keep}" by simp
  have split: "nths (pre d (?t # ts)) {i. n + i \<in> set keep} =
      (if n \<in> set keep then [(d, ?t)] else []) @ nths (pre (Suc d) ch) {i. Suc n + i \<in> set keep} @
      nths (pre d ts) {i. ?n + i \<in> set keep}"
    by (simp add: nths_Cons nths_append shift1 [simplified] shift [simplified])
  show ?case
  proof (cases "n \<in> set keep")
    case True
    obtain n1 ch' where r1: "retain_nodes keep (Suc n) ch = (n1, ch')" by fastforce
    with IH1 size have n1: "n1 = ?n" by simp
    obtain n2 ts' where r2: "retain_nodes keep ?n ts = (n2, ts')" by fastforce
    show ?thesis
      unfolding split using True r1 r2 IH1 IH2 n1 size
      by (simp add: row_of_def)
  next
    case False
    with "2.prems" have free: "\<forall>j \<in> set keep. \<not> (n < j \<and> j < ?n)" by simp
    have "nths (pre (Suc d) ch) {i. Suc n + i \<in> set keep} = []"
    proof (rule nths_none)
      fix i
      assume "i < length (pre (Suc d) ch)"
      then have "n < Suc n + i \<and> Suc n + i < ?n" unfolding size by simp
      with free show "i \<notin> {i. Suc n + i \<in> set keep}" by blast
    qed
    with False IH2 size show ?thesis
      unfolding split by simp
  qed
qed

section \<open>The heaviest nodes\<close>

lemma take_sorted_lowers:
  fixes key :: "'a \<Rightarrow> 'b :: linorder"
  assumes "x \<in> set (take n (sort_key key xs))" and "y \<in> set xs" and "key y < key x"
  shows "y \<in> set (take n (sort_key key xs))"
proof -
  let ?s = "sort_key key xs"
  from assms(2) obtain q where q: "q < length ?s" "?s ! q = y" by (metis in_set_conv_nth set_sort)
  from assms(1) obtain p where p: "p < length ?s" "p < n" "?s ! p = x" by (auto simp: in_set_conv_nth)
  have "q < p"
  proof (rule ccontr)
    assume "\<not> q < p"
    then have "key (?s ! p) \<le> key (?s ! q)"
      using q(1) sorted_sort_key [of key xs] by (simp add: sorted_iff_nth_mono)
    with p q assms(3) show False by simp
  qed
  with p(2) q show ?thesis by (auto simp: in_set_conv_nth intro!: exI [of _ q])
qed

lemma take_sorted_least:
  fixes key :: "'a \<Rightarrow> 'b :: linorder"
  assumes "x \<in> set (take n (sort_key key xs))" and "y \<in> set xs" and "y \<notin> set (take n (sort_key key xs))"
  shows "key x \<le> key y"
  using take_sorted_lowers [OF assms(1,2)] assms(3) by (meson not_less)

definition limits_ok :: "u16 \<Rightarrow> u64 \<Rightarrow> nat \<times> module_breakdown \<Rightarrow> bool" where
  "limits_ok max_depth min_ns x \<longleftrightarrow> fst x \<le> unat max_depth \<and> min_ns \<le> mb_gpu_ns_subtree (snd x)"

lemma pre_depth: "x \<in> set (pre d ts) \<Longrightarrow> d \<le> fst x"
  by (induction d ts rule: pre.induct) auto

lemma unat_depth: "d < 2 ^ 16 \<Longrightarrow> unat (of_nat d :: u16) = d"
  by (simp add: unat_of_nat)

lemma limits_iff:
  assumes "0 < fst x" and "fst x < 2 ^ 16"
  shows "in_limits (max_depth, min_ns) x \<longleftrightarrow> limits_ok max_depth min_ns x"
proof -
  have "unat (of_nat (fst x - 1) :: u16) = fst x - 1" using assms by (intro unat_depth) simp
  then show ?thesis using assms(1) by (auto simp: in_limits_def limits_ok_def word_less_nat_alt)
qed

lemma nths_ids: "K \<subseteq> {..<length xs} \<Longrightarrow> length (nths xs K) = card K"
  by (simp add: length_nths) (metis (mono_tags, lifting) Collect_cong inf.absorb2 lessThan_def Int_def mem_Collect_eq)

lemma closed_fromI:
  assumes "\<And>i j. i < j \<Longrightarrow> j \<in> K \<Longrightarrow> i < length xs \<Longrightarrow> j < length xs \<Longrightarrow> fst (xs ! i) < fst (xs ! j) \<Longrightarrow>
      mb_gpu_ns_subtree (snd (xs ! j)) \<le> mb_gpu_ns_subtree (snd (xs ! i)) \<Longrightarrow> i \<in> K"
    and "list_all (tree_all lightens) ts" and "drop n xs = pre d ts @ rest"
  shows "closed_from K n ts"
  using assms(2-)
proof (induction d ts arbitrary: n rest rule: pre.induct)
  case (1 d)
  then show ?case by simp
next
  case (2 d q c k s t ev cb ch ops dg fl ts)
  let ?t = "ModuleBreakdown q c k s t ev cb ch ops dg fl"
  have size: "subtree_size ?t = Suc (length (pre (Suc d) ch))" by (simp add: length_pre)
  from "2.prems" have light: "list_all (tree_all lightens) ch" "list_all (tree_all lightens) ts"
    "list_all (\<lambda>c. mb_gpu_ns_subtree c \<le> t) ch" by simp_all
  from "2.prems"(2) have n: "n < length xs" by (cases "n < length xs") simp_all
  with "2.prems"(2) have at_n: "xs ! n = (d, ?t)" "drop (Suc n) xs = pre (Suc d) ch @ pre d ts @ rest"
    by (simp_all add: Cons_nth_drop_Suc [symmetric])
  then have "drop (length (pre (Suc d) ch)) (drop (Suc n) xs) = pre d ts @ rest" by simp
  then have at_m: "drop (n + subtree_size ?t) xs = pre d ts @ rest"
    by (simp add: size add.commute del: subtree_size.simps)
  have "n \<in> K" if j: "j \<in> K" "n < j" "j < n + subtree_size ?t" for j
  proof -
    let ?i = "j - Suc n"
    from j size have i: "?i < length (pre (Suc d) ch)" by linarith
    have len: "length (pre (Suc d) ch) \<le> length xs - Suc n" using arg_cong [OF at_n(2), of length] by simp
    with i j have "j < length xs" by linarith
    moreover have "xs ! j = pre (Suc d) ch ! ?i"
    proof -
      have "xs ! j = drop (Suc n) xs ! ?i" using j(2) \<open>j < length xs\<close> by simp
      with i show ?thesis by (simp add: at_n(2) nth_append)
    qed
    with i have "xs ! j \<in> set (pre (Suc d) ch)" by simp
    from below [OF light(1,3) this] have "fst (xs ! n) < fst (xs ! j)"
      "mb_gpu_ns_subtree (snd (xs ! j)) \<le> mb_gpu_ns_subtree (snd (xs ! n))" by (simp_all add: at_n(1))
    ultimately show ?thesis using assms(1) [OF j(2,1) n] by blast
  qed
  with "2.IH"(1) [OF light(1) at_n(2)] "2.IH"(2) [OF light(2) at_m] show ?case by auto
qed

section \<open>The bounded tree\<close>

lemma subtree_size_sort: "subtree_size (sort_tree t) = subtree_size t"
proof (induction t)
  case (ModuleBreakdown q c k s t ev cb ch ops dg fl)
  have "mset (map subtree_size (sort_key (\<lambda>x. desc (mb_gpu_ns_subtree x)) (map sort_tree ch))) =
      mset (map (\<lambda>x. subtree_size (sort_tree x)) ch)" by (simp add: image_mset.compositionality comp_def)
  moreover have "map (\<lambda>x. subtree_size (sort_tree x)) ch = map subtree_size ch"
    using ModuleBreakdown by simp
  ultimately have "sum_list (map subtree_size (sort_key (\<lambda>x. desc (mb_gpu_ns_subtree x)) (map sort_tree ch))) =
      sum_list (map subtree_size ch)" by (metis mset_map sum_mset_sum_list)
  then show ?case by simp
qed

lemma with_children_simps [simp]:
  "mb_children (with_children ch t) = ch" "subtree_size (with_children ch t) = 1 + sum_list (map subtree_size ch)"
  by (cases t; simp)+

definition heaviest :: "nat \<Rightarrow> (nat \<times> module_breakdown) list \<Rightarrow> nat set \<Rightarrow> nat set \<Rightarrow> bool" where
  "heaviest n xs C K \<longleftrightarrow>
     K \<subseteq> C \<and> card K = min n (card C) \<and>
     (\<forall>i \<in> K. \<forall>j \<in> C - K. mb_gpu_ns_subtree (snd (xs ! j)) \<le> mb_gpu_ns_subtree (snd (xs ! i)))"

lemma ranked_entry:
  "r \<in> set (ranked_from limits 0 xs) \<longleftrightarrow>
     (\<exists>i. i < length xs \<and> in_limits limits (xs ! i) \<and>
        r = (mb_gpu_ns_subtree (snd (xs ! i)), of_nat (fst (xs ! i)), i))"
  by (cases r) (auto simp: ranked_from_set)

lemma ranked_ids: "(\<lambda>r. snd (snd r)) ` set (ranked_from limits 0 xs) = {i. i < length xs \<and> in_limits limits (xs ! i)}"
  by (auto simp: image_def Bex_def ranked_entry)

definition kept_ids :: "u16 \<times> u64 \<Rightarrow> nat \<Rightarrow> (nat \<times> module_breakdown) list \<Rightarrow> nat list" where
  "kept_ids limits n xs = map (\<lambda>r. snd (snd r)) (take n (sort_key rank_key (ranked_from limits 0 xs)))"

lemma kept_ids_distinct: "distinct (kept_ids limits n xs)"
proof -
  have "distinct (map (\<lambda>r. snd (snd r)) (sort_key rank_key (ranked_from limits 0 xs)))"
    by (rule mset_eq_imp_distinct_iff [THEN iffD2, OF _ ranked_ids_distinct [of limits 0 xs]]) simp
  then show ?thesis unfolding kept_ids_def take_map [symmetric] by (rule distinct_take)
qed

lemma kept_entry:
  "i \<in> set (kept_ids limits n xs) \<longleftrightarrow>
     (mb_gpu_ns_subtree (snd (xs ! i)), of_nat (fst (xs ! i)), i)
       \<in> set (take n (sort_key rank_key (ranked_from limits 0 xs)))"
  (is "_ \<longleftrightarrow> ?r i \<in> ?T")
proof
  assume "i \<in> set (kept_ids limits n xs)"
  then obtain r where r: "r \<in> ?T" "snd (snd r) = i" by (auto simp: kept_ids_def)
  then have "r \<in> set (ranked_from limits 0 xs)" using in_set_takeD by fastforce
  with r show "?r i \<in> ?T" by (auto simp: ranked_entry)
next
  assume "?r i \<in> ?T"
  then show "i \<in> set (kept_ids limits n xs)" by (force simp: kept_ids_def)
qed

lemma kept_in: "set (kept_ids limits n xs) \<subseteq> {i. i < length xs \<and> in_limits limits (xs ! i)}"
proof -
  have "set (kept_ids limits n xs) \<subseteq> (\<lambda>r. snd (snd r)) ` set (ranked_from limits 0 xs)"
    by (force simp: kept_ids_def dest: in_set_takeD)
  then show ?thesis unfolding ranked_ids .
qed

lemma kept_heaviest:
  "heaviest n xs {i. i < length xs \<and> in_limits limits (xs ! i)} (set (kept_ids limits n xs))"
proof -
  let ?R = "ranked_from limits 0 xs" and ?C = "{i. i < length xs \<and> in_limits limits (xs ! i)}"
  have "card ?C = length ?R"
    unfolding ranked_ids [symmetric]
    using ranked_ids_distinct [of limits 0 xs] by (metis distinct_card length_map set_map)
  moreover have "card (set (kept_ids limits n xs)) = length (kept_ids limits n xs)"
    by (rule distinct_card [OF kept_ids_distinct])
  moreover have "mb_gpu_ns_subtree (snd (xs ! j)) \<le> mb_gpu_ns_subtree (snd (xs ! i))"
    if "i \<in> set (kept_ids limits n xs)" "j \<in> ?C - set (kept_ids limits n xs)" for i j
  proof -
    let ?r = "\<lambda>i. (mb_gpu_ns_subtree (snd (xs ! i)), of_nat (fst (xs ! i)) :: u16, i)"
    from that(2) have "?r j \<in> set ?R" by (auto simp: ranked_entry)
    with that have "rank_key (?r i) \<le> rank_key (?r j)"
      unfolding kept_entry
      by (intro take_sorted_least [where key = rank_key and n = n and xs = ?R]) (simp_all add: kept_entry)
    then show ?thesis by (auto simp: rank_key_def less_eq_prod_def)
  qed
  ultimately show ?thesis
    using kept_in [of limits n xs] by (simp add: heaviest_def kept_ids_def min.commute)
qed

lemma kept_closed:
  assumes "list_all (tree_all lightens) ts" and "\<forall>x \<in> set (pre 1 ts). fst x < 2 ^ 16"
  shows "closed_from (set (kept_ids (max_depth, min_ns) n (pre 1 ts))) 0 ts"
proof (rule closed_fromI [where xs = "pre 1 ts" and d = 1 and rest = "[]"])
  fix i j
  let ?xs = "pre 1 ts" and ?l = "(max_depth, min_ns)"
  let ?r = "\<lambda>i. (mb_gpu_ns_subtree (snd (?xs ! i)), of_nat (fst (?xs ! i)) :: u16, i)"
  assume j: "j \<in> set (kept_ids ?l n ?xs)" and less: "i < length ?xs" "j < length ?xs"
    and deeper: "fst (?xs ! i) < fst (?xs ! j)"
    and lighter: "mb_gpu_ns_subtree (snd (?xs ! j)) \<le> mb_gpu_ns_subtree (snd (?xs ! i))"
  have iff: "in_limits ?l (?xs ! k) \<longleftrightarrow> limits_ok max_depth min_ns (?xs ! k)" and small: "fst (?xs ! k) < 2 ^ 16"
    if "k < length ?xs" for k
  proof -
    from that have mem: "?xs ! k \<in> set ?xs" by simp
    with assms(2) show small: "fst (?xs ! k) < 2 ^ 16" by blast
    from pre_depth [OF mem] have "0 < fst (?xs ! k)" by simp
    from limits_iff [OF this small] show "in_limits ?l (?xs ! k) \<longleftrightarrow> limits_ok max_depth min_ns (?xs ! k)" .
  qed
  from j kept_in [of ?l n ?xs] have "in_limits ?l (?xs ! j)" by auto
  with iff [OF less(2)] have "limits_ok max_depth min_ns (?xs ! j)" by simp
  with deeper lighter have "limits_ok max_depth min_ns (?xs ! i)" by (auto simp: limits_ok_def intro: order_trans)
  with iff [OF less(1)] have "in_limits ?l (?xs ! i)" by simp
  with less have "?r i \<in> set (ranked_from ?l 0 ?xs)" by (auto simp: ranked_entry)
  moreover have "(of_nat (fst (?xs ! i)) :: u16) < of_nat (fst (?xs ! j))"
    using deeper small less by (simp add: word_less_nat_alt unat_depth)
  then have "rank_key (?r i) < rank_key (?r j)"
    using lighter by (simp add: rank_key_def)
  moreover from j have "?r j \<in> set (take n (sort_key rank_key (ranked_from ?l 0 ?xs)))"
    by (simp only: kept_entry)
  ultimately show "i \<in> set (kept_ids ?l n ?xs)"
    unfolding kept_entry using take_sorted_lowers by metis
qed (use assms in simp_all)

text \<open>
  C33. When no node weighs more than its parent and the tree is less than 65536 deep, the bounded
  tree shows, in tree order and each under its own parent, exactly the \<open>top_n\<close> heaviest of the
  nodes within the depth and time limits, all of them when there are fewer; and the count of
  elided nodes is what the tree lost.
\<close>

theorem pruned_tree_is_heaviest:
  assumes "tree_all lightens t" and "xs = pre 1 (mb_children (sort_tree t))" and "\<forall>x \<in> set xs. fst x < 2 ^ 16"
    and "prune_tree t max_depth top_n min_ns = (t', elided)"
  shows "subtree_size t' + elided = subtree_size t \<and>
    (\<exists>K. heaviest top_n xs {i. i < length xs \<and> limits_ok max_depth min_ns (xs ! i)} K \<and>
       closed_from K 0 (mb_children (sort_tree t)) \<and>
       map row_of (pre 1 (mb_children t')) = map row_of (nths xs K))"
proof -
  let ?ts = "mb_children (sort_tree t)" and ?l = "(max_depth, min_ns)"
  let ?keep = "kept_ids ?l top_n xs"
  have xs: "\<forall>x \<in> set (pre 1 ?ts). fst x < 2 ^ 16" using assms(2,3) by simp
  have light: "list_all (tree_all lightens) ?ts"
    using lightens_sort [OF assms(1)] by (cases "sort_tree t") simp
  have ranked: "snd (rank_nodes ?l 0 (0, []) ?ts) = ranked_from ?l 0 xs"
    using rank_nodes_pre [of ?l 0 0 "[]" ?ts] assms(2) by simp
  have t': "t' = with_children (snd (retain_nodes ?keep 0 ?ts)) (sort_tree t)"
    and elided: "elided = subtree_size (sort_tree t) - 1 - length ?keep"
    using assms(4) by (simp_all add: prune_tree_def Let_def ranked kept_ids_def)
  have closed: "closed_from (set ?keep) 0 ?ts"
    unfolding assms(2) by (rule kept_closed [OF light xs])
  from retain_pre [OF this, of 1] have rows: "map row_of (pre 1 (mb_children t')) = map row_of (nths xs (set ?keep))"
    by (simp add: t' assms(2))
  have C: "{i. i < length xs \<and> in_limits ?l (xs ! i)} = {i. i < length xs \<and> limits_ok max_depth min_ns (xs ! i)}"
  proof (rule Collect_cong, rule conj_cong [OF refl])
    fix i
    assume "i < length xs"
    then have mem: "xs ! i \<in> set xs" by simp
    then have "0 < fst (xs ! i)" using pre_depth [of "xs ! i" 1 ?ts] assms(2) by simp
    from limits_iff [OF this] mem assms(3)
    show "in_limits ?l (xs ! i) \<longleftrightarrow> limits_ok max_depth min_ns (xs ! i)" by blast
  qed
  have "length (pre 1 (mb_children t')) = length (nths xs (set ?keep))"
    using arg_cong [OF rows, of length] by simp
  also have "\<dots> = card (set ?keep)" by (rule nths_ids) (use kept_in [of ?l top_n xs] in auto)
  also have "\<dots> = length ?keep" by (rule distinct_card [OF kept_ids_distinct])
  finally have size: "subtree_size t' = Suc (length ?keep)" by (simp add: subtree_size_pre [of t' 1])
  have "length ?keep \<le> length xs"
    using kept_in [of ?l top_n xs] distinct_card [OF kept_ids_distinct [of ?l top_n xs]]
      card_mono [of "{..<length xs}" "set ?keep"] by auto
  moreover have "subtree_size (sort_tree t) = Suc (length xs)"
    using subtree_size_pre [of "sort_tree t" 1] assms(2) by simp
  ultimately have "subtree_size t' + elided = subtree_size t"
    using size elided subtree_size_sort [of t] by simp
  moreover have "heaviest top_n xs {i. i < length xs \<and> limits_ok max_depth min_ns (xs ! i)} (set ?keep)"
    using kept_heaviest [of top_n xs ?l] unfolding C .
  ultimately show ?thesis using rows closed by blast
qed

definition call_tree :: "string \<Rightarrow> u64 \<Rightarrow> module_breakdown list \<Rightarrow> module_breakdown" where
  "call_tree q ns ch = ModuleBreakdown q q 1 0 ns 0 0 ch [] None []"

definition small_tree :: module_breakdown where
  "small_tree = call_tree ''root'' 10
     [call_tree ''a'' 3 [call_tree ''a.x'' 2 []], call_tree ''b'' 7 [call_tree ''b.x'' 4 [], call_tree ''b.y'' 3 []]]"

lemma pruned_tree_is_heaviest_witness:
  "\<exists>t'. prune_tree small_tree 2 3 1 = (t', 2) \<and> subtree_size t' + 2 = subtree_size small_tree"
proof -
  let ?xs = "pre 1 (mb_children (sort_tree small_tree))"
  have "tree_all lightens small_tree" by (simp add: small_tree_def call_tree_def)
  moreover have "\<forall>x \<in> set ?xs. fst x < 2 ^ 16" by (simp add: small_tree_def call_tree_def)
  moreover obtain t' elided where "prune_tree small_tree 2 3 1 = (t', elided)" by fastforce
  moreover have "elided = 2"
    using \<open>prune_tree small_tree 2 3 1 = (t', elided)\<close>
    by (simp add: prune_tree_def small_tree_def call_tree_def rank_key_def less_eq_prod_def Let_def)
  ultimately show ?thesis
    using pruned_tree_is_heaviest [OF _ refl, of small_tree 2 3 1 t' elided] by blast
qed

end
