(* ===== verification/InferenceTool.thy ===== *)
theory InferenceTool
  imports TreePruneFacts RulesCapture SessionCache
begin

text \<open>
  The breakdown tool, \<open>crates/smeltr-mcp/src/tools/inference_breakdown.rs\<close>, from its arguments to
  its response, with the notices of \<open>crates/smeltr-analyzer/src/breakdown.rs\<close>.  Resolving and
  reading the session is an argument; a value of the field filter that is no bool, number or
  string is \<open>None\<close>.
\<close>

section \<open>Notices\<close>

datatype attribution_gap = LazyEval string | SidecarAbsent string

fun gap_advice :: "attribution_gap \<Rightarrow> string" where
  "gap_advice (LazyEval a) = a"
| "gap_advice (SidecarAbsent a) = a"

record breakdown_notices =
  bn_sampling_disable_episodes :: nat
  bn_apportioned :: "apportioned_ops option"
  bn_attribution_gap :: "attribution_gap option"

definition detect_notices :: "event list \<Rightarrow> breakdown_notices" where
  "detect_notices es =
     \<lparr>bn_sampling_disable_episodes = sampling_disable_episodes es,
      bn_apportioned = apportioned_detect es,
      bn_attribution_gap =
        (case lazy_detect es of
           Some gap \<Rightarrow> Some (LazyEval (lazy_advice gap))
         | None \<Rightarrow> map_option (\<lambda>a. SidecarAbsent (sidecar_advice a)) (sidecar_detect es))\<rparr>"

section \<open>Arguments and response\<close>

record breakdown_params =
  bp_max_depth :: "u16 option"
  bp_top_n :: "u32 option"
  bp_min_gpu_ns :: "u64 option"
  bp_include_ops :: bool
  bp_top_ops_per_leaf :: u32
  bp_field_filter :: "(string \<times> field_value option) list option"
  bp_group_by :: "string option"

datatype tool_error =
  BadGroupBy string
| BadCount string nat nat
| TooManyOps u32
| BadFilter string
| NoBreakdown breakdown_error
| SessionError checked_error

record breakdown_response =
  br_root :: module_breakdown
  br_attribution_gap :: "string option"
  br_degraded :: "string option"
  br_op_times_estimated :: "string option"
  br_elided_nodes :: nat

definition parse_group_by :: "string option \<Rightarrow> tool_error + op_group_by" where
  "parse_group_by g =
     (case g of
        None \<Rightarrow> Inr ByName
      | Some s \<Rightarrow> if s = ''name'' then Inr ByName else if s = ''kind'' then Inr ByKind else Inl (BadGroupBy s))"

definition bounded_count :: "string \<Rightarrow> ('a::len) word option \<Rightarrow> 'a word \<Rightarrow> 'a word \<Rightarrow> tool_error + 'a word" where
  "bounded_count nm value dflt mx =
     (let v = (case value of None \<Rightarrow> dflt | Some v \<Rightarrow> v)
      in if v = 0 \<or> mx < v then Inl (BadCount nm (unat mx) (unat v)) else Inr v)"

fun convert_filter :: "(string \<times> field_value option) list \<Rightarrow> tool_error + fields" where
  "convert_filter [] = Inr []"
| "convert_filter ((k, None) # kvs) = Inl (BadFilter k)"
| "convert_filter ((k, Some v) # kvs) =
     (case convert_filter kvs of Inl e \<Rightarrow> Inl e | Inr flt \<Rightarrow> Inr ((k, v) # flt))"

definition apply_field_filter ::
  "(string \<times> field_value option) list option \<Rightarrow> module_breakdown \<Rightarrow> tool_error + module_breakdown" where
  "apply_field_filter raw t =
     (case raw of
        None \<Rightarrow> Inr t
      | Some [] \<Rightarrow> Inr t
      | Some kvs \<Rightarrow>
          (case convert_filter kvs of
             Inl e \<Rightarrow> Inl e
           | Inr flt \<Rightarrow> Inr (fst (prune_by_field_filter flt t))))"

section \<open>The tool\<close>

definition breakdown_of_events ::
  "breakdown_params \<Rightarrow> op_group_by \<Rightarrow> u16 \<Rightarrow> u32 \<Rightarrow> event list \<Rightarrow> (tool_error + breakdown_response) option" where
  "breakdown_of_events p group_by max_depth top_n es =
     (let notices = detect_notices es
      in case compute es of
           None \<Rightarrow> None
         | Some (Inl e) \<Rightarrow> Some (Inl (NoBreakdown e))
         | Some (Inr t) \<Rightarrow>
             (case apply_field_filter (bp_field_filter p) t of
                Inl e \<Rightarrow> Some (Inl e)
              | Inr t1 \<Rightarrow>
                  (case prune_tree t1 max_depth (unat top_n)
                          (case bp_min_gpu_ns p of None \<Rightarrow> 0 | Some n \<Rightarrow> n) of
                     (t2, elided) \<Rightarrow> Some (Inr
                       \<lparr>br_root = shape_ops (bp_include_ops p) (unat (bp_top_ops_per_leaf p))
                                    (apply_op_group_by group_by t2),
                        br_attribution_gap = map_option gap_advice (bn_attribution_gap notices),
                        br_degraded = degraded_advice (bn_sampling_disable_episodes notices),
                        br_op_times_estimated = Option.bind (bn_apportioned notices) apportioned_ops_advice,
                        br_elided_nodes = elided\<rparr>))))"

definition run_breakdown_tool ::
  "breakdown_params \<Rightarrow> checked_error + event list \<Rightarrow> (tool_error + breakdown_response) option" where
  "run_breakdown_tool p session =
     (case parse_group_by (bp_group_by p) of
        Inl e \<Rightarrow> Some (Inl e)
      | Inr group_by \<Rightarrow>
          (case bounded_count ''max_depth'' (bp_max_depth p) 6 64 of
             Inl e \<Rightarrow> Some (Inl e)
           | Inr max_depth \<Rightarrow>
               (case bounded_count ''top_n'' (bp_top_n p) 20 200 of
                  Inl e \<Rightarrow> Some (Inl e)
                | Inr top_n \<Rightarrow>
                    if 50 < bp_top_ops_per_leaf p then Some (Inl (TooManyOps (bp_top_ops_per_leaf p)))
                    else (case session of
                            Inl e \<Rightarrow> Some (Inl (SessionError e))
                          | Inr es \<Rightarrow> breakdown_of_events p group_by max_depth top_n es))))"

text \<open>
  The breakdown tool always answers: an error exactly for bad arguments or a session without
  events, otherwise a tree of bounded size; and its two explanations of an unattributed session
  exclude each other.
\<close>

section \<open>The size of the answer\<close>

lemma shape_size [simp]: "subtree_size (shape_ops b n t) = subtree_size t"
  by (induction t) (simp add: comp_def cong: map_cong)

lemma group_size [simp]: "subtree_size (apply_op_group_by g t) = subtree_size t"
proof (cases g)
  case ByKind
  then show ?thesis by (induction t) (simp add: comp_def cong: map_cong)
qed (cases t; simp)

lemma tree_all_mono: "tree_all P t \<Longrightarrow> (\<And>x. P x \<Longrightarrow> Q x) \<Longrightarrow> tree_all Q t"
  by (induction t) (auto simp: list_all_iff)

lemma shape_ops_few: "tree_all (\<lambda>x. length (mb_ops x) \<le> n) (shape_ops b n t)"
  by (induction t) (auto simp: list_all_iff)

lemma retain_few:
  "fst (retain_nodes keep n ts) = n + length (pre d ts) \<and>
   length (pre d (snd (retain_nodes keep n ts))) \<le> card (set keep \<inter> {n..<n + length (pre d ts)})"
proof (induction d ts arbitrary: n rule: pre.induct)
  case (1 d)
  then show ?case by simp
next
  case (2 d q c k s t ev cb ch ops dg fl ts)
  let ?t = "ModuleBreakdown q c k s t ev cb ch ops dg fl"
  let ?a = "length (pre (Suc d) ch)" and ?b = "length (pre d ts)"
  have size: "subtree_size ?t = Suc ?a" by (simp add: length_pre)
  let ?I = "\<lambda>lo hi. set keep \<inter> {lo..<hi}"
  have split: "?I n (n + length (pre d (?t # ts))) = ?I n (Suc n) \<union> ?I (Suc n) (Suc n + ?a) \<union> ?I (Suc n + ?a) (Suc n + ?a + ?b)"
    by auto
  have card: "card (?I n (n + length (pre d (?t # ts)))) =
      card (?I n (Suc n)) + card (?I (Suc n) (Suc n + ?a)) + card (?I (Suc n + ?a) (Suc n + ?a + ?b))"
    unfolding split by (subst card_Un_disjoint, auto)+
  note IH1 = "2.IH"(1) [of "Suc n"] and IH2 = "2.IH"(2) [of "Suc n + ?a"]
  show ?case
  proof (cases "n \<in> set keep")
    case True
    then have "?I n (Suc n) = {n}" by auto
    moreover obtain n1 ch' where r1: "retain_nodes keep (Suc n) ch = (n1, ch')" by fastforce
    moreover with IH1 have "n1 = Suc n + ?a" by simp
    moreover obtain n2 ts' where "retain_nodes keep (Suc n + ?a) ts = (n2, ts')" by fastforce
    ultimately show ?thesis
      using True IH1 IH2 unfolding card by simp
  next
    case False
    have "n + subtree_size ?t = Suc n + ?a" by (simp add: size del: subtree_size.simps)
    with False IH2 show ?thesis
      unfolding card by (simp del: subtree_size.simps)
  qed
qed

lemma pruned_few:
  assumes "prune_tree t max_depth n min_ns = (t', elided)"
  shows "subtree_size t' \<le> Suc n"
proof -
  let ?ts = "mb_children (sort_tree t)"
  obtain keep where t': "t' = with_children (snd (retain_nodes keep 0 ?ts)) (sort_tree t)" and "length keep \<le> n"
    using assms by (auto simp: prune_tree_def Let_def)
  have "length (pre 1 (snd (retain_nodes keep 0 ?ts))) \<le> card (set keep \<inter> {0..<0 + length (pre 1 ?ts)})"
    using retain_few [of keep 0 ?ts 1] by simp
  also have "\<dots> \<le> card (set keep)" by (intro card_mono) auto
  also have "\<dots> \<le> n" using card_length [of keep] \<open>length keep \<le> n\<close> by simp
  finally show ?thesis by (simp add: t' length_pre)
qed

section \<open>The explanations exclude each other\<close>

lemma no_sidecar_no_windows:
  assumes "\<forall>e \<in> set es. \<not> from_sidecar (payload e)"
  shows "eval_windows es = []"
proof -
  have "\<forall>e \<in> set xs. \<not> from_sidecar (payload e) \<Longrightarrow> foldl eval_step eval_scan_init xs = eval_scan_init" for xs
  proof (induction xs rule: rev_induct)
    case (snoc x xs)
    then show ?case by (cases "payload x") (simp_all add: eval_step_def eval_scan_init_def)
  qed simp
  with assms show ?thesis by (simp add: eval_windows_def eval_scan_init_def)
qed

lemma sidecar_scan_none: "sidecar_scan n first es \<noteq> None \<Longrightarrow> \<forall>e \<in> set es. \<not> from_sidecar (payload e)"
proof (induction es arbitrary: n first)
  case (Cons e es)
  then have e: "\<not> from_sidecar (payload e)" by auto
  show ?case
  proof (cases "is_cb_completed (payload e)")
    case True
    with e Cons.prems Cons.IH show ?thesis by simp
  next
    case False
    with e Cons.prems Cons.IH [of n first] show ?thesis by simp
  qed
qed simp

lemma lazy_needs_windows: "eval_windows es = [] \<Longrightarrow> lazy_detect es = None"
proof -
  assume none: "eval_windows es = []"
  have "eval_at [] ts = None" for ts using eval_at_less [of "[]" ts] by (cases "eval_at [] ts") auto
  then have "lz_first (foldl (lazy_step [] seen) s cbs) = lz_first s" for seen s cbs
    by (induction cbs arbitrary: s) (simp_all add: lazy_step_def Let_def)
  then show ?thesis by (simp add: lazy_detect_def lazy_scan_def none Let_def)
qed

lemma gaps_exclusive: "lazy_detect es = None \<or> sidecar_detect es = None"
  using lazy_needs_windows no_sidecar_no_windows sidecar_scan_none unfolding sidecar_detect_def by metis

section \<open>The tool\<close>

definition args_ok :: "breakdown_params \<Rightarrow> bool" where
  "args_ok p \<longleftrightarrow>
     bp_group_by p \<in> {None, Some ''name'', Some ''kind''} \<and>
     (case bp_max_depth p of None \<Rightarrow> True | Some d \<Rightarrow> 0 < d \<and> d \<le> 64) \<and>
     (case bp_top_n p of None \<Rightarrow> True | Some n \<Rightarrow> 0 < n \<and> n \<le> 200) \<and>
     bp_top_ops_per_leaf p \<le> 50"

definition filter_ok :: "breakdown_params \<Rightarrow> bool" where
  "filter_ok p \<longleftrightarrow> (case bp_field_filter p of None \<Rightarrow> True | Some kvs \<Rightarrow> list_all (\<lambda>kv. snd kv \<noteq> None) kvs)"

lemma bounded_count_iff:
  "isl (bounded_count nm v dflt mx) \<longleftrightarrow>
     (case v of None \<Rightarrow> dflt = 0 \<or> mx < dflt | Some x \<Rightarrow> x = 0 \<or> mx < x)"
  by (simp add: bounded_count_def Let_def split: option.split)

lemma bounded_count_le: "bounded_count nm v dflt mx = Inr x \<Longrightarrow> x \<le> mx"
  by (auto simp: bounded_count_def Let_def split: if_splits)

lemma group_by_iff: "isl (parse_group_by g) \<longleftrightarrow> g \<notin> {None, Some ''name'', Some ''kind''}"
  by (auto simp: parse_group_by_def split: option.split)

lemma convert_filter_iff: "isl (convert_filter kvs) \<longleftrightarrow> \<not> list_all (\<lambda>kv. snd kv \<noteq> None) kvs"
  by (induction kvs rule: convert_filter.induct) (auto split: sum.split)

lemma apply_filter_iff: "isl (apply_field_filter (bp_field_filter p) t) \<longleftrightarrow> \<not> filter_ok p"
proof (cases "bp_field_filter p")
  case None
  then show ?thesis by (simp add: apply_field_filter_def filter_ok_def)
next
  case (Some kvs)
  have "isl (apply_field_filter (Some kvs) t) \<longleftrightarrow> isl (convert_filter kvs)"
    by (cases kvs) (simp_all add: apply_field_filter_def split: sum.split)
  with Some convert_filter_iff [of kvs] show ?thesis by (simp add: filter_ok_def)
qed

definition bounded_answer :: "breakdown_response \<Rightarrow> bool" where
  "bounded_answer r \<longleftrightarrow>
     subtree_size (br_root r) \<le> 201 \<and> tree_all (\<lambda>x. length (mb_ops x) \<le> 50) (br_root r)"

lemma breakdown_of_events_answers:
  assumes "top_n \<le> 200" and "bp_top_ops_per_leaf p \<le> 50"
  shows "\<exists>a. breakdown_of_events p g max_depth top_n es = Some a \<and>
    (isl a \<longleftrightarrow> es = [] \<or> \<not> filter_ok p) \<and> (\<forall>r. a = Inr r \<longrightarrow> bounded_answer r)"
proof -
  obtain c where c: "compute es = Some c" "c = Inl EmptySession \<longleftrightarrow> es = []" using compute_total by blast
  show ?thesis
  proof (cases c)
    case (Inl e)
    with c show ?thesis by (cases e) (simp add: breakdown_of_events_def)
  next
    case (Inr t)
    with c have ne: "es \<noteq> []" by auto
    show ?thesis
    proof (cases "apply_field_filter (bp_field_filter p) t")
      case (Inl e)
      with apply_filter_iff [of p t] Inr c show ?thesis by (simp add: breakdown_of_events_def)
    next
      case f: (Inr t1)
      obtain t2 elided where pr: "prune_tree t1 max_depth (unat top_n)
          (case bp_min_gpu_ns p of None \<Rightarrow> 0 | Some n \<Rightarrow> n) = (t2, elided)" by fastforce
      have n: "unat top_n \<le> 200" "unat (bp_top_ops_per_leaf p) \<le> 50"
        using assms by (simp_all add: word_le_nat_alt)
      from pruned_few [OF pr] n(1) have "subtree_size t2 \<le> 201" by simp
      moreover have "tree_all (\<lambda>x. length (mb_ops x) \<le> 50)
          (shape_ops (bp_include_ops p) (unat (bp_top_ops_per_leaf p)) (apply_op_group_by g t2))"
        by (rule tree_all_mono [OF shape_ops_few]) (use n(2) in simp)
      moreover have "filter_ok p" using apply_filter_iff [of p t] f by simp
      ultimately show ?thesis
        using Inr c(1) ne f pr by (simp add: breakdown_of_events_def Let_def bounded_answer_def)
    qed
  qed
qed

text \<open>
  C34. The breakdown tool always returns.  It answers with an error exactly when an argument is out
  of range, the session cannot be read, it holds no event or a filter value is no scalar;
  otherwise the tree has at most 201 nodes of at most 50 ops each, whatever the session.
\<close>

theorem breakdown_tool_answers:
  "\<exists>a. run_breakdown_tool p session = Some a \<and>
     (isl a \<longleftrightarrow> \<not> args_ok p \<or> isl session \<or> session = Inr [] \<or> \<not> filter_ok p) \<and>
     (case a of Inl _ \<Rightarrow> True | Inr r \<Rightarrow> bounded_answer r)"
proof -
  let ?G = "parse_group_by (bp_group_by p)"
  let ?D = "bounded_count ''max_depth'' (bp_max_depth p) 6 64 :: tool_error + u16"
  let ?N = "bounded_count ''top_n'' (bp_top_n p) 20 200 :: tool_error + u32"
  have args: "args_ok p \<longleftrightarrow> \<not> isl ?G \<and> \<not> isl ?D \<and> \<not> isl ?N \<and> \<not> 50 < bp_top_ops_per_leaf p"
    unfolding args_ok_def group_by_iff bounded_count_iff
    by (simp add: not_less word_gt_0 split: option.split)
  show ?thesis
  proof (cases "args_ok p")
    case False
    then show ?thesis
      unfolding args by (auto simp: run_breakdown_tool_def split: sum.split)
  next
    case True
    then obtain g d n where ok: "?G = Inr g" "?D = Inr d" "?N = Inr n" "\<not> 50 < bp_top_ops_per_leaf p"
      unfolding args by (metis isl_def sum.exhaust)
    show ?thesis
    proof (cases session)
      case (Inl e)
      with ok True show ?thesis by (simp add: run_breakdown_tool_def)
    next
      case (Inr es)
      have "n \<le> 200" "bp_top_ops_per_leaf p \<le> 50" using bounded_count_le [OF ok(3)] ok(4) by simp_all
      from breakdown_of_events_answers [OF this, of g d es] ok True Inr show ?thesis
        by (auto simp: run_breakdown_tool_def split: sum.split)
    qed
  qed
qed

definition default_params :: breakdown_params where
  "default_params = \<lparr>bp_max_depth = None, bp_top_n = None, bp_min_gpu_ns = None, bp_include_ops = True,
     bp_top_ops_per_leaf = 5, bp_field_filter = None, bp_group_by = None\<rparr>"

definition lone_event :: event where
  "lone_event = \<lparr>ts_mono_ns = 0, ts_wall_ns = 0, ev_session_id = 0, ev_source = System, ev_pid = None,
     ev_seq = 0, payload = ThermalState 0\<rparr>"

lemma breakdown_tool_answers_witness:
  "\<exists>r. run_breakdown_tool default_params (Inr [lone_event]) = Some (Inr r) \<and> bounded_answer r"
proof -
  have "args_ok default_params" "filter_ok default_params"
    by (simp_all add: args_ok_def filter_ok_def default_params_def)
  with breakdown_tool_answers [of default_params "Inr [lone_event]"] obtain a where
    "run_breakdown_tool default_params (Inr [lone_event]) = Some a" "\<not> isl a"
    "case a of Inl _ \<Rightarrow> True | Inr r \<Rightarrow> bounded_answer r" by auto
  then show ?thesis by (cases a) auto
qed

end
