(* ===== verification/LiveDelta.thy ===== *)
theory LiveDelta
  imports EventFilter OpClamp OpKinds Fmt SessionDir
begin

text \<open>
  The live tail of a session, \<open>crates/smeltr-mcp/src/tools/subscribe_live.rs\<close>: each poll sums up
  the events after a cursor, which is the number of events consumed.
\<close>

section \<open>The response\<close>

record payload_count =
  pc_kind :: string
  pc_count :: u64

record live_op_delta =
  od_kind :: string
  od_count :: u64
  od_gpu_ms :: f64

record gpu_delta =
  gd_new_cbs :: u64
  gd_gpu_ms_added :: f64

record mem_delta =
  md_current_bytes :: u64
  md_peak_bytes_session :: u64

record live_response =
  lr_session_id :: string
  lr_session_name :: "string option"
  lr_live :: bool
  lr_cursor :: u64
  lr_prev_cursor :: u64
  lr_new_events :: u64
  lr_elapsed_ns :: u64
  lr_by_payload :: "payload_count list"
  lr_gpu :: gpu_delta
  lr_top_ops :: "live_op_delta list"
  lr_memory :: mem_delta
  lr_model_loads :: "(string \<times> u64) list"
  lr_note :: "string option"

section \<open>The events after the cursor\<close>

definition count_payloads :: "event list \<Rightarrow> (string \<times> u64) list" where
  "count_payloads delta = foldl (\<lambda>counts e. entry_mod (payload_kind e) 0 (\<lambda>n. n + 1) counts) [] delta"

definition by_payload :: "event list \<Rightarrow> payload_count list" where
  "by_payload delta =
     sort_key (\<lambda>p. (desc (pc_count p), pc_kind p))
       (map (\<lambda>(k, n). \<lparr>pc_kind = k, pc_count = n\<rparr>) (count_payloads delta))"

definition delta_kind :: "op_sample \<Rightarrow> string" where
  "delta_kind op =
     (case Option.bind (op_symbol op) resolve_kind of
        Some k \<Rightarrow> k
      | None \<Rightarrow> (case op_symbol op of Some s \<Rightarrow> s | None \<Rightarrow> op_name op))"

record delta_acc =
  da_new_cbs :: u64
  da_gpu_ns :: u64
  da_ops :: "(string \<times> u64 \<times> u64) list"
  da_loads :: "(string \<times> u64) list"

definition delta_init :: delta_acc where
  "delta_init = \<lparr>da_new_cbs = 0, da_gpu_ns = 0, da_ops = [], da_loads = []\<rparr>"

definition delta_op :: "op_time_scales \<Rightarrow> u64 \<Rightarrow> delta_acc \<Rightarrow> op_sample \<Rightarrow> delta_acc" where
  "delta_op scales sq a op =
     (let ns = scaled_gpu_ns scales sq (op_gpu_ns op)
      in a\<lparr>da_gpu_ns := da_gpu_ns a + ns,
           da_ops := entry_mod (delta_kind op) (0, 0) (\<lambda>(g, n). (g + ns, n + ucast (op_count op))) (da_ops a)\<rparr>)"

definition delta_step :: "op_time_scales \<Rightarrow> delta_acc \<Rightarrow> event \<Rightarrow> delta_acc" where
  "delta_step scales a e =
     (case payload e of
        MetalCbCompleted _ _ _ _ _ _ \<Rightarrow> a\<lparr>da_new_cbs := da_new_cbs a + 1\<rparr>
      | MetalCbOps _ ops \<Rightarrow> foldl (delta_op scales (ev_seq e)) a ops
      | ModelLoad path bytes _ _ _ _ \<Rightarrow> a\<lparr>da_loads := da_loads a @ [(basename path, bytes)]\<rparr>
      | _ \<Rightarrow> a)"

definition scan_delta :: "op_time_scales \<Rightarrow> event list \<Rightarrow> delta_acc" where
  "scan_delta scales delta = foldl (delta_step scales) delta_init delta"

definition ns_to_ms :: "u64 \<Rightarrow> f64" where
  "ns_to_ms ns = f64_div (f64_of_u64 ns) 1000000"

definition top_ops :: "(string \<times> u64 \<times> u64) list \<Rightarrow> live_op_delta list" where
  "top_ops acc =
     map (\<lambda>(k, g, n). \<lparr>od_kind = k, od_count = n, od_gpu_ms = ns_to_ms g\<rparr>)
       (take 8 (sort_key (\<lambda>(k, g, n). (desc g, k)) acc))"

definition memory_state :: "event list \<Rightarrow> mem_delta" where
  "memory_state events =
     foldl (\<lambda>m e. case payload e of
         MetalDeviceMemSample allocated _ _ \<Rightarrow>
           \<lparr>md_current_bytes = allocated, md_peak_bytes_session = max (md_peak_bytes_session m) allocated\<rparr>
       | _ \<Rightarrow> m)
       \<lparr>md_current_bytes = 0, md_peak_bytes_session = 0\<rparr> events"

definition live_note :: "bool \<Rightarrow> bool \<Rightarrow> bool \<Rightarrow> string option" where
  "live_note clamped nothing_new live =
     (if clamped then Some ''cursor ahead of log (clamped)''
      else if nothing_new then Some (if live then ''no new events'' else ''session finalized; no new events'')
      else if \<not> live then Some ''session finalized''
      else None)"

definition summarize_delta ::
  "event list \<Rightarrow> u64 \<Rightarrow> string \<Rightarrow> string option \<Rightarrow> bool \<Rightarrow> live_response" where
  "summarize_delta events cursor sid nm live =
     (let len = of_nat (length events) :: u64;
          cur = unat (min cursor len);
          delta = drop cur events;
          a = scan_delta (compute_op_time_scales events) delta
      in \<lparr>lr_session_id = sid, lr_session_name = nm, lr_live = live, lr_cursor = len,
          lr_prev_cursor = of_nat cur, lr_new_events = of_nat (length delta),
          lr_elapsed_ns = time_span_ns events, lr_by_payload = by_payload delta,
          lr_gpu = \<lparr>gd_new_cbs = da_new_cbs a, gd_gpu_ms_added = ns_to_ms (da_gpu_ns a)\<rparr>,
          lr_top_ops = top_ops (da_ops a), lr_memory = memory_state events,
          lr_model_loads = da_loads a,
          lr_note = live_note (len < cursor) (delta = []) live\<rparr>)"

section \<open>Which session\<close>

definition is_live :: "session_metadata option \<Rightarrow> bool" where
  "is_live m = (case m of Some md \<Rightarrow> sm_ended md = None | None \<Rightarrow> False)"

text \<open>\<open>max_by\<close> keeps the last of the greatest.\<close>

fun newest_started :: "(string \<times> session_metadata) list \<Rightarrow> (string \<times> session_metadata) option" where
  "newest_started [] = None"
| "newest_started (x # xs) =
     (case newest_started xs of
        None \<Rightarrow> Some x
      | Some y \<Rightarrow> if sm_started (snd x) \<le> sm_started (snd y) then Some y else Some x)"

definition read_metas :: "store \<Rightarrow> (string \<times> session_metadata) list" where
  "read_metas st = [(d, m). (d, Some m) \<leftarrow> st]"

definition resolve_live_session :: "store \<Rightarrow> (string \<times> bool) option" where
  "resolve_live_session st =
     (let metas = read_metas st
      in case newest_started (filter (\<lambda>x. sm_ended (snd x) = None) metas) of
           Some x \<Rightarrow> Some (fst x, True)
         | None \<Rightarrow> map_option (\<lambda>x. (fst x, False)) (newest_started metas))"

text \<open>
  Polling loses and repeats nothing: what a poll reports and what the next one reports from the
  returned cursor on add up to what a single poll would have reported.
\<close>

section \<open>Scales of a prefix\<close>

lemma scales_untouched:
  "sq \<notin> set (map ev_seq es) \<Longrightarrow> map_of (snd (foldl clamp_step st es)) sq = map_of (snd st) sq"
proof (induction es arbitrary: st)
  case (Cons e es)
  have "map_of (snd (clamp_step st e)) sq = map_of (snd st) sq"
    using Cons.prems by (auto simp: clamp_step_def update_conv' split: prod.split option.split)
  with Cons show ?case by simp
qed simp

lemma scales_prefix:
  assumes "distinct (map ev_seq (es @ later))" and "e \<in> set es"
  shows "map_of (compute_op_time_scales (es @ later)) (ev_seq e) = map_of (compute_op_time_scales es) (ev_seq e)"
proof -
  have "ev_seq e \<notin> set (map ev_seq later)" using assms by auto
  then show ?thesis by (simp add: compute_op_time_scales_def scales_untouched)
qed

section \<open>Sums\<close>

definition op_total :: "string \<Rightarrow> delta_acc \<Rightarrow> u64 \<times> u64" where
  "op_total k a = (case map_of (da_ops a) k of None \<Rightarrow> (0, 0) | Some v \<Rightarrow> v)"

definition added :: "delta_acc \<Rightarrow> delta_acc \<Rightarrow> delta_acc \<Rightarrow> bool" where
  "added a b c \<longleftrightarrow>
     da_new_cbs c = da_new_cbs a + da_new_cbs b \<and> da_gpu_ns c = da_gpu_ns a + da_gpu_ns b \<and>
     da_loads c = da_loads a @ da_loads b \<and>
     (\<forall>k. op_total k c = (fst (op_total k a) + fst (op_total k b), snd (op_total k a) + snd (op_total k b)))"

lemma added_op: "added a b c \<Longrightarrow> added a (delta_op scales sq b op) (delta_op scales sq c op)"
  by (auto simp: added_def delta_op_def op_total_def Let_def split: option.splits prod.splits)

lemma added_ops: "added a b c \<Longrightarrow> added a (foldl (delta_op scales sq) b ops) (foldl (delta_op scales sq) c ops)"
  by (induction ops arbitrary: b c) (simp_all add: added_op)

lemma added_step: "added a b c \<Longrightarrow> added a (delta_step scales b e) (delta_step scales c e)"
  by (cases "payload e") (auto simp: delta_step_def added_ops, auto simp: added_def op_total_def)

lemma added_scan: "added (scan_delta scales xs) (scan_delta scales ys) (scan_delta scales (xs @ ys))"
proof -
  have "added a b c \<Longrightarrow> added a (foldl (delta_step scales) b ys) (foldl (delta_step scales) c ys)" for a b c
    by (induction ys arbitrary: b c) (simp_all add: added_step)
  moreover have "added a delta_init a" for a by (simp add: added_def delta_init_def op_total_def)
  ultimately show ?thesis by (simp add: scan_delta_def)
qed

lemma scan_cong:
  assumes "\<And>e. e \<in> set es \<Longrightarrow> map_of s (ev_seq e) = map_of s' (ev_seq e)"
  shows "scan_delta s es = scan_delta s' es"
proof -
  have "foldl (delta_step s) a es = foldl (delta_step s') a es" for a
    using assms
  proof (induction es arbitrary: a)
    case (Cons e es)
    have "delta_op s (ev_seq e) = delta_op s' (ev_seq e)"
      using Cons.prems [of e] by (auto simp: delta_op_def scaled_gpu_ns_def fun_eq_iff Let_def)
    then have "delta_step s a e = delta_step s' a e" by (cases "payload e") (simp_all add: delta_step_def)
    with Cons show ?case by simp
  qed simp
  then show ?thesis by (simp add: scan_delta_def)
qed

lemma count_payloads_snoc [simp]:
  "count_payloads (es @ [e]) = entry_mod (payload_kind e) 0 (\<lambda>n. n + 1) (count_payloads es)"
  by (simp add: count_payloads_def)

lemma count_payloads_distinct: "distinct (map fst (count_payloads es))"
  by (induction es rule: rev_induct) (simp_all, simp add: count_payloads_def)

definition payload_total :: "string \<Rightarrow> payload_count list \<Rightarrow> u64" where
  "payload_total k ps = sum_list (map pc_count (filter (\<lambda>p. pc_kind p = k) ps))"

lemma count_payloads_of:
  "(case map_of (count_payloads es) k of None \<Rightarrow> 0 | Some n \<Rightarrow> n) =
     of_nat (length (filter (\<lambda>e. payload_kind e = k) es))"
  by (induction es rule: rev_induct) (auto simp: count_payloads_def split: option.splits)

lemma distinct_lookup:
  "distinct (map fst al) \<Longrightarrow>
     sum_list (map snd (filter (\<lambda>p. fst p = k) al)) = (case map_of al k of None \<Rightarrow> (0 :: u64) | Some n \<Rightarrow> n)"
proof (induction al)
  case (Cons x al)
  show ?case
  proof (cases "fst x = k")
    case True
    with Cons.prems have "filter (\<lambda>p. fst p = k) al = []" by (fastforce simp: filter_empty_conv image_iff)
    with True show ?thesis by (cases x) simp
  next
    case False
    with Cons show ?thesis by (cases x) simp
  qed
qed simp

lemma payload_total_count: "payload_total k (by_payload es) = of_nat (length (filter (\<lambda>e. payload_kind e = k) es))"
proof -
  let ?l = "map (\<lambda>(k, n). \<lparr>pc_kind = k, pc_count = n\<rparr>) (count_payloads es)"
  have "mset (map pc_count (filter (\<lambda>p. pc_kind p = k) (by_payload es))) =
      mset (map pc_count (filter (\<lambda>p. pc_kind p = k) ?l))" by (simp add: by_payload_def)
  then have "payload_total k (by_payload es) = payload_total k ?l"
    unfolding payload_total_def by (metis sum_mset_sum_list)
  also have "\<dots> = sum_list (map snd (filter (\<lambda>p. fst p = k) (count_payloads es)))"
    by (simp add: payload_total_def filter_map comp_def case_prod_beta)
  finally show ?thesis by (simp add: distinct_lookup count_payloads_distinct count_payloads_of)
qed

section \<open>The ops of a poll\<close>

text \<open>
  The op samples after the first \<open>n\<close> events of a log, by kind, with their time under the clamp of the
  whole log, and what a response shows of them: the total time, and the time and count of each of
  the eight heaviest kinds.
\<close>

type_synonym op_entry = "string \<times> u64 \<times> u64"

definition entries_of :: "op_time_scales \<Rightarrow> event \<Rightarrow> op_entry list" where
  "entries_of scales e =
     (case payload e of
        MetalCbOps _ ops \<Rightarrow>
          map (\<lambda>op. (delta_kind op, scaled_gpu_ns scales (ev_seq e) (op_gpu_ns op), ucast (op_count op))) ops
      | _ \<Rightarrow> [])"

definition op_entries :: "event list \<Rightarrow> nat \<Rightarrow> op_entry list" where
  "op_entries es n = concat (map (entries_of (compute_op_time_scales es)) (drop n es))"

definition total_ms :: "op_entry list \<Rightarrow> f64" where
  "total_ms E = ns_to_ms (sum_list (map (fst \<circ> snd) E))"

definition kind_totals :: "op_entry list \<Rightarrow> op_entry list" where
  "kind_totals E =
     map (\<lambda>k. (k, sum_list (map (fst \<circ> snd) (filter (\<lambda>e. fst e = k) E)),
                  sum_list (map (snd \<circ> snd) (filter (\<lambda>e. fst e = k) E)))) (remdups (map fst E))"

definition reported_ops :: "op_entry list \<Rightarrow> live_op_delta list" where
  "reported_ops E =
     map (\<lambda>(k, g, n). \<lparr>od_kind = k, od_count = n, od_gpu_ms = ns_to_ms g\<rparr>)
       (take 8 (sort_key (\<lambda>(k, g, n). (desc g, k)) (kind_totals E)))"

definition add_entry :: "(string \<times> u64 \<times> u64) list \<Rightarrow> op_entry \<Rightarrow> (string \<times> u64 \<times> u64) list" where
  "add_entry acc e = entry_mod (fst e) (0, 0) (\<lambda>(g, n). (g + fst (snd e), n + snd (snd e))) acc"

lemma delta_step_entries:
  "da_gpu_ns (delta_step scales a e) = da_gpu_ns a + sum_list (map (fst \<circ> snd) (entries_of scales e)) \<and>
   da_ops (delta_step scales a e) = foldl add_entry (da_ops a) (entries_of scales e)"
proof (cases "payload e")
  case (MetalCbOps c ops)
  have "da_gpu_ns (foldl (delta_op scales sq) a ops) = da_gpu_ns a +
      sum_list (map (fst \<circ> snd) (map (\<lambda>op. (delta_kind op, scaled_gpu_ns scales sq (op_gpu_ns op), ucast (op_count op) :: u64)) ops)) \<and>
    da_ops (foldl (delta_op scales sq) a ops) = foldl add_entry (da_ops a)
      (map (\<lambda>op. (delta_kind op, scaled_gpu_ns scales sq (op_gpu_ns op), ucast (op_count op))) ops)" for sq
    by (induction ops arbitrary: a) (simp_all add: delta_op_def Let_def add_entry_def add.assoc)
  then show ?thesis by (simp add: delta_step_def entries_of_def MetalCbOps)
qed (simp_all add: delta_step_def entries_of_def)

lemma scan_entries:
  "da_gpu_ns (scan_delta scales es) = sum_list (map (fst \<circ> snd) (concat (map (entries_of scales) es)))"
  "da_ops (scan_delta scales es) = foldl add_entry [] (concat (map (entries_of scales) es))"
proof -
  have "da_gpu_ns (foldl (delta_step scales) a es) =
      da_gpu_ns a + sum_list (map (fst \<circ> snd) (concat (map (entries_of scales) es))) \<and>
    da_ops (foldl (delta_step scales) a es) = foldl add_entry (da_ops a) (concat (map (entries_of scales) es))" for a
    by (induction es arbitrary: a) (simp_all add: delta_step_entries add.assoc)
  from this [of delta_init]
  show "da_gpu_ns (scan_delta scales es) = sum_list (map (fst \<circ> snd) (concat (map (entries_of scales) es)))"
    "da_ops (scan_delta scales es) = foldl add_entry [] (concat (map (entries_of scales) es))"
    by (simp_all add: scan_delta_def delta_init_def)
qed

lemma add_entries_spec:
  "distinct (map fst (foldl add_entry [] E)) \<and>
   (\<forall>k. map_of (foldl add_entry [] E) k =
     (if k \<in> fst ` set E
      then Some (sum_list (map (fst \<circ> snd) (filter (\<lambda>e. fst e = k) E)),
                 sum_list (map (snd \<circ> snd) (filter (\<lambda>e. fst e = k) E)))
      else None))"
proof (induction E rule: rev_induct)
  case (snoc e E)
  have "filter (\<lambda>e'. fst e' = k) E = []" if "k \<notin> fst ` set E" for k
    using that by (force simp: filter_empty_conv)
  with snoc show ?case by (auto simp: add_entry_def image_iff split: option.splits)
qed simp

lemma top_ops_reported: "top_ops (foldl add_entry [] E) = reported_ops E"
proof -
  let ?acc = "foldl add_entry [] E" and ?key = "\<lambda>(k, g, n). (desc g, k :: string)"
  note spec = add_entries_spec [of E]
  have d: "distinct (map fst ?acc)" using spec by blast
  have dk: "distinct (map fst (kind_totals E))" by (simp add: kind_totals_def comp_def)
  have "(k, v) \<in> set ?acc \<longleftrightarrow> (k, v) \<in> set (kind_totals E)" for k v
  proof -
    have "(k, v) \<in> set ?acc \<longleftrightarrow> map_of ?acc k = Some v" using d by simp
    then show ?thesis using spec by (auto simp: kind_totals_def)
  qed
  then have "set ?acc = set (kind_totals E)" by auto
  with d dk have m: "mset ?acc = mset (kind_totals E)"
    by (simp add: set_eq_iff_mset_eq_distinct distinct_map)
  have "inj_on ?key (set ?acc)" using d by (auto simp: inj_on_def dest: eq_key_imp_eq_value)
  from sort_key_perm_eq [OF m this] show ?thesis by (simp add: top_ops_def reported_ops_def)
qed

section \<open>Polling\<close>

lemma unat_small: "n < 2 ^ 64 \<Longrightarrow> unat (of_nat n :: u64) = n"
  by (simp add: unat_of_nat)

lemma poll_fields:
  assumes "unat cursor \<le> length es" and "length es < 2 ^ 64"
    and r_def: "r = summarize_delta es cursor sid nm live"
  shows "lr_new_events r = of_nat (length (drop (unat cursor) es))"
    and "lr_by_payload r = by_payload (drop (unat cursor) es)"
    and "gd_new_cbs (lr_gpu r) = da_new_cbs (scan_delta (compute_op_time_scales es) (drop (unat cursor) es))"
    and "lr_model_loads r = da_loads (scan_delta (compute_op_time_scales es) (drop (unat cursor) es))"
    and "gd_gpu_ms_added (lr_gpu r) = total_ms (op_entries es (unat cursor))"
    and "lr_top_ops r = reported_ops (op_entries es (unat cursor))"
    and "lr_memory r = memory_state es" and "lr_cursor r = of_nat (length es)"
proof -
  have "cursor \<le> of_nat (length es)"
    unfolding word_le_nat_alt unat_small [OF assms(2)] by (rule assms(1))
  then have cur: "min cursor (of_nat (length es)) = cursor" by (rule min_absorb1)
  note defs = r_def summarize_delta_def Let_def cur
  show "lr_new_events r = of_nat (length (drop (unat cursor) es))"
    and "lr_by_payload r = by_payload (drop (unat cursor) es)"
    and "gd_new_cbs (lr_gpu r) = da_new_cbs (scan_delta (compute_op_time_scales es) (drop (unat cursor) es))"
    and "lr_model_loads r = da_loads (scan_delta (compute_op_time_scales es) (drop (unat cursor) es))"
    and "lr_memory r = memory_state es" and "lr_cursor r = of_nat (length es)"
    by (simp_all add: defs)
  show "gd_gpu_ms_added (lr_gpu r) = total_ms (op_entries es (unat cursor))"
    by (simp add: defs scan_entries total_ms_def op_entries_def)
  show "lr_top_ops r = reported_ops (op_entries es (unat cursor))"
    by (simp add: defs scan_entries top_ops_reported op_entries_def)
qed

lemma entries_cong:
  assumes "map_of s (ev_seq e) = map_of s' (ev_seq e)"
  shows "entries_of s e = entries_of s' e"
  using assms by (cases "payload e") (simp_all add: entries_of_def scaled_gpu_ns_def)

text \<open>Events that come later change nothing about the ops reported already.\<close>

lemma op_entries_grow:
  assumes "n \<le> length es" and "distinct (map ev_seq (es @ later))"
  shows "op_entries (es @ later) n = op_entries es n @ op_entries (es @ later) (length es)"
proof -
  have "entries_of (compute_op_time_scales (es @ later)) e = entries_of (compute_op_time_scales es) e"
    if "e \<in> set (drop n es)" for e
    using scales_prefix [OF assms(2)] that by (intro entries_cong) (meson in_set_dropD)
  then show ?thesis using assms(1) by (simp add: op_entries_def cong: map_cong)
qed

lemma scan_grow:
  assumes "n \<le> length es" and "distinct (map ev_seq (es @ later))"
  shows "added (scan_delta (compute_op_time_scales es) (drop n es))
      (scan_delta (compute_op_time_scales (es @ later)) later)
      (scan_delta (compute_op_time_scales (es @ later)) (drop n es @ later))"
proof -
  have "scan_delta (compute_op_time_scales es) (drop n es) =
      scan_delta (compute_op_time_scales (es @ later)) (drop n es)"
    using scales_prefix [OF assms(2)] by (intro scan_cong) (metis in_set_dropD)
  then show ?thesis by (simp add: added_scan)
qed

text \<open>
  C35. A poll of a log and, from the cursor it returns, a poll of the log grown meanwhile report
  together what a single poll of the grown log would report from the first cursor: the number of
  events, of each kind of event and of command buffers, and the model loads in order.  For the
  ops, with \<open>E\<^sub>1\<close> and \<open>E\<^sub>2\<close> the samples after each cursor with their times under the clamp of the whole
  log read at that poll, the first response shows the total time and the heaviest kinds of
  \<open>E\<^sub>1\<close>, the second those of \<open>E\<^sub>2\<close> and the single one those of \<open>E\<^sub>1\<close> followed by \<open>E\<^sub>2\<close>: the clamp,
  computed anew each time, never changes what was reported.  The memory is that of the last poll.
  The events have distinct sequence numbers and the cursor lies within the log.
\<close>

theorem polls_add_up:
  assumes "unat cursor \<le> length es" and "length (es @ later) < 2 ^ 64"
    and "distinct (map ev_seq (es @ later))"
    and "r1 = summarize_delta es cursor sid nm live" and "r2 = summarize_delta (es @ later) (lr_cursor r1) sid nm live'"
    and "r = summarize_delta (es @ later) cursor sid nm live'"
    and "E1 = op_entries es (unat cursor)" and "E2 = op_entries (es @ later) (length es)"
  shows "lr_new_events r = lr_new_events r1 + lr_new_events r2 \<and>
    (\<forall>k. payload_total k (lr_by_payload r) = payload_total k (lr_by_payload r1) + payload_total k (lr_by_payload r2)) \<and>
    gd_new_cbs (lr_gpu r) = gd_new_cbs (lr_gpu r1) + gd_new_cbs (lr_gpu r2) \<and>
    lr_model_loads r = lr_model_loads r1 @ lr_model_loads r2 \<and>
    gd_gpu_ms_added (lr_gpu r1) = total_ms E1 \<and> lr_top_ops r1 = reported_ops E1 \<and>
    gd_gpu_ms_added (lr_gpu r2) = total_ms E2 \<and> lr_top_ops r2 = reported_ops E2 \<and>
    gd_gpu_ms_added (lr_gpu r) = total_ms (E1 @ E2) \<and> lr_top_ops r = reported_ops (E1 @ E2) \<and>
    lr_cursor r2 = lr_cursor r \<and> lr_memory r2 = lr_memory r"
proof -
  let ?m = "of_nat (length es) :: u64"
  have len: "unat ?m = length es" using assms(2) by (intro unat_small) simp
  have le: "unat cursor \<le> length (es @ later)" "unat ?m \<le> length (es @ later)" "length es < 2 ^ 64"
    using assms(1,2) len by simp_all
  note f1 = poll_fields [OF assms(1) le(3) refl, of sid nm live]
    and f2 = poll_fields [OF le(2) assms(2) refl, of sid nm live', unfolded len]
    and f = poll_fields [OF le(1) assms(2) refl, of sid nm live']
  have r: "r1 = summarize_delta es cursor sid nm live" "r2 = summarize_delta (es @ later) ?m sid nm live'"
    "r = summarize_delta (es @ later) cursor sid nm live'"
    by (simp_all only: assms(4-6) f1(8))
  have cut: "drop (unat cursor) (es @ later) = drop (unat cursor) es @ later" "drop (length es) (es @ later) = later"
    using assms(1) by simp_all
  show ?thesis
    unfolding r assms(7,8) f1 f2 f cut payload_total_count op_entries_grow [OF assms(1,3)]
    using scan_grow [OF assms(1,3)] by (simp add: added_def)
qed

definition live_event :: "u64 \<Rightarrow> payload \<Rightarrow> event" where
  "live_event sq p = \<lparr>ts_mono_ns = sq, ts_wall_ns = sq, ev_session_id = 0, ev_source = MetalHook, ev_pid = None,
     ev_seq = sq, payload = p\<rparr>"

definition first_log :: "event list" where
  "first_log = [live_event 1 (ModelLoad ''/m/a'' 7 0 1 None None), live_event 2 (MetalCbCompleted 1 1 4 None None 9)]"

definition grown_by :: "event list" where
  "grown_by = [live_event 3 (ModelLoad ''/m/b'' 8 0 1 None None)]"

lemma polls_add_up_witness:
  "lr_new_events (summarize_delta (first_log @ grown_by) 0 ''s'' None True) =
     lr_new_events (summarize_delta first_log 0 ''s'' None True) +
     lr_new_events (summarize_delta (first_log @ grown_by) 2 ''s'' None True) \<and>
   lr_cursor (summarize_delta first_log 0 ''s'' None True) = 2"
proof -
  have c: "lr_cursor (summarize_delta first_log 0 ''s'' None True) = 2"
    by (simp add: summarize_delta_def first_log_def Let_def)
  have "unat (0 :: u64) \<le> length first_log" "length (first_log @ grown_by) < 2 ^ 64"
    "distinct (map ev_seq (first_log @ grown_by))"
    by (simp_all add: first_log_def grown_by_def live_event_def)
  from polls_add_up [OF this refl refl refl refl refl, of "''s''" None True True] c show ?thesis by simp
qed

end
