(* ===== verification/Spec2Isabelle.thy ===== *)
theory Spec2Isabelle
  imports
    TableRows MemoryFacts Diff HookRecording SessionDirFacts RuleFacts PressureFacts BudgetFacts
    ReplayFacts DaemonServerFacts Recovery Supervisor ExportFacts SessionCache
    InferenceTool LiveDelta
begin

text \<open>
  A verification library for smeltr, which records the GPU work of a Metal/MLX program and
  analyzes the recording.

  \<^bold>\<open>The program.\<close>  A dylib injected into the target writes frames (command buffers, allocations,
  sampled ops) into a ring in shared memory.  The daemon \<open>smeltrd\<close> supervises the probes of the
  system, drains the rings, stamps the events of every probe and of the Python sidecar, routes each
  one to the session of its process, appends it to the events file of that session and keeps a
  flight recorder of recent events, from which a trigger (a crash, a Metal error, a panic) writes a
  post-mortem file.  Clients attach recordings and ask for events over a socket.  The analyzer
  reads a session back and computes from it: time per module and op, memory per scope, origins of
  dispatches, the difference of two sessions, a report with findings, a trace for a viewer.  The
  terminal interface shows or replays the events, and an MCP server answers the tools of an agent
  from the analyzer's tables, within a budget of characters.

  \<^bold>\<open>Layout.\<close>  Each theory translates one source file or a part of one; \<open>PROJECT.json\<close> gives the
  lines of every definition.  A theory ending in \<open>Facts\<close>, \<open>Props\<close>, \<open>Log\<close> or \<open>Example\<close> holds no
  code of the program, only the proofs about it.

  \<^item> \<open>Prelude\<close>, \<open>Bytes\<close>, \<open>Float64\<close>: fixed-width and saturating arithmetic, folds with an invariant
    (locale \<open>stream_fold\<close>) or a conserved quantity (locale \<open>metered_fold\<close>), byte readers and the
    contract of an encoder/decoder pair (locale \<open>byte_codec\<close>), binary64 products and truncations.
  \<^item> \<open>EventModel\<close>, \<open>Fmt\<close>: \<open>smeltr-core/src/event.rs\<close>, \<open>fmt.rs\<close>.
  \<^item> \<open>RingWire\<close>, \<open>Ring\<close>, \<open>RingQueue\<close>, \<open>RingProps\<close>: the crate \<open>smeltr-metal-ring\<close>.  A frame of any kind
    decodes to itself.  The ring as bytes, with its head and tail, refines a queue from which the
    refused frames are missing and counted (locale \<open>lossy_fifo\<close>); on bytes nobody wrote, the
    reader still makes progress and catches up.
  \<^item> \<open>Codec\<close>, \<open>EventFilter\<close>, \<open>Chunked\<close>, \<open>SessionWriter\<close>, \<open>SessionReader\<close>: \<open>smeltr-core/src/codec.rs\<close>,
    \<open>filter.rs\<close>, \<open>chunked.rs\<close>, \<open>writer.rs\<close>, \<open>reader.rs\<close>.  \<open>WriterFacts\<close> and \<open>WriterLog\<close> hold the
    invariants of the writer under every sequence of answers of the disk; \<open>ParserFacts\<close> the
    incremental frame parser; \<open>StoreFacts\<close> and \<open>StoreProps\<close> what is read back from what was written,
    finished or cut short; \<open>StoreExample\<close> the codecs and the session of the witnesses.
  \<^item> \<open>ActiveSession\<close>, \<open>SessionLog\<close>: \<open>smeltr-daemon/src/sessions.rs\<close> and \<open>smeltr-core/src/clock.rs\<close>; a
    session from opening to finalize, over the writer.
  \<^item> \<open>SessionRouter\<close>, \<open>RouterFacts\<close>: \<open>session_router.rs\<close>.  Its runs are the inductive relation
    \<open>router_steps\<close>, shutdown (\<open>finalize_all\<close>) included, in which an event may be written long after
    it was routed; the invariant \<open>in_step\<close> ties the routing tables to the roster of live recordings.
  \<^item> \<open>FlightRecorder\<close>, \<open>Triggers\<close>, \<open>PostMortem\<close>: \<open>flight_recorder.rs\<close>, \<open>triggers.rs\<close> and the bus watcher
    of \<open>main.rs\<close>.  \<open>DaemonExample\<close> holds the runs of the witnesses.
  \<^item> \<open>Windows\<close>, \<open>ScopeTracker\<close>: \<open>smeltr-analyzer/src/windows.rs\<close>, eval and scope windows and the two
    sweeps that look them up, equal to searches of all windows (locale \<open>scope_tracker\<close>).
  \<^item> \<open>OpClamp\<close>, \<open>OpKinds\<close>, \<open>CommandBuffers\<close>, \<open>Breakdown\<close>, \<open>OpRows\<close>, \<open>TableRows\<close>: \<open>op_clamp.rs\<close>,
    \<open>op_kinds.rs\<close>, \<open>breakdown.rs\<close>.  \<open>BreakdownTree\<close>, \<open>BreakdownFacts\<close>, \<open>BreakdownProps\<close> and
    \<open>OpRowsFacts\<close> show that no time is lost or counted twice between the command buffers, the tree
    of module calls and the op tables.  \<open>TableRows\<close> names the nodes of the tree by their paths and
    shows which of them \<open>render_table\<close> prints; the depth is a \<open>u16\<close>, and the limit below its largest.
  \<^item> \<open>MetalHook\<close>, \<open>MetalHookFacts\<close>, \<open>HookRecording\<close>: \<open>smeltr-probes-metal-hook\<close>, the draining of a
    ring; what the hook wrote is what the finished session reads back.
  \<^item> \<open>DaemonServer\<close>, \<open>DaemonServerFacts\<close>: \<open>server.rs\<close>, \<open>protocol.rs\<close>, \<open>probes.rs\<close> of the daemon and
    \<open>family.rs\<close> of the ring crate: the messages and their framing, the handling of each, and a
    connection from its first message to its end.  When its client is gone, a connection waits for
    the processes still attached over it to exit (\<open>pid_alive\<close>, what \<open>kill\<close> answers is a parameter)
    and then detaches them one by one.  A run (\<open>daemon_steps\<close>) interleaves whole requests, the turns
    of such ending connections, events, flushes and the steps of the shutdown.
  \<^item> \<open>Recovery\<close>, \<open>Supervisor\<close>: \<open>recovery.rs\<close> and \<open>panic_flush.rs\<close> of
    the daemon; \<open>smeltr-probes-core/src/supervisor.rs\<close>, the restarts of a probe as a function of
    how its runs end.
  \<^item> \<open>StrOps\<close>, \<open>Utf8Text\<close>, \<open>Display\<close>, \<open>SessionDir\<close>, \<open>SessionDirFacts\<close>: strings as UTF-8 bytes, the
    printing of numbers, and \<open>smeltr-core/src/session.rs\<close>, \<open>session_resolve.rs\<close>: names of sessions
    and which one a reference finds, whatever the store holds.
  \<^item> \<open>Memory\<close>, \<open>MemoryFacts\<close>, \<open>Origins\<close>, \<open>Diff\<close>: \<open>memory.rs\<close>, \<open>dispatch_origins.rs\<close>, \<open>diff.rs\<close>; each table
    is characterised row by row (locales \<open>keyed_rows\<close>, \<open>op_table\<close>).
  \<^item> \<open>Report\<close>, \<open>RulesGpu\<close>, \<open>RulesMem\<close>, \<open>RulesCapture\<close>, \<open>CrashJoin\<close>, \<open>Analyze\<close>: \<open>report.rs\<close>, the rules
    under \<open>rules/\<close>, \<open>crash_join.rs\<close> and \<open>analyze\<close> of \<open>smeltr-analyzer/src/lib.rs\<close>.  \<open>CrashFacts\<close>,
    \<open>RuleFacts\<close> and \<open>PressureFacts\<close> show which verdict a report opens with, what damage changes,
    that rules and tables agree, and what the over-budget windows are on a log in any order.
  \<^item> \<open>Export\<close>, \<open>ExportFacts\<close>: \<open>export.rs\<close>, the trace events in the order they are pushed; slices on
    a queue do not overlap, and kernels follow their command buffer (or, after a commit that was
    not recorded, the one before).
  \<^item> \<open>UiState\<close>, \<open>UiFacts\<close>, \<open>Replay\<close>, \<open>ReplayFacts\<close>: \<open>state.rs\<close>, \<open>scrub.rs\<close> and \<open>app.rs\<close> of
    \<open>smeltr-tui\<close>: the state shown is always a fold of the events from the last reset up to the
    cursor, and the cursor stands at the clock as long as no tick is so long that the clock wraps.
  \<^item> \<open>Budget\<close>, \<open>BudgetFacts\<close>, \<open>SessionCache\<close>, \<open>TreePrune\<close>, \<open>TreePruneFacts\<close>,
    \<open>InferenceTool\<close>, \<open>LiveDelta\<close>: \<open>budget.rs\<close>,
    \<open>session_cache.rs\<close>, \<open>inference_breakdown.rs\<close> and \<open>subscribe_live.rs\<close> of \<open>smeltr-mcp\<close>: the size
    of an answer, cached sessions under interleaved calls and writes (each call a machine of
    phases, the disk a function of time), the bounded tree, and polling with a cursor, where each
    response shows the op samples after the cursor under the clamp of the whole log.

  \<^bold>\<open>Conventions.\<close>  Integers keep their width (\<open>u64\<close>, \<open>u32\<close>, ...); a saturating operation is written
  \<open>sat_add\<close>, \<open>sat_sub\<close>.  File offsets inside one file are natural numbers and turn into words where
  the code stores them; the theorems about whole files take a file below \<open>2^34\<close> bytes, so that no
  offset or counter of the container wraps.  A hash map is a partial map when only lookups matter,
  and an association list in a given order when the code iterates it, so that what depends on the
  iteration order shows.  Errors are the left side of a sum.  The loops of the ring
  (\<open>write_frame\<close>, \<open>ring_next\<close>), of the tree builder and of the response budget (\<open>fit_loop\<close>) are
  \<open>partial_function (option)\<close> or take a fuel, and a theorem of its own shows that they return; the
  tree builder's fuel is one more than the number of events, which no chain of calls exceeds.

  \<^bold>\<open>Parameters.\<close>  Code outside the repository is an argument: the CBOR encoding of an event and its
  decoder (hypothesis \<open>cbor_ok\<close>: decoding an encoding gives the event), zstd (\<open>zstd_ok\<close>: a frame
  decodes to what was encoded, and its size is found whatever follows it), the checksum, the
  readings of the clocks, the answers of the operating system to each write, fresh session ids.
  \<open>StoreExample\<close> instantiates them with concrete functions.  So are the parsers of RFC 3339 times,
  UUIDs and crash reports (\<open>ips_json\<close>), the files of the report directories with their times, how a
  byte of a string is escaped in JSON, the order in which a hash map is iterated where it shows
  (\<open>map_order\<close>), what the operating system answers to a request (\<open>request_env\<close>) and to recovery
  (\<open>recovery_env\<close>), how each run of a probe ends (\<open>probe_run\<close>), and the disk under the session
  cache (\<open>honest_disk\<close>: a size and a modification time that recur mean an unchanged file).

  \<^bold>\<open>Not modelled.\<close>  Sockets, the accept loop and the streaming to subscribers, async tasks, timers
  and signals of the daemon; each operation of a router, session or recorder runs whole, as under
  its lock, except that an event is routed before it is written.  Also left out are the system
  probes, which call the operating system; the command line and the drawing of the terminal
  interface; the transport of the MCP server and its remaining tools, which print tables of the
  analyzer; the printing of JSON; the C hook and the Python sidecar, which are not
  Rust.  The descriptive part of the session metadata (argv, host, versions) is left out where no
  decision depends on it.
\<close>

end
